(* ===== verification/Prelude.thy ===== *)
theory Prelude
  imports Main "HOL-Library.Word"
begin

text \<open>
  Shared vocabulary of the development: the machine integers of the C sources at
  their width, byte buffers, the little- and big-endian accessors the tools define as
  macros, checked reads of a buffer, and the generic lemmas on lists and words the
  component theories rest on.  The collections \<open>byte_defs\<close> (definitions of the
  byte accessors), \<open>len_simps\<close> (lengths of the encodings) and \<open>layout_simps\<close>
  (reads of a buffer built by concatenation) carry the component proofs.
\<close>

unbundle bit_operations_syntax

section \<open>Machine types\<close>

type_synonym u8 = "8 word"
type_synonym u16 = "16 word"
type_synonym u32 = "32 word"
type_synonym u64 = "64 word"
type_synonym bytes = "u8 list"

named_theorems byte_defs
named_theorems len_simps
named_theorems layout_simps

text \<open>A C string literal as the bytes the compiler emits, without the final NUL.\<close>

definition ascii :: "string \<Rightarrow> bytes" where
  "ascii s = map of_char s"

lemma length_ascii [simp, len_simps]: "length (ascii s) = length s"
  by (simp add: ascii_def)

section \<open>Results of fallible code\<close>

text \<open>
  \<open>Fatal\<close> is a call of a tool's \<open>fatal\<close> macro (a message and \<open>exit(1)\<close>), \<open>Fault\<close> an access
  outside the object the code holds: undefined behaviour in C, made visible here.
\<close>

datatype 'a outcome = Done 'a | Fatal string | Fault

definition bind_outcome :: "'a outcome \<Rightarrow> ('a \<Rightarrow> 'b outcome) \<Rightarrow> 'b outcome" where
  "bind_outcome m f = (case m of Done x \<Rightarrow> f x | Fatal e \<Rightarrow> Fatal e | Fault \<Rightarrow> Fault)"

lemma bind_outcome_simps [simp]:
  "bind_outcome (Done x) f = f x"
  "bind_outcome (Fatal e) f = Fatal e"
  "bind_outcome Fault f = Fault"
  by (simp_all add: bind_outcome_def)

lemma bind_outcome_Done_iff:
  "bind_outcome m f = Done y \<longleftrightarrow> (\<exists>x. m = Done x \<and> f x = Done y)"
  by (cases m) auto

text \<open>The same for code whose loops may not end, for which there is no value.\<close>

definition bind_run :: "'a outcome option \<Rightarrow> ('a \<Rightarrow> 'b outcome option) \<Rightarrow> 'b outcome option" where
  "bind_run m f = (case m of None \<Rightarrow> None | Some (Done x) \<Rightarrow> f x | Some (Fatal e) \<Rightarrow> Some (Fatal e) | Some Fault \<Rightarrow> Some Fault)"

lemma bind_run_simps [simp]:
  "bind_run None f = None"
  "bind_run (Some (Done x)) f = f x"
  "bind_run (Some (Fatal e)) f = Some (Fatal e)"
  "bind_run (Some Fault) f = Some Fault"
  by (simp_all add: bind_run_def)

text \<open>The error numbers the U-Boot sources return.\<close>

definition EPERM :: int where "EPERM = 1"
definition ESRCH :: int where "ESRCH = 3"
definition EIO :: int where "EIO = 5"
definition ENOMEM :: int where "ENOMEM = 12"
definition ENODEV :: int where "ENODEV = 19"
definition EEXIST :: int where "EEXIST = 17"
definition EINVAL :: int where "EINVAL = 22"
definition ENOSYS :: int where "ENOSYS = 38"
definition ENODATA :: int where "ENODATA = 61"

section \<open>Byte accessors\<close>

definition put32le :: "u32 \<Rightarrow> bytes" where
  "put32le v = [ucast v, ucast (drop_bit 8 v), ucast (drop_bit 16 v), ucast (drop_bit 24 v)]"

definition put16be :: "u16 \<Rightarrow> bytes" where
  "put16be v = [ucast (drop_bit 8 v), ucast v]"

definition put32be :: "u32 \<Rightarrow> bytes" where
  "put32be v = [ucast (drop_bit 24 v), ucast (drop_bit 16 v), ucast (drop_bit 8 v), ucast v]"

fun get32le :: "bytes \<Rightarrow> u32 option" where
  "get32le (b0 # b1 # b2 # b3 # _) =
     Some (ucast b0 OR push_bit 8 (ucast b1) OR push_bit 16 (ucast b2) OR push_bit 24 (ucast b3))"
| "get32le _ = None"

fun get32be :: "bytes \<Rightarrow> u32 option" where
  "get32be (b0 # b1 # b2 # b3 # _) =
     Some (push_bit 24 (ucast b0) OR push_bit 16 (ucast b1) OR push_bit 8 (ucast b2) OR ucast b3)"
| "get32be _ = None"

lemma length_put [simp, len_simps]:
  "length (put32le v) = 4" "length (put16be w) = 2" "length (put32be v) = 4"
  by (simp_all add: put32le_def put16be_def put32be_def)

lemma ucast_word_of_nat: "ucast (word_of_nat n :: u32) = (word_of_nat n :: u8)"
  by (simp only: unsigned_of_nat) (simp add: word_of_nat_eq_iff)

lemma unat_ucast64 [simp]: "unat (ucast x :: u64) = unat x" for x :: u32
proof -
  have "unat x < 2 ^ LENGTH(32)" by (rule unsigned_less)
  then show ?thesis by (simp add: unsigned_ucast_eq take_bit_nat_eq_self)
qed

lemma word32_of_bytes:
  fixes v :: u32
  defines "w \<equiv> ucast (ucast v :: u8) OR push_bit 8 (ucast (ucast (drop_bit 8 v) :: u8))
     OR push_bit 16 (ucast (ucast (drop_bit 16 v) :: u8))
     OR push_bit 24 (ucast (ucast (drop_bit 24 v) :: u8) :: u32)"
  shows "w = v"
proof (rule bit_word_eqI)
  fix n :: nat assume "n < LENGTH(32)"
  then have n: "n < 32" by simp
  consider "n < 8" | "8 \<le> n \<and> n < 16" | "16 \<le> n \<and> n < 24" | "24 \<le> n" by linarith
  then show "bit w n = bit v n"
    using n unfolding w_def by cases (auto simp: bit_simps)
qed

lemma get32le_put32le [simp]: "get32le (put32le v @ rest) = Some v"
  by (simp add: put32le_def word32_of_bytes)

lemma get32le_put32le_end [simp]: "get32le (put32le v) = Some v"
  using get32le_put32le [of v "[]"] by simp

lemma get32be_put32be [simp]: "get32be (put32be v @ rest) = Some v"
  using word32_of_bytes [of v] by (simp add: put32be_def ac_simps)

lemma bytes_of_word32:
  fixes b0 b1 b2 b3 :: u8
  defines "w \<equiv> ucast b0 OR push_bit 8 (ucast b1) OR push_bit 16 (ucast b2) OR push_bit 24 (ucast b3) :: u32"
  shows "ucast w = b0" "ucast (drop_bit 8 w) = b1" "ucast (drop_bit 16 w) = b2" "ucast (drop_bit 24 w) = b3"
proof -
  show "ucast w = b0" unfolding w_def by (rule bit_word_eqI) (simp add: bit_simps)
  show "ucast (drop_bit 8 w) = b1" unfolding w_def by (rule bit_word_eqI) (auto simp: bit_simps dest: bit_imp_le_length)
  show "ucast (drop_bit 16 w) = b2" unfolding w_def by (rule bit_word_eqI) (auto simp: bit_simps dest: bit_imp_le_length)
  show "ucast (drop_bit 24 w) = b3" unfolding w_def by (rule bit_word_eqI) (auto simp: bit_simps dest: bit_imp_le_length)
qed

lemma put32le_inject: "put32le v = put32le w \<longleftrightarrow> v = w"
  by (metis get32le_put32le option.inject)

lemma get32le_Some_iff: "(\<exists>v. get32le bs = Some v) \<longleftrightarrow> 4 \<le> length bs"
  by (cases bs rule: get32le.cases) auto

lemma get32le_None_iff: "get32le bs = None \<longleftrightarrow> length bs < 4"
  using get32le_Some_iff [of bs] by (cases "get32le bs") auto

lemma unat_less_if_high_clear:
  fixes w :: "'a::len word"
  assumes "\<And>n. k \<le> n \<Longrightarrow> \<not> bit w n"
  shows "unat w < 2 ^ k"
proof -
  have "take_bit k w = w"
    using assms by (intro bit_word_eqI) (auto simp: bit_take_bit_iff simp flip: not_le)
  then have "unat w = take_bit k (unat w)" by (metis unsigned_take_bit_eq)
  then show ?thesis by (metis take_bit_nat_less_exp)
qed

lemma xor_right_cancel: "x XOR p = y XOR p \<longleftrightarrow> x = (y :: 'a::len word)"
proof
  assume "x XOR p = y XOR p"
  then have "(x XOR p) XOR p = (y XOR p) XOR p" by (rule arg_cong)
  then show "x = y" by (simp only: xor.assoc xor_self_eq xor.right_neutral)
qed simp

lemma and_not_add: "(x AND NOT m) + (x AND m) = (x :: 'a::len word)"
proof -
  have "(x AND NOT m) AND (x AND m) = 0" by (rule bit_word_eqI) (simp add: bit_simps)
  then have "(x AND NOT m) + (x AND m) = (x AND NOT m) OR (x AND m)" by (rule disjunctive_add_eq_or)
  also have "\<dots> = x" by (rule bit_word_eqI) (auto simp: bit_simps)
  finally show ?thesis .
qed

lemma unat_and_not: "unat (x AND NOT m) = unat x - unat (x AND m)" for x :: "'a::len word"
proof -
  have "x AND NOT m = x - (x AND m)" using and_not_add [of x m] by (simp add: eq_diff_eq)
  moreover have "x AND m \<le> x" by (rule word_and_le2)
  ultimately show ?thesis by (simp add: unat_sub)
qed

section \<open>Checked buffer access\<close>

text \<open>
  \<open>slice off n bs\<close> reads \<open>n\<close> bytes at offset \<open>off\<close>, or nothing when the
  range leaves the buffer; \<open>rd8\<close> and \<open>rd32le\<close> are the single reads built on it, and \<open>splice\<close>
  writes a range back.
\<close>

definition slice :: "nat \<Rightarrow> nat \<Rightarrow> bytes \<Rightarrow> bytes option" where
  "slice off n bs = (if off + n \<le> length bs then Some (take n (drop off bs)) else None)"

definition rd8 :: "nat \<Rightarrow> bytes \<Rightarrow> u8 option" where
  "rd8 off bs = (if off < length bs then Some (bs ! off) else None)"

definition rd32le :: "nat \<Rightarrow> bytes \<Rightarrow> u32 option" where
  "rd32le off bs = get32le (drop off bs)"

definition overwrite :: "nat \<Rightarrow> 'a list \<Rightarrow> 'a list \<Rightarrow> 'a list" where
  "overwrite off new bs = take off bs @ new @ drop (off + length new) bs"

lemma length_overwrite [len_simps]:
  "off + length new \<le> length bs \<Longrightarrow> length (overwrite off new bs) = length bs"
  by (simp add: overwrite_def)

lemma slice_Some_length: "slice off n bs = Some xs \<Longrightarrow> length xs = n"
  by (auto simp: slice_def split: if_splits)

lemma slice_append1 [layout_simps]:
  "length xs = off \<Longrightarrow> slice (off + k) n (xs @ ys) = slice k n ys"
  by (simp add: slice_def)

lemma slice_exact: "length xs = off \<Longrightarrow> length ys = n \<Longrightarrow> slice off n (xs @ ys @ zs) = Some ys"
  by (simp add: slice_def)

lemma slice_overwrite_same:
  "off + length new \<le> length bs \<Longrightarrow> slice off (length new) (overwrite off new bs) = Some new"
  by (simp add: slice_def overwrite_def)

lemma slice_overwrite_before:
  assumes "off + length new \<le> length bs" and "o2 + n \<le> off"
  shows "slice o2 n (overwrite off new bs) = slice o2 n bs"
proof -
  have "take n (drop o2 (overwrite off new bs)) = take n (drop o2 (take off bs))"
    using assms by (simp add: overwrite_def)
  also have "\<dots> = take n (drop o2 bs)"
    using assms by (simp add: drop_take)
  finally show ?thesis
    using assms by (simp add: slice_def length_overwrite)
qed

lemma slice_overwrite_after:
  "off + length new \<le> length bs \<Longrightarrow> off + length new \<le> o2 \<Longrightarrow>
     slice o2 n (overwrite off new bs) = slice o2 n bs"
  by (simp add: slice_def overwrite_def)

section \<open>Association lists\<close>

lemma map_of_append_absent:
  "k \<notin> fst ` set A \<Longrightarrow> map_of (A @ B) k = map_of B k"
  by (induction A) auto

lemma map_of_append_new:
  "k \<notin> fst ` set A \<Longrightarrow> map_of (A @ [(k, v)]) = (map_of A)(k \<mapsto> v)"
  by (induction A) (auto simp: fun_eq_iff)

lemma map_of_replace:
  "k \<notin> fst ` set A \<Longrightarrow> map_of (A @ (k, v) # B) = (map_of (A @ (k, u) # B))(k \<mapsto> v)"
  by (induction A) (auto simp: fun_eq_iff)

lemma map_of_move_last:
  assumes "k \<notin> fst ` set A" "k \<notin> fst ` set B"
  shows "map_of (A @ B @ [(k, v)]) = (map_of (A @ (k, u) # B))(k \<mapsto> v)"
  using assms
proof (induction A)
  case Nil
  then show ?case by (simp add: map_of_append_new fun_eq_iff del: map_of_append)
qed (auto simp: fun_eq_iff)

end
