(* ===== verification/RkCrc.thy ===== *)
theory RkCrc
  imports Prelude
begin

text \<open>
  The checksums of \<^verbatim>\<open>tools/rkflashtool-src/rkcrc.h\<close> (the bitwise \<open>SLOW\<close> variants and
  the table-driven ones the build uses) and the \<open>rkcrc\<close> tool of \<^verbatim>\<open>rkcrc.c\<close>, which wraps a
  file into a \<open>KRNL\<close>/\<open>PARM\<close> container with a trailing CRC.  The locale
  \<open>streaming_checksum\<close> is what the chunked readers (this tool, and the loader download of
  \<open>rkflashtool\<close>) rely on; \<open>detecting_checksum\<close> adds the injectivity that
  makes a checksum catch a damaged byte.
\<close>

section \<open>Bitwise variants\<close>

definition rkcrc16_shift :: "u16 \<Rightarrow> u16" where
  "rkcrc16_shift crc =
     (if crc AND 0x8000 \<noteq> 0 then push_bit 1 crc XOR 0x1021 else push_bit 1 crc)"

fun rkcrc16_slow :: "u16 \<Rightarrow> bytes \<Rightarrow> u16" where
  "rkcrc16_slow crc [] = crc"
| "rkcrc16_slow crc (b # bs) =
     rkcrc16_slow ((rkcrc16_shift ^^ 8) (crc XOR push_bit 8 (ucast b))) bs"

definition rkcrc32_shift :: "u32 \<Rightarrow> u32" where
  "rkcrc32_shift crc =
     (if crc AND 0x80000000 \<noteq> 0 then push_bit 1 crc XOR 0x04c10db7 else push_bit 1 crc)"

fun rkcrc32_slow :: "u32 \<Rightarrow> bytes \<Rightarrow> u32" where
  "rkcrc32_slow crc [] = crc"
| "rkcrc32_slow crc (b # bs) =
     rkcrc32_slow ((rkcrc32_shift ^^ 8) (crc XOR push_bit 24 (ucast b))) bs"

section \<open>Table-driven variants\<close>

definition crc16table :: "u16 list" where
  "crc16table =
  [0x0000, 0x1021, 0x2042, 0x3063, 0x4084, 0x50a5, 0x60c6, 0x70e7,
   0x8108, 0x9129, 0xa14a, 0xb16b, 0xc18c, 0xd1ad, 0xe1ce, 0xf1ef,
   0x1231, 0x0210, 0x3273, 0x2252, 0x52b5, 0x4294, 0x72f7, 0x62d6,
   0x9339, 0x8318, 0xb37b, 0xa35a, 0xd3bd, 0xc39c, 0xf3ff, 0xe3de,
   0x2462, 0x3443, 0x0420, 0x1401, 0x64e6, 0x74c7, 0x44a4, 0x5485,
   0xa56a, 0xb54b, 0x8528, 0x9509, 0xe5ee, 0xf5cf, 0xc5ac, 0xd58d,
   0x3653, 0x2672, 0x1611, 0x0630, 0x76d7, 0x66f6, 0x5695, 0x46b4,
   0xb75b, 0xa77a, 0x9719, 0x8738, 0xf7df, 0xe7fe, 0xd79d, 0xc7bc,
   0x48c4, 0x58e5, 0x6886, 0x78a7, 0x0840, 0x1861, 0x2802, 0x3823,
   0xc9cc, 0xd9ed, 0xe98e, 0xf9af, 0x8948, 0x9969, 0xa90a, 0xb92b,
   0x5af5, 0x4ad4, 0x7ab7, 0x6a96, 0x1a71, 0x0a50, 0x3a33, 0x2a12,
   0xdbfd, 0xcbdc, 0xfbbf, 0xeb9e, 0x9b79, 0x8b58, 0xbb3b, 0xab1a,
   0x6ca6, 0x7c87, 0x4ce4, 0x5cc5, 0x2c22, 0x3c03, 0x0c60, 0x1c41,
   0xedae, 0xfd8f, 0xcdec, 0xddcd, 0xad2a, 0xbd0b, 0x8d68, 0x9d49,
   0x7e97, 0x6eb6, 0x5ed5, 0x4ef4, 0x3e13, 0x2e32, 0x1e51, 0x0e70,
   0xff9f, 0xefbe, 0xdfdd, 0xcffc, 0xbf1b, 0xaf3a, 0x9f59, 0x8f78,
   0x9188, 0x81a9, 0xb1ca, 0xa1eb, 0xd10c, 0xc12d, 0xf14e, 0xe16f,
   0x1080, 0x00a1, 0x30c2, 0x20e3, 0x5004, 0x4025, 0x7046, 0x6067,
   0x83b9, 0x9398, 0xa3fb, 0xb3da, 0xc33d, 0xd31c, 0xe37f, 0xf35e,
   0x02b1, 0x1290, 0x22f3, 0x32d2, 0x4235, 0x5214, 0x6277, 0x7256,
   0xb5ea, 0xa5cb, 0x95a8, 0x8589, 0xf56e, 0xe54f, 0xd52c, 0xc50d,
   0x34e2, 0x24c3, 0x14a0, 0x0481, 0x7466, 0x6447, 0x5424, 0x4405,
   0xa7db, 0xb7fa, 0x8799, 0x97b8, 0xe75f, 0xf77e, 0xc71d, 0xd73c,
   0x26d3, 0x36f2, 0x0691, 0x16b0, 0x6657, 0x7676, 0x4615, 0x5634,
   0xd94c, 0xc96d, 0xf90e, 0xe92f, 0x99c8, 0x89e9, 0xb98a, 0xa9ab,
   0x5844, 0x4865, 0x7806, 0x6827, 0x18c0, 0x08e1, 0x3882, 0x28a3,
   0xcb7d, 0xdb5c, 0xeb3f, 0xfb1e, 0x8bf9, 0x9bd8, 0xabbb, 0xbb9a,
   0x4a75, 0x5a54, 0x6a37, 0x7a16, 0x0af1, 0x1ad0, 0x2ab3, 0x3a92,
   0xfd2e, 0xed0f, 0xdd6c, 0xcd4d, 0xbdaa, 0xad8b, 0x9de8, 0x8dc9,
   0x7c26, 0x6c07, 0x5c64, 0x4c45, 0x3ca2, 0x2c83, 0x1ce0, 0x0cc1,
   0xef1f, 0xff3e, 0xcf5d, 0xdf7c, 0xaf9b, 0xbfba, 0x8fd9, 0x9ff8,
   0x6e17, 0x7e36, 0x4e55, 0x5e74, 0x2e93, 0x3eb2, 0x0ed1, 0x1ef0]"

definition crc32table :: "u32 list" where
  "crc32table =
  [0x00000000, 0x04c10db7, 0x09821b6e, 0x0d4316d9, 0x130436dc, 0x17c53b6b, 0x1a862db2, 0x1e472005,
   0x26086db8, 0x22c9600f, 0x2f8a76d6, 0x2b4b7b61, 0x350c5b64, 0x31cd56d3, 0x3c8e400a, 0x384f4dbd,
   0x4c10db70, 0x48d1d6c7, 0x4592c01e, 0x4153cda9, 0x5f14edac, 0x5bd5e01b, 0x5696f6c2, 0x5257fb75,
   0x6a18b6c8, 0x6ed9bb7f, 0x639aada6, 0x675ba011, 0x791c8014, 0x7ddd8da3, 0x709e9b7a, 0x745f96cd,
   0x9821b6e0, 0x9ce0bb57, 0x91a3ad8e, 0x9562a039, 0x8b25803c, 0x8fe48d8b, 0x82a79b52, 0x866696e5,
   0xbe29db58, 0xbae8d6ef, 0xb7abc036, 0xb36acd81, 0xad2ded84, 0xa9ece033, 0xa4aff6ea, 0xa06efb5d,
   0xd4316d90, 0xd0f06027, 0xddb376fe, 0xd9727b49, 0xc7355b4c, 0xc3f456fb, 0xceb74022, 0xca764d95,
   0xf2390028, 0xf6f80d9f, 0xfbbb1b46, 0xff7a16f1, 0xe13d36f4, 0xe5fc3b43, 0xe8bf2d9a, 0xec7e202d,
   0x34826077, 0x30436dc0, 0x3d007b19, 0x39c176ae, 0x278656ab, 0x23475b1c, 0x2e044dc5, 0x2ac54072,
   0x128a0dcf, 0x164b0078, 0x1b0816a1, 0x1fc91b16, 0x018e3b13, 0x054f36a4, 0x080c207d, 0x0ccd2dca,
   0x7892bb07, 0x7c53b6b0, 0x7110a069, 0x75d1adde, 0x6b968ddb, 0x6f57806c, 0x621496b5, 0x66d59b02,
   0x5e9ad6bf, 0x5a5bdb08, 0x5718cdd1, 0x53d9c066, 0x4d9ee063, 0x495fedd4, 0x441cfb0d, 0x40ddf6ba,
   0xaca3d697, 0xa862db20, 0xa521cdf9, 0xa1e0c04e, 0xbfa7e04b, 0xbb66edfc, 0xb625fb25, 0xb2e4f692,
   0x8aabbb2f, 0x8e6ab698, 0x8329a041, 0x87e8adf6, 0x99af8df3, 0x9d6e8044, 0x902d969d, 0x94ec9b2a,
   0xe0b30de7, 0xe4720050, 0xe9311689, 0xedf01b3e, 0xf3b73b3b, 0xf776368c, 0xfa352055, 0xfef42de2,
   0xc6bb605f, 0xc27a6de8, 0xcf397b31, 0xcbf87686, 0xd5bf5683, 0xd17e5b34, 0xdc3d4ded, 0xd8fc405a,
   0x6904c0ee, 0x6dc5cd59, 0x6086db80, 0x6447d637, 0x7a00f632, 0x7ec1fb85, 0x7382ed5c, 0x7743e0eb,
   0x4f0cad56, 0x4bcda0e1, 0x468eb638, 0x424fbb8f, 0x5c089b8a, 0x58c9963d, 0x558a80e4, 0x514b8d53,
   0x25141b9e, 0x21d51629, 0x2c9600f0, 0x28570d47, 0x36102d42, 0x32d120f5, 0x3f92362c, 0x3b533b9b,
   0x031c7626, 0x07dd7b91, 0x0a9e6d48, 0x0e5f60ff, 0x101840fa, 0x14d94d4d, 0x199a5b94, 0x1d5b5623,
   0xf125760e, 0xf5e47bb9, 0xf8a76d60, 0xfc6660d7, 0xe22140d2, 0xe6e04d65, 0xeba35bbc, 0xef62560b,
   0xd72d1bb6, 0xd3ec1601, 0xdeaf00d8, 0xda6e0d6f, 0xc4292d6a, 0xc0e820dd, 0xcdab3604, 0xc96a3bb3,
   0xbd35ad7e, 0xb9f4a0c9, 0xb4b7b610, 0xb076bba7, 0xae319ba2, 0xaaf09615, 0xa7b380cc, 0xa3728d7b,
   0x9b3dc0c6, 0x9ffccd71, 0x92bfdba8, 0x967ed61f, 0x8839f61a, 0x8cf8fbad, 0x81bbed74, 0x857ae0c3,
   0x5d86a099, 0x5947ad2e, 0x5404bbf7, 0x50c5b640, 0x4e829645, 0x4a439bf2, 0x47008d2b, 0x43c1809c,
   0x7b8ecd21, 0x7f4fc096, 0x720cd64f, 0x76cddbf8, 0x688afbfd, 0x6c4bf64a, 0x6108e093, 0x65c9ed24,
   0x11967be9, 0x1557765e, 0x18146087, 0x1cd56d30, 0x02924d35, 0x06534082, 0x0b10565b, 0x0fd15bec,
   0x379e1651, 0x335f1be6, 0x3e1c0d3f, 0x3add0088, 0x249a208d, 0x205b2d3a, 0x2d183be3, 0x29d93654,
   0xc5a71679, 0xc1661bce, 0xcc250d17, 0xc8e400a0, 0xd6a320a5, 0xd2622d12, 0xdf213bcb, 0xdbe0367c,
   0xe3af7bc1, 0xe76e7676, 0xea2d60af, 0xeeec6d18, 0xf0ab4d1d, 0xf46a40aa, 0xf9295673, 0xfde85bc4,
   0x89b7cd09, 0x8d76c0be, 0x8035d667, 0x84f4dbd0, 0x9ab3fbd5, 0x9e72f662, 0x9331e0bb, 0x97f0ed0c,
   0xafbfa0b1, 0xab7ead06, 0xa63dbbdf, 0xa2fcb668, 0xbcbb966d, 0xb87a9bda, 0xb5398d03, 0xb1f880b4]"

definition rkcrc16_step :: "u16 \<Rightarrow> u8 \<Rightarrow> u16" where
  "rkcrc16_step crc b = push_bit 8 crc XOR crc16table ! unat (drop_bit 8 crc XOR ucast b)"

fun rkcrc16 :: "u16 \<Rightarrow> bytes \<Rightarrow> u16" where
  "rkcrc16 crc [] = crc"
| "rkcrc16 crc (b # bs) = rkcrc16 (rkcrc16_step crc b) bs"

definition rkcrc32_step :: "u32 \<Rightarrow> u8 \<Rightarrow> u32" where
  "rkcrc32_step crc b = push_bit 8 crc XOR crc32table ! unat (drop_bit 24 crc XOR ucast b)"

fun rkcrc32 :: "u32 \<Rightarrow> bytes \<Rightarrow> u32" where
  "rkcrc32 crc [] = crc"
| "rkcrc32 crc (b # bs) = rkcrc32 (rkcrc32_step crc b) bs"

section \<open>The shift step of a CRC register of any width\<close>

text \<open>
  \<open>crc_shift p\<close> is one step of a shift register with feedback polynomial \<open>p\<close>; both shift
  functions above are instances.  It is linear, and it is injective when \<open>p\<close> is odd.
\<close>

definition crc_shift :: "'a::len word \<Rightarrow> 'a word \<Rightarrow> 'a word" where
  "crc_shift p c = (if bit c (LENGTH('a) - 1) then push_bit 1 c XOR p else push_bit 1 c)"

lemma and_2p_iff_bit: "c AND push_bit n 1 \<noteq> 0 \<longleftrightarrow> bit c n" if "n < LENGTH('a)" for c :: "'a::len word"
proof -
  have "c AND push_bit n 1 = (if bit c n then push_bit n 1 else 0)"
    using that by (auto intro!: bit_word_eqI simp: bit_simps)
  moreover have "bit (push_bit n 1 :: 'a word) n"
    using that by (simp add: bit_simps)
  ultimately show ?thesis by (metis bit_0_eq bot_fun_def bot_bool_def)
qed

lemma rkcrc16_shift_eq: "rkcrc16_shift = crc_shift 0x1021"
proof
  fix c
  show "rkcrc16_shift c = crc_shift 0x1021 c"
    using and_2p_iff_bit [of 15 c] by (simp add: rkcrc16_shift_def crc_shift_def)
qed

lemma rkcrc32_shift_eq: "rkcrc32_shift = crc_shift 0x04c10db7"
proof
  fix c
  show "rkcrc32_shift c = crc_shift 0x04c10db7 c"
    using and_2p_iff_bit [of 31 c] by (simp add: rkcrc32_shift_def crc_shift_def)
qed

lemma crc_shift_xor: "crc_shift p (x XOR y) = crc_shift p x XOR crc_shift p y"
  by (rule bit_word_eqI) (auto simp: crc_shift_def bit_simps)

lemma crc_shift_funpow_xor:
  "(crc_shift p ^^ k) (x XOR y) = (crc_shift p ^^ k) x XOR (crc_shift p ^^ k) y"
  by (induction k) (simp_all add: crc_shift_xor)

lemma crc_shift_inject:
  fixes c d :: "'a::len word"
  assumes p: "bit p 0" and eq: "crc_shift p c = crc_shift p d"
  shows "c = d"
proof -
  have top: "bit c (LENGTH('a) - 1) = bit d (LENGTH('a) - 1)"
    using arg_cong [OF eq, of "\<lambda>w. bit w 0"] p
    by (auto simp: crc_shift_def bit_simps simp del: push_bit_Suc split: if_splits)
  then have sh: "push_bit 1 c = push_bit 1 d"
    using eq by (cases "bit d (LENGTH('a) - 1)") (simp_all add: crc_shift_def xor_right_cancel)
  show ?thesis
  proof (rule bit_word_eqI)
    fix n assume n: "n < LENGTH('a)"
    show "bit c n = bit d n"
    proof (cases "n = LENGTH('a) - 1")
      case True with top show ?thesis by simp
    next
      case False
      with n have "Suc n < LENGTH('a)" by simp
      with arg_cong [OF sh, of "\<lambda>w. bit w (Suc n)"] show ?thesis
        by (simp add: bit_push_bit_iff del: push_bit_Suc)
    qed
  qed
qed

lemma crc_shift_funpow_inject:
  "bit p 0 \<Longrightarrow> (crc_shift p ^^ k) c = (crc_shift p ^^ k) d \<Longrightarrow> c = d"
  by (induction k) (auto dest: crc_shift_inject)

text \<open>A register whose top \<open>k\<close> bits are clear is just shifted.\<close>

lemma crc_shift_low:
  fixes c :: "'a::len word"
  assumes "k \<le> LENGTH('a)"
  shows "(crc_shift p ^^ k) (take_bit (LENGTH('a) - k) c) = push_bit k c"
  using assms
proof (induction k arbitrary: c)
  case 0
  then show ?case by (simp add: take_bit_word_eq_self)
next
  case (Suc k)
  let ?t = "take_bit (LENGTH('a) - Suc k) c"
  have "\<not> LENGTH('a) \<le> LENGTH('a) - Suc k" using len_gt_0 [where 'a = 'a] by linarith
  then have "\<not> bit ?t (LENGTH('a) - 1)" by (simp add: bit_take_bit_iff)
  then have "crc_shift p ?t = push_bit 1 ?t" by (simp add: crc_shift_def)
  also have "\<dots> = take_bit (LENGTH('a) - k) (push_bit 1 c)"
    using Suc.prems by (auto intro!: bit_word_eqI simp: bit_simps simp del: push_bit_Suc)
  finally have "(crc_shift p ^^ Suc k) ?t = (crc_shift p ^^ k) (take_bit (LENGTH('a) - k) (push_bit 1 c))"
    by (simp only: funpow_Suc_right o_apply)
  also have "\<dots> = push_bit k (push_bit 1 c)" using Suc by simp
  finally show ?case by (simp only: push_bit_push_bit) (simp add: add.commute)
qed

lemma crc_shift_byte:
  fixes c :: "'a::len word"
  assumes "k \<le> LENGTH('a)"
  shows "(crc_shift p ^^ k) (c XOR push_bit (LENGTH('a) - k) v) =
     push_bit k c XOR (crc_shift p ^^ k) (push_bit (LENGTH('a) - k) (drop_bit (LENGTH('a) - k) c XOR v))"
proof -
  let ?m = "LENGTH('a) - k"
  have "c XOR push_bit ?m v = take_bit ?m c XOR push_bit ?m (drop_bit ?m c XOR v)"
  proof (rule bit_word_eqI)
    fix n assume "n < LENGTH('a)"
    then show "bit (c XOR push_bit ?m v) n = bit (take_bit ?m c XOR push_bit ?m (drop_bit ?m c XOR v)) n"
      by (cases "n < ?m") (auto simp: bit_simps)
  qed
  then show ?thesis by (simp only: crc_shift_funpow_xor crc_shift_low [OF assms])
qed

section \<open>The tables hold the bitwise result of every byte\<close>

text \<open>
  Entry \<open>2 i\<close> of a CRC table is entry \<open>i\<close> shifted once, and entry \<open>2 i + 1\<close> is that
  with the polynomial added; so a table is right as soon as it starts with 0 and agrees with
  the doubling of its own first half.
\<close>

definition table_entry :: "'a::len word \<Rightarrow> nat \<Rightarrow> 'a word" where
  "table_entry p i = (crc_shift p ^^ 8) (push_bit (LENGTH('a) - 8) (of_nat i))"

definition table_doubling :: "'a::len word \<Rightarrow> 'a word list \<Rightarrow> 'a word list" where
  "table_doubling p T = concat (map (\<lambda>t. [crc_shift p t, crc_shift p t XOR p]) T)"

lemma nth_table_doubling:
  assumes "i < length T"
  shows "table_doubling p T ! (2 * i) = crc_shift p (T ! i)"
    and "table_doubling p T ! Suc (2 * i) = crc_shift p (T ! i) XOR p"
  using assms
  by (induction T arbitrary: i) (auto simp: table_doubling_def nth_Cons split: nat.splits)

lemma crc_shift_commute: "crc_shift p ((crc_shift p ^^ k) x) = (crc_shift p ^^ k) (crc_shift p x)"
  by (simp add: funpow_swap1)

lemma table_entry_double:
  assumes "8 \<le> LENGTH('a)" and "i < 128"
  shows "table_entry p (2 * i) = crc_shift p (table_entry p i :: 'a::len word)"
proof -
  let ?x = "push_bit (LENGTH('a) - 8) (of_nat i) :: 'a word"
  have b: "\<not> bit i 7" using assms(2) by (simp add: bit_iff_odd)
  have "\<not> bit ?x (LENGTH('a) - 1)"
    using assms(1) b by (simp add: bit_push_bit_iff bit_of_nat_iff)
  then have "crc_shift p ?x = push_bit (LENGTH('a) - 8) (of_nat (2 * i))"
    by (simp add: crc_shift_def push_bit_eq_mult ac_simps)
  then show ?thesis by (simp add: table_entry_def crc_shift_commute)
qed

lemma table_entry_one: "8 \<le> LENGTH('a) \<Longrightarrow> table_entry p 1 = (p :: 'a::len word)"
proof -
  assume l: "8 \<le> LENGTH('a)"
  let ?x = "push_bit (LENGTH('a) - 8) 1 :: 'a word"
  have "(crc_shift p ^^ 7) ?x = (crc_shift p ^^ 7) (take_bit (LENGTH('a) - 7) ?x)"
  proof -
    have "take_bit (LENGTH('a) - 7) ?x = ?x"
      using l by (auto intro!: bit_word_eqI simp: bit_simps)
    then show ?thesis by simp
  qed
  also have "\<dots> = push_bit 7 ?x" using l by (simp only: crc_shift_low)
  also have "\<dots> = push_bit (LENGTH('a) - 1) 1"
    using l by (simp only: push_bit_push_bit) simp
  finally have 7: "(crc_shift p ^^ 7) ?x = push_bit (LENGTH('a) - 1) 1" .
  have "(crc_shift p ^^ Suc 7) ?x = crc_shift p ((crc_shift p ^^ 7) ?x)" by (simp only: funpow.simps o_apply)
  also have "\<dots> = crc_shift p (push_bit (LENGTH('a) - 1) 1)" by (simp only: 7)
  also have "\<dots> = p" using l
    by (auto intro!: bit_word_eqI simp: crc_shift_def bit_simps simp del: push_bit_Suc push_bit_of_1)
  finally show ?thesis by (simp add: table_entry_def)
qed

lemma table_entry_zero: "table_entry p 0 = 0"
  using crc_shift_funpow_xor [of 8 p 0 0] by (simp add: table_entry_def)

lemma table_entry_double_Suc:
  assumes "8 \<le> LENGTH('a)" and "i < 128"
  shows "table_entry p (Suc (2 * i)) = crc_shift p (table_entry p i) XOR (p :: 'a::len word)"
proof -
  have "(of_nat (Suc (2 * i)) :: 'a word) = of_nat (2 * i) XOR 1"
    using xor_one_eq [of "of_nat (2 * i) :: 'a word"] by simp
  then have "table_entry p (Suc (2 * i)) = table_entry p (2 * i) XOR (table_entry p 1 :: 'a word)"
    by (simp add: table_entry_def push_bit_xor crc_shift_funpow_xor)
  then show ?thesis using assms by (simp only: table_entry_double table_entry_one)
qed

lemma table_correct:
  fixes T :: "'a::len word list"
  assumes l: "8 \<le> LENGTH('a)" and T0: "T ! 0 = 0" and T: "length T = 256" "T = table_doubling p (take 128 T)"
  shows "i < 256 \<Longrightarrow> T ! i = table_entry p i"
proof (induction i rule: less_induct)
  case (less i)
  let ?h = "i div 2"
  have h: "?h < 128" and hl: "?h < length (take 128 T)" using less.prems T(1) by simp_all
  show ?case
  proof (cases "i = 0")
    case True then show ?thesis by (simp add: T0 table_entry_zero)
  next
    case False
    then have IH: "T ! ?h = table_entry p ?h" using less by simp
    have e: "T ! (2 * ?h) = crc_shift p (T ! ?h)" "T ! Suc (2 * ?h) = crc_shift p (T ! ?h) XOR p"
      using nth_table_doubling [OF hl, of p] h by (simp_all flip: T(2))
    show ?thesis
    proof (cases "even i")
      case True
      then have "i = 2 * ?h" by simp
      then show ?thesis using e(1) IH table_entry_double [OF l h] by metis
    next
      case False
      then have "i = Suc (2 * ?h)" by simp
      then show ?thesis using e(2) IH table_entry_double_Suc [OF l h] by metis
    qed
  qed
qed

lemma crc16table_doubling: "crc16table = table_doubling 0x1021 (take 128 crc16table)"
  unfolding crc16table_def table_doubling_def crc_shift_def by simp

lemma crc32table_doubling: "crc32table = table_doubling 0x04c10db7 (take 128 crc32table)"
  unfolding crc32table_def table_doubling_def crc_shift_def by simp

lemma crc16table_nth: "i < 256 \<Longrightarrow> crc16table ! i = table_entry 0x1021 i"
  by (rule table_correct [OF _ _ _ crc16table_doubling]) (simp_all add: crc16table_def)

lemma crc32table_nth: "i < 256 \<Longrightarrow> crc32table ! i = table_entry 0x04c10db7 i"
  by (rule table_correct [OF _ _ _ crc32table_doubling]) (simp_all add: crc32table_def)

section \<open>Table-driven and bitwise checksums agree\<close>

lemma crc16_index_bound: "unat (drop_bit 8 (crc :: u16) XOR ucast (b :: u8)) < 256"
proof -
  have "\<And>n. 8 \<le> n \<Longrightarrow> \<not> bit (drop_bit 8 crc XOR ucast b) n"
    by (auto simp: bit_simps dest: bit_imp_le_length)
  then show ?thesis using unat_less_if_high_clear [of 8 "drop_bit 8 crc XOR ucast b"] by simp
qed

lemma crc32_index_bound: "unat (drop_bit 24 (crc :: u32) XOR ucast (b :: u8)) < 256"
proof -
  have "\<And>n. 8 \<le> n \<Longrightarrow> \<not> bit (drop_bit 24 crc XOR ucast b) n"
    by (auto simp: bit_simps dest: bit_imp_le_length)
  then show ?thesis using unat_less_if_high_clear [of 8 "drop_bit 24 crc XOR ucast b"] by simp
qed

lemma rkcrc16_step_slow: "rkcrc16_step c b = (rkcrc16_shift ^^ 8) (c XOR push_bit 8 (ucast b))"
  using crc_shift_byte [of 8 "0x1021 :: u16" c "ucast b"] crc16_index_bound [of c b]
  by (simp add: rkcrc16_step_def rkcrc16_shift_eq crc16table_nth table_entry_def)

lemma rkcrc32_step_slow: "rkcrc32_step c b = (rkcrc32_shift ^^ 8) (c XOR push_bit 24 (ucast b))"
  using crc_shift_byte [of 8 "0x04c10db7 :: u32" c "ucast b"] crc32_index_bound [of c b]
  by (simp add: rkcrc32_step_def rkcrc32_shift_eq crc32table_nth table_entry_def)

lemma rkcrc16_eq_slow: "rkcrc16 crc bs = rkcrc16_slow crc bs"
  by (induction bs arbitrary: crc) (simp_all add: rkcrc16_step_slow)

lemma rkcrc32_eq_slow: "rkcrc32 crc bs = rkcrc32_slow crc bs"
  by (induction bs arbitrary: crc) (simp_all add: rkcrc32_step_slow)

section \<open>What the users of a checksum rely on\<close>

locale streaming_checksum =
  fixes step :: "'c \<Rightarrow> 'b \<Rightarrow> 'c"
    and run :: "'c \<Rightarrow> 'b list \<Rightarrow> 'c"
  assumes run_Nil: "run c [] = c"
    and run_Cons: "run c (b # bs) = run (step c b) bs"
begin

lemma run_append: "run c (xs @ ys) = run (run c xs) ys"
  by (induction xs arbitrary: c) (simp_all add: run_Nil run_Cons)

text \<open>Feeding a stream piece by piece gives the checksum of the whole stream.\<close>

lemma fold_chunks: "fold (\<lambda>chunk c. run c chunk) chunks c = run c (concat chunks)"
  by (induction chunks arbitrary: c) (simp_all add: run_Nil run_append)

end

locale detecting_checksum = streaming_checksum +
  assumes step_inj_state: "step c b = step c' b \<Longrightarrow> c = c'"
    and step_inj_byte: "step c b = step c b' \<Longrightarrow> b = b'"
begin

lemma run_inj_state: "run c bs = run c' bs \<Longrightarrow> c = c'"
  by (induction bs arbitrary: c c') (auto simp: run_Nil run_Cons dest: step_inj_state)

text \<open>Damage confined to one symbol changes the checksum, wherever it is.\<close>

lemma run_detects: "run c (xs @ b # ys) = run c (xs @ b' # ys) \<Longrightarrow> b = b'"
  by (auto simp: run_append run_Cons dest!: run_inj_state step_inj_byte)

end

lemma push_bit_ucast_inject:
  fixes b b' :: u8
  assumes "n + 8 \<le> LENGTH('a)" and "push_bit n (ucast b) = (push_bit n (ucast b') :: 'a::len word)"
  shows "b = b'"
proof (rule bit_word_eqI)
  fix k assume "k < LENGTH(8)"
  with arg_cong [OF assms(2), of "\<lambda>w. bit w (n + k)"] assms(1) show "bit b k = bit b' k"
    by (simp add: bit_simps)
qed

lemma crc_byte_inject:
  fixes c c' :: "'a::len word" and b b' :: u8
  assumes p: "bit p 0" and n: "n + 8 \<le> LENGTH('a)"
    and eq: "(crc_shift p ^^ 8) (c XOR push_bit n (ucast b)) = (crc_shift p ^^ 8) (c' XOR push_bit n (ucast b'))"
  shows "b = b' \<Longrightarrow> c = c'" and "c = c' \<Longrightarrow> b = b'"
proof -
  from crc_shift_funpow_inject [OF p eq]
  have e: "c XOR push_bit n (ucast b) = c' XOR push_bit n (ucast b')" .
  then show "b = b' \<Longrightarrow> c = c'" by (simp add: xor_right_cancel)
  show "c = c' \<Longrightarrow> b = b'"
    using e by (auto simp: xor_right_cancel xor.commute [of c'] dest: push_bit_ucast_inject [OF n])
qed

interpretation crc16: detecting_checksum rkcrc16_step rkcrc16
proof
  fix c c' :: u16 and b b' :: u8
  show "rkcrc16_step c b = rkcrc16_step c' b \<Longrightarrow> c = c'"
    using crc_byte_inject(1) [of "0x1021 :: u16" 8 c b c' b]
    by (simp add: rkcrc16_step_slow rkcrc16_shift_eq bit_0)
  show "rkcrc16_step c b = rkcrc16_step c b' \<Longrightarrow> b = b'"
    using crc_byte_inject(2) [of "0x1021 :: u16" 8 c b c b']
    by (simp add: rkcrc16_step_slow rkcrc16_shift_eq bit_0)
qed simp_all

interpretation crc32: detecting_checksum rkcrc32_step rkcrc32
proof
  fix c c' :: u32 and b b' :: u8
  show "rkcrc32_step c b = rkcrc32_step c' b \<Longrightarrow> c = c'"
    using crc_byte_inject(1) [of "0x04c10db7 :: u32" 24 c b c' b]
    by (simp add: rkcrc32_step_slow rkcrc32_shift_eq bit_0)
  show "rkcrc32_step c b = rkcrc32_step c b' \<Longrightarrow> b = b'"
    using crc_byte_inject(2) [of "0x04c10db7 :: u32" 24 c b c b']
    by (simp add: rkcrc32_step_slow rkcrc32_shift_eq bit_0)
qed simp_all

section \<open>The rkcrc tool\<close>

text \<open>
  What the tool meets: whether the input opens, the size \<open>fstat\<close> reports, whether the output
  opens, the pieces the \<open>read\<close> calls deliver until the first that does not return a positive
  count, and which of its \<open>write\<close> calls (numbered from 0) take everything.
\<close>

record rkcrc_env =
  in_open :: bool
  in_stat :: "u64 option"
  out_open :: bool
  in_reads :: "bytes list"
  write_ok :: "nat \<Rightarrow> bool"

definition rkcrc_headers :: "bytes list" where
  "rkcrc_headers = [ascii ''KRNL'', ascii ''PARM'']"

fun rkcrc_which :: "int \<Rightarrow> char list \<Rightarrow> int" where
  "rkcrc_which w [] = w"
| "rkcrc_which w (ch # chs) =
     rkcrc_which (if ch = CHR ''k'' then 0 else if ch = CHR ''p'' then 1 else w) chs"

fun rkcrc_copy :: "(nat \<Rightarrow> bool) \<Rightarrow> nat \<Rightarrow> u32 \<Rightarrow> bytes \<Rightarrow> bytes list \<Rightarrow> (nat \<times> u32 \<times> bytes) outcome" where
  "rkcrc_copy w k crc out [] = Done (k, crc, out)"
| "rkcrc_copy w k crc out (chunk # chunks) =
     (let crc' = rkcrc32 crc chunk in
      if \<not> w k then Fatal ''write error''
      else rkcrc_copy w (Suc k) crc' (out @ chunk) chunks)"

definition rkcrc_main :: "char list \<Rightarrow> string list \<Rightarrow> rkcrc_env \<Rightarrow> bytes outcome" where
  "rkcrc_main opts args env =
     (let which = rkcrc_which (- 1) opts in
      if length args \<noteq> 2 then Fatal ''usage''
      else if \<not> in_open env then Fatal ''open''
      else case in_stat env of None \<Rightarrow> Fatal ''stat'' | Some st_size \<Rightarrow>
        if \<not> out_open env then Fatal ''open''
        else if 0 \<le> which \<and> \<not> write_ok env 0 then Fatal ''write error''
        else
          bind_outcome
            (if 0 \<le> which
             then rkcrc_copy (write_ok env) 1 0
                    (rkcrc_headers ! nat which @ put32le (ucast st_size)) (in_reads env)
             else rkcrc_copy (write_ok env) 0 0 [] (in_reads env))
            (\<lambda>(k, crc, out).
               if \<not> write_ok env k then Fatal ''write error'' else Done (out @ put32le crc)))"

lemma rkcrc_copy_ok:
  "(\<And>j. w j) \<Longrightarrow>
   rkcrc_copy w k crc out chunks =
     Done (k + length chunks, rkcrc32 crc (concat chunks), out @ concat chunks)"
  by (induction chunks arbitrary: k crc out) (simp_all add: Let_def crc32.run_append)

lemma rkcrc_copy_Done:
  "rkcrc_copy w k crc out chunks = Done (k', crc', out') \<Longrightarrow>
     crc' = rkcrc32 crc (concat chunks) \<and> out' = out @ concat chunks"
  by (induction chunks arbitrary: k crc out) (fastforce simp: Let_def crc32.run_append split: if_splits)+

lemma rkcrc_which_cases: "rkcrc_which w chs \<in> {w, 0, 1}"
proof (induction chs arbitrary: w)
  case (Cons c cs)
  then show ?case
    using Cons.IH [of 0] Cons.IH [of 1] Cons.IH [of w] by auto
qed simp

text \<open>The container a \<open>PARM\<close> or \<open>KRNL\<close> file is: tag, length, content, checksum.\<close>

definition rk_container :: "bytes \<Rightarrow> bytes \<Rightarrow> bytes" where
  "rk_container tag content =
     tag @ put32le (of_nat (length content)) @ content @ put32le (rkcrc32 0 content)"

lemma ucast_of_nat_narrow: "(ucast (of_nat n :: u64) :: u32) = of_nat n"
proof -
  have "(2::nat) ^ 32 dvd 2 ^ 64" by (rule le_imp_power_dvd) simp
  then have "n mod 2 ^ 64 mod 2 ^ 32 = n mod 2 ^ 32" by (rule mod_mod_cancel)
  then show ?thesis
    by (simp add: word_unat_eq_iff unsigned_ucast_eq unsigned_of_nat take_bit_eq_mod)
qed

section \<open>Properties\<close>

text \<open>C1: the table-driven checksums of the default build compute what the bitwise \<open>SLOW\<close>
  variants compute, for every start value and every byte string, so the 512 table entries are
  right.\<close>

theorem rkcrc_tables_correct:
  "rkcrc16 c16 bs = rkcrc16_slow c16 bs \<and> rkcrc32 c32 bs = rkcrc32_slow c32 bs"
  by (simp only: rkcrc16_eq_slow rkcrc32_eq_slow)

text \<open>C2: both checksums tell apart two byte strings that differ in one byte, at any position
  and from any start value: a single damaged byte of a parameter block or a loader never passes
  the comparison.\<close>

theorem rkcrc_detects_damaged_byte:
  "(rkcrc16 c16 (xs @ b # ys) = rkcrc16 c16 (xs @ b' # ys)) = (b = b') \<and>
   (rkcrc32 c32 (xs @ b # ys) = rkcrc32 c32 (xs @ b' # ys)) = (b = b')"
  by (auto dest: crc16.run_detects crc32.run_detects)

text \<open>C3: with every system call succeeding, the tool writes the tag its last option selects,
  the length, the content unchanged and the checksum of the whole content (no tag and length
  without an option), however the reads cut the content into pieces.\<close>

theorem rkcrc_main_container:
  assumes "length args = 2" "in_open env" "out_open env" "\<forall>k. write_ok env k"
    and "in_stat env = Some (of_nat (length content))" "concat (in_reads env) = content"
  shows "rkcrc_main opts args env =
    Done (if rkcrc_which (- 1) opts < 0 then content @ put32le (rkcrc32 0 content)
          else rk_container (rkcrc_headers ! nat (rkcrc_which (- 1) opts)) content)"
  using assms by (simp add: rkcrc_main_def rkcrc_copy_ok rk_container_def ucast_of_nat_narrow)

theorem rkcrc_main_container_witness:
  "rkcrc_main ''p'' [''in'', ''out'']
     \<lparr>in_open = True, in_stat = Some 3, out_open = True, in_reads = [[1, 2], [3]], write_ok = \<lambda>_. True\<rparr>
   = Done (rk_container (ascii ''PARM'') [1, 2, 3])"
  using rkcrc_main_container [of "[''in'', ''out'']"
      "\<lparr>in_open = True, in_stat = Some 3, out_open = True, in_reads = [[1, 2], [3]], write_ok = \<lambda>_. True\<rparr>"
      "[1, 2, 3]" "''p''"]
  by (simp add: rkcrc_headers_def)

end
