(* ===== verification/Vendor.thy ===== *)
theory Vendor
  imports Prelude
begin

text \<open>
  U-Boot's vendor storage, \<^verbatim>\<open>arch/arm/mach-rockchip/vendor.c\<close>: small numbered items (serial
  number, MAC addresses) kept in RAM and saved in turn to one of several slots of the boot medium,
  each slot guarded by two copies of a version counter.  The configuration is the box's:
  \<open>CONFIG_MTD_BLK\<close> is off.  A slot holds one \<open>vendor_image\<close>: the header, the item table, the
  data area and the two trailing words tile the \<open>size\<close> bytes of the buffer exactly, so the record
  is the buffer read through the C structs.  16- and 32-bit fields are naturals with the
  wrap-around written out (\<open>w16\<close>, \<open>w32\<close>).
\<close>

section \<open>Widths\<close>

lemmas errno_defs = EPERM_def EIO_def ENOMEM_def ENODEV_def EINVAL_def

definition w16 :: "nat \<Rightarrow> nat" where "w16 n = n mod 65536"
definition w32 :: "nat \<Rightarrow> nat" where "w32 n = n mod 4294967296"

lemma w16_small [simp]: "n < 65536 \<Longrightarrow> w16 n = n"
  by (simp add: w16_def)

lemma w16_sub: "a \<le> f \<Longrightarrow> f < 65536 \<Longrightarrow> w16 (f + 65536 - a) = f - a"
  using mod_add_self2 [of "f - a" 65536] by (simp add: w16_def)

lemma w32_small [simp]: "n < 4294967296 \<Longrightarrow> w32 n = n"
  by (simp add: w32_def)

section \<open>Data\<close>

record vendor_item =
  vid :: nat
  voffset :: nat
  vsize :: nat
  vflag :: nat

record vendor_image =
  tag :: nat
  version :: nat
  next_index :: nat
  item_num :: nat
  free_offset :: nat
  free_size :: nat
  items :: "vendor_item list"
  vdata :: bytes
  hash :: nat
  version2 :: nat

datatype if_type = IF_TYPE_UNKNOWN | IF_TYPE_MMC | IF_TYPE_SCSI | IF_TYPE_RKNAND
  | IF_TYPE_SPINAND | IF_TYPE_SPINOR | IF_TYPE_NVME | IF_TYPE_MTD | IF_TYPE_OTHER

text \<open>
  A medium: the image that starts at each sector, and what a read or write of \<open>n\<close> sectors at a
  sector returns (the count transferred, or an error number).
\<close>

record flash_dev =
  media :: "nat \<Rightarrow> vendor_image"
  rd_count :: "nat \<Rightarrow> nat \<Rightarrow> int"
  wr_count :: "nat \<Rightarrow> nat \<Rightarrow> int"

record blk_desc =
  if_type :: if_type
  rawblksz :: nat
  blk :: flash_dev

record vendor_state =
  bootdev_type :: if_type
  info :: vendor_image
  flash_ops :: "flash_dev option"
  bootdev :: "blk_desc option"
  spinor :: "blk_desc option"
  malloc_ok :: bool

definition VENDOR_TAG :: nat where "VENDOR_TAG = 0x524B5644"
definition MTD_VENDOR_PART_NUM :: nat where "MTD_VENDOR_PART_NUM = 1"
definition NAND_VENDOR_PART_NUM :: nat where "NAND_VENDOR_PART_NUM = 2"
definition VENDOR_PART_NUM :: nat where "VENDOR_PART_NUM = 4"

text \<open>Sector offset of the vendor area, as \<open>vendor_ops\<close> selects it.\<close>

fun vendor_lba :: "if_type \<Rightarrow> nat option" where
  "vendor_lba IF_TYPE_MMC = Some (1024 * 7)"
| "vendor_lba IF_TYPE_SCSI = Some (1024 * 7)"
| "vendor_lba IF_TYPE_RKNAND = Some 0"
| "vendor_lba IF_TYPE_SPINAND = Some 0"
| "vendor_lba IF_TYPE_SPINOR = Some 8"
| "vendor_lba _ = None"

text \<open>
  Geometry as \<open>vendor_storage_init\<close> selects it: sectors per slot, slots, items of the table
  (which \<open>data_offset\<close> is computed from) and bytes of the data area, \<open>hash_offset - data_offset\<close>.
\<close>

record vendor_geom =
  part_size :: nat
  part_num :: nat
  max_item_num :: nat
  data_len :: nat

definition slot_geom :: "nat \<Rightarrow> nat \<Rightarrow> nat \<Rightarrow> vendor_geom" where
  "slot_geom blks parts itms = \<lparr>part_size = blks, part_num = parts, max_item_num = itms,
     data_len = (blks * 512 - 8) - (16 + itms * 8)\<rparr>"

fun vendor_geometry :: "if_type \<Rightarrow> vendor_geom option" where
  "vendor_geometry IF_TYPE_MMC = Some (slot_geom 128 VENDOR_PART_NUM 126)"
| "vendor_geometry IF_TYPE_SCSI = Some (slot_geom 128 VENDOR_PART_NUM 126)"
| "vendor_geometry IF_TYPE_RKNAND = Some (slot_geom 128 NAND_VENDOR_PART_NUM 126)"
| "vendor_geometry IF_TYPE_SPINAND = Some (slot_geom 128 NAND_VENDOR_PART_NUM 126)"
| "vendor_geometry IF_TYPE_SPINOR = Some (slot_geom 8 VENDOR_PART_NUM 62)"
| "vendor_geometry _ = None"

section \<open>Access to the medium\<close>

definition flash_vendor_dev_ops_register :: "vendor_state \<Rightarrow> flash_dev \<Rightarrow> int \<times> vendor_state" where
  "flash_vendor_dev_ops_register st ops =
     (case flash_ops st of None \<Rightarrow> (0, st\<lparr>flash_ops := Some ops\<rparr>) | Some _ \<Rightarrow> (- EPERM, st))"

text \<open>
  The descriptor both \<open>vendor_ops\<close> and \<open>vendor_storage_init\<close> work on: the boot device, or the
  SPI NOR device where booting from NVMe or from UFS with 512-byte blocks.
\<close>

definition vendor_dev_desc :: "vendor_state \<Rightarrow> blk_desc option" where
  "vendor_dev_desc st =
     (case bootdev st of None \<Rightarrow> None | Some d \<Rightarrow>
        if if_type d = IF_TYPE_NVME \<or> (if_type d = IF_TYPE_SCSI \<and> rawblksz d = 512)
        then spinor st else Some d)"

definition vendor_ops_read :: "vendor_state \<Rightarrow> nat \<Rightarrow> nat \<Rightarrow> int \<times> vendor_image" where
  "vendor_ops_read st addr n_sec =
     (case vendor_dev_desc st of None \<Rightarrow> (- ENODEV, info st) | Some d \<Rightarrow>
      (case vendor_lba (if_type d) of None \<Rightarrow> (- ENODEV, info st) | Some lba \<Rightarrow>
       (let dev = (case flash_ops st of Some ops \<Rightarrow> ops | None \<Rightarrow> blk d)
        in (rd_count dev (lba + addr) n_sec, media dev (lba + addr)))))"

definition flash_store :: "flash_dev \<Rightarrow> nat \<Rightarrow> nat \<Rightarrow> vendor_image \<Rightarrow> flash_dev" where
  "flash_store dev sec n_sec img =
     (if wr_count dev sec n_sec = int n_sec then dev\<lparr>media := (media dev)(sec := img)\<rparr> else dev)"

text \<open>
  The medium written is the registered one, else the block device the descriptor stands for.
\<close>

definition vendor_put_dev :: "vendor_state \<Rightarrow> flash_dev \<Rightarrow> vendor_state" where
  "vendor_put_dev st dev =
     (case flash_ops st of Some _ \<Rightarrow> st\<lparr>flash_ops := Some dev\<rparr>
      | None \<Rightarrow>
        (case bootdev st of None \<Rightarrow> st | Some d \<Rightarrow>
           if if_type d = IF_TYPE_NVME \<or> (if_type d = IF_TYPE_SCSI \<and> rawblksz d = 512)
           then st\<lparr>spinor := map_option (blk_update (\<lambda>_. dev)) (spinor st)\<rparr>
           else st\<lparr>bootdev := Some (d\<lparr>blk := dev\<rparr>)\<rparr>))"

definition vendor_ops_write :: "vendor_state \<Rightarrow> vendor_image \<Rightarrow> nat \<Rightarrow> nat \<Rightarrow> int \<times> vendor_state" where
  "vendor_ops_write st img addr n_sec =
     (case vendor_dev_desc st of None \<Rightarrow> (- ENODEV, st) | Some d \<Rightarrow>
      (case vendor_lba (if_type d) of None \<Rightarrow> (- ENODEV, st) | Some lba \<Rightarrow>
       (let dev = (case flash_ops st of Some ops \<Rightarrow> ops | None \<Rightarrow> blk d)
        in (wr_count dev (lba + addr) n_sec,
            vendor_put_dev st (flash_store dev (lba + addr) n_sec img)))))"

section \<open>Initialisation: the newest valid slot\<close>

text \<open>The image a first use of the medium starts from.\<close>

definition vendor_reset_image :: "vendor_geom \<Rightarrow> vendor_image" where
  "vendor_reset_image g =
     \<lparr>tag = VENDOR_TAG, version = 1, next_index = 0, item_num = 0, free_offset = 0,
      free_size = data_len g,
      items = replicate (max_item_num g) \<lparr>vid = 0, voffset = 0, vsize = 0, vflag = 0\<rparr>,
      vdata = replicate (data_len g) 0, hash = 0, version2 = 1\<rparr>"

definition slot_valid :: "vendor_image \<Rightarrow> bool" where
  "slot_valid img \<longleftrightarrow> tag img = VENDOR_TAG \<and> version2 img = version img"

text \<open>
  The scan over the slots, from slot \<open>i\<close> with the best version and index so far; an error of the
  read ends it.
\<close>

fun vendor_scan :: "vendor_state \<Rightarrow> vendor_geom \<Rightarrow> nat \<Rightarrow> nat \<Rightarrow> nat \<Rightarrow> nat \<Rightarrow> (nat \<times> nat) option" where
  "vendor_scan st g 0 i max_ver max_index = Some (max_ver, max_index)"
| "vendor_scan st g (Suc k) i max_ver max_index =
     (let (ret, img) = vendor_ops_read st (part_size g * i) (part_size g) in
      if ret \<noteq> int (part_size g) then None
      else if slot_valid img \<and> max_ver < version img
      then vendor_scan st g k (Suc i) (version img) i
      else vendor_scan st g k (Suc i) max_ver max_index)"

definition vendor_storage_init :: "vendor_state \<Rightarrow> int \<times> vendor_state" where
  "vendor_storage_init st =
     (case vendor_dev_desc st of None \<Rightarrow> (- ENODEV, st) | Some d \<Rightarrow>
      (case vendor_geometry (if_type d) of None \<Rightarrow> (- ENODEV, st) | Some g \<Rightarrow>
       if \<not> malloc_ok st then (- ENOMEM, st\<lparr>bootdev_type := IF_TYPE_UNKNOWN\<rparr>)
       else
       (case vendor_scan st g (part_num g) 0 0 0 of
          None \<Rightarrow> (- EIO, st\<lparr>bootdev_type := IF_TYPE_UNKNOWN\<rparr>)
        | Some (max_ver, max_index) \<Rightarrow>
          if max_ver \<noteq> 0 then
            (let (ret, img) = vendor_ops_read st (part_size g * max_index) (part_size g) in
             if max_index \<noteq> part_num g - 1 \<and> ret \<noteq> int (part_size g)
             then (- EIO, st\<lparr>bootdev_type := IF_TYPE_UNKNOWN\<rparr>)
             else (0, st\<lparr>bootdev_type := if_type d, info := img\<rparr>))
          else (0, st\<lparr>bootdev_type := if_type d, info := vendor_reset_image g\<rparr>))))"

section \<open>Reading and writing items\<close>

text \<open>\<open>if (!bootdev_type) ret = vendor_storage_init();\<close> at the head of both operations.\<close>

definition vendor_ensure_init :: "vendor_state \<Rightarrow> int \<times> vendor_state" where
  "vendor_ensure_init st =
     (if bootdev_type st = IF_TYPE_UNKNOWN then vendor_storage_init st else (0, st))"

text \<open>The search loop: the first of the \<open>n\<close> items with the id; a table shorter than \<open>n\<close> is overrun.\<close>

fun find_item :: "nat \<Rightarrow> nat \<Rightarrow> vendor_item list \<Rightarrow> nat option outcome" where
  "find_item k 0 xs = Done None"
| "find_item k (Suc n) [] = Fault"
| "find_item k (Suc n) (x # xs) =
     (if vid x = k then Done (Some 0)
      else bind_outcome (find_item k n xs) (\<lambda>r. Done (map_option Suc r)))"

definition vendor_storage_read ::
  "vendor_state \<Rightarrow> nat \<Rightarrow> nat \<Rightarrow> (int \<times> bytes \<times> vendor_state) outcome" where
  "vendor_storage_read st0 k size0 =
     (let (ret, st) = vendor_ensure_init st0 in
      if ret < 0 then Done (ret, [], st)
      else bind_outcome (find_item k (item_num (info st)) (items (info st)))
        (\<lambda>r. case r of
           None \<Rightarrow> Done (- EINVAL, [], st)
         | Some i \<Rightarrow>
           (let it = items (info st) ! i; sz = (if vsize it < size0 then vsize it else size0) in
            case slice (voffset it) sz (vdata (info st)) of
              None \<Rightarrow> Fault
            | Some bs \<Rightarrow> Done (int sz, bs, st))))"

definition align64 :: "nat \<Rightarrow> nat" where
  "align64 n = unat ((of_nat n + 0x3F :: u32) AND NOT 0x3F)"

text \<open>\<open>memcpy\<close> into the data area; leaving the area is a fault.\<close>

definition put_data :: "nat \<Rightarrow> bytes \<Rightarrow> bytes \<Rightarrow> bytes outcome" where
  "put_data off new bs = (if off + length new \<le> length bs then Done (overwrite off new bs) else Fault)"

text \<open>
  The compaction loop of the resize branch: \<open>k\<close> items after position \<open>j\<close> move down by one place,
  their bytes to \<open>offset\<close> and onwards.
\<close>

fun shift_down :: "nat \<Rightarrow> nat \<Rightarrow> nat \<Rightarrow> vendor_item list \<Rightarrow> bytes \<Rightarrow> (nat \<times> vendor_item list \<times> bytes) outcome" where
  "shift_down 0 j offset itms bs = Done (offset, itms, bs)"
| "shift_down (Suc k) j offset itms bs =
     (if length itms \<le> Suc j then Fault
      else
        (let nx = itms ! Suc j; next_size = align64 (vsize nx);
             itms' = itms[j := (itms ! j)\<lparr>vid := vid nx, vsize := vsize nx, voffset := offset\<rparr>]
         in case slice (voffset nx) next_size bs of None \<Rightarrow> Fault
          | Some moved \<Rightarrow> bind_outcome (put_data offset moved bs)
              (\<lambda>bs'. shift_down k (Suc j) (w16 (offset + next_size)) itms' bs')))"

text \<open>Version bump, slot rotation and the save to the slot that was next.\<close>

definition bump_version :: "nat \<Rightarrow> vendor_image \<Rightarrow> vendor_image" where
  "bump_version parts img =
     (let v = w32 (version img + 1); nx = w16 (next_index img + 1)
      in img\<lparr>version := v, version2 := v, next_index := (if parts \<le> nx then 0 else nx)\<rparr>)"

definition vendor_save :: "vendor_state \<Rightarrow> vendor_geom \<Rightarrow> vendor_image \<Rightarrow> nat \<Rightarrow> int \<times> vendor_state" where
  "vendor_save st g img sz =
     (let img' = bump_version (part_num g) img; st1 = st\<lparr>info := img'\<rparr>;
          (cnt, st2) = vendor_ops_write st1 img' (part_size g * next_index img) (part_size g)
      in (if cnt = int (part_size g) then int sz else - EIO, st2))"

text \<open>The three ways an item changes the image: in place, moved to the end and resized, appended.\<close>

definition item_update :: "vendor_image \<Rightarrow> nat \<Rightarrow> bytes \<Rightarrow> vendor_image outcome" where
  "item_update img i buf =
     bind_outcome (put_data (voffset (items img ! i)) buf (vdata img))
       (\<lambda>bs. Done (img\<lparr>vdata := bs, items := (items img)[i := (items img ! i)\<lparr>vsize := length buf\<rparr>]\<rparr>))"

definition item_resize :: "vendor_image \<Rightarrow> nat \<Rightarrow> nat \<Rightarrow> bytes \<Rightarrow> vendor_image outcome" where
  "item_resize img i k buf =
     (let align_size = align64 (length buf); alloc_size = align64 (vsize (items img ! i)) in
      bind_outcome
        (shift_down (item_num img - 1 - i) i (voffset (items img ! i)) (items img) (vdata img))
        (\<lambda>(offset, itms, bs).
           let j = item_num img - 1 in
           bind_outcome (put_data offset buf bs)
             (\<lambda>bs'. Done (img\<lparr>items := itms[j := (itms ! j)\<lparr>vid := k, voffset := offset, vsize := length buf\<rparr>],
                  vdata := bs',
                  free_offset := w16 (offset + align_size),
                  free_size := w16 (free_size img + 65536 - (align_size - alloc_size))\<rparr>))))"

definition item_append :: "vendor_image \<Rightarrow> nat \<Rightarrow> bytes \<Rightarrow> vendor_image outcome" where
  "item_append img k buf =
     (let n = item_num img; align_size = align64 (length buf); off = free_offset img in
      if length (items img) \<le> n then Fault
      else bind_outcome (put_data off buf (vdata img))
        (\<lambda>bs. Done (img\<lparr>items := (items img)[n := (items img ! n)\<lparr>vid := k, voffset := off, vsize := length buf\<rparr>],
             vdata := bs,
             free_offset := w16 (off + align_size),
             free_size := w16 (free_size img + 65536 - align_size),
             item_num := w16 (n + 1)\<rparr>)))"

definition vendor_storage_write ::
  "vendor_state \<Rightarrow> nat \<Rightarrow> bytes \<Rightarrow> (int \<times> vendor_state) outcome" where
  "vendor_storage_write st0 k buf =
     (let (ret, st) = vendor_ensure_init st0 in
      if ret < 0 then Done (ret, st)
      else case vendor_geometry (bootdev_type st) of None \<Rightarrow> Done (- ENODEV, st) | Some g \<Rightarrow>
        (let img = info st; sz = length buf; align_size = align64 sz in
         if align_size < sz then Done (- EINVAL, st)
         else bind_outcome (find_item k (item_num img) (items img))
           (\<lambda>r. case r of
              Some i \<Rightarrow>
                if align64 (vsize (items img ! i)) < sz then
                  if free_size img < align_size then Done (- EINVAL, st)
                  else bind_outcome (item_resize img i k buf) (\<lambda>img'. Done (vendor_save st g img' sz))
                else bind_outcome (item_update img i buf) (\<lambda>img'. Done (vendor_save st g img' sz))
            | None \<Rightarrow>
                if item_num img < max_item_num g \<and> align_size \<le> free_size img
                then bind_outcome (item_append img k buf) (\<lambda>img'. Done (vendor_save st g img' sz))
                else Done (- ENOMEM, st))))"

section \<open>Alignment\<close>

lemma and_not_mask_eq: "(w :: 'a::len word) AND NOT (mask k) = push_bit k (drop_bit k w)"
  by (rule bit_word_eqI) (auto simp: bit_simps)

lemma align64_eq: "n < 65536 \<Longrightarrow> align64 n = (n + 63) div 64 * 64"
proof -
  assume n: "n < 65536"
  let ?w = "of_nat n + 0x3F :: u32"
  have m: "(0x3F :: u32) = mask 6" by (simp add: mask_numeral)
  have u: "unat ?w = n + 63" using n by (simp add: unat_word_ariths unsigned_of_nat take_bit_eq_mod)
  have "unat (push_bit 6 (drop_bit 6 ?w)) = (n + 63) div 64 * 64"
    using n u by (simp add: push_bit_eq_mult drop_bit_eq_div unat_word_ariths unat_div_distrib)
  then show ?thesis unfolding align64_def m and_not_mask_eq .
qed

lemma align64_ge: "n < 65536 \<Longrightarrow> n \<le> align64 n"
  by (simp add: align64_eq)

lemma align64_mono: "m \<le> n \<Longrightarrow> n < 65536 \<Longrightarrow> align64 m \<le> align64 n"
  by (simp add: align64_eq div_le_mono)

lemma align64_idem_le: "m \<le> align64 n \<Longrightarrow> m < 65536 \<Longrightarrow> n < 65536 \<Longrightarrow> align64 m \<le> align64 n"
  by (simp add: align64_eq)

section \<open>Layout of the data area\<close>

text \<open>The items lie in table order, each in its own 64-byte aligned extent between \<open>lo\<close> and \<open>hi\<close>.\<close>

fun layout :: "nat \<Rightarrow> vendor_item list \<Rightarrow> nat \<Rightarrow> bool" where
  "layout lo [] hi \<longleftrightarrow> lo \<le> hi"
| "layout lo (x # xs) hi \<longleftrightarrow> lo \<le> voffset x \<and> layout (voffset x + align64 (vsize x)) xs hi"

definition packed :: "vendor_item list \<Rightarrow> nat" where
  "packed xs = (\<Sum>x\<leftarrow>xs. align64 (vsize x))"

definition item_bytes :: "bytes \<Rightarrow> vendor_item \<Rightarrow> bytes" where
  "item_bytes bs it = take (vsize it) (drop (voffset it) bs)"

lemma packed_simps [simp]: "packed [] = 0" "packed (x # xs) = align64 (vsize x) + packed xs"
  by (simp_all add: packed_def)

lemma layout_le: "layout lo xs hi \<Longrightarrow> lo \<le> hi"
  by (induction xs arbitrary: lo) fastforce+

lemma layout_mono: "layout lo xs hi \<Longrightarrow> lo' \<le> lo \<Longrightarrow> hi \<le> hi' \<Longrightarrow> layout lo' xs hi'"
  by (induction xs arbitrary: lo lo') fastforce+

lemma layout_append: "layout lo (xs @ ys) hi \<longleftrightarrow> (\<exists>m. layout lo xs m \<and> layout m ys hi)"
proof (induction xs arbitrary: lo)
  case Nil
  then show ?case by (auto intro: layout_mono)
qed auto

lemma layout_packed: "layout lo xs hi \<Longrightarrow> lo + packed xs \<le> hi"
  by (induction xs arbitrary: lo) fastforce+

lemma layout_member:
  "layout lo xs hi \<Longrightarrow> x \<in> set xs \<Longrightarrow> lo \<le> voffset x \<and> voffset x + align64 (vsize x) \<le> hi"
  by (induction xs arbitrary: lo) (fastforce dest: layout_le)+

lemma item_bytes_take_eq:
  assumes "voffset it + vsize it \<le> n" and "take n bs' = take n bs"
  shows "item_bytes bs' it = item_bytes bs it"
proof -
  have "item_bytes cs it = take (vsize it) (drop (voffset it) (take n cs))" for cs
    using assms(1) by (simp add: item_bytes_def drop_take)
  then show ?thesis using assms(2) by simp
qed

lemma item_bytes_drop_eq:
  assumes "n \<le> voffset it" and "drop n bs' = drop n bs"
  shows "item_bytes bs' it = item_bytes bs it"
proof -
  have "item_bytes cs it = take (vsize it) (drop (voffset it - n) (drop n cs))" for cs
    using assms(1) by (simp add: item_bytes_def)
  then show ?thesis using assms(2) by metis
qed

lemma take_overwrite: "off \<le> length bs \<Longrightarrow> n \<le> off \<Longrightarrow> take n (overwrite off new bs) = take n bs"
  by (simp add: overwrite_def)

lemma drop_overwrite:
  "off + length new \<le> length bs \<Longrightarrow> off + length new \<le> n \<Longrightarrow> drop n (overwrite off new bs) = drop n bs"
  by (simp add: overwrite_def)

lemma item_bytes_overwrite_same:
  "off + length new \<le> length bs \<Longrightarrow> voffset it = off \<Longrightarrow> vsize it \<le> length new \<Longrightarrow>
     item_bytes (overwrite off new bs) it = take (vsize it) new"
  by (simp add: item_bytes_def overwrite_def)

section \<open>The compaction loop\<close>

lemma shift_down_spec:
  assumes "layout off post hi" "hi \<le> length bs" "length bs < 65536" "\<forall>x\<in>set post. vsize x < 65536"
  shows "\<exists>q z bs'.
    shift_down (length post) (length pre) off (pre @ x # post @ rest) bs =
      Done (off + packed post, pre @ q @ z # rest, bs') \<and>
    map vid q = map vid post \<and> map vsize q = map vsize post \<and>
    map (item_bytes bs') q = map (item_bytes bs) post \<and>
    layout off q (off + packed post) \<and> length bs' = length bs \<and> take off bs' = take off bs"
  using assms
proof (induction post arbitrary: pre x off bs)
  case Nil
  then show ?case by (intro exI [of _ "[]"] exI [of _ x] exI [of _ bs]) simp
next
  case (Cons y post)
  let ?a = "align64 (vsize y)"
  let ?moved = "take ?a (drop (voffset y) bs)"
  let ?x1 = "x\<lparr>vid := vid y, vsize := vsize y, voffset := off\<rparr>"
  define bs1 where "bs1 = overwrite off ?moved bs"
  have lay: "off \<le> voffset y" "layout (voffset y + ?a) post hi" using Cons.prems(1) by auto
  have top: "voffset y + ?a \<le> length bs" using lay(2) Cons.prems(2) by (auto dest: layout_le)
  have lenm: "length ?moved = ?a" using top by simp
  have sz: "vsize y \<le> ?a" using Cons.prems(4) by (simp add: align64_ge)
  have l1: "length bs1 = length bs" using lay(1) top lenm by (simp add: bs1_def length_overwrite)
  have "layout (off + ?a) post hi" using lay by (auto intro: layout_mono)
  from Cons.IH [OF this, of bs1 "pre @ [?x1]" y] Cons.prems l1
  obtain q z bs' where IH:
    "shift_down (length post) (Suc (length pre)) (off + ?a) ((pre @ [?x1]) @ y # post @ rest) bs1 =
       Done (off + ?a + packed post, (pre @ [?x1]) @ q @ z # rest, bs')"
    "map vid q = map vid post" "map vsize q = map vsize post"
    "map (item_bytes bs') q = map (item_bytes bs1) post"
    "layout (off + ?a) q (off + ?a + packed post)" "length bs' = length bs1"
    "take (off + ?a) bs' = take (off + ?a) bs1"
    by auto
  have step: "shift_down (length (y # post)) (length pre) off (pre @ x # (y # post) @ rest) bs =
     shift_down (length post) (Suc (length pre)) (off + ?a) ((pre @ [?x1]) @ y # post @ rest) bs1"
    using top lay(1) lenm Cons.prems(3)
    by (simp add: Let_def slice_def put_data_def nth_append bs1_def list_update_append)
  have b1: "item_bytes bs' ?x1 = item_bytes bs y"
  proof -
    have "item_bytes bs' ?x1 = item_bytes bs1 ?x1"
      using IH(7) sz by (intro item_bytes_take_eq [of _ "off + ?a"]) auto
    also have "\<dots> = take (vsize y) ?moved"
      unfolding bs1_def using top lay(1) lenm sz by (subst item_bytes_overwrite_same) auto
    also have "\<dots> = item_bytes bs y" using sz by (simp add: item_bytes_def min_def)
    finally show ?thesis .
  qed
  have "item_bytes bs1 w = item_bytes bs w" if "w \<in> set post" for w
  proof -
    have "off + ?a \<le> voffset w" using layout_member [OF lay(2) that] lay(1) by simp
    then show ?thesis
      unfolding bs1_def using top lay(1) lenm
      by (intro item_bytes_drop_eq [of "off + ?a"]) (auto intro: drop_overwrite)
  qed
  then have b2: "map (item_bytes bs1) post = map (item_bytes bs) post" by simp
  have tk: "take off bs' = take off bs"
  proof -
    have "take off bs' = take off bs1" using IH(7) by (metis le_add1 min.absorb_iff2 min.commute take_take)
    also have "\<dots> = take off bs" unfolding bs1_def using top lay(1) by (intro take_overwrite) auto
    finally show ?thesis .
  qed
  show ?case
    using step IH b1 b2 tk l1
    by (intro exI [of _ "?x1 # q"] exI [of _ z] exI [of _ bs']) (simp add: add.assoc)
qed

section \<open>Invariant and contents\<close>

abbreviation active :: "vendor_image \<Rightarrow> vendor_item list" where
  "active img \<equiv> take (item_num img) (items img)"

definition vendor_inv :: "vendor_geom \<Rightarrow> vendor_image \<Rightarrow> bool" where
  "vendor_inv g img \<longleftrightarrow>
     length (items img) = max_item_num g \<and> item_num img \<le> max_item_num g \<and>
     length (vdata img) = data_len g \<and> next_index img < part_num g \<and>
     distinct (map vid (active img)) \<and> (\<forall>x\<in>set (active img). vsize x < 65536) \<and>
     layout 0 (active img) (free_offset img) \<and> free_offset img + free_size img \<le> data_len g"

text \<open>What the image stores, as a finite map from item ids to byte strings.\<close>

definition vendor_map :: "vendor_image \<Rightarrow> nat \<rightharpoonup> bytes" where
  "vendor_map img = map_of (map (\<lambda>it. (vid it, item_bytes (vdata img) it)) (active img))"

lemma vendor_geometry_bounds:
  "vendor_geometry t = Some g \<Longrightarrow>
     max_item_num g < 65535 \<and> data_len g < 65536 \<and> 1 < part_num g \<and> part_num g < 65535 \<and> 0 < part_size g"
  by (cases t) (auto simp: slot_geom_def VENDOR_PART_NUM_def NAND_VENDOR_PART_NUM_def)

lemma vendor_inv_reset: "vendor_geometry t = Some g \<Longrightarrow> vendor_inv g (vendor_reset_image g)"
  using vendor_geometry_bounds [of t g] by (simp add: vendor_inv_def vendor_reset_image_def)

lemma find_item_spec:
  "n \<le> length xs \<Longrightarrow>
     (find_item k n xs = Done None \<and> k \<notin> vid ` set (take n xs)) \<or>
     (\<exists>pre x post. find_item k n xs = Done (Some (length pre)) \<and> take n xs = pre @ x # post \<and>
        vid x = k \<and> k \<notin> vid ` set pre)"
proof (induction k n xs rule: find_item.induct)
  case (3 k n x xs)
  show ?case
  proof (cases "vid x = k")
    case True
    then show ?thesis by (intro disjI2 exI [of _ "[]"] exI [of _ x] exI [of _ "take n xs"]) simp
  next
    case False
    then consider "find_item k n xs = Done None" "k \<notin> vid ` set (take n xs)"
      | pre z post where "find_item k n xs = Done (Some (length pre))" "take n xs = pre @ z # post"
          "vid z = k" "k \<notin> vid ` set pre"
      using 3 by auto
    then show ?thesis
    proof cases
      case 1 with False show ?thesis by auto
    next
      case 2
      with False show ?thesis
        by (intro disjI2 exI [of _ "x # pre"] exI [of _ z] exI [of _ post]) auto
    qed
  qed
qed auto

lemma vendor_map_None: "k \<notin> vid ` set (active img) \<Longrightarrow> vendor_map img k = None"
  by (auto simp: vendor_map_def map_of_eq_None_iff)

lemma vendor_map_Some:
  "active img = pre @ x # post \<Longrightarrow> k \<notin> vid ` set pre \<Longrightarrow> vid x = k \<Longrightarrow>
     vendor_map img k = Some (item_bytes (vdata img) x)"
  by (simp add: vendor_map_def map_of_append_absent image_image del: map_of_append)

text \<open>Splitting the item table at an active item.\<close>

lemma active_split:
  assumes "item_num img \<le> length (items img)" and "active img = pre @ x # post"
  obtains rest where "items img = pre @ x # post @ rest" "item_num img = Suc (length pre + length post)"
proof
  show "items img = pre @ x # post @ drop (item_num img) (items img)"
    using assms(2) append_take_drop_id [of "item_num img" "items img"] by simp
  show "item_num img = Suc (length pre + length post)"
    using arg_cong [OF assms(2), of length] assms(1) by simp
qed

section \<open>The three changes of an image\<close>

definition same_tags :: "vendor_image \<Rightarrow> vendor_image \<Rightarrow> bool" where
  "same_tags img img' \<longleftrightarrow>
     tag img' = tag img \<and> version img' = version img \<and> next_index img' = next_index img"

lemma item_update_spec:
  assumes inv: "vendor_inv g img" and g: "data_len g < 65536"
    and act: "active img = pre @ x # post" and fit: "length buf \<le> align64 (vsize x)"
  shows "\<exists>img'. item_update img (length pre) buf = Done img' \<and> vendor_inv g img' \<and>
           vendor_map img' = (vendor_map img)(vid x \<mapsto> buf) \<and> same_tags img img'"
proof -
  from inv have n: "item_num img \<le> length (items img)" by (simp add: vendor_inv_def)
  from active_split [OF n act] obtain rest
    where its: "items img = pre @ x # post @ rest" "item_num img = Suc (length pre + length post)" .
  let ?x' = "x\<lparr>vsize := length buf\<rparr>"
  let ?bs = "overwrite (voffset x) buf (vdata img)"
  let ?img' = "img\<lparr>vdata := ?bs, items := pre @ ?x' # post @ rest\<rparr>"
  have act': "active ?img' = pre @ ?x' # post" using its by simp
  from inv act obtain m where lay: "layout 0 pre m" "m \<le> voffset x"
      "layout (voffset x + align64 (vsize x)) post (free_offset img)"
    by (auto simp: vendor_inv_def layout_append)
  have sx: "vsize x < 65536" using inv act by (auto simp: vendor_inv_def)
  have top: "voffset x + align64 (vsize x) \<le> length (vdata img)"
    using layout_le [OF lay(3)] inv by (auto simp: vendor_inv_def)
  have b: "length buf < 65536" using fit top inv g by (auto simp: vendor_inv_def)
  have upd: "item_update img (length pre) buf = Done ?img'"
    using its top fit by (simp add: item_update_def put_data_def nth_append list_update_append)
  have al: "align64 (length buf) \<le> align64 (vsize x)" using fit b sx by (rule align64_idem_le)
  have "layout (voffset x + align64 (length buf)) post (free_offset img)"
    by (rule layout_mono [OF lay(3)]) (simp_all add: al)
  then have lay': "layout 0 (pre @ ?x' # post) (free_offset img)"
    unfolding layout_append using lay(1,2) by (intro exI [of _ m]) simp
  have "\<forall>w\<in>set (pre @ ?x' # post). vsize w < 65536"
    using inv b unfolding vendor_inv_def act by auto
  moreover have "distinct (map vid (pre @ ?x' # post))"
    using inv unfolding vendor_inv_def act by simp
  ultimately have inv': "vendor_inv g ?img'"
    using inv lay' top fit its(1) unfolding vendor_inv_def act'
    by (simp add: length_overwrite)
  have pre: "item_bytes ?bs w = item_bytes (vdata img) w" if "w \<in> set pre" for w
  proof -
    have "vsize w < 65536" using inv act that by (auto simp: vendor_inv_def)
    then have "voffset w + vsize w \<le> voffset x"
      using layout_member [OF lay(1) that] lay(2) align64_ge [of "vsize w"] by simp
    then show ?thesis using top fit by (intro item_bytes_take_eq [of _ "voffset x"]) (auto intro: take_overwrite)
  qed
  have post: "item_bytes ?bs w = item_bytes (vdata img) w" if "w \<in> set post" for w
  proof -
    have "voffset x + length buf \<le> voffset w" using layout_member [OF lay(3) that] fit by simp
    then show ?thesis using top fit
      by (intro item_bytes_drop_eq [of "voffset x + length buf"]) (auto intro: drop_overwrite)
  qed
  have new: "item_bytes ?bs ?x' = buf" using top fit by (subst item_bytes_overwrite_same) auto
  let ?f = "\<lambda>it. (vid it, item_bytes (vdata img) it)"
  have "vendor_map ?img' = map_of (map ?f pre @ (vid x, buf) # map ?f post)"
    unfolding vendor_map_def act' using pre post new by (simp cong: map_cong del: map_of_append)
  also have "\<dots> = (map_of (map ?f pre @ ?f x # map ?f post))(vid x \<mapsto> buf)"
    using inv unfolding vendor_inv_def act by (intro map_of_replace) auto
  also have "\<dots> = (vendor_map img)(vid x \<mapsto> buf)"
    unfolding vendor_map_def act by simp
  finally have "vendor_map ?img' = (vendor_map img)(vid x \<mapsto> buf)" .
  with upd inv' show ?thesis by (intro exI [of _ ?img']) (simp add: same_tags_def)
qed

lemma item_append_spec:
  assumes inv: "vendor_inv g img" and g: "data_len g < 65536" "max_item_num g < 65535"
    and new: "k \<notin> vid ` set (active img)" and n: "item_num img < max_item_num g"
    and fit: "align64 (length buf) \<le> free_size img" and b: "length buf < 65536"
  shows "\<exists>img'. item_append img k buf = Done img' \<and> vendor_inv g img' \<and>
           vendor_map img' = (vendor_map img)(k \<mapsto> buf) \<and> same_tags img img'"
proof -
  let ?n = "item_num img" and ?off = "free_offset img" and ?a = "align64 (length buf)"
  let ?x = "(items img ! ?n)\<lparr>vid := k, voffset := ?off, vsize := length buf\<rparr>"
  let ?bs = "overwrite ?off buf (vdata img)"
  let ?img' = "img\<lparr>items := (items img)[?n := ?x], vdata := ?bs, free_offset := ?off + ?a,
     free_size := free_size img - ?a, item_num := Suc ?n\<rparr>"
  have len: "length (items img) = max_item_num g" and fo: "?off + free_size img \<le> length (vdata img)"
    and ld: "length (vdata img) = data_len g" and lay: "layout 0 (active img) ?off"
    using inv by (auto simp: vendor_inv_def)
  have lb: "length buf \<le> ?a" using b by (rule align64_ge)
  have small: "?a \<le> 65535" "?off + ?a < 65536" "free_size img < 65536" using fit fo ld g by auto
  have upd: "item_append img k buf = Done ?img'"
    using n len lb fit fo small g by (simp add: item_append_def put_data_def Let_def w16_sub)
  have act': "active ?img' = active img @ [?x]"
    using n len by (simp add: take_Suc_conv_app_nth)
  have inv': "vendor_inv g ?img'"
    using inv act' n b new fit fo lb lay
    by (auto simp: vendor_inv_def layout_append length_overwrite)
  have old: "item_bytes ?bs w = item_bytes (vdata img) w" if "w \<in> set (active img)" for w
  proof -
    have "vsize w < 65536" using inv that by (auto simp: vendor_inv_def)
    then have "voffset w + vsize w \<le> ?off"
      using layout_member [OF lay that] align64_ge [of "vsize w"] by simp
    then show ?thesis using fo by (intro item_bytes_take_eq [of _ ?off]) (auto intro: take_overwrite)
  qed
  have nb: "item_bytes ?bs ?x = buf" using fo fit lb by (subst item_bytes_overwrite_same) auto
  have "vendor_map ?img' = (vendor_map img)(k \<mapsto> buf)"
    unfolding vendor_map_def act' using old nb new
    by (simp add: map_of_append_new image_image cong: map_cong del: map_of_append)
  with upd inv' show ?thesis by (intro exI [of _ ?img']) (simp add: same_tags_def)
qed

lemma item_resize_spec:
  assumes inv: "vendor_inv g img" and g: "data_len g < 65536"
    and act: "active img = pre @ x # post"
    and grow: "align64 (vsize x) < length buf" and fit: "align64 (length buf) \<le> free_size img"
    and b: "length buf < 65536"
  shows "\<exists>img'. item_resize img (length pre) (vid x) buf = Done img' \<and> vendor_inv g img' \<and>
           vendor_map img' = (vendor_map img)(vid x \<mapsto> buf) \<and> same_tags img img'"
proof -
  let ?a = "align64 (length buf)" and ?al = "align64 (vsize x)" and ?P = "packed post"
  from inv have n: "item_num img \<le> length (items img)" by (simp add: vendor_inv_def)
  from active_split [OF n act] obtain rest
    where its: "items img = pre @ x # post @ rest" "item_num img = Suc (length pre + length post)" .
  from inv act obtain m where lay: "layout 0 pre m" "m \<le> voffset x"
      "layout (voffset x + ?al) post (free_offset img)"
    by (auto simp: vendor_inv_def layout_append)
  have fo: "free_offset img + free_size img \<le> data_len g" and ld: "length (vdata img) = data_len g"
    and sz: "\<forall>w\<in>set (pre @ x # post). vsize w < 65536" and dis: "distinct (map vid (pre @ x # post))"
    using inv unfolding vendor_inv_def act by auto
  have lb: "length buf \<le> ?a" using b by (rule align64_ge)
  have "layout (voffset x) post (free_offset img)" by (rule layout_mono [OF lay(3)]) simp_all
  from shift_down_spec [OF this, of "vdata img" pre x rest] fo ld sz g
  obtain q z bs where sd:
      "shift_down (length post) (length pre) (voffset x) (items img) (vdata img) =
         Done (voffset x + ?P, pre @ q @ z # rest, bs)"
      "map vid q = map vid post" "map vsize q = map vsize post"
      "map (item_bytes bs) q = map (item_bytes (vdata img)) post"
      "layout (voffset x) q (voffset x + ?P)" "length bs = data_len g"
      "take (voffset x) bs = take (voffset x) (vdata img)"
    by (auto simp: its)
  have lq: "length q = length post" using arg_cong [OF sd(2), of length] by simp
  have P: "voffset x + ?al + ?P \<le> free_offset img" using layout_packed [OF lay(3)] by simp
  have small: "voffset x + ?P + ?a < 65536" "free_size img < 65536" "voffset x + ?P + length buf \<le> length bs"
    using P fit fo g sd(6) lb by auto
  let ?off = "voffset x + ?P"
  let ?x' = "z\<lparr>vid := vid x, voffset := ?off, vsize := length buf\<rparr>"
  let ?bs = "overwrite ?off buf bs"
  let ?img' = "img\<lparr>items := pre @ q @ ?x' # rest, vdata := ?bs, free_offset := ?off + ?a,
     free_size := free_size img - (?a - ?al)\<rparr>"
  have upd: "item_resize img (length pre) (vid x) buf = Done ?img'"
    using sd(1) its small lq fit
    by (simp add: item_resize_def put_data_def Let_def nth_append list_update_append w16_sub)
  have act': "active ?img' = pre @ q @ [?x']" using its(2) lq by simp
  have "layout 0 (pre @ q @ [?x']) (?off + ?a)"
    unfolding layout_append using layout_mono [OF lay(1) order_refl lay(2)] sd(5)
    by (intro exI [of _ "voffset x"] conjI exI [of _ ?off]) auto
  moreover have "\<forall>w\<in>set (pre @ q @ [?x']). vsize w < 65536"
  proof -
    have "vsize ` set q = vsize ` set post" using sd(3) by (metis list.set_map)
    then have "\<forall>w\<in>set q. vsize w < 65536" using sz by (metis (no_types, lifting) Un_iff imageE imageI list.set_intros(2) set_append)
    then show ?thesis using sz b by auto
  qed
  moreover have "distinct (map vid (pre @ q @ [?x']))" using dis sd(2) by (auto simp flip: set_map)
  ultimately have inv': "vendor_inv g ?img'"
    using inv its(1) small fo P fit sd(6) lq unfolding vendor_inv_def act'
    by (simp add: length_overwrite)
  have old_pre: "item_bytes ?bs w = item_bytes (vdata img) w" if "w \<in> set pre" for w
  proof -
    have "vsize w < 65536" using sz that by auto
    then have "voffset w + vsize w \<le> voffset x"
      using layout_member [OF lay(1) that] lay(2) align64_ge [of "vsize w"] by simp
    moreover have "take (voffset x) ?bs = take (voffset x) (vdata img)"
      using small(3) sd(7) by (subst take_overwrite) auto
    ultimately show ?thesis by (rule item_bytes_take_eq)
  qed
  have old_q: "item_bytes ?bs w = item_bytes bs w" if "w \<in> set q" for w
  proof -
    have "vsize w < 65536" using \<open>\<forall>w\<in>set (pre @ q @ [?x']). vsize w < 65536\<close> that by auto
    then have "voffset w + vsize w \<le> ?off"
      using layout_member [OF sd(5) that] align64_ge [of "vsize w"] by simp
    then show ?thesis using small(3) by (intro item_bytes_take_eq [of _ ?off]) (auto intro: take_overwrite)
  qed
  have "map (\<lambda>it. (vid it, item_bytes ?bs it)) q = map (\<lambda>it. (vid it, item_bytes (vdata img) it)) post"
  proof -
    have "map (item_bytes ?bs) q = map (item_bytes bs) q" using old_q by (rule list.map_cong0)
    also note sd(4)
    finally have "map (item_bytes ?bs) q = map (item_bytes (vdata img)) post" .
    then have "zip (map vid q) (map (item_bytes ?bs) q) = zip (map vid post) (map (item_bytes (vdata img)) post)"
      using sd(2) by simp
    then show ?thesis by (simp add: zip_map_map zip_same_conv_map o_def)
  qed
  moreover have "item_bytes ?bs ?x' = buf" using small(3) by (subst item_bytes_overwrite_same) auto
  ultimately have "vendor_map ?img' = (vendor_map img)(vid x \<mapsto> buf)"
    unfolding vendor_map_def act act' using old_pre dis
    by (simp add: map_of_move_last [where u = "item_bytes (vdata img) x"] image_image cong: map_cong del: map_of_append)
  with upd inv' show ?thesis by (intro exI [of _ ?img']) (simp add: same_tags_def)
qed

section \<open>The operations on an initialised store\<close>

text \<open>
  \<open>ready g st\<close>: a supported medium is selected, its descriptor is still there, and the image in RAM
  satisfies the invariant.
\<close>

definition ready :: "vendor_geom \<Rightarrow> vendor_state \<Rightarrow> bool" where
  "ready g st \<longleftrightarrow>
     vendor_geometry (bootdev_type st) = Some g \<and> vendor_inv g (info st) \<and>
     (\<exists>d. vendor_dev_desc st = Some d \<and> if_type d = bootdev_type st)"

lemma ready_ensure_init: "ready g st \<Longrightarrow> vendor_ensure_init st = (0, st)"
  by (cases "bootdev_type st") (auto simp: ready_def vendor_ensure_init_def)

lemma vendor_map_bump [simp]: "vendor_map (bump_version p img) = vendor_map img"
  by (simp add: bump_version_def vendor_map_def Let_def)

lemma vendor_inv_bump:
  "vendor_inv g img \<Longrightarrow> 1 < part_num g \<Longrightarrow> vendor_inv g (bump_version (part_num g) img)"
  by (simp add: bump_version_def vendor_inv_def Let_def)

lemma vendor_put_dev_frame [simp]:
  "bootdev_type (vendor_put_dev st dev) = bootdev_type st"
  "info (vendor_put_dev st dev) = info st"
  by (auto simp: vendor_put_dev_def split: option.splits)

lemma vendor_dev_desc_info [simp]: "vendor_dev_desc (st\<lparr>info := x\<rparr>) = vendor_dev_desc st"
  by (simp add: vendor_dev_desc_def split: option.split)

lemma vendor_dev_desc_put:
  "vendor_dev_desc st = Some d \<Longrightarrow>
     \<exists>d'. vendor_dev_desc (vendor_put_dev st dev) = Some d' \<and> if_type d' = if_type d"
  by (auto simp: vendor_dev_desc_def vendor_put_dev_def split: option.splits if_splits)

lemma vendor_ops_write_frame:
  "ready g st \<Longrightarrow> vendor_inv g img \<Longrightarrow> info st = img \<Longrightarrow>
     vendor_ops_write st img a n = (c, st') \<Longrightarrow> ready g st' \<and> info st' = img"
  using vendor_dev_desc_put [of st]
  by (fastforce simp: vendor_ops_write_def ready_def Let_def split: option.splits)

lemma vendor_save_spec:
  assumes "ready g st" and "vendor_inv g img" and "vendor_save st g img sz = (r, st')"
  shows "ready g st' \<and> info st' = bump_version (part_num g) img \<and> (r = int sz \<or> r = - EIO)"
proof -
  let ?img = "bump_version (part_num g) img"
  have g: "1 < part_num g" using assms(1) vendor_geometry_bounds by (auto simp: ready_def)
  have i: "vendor_inv g ?img" using assms(2) g by (rule vendor_inv_bump)
  then have r: "ready g (st\<lparr>info := ?img\<rparr>)"
    using assms(1) by (simp add: ready_def)
  obtain c st2 where w: "vendor_ops_write (st\<lparr>info := ?img\<rparr>) ?img (part_size g * next_index img) (part_size g) = (c, st2)"
    by force
  from vendor_ops_write_frame [OF r i _ w] assms(3) w show ?thesis
    by (auto simp: vendor_save_def Let_def split: if_splits)
qed

lemma vendor_storage_read_spec:
  assumes r: "ready g st"
  shows "vendor_storage_read st k n =
    Done (case vendor_map (info st) k of
            None \<Rightarrow> (- EINVAL, [], st)
          | Some v \<Rightarrow> (int (min n (length v)), take n v, st))"
proof -
  let ?img = "info st"
  have inv: "vendor_inv g ?img" using r by (simp add: ready_def)
  then have n: "item_num ?img \<le> length (items ?img)" by (simp add: vendor_inv_def)
  from find_item_spec [OF n, of k] show ?thesis
  proof (elim disjE exE conjE)
    assume "find_item k (item_num ?img) (items ?img) = Done None" "k \<notin> vid ` set (active ?img)"
    then show ?thesis
      by (simp add: vendor_storage_read_def ready_ensure_init [OF r] vendor_map_None)
  next
    fix pre x post
    assume f: "find_item k (item_num ?img) (items ?img) = Done (Some (length pre))"
      and act: "active ?img = pre @ x # post" and k: "vid x = k" "k \<notin> vid ` set pre"
    from active_split [OF n act] obtain rest where its: "items ?img = pre @ x # post @ rest" by blast
    have x: "x \<in> set (active ?img)" by (simp add: act)
    have s: "vsize x < 65536" using inv x by (auto simp: vendor_inv_def)
    have "voffset x + align64 (vsize x) \<le> free_offset ?img"
      using inv x layout_member [of 0 "active ?img"] by (auto simp: vendor_inv_def)
    then have top: "voffset x + vsize x \<le> length (vdata ?img)"
      using inv align64_ge [OF s] by (auto simp: vendor_inv_def)
    have len: "length (item_bytes (vdata ?img) x) = vsize x" using top by (simp add: item_bytes_def)
    have m: "vendor_map ?img k = Some (item_bytes (vdata ?img) x)"
      using act k(2) k(1) by (rule vendor_map_Some)
    show ?thesis
      using f its top len m
      by (simp add: vendor_storage_read_def ready_ensure_init [OF r] nth_append slice_def Let_def
          item_bytes_def min_def)
  qed
qed

lemma vendor_storage_write_cases:
  assumes r: "ready g st" and b: "length buf < 65536"
  shows "(\<exists>img'. vendor_storage_write st k buf = Done (vendor_save st g img' (length buf)) \<and>
            vendor_inv g img' \<and> vendor_map img' = (vendor_map (info st))(k \<mapsto> buf) \<and>
            same_tags (info st) img') \<or>
         (\<exists>e\<in>{EINVAL, ENOMEM}. vendor_storage_write st k buf = Done (- e, st))"
proof -
  let ?img = "info st" and ?a = "align64 (length buf)"
  have inv: "vendor_inv g ?img" and geo: "vendor_geometry (bootdev_type st) = Some g"
    using r by (auto simp: ready_def)
  note gb = vendor_geometry_bounds [OF geo]
  have n: "item_num ?img \<le> length (items ?img)" using inv by (simp add: vendor_inv_def)
  have W: "vendor_storage_write st k buf =
     bind_outcome (find_item k (item_num ?img) (items ?img))
       (\<lambda>r. case r of
          Some i \<Rightarrow>
            if align64 (vsize (items ?img ! i)) < length buf then
              if free_size ?img < ?a then Done (- EINVAL, st)
              else bind_outcome (item_resize ?img i k buf) (\<lambda>img'. Done (vendor_save st g img' (length buf)))
            else bind_outcome (item_update ?img i buf) (\<lambda>img'. Done (vendor_save st g img' (length buf)))
        | None \<Rightarrow>
            if item_num ?img < max_item_num g \<and> ?a \<le> free_size ?img
            then bind_outcome (item_append ?img k buf) (\<lambda>img'. Done (vendor_save st g img' (length buf)))
            else Done (- ENOMEM, st))"
    using align64_ge [OF b] by (simp add: vendor_storage_write_def ready_ensure_init [OF r] geo Let_def)
  from find_item_spec [OF n, of k] show ?thesis
  proof (elim disjE exE conjE)
    assume f: "find_item k (item_num ?img) (items ?img) = Done None" and k: "k \<notin> vid ` set (active ?img)"
    show ?thesis
    proof (cases "item_num ?img < max_item_num g \<and> ?a \<le> free_size ?img")
      case True
      with item_append_spec [OF inv _ _ k, of buf] gb b
      obtain img' where "item_append ?img k buf = Done img'" "vendor_inv g img'"
          "vendor_map img' = (vendor_map ?img)(k \<mapsto> buf)" "same_tags ?img img'" by auto
      with True f show ?thesis unfolding W by auto
    next
      case False
      with f show ?thesis unfolding W by auto
    qed
  next
    fix pre x post
    assume f: "find_item k (item_num ?img) (items ?img) = Done (Some (length pre))"
      and act: "active ?img = pre @ x # post" and k: "vid x = k" "k \<notin> vid ` set pre"
    from active_split [OF n act] obtain rest where "items ?img = pre @ x # post @ rest" by blast
    then have ix: "items ?img ! length pre = x" by (simp add: nth_append)
    consider "align64 (vsize x) < length buf" "free_size ?img < ?a"
      | "align64 (vsize x) < length buf" "?a \<le> free_size ?img"
      | "length buf \<le> align64 (vsize x)" by linarith
    then show ?thesis
    proof cases
      case 1
      with f ix show ?thesis unfolding W by auto
    next
      case 2
      with item_resize_spec [OF inv _ act] gb b k(1)
      obtain img' where "item_resize ?img (length pre) k buf = Done img'" "vendor_inv g img'"
          "vendor_map img' = (vendor_map ?img)(k \<mapsto> buf)" "same_tags ?img img'" by auto
      with 2 f ix show ?thesis unfolding W by auto
    next
      case 3
      with item_update_spec [OF inv _ act] gb k(1)
      obtain img' where "item_update ?img (length pre) buf = Done img'" "vendor_inv g img'"
          "vendor_map img' = (vendor_map ?img)(k \<mapsto> buf)" "same_tags ?img img'" by auto
      with 3 f ix show ?thesis unfolding W by auto
    qed
  qed
qed

lemma vendor_storage_write_spec:
  assumes r: "ready g st" and b: "length buf < 65536"
  shows "\<exists>ret st'. vendor_storage_write st k buf = Done (ret, st') \<and> ready g st' \<and>
    ((ret \<in> {int (length buf), - EIO} \<and> vendor_map (info st') = (vendor_map (info st))(k \<mapsto> buf)) \<or>
     (ret \<in> {- EINVAL, - ENOMEM} \<and> st' = st))"
  using vendor_storage_write_cases [OF r b, of k]
proof (elim disjE exE bexE conjE)
  fix img'
  assume w: "vendor_storage_write st k buf = Done (vendor_save st g img' (length buf))"
    and i: "vendor_inv g img'" and m: "vendor_map img' = (vendor_map (info st))(k \<mapsto> buf)"
  obtain ret st' where sv: "vendor_save st g img' (length buf) = (ret, st')" by force
  from vendor_save_spec [OF r i sv] w m sv show ?thesis
    by (intro exI [of _ ret] exI [of _ st']) auto
next
  fix e assume "e \<in> {EINVAL, ENOMEM}" "vendor_storage_write st k buf = Done (- e, st)"
  with r show ?thesis by auto
qed

section \<open>Persistence: re-reading the medium\<close>

definition slot :: "vendor_state \<Rightarrow> vendor_geom \<Rightarrow> nat \<Rightarrow> vendor_image" where
  "slot st g i = snd (vendor_ops_read st (part_size g * i) (part_size g))"

definition readable :: "vendor_state \<Rightarrow> vendor_geom \<Rightarrow> bool" where
  "readable st g \<longleftrightarrow>
     (\<forall>i<part_num g. fst (vendor_ops_read st (part_size g * i) (part_size g)) = int (part_size g))"

lemma scan_keeps:
  assumes "readable st g" and "i + k = part_num g"
    and "\<And>j. i \<le> j \<Longrightarrow> j < part_num g \<Longrightarrow> slot_valid (slot st g j) \<Longrightarrow> version (slot st g j) \<le> mv"
  shows "vendor_scan st g k i mv mi = Some (mv, mi)"
  using assms(2,3)
proof (induction k arbitrary: i)
  case (Suc k)
  then have "fst (vendor_ops_read st (part_size g * i) (part_size g)) = int (part_size g)"
    using assms(1) by (simp add: readable_def)
  moreover have "\<not> (slot_valid (slot st g i) \<and> mv < version (slot st g i))"
    using Suc.prems(2) [of i] Suc.prems(1) by auto
  ultimately show ?case
    using Suc.IH [of "Suc i"] Suc.prems by (auto simp: slot_def split: prod.splits)
qed simp

lemma scan_finds:
  assumes rd: "readable st g" and "i + k = part_num g"
    and s: "s < part_num g" "slot_valid (slot st g s)" and "i \<le> s" "mv < version (slot st g s)"
    and best: "\<And>j. j < part_num g \<Longrightarrow> j \<noteq> s \<Longrightarrow> slot_valid (slot st g j) \<Longrightarrow> version (slot st g j) < version (slot st g s)"
  shows "vendor_scan st g k i mv mi = Some (version (slot st g s), s)"
  using assms(2,5,6)
proof (induction k arbitrary: i mv mi)
  case 0
  then show ?case using s by simp
next
  case (Suc k)
  then have i: "i < part_num g" by simp
  then have ok: "fst (vendor_ops_read st (part_size g * i) (part_size g)) = int (part_size g)"
    using rd by (simp add: readable_def)
  show ?case
  proof (cases "i = s")
    case True
    have "vendor_scan st g k (Suc i) (version (slot st g s)) s = Some (version (slot st g s), s)"
      using rd Suc.prems(1) best True by (intro scan_keeps) (auto simp: less_imp_le)
    then show ?thesis using ok True s(2) Suc.prems by (auto simp: slot_def split: prod.splits)
  next
    case False
    with Suc.prems have "Suc i \<le> s" by simp
    then show ?thesis
      using Suc.IH [of "Suc i"] Suc.prems ok best [OF i False] by (auto simp: slot_def split: prod.splits)
  qed
qed

lemma vendor_init_newest:
  assumes d: "vendor_dev_desc st = Some d" "vendor_geometry (if_type d) = Some g"
    and "malloc_ok st" and rd: "readable st g"
    and s: "s < part_num g" "slot_valid (slot st g s)" "0 < version (slot st g s)"
    and best: "\<And>j. j < part_num g \<Longrightarrow> j \<noteq> s \<Longrightarrow> slot_valid (slot st g j) \<Longrightarrow> version (slot st g j) < version (slot st g s)"
  shows "vendor_storage_init st = (0, st\<lparr>bootdev_type := if_type d, info := slot st g s\<rparr>)"
proof -
  have "vendor_scan st g (part_num g) 0 0 0 = Some (version (slot st g s), s)"
    using rd s best by (intro scan_finds) auto
  moreover have "fst (vendor_ops_read st (part_size g * s) (part_size g)) = int (part_size g)"
    using rd s(1) by (simp add: readable_def)
  ultimately show ?thesis
    using d assms(3) s(3) by (auto simp: vendor_storage_init_def slot_def split: prod.splits)
qed

lemma vendor_ops_read_put:
  assumes "vendor_dev_desc st = Some d" and "vendor_lba (if_type d) = Some lba"
  shows "vendor_ops_read (vendor_put_dev st dev) a n = (rd_count dev (lba + a) n, media dev (lba + a))"
  using assms
  by (auto simp: vendor_ops_read_def vendor_put_dev_def vendor_dev_desc_def split: option.splits if_splits)

lemma vendor_geometry_lba: "vendor_geometry t = Some g \<Longrightarrow> \<exists>lba. vendor_lba t = Some lba"
  by (cases t) auto

text \<open>A complete write changes exactly its slot, and the medium stays readable.\<close>

lemma vendor_ops_write_slots:
  assumes r: "ready g st" and rd: "readable st g"
    and w: "vendor_ops_write st img (part_size g * n) (part_size g) = (int (part_size g), st')"
  shows "slot st' g j = (if j = n then img else slot st g j) \<and> readable st' g"
proof -
  from r obtain d where d: "vendor_dev_desc st = Some d" "if_type d = bootdev_type st"
    and geo: "vendor_geometry (bootdev_type st) = Some g" by (auto simp: ready_def)
  from vendor_geometry_lba [OF geo] obtain lba where lba: "vendor_lba (if_type d) = Some lba"
    using d(2) by auto
  let ?dev = "case flash_ops st of Some ops \<Rightarrow> ops | None \<Rightarrow> blk d"
  have cnt: "wr_count ?dev (lba + part_size g * n) (part_size g) = int (part_size g)"
    and st': "st' = vendor_put_dev st (flash_store ?dev (lba + part_size g * n) (part_size g) img)"
    using w d lba by (auto simp: vendor_ops_write_def Let_def)
  have old: "vendor_ops_read st a m = (rd_count ?dev (lba + a) m, media ?dev (lba + a))" for a m
    using d lba by (simp add: vendor_ops_read_def Let_def)
  have new: "vendor_ops_read st' a m = (rd_count ?dev (lba + a) m,
      ((media ?dev)(lba + part_size g * n := img)) (lba + a))" for a m
    unfolding st' vendor_ops_read_put [OF d(1) lba] using cnt by (simp add: flash_store_def)
  have "0 < part_size g" using vendor_geometry_bounds [OF geo] by simp
  then show ?thesis using rd by (simp add: slot_def readable_def old new)
qed

lemma vendor_put_dev_malloc [simp]: "malloc_ok (vendor_put_dev st dev) = malloc_ok st"
  by (auto simp: vendor_put_dev_def split: option.splits)

lemma vendor_save_slots:
  assumes r: "ready g st" and rd: "readable st g" and i: "vendor_inv g img"
    and w: "vendor_save st g img sz = (int sz, st')"
  shows "slot st' g j = (if j = next_index img then info st' else slot st g j) \<and> readable st' g \<and>
     malloc_ok st' = malloc_ok st"
proof -
  let ?img = "bump_version (part_num g) img"
  have g: "1 < part_num g" using r vendor_geometry_bounds by (auto simp: ready_def)
  have r1: "ready g (st\<lparr>info := ?img\<rparr>)" using r vendor_inv_bump [OF i g] by (simp add: ready_def)
  have sl: "slot (st\<lparr>info := ?img\<rparr>) g j = slot st g j" "readable (st\<lparr>info := ?img\<rparr>) g" for j
    using r rd by (auto simp: slot_def readable_def vendor_ops_read_def ready_def
        dest!: vendor_geometry_lba split: option.splits)
  have "vendor_ops_write (st\<lparr>info := ?img\<rparr>) ?img (part_size g * next_index img) (part_size g)
      = (int (part_size g), st')"
    using w by (auto simp: vendor_save_def EIO_def Let_def split: prod.splits if_splits)
  moreover from this have "malloc_ok st' = malloc_ok st"
    by (auto simp: vendor_ops_write_def Let_def split: option.splits)
  moreover have "info st' = ?img" using vendor_save_spec [OF r i w] by simp
  ultimately show ?thesis using vendor_ops_write_slots [OF r1 sl(2)] sl(1) by simp
qed

text \<open>
  No slot is newer than the image in RAM; and the stronger state between operations, where the image
  in RAM is the content of the slot before the next one and every other slot is older.
\<close>

definition none_newer :: "vendor_state \<Rightarrow> vendor_geom \<Rightarrow> bool" where
  "none_newer st g \<longleftrightarrow>
     (\<forall>j<part_num g. slot_valid (slot st g j) \<longrightarrow> version (slot st g j) \<le> version (info st))"

definition saved :: "vendor_state \<Rightarrow> vendor_geom \<Rightarrow> bool" where
  "saved st g \<longleftrightarrow> slot_valid (info st) \<and> 0 < version (info st) \<and>
     (\<exists>s<part_num g. s \<noteq> next_index (info st) \<and> slot st g s = info st \<and>
        (\<forall>j<part_num g. j \<noteq> s \<longrightarrow> slot_valid (slot st g j) \<longrightarrow> version (slot st g j) < version (info st)))"

lemma saved_none_newer: "saved st g \<Longrightarrow> none_newer st g"
  unfolding saved_def none_newer_def by (metis order.refl less_imp_le)

lemma vendor_write_saved:
  assumes r: "ready g st" and rd: "readable st g" and nn: "none_newer st g"
    and t: "tag (info st) = VENDOR_TAG" and v: "version (info st) + 1 < 4294967296"
    and b: "length buf < 65536"
    and w: "vendor_storage_write st k buf = Done (int (length buf), st')"
  shows "saved st' g \<and> readable st' g \<and> ready g st' \<and> malloc_ok st' = malloc_ok st \<and>
    version (info st') = version (info st) + 1 \<and> tag (info st') = VENDOR_TAG \<and>
    slot st' g (next_index (info st)) = info st'"
proof -
  have "\<not> (\<exists>e\<in>{EINVAL, ENOMEM}. vendor_storage_write st k buf = Done (- e, st))"
    using w by (auto simp: errno_defs)
  with vendor_storage_write_cases [OF r b, of k] w obtain img'
    where i: "vendor_inv g img'" and s: "same_tags (info st) img'"
      and sv: "vendor_save st g img' (length buf) = (int (length buf), st')" by auto
  from vendor_save_spec [OF r i sv] have st': "ready g st'" "info st' = bump_version (part_num g) img'" by auto
  have p: "1 < part_num g" "part_num g < 65535" using r vendor_geometry_bounds by (auto simp: ready_def)
  have n: "next_index img' = next_index (info st)" "next_index (info st) < part_num g"
    using s i by (auto simp: same_tags_def vendor_inv_def)
  have ver: "version (info st') = version (info st) + 1" "tag (info st') = VENDOR_TAG" "slot_valid (info st')"
    using s t v st'(2) by (auto simp: bump_version_def same_tags_def slot_valid_def Let_def)
  have ni: "next_index (info st') \<noteq> next_index (info st)"
    using st'(2) n p by (auto simp: bump_version_def Let_def)
  note sl = vendor_save_slots [OF r rd i sv]
  have "saved st' g"
    unfolding saved_def
  proof (intro conjI exI [of _ "next_index (info st)"] allI impI)
    fix j assume "j < part_num g" "j \<noteq> next_index (info st)" "slot_valid (slot st' g j)"
    then have "version (slot st g j) \<le> version (info st)" "slot st' g j = slot st g j"
      using sl [of j] n nn by (auto simp: none_newer_def)
    then show "version (slot st' g j) < version (info st')" using ver by simp
  qed (use ver ni n sl in auto)
  with sl n st' ver show ?thesis by auto
qed

lemma vendor_init_saved:
  assumes g: "vendor_geometry (if_type d) = Some g" and d: "vendor_dev_desc st = Some d"
    and "malloc_ok st" "readable st g" and i: "slot_valid i" "0 < version i"
    and s: "s < part_num g" "slot st g s = i"
    and best: "\<And>j. j < part_num g \<Longrightarrow> j \<noteq> s \<Longrightarrow> slot_valid (slot st g j) \<Longrightarrow> version (slot st g j) < version i"
  shows "vendor_storage_init st = (0, st\<lparr>bootdev_type := if_type d, info := i\<rparr>)"
  using vendor_init_newest [OF d g assms(3,4) s(1)] s(2) i best by simp

section \<open>The store as its callers see it\<close>

text \<open>
  What a caller of the vendor storage may rely on: a map from ids to byte strings, reads that return
  a prefix, writes that either replace exactly one entry or leave everything alone.
\<close>

locale item_store =
  fixes invar :: "'s \<Rightarrow> bool"
    and contents :: "'s \<Rightarrow> nat \<rightharpoonup> bytes"
    and rd :: "'s \<Rightarrow> nat \<Rightarrow> nat \<Rightarrow> (int \<times> bytes \<times> 's) outcome"
    and wr :: "'s \<Rightarrow> nat \<Rightarrow> bytes \<Rightarrow> (int \<times> 's) outcome"
  assumes rd_law: "invar s \<Longrightarrow> rd s k n = Done (case contents s k of
        None \<Rightarrow> (- EINVAL, [], s) | Some v \<Rightarrow> (int (min n (length v)), take n v, s))"
    and wr_law: "invar s \<Longrightarrow> length v < 65536 \<Longrightarrow> \<exists>r s'. wr s k v = Done (r, s') \<and> invar s' \<and>
        ((r \<in> {int (length v), - EIO} \<and> contents s' = (contents s)(k \<mapsto> v)) \<or>
         (r \<in> {- EINVAL, - ENOMEM} \<and> s' = s))"
begin

lemma wr_ok:
  assumes "invar s" "length v < 65536" "wr s k v = Done (r, s')"
  shows "invar s'" and "0 \<le> r \<Longrightarrow> r = int (length v) \<and> contents s' = (contents s)(k \<mapsto> v)"
  using wr_law [OF assms(1,2), of k] assms(3) by (auto simp: errno_defs)

lemma read_back:
  assumes "invar s" "length v < 65536" "wr s k v = Done (r, s')" "0 \<le> r"
  shows "rd s' k n = Done (int (min n (length v)), take n v, s')"
  using wr_ok [OF assms(1-3)] assms(4) by (simp add: rd_law)

lemma read_other:
  assumes "invar s" "length v < 65536" "wr s k v = Done (r, s')" "0 \<le> r" "k' \<noteq> k"
  shows "rd s' k' n = map_outcome (\<lambda>(ret, bs, _). (ret, bs, s')) (rd s k' n)"
  using wr_ok [OF assms(1-3)] assms(4,5)
  by (simp add: rd_law [OF assms(1)] rd_law split: option.split)

end

interpretation vstore: item_store "ready g" "\<lambda>st. vendor_map (info st)" vendor_storage_read vendor_storage_write
  for g
  by unfold_locales (rule vendor_storage_read_spec vendor_storage_write_spec; assumption)+

section \<open>A concrete box\<close>

text \<open>A NAND box whose vendor area was never written: every transfer succeeds, no slot is valid.\<close>

definition blank_image :: vendor_image where
  "blank_image = (vendor_reset_image (slot_geom 128 2 126))\<lparr>tag := 0xFFFFFFFF\<rparr>"

definition nand_box :: vendor_state where
  "nand_box = \<lparr>bootdev_type = IF_TYPE_UNKNOWN, info = blank_image, flash_ops = None,
     bootdev = Some \<lparr>if_type = IF_TYPE_RKNAND, rawblksz = 512,
       blk = \<lparr>media = (\<lambda>_. blank_image), rd_count = (\<lambda>_ n. int n), wr_count = (\<lambda>_ n. int n)\<rparr>\<rparr>,
     spinor = None, malloc_ok = True\<rparr>"

definition nand_ready :: vendor_state where
  "nand_ready = nand_box\<lparr>bootdev_type := IF_TYPE_RKNAND, info := vendor_reset_image (slot_geom 128 2 126)\<rparr>"

abbreviation nand_geom :: vendor_geom where
  "nand_geom \<equiv> slot_geom 128 2 126"

lemma nand_box_init: "vendor_storage_init nand_box = (0, nand_ready)"
  by (simp add: vendor_storage_init_def vendor_dev_desc_def nand_box_def nand_ready_def
      NAND_VENDOR_PART_NUM_def slot_geom_def numeral_2_eq_2 vendor_ops_read_def slot_valid_def blank_image_def
      VENDOR_TAG_def)

lemma nand_ready_ready: "ready nand_geom nand_ready"
  using vendor_inv_reset [of IF_TYPE_RKNAND nand_geom]
  by (simp add: ready_def nand_ready_def nand_box_def vendor_dev_desc_def NAND_VENDOR_PART_NUM_def)

lemma nand_ready_write:
  "\<exists>st'. vendor_storage_write nand_ready 3 [1, 2, 3, 4, 5, 6] = Done (6, st') \<and>
     \<not> slot_valid (slot st' nand_geom (next_index (info st')))"
proof -
  have a: "align64 (Suc (Suc (Suc (Suc (Suc (Suc 0)))))) = 64" by (simp add: align64_eq)
  have e: "vendor_ensure_init nand_ready = (0, nand_ready)"
    by (rule ready_ensure_init [OF nand_ready_ready])
  show ?thesis
    unfolding vendor_storage_write_def e
    by (simp add: Let_def a
        item_append_def put_data_def vendor_save_def vendor_ops_write_def vendor_dev_desc_def
        nand_ready_def nand_box_def vendor_reset_image_def slot_geom_def bump_version_def
        NAND_VENDOR_PART_NUM_def slot_def vendor_ops_read_def slot_valid_def blank_image_def
        VENDOR_TAG_def vendor_put_dev_def flash_store_def)
qed

lemma nand_ready_facts:
  "readable nand_ready nand_geom" "none_newer nand_ready nand_geom" "malloc_ok nand_ready"
  "tag (info nand_ready) = VENDOR_TAG" "version (info nand_ready) = 1"
  by (simp_all add: readable_def none_newer_def slot_def vendor_ops_read_def vendor_dev_desc_def
      nand_ready_def nand_box_def slot_valid_def blank_image_def VENDOR_TAG_def vendor_reset_image_def
      slot_geom_def)

text \<open>What a power cycle leaves: the media, but neither the selected device nor the RAM copy.\<close>

definition power_cycle :: "vendor_image \<Rightarrow> vendor_state \<Rightarrow> vendor_state" where
  "power_cycle junk st = st\<lparr>bootdev_type := IF_TYPE_UNKNOWN, info := junk\<rparr>"

lemma power_cycle_dev_desc [simp]: "vendor_dev_desc (power_cycle junk st) = vendor_dev_desc st"
  by (simp add: power_cycle_def vendor_dev_desc_def split: option.split)

lemma power_cycle_flash_ops [simp]: "flash_ops (power_cycle junk st) = flash_ops st"
  by (simp add: power_cycle_def)

lemma vendor_ops_read_ignores:
  "vendor_dev_desc st = Some d \<Longrightarrow> vendor_lba (if_type d) = Some lba \<Longrightarrow>
     vendor_ops_read (power_cycle junk st) a n = vendor_ops_read st a n"
  by (simp add: vendor_ops_read_def)

lemma power_cycle_frame:
  assumes "ready g st"
  shows "slot (power_cycle junk st) g j = slot st g j"
    and "readable (power_cycle junk st) g = readable st g"
    and "malloc_ok (power_cycle junk st) = malloc_ok st"
    and "vendor_dev_desc (power_cycle junk st) = vendor_dev_desc st"
proof -
  from assms obtain d lba where "vendor_dev_desc st = Some d" "vendor_lba (if_type d) = Some lba"
    using vendor_geometry_lba by (fastforce simp: ready_def)
  then have "vendor_ops_read (power_cycle junk st) a n = vendor_ops_read st a n" for a n
    by (rule vendor_ops_read_ignores)
  then show "slot (power_cycle junk st) g j = slot st g j" "readable (power_cycle junk st) g = readable st g"
    by (simp_all add: slot_def readable_def)
  show "malloc_ok (power_cycle junk st) = malloc_ok st" "vendor_dev_desc (power_cycle junk st) = vendor_dev_desc st"
    by (simp_all add: power_cycle_def vendor_dev_desc_def split: option.split)
qed

section \<open>Properties\<close>

text \<open>C4: on an initialised store a write never leaves the buffer, keeps the invariant of the
  image (items in order in disjoint aligned extents, distinct ids, free space accounted for), and
  either replaces exactly one entry of the stored map (also when only saving failed, \<open>-EIO\<close>) or
  refuses and changes nothing: updating in place, moving and resizing, and appending all refine
  one map update.\<close>

theorem vendor_write_refines_map_update:
  assumes "ready g st" and "length buf < 65536"
  shows "\<exists>ret st'. vendor_storage_write st k buf = Done (ret, st') \<and> ready g st' \<and>
    ((ret \<in> {int (length buf), - EIO} \<and> vendor_map (info st') = (vendor_map (info st))(k \<mapsto> buf)) \<or>
     (ret \<in> {- EINVAL, - ENOMEM} \<and> st' = st))"
  using assms by (rule vendor_storage_write_spec)

theorem vendor_write_refines_map_update_witness:
  "\<exists>ret st'. vendor_storage_write nand_ready 3 [1, 2, 3, 4, 5, 6] = Done (ret, st') \<and> ready nand_geom st' \<and>
    ((ret \<in> {6, - EIO} \<and> vendor_map (info st') = (vendor_map (info nand_ready))(3 \<mapsto> [1, 2, 3, 4, 5, 6])) \<or>
     (ret \<in> {- EINVAL, - ENOMEM} \<and> st' = nand_ready))"
  using vendor_write_refines_map_update [OF nand_ready_ready, of "[1, 2, 3, 4, 5, 6]" 3] by simp

text \<open>C5: after a write that reported success, reading the id back returns the bytes written, cut to
  the caller's size, and reading any other id returns what it returned before.\<close>

theorem vendor_read_after_write:
  assumes "ready g st" and "length buf < 65536"
    and "vendor_storage_write st k buf = Done (ret, st')" and "0 \<le> ret"
  shows "vendor_storage_read st' k n = Done (int (min n (length buf)), take n buf, st') \<and>
    (k' \<noteq> k \<longrightarrow> vendor_storage_read st' k' n =
       map_outcome (\<lambda>(r, bs, _). (r, bs, st')) (vendor_storage_read st k' n))"
  using vstore.read_back [OF assms] vstore.read_other [OF assms] by blast

theorem vendor_read_after_write_witness:
  "\<exists>st'. vendor_storage_write nand_ready 3 [1, 2, 3, 4, 5, 6] = Done (6, st') \<and>
     vendor_storage_read st' 3 1024 = Done (6, [1, 2, 3, 4, 5, 6], st')"
proof -
  obtain st' where w: "vendor_storage_write nand_ready 3 [1, 2, 3, 4, 5, 6] = Done (6, st')"
    using nand_ready_write by blast
  with vendor_read_after_write [OF nand_ready_ready _ w, of 1024 3] show ?thesis by simp
qed

text \<open>C6: a write that reported success survives a power cycle: initialising again from the medium
  finds the slot just written newer than all others and brings back exactly the image that was in
  RAM, so the item reads back whatever garbage the RAM held; at most \<open>2 ^ 32 - 1\<close> writes lie before.\<close>

theorem vendor_write_survives_power_cycle:
  assumes "ready g st" "readable st g" "none_newer st g" "tag (info st) = VENDOR_TAG"
    and "version (info st) + 1 < 4294967296" "malloc_ok st" "length buf < 65536"
    and w: "vendor_storage_write st k buf = Done (int (length buf), st')"
  shows "\<exists>st''. vendor_storage_init (power_cycle junk st') = (0, st'') \<and> info st'' = info st' \<and>
     vendor_map (info st'') k = Some buf"
proof -
  have s: "saved st' g" "readable st' g" "ready g st'" "malloc_ok st'"
    using vendor_write_saved [OF assms(1-5,7) w] assms(6) by auto
  from s(3) obtain d where d: "vendor_dev_desc st' = Some d" "vendor_geometry (if_type d) = Some g"
    by (auto simp: ready_def)
  from s(1) obtain sl where sl: "sl < part_num g" "slot st' g sl = info st'" "slot_valid (info st')"
      "0 < version (info st')"
      "\<And>j. j < part_num g \<Longrightarrow> j \<noteq> sl \<Longrightarrow> slot_valid (slot st' g j) \<Longrightarrow> version (slot st' g j) < version (info st')"
    by (auto simp: saved_def)
  have "vendor_storage_init (power_cycle junk st') =
      (0, (power_cycle junk st')\<lparr>bootdev_type := if_type d, info := info st'\<rparr>)"
    using d s sl by (intro vendor_init_saved [where s = sl and g = g]) (simp_all add: power_cycle_frame [OF s(3)])
  moreover have "vendor_map (info st') k = Some buf"
    using vstore.wr_ok(2) [OF assms(1,7) w] by simp
  ultimately show ?thesis by simp
qed

theorem vendor_write_survives_power_cycle_witness:
  "\<exists>st' st''. vendor_storage_write nand_ready 3 [1, 2, 3, 4, 5, 6] = Done (6, st') \<and>
     vendor_storage_init (power_cycle blank_image st') = (0, st'') \<and>
     vendor_map (info st'') 3 = Some [1, 2, 3, 4, 5, 6]"
proof -
  obtain st' where w: "vendor_storage_write nand_ready 3 [1, 2, 3, 4, 5, 6] = Done (6, st')"
    using nand_ready_write by blast
  with vendor_write_survives_power_cycle [OF nand_ready_ready nand_ready_facts(1,2,4) _ nand_ready_facts(3), of "[1, 2, 3, 4, 5, 6]" 3 st' blank_image]
  show ?thesis by (auto simp: nand_ready_facts)
qed



end
