(* ===== verification/CText.thy ===== *)
theory CText
  imports Prelude
begin

text \<open>
  What the sources use of the C library to read text: character classes, the numeric and string
  directives of \<open>sscanf\<close> and \<open>strtoul\<close> as ISO C describes them on a target whose \<open>int\<close> and
  \<open>long\<close> have 32 bits, and the hexadecimal output the round trips are stated with.
\<close>

section \<open>Characters\<close>

definition isspace :: "char \<Rightarrow> bool" where
  "isspace c = (c \<in> {CHR '' '', CHR 0x09, CHR 0x0A, CHR 0x0B, CHR 0x0C, CHR 0x0D})"

definition xdigit :: "char \<Rightarrow> nat option" where
  "xdigit c = (let n = (of_char c :: nat) in
     if 48 \<le> n \<and> n \<le> 57 then Some (n - 48)
     else if 65 \<le> n \<and> n \<le> 70 then Some (n - 55)
     else if 97 \<le> n \<and> n \<le> 102 then Some (n - 87)
     else None)"

definition digit :: "nat \<Rightarrow> char \<Rightarrow> nat option" where
  "digit base c = (case xdigit c of None \<Rightarrow> None | Some v \<Rightarrow> if v < base then Some v else None)"

definition hexchar :: "nat \<Rightarrow> char" where
  "hexchar n = ''0123456789abcdef'' ! n"

definition hexchar_up :: "nat \<Rightarrow> char" where
  "hexchar_up n = ''0123456789ABCDEF'' ! n"

lemma below_16: "n < 16 \<Longrightarrow> n \<in> {0, 1, 2, 3, 4, 5, 6, 7, 8, 9, 10, 11, 12, 13, 14, 15 :: nat}"
  by (simp only: insert_iff empty_iff) presburger

lemma hexchar_facts:
  assumes "n < 16"
  shows "xdigit (hexchar n) = Some n" "\<not> isspace (hexchar n)" "hexchar n \<noteq> CHR ''+''"
    "hexchar n \<noteq> CHR ''-''" "hexchar n \<noteq> CHR ''x''" "hexchar n \<noteq> CHR ''X''"
  using below_16 [OF assms] by (auto simp: hexchar_def xdigit_def isspace_def)

lemma hexchar_up_facts:
  assumes "n < 16"
  shows "xdigit (hexchar_up n) = Some n" "\<not> isspace (hexchar_up n)" "hexchar_up n \<noteq> CHR ''+''"
    "hexchar_up n \<noteq> CHR ''-''" "hexchar_up n \<noteq> CHR ''x''" "hexchar_up n \<noteq> CHR ''X''"
  using below_16 [OF assms] by (auto simp: hexchar_up_def xdigit_def isspace_def)

section \<open>Numbers\<close>

fun digits :: "nat \<Rightarrow> string \<Rightarrow> nat list \<times> string" where
  "digits base [] = ([], [])"
| "digits base (c # cs) =
     (case digit base c of None \<Rightarrow> ([], c # cs)
      | Some d \<Rightarrow> (case digits base cs of (ds, rest) \<Rightarrow> (d # ds, rest)))"

definition number :: "nat \<Rightarrow> nat list \<Rightarrow> nat" where
  "number base ds = foldl (\<lambda>a d. base * a + d) 0 ds"

text \<open>Values out of range saturate, as \<open>strtoul\<close> does; a minus sign negates afterwards.\<close>

definition to_ulong :: "bool \<Rightarrow> nat \<Rightarrow> u32" where
  "to_ulong neg v = (if v \<ge> 2 ^ 32 then - 1 else if neg then - of_nat v else of_nat v)"

definition skip_space :: "string \<Rightarrow> string" where
  "skip_space s = dropWhile isspace s"

definition take_sign :: "string \<Rightarrow> bool \<times> string" where
  "take_sign s = (case s of [] \<Rightarrow> (False, [])
     | c # cs \<Rightarrow> if c = CHR ''-'' then (True, cs) else if c = CHR ''+'' then (False, cs) else (False, s))"

definition has_0x :: "string \<Rightarrow> bool" where
  "has_0x s = (case s of a # b # _ \<Rightarrow> a = CHR ''0'' \<and> (b = CHR ''x'' \<or> b = CHR ''X'') | _ \<Rightarrow> False)"

text \<open>The directives \<open>%x\<close> (base 16) and \<open>%u\<close>, \<open>%lu\<close> (base 10) without a field width.\<close>

definition scan_num :: "nat \<Rightarrow> string \<Rightarrow> (u32 \<times> string) option" where
  "scan_num base s =
     (case take_sign (skip_space s) of (neg, s1) \<Rightarrow>
       (case digits base (if base = 16 \<and> has_0x s1 then drop 2 s1 else s1) of (ds, rest) \<Rightarrow>
          if ds = [] then None else Some (to_ulong neg (number base ds), rest)))"

text \<open>The directive \<open>%<w>s\<close>.\<close>

definition scan_word :: "nat \<Rightarrow> string \<Rightarrow> (string \<times> string) option" where
  "scan_word w s =
     (let s1 = skip_space s; t = take w (takeWhile (\<lambda>c. \<not> isspace c) s1)
      in if t = [] then None else Some (t, drop (length t) s1))"

text \<open>\<open>strtoul(s, &end, 0)\<close>: the value and what \<open>end\<close> points at; with no digits nothing is
  consumed.\<close>

definition strtoul0 :: "string \<Rightarrow> u32 \<times> string" where
  "strtoul0 s =
     (case take_sign (skip_space s) of (neg, s1) \<Rightarrow>
       (let hex = (has_0x s1 \<and> fst (digits 16 (drop 2 s1)) \<noteq> []);
            base = (if hex then 16 else if s1 \<noteq> [] \<and> hd s1 = CHR ''0'' then 8 else 10)
        in case digits base (if hex then drop 2 s1 else s1) of (ds, rest) \<Rightarrow>
          if ds = [] then (0, s) else (to_ulong neg (number base ds), rest)))"

subsection \<open>Eight hexadecimal digits\<close>

fun hex_digits :: "nat \<Rightarrow> nat \<Rightarrow> nat list" where
  "hex_digits 0 v = []"
| "hex_digits (Suc n) v = hex_digits n (v div 16) @ [v mod 16]"

definition print_08X :: "u32 \<Rightarrow> string" where
  "print_08X v = map hexchar_up (hex_digits 8 (unat v))"

lemma hex_digits_numeral [simp]:
  "hex_digits (numeral k) v = hex_digits (pred_numeral k) (v div 16) @ [v mod 16]"
  by (simp only: numeral_eq_Suc [of k] hex_digits.simps)

lemma hex_digits_bound: "d \<in> set (hex_digits n v) \<Longrightarrow> d < 16"
  by (induction n v rule: hex_digits.induct) auto

lemma number_hex_digits: "v < 16 ^ n \<Longrightarrow> number 16 (hex_digits n v) = v"
proof (induction n v rule: hex_digits.induct)
  case (2 n v)
  then have "v div 16 < 16 ^ n" by (simp add: less_mult_imp_div_less mult.commute)
  with 2 show ?case by (simp add: number_def)
qed (simp add: number_def)

lemma length_hex_digits [simp]: "length (hex_digits n v) = n"
  by (induction n v rule: hex_digits.induct) auto

lemma digits_hexchars:
  assumes "\<forall>d\<in>set ds. d < 16" and "rest = [] \<or> digit 16 (hd rest) = None"
  shows "digits 16 (map hexchar_up ds @ rest) = (ds, rest)"
  using assms
proof (induction ds)
  case Nil
  then show ?case by (cases rest) auto
next
  case (Cons d ds)
  then show ?case by (simp add: digit_def hexchar_up_facts)
qed

lemma to_ulong_unat: "to_ulong False (unat v) = v"
proof -
  have "unat v < 2 ^ 32" using unsigned_less [of v] by simp
  then show ?thesis by (simp add: to_ulong_def)
qed

lemma length_print_08X [simp]: "length (print_08X v) = 8"
  by (simp add: print_08X_def)

lemma skip_space_Cons [simp]: "isspace c \<Longrightarrow> skip_space (c # s) = skip_space s"
  by (simp add: skip_space_def)

lemma scan_num_space [simp]: "isspace c \<Longrightarrow> scan_num b (c # s) = scan_num b s"
  by (simp add: scan_num_def)

lemma scan_num_print_08X:
  assumes "rest = [] \<or> digit 16 (hd rest) = None"
  shows "scan_num 16 (print_08X v @ rest) = Some (v, rest)"
proof -
  define ds where "ds = hex_digits 8 (unat v)"
  have b: "\<forall>d\<in>set ds. d < 16" using hex_digits_bound by (auto simp: ds_def)
  have "unat v < 16 ^ 8" using unsigned_less [of v] by simp
  then have n: "number 16 ds = unat v" unfolding ds_def by (rule number_hex_digits)
  obtain d e ds' where ds: "ds = d # e # ds'"
    by (metis ds_def length_hex_digits Suc_length_conv numeral_eq_Suc pred_numeral_simps(3)
        pred_numeral_simps(2) BitM.simps)
  with b have d: "d < 16" "e < 16" by auto
  let ?s = "map hexchar_up ds @ rest"
  have "take_sign (skip_space ?s) = (False, ?s)" "\<not> has_0x ?s"
    by (simp_all add: ds skip_space_def take_sign_def has_0x_def hexchar_up_facts [OF d(1)] hexchar_up_facts [OF d(2)])
  with b n digits_hexchars [OF b assms] ds show ?thesis
    unfolding print_08X_def ds_def [symmetric] by (simp add: scan_num_def to_ulong_unat)
qed

end
