(* ===== verification/VendorMac.thy ===== *)
theory VendorMac
  imports Vendor CText
begin

text \<open>
  \<open>tools/v24-vendor-mac.c\<close>: the tool that stores the MAC address printed on the box in the vendor
  storage and verifies it.  The kernel driver behind \<open>/dev/vendor_storage\<close> is no part of the
  repository: its two ioctls are arguments of the model, its contract the locale \<open>vendor_driver\<close>,
  shown satisfiable on the vendor storage of theory \<open>Vendor\<close>.  \<open>sscanf\<close> is modelled as ISO C
  describes its \<open>%02x\<close>, literal and \<open>%c\<close> directives.
\<close>

section \<open>Reading a MAC address\<close>

text \<open>
  \<open>%02x\<close>: white space is skipped, then the longest prefix of at most two characters that starts a
  hexadecimal number is taken; a lone sign and a lone \<open>0x\<close> are matching failures.
\<close>

fun scan_02x :: "string \<Rightarrow> (u32 \<times> string) option" where
  "scan_02x [] = None"
| "scan_02x (c # cs) =
     (if isspace c then scan_02x cs
      else if c = CHR ''+'' \<or> c = CHR ''-'' then
        (case cs of [] \<Rightarrow> None
         | d # ds \<Rightarrow> (case xdigit d of None \<Rightarrow> None
             | Some v \<Rightarrow> Some (if c = CHR ''-'' then - of_nat v else of_nat v, ds)))
      else (case xdigit c of None \<Rightarrow> None
        | Some v \<Rightarrow>
          (case cs of [] \<Rightarrow> Some (of_nat v, [])
           | d # ds \<Rightarrow>
             (if c = CHR ''0'' \<and> (d = CHR ''x'' \<or> d = CHR ''X'') then None
              else (case xdigit d of None \<Rightarrow> Some (of_nat v, d # ds)
                | Some w \<Rightarrow> Some (of_nat (16 * v + w), ds))))))"

text \<open>The remaining \<open>n\<close> conversions of the format, each after a literal colon, then \<open>%c\<close>, which
  must find the end of the string for \<open>sscanf\<close> to return 6.\<close>

fun scan_colon_02x :: "nat \<Rightarrow> string \<Rightarrow> u32 list option" where
  "scan_colon_02x 0 s = (if s = [] then Some [] else None)"
| "scan_colon_02x (Suc n) (c # s) =
     (if c = CHR '':'' then
        (case scan_02x s of None \<Rightarrow> None
         | Some (v, rest) \<Rightarrow> map_option ((#) v) (scan_colon_02x n rest))
      else None)"
| "scan_colon_02x (Suc n) [] = None"

definition parse_mac :: "string \<Rightarrow> bytes option" where
  "parse_mac s = (case scan_02x s of None \<Rightarrow> None
     | Some (v, rest) \<Rightarrow> map_option (\<lambda>vs. map ucast (v # vs)) (scan_colon_02x 5 rest))"

section \<open>The request and the tool\<close>

record RK_VENDOR_REQ =
  req_tag :: nat
  req_id :: nat
  req_len :: nat
  req_data :: bytes

definition VENDOR_REQ_TAG :: nat where "VENDOR_REQ_TAG = 0x56524551"
definition LAN_MAC_ID :: nat where "LAN_MAC_ID = 3"

definition read_req :: RK_VENDOR_REQ where
  "read_req = \<lparr>req_tag = VENDOR_REQ_TAG, req_id = LAN_MAC_ID, req_len = 1024, req_data = replicate 1024 0\<rparr>"

definition write_req :: "bytes \<Rightarrow> RK_VENDOR_REQ" where
  "write_req mac = \<lparr>req_tag = VENDOR_REQ_TAG, req_id = LAN_MAC_ID, req_len = 6,
     req_data = mac @ replicate 1018 0\<rparr>"

text \<open>What the tool prints, one constructor per \<open>printf\<close>, \<open>fprintf\<close> and \<open>perror\<close>.\<close>

datatype report =
    Bad_mac string
  | Open_failed
  | Shown bytes
  | Shown_empty
  | Current bytes
  | Current_none nat
  | Write_failed
  | Write_ok
  | Verify_ok bytes
  | Verify_failed nat

definition default_mac :: bytes where
  "default_mac = [0xB8, 0x3D, 0x4E, 0x84, 0x3D, 0xA3]"

definition vendor_mac_main ::
  "('s \<Rightarrow> RK_VENDOR_REQ \<Rightarrow> int \<times> RK_VENDOR_REQ \<times> 's) \<Rightarrow> ('s \<Rightarrow> RK_VENDOR_REQ \<Rightarrow> int \<times> RK_VENDOR_REQ \<times> 's) \<Rightarrow>
   bool \<Rightarrow> string list \<Rightarrow> 's \<Rightarrow> int \<times> report list \<times> 's" where
  "vendor_mac_main read_io write_io open_ok args s =
     (let show_only = (args \<noteq> [] \<and> hd args = ''show'');
          parsed = (if \<not> show_only \<and> args \<noteq> [] then parse_mac (hd args) else Some default_mac)
      in case parsed of None \<Rightarrow> (2, [Bad_mac (hd args)], s)
      | Some mac \<Rightarrow>
        if \<not> open_ok then (1, [Open_failed], s)
        else if show_only then
          (case read_io s read_req of (r, q, s1) \<Rightarrow>
             (0, [if r = 0 \<and> req_len q = 6 then Shown (take 6 (req_data q)) else Shown_empty], s1))
        else
          (case read_io s read_req of (r, q, s1) \<Rightarrow>
             (let cur = (if r = 0 \<and> req_len q = 6 then Current (take 6 (req_data q)) else Current_none (req_len q))
              in case write_io s1 (write_req mac) of (rw, _, s2) \<Rightarrow>
                if rw \<noteq> 0 then (1, [cur, Write_failed], s2)
                else (case read_io s2 read_req of (r3, q3, s3) \<Rightarrow>
                  if r3 = 0 \<and> req_len q3 = 6 \<and> take 6 (req_data q3) = mac
                  then (0, [cur, Write_ok, Verify_ok (take 6 (req_data q3))], s3)
                  else (1, [cur, Write_ok, Verify_failed (req_len q3)], s3)))))"

lemma scan_colon_02x_numeral [simp]:
  "scan_colon_02x (numeral k) (c # s) =
     (if c = CHR '':'' then
        (case scan_02x s of None \<Rightarrow> None
         | Some (v, rest) \<Rightarrow> map_option ((#) v) (scan_colon_02x (pred_numeral k) rest))
      else None)"
  "scan_colon_02x (numeral k) [] = None"
  by (simp_all add: numeral_eq_Suc)

section \<open>Parsing and printing\<close>

lemma scan_colon_02x_length: "scan_colon_02x n s = Some vs \<Longrightarrow> length vs = n"
  by (induction n s arbitrary: vs rule: scan_colon_02x.induct) (auto split: if_splits option.splits)

lemma parse_mac_length: "parse_mac s = Some mac \<Longrightarrow> length mac = 6"
  by (auto simp: parse_mac_def dest: scan_colon_02x_length split: option.splits)

text \<open>\<open>printf("%02x")\<close> of one byte, as the tool prints addresses.\<close>

definition print_02x :: "u8 \<Rightarrow> string" where
  "print_02x b = [hexchar (unat b div 16), hexchar (unat b mod 16)]"

fun print_mac :: "bytes \<Rightarrow> string" where
  "print_mac [] = []"
| "print_mac [b] = print_02x b"
| "print_mac (b # bs) = print_02x b @ CHR '':'' # print_mac bs"

lemma scan_print_02x: "scan_02x (print_02x b @ rest) = Some (ucast b, rest)"
proof -
  have b: "unat b < 256" using unsigned_less [of b] by simp
  then have hi: "unat b div 16 < 16" and lo: "unat b mod 16 < 16" by auto
  have v: "16 * (unat b div 16) + unat b mod 16 = unat b" by simp
  have "(of_nat (unat b) :: u32) = ucast b" by simp
  with v show ?thesis
    by (simp add: print_02x_def hexchar_facts [OF hi] hexchar_facts [OF lo] del: of_nat_unat)
qed

lemma ucast_u32_u8 [simp]: "ucast (ucast (b :: u8) :: u32) = b"
  by (simp add: ucast_up_ucast_id is_up.rep_eq)

lemma scan_colon_print:
  "bs \<noteq> [] \<Longrightarrow> scan_colon_02x (length bs) (CHR '':'' # print_mac bs) = Some (map ucast bs)"
proof (induction bs rule: print_mac.induct)
  case (2 b)
  then show ?case using scan_print_02x [of b "[]"] by simp
next
  case (3 b c cs)
  then show ?case using scan_print_02x [of b] by simp
qed simp

text \<open>The format check is looser than the addresses it is meant to admit: signs, blanks and single
  digits pass.\<close>

lemma parse_mac_accepts_signs: "parse_mac ''-1: +2:3:4:5:6'' = Some [255, 2, 3, 4, 5, 6]"
proof -
  have "ucast (- 1 :: u32) = (255 :: u8)" by code_simp
  then show ?thesis by (simp add: parse_mac_def isspace_def xdigit_def)
qed

section \<open>The contract of the driver\<close>

text \<open>
  What the tool relies on of the driver: a successful read returns the stored item cut to the
  requested length and its length, reading changes nothing, a stored item can be read, and a
  successful write stores the first \<open>len\<close> bytes of the request.
\<close>

locale vendor_driver =
  fixes drv_ok :: "'s \<Rightarrow> bool" and contents :: "'s \<Rightarrow> nat \<rightharpoonup> bytes"
    and read_io write_io :: "'s \<Rightarrow> RK_VENDOR_REQ \<Rightarrow> int \<times> RK_VENDOR_REQ \<times> 's"
  assumes read_keeps: "drv_ok s \<Longrightarrow> read_io s q = (r, q', s') \<Longrightarrow> drv_ok s' \<and> contents s' = contents s"
    and read_result: "drv_ok s \<Longrightarrow> read_io s q = (0, q', s') \<Longrightarrow>
      \<exists>bs. contents s (req_id q) = Some bs \<and> req_len q' = min (req_len q) (length bs) \<and>
        take (req_len q') (req_data q') = take (req_len q) bs"
    and read_found: "drv_ok s \<Longrightarrow> req_tag q = VENDOR_REQ_TAG \<Longrightarrow> contents s (req_id q) = Some bs \<Longrightarrow>
      read_io s q = (r, q', s') \<Longrightarrow> r = 0"
    and write_stores: "drv_ok s \<Longrightarrow> req_len q \<le> length (req_data q) \<Longrightarrow> write_io s q = (r, q', s') \<Longrightarrow>
      drv_ok s' \<and> (r = 0 \<longrightarrow> contents s' = (contents s)(req_id q \<mapsto> take (req_len q) (req_data q)))"
begin

lemma read_mac:
  assumes "drv_ok s" and "read_io s read_req = (0, q', s')" and "req_len q' = 6"
  shows "contents s LAN_MAC_ID = Some (take 6 (req_data q'))"
proof -
  obtain bs where "contents s LAN_MAC_ID = Some bs" "6 = min 1024 (length bs)"
    "take 6 (req_data q') = take 1024 bs"
    using read_result [OF assms(1,2)] assms(3) by (auto simp: read_req_def)
  then show ?thesis by simp
qed

lemma read_mac_back:
  assumes "drv_ok s" and "contents s LAN_MAC_ID = Some mac" and "length mac = 6"
    and "read_io s read_req = (r, q', s')"
  shows "r = 0 \<and> req_len q' = 6 \<and> take 6 (req_data q') = mac"
proof -
  have r: "r = 0" using read_found [OF assms(1) _ _ assms(4)] assms(2) by (simp add: read_req_def)
  with read_result [OF assms(1)] assms show ?thesis by (fastforce simp: read_req_def)
qed

lemma show_only:
  assumes "drv_ok s" and "vendor_mac_main read_io write_io ok (''show'' # rest) s = (e, out, s')"
  shows "drv_ok s' \<and> contents s' = contents s \<and>
    (out = [Shown mac] \<longrightarrow> contents s LAN_MAC_ID = Some mac)"
  using assms read_keeps [OF assms(1)] read_mac [OF assms(1)]
  by (auto simp: vendor_mac_main_def split: if_splits prod.splits)

lemma stores:
  assumes "drv_ok s" and "length mac = 6" and "args = [] \<or> hd args \<noteq> ''show''"
    and "(if args = [] then Some default_mac else parse_mac (hd args)) = Some mac"
    and "vendor_mac_main read_io write_io True args s = (e, out, s')"
  shows "drv_ok s' \<and> (e = 0 \<longleftrightarrow> Write_failed \<notin> set out) \<and>
    (e = 0 \<longrightarrow> contents s' = (contents s)(LAN_MAC_ID \<mapsto> mac))"
proof -
  obtain r q s1 where rd1: "read_io s read_req = (r, q, s1)" by (metis prod_cases3)
  obtain rw qw s2 where wr: "write_io s1 (write_req mac) = (rw, qw, s2)" by (metis prod_cases3)
  obtain r3 q3 s3 where rd3: "read_io s2 read_req = (r3, q3, s3)" by (metis prod_cases3)
  have s1: "drv_ok s1" "contents s1 = contents s" using read_keeps [OF assms(1) rd1] by auto
  have s2: "drv_ok s2" "rw = 0 \<Longrightarrow> contents s2 = (contents s)(LAN_MAC_ID \<mapsto> mac)"
    using write_stores [OF s1(1) _ wr] s1(2) assms(2) by (auto simp: write_req_def)
  have s3: "drv_ok s3" "contents s3 = contents s2" using read_keeps [OF s2(1) rd3] by auto
  have "rw = 0 \<Longrightarrow> r3 = 0 \<and> req_len q3 = 6 \<and> take 6 (req_data q3) = mac"
    using read_mac_back [OF s2(1) _ assms(2) rd3] s2(2) by simp
  moreover define cur where
    "cur = (if r = 0 \<and> req_len q = 6 then Current (take 6 (req_data q)) else Current_none (req_len q))"
  moreover have "vendor_mac_main read_io write_io True args s =
     (if rw \<noteq> 0 then (1, [cur, Write_failed], s2)
      else if r3 = 0 \<and> req_len q3 = 6 \<and> take 6 (req_data q3) = mac
        then (0, [cur, Write_ok, Verify_ok (take 6 (req_data q3))], s3)
        else (1, [cur, Write_ok, Verify_failed (req_len q3)], s3))"
    using assms(3,4) rd1 wr rd3 by (cases args) (simp_all add: vendor_mac_main_def Let_def cur_def)
  ultimately show ?thesis
    using assms(5) s2 s3 by (auto split: if_splits)
qed

end

section \<open>The contract on the vendor storage\<close>

text \<open>
  The contract can be met: requests served by the vendor storage of theory \<open>Vendor\<close>, whose medium
  the kernel driver shares, satisfy every law.
\<close>

definition store_read_io :: "vendor_state \<Rightarrow> RK_VENDOR_REQ \<Rightarrow> int \<times> RK_VENDOR_REQ \<times> vendor_state" where
  "store_read_io st q =
     (if req_tag q \<noteq> VENDOR_REQ_TAG then (- 1, q, st)
      else case vendor_storage_read st (req_id q) (req_len q) of
        Done (r, bs, st') \<Rightarrow> if r < 0 then (- 1, q, st')
          else (0, q\<lparr>req_len := nat r, req_data := overwrite 0 bs (req_data q)\<rparr>, st')
      | _ \<Rightarrow> (- 1, q, st))"

definition store_write_io :: "vendor_state \<Rightarrow> RK_VENDOR_REQ \<Rightarrow> int \<times> RK_VENDOR_REQ \<times> vendor_state" where
  "store_write_io st q =
     (if req_tag q \<noteq> VENDOR_REQ_TAG \<or> 65536 \<le> req_len q then (- 1, q, st)
      else case vendor_storage_write st (req_id q) (take (req_len q) (req_data q)) of
        Done (r, st') \<Rightarrow> (if r < 0 then - 1 else 0, q, st')
      | _ \<Rightarrow> (- 1, q, st))"

lemma store_read_io_eq:
  assumes "ready g st"
  shows "store_read_io st q =
    (if req_tag q \<noteq> VENDOR_REQ_TAG then (- 1, q, st)
     else case vendor_map (info st) (req_id q) of None \<Rightarrow> (- 1, q, st)
     | Some v \<Rightarrow> (0, q\<lparr>req_len := min (req_len q) (length v),
         req_data := overwrite 0 (take (req_len q) v) (req_data q)\<rparr>, st))"
  using vstore.rd_law [OF assms, of "req_id q" "req_len q"]
  by (auto simp: store_read_io_def errno_defs split: option.split)

lemma store_write_io_law:
  assumes "ready g st" and "req_len q \<le> length (req_data q)" and "store_write_io st q = (r, q', st')"
  shows "ready g st' \<and> (r = 0 \<longrightarrow>
    vendor_map (info st') = (vendor_map (info st))(req_id q \<mapsto> take (req_len q) (req_data q)))"
proof (cases "req_tag q \<noteq> VENDOR_REQ_TAG \<or> 65536 \<le> req_len q")
  case True
  with assms(1,3) show ?thesis by (auto simp: store_write_io_def)
next
  case False
  then have l: "length (take (req_len q) (req_data q)) < 65536" by (simp add: min_less_iff_disj)
  obtain r' where w: "vendor_storage_write st (req_id q) (take (req_len q) (req_data q)) = Done (r', st')"
    and r: "r = (if r' < 0 then - 1 else 0)"
    using vstore.wr_law [OF assms(1) l, of "req_id q"] False assms(3) by (auto simp: store_write_io_def)
  show ?thesis using vstore.wr_ok [OF assms(1) l w] r by (auto split: if_splits)
qed

lemma store_read_io_cases:
  assumes "ready g st" and "store_read_io st q = (r, q', st')"
  shows "st' = st \<and> (r = - 1 \<or> r = 0 \<and> (\<exists>v. vendor_map (info st) (req_id q) = Some v \<and>
     q' = q\<lparr>req_len := min (req_len q) (length v), req_data := overwrite 0 (take (req_len q) v) (req_data q)\<rparr>))"
  using assms(2) unfolding store_read_io_eq [OF assms(1)]
  by (cases "req_tag q \<noteq> VENDOR_REQ_TAG"; cases "vendor_map (info st) (req_id q)") auto

interpretation vdrv: vendor_driver "ready g" "\<lambda>st. vendor_map (info st)" store_read_io store_write_io
  for g
proof unfold_locales
  fix s r q q' s' assume "ready g s" "store_read_io s q = (r, q', s')"
  then show "ready g s' \<and> vendor_map (info s') = vendor_map (info s)"
    using store_read_io_cases by blast
next
  fix s q q' s' assume "ready g s" "store_read_io s q = (0, q', s')"
  then obtain v where "vendor_map (info s) (req_id q) = Some v"
    and "q' = q\<lparr>req_len := min (req_len q) (length v), req_data := overwrite 0 (take (req_len q) v) (req_data q)\<rparr>"
    using store_read_io_cases [of g s q 0 q' s'] by auto
  then show "\<exists>bs. vendor_map (info s) (req_id q) = Some bs \<and> req_len q' = min (req_len q) (length bs) \<and>
      take (req_len q') (req_data q') = take (req_len q) bs"
    by (simp add: overwrite_def min_def)
next
  fix s q bs r q' s'
  assume "ready g s" "req_tag q = VENDOR_REQ_TAG" "vendor_map (info s) (req_id q) = Some bs"
    "store_read_io s q = (r, q', s')"
  then show "r = 0" by (simp add: store_read_io_eq [of g])
next
  fix s q r q' s'
  assume "ready g s" "req_len q \<le> length (req_data q)" "store_write_io s q = (r, q', s')"
  then show "ready g s' \<and> (r = 0 \<longrightarrow>
      vendor_map (info s') = (vendor_map (info s))(req_id q \<mapsto> take (req_len q) (req_data q)))"
    by (rule store_write_io_law)
qed

section \<open>Properties\<close>

text \<open>Every six-byte address the tool prints is read back by \<open>parse_mac\<close> as the same six bytes,
  and whatever \<open>parse_mac\<close> accepts fills all six.\<close>

theorem parse_mac_roundtrip:
  "(length mac = 6 \<longrightarrow> parse_mac (print_mac mac) = Some mac) \<and>
   (parse_mac s = Some mac' \<longrightarrow> length mac' = 6)"
proof -
  have "parse_mac (print_mac mac) = Some mac" if "length mac = 6"
  proof -
    from that obtain b bs where m: "mac = b # bs" "length bs = 5" by (cases mac) auto
    then have ne: "bs \<noteq> []" by auto
    then have p: "print_mac (b # bs) = print_02x b @ CHR '':'' # print_mac bs"
      by (cases bs) auto
    show ?thesis
      using scan_colon_print [OF ne] m
      by (simp add: parse_mac_def p scan_print_02x o_def map_idI)
  qed
  then show ?thesis by (simp add: parse_mac_length)
qed

theorem parse_mac_roundtrip_witness:
  "parse_mac (print_mac default_mac) = Some default_mac \<and>
   parse_mac ''b8:3d:4e:84:3d:a3'' = Some default_mac \<and>
   parse_mac ''b8:3d:4e:84:3d:a3:00'' = None"
proof -
  have "length default_mac = 6" by (simp add: default_mac_def)
  then have "parse_mac (print_mac default_mac) = Some default_mac"
    using parse_mac_roundtrip [of default_mac] by simp
  moreover have "print_mac default_mac = ''b8:3d:4e:84:3d:a3''"
    by (simp add: default_mac_def print_02x_def hexchar_def)
  moreover have "parse_mac ''b8:3d:4e:84:3d:a3:00'' = None"
    by (simp add: parse_mac_def isspace_def xdigit_def numeral_eq_Suc)
  ultimately show ?thesis by simp
qed

text \<open>C10: on a driver that meets its contract, the tool called with an address (or none, for the
  label address) exits with 0 exactly when the write ioctl succeeded, and then the LAN MAC item of
  the storage is that address and every other item is untouched: the verification step can
  only confirm a write that took place.\<close>

theorem vendor_mac_stores_address:
  assumes "vendor_driver drv_ok contents read_io write_io" and "drv_ok s"
    and "args = [] \<or> hd args \<noteq> ''show''"
    and "(if args = [] then Some default_mac else parse_mac (hd args)) = Some mac"
    and "vendor_mac_main read_io write_io True args s = (e, out, s')"
  shows "(e = 0 \<longleftrightarrow> Write_failed \<notin> set out) \<and>
    (e = 0 \<longrightarrow> contents s' = (contents s)(LAN_MAC_ID \<mapsto> mac))"
proof -
  have "length mac = 6"
    using assms(4) parse_mac_length by (auto simp: default_mac_def split: if_splits)
  then show ?thesis using vendor_driver.stores [OF assms(1,2) _ assms(3-5)] by blast
qed

theorem vendor_mac_stores_address_witness:
  "\<exists>e out st'. vendor_mac_main store_read_io store_write_io True [] nand_ready = (e, out, st') \<and>
     (e = 0 \<longleftrightarrow> Write_failed \<notin> set out) \<and>
     (e = 0 \<longrightarrow> vendor_map (info st') = (vendor_map (info nand_ready))(LAN_MAC_ID \<mapsto> default_mac))"
proof -
  obtain e out st' where
    m: "vendor_mac_main store_read_io store_write_io True [] nand_ready = (e, out, st')"
    by (metis prod_cases3)
  with vendor_mac_stores_address [OF vdrv.vendor_driver_axioms nand_ready_ready _ _ m, of default_mac]
  show ?thesis by auto
qed

text \<open>\<open>show\<close> leaves the storage as it was and prints an address only when that is the stored
  item; a malformed address is refused before the device is opened or touched.\<close>

theorem vendor_mac_show_only:
  assumes "vendor_driver drv_ok contents read_io write_io" and "drv_ok s"
  shows "(vendor_mac_main read_io write_io ok (''show'' # rest) s = (e, out, s') \<longrightarrow>
      contents s' = contents s \<and> (out = [Shown mac] \<longrightarrow> contents s LAN_MAC_ID = Some mac)) \<and>
    (a \<noteq> ''show'' \<longrightarrow> parse_mac a = None \<longrightarrow>
      vendor_mac_main read_io write_io ok (a # rest) s = (2, [Bad_mac a], s))"
proof (intro conjI impI)
  show "vendor_mac_main read_io write_io ok (a # rest) s = (2, [Bad_mac a], s)"
    if "a \<noteq> ''show''" "parse_mac a = None"
    using that by (simp add: vendor_mac_main_def)
qed (use vendor_driver.show_only [OF assms] in blast)+

theorem vendor_mac_show_only_witness:
  "\<exists>e out st'. vendor_mac_main store_read_io store_write_io True [''show''] nand_ready = (e, out, st') \<and>
     vendor_map (info st') = vendor_map (info nand_ready) \<and>
     vendor_mac_main store_read_io store_write_io True [''b8:3d''] nand_ready = (2, [Bad_mac ''b8:3d''], nand_ready)"
proof -
  obtain e out st' where
    m: "vendor_mac_main store_read_io store_write_io True [''show''] nand_ready = (e, out, st')"
    by (metis prod_cases3)
  have "parse_mac ''b8:3d'' = None" by (simp add: parse_mac_def isspace_def xdigit_def numeral_eq_Suc)
  with m vendor_mac_show_only [OF vdrv.vendor_driver_axioms nand_ready_ready, of True "[]" e out st' _ "''b8:3d''"]
  show ?thesis by auto
qed

end
