(* ===== verification/XmioLed.thy ===== *)
theory XmioLed
  imports CText
begin

text \<open>
  \<open>tools/xmio-led.c\<close>: the daemon that drives the status LEDs of the box.  Its state is the record
  \<open>led\<close> (the variables of \<open>main\<close>, the cached LED values and what the LED nodes hold), one turn of
  the loop is \<open>led_step\<close>, and what the kernel shows it in that turn (interfaces, routes, disk
  statistics, the answer to an ICMP packet, whether the LED nodes can be written) is the record
  \<open>tick_env\<close>.  The lemmas show what the LEDs display in every reachable state and how soon they
  follow the network.
\<close>

section \<open>The network\<close>

record iface =
  ifa_name :: "string option"
  iff_loopback :: bool
  iff_running :: bool
  ifa_inet :: "bytes option"

definition iface_skipped :: "iface \<Rightarrow> bool" where
  "iface_skipped p = (case ifa_name p of None \<Rightarrow> True
     | Some n \<Rightarrow> n = ''lo'' \<or> take 3 n = ''sit'' \<or> take 3 n = ''tun'' \<or> take 5 n = ''virbr'' \<or> iff_loopback p)"

definition global_ipv4 :: "bytes \<Rightarrow> bool" where
  "global_ipv4 b = (\<not> (b ! 0 = 169 \<and> b ! 1 = 254) \<and> b ! 0 < 224)"

fun probe_ifaces :: "iface list \<Rightarrow> bool \<Rightarrow> bool \<Rightarrow> bool \<times> bool" where
  "probe_ifaces [] link have_ip = (link, have_ip)"
| "probe_ifaces (p # ps) link have_ip =
     (if iface_skipped p then probe_ifaces ps link have_ip
      else probe_ifaces ps (link \<or> iff_running p)
             (have_ip \<or> (case ifa_inet p of None \<Rightarrow> False | Some b \<Rightarrow> global_ipv4 b)))"

definition net_probe :: "iface list option \<Rightarrow> bool \<times> bool" where
  "net_probe ifs = (case ifs of None \<Rightarrow> (False, False) | Some ps \<Rightarrow> probe_ifaces ps False False)"

text \<open>One line of \<open>/proc/net/route\<close>, then the first default route with a gateway.\<close>

definition route_line :: "string \<Rightarrow> (string \<times> u32 \<times> u32) option" where
  "route_line line = (case scan_word 31 line of None \<Rightarrow> None
     | Some (ifn, s1) \<Rightarrow> (case scan_num 16 s1 of None \<Rightarrow> None
       | Some (dest, s2) \<Rightarrow> (case scan_num 16 s2 of None \<Rightarrow> None
         | Some (g, _) \<Rightarrow> Some (ifn, dest, g))))"

definition gw_bytes :: "u32 \<Rightarrow> bytes" where
  "gw_bytes g = [ucast (g AND 0xff), ucast (drop_bit 8 g AND 0xff),
     ucast (drop_bit 16 g AND 0xff), ucast (drop_bit 24 g AND 0xff)]"

fun scan_routes :: "string list \<Rightarrow> bytes option" where
  "scan_routes [] = None"
| "scan_routes (line # ls) = (case route_line line of
     Some (ifn, dest, g) \<Rightarrow> if dest = 0 \<and> g \<noteq> 0 \<and> ifn \<noteq> ''lo'' then Some (gw_bytes g) else scan_routes ls
   | None \<Rightarrow> scan_routes ls)"

definition get_gw :: "string list option \<Rightarrow> bytes option" where
  "get_gw routes = (case routes of None \<Rightarrow> None | Some ls \<Rightarrow> scan_routes ls)"

subsection \<open>ICMP echo\<close>

lemma fold16_decreases: "s div 65536 \<noteq> 0 \<Longrightarrow> s mod 65536 + s div 65536 < (s :: nat)"
proof -
  assume a: "s div 65536 \<noteq> 0"
  have "s = 65536 * (s div 65536) + s mod 65536" by simp
  with a show ?thesis by linarith
qed

function fold16 :: "nat \<Rightarrow> nat" where
  "fold16 s = (if s div 65536 = 0 then s else fold16 (s mod 65536 + s div 65536))"
  by auto
termination
  by (relation "measure id") (simp only: wf_measure, simp only: in_measure id_apply, rule fold16_decreases)

declare fold16.simps [simp del]

definition le16 :: "u16 \<Rightarrow> bytes" where
  "le16 v = [ucast v, ucast (drop_bit 8 v)]"

fun words16 :: "bytes \<Rightarrow> nat list" where
  "words16 (a # b # bs) = (unat a + 256 * unat b) # words16 bs"
| "words16 _ = []"

definition echo_request :: "u16 \<Rightarrow> bytes" where
  "echo_request i =
     (let pkt = [8, 0, 0, 0] @ le16 i @ le16 1;
          ck = NOT (of_nat (fold16 (sum_list (words16 pkt)))) :: u16
      in overwrite 2 (le16 ck) pkt)"

text \<open>
  \<open>net dst pkt\<close> is what the network does with a packet: \<open>None\<close> when \<open>sendto\<close> fails, \<open>Some None\<close>
  when \<open>poll\<close> times out, otherwise the bytes \<open>recvfrom\<close> delivers (none on an error), at most 80.
\<close>

type_synonym network = "bytes \<Rightarrow> bytes \<Rightarrow> bytes option option"

definition echo_reply_ok :: "bool \<Rightarrow> u16 \<Rightarrow> bytes \<Rightarrow> bool" where
  "echo_reply_ok raw i received =
     (let rb = take 80 received; off = (if raw then 20 else 0)
      in off + 8 \<le> length rb \<and> rb ! off = 0 \<and> take 2 (drop (off + 4) rb) = le16 i)"

definition ping_gw :: "bool \<Rightarrow> bool \<Rightarrow> network \<Rightarrow> u16 \<Rightarrow> bytes \<Rightarrow> int \<times> u16" where
  "ping_gw raw_ok dgram_ok net idc dst =
     (if \<not> raw_ok \<and> \<not> dgram_ok then (- 1, idc)
      else (case net dst (echo_request idc) of None \<Rightarrow> (- 1, idc + 1)
        | Some None \<Rightarrow> (0, idc + 1)
        | Some (Some rb) \<Rightarrow> (if echo_reply_ok raw_ok idc rb then 1 else 0, idc + 1)))"

section \<open>The disk\<close>

fun scan_nums :: "nat \<Rightarrow> string \<Rightarrow> (u32 list \<times> string) option" where
  "scan_nums 0 s = Some ([], s)"
| "scan_nums (Suc n) s = (case scan_num 10 s of None \<Rightarrow> None
     | Some (v, s1) \<Rightarrow> map_option (apfst ((#) v)) (scan_nums n s1))"

definition disk_line :: "string \<Rightarrow> (string \<times> u32 \<times> u32) option" where
  "disk_line line = (case scan_nums 2 line of None \<Rightarrow> None
     | Some (_, s1) \<Rightarrow> (case scan_word 63 s1 of None \<Rightarrow> None
       | Some (nm, s2) \<Rightarrow> (case scan_nums 7 s2 of None \<Rightarrow> None
         | Some (vs, _) \<Rightarrow> Some (nm, vs ! 2, vs ! 6))))"

fun scan_disks :: "string list \<Rightarrow> u32 \<times> u32" where
  "scan_disks [] = (0, 0)"
| "scan_disks (line # ls) = (case disk_line line of
     Some (nm, rs, ws) \<Rightarrow> if nm = ''rknand_root'' then (rs, ws) else scan_disks ls
   | None \<Rightarrow> scan_disks ls)"

definition disk_sectors :: "string list option \<Rightarrow> u32 \<times> u32" where
  "disk_sectors f = (case f of None \<Rightarrow> (0, 0) | Some ls \<Rightarrow> scan_disks ls)"

section \<open>The daemon\<close>

record tick_env =
  mu_link :: bool
  uptime_cs :: nat
  ifs :: "iface list option"
  routes :: "string list option"
  raw_ok :: bool
  dgram_ok :: bool
  net :: network
  diskstats :: "string list option"
  st_open :: bool
  st_write :: bool
  ye_open :: bool
  ye_write :: bool

datatype logev =
    Started
  | Status int
  | Booted
  | Link_lost
  | Link_up bool
  | No_global_ip
  | Pinged bytes int int
  | No_default_gw
  | Netok_changed int int

record led =
  netok :: int
  boot :: bool
  tick :: int
  blink :: int
  had_link :: bool
  have_disk :: bool
  prd :: u32
  pwr :: u32
  next_probe :: int
  st_status :: int
  st_yellow :: int
  idc :: u16
  led_status :: int
  led_yellow :: int
  dbg :: bool
  log :: "logev list"

definition PING_EVERY :: int where "PING_EVERY = 50"
definition MU_EVERY :: int where "MU_EVERY = 4"

definition dlog :: "logev \<Rightarrow> led \<Rightarrow> led" where
  "dlog ev s = (if dbg s then s\<lparr>log := log s @ [ev]\<rparr> else s)"

text \<open>\<open>wr\<close> fails only when the node cannot be opened; a failing \<open>write\<close> counts as done.\<close>

definition set_status :: "tick_env \<Rightarrow> int \<Rightarrow> led \<Rightarrow> led" where
  "set_status e v s = (if v \<noteq> st_status s \<and> st_open e
     then (dlog (Status v) s)\<lparr>st_status := v, led_status := (if st_write e then v else led_status s)\<rparr>
     else s)"

definition set_yellow :: "tick_env \<Rightarrow> int \<Rightarrow> led \<Rightarrow> led" where
  "set_yellow e v s = (if v \<noteq> st_yellow s \<and> ye_open e
     then s\<lparr>st_yellow := v, led_yellow := (if ye_write e then v else led_yellow s)\<rparr>
     else s)"

text \<open>\<open>/proc/uptime\<close> has two decimals, so the time is counted in hundredths of a second.\<close>

definition multiuser_reached :: "tick_env \<Rightarrow> bool" where
  "multiuser_reached e = (mu_link e \<or> 9000 \<le> uptime_cs e)"

definition boot_step :: "tick_env \<Rightarrow> led \<Rightarrow> led" where
  "boot_step e s = (if \<not> boot s \<and> tick s mod MU_EVERY = 0 \<and> multiuser_reached e
     then dlog Booted (s\<lparr>boot := True\<rparr>) else s)"

text \<open>The probe: the new \<open>netok\<close>, the next identifier and what is logged.\<close>

definition probe_verdict :: "tick_env \<Rightarrow> bool \<Rightarrow> u16 \<Rightarrow> int \<times> u16 \<times> logev" where
  "probe_verdict e have_ip i =
     (if \<not> have_ip then (0, i, No_global_ip)
      else (case get_gw (routes e) of
        Some gw \<Rightarrow> (case ping_gw (raw_ok e) (dgram_ok e) (net e) i gw of (pr, i') \<Rightarrow>
            (let n = (if pr = 1 \<or> pr = - 1 then 1 else 0) in (n, i', Pinged gw pr n)))
      | None \<Rightarrow> (1, i, No_default_gw)))"

definition run_probe :: "tick_env \<Rightarrow> bool \<Rightarrow> led \<Rightarrow> led" where
  "run_probe e have_ip s =
     (case probe_verdict e have_ip (idc s) of (n, i', ev) \<Rightarrow>
       (let s1 = dlog ev (s\<lparr>netok := n, idc := i'\<rparr>);
            s2 = (if netok s \<noteq> - 1 \<and> netok s \<noteq> n then dlog (Netok_changed (netok s) n) s1 else s1)
        in s2\<lparr>next_probe := tick s + (if n = 1 then PING_EVERY else 5)\<rparr>))"

definition net_step :: "tick_env \<Rightarrow> led \<Rightarrow> led" where
  "net_step e s =
     (case net_probe (ifs e) of (link, have_ip) \<Rightarrow>
        if \<not> link then (if had_link s then dlog Link_lost s else s)\<lparr>netok := 0, had_link := False\<rparr>
        else (let s1 = (if \<not> had_link s
                then (dlog (Link_up have_ip) s)\<lparr>had_link := True, netok := - 1, tick := 0, next_probe := 0\<rparr>
                else s)
              in if netok s1 < 0 \<or> next_probe s1 \<le> tick s1 then run_probe e have_ip s1 else s1))"

definition status_step :: "tick_env \<Rightarrow> led \<Rightarrow> led" where
  "status_step e s =
     (if \<not> boot s \<or> netok s < 0 then (let b = blink s XOR 1 in set_status e b (s\<lparr>blink := b\<rparr>))
      else if netok s = 1 then set_status e 0 s
      else set_status e 1 s)"

definition disk_step :: "tick_env \<Rightarrow> led \<Rightarrow> led" where
  "disk_step e s =
     (case disk_sectors (diskstats e) of (rd, wrr) \<Rightarrow>
        if rd \<noteq> 0 \<or> wrr \<noteq> 0 then
          (if \<not> have_disk s then (set_yellow e 0 s)\<lparr>have_disk := True\<rparr>
           else if rd \<noteq> prd s \<or> wrr \<noteq> pwr s then set_yellow e 1 s
           else set_yellow e 0 s)\<lparr>prd := rd, pwr := wrr\<rparr>
        else set_yellow e 0 s)"

definition led_step :: "tick_env \<Rightarrow> led \<Rightarrow> led" where
  "led_step e s = disk_step e (status_step e (net_step e (boot_step e (s\<lparr>tick := tick s + 1\<rparr>))))"

text \<open>Start-up: the trigger is cleared whether or not that works; without writable LED nodes the
  daemon ends with status 1.\<close>

definition led_start :: "bool \<Rightarrow> bool \<Rightarrow> int \<Rightarrow> int \<Rightarrow> bool \<Rightarrow> int + led" where
  "led_start status_w yellow_w red yel log_ok =
     (if \<not> status_w \<or> \<not> yellow_w then Inl 1
      else Inr (dlog Started \<lparr>netok = - 1, boot = False, tick = 0, blink = 0, had_link = False,
        have_disk = False, prd = 0, pwr = 0, next_probe = 0, st_status = - 1, st_yellow = - 1,
        idc = 0x3128, led_status = red, led_yellow = yel, dbg = log_ok, log = []\<rparr>))"

primrec led_run :: "tick_env list \<Rightarrow> led \<Rightarrow> led" where
  "led_run [] s = s"
| "led_run (e # es) s = led_run es (led_step e s)"


section \<open>Frames\<close>

text \<open>Logging and the LED nodes change nothing the control part of the loop depends on.\<close>

lemma dlog_frame [simp]:
  "netok (dlog ev s) = netok s" "boot (dlog ev s) = boot s" "tick (dlog ev s) = tick s"
  "blink (dlog ev s) = blink s" "had_link (dlog ev s) = had_link s" "have_disk (dlog ev s) = have_disk s"
  "next_probe (dlog ev s) = next_probe s" "idc (dlog ev s) = idc s" "prd (dlog ev s) = prd s"
  "pwr (dlog ev s) = pwr s" "st_status (dlog ev s) = st_status s" "st_yellow (dlog ev s) = st_yellow s"
  "led_status (dlog ev s) = led_status s" "led_yellow (dlog ev s) = led_yellow s" "dbg (dlog ev s) = dbg s"
  by (simp_all add: dlog_def)

lemma set_status_frame [simp]:
  "netok (set_status e v s) = netok s" "boot (set_status e v s) = boot s" "tick (set_status e v s) = tick s"
  "blink (set_status e v s) = blink s" "had_link (set_status e v s) = had_link s"
  "next_probe (set_status e v s) = next_probe s" "idc (set_status e v s) = idc s"
  "have_disk (set_status e v s) = have_disk s" "prd (set_status e v s) = prd s" "pwr (set_status e v s) = pwr s"
  "st_yellow (set_status e v s) = st_yellow s" "led_yellow (set_status e v s) = led_yellow s"
  by (simp_all add: set_status_def)

lemma set_yellow_frame [simp]:
  "netok (set_yellow e v s) = netok s" "boot (set_yellow e v s) = boot s" "tick (set_yellow e v s) = tick s"
  "blink (set_yellow e v s) = blink s" "had_link (set_yellow e v s) = had_link s"
  "next_probe (set_yellow e v s) = next_probe s" "idc (set_yellow e v s) = idc s"
  "have_disk (set_yellow e v s) = have_disk s" "prd (set_yellow e v s) = prd s" "pwr (set_yellow e v s) = pwr s"
  "st_status (set_yellow e v s) = st_status s" "led_status (set_yellow e v s) = led_status s"
  by (simp_all add: set_yellow_def)

lemma disk_step_frame [simp]:
  "netok (disk_step e s) = netok s" "boot (disk_step e s) = boot s" "tick (disk_step e s) = tick s"
  "blink (disk_step e s) = blink s" "had_link (disk_step e s) = had_link s"
  "next_probe (disk_step e s) = next_probe s" "idc (disk_step e s) = idc s"
  "st_status (disk_step e s) = st_status s" "led_status (disk_step e s) = led_status s"
  by (simp_all add: disk_step_def split: prod.split)

lemma status_step_frame [simp]:
  "netok (status_step e s) = netok s" "boot (status_step e s) = boot s" "tick (status_step e s) = tick s"
  "had_link (status_step e s) = had_link s" "next_probe (status_step e s) = next_probe s"
  "idc (status_step e s) = idc s"
  "have_disk (status_step e s) = have_disk s" "prd (status_step e s) = prd s" "pwr (status_step e s) = pwr s"
  "st_yellow (status_step e s) = st_yellow s" "led_yellow (status_step e s) = led_yellow s"
  by (simp_all add: status_step_def Let_def)

lemma boot_step_frame [simp]:
  "netok (boot_step e s) = netok s" "tick (boot_step e s) = tick s" "blink (boot_step e s) = blink s"
  "had_link (boot_step e s) = had_link s" "next_probe (boot_step e s) = next_probe s"
  "idc (boot_step e s) = idc s" "have_disk (boot_step e s) = have_disk s"
  "prd (boot_step e s) = prd s" "pwr (boot_step e s) = pwr s"
  "st_status (boot_step e s) = st_status s" "st_yellow (boot_step e s) = st_yellow s"
  "led_status (boot_step e s) = led_status s" "led_yellow (boot_step e s) = led_yellow s"
  by (simp_all add: boot_step_def)

lemma run_probe_frame [simp]:
  "boot (run_probe e h s) = boot s" "tick (run_probe e h s) = tick s" "blink (run_probe e h s) = blink s"
  "had_link (run_probe e h s) = had_link s" "have_disk (run_probe e h s) = have_disk s"
  "prd (run_probe e h s) = prd s" "pwr (run_probe e h s) = pwr s"
  "st_status (run_probe e h s) = st_status s" "st_yellow (run_probe e h s) = st_yellow s"
  "led_status (run_probe e h s) = led_status s" "led_yellow (run_probe e h s) = led_yellow s"
  by (simp_all add: run_probe_def Let_def split: prod.split)

lemma net_step_frame [simp]:
  "boot (net_step e s) = boot s" "blink (net_step e s) = blink s" "have_disk (net_step e s) = have_disk s"
  "prd (net_step e s) = prd s" "pwr (net_step e s) = pwr s"
  "st_status (net_step e s) = st_status s" "st_yellow (net_step e s) = st_yellow s"
  "led_status (net_step e s) = led_status s" "led_yellow (net_step e s) = led_yellow s"
  by (simp_all add: net_step_def Let_def split: prod.split)

section \<open>The network verdict\<close>

abbreviation verdict :: "tick_env \<Rightarrow> u16 \<Rightarrow> int" where
  "verdict e i \<equiv> fst (probe_verdict e (snd (net_probe (ifs e))) i)"

lemma verdict_range: "verdict e i = 0 \<or> verdict e i = 1"
  by (simp add: probe_verdict_def Let_def split: option.split prod.split)

lemma verdict_one_iff:
  "verdict e i = 1 \<longleftrightarrow> snd (net_probe (ifs e)) \<and>
     (case get_gw (routes e) of None \<Rightarrow> True
      | Some gw \<Rightarrow> fst (ping_gw (raw_ok e) (dgram_ok e) (net e) i gw) \<in> {1, - 1})"
  by (auto simp: probe_verdict_def Let_def split: option.split prod.split)

lemma run_probe_eq:
  "h = snd (net_probe (ifs e)) \<Longrightarrow> netok (run_probe e h s) = verdict e (idc s)"
  "h = snd (net_probe (ifs e)) \<Longrightarrow>
     next_probe (run_probe e h s) = tick s + (if verdict e (idc s) = 1 then PING_EVERY else 5)"
  by (simp_all add: run_probe_def Let_def split: prod.split)

abbreviation link_up :: "tick_env \<Rightarrow> bool" where
  "link_up e \<equiv> fst (net_probe (ifs e))"

text \<open>One turn as the network part sees it.\<close>

lemma led_step_down:
  "\<not> link_up e \<Longrightarrow> netok (led_step e s) = 0 \<and> \<not> had_link (led_step e s) \<and> tick (led_step e s) = tick s + 1"
  by (cases "net_probe (ifs e)") (simp add: led_step_def net_step_def)

lemma led_step_new:
  assumes "link_up e" and "\<not> had_link s"
  shows "netok (led_step e s) = verdict e (idc s) \<and> had_link (led_step e s) \<and> tick (led_step e s) = 0 \<and>
    next_probe (led_step e s) = (if verdict e (idc s) = 1 then PING_EVERY else 5)"
  using assms by (auto simp: led_step_def net_step_def Let_def run_probe_eq split: prod.split)

lemma led_step_kept:
  assumes "link_up e" and "had_link s" and "0 \<le> netok s"
  shows "had_link (led_step e s) \<and> tick (led_step e s) = tick s + 1 \<and>
    (if next_probe s \<le> tick s + 1
     then netok (led_step e s) = verdict e (idc s) \<and>
          next_probe (led_step e s) = tick s + 1 + (if verdict e (idc s) = 1 then PING_EVERY else 5)
     else netok (led_step e s) = netok s \<and> next_probe (led_step e s) = next_probe s)"
  using assms by (auto simp: led_step_def net_step_def Let_def run_probe_eq split: prod.split)

section \<open>The invariant\<close>

definition led_inv :: "led \<Rightarrow> bool" where
  "led_inv s \<longleftrightarrow> netok s \<in> {0, 1} \<and> blink s \<in> {0, 1} \<and> st_status s \<in> {0, 1} \<union> {- 1} \<and> 0 \<le> tick s \<and>
     (had_link s \<longrightarrow> next_probe s \<le> tick s + (if netok s = 1 then PING_EVERY else 5)) \<and>
     (\<not> had_link s \<longrightarrow> netok s = 0)"

definition led_pre :: "led \<Rightarrow> bool" where
  "led_pre s \<longleftrightarrow> led_inv s \<or> \<not> had_link s \<and> netok s = - 1 \<and> blink s \<in> {0, 1} \<and> st_status s = - 1 \<and> 0 \<le> tick s"

lemma xor_1_cases: "b = 0 \<or> b = 1 \<Longrightarrow> b XOR 1 = 1 - (b :: int)"
  by auto

lemma blink_step: "blink s \<in> {0, 1} \<Longrightarrow> blink (led_step e s) \<in> {0, 1}"
  by (auto simp: led_step_def status_step_def Let_def)

lemma st_status_step:
  "blink s \<in> {0, 1} \<Longrightarrow> st_status s \<in> {0, 1} \<union> {- 1} \<Longrightarrow> st_status (led_step e s) \<in> {0, 1} \<union> {- 1}"
  by (auto simp: led_step_def status_step_def Let_def set_status_def)

lemma led_inv_step:
  assumes "led_pre s"
  shows "led_inv (led_step e s)"
proof -
  have b: "blink s \<in> {0, 1}" "st_status s \<in> {0, 1} \<union> {- 1}" "0 \<le> tick s"
    using assms by (auto simp: led_pre_def led_inv_def)
  have n: "netok (led_step e s) \<in> {0, 1} \<and> 0 \<le> tick (led_step e s) \<and>
     (had_link (led_step e s) \<longrightarrow>
        next_probe (led_step e s) \<le> tick (led_step e s) + (if netok (led_step e s) = 1 then PING_EVERY else 5)) \<and>
     (\<not> had_link (led_step e s) \<longrightarrow> netok (led_step e s) = 0)"
  proof (cases "link_up e")
    case False
    then show ?thesis using led_step_down [of e s] b by simp
  next
    case up: True
    show ?thesis
    proof (cases "had_link s")
      case False
      then show ?thesis using led_step_new [OF up] verdict_range [of e "idc s"] by auto
    next
      case True
      then have "led_inv s" using assms by (auto simp: led_pre_def)
      with True show ?thesis
        using led_step_kept [OF up True] verdict_range [of e "idc s"]
        by (auto simp: led_inv_def split: if_splits)
    qed
  qed
  then show ?thesis using blink_step [OF b(1)] st_status_step [OF b(1,2)] by (simp add: led_inv_def)
qed

lemma led_inv_run: "led_pre s \<Longrightarrow> es \<noteq> [] \<Longrightarrow> led_inv (led_run es s)"
proof (induction es arbitrary: s)
  case (Cons e es)
  then have "led_inv (led_step e s)" by (simp add: led_inv_step)
  then show ?case using Cons.IH by (cases es) (auto simp: led_pre_def)
qed simp

lemma led_start_pre: "led_start a b r y l = Inr s \<Longrightarrow> led_pre s"
  by (auto simp: led_start_def led_pre_def split: if_splits)

section \<open>What the LEDs show\<close>

definition status_writable :: "tick_env \<Rightarrow> bool" where
  "status_writable e \<longleftrightarrow> st_open e \<and> st_write e"

definition yellow_writable :: "tick_env \<Rightarrow> bool" where
  "yellow_writable e \<longleftrightarrow> ye_open e \<and> ye_write e"

text \<open>The cache holds nothing yet, or what the node holds.\<close>

definition cached :: "int \<Rightarrow> int \<Rightarrow> bool" where
  "cached c v \<longleftrightarrow> c = - 1 \<or> c = v"

lemma set_status_shows:
  assumes "status_writable e" and "cached (st_status s) (led_status s)" and "v \<noteq> - 1"
  shows "led_status (set_status e v s) = v \<and> st_status (set_status e v s) = v"
  using assms by (auto simp: set_status_def status_writable_def cached_def)

lemma set_yellow_shows:
  assumes "yellow_writable e" and "cached (st_yellow s) (led_yellow s)" and "v \<noteq> - 1"
  shows "led_yellow (set_yellow e v s) = v \<and> st_yellow (set_yellow e v s) = v"
  using assms by (auto simp: set_yellow_def yellow_writable_def cached_def)

definition status_colour :: "led \<Rightarrow> int" where
  "status_colour s = (if \<not> boot s then blink s else if netok s = 1 then 0 else 1)"

lemma led_step_shows_status:
  assumes "led_pre s" and "status_writable e" and "cached (st_status s) (led_status s)"
  shows "led_status (led_step e s) = status_colour (led_step e s) \<and>
    cached (st_status (led_step e s)) (led_status (led_step e s))"
proof -
  define s1 where "s1 = net_step e (boot_step e (s\<lparr>tick := tick s + 1\<rparr>))"
  have step: "led_step e s = disk_step e (status_step e s1)" by (simp add: led_step_def s1_def)
  have "netok s1 \<in> {0, 1}"
    using led_inv_step [OF assms(1), of e] by (simp add: step led_inv_def)
  moreover have "blink s1 \<in> {0, 1}" "cached (st_status s1) (led_status s1)"
    using assms by (auto simp: s1_def led_pre_def led_inv_def)
  ultimately show ?thesis
    using assms(2) set_status_shows [of e "s1\<lparr>blink := blink s1 XOR 1\<rparr>" "blink s1 XOR 1"]
      set_status_shows [of e s1]
    by (auto simp: step status_step_def status_colour_def Let_def cached_def)
qed

lemma led_step_shows_yellow:
  assumes "yellow_writable e" and "cached (st_yellow s) (led_yellow s)"
    and "disk_sectors (diskstats e) = (rd, w)"
  shows "led_yellow (led_step e s) = (if (rd \<noteq> 0 \<or> w \<noteq> 0) \<and> have_disk s \<and> (rd \<noteq> prd s \<or> w \<noteq> pwr s) then 1 else 0) \<and>
    cached (st_yellow (led_step e s)) (led_yellow (led_step e s))"
proof -
  define s1 where "s1 = status_step e (net_step e (boot_step e (s\<lparr>tick := tick s + 1\<rparr>)))"
  have c: "cached (st_yellow s1) (led_yellow s1)" using assms(2) by (simp add: s1_def)
  have "have_disk s1 = have_disk s" "prd s1 = prd s" "pwr s1 = pwr s" by (simp_all add: s1_def)
  moreover have "led_step e s = disk_step e s1" by (simp add: led_step_def s1_def)
  ultimately show ?thesis
    using set_yellow_shows [OF assms(1) c, of 0] set_yellow_shows [OF assms(1) c, of 1] assms(3)
    by (auto simp: disk_step_def cached_def)
qed

lemma led_run_append: "led_run (es @ fs) s = led_run fs (led_run es s)"
  by (induction es arbitrary: s) auto

lemma led_run_cached:
  assumes "led_pre s" and "\<forall>e\<in>set es. status_writable e" and "cached (st_status s) (led_status s)"
  shows "cached (st_status (led_run es s)) (led_status (led_run es s)) \<and>
    (es \<noteq> [] \<longrightarrow> led_status (led_run es s) = status_colour (led_run es s))"
  using assms
proof (induction es rule: rev_induct)
  case (snoc e es)
  have "led_pre (led_run es s)"
    using snoc.prems(1) led_inv_run [of s es] by (cases "es = []") (auto simp: led_pre_def)
  with snoc show ?case using led_step_shows_status [of "led_run es s" e] by (auto simp: led_run_append)
qed simp

text \<open>While booting the two-colour LED alternates: every other turn shows green (0).\<close>

lemma led_boot_alternates:
  assumes "led_pre s" and "status_writable e" and "cached (st_status s) (led_status s)"
    and "\<not> boot (led_step e s)"
  shows "led_status (led_step e s) = 1 - blink s"
proof -
  have "blink s = 0 \<or> blink s = 1" using assms(1) by (auto simp: led_pre_def led_inv_def)
  moreover have "\<not> boot (boot_step e (s\<lparr>tick := tick s + 1\<rparr>))" using assms(4) by (simp add: led_step_def)
  ultimately have "blink (led_step e s) = 1 - blink s"
    by (auto simp: led_step_def status_step_def Let_def)
  then show ?thesis using led_step_shows_status [OF assms(1-3)] assms(4) by (simp add: status_colour_def)
qed

section \<open>How soon the LED follows the network\<close>

text \<open>The link stays up and every probe comes to the same verdict.\<close>

definition steady :: "int \<Rightarrow> tick_env \<Rightarrow> bool" where
  "steady v e \<longleftrightarrow> link_up e \<and> (\<forall>i. verdict e i = v)"

lemma steady_keeps:
  assumes "led_inv s" and "had_link s" and "netok s = v" and "\<forall>e\<in>set es. steady v e"
  shows "netok (led_run es s) = v"
  using assms
proof (induction es arbitrary: s)
  case (Cons e es)
  then have up: "link_up e" and v: "verdict e (idc s) = v" by (auto simp: steady_def)
  have k: "had_link (led_step e s)" "netok (led_step e s) = v"
    using led_step_kept [OF up Cons.prems(2)] Cons.prems(1,3) v by (auto simp: led_inv_def split: if_splits)
  have "led_inv (led_step e s)" using Cons.prems(1) by (simp add: led_inv_step led_pre_def)
  with Cons.IH [OF _ k] Cons.prems(4) show ?case by simp
qed simp

lemma steady_reaches:
  assumes "led_inv s" and "had_link s" and "\<forall>e\<in>set es. steady v e"
    and "next_probe s \<le> tick s + int (length es)" and "es \<noteq> []"
  shows "netok (led_run es s) = v"
  using assms
proof (induction es arbitrary: s)
  case (Cons e es)
  then have up: "link_up e" and v: "verdict e (idc s) = v" and n: "0 \<le> netok s"
    by (auto simp: steady_def led_inv_def)
  have inv: "led_inv (led_step e s)" using Cons.prems(1) by (simp add: led_inv_step led_pre_def)
  note kept = led_step_kept [OF up Cons.prems(2) n]
  show ?case
  proof (cases "next_probe s \<le> tick s + 1")
    case True
    then have "netok (led_step e s) = v" using kept v by simp
    then show ?thesis using steady_keeps [OF inv] kept Cons.prems(3) by simp
  next
    case False
    then have "es \<noteq> []" using Cons.prems(4) by auto
    moreover have "next_probe (led_step e s) \<le> tick (led_step e s) + int (length es)"
      using False kept Cons.prems(4) by auto
    ultimately show ?thesis using Cons.IH [OF inv] kept Cons.prems(3) by simp
  qed
qed simp

lemma steady_settles:
  assumes "led_inv s" and "\<forall>e\<in>set es. steady v e" and "es \<noteq> []"
    and "(if v = 1 then 5 else PING_EVERY) \<le> int (length es)"
  shows "netok (led_run es s) = v"
proof (cases "had_link s")
  case True
  from assms(3) obtain e where "e \<in> set es" by (cases es) auto
  with assms(2) have "verdict e 0 = v" by (auto simp: steady_def)
  then have "v = 0 \<or> v = 1" using verdict_range [of e 0] by simp
  then show ?thesis
  proof (cases "netok s = v")
    case True
    then show ?thesis using steady_keeps [OF assms(1) \<open>had_link s\<close> True assms(2)] by simp
  next
    case False
    then have "next_probe s \<le> tick s + int (length es)"
      using assms(1,4) True \<open>v = 0 \<or> v = 1\<close> by (auto simp: led_inv_def PING_EVERY_def)
    then show ?thesis using steady_reaches [OF assms(1) True assms(2)] assms(3) by simp
  qed
next
  case False
  from assms(3) obtain e es' where es: "es = e # es'" by (cases es) auto
  then have up: "link_up e" and v: "verdict e (idc s) = v" using assms(2) by (auto simp: steady_def)
  have inv: "led_inv (led_step e s)" using assms(1) by (simp add: led_inv_step led_pre_def)
  have "had_link (led_step e s)" "netok (led_step e s) = v" using led_step_new [OF up False] v by auto
  then show ?thesis using steady_keeps [OF inv] assms(2) by (simp add: es)
qed

lemma boot_run: "boot s \<Longrightarrow> boot (led_run es s)"
proof (induction es arbitrary: s)
  case (Cons e es)
  have "boot (led_step e s)" using Cons.prems by (simp add: led_step_def boot_step_def)
  with Cons.IH show ?case by simp
qed simp

section \<open>Gateway and echo request\<close>

lemma gw_bytes_put32le: "gw_bytes v = put32le v"
proof -
  have m: "w AND 0xff = take_bit 8 w" for w :: u32 by (simp add: take_bit_eq_mask mask_eq_exp_minus_1)
  have "ucast (w AND 0xff) = (ucast w :: u8)" for w :: u32
    unfolding m by (rule bit_word_eqI) (simp add: bit_simps)
  then show ?thesis by (simp add: gw_bytes_def put32le_def)
qed

lemma words16_le16: "words16 (le16 v @ bs) = unat v # words16 bs"
proof -
  have v: "unat v < 65536" using unsigned_less [of v] by simp
  have "unat (ucast v :: u8) = unat v mod 256" "unat (ucast (drop_bit 8 v) :: u8) = unat v div 256"
    by (simp_all only: unsigned_ucast_eq unsigned_drop_bit_eq)
       (use v in \<open>simp_all add: take_bit_eq_mod drop_bit_eq_div\<close>)
  then show ?thesis by (simp add: le16_def)
qed

lemma fold16_small: "s < 65536 \<Longrightarrow> fold16 s = s"
  by (simp add: fold16.simps)

lemma fold16_carry: "65536 \<le> s \<Longrightarrow> s < 131071 \<Longrightarrow> fold16 s = s - 65535"
proof -
  assume a: "65536 \<le> s" "s < 131071"
  then have "s div 65536 = 1" by (simp add: div_nat_eqI)
  moreover then have "s mod 65536 = s - 65536" by (simp add: modulo_nat_def)
  moreover have "s - 65536 + 1 = s - 65535" using a by simp
  ultimately show ?thesis using a fold16_small [of "s - 65535"]
    by (subst fold16.simps) simp
qed

lemma unat_NOT_16: "unat (NOT w :: u16) = 65535 - unat w"
proof -
  have "NOT w = - 1 - w" by (simp add: not_eq_complement)
  moreover have "unat (- 1 - w) = unat (- 1 :: u16) - unat w" by (intro unat_sub) simp
  moreover have "unat (- 1 :: u16) = 65535" by (simp add: unsigned_minus_1_eq_mask mask_eq_exp_minus_1)
  ultimately show ?thesis by simp
qed

lemma words16_echo_request:
  "\<exists>ck. echo_request i = [8, 0] @ le16 ck @ le16 i @ le16 1 \<and> unat ck = 65535 - fold16 (9 + unat i)"
proof -
  have w: "words16 ([8, 0, 0, 0] @ le16 i @ le16 1) = [8, 0, unat i, 1]"
    using words16_le16 [of i "le16 1"] words16_le16 [of 1 "[]"] by simp
  have i: "unat i < 65536" using unsigned_less [of i] by simp
  have "fold16 (9 + unat i) < 65536"
    using i fold16_small [of "9 + unat i"] fold16_carry [of "9 + unat i"] by (cases "9 + unat i < 65536") auto
  then have "unat (of_nat (fold16 (9 + unat i)) :: u16) = fold16 (9 + unat i)"
    by (simp add: unsigned_of_nat take_bit_nat_eq_self)
  then have "unat (NOT (of_nat (fold16 (9 + unat i))) :: u16) = 65535 - fold16 (9 + unat i)"
    by (simp add: unat_NOT_16)
  moreover have "echo_request i =
      [8, 0] @ le16 (NOT (of_nat (fold16 (9 + unat i)))) @ le16 i @ le16 1"
    unfolding echo_request_def Let_def w by (simp add: overwrite_def le16_def add.commute)
  ultimately show ?thesis by blast
qed

lemma echo_request_checksum: "fold16 (sum_list (words16 (echo_request i))) = 65535"
proof -
  obtain ck where e: "echo_request i = [8, 0] @ le16 ck @ le16 i @ le16 1"
    and ck: "unat ck = 65535 - fold16 (9 + unat i)" using words16_echo_request by blast
  have i: "unat i < 65536" using unsigned_less [of i] by simp
  have "words16 (echo_request i) = [8, unat ck, unat i, 1]"
    using words16_le16 [of ck "le16 i @ le16 1"] words16_le16 [of i "le16 1"] words16_le16 [of 1 "[]"]
    by (simp add: e)
  then have s: "sum_list (words16 (echo_request i)) = 9 + unat i + unat ck" by simp
  show ?thesis
  proof (cases "9 + unat i < 65536")
    case True
    then show ?thesis using s ck by (simp add: fold16_small)
  next
    case False
    then have "unat ck = 65535 - (9 + unat i - 65535)" using ck i fold16_carry [of "9 + unat i"] by simp
    with False i s have "sum_list (words16 (echo_request i)) = 131070" by simp
    then show ?thesis by (simp add: fold16_carry)
  qed
qed

lemma echo_request_parts:
  "length (echo_request i) = 8 \<and> echo_request i ! 0 = 8 \<and> take 2 (drop 4 (echo_request i)) = le16 i"
  using words16_echo_request [of i] by (auto simp: le16_def)

lemma route_line_format:
  assumes "ifn \<noteq> []" and "length ifn \<le> 31" and "\<forall>c\<in>set ifn. \<not> isspace c" and "isspace t"
    and "rest = [] \<or> digit 16 (hd rest) = None"
  shows "route_line (ifn @ t # print_08X d @ t # print_08X g @ rest) = Some (ifn, d, g)"
proof -
  have "takeWhile (\<lambda>c. \<not> isspace c) (ifn @ t # r) = ifn" for r
    using assms(3,4) by (simp add: takeWhile_append)
  moreover have "skip_space (ifn @ t # r) = ifn @ t # r" for r
    using assms(1,3) by (cases ifn) (auto simp: skip_space_def)
  ultimately have w: "scan_word 31 (ifn @ t # r) = Some (ifn, t # r)" for r
    using assms(1,2) by (simp add: scan_word_def)
  have "digit 16 t = None"
    using assms(4) by (auto simp: digit_def xdigit_def isspace_def)
  then show ?thesis
    using scan_num_print_08X [of "t # print_08X g @ rest" d] scan_num_print_08X [OF assms(5), of g] assms(4)
    by (simp add: route_line_def w)
qed

section \<open>Two concrete turns\<close>

text \<open>A cable and no address yet; an address and no default route.\<close>

definition eth0 :: "bytes option \<Rightarrow> iface" where
  "eth0 a = \<lparr>ifa_name = Some ''eth0'', iff_loopback = False, iff_running = True, ifa_inet = a\<rparr>"

definition env_with :: "bytes option \<Rightarrow> tick_env" where
  "env_with a = \<lparr>mu_link = True, uptime_cs = 0, ifs = Some [eth0 a], routes = None, raw_ok = True,
     dgram_ok = True, net = (\<lambda>_ _. None), diskstats = Some [''179 0 rknand_root 1 2 3 4 5 6 7 8''],
     st_open = True, st_write = True, ye_open = True, ye_write = True\<rparr>"

definition led_booted :: led where
  "led_booted = \<lparr>netok = 1, boot = True, tick = 10, blink = 0, had_link = True, have_disk = True,
     prd = 3, pwr = 6, next_probe = 60, st_status = 0, st_yellow = 0, idc = 0x3129, led_status = 0,
     led_yellow = 0, dbg = False, log = []\<rparr>"

lemma env_with_net:
  "net_probe (ifs (env_with None)) = (True, False)"
  "net_probe (ifs (env_with (Some [192, 168, 1, 9]))) = (True, True)"
  by (simp_all add: env_with_def eth0_def net_probe_def iface_skipped_def global_ipv4_def)

lemma env_with_steady: "steady 0 (env_with None)" "steady 1 (env_with (Some [192, 168, 1, 9]))"
  by (simp_all add: steady_def env_with_net probe_verdict_def)
     (simp add: env_with_def get_gw_def)

lemma env_with_writable: "status_writable (env_with a)" "yellow_writable (env_with a)"
  by (simp_all add: status_writable_def yellow_writable_def env_with_def)

lemma led_booted_inv: "led_inv led_booted"
  by (simp add: led_inv_def led_booted_def PING_EVERY_def)

section \<open>Properties\<close>

text \<open>C11: after every turn since the start the network is decided (never \<open>-1\<close>), and as long as the
  LED node can be written it shows: while booting the blink phase, afterwards green exactly
  when the network was found working, red otherwise, and red in the very turn a link is
  missing.  The cache that saves writes never makes the LED show something else.\<close>

theorem led_status_correct:
  assumes "led_start a b r y l = Inr s" and "es \<noteq> []" and "\<forall>e\<in>set es. status_writable e"
  shows "netok (led_run es s) \<in> {0, 1} \<and>
    led_status (led_run es s) =
      (if \<not> boot (led_run es s) then blink (led_run es s) else if netok (led_run es s) = 1 then 0 else 1) \<and>
    (boot (led_run es s) \<and> \<not> link_up (last es) \<longrightarrow> led_status (led_run es s) = 1)"
proof -
  have pre: "led_pre s" using led_start_pre assms(1) by blast
  have "cached (st_status s) (led_status s)"
    using assms(1) by (auto simp: led_start_def cached_def split: if_splits)
  then have "led_status (led_run es s) = status_colour (led_run es s)"
    using led_run_cached [OF pre assms(3)] assms(2) by blast
  moreover have "netok (led_run es s) \<in> {0, 1}"
    using led_inv_run [OF pre assms(2)] by (simp add: led_inv_def)
  moreover have "\<not> link_up (last es) \<Longrightarrow> netok (led_run es s) = 0"
    using led_step_down [of "last es" "led_run (butlast es) s"] assms(2)
      led_run_append [of "butlast es" "[last es]" s] by simp
  ultimately show ?thesis by (simp add: status_colour_def)
qed

theorem led_status_correct_witness:
  "\<exists>s. led_start True True 1 0 False = Inr s \<and> led_status (led_run [env_with None] s) = 1"
proof -
  obtain s where s: "led_start True True 1 0 False = Inr s" by (simp add: led_start_def)
  then have b: "blink (led_run [env_with None] s) = 1"
    by (auto simp: led_start_def led_step_def status_step_def Let_def boot_step_def MU_EVERY_def dlog_def)
  moreover have "led_status (led_run [env_with None] s) =
      (if \<not> boot (led_run [env_with None] s) then blink (led_run [env_with None] s)
       else if netok (led_run [env_with None] s) = 1 then 0 else 1)"
    using led_status_correct [OF s, of "[env_with None]"] by (simp add: env_with_writable)
  moreover have "\<not> boot (led_run [env_with None] s)"
    using s by (auto simp: led_start_def led_step_def boot_step_def MU_EVERY_def dlog_def)
  ultimately have "led_status (led_run [env_with None] s) = 1" by simp
  with s show ?thesis by blast
qed



text \<open>The yellow LED is lit after a turn exactly when the sector counts of \<open>rknand_root\<close> are known
  from an earlier turn and moved since.\<close>

theorem led_yellow_activity:
  assumes "yellow_writable e" and "cached (st_yellow s) (led_yellow s)"
  shows "led_yellow (led_step e s) =
    (if disk_sectors (diskstats e) \<noteq> (0, 0) \<and> have_disk s \<and> disk_sectors (diskstats e) \<noteq> (prd s, pwr s)
     then 1 else 0)"
  using led_step_shows_yellow [OF assms, of "fst (disk_sectors (diskstats e))" "snd (disk_sectors (diskstats e))"]
  by (cases "disk_sectors (diskstats e)") auto

theorem led_yellow_activity_witness:
  "led_yellow (led_step (env_with None) (led_booted\<lparr>prd := 2\<rparr>)) =
     (if disk_sectors (diskstats (env_with None)) \<noteq> (0, 0) \<and>
         disk_sectors (diskstats (env_with None)) \<noteq> (2, 6) then 1 else 0)"
proof -
  have "cached (st_yellow (led_booted\<lparr>prd := 2\<rparr>)) (led_yellow (led_booted\<lparr>prd := 2\<rparr>))"
    by (simp add: led_booted_def cached_def)
  from led_yellow_activity [OF env_with_writable(2) this, of None]
  show ?thesis by (simp add: led_booted_def)
qed

text \<open>The gateway of a default-route line the kernel prints (\<open>%08X\<close> of the address read as a
  little-endian word) comes out as the address bytes in network order.\<close>

theorem get_gw_byte_order:
  assumes "ifn \<noteq> []" "length ifn \<le> 31" "\<forall>c\<in>set ifn. \<not> isspace c" "ifn \<noteq> ''lo''" and "isspace t"
    and "g \<noteq> 0"
  shows "get_gw (Some ((ifn @ t # print_08X 0 @ t # print_08X g @ [t]) # ls)) = Some (put32le g)"
proof -
  have "digit 16 t = None" using assms(5) by (auto simp: digit_def xdigit_def isspace_def)
  then have "route_line (ifn @ t # print_08X 0 @ t # print_08X g @ [t]) = Some (ifn, 0, g)"
    using assms by (intro route_line_format) auto
  then show ?thesis using assms(4,6) by (simp add: get_gw_def gw_bytes_put32le)
qed

theorem get_gw_byte_order_witness:
  "get_gw (Some [''eth0 00000000 0101A8C0 '']) = Some [192, 168, 1, 1]"
proof -
  have p: "print_08X 0 = ''00000000''" "print_08X 0x0101A8C0 = ''0101A8C0''"
    by (simp_all add: print_08X_def hexchar_up_def)
  have b: "put32le 0x0101A8C0 = [192, 168, 1, 1]" by code_simp
  have "get_gw (Some [''eth0'' @ CHR '' '' # print_08X 0 @ CHR '' '' # print_08X 0x0101A8C0 @ ['' '' ! 0]]) =
      Some (put32le 0x0101A8C0)"
    using get_gw_byte_order [of "''eth0''" "CHR '' ''" "0x0101A8C0" "[]"] by (simp add: isspace_def)
  then show ?thesis unfolding b unfolding p by simp
qed

text \<open>Every echo request is a well-formed ICMP packet (eight bytes, type 8, the identifier, and a
  one's complement sum of \<open>0xffff\<close>), and a gateway that answers such packets with the matching
  echo reply is found alive.\<close>

theorem ping_gw_answered:
  assumes "raw \<or> dgram" and "length hdr = (if raw then 20 else 0)" and "length body < 50"
    and "\<And>pkt. fold16 (sum_list (words16 pkt)) = 0xffff \<Longrightarrow>
      nw gw pkt = Some (Some (hdr @ [0, 0, ca, cb] @ take 2 (drop 4 pkt) @ [1, 0] @ body))"
  shows "length (echo_request i) = 8 \<and> echo_request i ! 0 = 8 \<and>
     fold16 (sum_list (words16 (echo_request i))) = 0xffff \<and>
     ping_gw raw dgram nw i gw = (1, i + 1)"
proof -
  have p: "length (echo_request i) = 8" "echo_request i ! 0 = 8" "take 2 (drop 4 (echo_request i)) = le16 i"
    using echo_request_parts [of i] by auto
  have "length (le16 i) = 2" by (simp add: le16_def)
  then have "echo_reply_ok raw i (hdr @ [0, 0, ca, cb] @ le16 i @ [1, 0] @ body)"
    using assms(2,3) by (cases raw) (auto simp: echo_reply_ok_def Let_def nth_append)
  then show ?thesis
    using p echo_request_checksum [of i] assms(1) assms(4) [OF echo_request_checksum [of i]]
    by (auto simp: ping_gw_def)
qed

theorem ping_gw_answered_witness:
  "ping_gw True False (\<lambda>_ pkt. Some (Some (replicate 20 69 @ [0, 0, 7, 7] @ take 2 (drop 4 pkt) @ [1, 0] @ [])))
     0x3128 [192, 168, 1, 1] = (1, 0x3128 + 1)"
  using ping_gw_answered [where raw = True and dgram = False and hdr = "replicate 20 69" and body = "[]"
      and nw = "\<lambda>_ pkt. Some (Some (replicate 20 69 @ [0, 0, 7, 7] @ take 2 (drop 4 pkt) @ [1, 0] @ []))"
      and gw = "[192, 168, 1, 1]" and ca = 7 and cb = 7 and i = "0x3128"] by simp

end
