(* ===== verification/RkFlash.thy ===== *)
theory RkFlash
  imports RkCrc CText
begin

text \<open>
  \<open>tools/rkflashtool-src/rkflashtool.c\<close>: the host side of the Rockchip USB loader protocol.  The
  device behind libusb is an argument of the model (record \<open>usb\<close>: what bulk and control transfers
  do to it), the standard streams are lists of what \<open>read\<close> delivers and \<open>write\<close> accepts, and the
  tool's buffers, streams and messages are the record \<open>ft\<close>.  The two loops whose counter can wrap
  past zero run on fuel; every other loop is total.
\<close>

section \<open>The tool's state\<close>

abbreviation RKFT_BLOCKSIZE :: nat where "RKFT_BLOCKSIZE \<equiv> 16384"
abbreviation RKFT_IDB_DATASIZE :: nat where "RKFT_IDB_DATASIZE \<equiv> 512"
abbreviation RKFT_IDB_BLOCKSIZE :: nat where "RKFT_IDB_BLOCKSIZE \<equiv> 528"
abbreviation RKFT_IDB_INCR :: nat where "RKFT_IDB_INCR \<equiv> 32"
abbreviation RKFT_OFF_INCR :: nat where "RKFT_OFF_INCR \<equiv> 32"
abbreviation MAX_PARAM_LENGTH :: nat where "MAX_PARAM_LENGTH \<equiv> 65524"

definition RKFT_CMD_TESTUNITREADY :: u32 where "RKFT_CMD_TESTUNITREADY = 0x80000600"
definition RKFT_CMD_READFLASHID :: u32 where "RKFT_CMD_READFLASHID = 0x80000601"
definition RKFT_CMD_READFLASHINFO :: u32 where "RKFT_CMD_READFLASHINFO = 0x8000061a"
definition RKFT_CMD_READCHIPINFO :: u32 where "RKFT_CMD_READCHIPINFO = 0x8000061b"
definition RKFT_CMD_RESETDEVICE :: u32 where "RKFT_CMD_RESETDEVICE = 0x000006ff"
definition RKFT_CMD_READSECTOR :: u32 where "RKFT_CMD_READSECTOR = 0x80000a04"
definition RKFT_CMD_READLBA :: u32 where "RKFT_CMD_READLBA = 0x80000a14"
definition RKFT_CMD_READSDRAM :: u32 where "RKFT_CMD_READSDRAM = 0x80000a17"
definition RKFT_CMD_WRITESECTOR :: u32 where "RKFT_CMD_WRITESECTOR = 0x00000a05"
definition RKFT_CMD_WRITELBA :: u32 where "RKFT_CMD_WRITELBA = 0x00000a15"
definition RKFT_CMD_WRITESDRAM :: u32 where "RKFT_CMD_WRITESDRAM = 0x00000a18"
definition RKFT_CMD_EXECUTESDRAM :: u32 where "RKFT_CMD_EXECUTESDRAM = 0x00000a19"

record 'd usb =
  bulk_out :: "'d \<Rightarrow> bytes \<Rightarrow> 'd"
  bulk_in :: "'d \<Rightarrow> nat \<Rightarrow> bytes \<times> 'd"
  control_out :: "'d \<Rightarrow> nat \<Rightarrow> bytes \<Rightarrow> 'd"
  random :: "'d \<Rightarrow> u32 \<times> 'd"

text \<open>The messages that carry a result; progress output is left out.\<close>

datatype remark =
    Premature_eof
  | Read_error
  | No_mtdparts
  | No_partition
  | Bad_syntax
  | Bad_size_syntax
  | Found_part u32 u32
  | Chip_version bytes
  | Flash_id bytes
  | Flash_info string nat u32 u32 u32 nat nat "bool list"

record 'd ft =
  dev :: 'd
  buf :: bytes
  ibuf :: bytes
  stdin :: "bytes option list"
  wres :: "int list"
  stdout :: bytes
  msgs :: "remark list"

definition note_add :: "remark \<Rightarrow> 'd ft \<Rightarrow> 'd ft" where
  "note_add n s = s\<lparr>msgs := msgs s @ [n]\<rparr>"

section \<open>Standard streams\<close>

text \<open>What successive calls of \<open>read(0, ...)\<close> find: an error, or bytes of which at most the
  requested number is taken; the end of the list and an empty chunk are the end of the file.\<close>

fun sys_read :: "nat \<Rightarrow> bytes option list \<Rightarrow> int \<times> bytes \<times> bytes option list" where
  "sys_read n [] = (0, [], [])"
| "sys_read n (None # rs) = (- 1, [], rs)"
| "sys_read n (Some ch # rs) =
     (if length ch \<le> n then (int (length ch), ch, rs) else (int n, take n ch, Some (drop n ch) # rs))"

definition sys_write :: "bytes \<Rightarrow> 'd ft \<Rightarrow> int \<times> 'd ft" where
  "sys_write bs s = (case wres s of
     [] \<Rightarrow> (int (length bs), s\<lparr>stdout := stdout s @ bs\<rparr>)
   | r # rs \<Rightarrow> (r, s\<lparr>wres := rs, stdout := stdout s @ take (nat r) bs\<rparr>))"

definition avail :: "bytes option list \<Rightarrow> nat" where
  "avail rs = sum_list (map (\<lambda>c. case c of None \<Rightarrow> 0 | Some b \<Rightarrow> length b) rs)"

lemma sys_read_length:
  assumes "sys_read n rs = (k, bs, rs')"
  shows "k = - 1 \<and> bs = [] \<or> k = int (length bs)" and "length bs \<le> n"
  using assms by (cases "(n, rs)" rule: sys_read.cases; auto split: if_splits)+

lemma avail_sys_read:
  assumes "sys_read n rs = (k, bs, rs')" and "0 < k"
  shows "avail rs' < avail rs"
  using assms by (cases "(n, rs)" rule: sys_read.cases) (auto simp: avail_def split: if_splits)

lemma avail_read: "(k, bs, rs') = sys_read n rs \<Longrightarrow> 0 < k \<Longrightarrow> avail rs' < avail rs"
  by (rule avail_sys_read [of n rs k bs rs']) simp_all

section \<open>Frames and transfers\<close>

definition cmd_base :: "u32 \<Rightarrow> bytes" where
  "cmd_base r = (let f = overwrite 0 (ascii ''USBC'') (replicate 31 0)
     in if r \<noteq> 0 then overwrite 4 (put32be r) f else f)"

definition exec_frame :: "u32 \<Rightarrow> u32 \<Rightarrow> u32 \<Rightarrow> bytes" where
  "exec_frame r krnl parm =
     (let f1 = cmd_base r;
          f2 = (if krnl \<noteq> 0 then overwrite 17 (put32be krnl) f1 else f1);
          f3 = (if parm \<noteq> 0 then overwrite 22 (put32be parm) f2 else f2)
      in overwrite 12 (put32be RKFT_CMD_EXECUTESDRAM) f3)"

definition reset_frame :: "u32 \<Rightarrow> u8 \<Rightarrow> bytes" where
  "reset_frame r flag =
     overwrite 16 [flag] (overwrite 12 (put32be RKFT_CMD_RESETDEVICE)
       (overwrite 4 (put32be r) (overwrite 0 (ascii ''USBC'') (replicate 31 0))))"

definition cmd_frame :: "u32 \<Rightarrow> u32 \<Rightarrow> u32 \<Rightarrow> u16 \<Rightarrow> bytes" where
  "cmd_frame r command offset nsectors =
     (let f1 = cmd_base r;
          f2 = (if offset \<noteq> 0 then overwrite 17 (put32be offset) f1 else f1);
          f3 = (if nsectors \<noteq> 0 then overwrite 22 (put16be nsectors) f2 else f2)
      in if command \<noteq> 0 then overwrite 12 (put32be command) f3 else f3)"

definition send_frame :: "'d usb \<Rightarrow> (u32 \<Rightarrow> bytes) \<Rightarrow> 'd ft \<Rightarrow> 'd ft" where
  "send_frame u frame s = (case random u (dev s) of (r, d) \<Rightarrow> s\<lparr>dev := bulk_out u d (frame r)\<rparr>)"

definition send_cmd :: "'d usb \<Rightarrow> u32 \<Rightarrow> u32 \<Rightarrow> u16 \<Rightarrow> 'd ft \<Rightarrow> 'd ft" where
  "send_cmd u command offset nsectors = send_frame u (\<lambda>r. cmd_frame r command offset nsectors)"

definition send_exec :: "'d usb \<Rightarrow> u32 \<Rightarrow> u32 \<Rightarrow> 'd ft \<Rightarrow> 'd ft" where
  "send_exec u krnl parm = send_frame u (\<lambda>r. exec_frame r krnl parm)"

definition send_reset :: "'d usb \<Rightarrow> u8 \<Rightarrow> 'd ft \<Rightarrow> 'd ft" where
  "send_reset u flag = send_frame u (\<lambda>r. reset_frame r flag)"

definition send_buf :: "'d usb \<Rightarrow> nat \<Rightarrow> 'd ft \<Rightarrow> 'd ft" where
  "send_buf u n s = s\<lparr>dev := bulk_out u (dev s) (take n (buf s))\<rparr>"

definition recv_res :: "'d usb \<Rightarrow> 'd ft \<Rightarrow> 'd ft" where
  "recv_res u s = s\<lparr>dev := snd (bulk_in u (dev s) 13)\<rparr>"

text \<open>A transfer that delivers more than the buffer holds writes past it.\<close>

definition recv_buf :: "'d usb \<Rightarrow> nat \<Rightarrow> 'd ft \<Rightarrow> 'd ft outcome" where
  "recv_buf u n s = (case bulk_in u (dev s) n of (bs, d) \<Rightarrow>
     let got = take n bs in
     if length got \<le> length (buf s) then Done (s\<lparr>dev := d, buf := overwrite 0 got (buf s)\<rparr>) else Fault)"

definition transact_in :: "'d usb \<Rightarrow> u32 \<Rightarrow> u32 \<Rightarrow> u16 \<Rightarrow> nat \<Rightarrow> 'd ft \<Rightarrow> 'd ft outcome" where
  "transact_in u command offset n bytes s =
     bind_outcome (recv_buf u bytes (send_cmd u command offset n s)) (\<lambda>s1. Done (recv_res u s1))"

definition transact_out :: "'d usb \<Rightarrow> u32 \<Rightarrow> u32 \<Rightarrow> u16 \<Rightarrow> nat \<Rightarrow> 'd ft \<Rightarrow> 'd ft" where
  "transact_out u command offset n bytes s = recv_res u (send_buf u bytes (send_cmd u command offset n s))"

definition write_out :: "nat \<Rightarrow> 'd ft \<Rightarrow> 'd ft outcome" where
  "write_out n s = (if n \<le> length (buf s)
     then (case sys_write (take n (buf s)) s of (r, s1) \<Rightarrow>
        if r \<le> 0 then Fatal ''Write error! Disk full?'' else Done s1)
     else Fault)"

section \<open>Arguments and device\<close>

record rk_args =
  action :: char
  flag :: u8
  offset :: u32
  nsize :: u32
  partname :: "string option"

definition usage :: "'a outcome" where "usage = Fatal ''usage''"

definition two_numbers :: "char \<Rightarrow> string list \<Rightarrow> rk_args" where
  "two_numbers a args = \<lparr>action = a, flag = 0, offset = fst (strtoul0 (args ! 0)),
     nsize = fst (strtoul0 (args ! 1)), partname = None\<rparr>"

definition parse_args :: "string list \<Rightarrow> rk_args outcome" where
  "parse_args argv = (case argv of [] \<Rightarrow> usage
   | first # args \<Rightarrow>
     (let a = (case first of [] \<Rightarrow> CHR 0x00 | ch # _ \<Rightarrow> ch);
          plain = \<lparr>action = a, flag = 0, offset = 0, nsize = 0, partname = None\<rparr>
      in if a = CHR ''b'' then
           (if 1 < length args then usage
            else Done (if length args = 1 then plain\<lparr>flag := ucast (fst (strtoul0 (args ! 0)))\<rparr> else plain))
         else if a \<in> {CHR ''l'', CHR ''L''} then (if args \<noteq> [] then usage else Done plain)
         else if a \<in> {CHR ''e'', CHR ''r'', CHR ''w''} then
           (if length args < 1 \<or> 2 < length args then usage
            else if length args = 1 then Done (plain\<lparr>partname := Some (args ! 0)\<rparr>)
            else Done (two_numbers a args))
         else if a \<in> {CHR ''m'', CHR ''M'', CHR ''B'', CHR ''i'', CHR ''j''} then
           (if length args \<noteq> 2 then usage else Done (two_numbers a args))
         else if a \<in> {CHR ''n'', CHR ''v'', CHR ''p'', CHR ''P''} then
           (if args \<noteq> [] then usage else Done (plain\<lparr>nsize := 1024\<rparr>))
         else usage))"

definition pidtab :: "(u16 \<times> string) list" where
  "pidtab = [(0x281a, ''RK2818''), (0x290a, ''RK2918''), (0x292a, ''RK2928''), (0x292c, ''RK3026''),
     (0x300a, ''RK3066''), (0x300b, ''RK3168''), (0x301a, ''RK3036''), (0x310a, ''RK3066B''),
     (0x310b, ''RK3188''), (0x310c, ''RK312X''), (0x310d, ''RK3126''), (0x320a, ''RK3288''),
     (0x320b, ''RK322X''), (0x320c, ''RK3328''), (0x330a, ''RK3368''), (0x330c, ''RK3399''),
     (0x330e, ''RK3308''), (0x350a, ''RK3568''), (0x350b, ''RK3588''), (0x350c, ''RK3528'')]"

text \<open>What libusb finds: which product ids can be opened (vendor \<open>0x2207\<close>) and whether the
  following calls succeed.\<close>

record usb_host =
  init_ok :: bool
  opens :: "u16 \<Rightarrow> bool"
  claim_ok :: bool
  desc_ok :: bool
  conf_ok :: bool

fun detect :: "(u16 \<Rightarrow> bool) \<Rightarrow> (u16 \<times> string) list \<Rightarrow> string option" where
  "detect op [] = None"
| "detect op ((pid, name) # ps) = (if op pid then Some name else detect op ps)"

definition connect :: "usb_host \<Rightarrow> string outcome" where
  "connect hst =
     (if \<not> init_ok hst then Fatal ''cannot init libusb''
      else (case detect (opens hst) pidtab of None \<Rightarrow> Fatal ''cannot open device''
        | Some name \<Rightarrow>
          if \<not> claim_ok hst then Fatal ''cannot claim interface''
          else if \<not> desc_ok hst then Fatal ''cannot get device descriptor''
          else if \<not> conf_ok hst then Fatal ''cannot get config descriptor''
          else Done name))"

section \<open>Mask ROM download\<close>

lemma transfer_frames [simp]:
  "stdin (send_frame u f s) = stdin s" "stdin (send_cmd u c off n s) = stdin s"
  "stdin (send_buf u m s) = stdin s" "stdin (recv_res u s) = stdin s"
  "stdin (transact_out u c off n m s) = stdin s"
  by (simp_all add: send_frame_def send_cmd_def send_buf_def recv_res_def transact_out_def split: prod.split)

function download :: "'d usb \<Rightarrow> nat \<Rightarrow> u16 \<Rightarrow> 'd ft \<Rightarrow> 'd ft" where
  "download u idx crc s =
     (case sys_read 4096 (stdin s) of (nr, bs, rest) \<Rightarrow>
       (let s1 = s\<lparr>stdin := rest, buf := overwrite 0 bs (buf s)\<rparr> in
        if nr = 4096 then download u idx (rkcrc16 crc bs) (s1\<lparr>dev := control_out u (dev s1) idx bs\<rparr>)
        else if nr = - 1 then s1
        else (let tail = put16be (rkcrc16 crc bs) in
          s1\<lparr>dev := control_out u (dev s1) idx (bs @ tail), buf := overwrite (length bs) tail (buf s1)\<rparr>)))"
  by pat_completeness auto
termination
  by (relation "measure (\<lambda>(u, idx, crc, s). avail (stdin s))") (auto intro: avail_read)

declare download.simps [simp del]

section \<open>Partition names\<close>

fun strstr :: "string \<Rightarrow> string \<Rightarrow> nat option" where
  "strstr [] needle = (if needle = [] then Some 0 else None)"
| "strstr (ch # s) needle =
     (if take (length needle) (ch # s) = needle then Some 0 else map_option Suc (strstr s needle))"

fun strrchr :: "string \<Rightarrow> char \<Rightarrow> nat option" where
  "strrchr [] x = None"
| "strrchr (ch # s) x = (case strrchr s x of Some i \<Rightarrow> Some (Suc i)
     | None \<Rightarrow> if ch = x then Some 0 else None)"

text \<open>The C string at an offset of the buffer, if it ends inside.\<close>

definition cstring :: "nat \<Rightarrow> bytes \<Rightarrow> string option" where
  "cstring off bs = (if 0 \<in> set (drop off bs) then Some (map (\<lambda>b. char_of (unat b)) (takeWhile (\<lambda>b. b \<noteq> 0) (drop off bs))) else None)"

datatype part_lookup =
    Part_error remark
  | Part_range u32 u32
  | Part_to_end u32

text \<open>The result together with the indices of the string the search overwrites by NUL.\<close>

definition lookup_part :: "string \<Rightarrow> string \<Rightarrow> nat list \<times> part_lookup" where
  "lookup_part param name = (case strstr param ''mtdparts='' of None \<Rightarrow> ([], Part_error No_mtdparts)
   | Some m \<Rightarrow>
     (let mtdparts = drop m param; partexp = take 255 (''('' @ name @ '')'')
      in case strstr mtdparts partexp of None \<Rightarrow> ([], Part_error No_partition)
      | Some p \<Rightarrow>
        (let s1 = take p mtdparts
         in case strrchr s1 (CHR ''@'') of None \<Rightarrow> ([m + p], Part_error Bad_syntax)
         | Some a \<Rightarrow>
           (let off = fst (strtoul0 (drop (a + 1) s1)); s2 = take a s1; cuts = [m + p, m + a]
            in case strrchr s2 (CHR ''-'') of Some _ \<Rightarrow> (cuts, Part_to_end off)
            | None \<Rightarrow>
              (case strrchr s2 (CHR '','') of Some i \<Rightarrow> (cuts, Part_range off (fst (strtoul0 (drop (i + 1) s2))))
               | None \<Rightarrow>
                 (case strrchr s2 (CHR '':'') of Some i \<Rightarrow> (cuts, Part_range off (fst (strtoul0 (drop (i + 1) s2))))
                  | None \<Rightarrow> (cuts, Part_error Bad_size_syntax)))))))"

definition cut_at :: "nat list \<Rightarrow> bytes \<Rightarrow> bytes" where
  "cut_at cuts bs = fold (\<lambda>i b. b[8 + i := 0]) cuts bs"

definition find_partition :: "'d usb \<Rightarrow> string \<Rightarrow> 'd ft \<Rightarrow> ('d ft \<times> (u32 \<times> u32) option) outcome" where
  "find_partition u name s =
     bind_outcome (transact_in u RKFT_CMD_READLBA 0 (of_nat RKFT_OFF_INCR) RKFT_BLOCKSIZE s) (\<lambda>s1.
       case rd32le 4 (buf s1) of None \<Rightarrow> Fault
       | Some n \<Rightarrow> if MAX_PARAM_LENGTH < unat n then Fatal ''Bad parameter length!''
         else (case cstring 8 (buf s1) of None \<Rightarrow> Fault
         | Some param \<Rightarrow> (case lookup_part param name of (cuts, res) \<Rightarrow>
           (let s2 = s1\<lparr>buf := cut_at cuts (buf s1)\<rparr>
            in case res of
                 Part_error r \<Rightarrow> Done (note_add r s2, None)
               | Part_range off n \<Rightarrow> Done (note_add (Found_part off n) s2, Some (off, n))
               | Part_to_end off \<Rightarrow>
                   bind_outcome (transact_in u RKFT_CMD_READFLASHINFO 0 0 512 s2) (\<lambda>s3.
                     case rd32le 0 (buf s3) of None \<Rightarrow> Fault
                     | Some fs \<Rightarrow> Done (note_add (Found_part off (fs - off)) s3, Some (off, fs - off)))))))"

section \<open>The commands\<close>

fun read_flash :: "nat \<Rightarrow> 'd usb \<Rightarrow> u32 \<Rightarrow> u32 \<Rightarrow> 'd ft \<Rightarrow> 'd ft outcome option" where
  "read_flash 0 u off sz s = (if sz = 0 then Some (Done s) else None)"
| "read_flash (Suc fuel) u off sz s =
     (if sz = 0 then Some (Done s)
      else (case bind_outcome (transact_in u RKFT_CMD_READLBA off (of_nat RKFT_OFF_INCR) RKFT_BLOCKSIZE s)
                   (write_out RKFT_BLOCKSIZE) of
          Done s1 \<Rightarrow> read_flash fuel u (off + of_nat RKFT_OFF_INCR) (sz - of_nat RKFT_OFF_INCR) s1
        | Fatal e \<Rightarrow> Some (Fatal e)
        | Fault \<Rightarrow> Some Fault))"

function write_flash :: "'d usb \<Rightarrow> u32 \<Rightarrow> u32 \<Rightarrow> 'd ft \<Rightarrow> 'd ft" where
  "write_flash u off sz s =
     (if sz = 0 then s
      else (case sys_read RKFT_BLOCKSIZE (stdin s) of (k, bs, rest) \<Rightarrow>
        (let s1 = s\<lparr>stdin := rest, buf := overwrite 0 bs (buf s)\<rparr> in
         if 0 < k
         then write_flash u (off + of_nat RKFT_OFF_INCR) (sz - of_nat RKFT_OFF_INCR)
                (transact_out u RKFT_CMD_WRITELBA off (of_nat RKFT_OFF_INCR) RKFT_BLOCKSIZE s1)
         else note_add Premature_eof s1)))"
  by pat_completeness auto
termination
  by (relation "measure (\<lambda>(u, off, sz, s). avail (stdin s))") (auto intro: avail_read)

declare write_flash.simps [simp del]

definition read_params :: "'d usb \<Rightarrow> u32 \<Rightarrow> 'd ft \<Rightarrow> 'd ft outcome" where
  "read_params u off s =
     bind_outcome (transact_in u RKFT_CMD_READLBA off (of_nat RKFT_OFF_INCR) RKFT_BLOCKSIZE s) (\<lambda>s1.
       case rd32le 4 (buf s1) of None \<Rightarrow> Fault
       | Some n \<Rightarrow> if MAX_PARAM_LENGTH < unat n then Fatal ''Bad parameter length!''
         else (case rd32le (8 + unat n) (buf s1) of None \<Rightarrow> Fault
         | Some crc_buf \<Rightarrow> (case slice 8 (unat n) (buf s1) of None \<Rightarrow> Fault
           | Some content \<Rightarrow> if crc_buf \<noteq> rkcrc32 0 content then Fatal ''bad CRC!''
             else (case sys_write content s1 of (r, s2) \<Rightarrow>
               if r \<le> 0 then Fatal ''Write error! Disk full?'' else Done s2))))"

definition param_offsets :: "u32 list" where
  "param_offsets = [0x0000, 0x0400, 0x0800, 0x0C00, 0x1000, 0x1400, 0x1800, 0x1C00]"

definition write_params :: "'d usb \<Rightarrow> 'd ft \<Rightarrow> 'd ft outcome" where
  "write_params u s =
     (let b1 = overwrite 0 (ascii ''PARM'') (buf s) in
      case sys_read (RKFT_BLOCKSIZE - 8) (stdin s) of (k, bs, rest) \<Rightarrow>
        if k < 0 then Done (note_add Read_error (s\<lparr>stdin := rest, buf := b1\<rparr>))
        else (let n = length bs;
                  b2 = overwrite 4 (put32le (of_nat n)) (overwrite 8 bs b1);
                  crc = rkcrc32 0 (take n (drop 8 b2))
              in if RKFT_BLOCKSIZE < 8 + n + 4 then Fault
                 else Done (fold (\<lambda>off. transact_out u RKFT_CMD_WRITELBA off (of_nat RKFT_OFF_INCR) RKFT_BLOCKSIZE)
                   param_offsets (s\<lparr>stdin := rest, buf := overwrite (8 + n) (put32le crc) b2\<rparr>))))"

lemma unat_minus_chunk:
  fixes sz :: u32
  assumes "n \<le> unat sz"
  shows "unat (sz - of_nat n) = unat sz - n"
proof -
  have "unat sz < 2 ^ 32" using unsigned_less [of sz] by simp
  then have "unat (of_nat n :: u32) = n" using assms by (simp add: unsigned_of_nat take_bit_nat_eq_self)
  with assms show ?thesis by (metis unat_sub word_le_nat_alt)
qed

function read_ram :: "'d usb \<Rightarrow> u32 \<Rightarrow> u32 \<Rightarrow> 'd ft \<Rightarrow> 'd ft outcome" where
  "read_ram u off sz s =
     (if sz = 0 then Done s
      else (let n = (if RKFT_BLOCKSIZE < unat sz then RKFT_BLOCKSIZE else unat sz)
            in bind_outcome (transact_in u RKFT_CMD_READSDRAM off (of_nat n) n s) (\<lambda>s1.
                 bind_outcome (write_out n s1) (read_ram u (off + of_nat n) (sz - of_nat n)))))"
  by pat_completeness auto

termination
  by (relation "measure (\<lambda>(u, off, sz, s). unat sz)")
     (auto simp: unat_minus_chunk unat_gt_0 split: if_splits)

declare read_ram.simps [simp del]

function write_ram :: "'d usb \<Rightarrow> u32 \<Rightarrow> u32 \<Rightarrow> 'd ft \<Rightarrow> 'd ft" where
  "write_ram u off sz s =
     (if sz = 0 then s
      else (case sys_read RKFT_BLOCKSIZE (stdin s) of (k, bs, rest) \<Rightarrow>
        (let s1 = s\<lparr>stdin := rest, buf := overwrite 0 bs (buf s)\<rparr> in
         if 0 < k
         then write_ram u (off + of_nat (length bs)) (sz - of_nat (length bs))
                (transact_out u RKFT_CMD_WRITESDRAM off (of_nat (length bs)) (length bs) s1)
         else note_add Premature_eof s1)))"
  by pat_completeness auto
termination
  by (relation "measure (\<lambda>(u, off, sz, s). avail (stdin s))") (auto intro: avail_read)

declare write_ram.simps [simp del]

function read_idb :: "'d usb \<Rightarrow> u32 \<Rightarrow> u32 \<Rightarrow> 'd ft \<Rightarrow> 'd ft outcome" where
  "read_idb u off sz s =
     (if sz = 0 then Done s
      else (let n = (if RKFT_IDB_INCR < unat sz then RKFT_IDB_INCR else unat sz)
            in bind_outcome (transact_in u RKFT_CMD_READSECTOR off (of_nat n) (RKFT_IDB_BLOCKSIZE * n) s) (\<lambda>s1.
                 bind_outcome (write_out (RKFT_IDB_BLOCKSIZE * n) s1) (read_idb u (off + of_nat n) (sz - of_nat n)))))"
  by pat_completeness auto
termination
  by (relation "measure (\<lambda>(u, off, sz, s). unat sz)")
     (auto simp: unat_minus_chunk unat_gt_0 split: if_splits)

declare read_idb.simps [simp del]

text \<open>\<open>memset(ibuf, RKFT_IDB_BLOCKSIZE, 0xff)\<close>: 255 bytes of value \<open>528 mod 256\<close>.\<close>

function write_idb :: "'d usb \<Rightarrow> u32 \<Rightarrow> u32 \<Rightarrow> 'd ft \<Rightarrow> 'd ft" where
  "write_idb u off sz s =
     (if sz = 0 then s
      else (let i1 = overwrite 0 (replicate 0xff (of_nat RKFT_IDB_BLOCKSIZE)) (ibuf s) in
        case sys_read RKFT_IDB_DATASIZE (stdin s) of (k, bs, rest) \<Rightarrow>
        (let s1 = s\<lparr>stdin := rest, ibuf := overwrite 0 bs i1\<rparr> in
         if 0 < k
         then (let s2 = send_cmd u RKFT_CMD_WRITESECTOR off 1 s1;
                   s3 = recv_res u (s2\<lparr>dev := bulk_out u (dev s2) (take RKFT_IDB_BLOCKSIZE (ibuf s2))\<rparr>)
               in write_idb u (off + 1) (sz - 1) s3)
         else note_add Premature_eof s1)))"
  by pat_completeness auto
termination
  by (relation "measure (\<lambda>(u, off, sz, s). avail (stdin s))") (auto intro: avail_read)

declare write_idb.simps [simp del]

fun erase_loop :: "nat \<Rightarrow> 'd usb \<Rightarrow> u32 \<Rightarrow> u32 \<Rightarrow> 'd ft \<Rightarrow> 'd ft option" where
  "erase_loop 0 u off sz s = (if sz = 0 then Some s else None)"
| "erase_loop (Suc fuel) u off sz s =
     (if sz = 0 then Some s
      else erase_loop fuel u (off + of_nat RKFT_OFF_INCR) (sz - of_nat RKFT_OFF_INCR)
             (transact_out u RKFT_CMD_WRITELBA off (of_nat RKFT_OFF_INCR) RKFT_BLOCKSIZE s))"

definition erase_flash :: "nat \<Rightarrow> 'd usb \<Rightarrow> u32 \<Rightarrow> u32 \<Rightarrow> 'd ft \<Rightarrow> 'd ft option" where
  "erase_flash fuel u off sz s = erase_loop fuel u off sz (s\<lparr>buf := replicate RKFT_BLOCKSIZE 0xff\<rparr>)"

definition chip_version :: "'d usb \<Rightarrow> 'd ft \<Rightarrow> 'd ft outcome" where
  "chip_version u s = bind_outcome (transact_in u RKFT_CMD_READCHIPINFO 0 0 16 s) (\<lambda>s1.
     Done (note_add (Chip_version (map ((!) (buf s1)) [3, 2, 1, 0, 7, 6, 5, 4, 11, 10, 9, 8, 15, 14, 13, 12])) s1))"

definition manufacturer :: "string list" where
  "manufacturer = [''Samsung'', ''Toshiba'', ''Hynix'', ''Infineon'', ''Micron'', ''Renesas'', ''Intel'',
     ''UNKNOWN'', ''SanDisk'']"

definition nand_report :: "bytes \<Rightarrow> remark" where
  "nand_report b =
     (let i = unat (b ! 9); cs = b ! 10;
          size = (case rd32le 0 b of Some v \<Rightarrow> v | None \<Rightarrow> 0);
          blk = (ucast (b ! 4) OR push_bit 8 (ucast (b ! 5)) :: u32);
          page = (ucast (b ! 6) :: u32)
      in Flash_info (if i < length manufacturer then manufacturer ! i else ''Unknown'') i
           (drop_bit 11 size) (drop_bit 1 blk) (drop_bit 1 page) (unat (b ! 7)) (unat (b ! 8))
           [bit cs 0, bit cs 1, bit cs 2, bit cs 3])"

definition nand_info :: "'d usb \<Rightarrow> 'd ft \<Rightarrow> 'd ft outcome" where
  "nand_info u s = bind_outcome (transact_in u RKFT_CMD_READFLASHID 0 0 5 s) (\<lambda>s1.
     bind_outcome (transact_in u RKFT_CMD_READFLASHINFO 0 0 512 (note_add (Flash_id (take 5 (buf s1))) s1)) (\<lambda>s2.
       Done (note_add (nand_report (buf s2)) s2)))"

definition run_action :: "nat \<Rightarrow> 'd usb \<Rightarrow> char \<Rightarrow> u8 \<Rightarrow> u32 \<Rightarrow> u32 \<Rightarrow> 'd ft \<Rightarrow> 'd ft outcome option" where
  "run_action fuel u a fl off sz s =
     (if a = CHR ''b'' then Some (Done (recv_res u (send_reset u fl s)))
      else if a = CHR ''r'' then read_flash fuel u off sz s
      else if a = CHR ''w'' then Some (Done (write_flash u off sz s))
      else if a = CHR ''p'' then Some (read_params u off s)
      else if a = CHR ''P'' then Some (write_params u s)
      else if a = CHR ''m'' then Some (read_ram u off sz s)
      else if a = CHR ''M'' then Some (Done (write_ram u off sz s))
      else if a = CHR ''B'' then Some (Done (recv_res u (send_exec u off sz s)))
      else if a = CHR ''i'' then Some (read_idb u off sz s)
      else if a = CHR ''j'' then Some (Done (write_idb u off sz s))
      else if a = CHR ''e'' then map_option Done (erase_flash fuel u off sz s)
      else if a = CHR ''v'' then Some (chip_version u s)
      else if a = CHR ''n'' then Some (nand_info u s)
      else Some (Done s))"

definition rkflashtool_main :: "nat \<Rightarrow> usb_host \<Rightarrow> 'd usb \<Rightarrow> string list \<Rightarrow> 'd ft \<Rightarrow> 'd ft outcome option" where
  "rkflashtool_main fuel hst u argv s =
     (case bind_outcome (parse_args argv) (\<lambda>a. bind_outcome (connect hst) (\<lambda>_. Done a)) of
        Fatal e \<Rightarrow> Some (Fatal e) | Fault \<Rightarrow> Some Fault
      | Done a \<Rightarrow>
        if action a = CHR ''l'' then Some (Done (download u 1137 0xffff s))
        else if action a = CHR ''L'' then Some (Done (download u 1138 0xffff s))
        else (let s1 = recv_res u (send_cmd u RKFT_CMD_TESTUNITREADY 0 0 s)
          in case partname a of
               None \<Rightarrow> run_action fuel u (action a) (flag a) (offset a) (nsize a) s1
             | Some name \<Rightarrow>
               (case find_partition u name s1 of
                  Fatal e \<Rightarrow> Some (Fatal e) | Fault \<Rightarrow> Some Fault
                | Done (s2, None) \<Rightarrow> Some (Done s2)
                | Done (s2, Some (off, sz)) \<Rightarrow> run_action fuel u (action a) (flag a) off sz s2)))"

section \<open>Frames decode\<close>

definition frame_command :: "bytes \<Rightarrow> u32 option" where "frame_command f = get32be (drop 12 f)"
definition frame_offset :: "bytes \<Rightarrow> u32 option" where "frame_offset f = get32be (drop 17 f)"

lemma put_zero:
  "put32be 0 = replicate 4 0" "put16be 0 = replicate 2 0"
  by (simp_all add: put32be_def put16be_def numeral_eq_Suc)

lemma list31: "replicate 31 (0 :: u8) = replicate 4 0 @ replicate 4 0 @ replicate 4 0 @ replicate 4 0 @ [0] @
    replicate 4 0 @ [0] @ replicate 2 0 @ replicate 7 0"
  by (simp add: numeral_eq_Suc)

lemma overwrite_at:
  "length a = off \<Longrightarrow> length b = length new \<Longrightarrow> overwrite off new (a @ b @ c) = a @ new @ c"
  by (simp add: overwrite_def)

lemma cmd_frame_eq:
  "cmd_frame r cmd off n =
     ascii ''USBC'' @ put32be r @ replicate 4 0 @ put32be cmd @ [0] @ put32be off @ [0] @ put16be n @ replicate 7 0"
proof -
  let ?z = "replicate 4 (0 :: u8)"
  have b: "cmd_base r = ascii ''USBC'' @ put32be r @ ?z @ ?z @ [0] @ ?z @ [0] @ replicate 2 0 @ replicate 7 0"
    unfolding cmd_base_def Let_def list31
    using overwrite_at [of "[]" 0 ?z "ascii ''USBC''"] overwrite_at [of "ascii ''USBC''" 4 ?z "put32be r"]
    by (auto simp: put_zero)
  have o: "(if off \<noteq> 0 then overwrite 17 (put32be off) (a @ ?z @ c) else a @ ?z @ c) = a @ put32be off @ c"
    if "length a = 17" for a c
    using that by (simp add: overwrite_at put_zero)
  have k: "(if n \<noteq> 0 then overwrite 22 (put16be n) (a @ replicate 2 0 @ c) else a @ replicate 2 0 @ c) = a @ put16be n @ c"
    if "length a = 22" for a c
    using that by (simp add: overwrite_at put_zero)
  have c: "(if cmd \<noteq> 0 then overwrite 12 (put32be cmd) (a @ ?z @ e) else a @ ?z @ e) = a @ put32be cmd @ e"
    if "length a = 12" for a e
    using that by (simp add: overwrite_at put_zero)
  note flat = append_assoc append_Cons append_Nil
  have l: "length (ascii ''USBC'' @ put32be r @ ?z @ ?z @ [0]) = 17"
    "length (ascii ''USBC'' @ put32be r @ ?z @ ?z @ [0] @ put32be off @ [0]) = 22"
    "length (ascii ''USBC'' @ put32be r @ ?z) = 12" by simp_all
  show ?thesis
    unfolding cmd_frame_def Let_def b
    using o [OF l(1), of "[0] @ replicate 2 0 @ replicate 7 0"] k [OF l(2), of "replicate 7 0"]
      c [OF l(3), of "[0] @ put32be off @ [0] @ put16be n @ replicate 7 0"]
    by (simp only: flat)
qed

lemma cmd_frame_decodes:
  "length (cmd_frame r cmd off n) = 31" "frame_command (cmd_frame r cmd off n) = Some cmd"
  "frame_offset (cmd_frame r cmd off n) = Some off"
proof -
  show "length (cmd_frame r cmd off n) = 31" by (simp add: cmd_frame_eq)
  show "frame_command (cmd_frame r cmd off n) = Some cmd"
    using get32be_put32be [of cmd "[0] @ put32be off @ [0] @ put16be n @ replicate 7 0"]
    by (simp add: frame_command_def cmd_frame_eq)
  show "frame_offset (cmd_frame r cmd off n) = Some off"
    using get32be_put32be [of off "[0] @ put16be n @ replicate 7 0"]
    by (simp add: frame_offset_def cmd_frame_eq)
qed

section \<open>Sector devices\<close>

text \<open>
  What the loader in the device does with the two commands the flash actions rest on, for a device
  that is idle: \<open>READLBA\<close> delivers the sectors, \<open>WRITELBA\<close> stores them, and after the status the
  device is idle again.
\<close>

definition sectors :: "(nat \<Rightarrow> bytes) \<Rightarrow> nat \<Rightarrow> nat \<Rightarrow> bytes" where
  "sectors f off n = concat (map f [off..<off + n])"

definition put_sectors :: "(nat \<Rightarrow> bytes) \<Rightarrow> nat \<Rightarrow> bytes \<Rightarrow> nat \<Rightarrow> bytes" where
  "put_sectors f off bs i =
     (if off \<le> i \<and> i < off + length bs div 512 then take 512 (drop (512 * (i - off)) bs) else f i)"

definition lba_device :: "'d usb \<Rightarrow> ('d \<Rightarrow> bool) \<Rightarrow> ('d \<Rightarrow> nat \<Rightarrow> bytes) \<Rightarrow> bool" where
  "lba_device u idle flash \<longleftrightarrow> (\<forall>d. idle d \<longrightarrow>
     (\<forall>i. length (flash d i) = 512) \<and>
     (\<forall>off r d0 bs d1. random u d = (r, d0) \<longrightarrow>
        bulk_in u (bulk_out u d0 (cmd_frame r RKFT_CMD_READLBA off 32)) 16384 = (bs, d1) \<longrightarrow>
        bs = sectors (flash d) (unat off) 32 \<and>
        idle (snd (bulk_in u d1 13)) \<and> flash (snd (bulk_in u d1 13)) = flash d) \<and>
     (\<forall>off r d0 bs. random u d = (r, d0) \<longrightarrow> length bs = 16384 \<longrightarrow>
        (let d3 = snd (bulk_in u (bulk_out u (bulk_out u d0 (cmd_frame r RKFT_CMD_WRITELBA off 32)) bs) 13)
         in idle d3 \<and> flash d3 = put_sectors (flash d) (unat off) bs)))"

lemma length_concat_512: "(\<And>i. length (f i) = 512) \<Longrightarrow> length (concat (map f xs)) = 512 * length xs"
  by (induction xs) auto

lemma length_sectors: "(\<And>i. length (f i) = 512) \<Longrightarrow> length (sectors f off n) = 512 * n"
  by (simp add: sectors_def length_concat_512)

lemma sectors_append: "sectors f off (m + n) = sectors f off m @ sectors f (off + m) n"
proof -
  have "[off..<off + (m + n)] = [off..<off + m] @ [off + m..<off + m + n]"
    using upt_add_eq_append [of off "off + m" n] by (simp only: add.assoc le_add1)
  then show ?thesis by (simp only: sectors_def map_append concat_append)
qed

lemma sectors_put_same:
  assumes "length bs = 512 * n"
  shows "sectors (put_sectors f off bs) off n = bs"
proof -
  have "concat (map (\<lambda>i. take 512 (drop (512 * (i - off)) bs)) [off..<off + k]) = take (512 * k) bs" if "k \<le> n" for k
    using that
  proof (induction k)
    case (Suc k)
    have "take (512 * k) bs @ take 512 (drop (512 * k) bs) = take (512 * Suc k) bs"
      by (simp add: take_add [symmetric] add.commute)
    with Suc show ?case by simp
  qed simp
  from this [of n] have "concat (map (\<lambda>i. take 512 (drop (512 * (i - off)) bs)) [off..<off + n]) = bs"
    using assms by simp
  moreover have "map (put_sectors f off bs) [off..<off + n] =
      map (\<lambda>i. take 512 (drop (512 * (i - off)) bs)) [off..<off + n]"
    using assms by (simp add: put_sectors_def)
  ultimately show ?thesis by (simp only: sectors_def)
qed

lemma sectors_put_other:
  assumes "off + n \<le> off' \<or> off' + length bs div 512 \<le> off"
  shows "sectors (put_sectors f off' bs) off n = sectors f off n"
proof -
  have "map (put_sectors f off' bs) [off..<off + n] = map f [off..<off + n]"
    using assms by (auto simp: put_sectors_def)
  then show ?thesis by (simp only: sectors_def)
qed

lemma put_sectors_append:
  assumes "length as = 512 * m"
  shows "put_sectors (put_sectors f off as) (off + m) bs = put_sectors f off (as @ bs)"
proof
  fix i
  have d: "length (as @ bs) div 512 = m + length bs div 512" using assms by simp
  have "512 * (i - off) - 512 * m = 512 * (i - (off + m))" by (simp add: diff_mult_distrib2)
  moreover have "take 512 (drop (512 * (i - off)) (as @ bs)) = take 512 (drop (512 * (i - off)) as)"
    if "off \<le> i" "i < off + m"
  proof -
    have "i - off + 1 \<le> m" using that by simp
    then have "512 * (i - off) + 512 \<le> length as" using assms by linarith
    then show ?thesis by simp
  qed
  ultimately show "put_sectors (put_sectors f off as) (off + m) bs i = put_sectors f off (as @ bs) i"
    using assms unfolding put_sectors_def d by auto
qed

section \<open>One transfer\<close>

text \<open>Everything but the device and the buffer is untouched.\<close>

definition same_streams :: "'d ft \<Rightarrow> 'd ft \<Rightarrow> bool" where
  "same_streams s s' \<longleftrightarrow> stdin s' = stdin s \<and> wres s' = wres s \<and> stdout s' = stdout s \<and> msgs s' = msgs s \<and> ibuf s' = ibuf s"

lemma transact_in_total:
  assumes "n \<le> length (buf s)"
  shows "\<exists>s1. transact_in u c off k n s = Done s1 \<and> same_streams s s1 \<and> length (buf s1) = length (buf s)"
proof -
  obtain r d where "random u (dev s) = (r, d)" by (metis surj_pair)
  moreover obtain bs d1 where "bulk_in u (bulk_out u d (cmd_frame r c off k)) n = (bs, d1)" by (metis surj_pair)
  moreover have "min (length bs) n \<le> length (buf s)" using assms by simp
  ultimately show ?thesis
    using assms by (simp add: transact_in_def recv_buf_def send_cmd_def send_frame_def recv_res_def
        same_streams_def overwrite_def Let_def)
qed

lemma read_block:
  assumes "lba_device u idle flash" and "idle (dev s)" and "length (buf s) = 16384"
  shows "\<exists>s1. transact_in u RKFT_CMD_READLBA off 32 16384 s = Done s1 \<and> same_streams s s1 \<and>
    buf s1 = sectors (flash (dev s)) (unat off) 32 \<and> idle (dev s1) \<and> flash (dev s1) = flash (dev s)"
proof -
  obtain r d where r: "random u (dev s) = (r, d)" by (metis surj_pair)
  obtain bs d1 where b: "bulk_in u (bulk_out u d (cmd_frame r RKFT_CMD_READLBA off 32)) 16384 = (bs, d1)"
    by (metis surj_pair)
  have f: "\<And>i. length (flash (dev s) i) = 512" "bs = sectors (flash (dev s)) (unat off) 32"
    "idle (snd (bulk_in u d1 13))" "flash (snd (bulk_in u d1 13)) = flash (dev s)"
    using assms(1,2) r b unfolding lba_device_def by blast+
  then have "length bs = 16384" using length_sectors [of "flash (dev s)"] by simp
  with r b f assms(3) show ?thesis
    by (simp add: transact_in_def recv_buf_def send_cmd_def send_frame_def recv_res_def
        same_streams_def overwrite_def Let_def)
qed

lemma write_block:
  assumes "lba_device u idle flash" and "idle (dev s)" and "length (buf s) = 16384"
  shows "let s1 = transact_out u RKFT_CMD_WRITELBA off 32 16384 s in same_streams s s1 \<and> buf s1 = buf s \<and>
    idle (dev s1) \<and> flash (dev s1) = put_sectors (flash (dev s)) (unat off) (buf s)"
proof -
  obtain r d where r: "random u (dev s) = (r, d)" by (metis surj_pair)
  define d3 where "d3 = snd (bulk_in u (bulk_out u (bulk_out u d (cmd_frame r RKFT_CMD_WRITELBA off 32)) (buf s)) 13)"
  have "idle d3 \<and> flash d3 = put_sectors (flash (dev s)) (unat off) (buf s)"
    using assms r unfolding lba_device_def d3_def Let_def by blast
  then show ?thesis using r assms(3)
    by (simp add: transact_out_def send_buf_def send_cmd_def send_frame_def recv_res_def
        same_streams_def Let_def d3_def)
qed

lemma write_out_ok:
  assumes "n \<le> length (buf s)" and "0 < n" and "wres s = []"
  shows "write_out n s = Done (s\<lparr>stdout := stdout s @ take n (buf s)\<rparr>)"
  using assms by (simp add: write_out_def sys_write_def)

lemma unat_add_chunk:
  fixes off :: u32
  assumes "unat off + n < 2 ^ 32"
  shows "unat (off + of_nat n) = unat off + n"
proof -
  have "unat (of_nat n :: u32) = n" using assms by (simp add: unsigned_of_nat take_bit_nat_eq_self)
  with assms show ?thesis by (simp add: unat_add_lem [THEN iffD1])
qed

section \<open>Reading, writing and erasing flash\<close>

lemma read_flash_sectors:
  assumes "lba_device u idle flash"
  shows "idle (dev s) \<Longrightarrow> length (buf s) = 16384 \<Longrightarrow> wres s = [] \<Longrightarrow> unat sz = 32 * k \<Longrightarrow>
    unat off + 32 * k \<le> 2 ^ 32 \<Longrightarrow> k \<le> fuel \<Longrightarrow>
    \<exists>s'. read_flash fuel u off sz s = Some (Done s') \<and>
      stdout s' = stdout s @ sectors (flash (dev s)) (unat off) (32 * k) \<and>
      idle (dev s') \<and> flash (dev s') = flash (dev s)"
proof (induction k arbitrary: fuel off sz s)
  case 0
  then have "sz = 0" by (simp add: unat_eq_zero)
  with 0 show ?case by (cases fuel) (simp_all add: sectors_def)
next
  case (Suc k)
  then obtain f where f: "fuel = Suc f" "k \<le> f" by (cases fuel) auto
  have nz: "sz \<noteq> 0" using Suc.prems(4) by auto
  have sz: "unat (sz - 32) = 32 * k" using unat_minus_chunk [of 32 sz] Suc.prems(4) by simp
  obtain s1 where t: "transact_in u RKFT_CMD_READLBA off 32 16384 s = Done s1" "same_streams s s1"
      "buf s1 = sectors (flash (dev s)) (unat off) 32" "idle (dev s1)" "flash (dev s1) = flash (dev s)"
    using read_block [OF assms Suc.prems(1,2)] by blast
  have l: "length (buf s1) = 16384"
    using t(3) length_sectors [of "flash (dev s)"] assms Suc.prems(1) by (simp add: lba_device_def)
  define s2 where "s2 = s1\<lparr>stdout := stdout s1 @ buf s1\<rparr>"
  have w: "write_out 16384 s1 = Done s2"
    using write_out_ok [of 16384 s1] l t(2) Suc.prems(3) by (simp add: s2_def same_streams_def)
  show ?case
  proof (cases k)
    case 0
    then have "sz - 32 = 0" using sz by (simp add: unat_eq_zero)
    with 0 f nz t w show ?thesis
      by (cases f) (simp_all add: s2_def same_streams_def)
  next
    case (Suc k')
    then have "unat (off + 32) = unat off + 32"
      using unat_add_chunk [of off 32] Suc.prems(5) \<open>k = Suc k'\<close> by simp
    moreover have "\<exists>s'. read_flash f u (off + 32) (sz - 32) s2 = Some (Done s') \<and>
       stdout s' = stdout s2 @ sectors (flash (dev s2)) (unat (off + 32)) (32 * k) \<and>
       idle (dev s') \<and> flash (dev s') = flash (dev s2)"
      using Suc.IH [of s2 "sz - 32" "off + 32" f] t l sz f Suc.prems calculation
      by (simp add: s2_def same_streams_def)
    ultimately show ?thesis
      using f nz t w sectors_append [of "flash (dev s)" "unat off" 32 "32 * k"]
      by (auto simp: s2_def same_streams_def)
  qed
qed

lemma read_flash_wraps:
  assumes "unat sz mod 32 \<noteq> 0"
  shows "length (buf s) = 16384 \<Longrightarrow> wres s = [] \<Longrightarrow> read_flash fuel u off sz s = None"
  using assms
proof (induction fuel arbitrary: off sz s)
  case 0
  then show ?case by auto
next
  case (Suc fuel)
  have nz: "sz \<noteq> 0" using Suc.prems(3) by auto
  have "unat (sz - 32) mod 32 \<noteq> 0"
  proof (cases "32 \<le> unat sz")
    case True
    then have "unat (sz - 32) = unat sz - 32" using unat_minus_chunk [of 32 sz] by simp
    with True Suc.prems(3) show ?thesis by (simp add: mod_if)
  next
    case False
    then have "unat (sz - 32) = 2 ^ 32 - 32 + unat sz"
      using unat_sub_if' [of sz 32] by (simp add: word_le_nat_alt)
    moreover have "((2::nat) ^ 32 - 32 + unat sz) mod 32 = unat sz mod 32"
      using mod_mult_self1 [of "unat sz" 134217727 32] by (simp add: add.commute)
    ultimately show ?thesis using Suc.prems(3) by simp
  qed
  moreover obtain s1 where t: "transact_in u RKFT_CMD_READLBA off 32 16384 s = Done s1" "same_streams s s1"
      "length (buf s1) = 16384" using transact_in_total [of 16384 s] Suc.prems(1) by fastforce
  moreover have "write_out 16384 s1 = Done (s1\<lparr>stdout := stdout s1 @ take 16384 (buf s1)\<rparr>)"
    using write_out_ok [of 16384 s1] t Suc.prems(2) by (simp add: same_streams_def)
  ultimately show ?case
    using Suc.IH [of "s1\<lparr>stdout := stdout s1 @ take 16384 (buf s1)\<rparr>" "sz - 32" "off + 32"] nz Suc.prems(2)
    by (simp add: same_streams_def)
qed

lemma put_sectors_Nil [simp]: "put_sectors f off [] = f"
  by (auto simp: put_sectors_def fun_eq_iff)

lemma write_flash_0 [simp]: "write_flash u off 0 s = s"
  by (simp add: write_flash.simps)

lemma write_flash_blocks:
  assumes "lba_device u idle flash"
  shows "idle (dev s) \<Longrightarrow> length (buf s) = 16384 \<Longrightarrow> unat sz = 32 * length blocks \<Longrightarrow>
    unat off + 32 * length blocks \<le> 2 ^ 32 \<Longrightarrow> stdin s = map Some blocks @ rest \<Longrightarrow>
    \<forall>b\<in>set blocks. length b = 16384 \<Longrightarrow>
    idle (dev (write_flash u off sz s)) \<and> length (buf (write_flash u off sz s)) = 16384 \<and>
    flash (dev (write_flash u off sz s)) = put_sectors (flash (dev s)) (unat off) (concat blocks) \<and>
    wres (write_flash u off sz s) = wres s \<and> stdout (write_flash u off sz s) = stdout s \<and>
    msgs (write_flash u off sz s) = msgs s \<and> stdin (write_flash u off sz s) = rest"
proof (induction blocks arbitrary: off sz s)
  case Nil
  then have "sz = 0" by (simp add: unat_eq_zero)
  with Nil show ?case by simp
next
  case (Cons b bs)
  have nz: "sz \<noteq> 0" using Cons.prems(3) by auto
  have sz: "unat (sz - 32) = 32 * length bs" using unat_minus_chunk [of 32 sz] Cons.prems(3) by simp
  have lb: "length b = 16384" using Cons.prems(6) by simp
  define s1 where "s1 = s\<lparr>stdin := map Some bs @ rest, buf := b\<rparr>"
  define s2 where "s2 = transact_out u RKFT_CMD_WRITELBA off 32 16384 s1"
  have step: "write_flash u off sz s = write_flash u (off + 32) (sz - 32) s2"
    using Cons.prems(2,5) lb nz
    by (subst write_flash.simps) (simp add: s2_def s1_def overwrite_def)
  have i: "idle (dev s1)" "length (buf s1) = 16384" using Cons.prems(1) lb by (simp_all add: s1_def)
  have w: "same_streams s1 s2" "buf s2 = b" "idle (dev s2)"
      "flash (dev s2) = put_sectors (flash (dev s)) (unat off) b"
    using write_block [OF assms i, of off] by (simp_all add: Let_def s2_def [symmetric]) (simp_all add: s1_def)
  have st: "stdin s2 = map Some bs @ rest" "wres s2 = wres s" "stdout s2 = stdout s" "msgs s2 = msgs s"
    using w(1) by (simp_all add: same_streams_def s1_def)
  show ?case
  proof (cases "bs = []")
    case True
    then have "sz - 32 = 0" using sz by (simp add: unat_eq_zero)
    then have "write_flash u off sz s = s2" unfolding step by (simp add: write_flash.simps)
    with True w st lb show ?thesis by simp
  next
    case False
    then have "unat off + 32 < 2 ^ 32" using Cons.prems(4) by (cases bs) auto
    then have "unat (off + 32) = unat off + 32" using unat_add_chunk [of off 32] by simp
    with Cons.IH [of s2 "sz - 32" "off + 32"] Cons.prems(4,6) w st sz lb
      put_sectors_append [of b 32 "flash (dev s)" "unat off" "concat bs"]
    show ?thesis by (simp add: step)
  qed
qed

lemma erase_loop_blocks:
  assumes "lba_device u idle flash"
  shows "idle (dev s) \<Longrightarrow> length (buf s) = 16384 \<Longrightarrow> unat sz = 32 * k \<Longrightarrow>
    unat off + 32 * k \<le> 2 ^ 32 \<Longrightarrow> k \<le> fuel \<Longrightarrow>
    \<exists>s'. erase_loop fuel u off sz s = Some s' \<and> idle (dev s') \<and>
      flash (dev s') = put_sectors (flash (dev s)) (unat off) (concat (replicate k (buf s)))"
proof (induction k arbitrary: fuel off sz s)
  case 0
  then have "sz = 0" by (simp add: unat_eq_zero)
  with 0 show ?case by (cases fuel) simp_all
next
  case (Suc k)
  then obtain f where f: "fuel = Suc f" "k \<le> f" by (cases fuel) auto
  have nz: "sz \<noteq> 0" using Suc.prems(3) by auto
  have sz: "unat (sz - 32) = 32 * k" using unat_minus_chunk [of 32 sz] Suc.prems(3) by simp
  define s1 where "s1 = transact_out u RKFT_CMD_WRITELBA off 32 16384 s"
  have w: "buf s1 = buf s" "idle (dev s1)" "flash (dev s1) = put_sectors (flash (dev s)) (unat off) (buf s)"
    using write_block [OF assms Suc.prems(1,2), of off] by (simp_all add: Let_def s1_def)
  have step: "erase_loop fuel u off sz s = erase_loop f u (off + 32) (sz - 32) s1"
    using f nz by (simp add: s1_def)
  show ?case
  proof (cases "k = 0")
    case True
    then have "sz - 32 = 0" using sz by (simp add: unat_eq_zero)
    then have "erase_loop fuel u off sz s = Some s1" unfolding step by (cases f) simp_all
    with True w show ?thesis by simp
  next
    case False
    then have "unat off + 32 < 2 ^ 32" using Suc.prems(4) by auto
    then have "unat (off + 32) = unat off + 32" using unat_add_chunk [of off 32] by simp
    with Suc.IH [of s1 "sz - 32" "off + 32" f] Suc.prems(2,4) w sz f
      put_sectors_append [of "buf s" 32 "flash (dev s)" "unat off" "concat (replicate k (buf s))"]
    show ?thesis unfolding step by simp
  qed
qed

section \<open>Parameters\<close>

definition parm_block :: "bytes \<Rightarrow> bytes \<Rightarrow> bytes" where
  "parm_block old content = rk_container (ascii ''PARM'') content @ drop (12 + length content) old"

lemma length_rk_container: "length (rk_container (ascii ''PARM'') content) = 12 + length content"
  by (simp add: rk_container_def)

lemma parm_overwrites:
  assumes "12 + length bs \<le> length old"
  shows "overwrite (8 + length bs) (put32le c) (overwrite 4 (put32le v) (overwrite 8 bs (overwrite 0 (ascii ''PARM'') old)))
    = ascii ''PARM'' @ put32le v @ bs @ put32le c @ drop (12 + length bs) old"
proof -
  have split: "\<exists>a b. xs = a @ b \<and> length a = n" if "n \<le> length xs" for n and xs :: bytes
    using that by (intro exI [of _ "take n xs"] exI [of _ "drop n xs"]) simp
  obtain a o1 where 1: "old = a @ o1" "length a = 4" using split [of 4 old] assms by auto
  obtain b o2 where 2: "o1 = b @ o2" "length b = 4" using split [of 4 o1] assms 1 by auto
  obtain x o3 where 3: "o2 = x @ o3" "length x = length bs" using split [of "length bs" o2] assms 1 2 by auto
  obtain y z where 4: "o3 = y @ z" "length y = 4" using split [of 4 o3] assms 1 2 3 by auto
  have old: "old = a @ b @ x @ y @ z" "length a = 4" "length b = 4" "length x = length bs" "length y = 4"
    using 1 2 3 4 by simp_all
  then have d: "drop (12 + length bs) old = z" by simp
  have "overwrite 0 (ascii ''PARM'') old = ascii ''PARM'' @ b @ x @ y @ z"
    using old overwrite_at [of "[]" 0 a "ascii ''PARM''" "b @ x @ y @ z"] by simp
  moreover have "overwrite 8 bs (ascii ''PARM'' @ b @ x @ y @ z) = ascii ''PARM'' @ b @ bs @ y @ z"
    using old overwrite_at [of "ascii ''PARM'' @ b" 8 x bs "y @ z"] by simp
  moreover have "overwrite 4 (put32le v) (ascii ''PARM'' @ b @ bs @ y @ z) = ascii ''PARM'' @ put32le v @ bs @ y @ z"
    using old overwrite_at [of "ascii ''PARM''" 4 b "put32le v" "bs @ y @ z"] by simp
  moreover have "overwrite (8 + length bs) (put32le c) (ascii ''PARM'' @ put32le v @ bs @ y @ z) =
      ascii ''PARM'' @ put32le v @ bs @ put32le c @ z"
    using old overwrite_at [of "ascii ''PARM'' @ put32le v @ bs" "8 + length bs" y "put32le c" z] by simp
  ultimately show ?thesis by (simp add: d)
qed

lemma write_params_eq:
  assumes "stdin s = Some bs # rest" and "length bs \<le> 16372" and "length (buf s) = 16384"
  shows "write_params u s =
    Done (fold (\<lambda>off. transact_out u RKFT_CMD_WRITELBA off 32 16384) param_offsets
      (s\<lparr>stdin := rest, buf := parm_block (buf s) bs\<rparr>))"
proof -
  let ?b2 = "overwrite 4 (put32le (of_nat (length bs))) (overwrite 8 bs (overwrite 0 (ascii ''PARM'') (buf s)))"
  have "take (length bs) (drop 8 ?b2) = bs"
    using assms(2,3) by (simp add: overwrite_def)
  then show ?thesis
    using assms parm_overwrites [of bs "buf s" "rkcrc32 0 bs" "of_nat (length bs)"]
    by (simp add: write_params_def Let_def parm_block_def rk_container_def)
qed

lemma same_streams_trans: "same_streams s t \<Longrightarrow> same_streams t v \<Longrightarrow> same_streams s v"
  by (simp add: same_streams_def)

lemma write_copies:
  assumes "lba_device u idle flash"
  shows "idle (dev s) \<Longrightarrow> length (buf s) = 16384 \<Longrightarrow> sorted_wrt (\<lambda>a b. unat a + 32 \<le> unat b) offs \<Longrightarrow>
    s' = fold (\<lambda>off. transact_out u RKFT_CMD_WRITELBA off 32 16384) offs s \<Longrightarrow>
    idle (dev s') \<and> same_streams s s' \<and> buf s' = buf s \<and>
    (\<forall>off\<in>set offs. sectors (flash (dev s')) (unat off) 32 = buf s) \<and>
    (\<forall>j. (\<forall>off\<in>set offs. j + 32 \<le> unat off) \<longrightarrow> sectors (flash (dev s')) j 32 = sectors (flash (dev s)) j 32)"
proof (induction offs arbitrary: s)
  case Nil
  then show ?case by (simp add: same_streams_def)
next
  case (Cons off offs)
  define s1 where "s1 = transact_out u RKFT_CMD_WRITELBA off 32 16384 s"
  have w: "same_streams s s1" "buf s1 = buf s" "idle (dev s1)"
      "flash (dev s1) = put_sectors (flash (dev s)) (unat off) (buf s)"
    using write_block [OF assms Cons.prems(1,2), of off] by (simp_all add: Let_def s1_def)
  have IH: "idle (dev s')" "same_streams s1 s'" "buf s' = buf s"
      "\<And>o'. o' \<in> set offs \<Longrightarrow> sectors (flash (dev s')) (unat o') 32 = buf s"
      "\<And>j. \<forall>o'\<in>set offs. j + 32 \<le> unat o' \<Longrightarrow> sectors (flash (dev s')) j 32 = sectors (flash (dev s1)) j 32"
    using Cons.IH [of s1] w Cons.prems by (auto simp: s1_def [symmetric])
  have "sectors (flash (dev s')) (unat off) 32 = buf s"
    using IH(5) [of "unat off"] Cons.prems(2,3) w(4) sectors_put_same [of "buf s" 32 "flash (dev s)" "unat off"] by simp
  moreover have "sectors (flash (dev s')) j 32 = sectors (flash (dev s)) j 32"
    if "\<forall>o'\<in>set (off # offs). j + 32 \<le> unat o'" for j
    using that IH(5) [of j] w(4) sectors_put_other [of j 32 "unat off" "buf s" "flash (dev s)"] by simp
  ultimately show ?case
    using IH(1-4) same_streams_trans [OF w(1)] by auto
qed

lemma param_offsets_sorted: "sorted_wrt (\<lambda>a b. unat a + 32 \<le> unat b) param_offsets"
  by (simp add: param_offsets_def)

lemma length_parm_block:
  "12 + length content \<le> length old \<Longrightarrow> length (parm_block old content) = length old"
  by (simp add: parm_block_def length_rk_container)

lemma read_params_block:
  assumes "transact_in u RKFT_CMD_READLBA off 32 16384 s = Done s1"
    and "buf s1 = parm_block old content" and "length content \<le> 16372" and "content \<noteq> []"
    and "wres s1 = []"
  shows "read_params u off s = Done (s1\<lparr>stdout := stdout s1 @ content\<rparr>)"
proof -
  define n where "n = length content"
  have u: "unat (of_nat n :: u32) = n" using assms(3) by (simp add: unsigned_of_nat take_bit_nat_eq_self n_def)
  have b: "buf s1 = ascii ''PARM'' @ put32le (of_nat n) @ content @ put32le (rkcrc32 0 content) @ drop (12 + n) old"
    by (simp add: assms(2) parm_block_def rk_container_def n_def)
  have "rd32le 4 (buf s1) = Some (of_nat n)" by (simp add: b rd32le_def)
  moreover have "rd32le (8 + n) (buf s1) = Some (rkcrc32 0 content)" by (simp add: b rd32le_def n_def)
  moreover have "slice 8 n (buf s1) = Some content" by (simp add: b slice_def n_def)
  ultimately show ?thesis
    using assms u by (simp add: read_params_def sys_write_def n_def)
qed

section \<open>The download check sum\<close>

lemma crc16table_0: "crc16table ! 0 = 0"
  by (simp add: crc16table_def)

lemma rkcrc16_step_own: "rkcrc16_step c (ucast (drop_bit 8 c)) = push_bit 8 c"
proof -
  have "drop_bit 8 c XOR ucast (ucast (drop_bit 8 c) :: u8) = (0 :: u16)"
    by (rule bit_word_eqI) (auto simp: bit_simps dest: bit_imp_le_length)
  then show ?thesis by (simp add: rkcrc16_step_def crc16table_0)
qed

lemma rkcrc16_own: "rkcrc16 c (put16be c) = 0"
proof -
  have "ucast c = (ucast (drop_bit 8 (push_bit 8 c)) :: u8)"
    by (rule bit_word_eqI) (auto simp: bit_simps)
  then have "rkcrc16_step (push_bit 8 c) (ucast c) = push_bit 8 (push_bit 8 c)"
    using rkcrc16_step_own [of "push_bit 8 c"] by simp
  also have "\<dots> = 0" by (rule bit_word_eqI) (auto simp: bit_simps)
  finally show ?thesis by (simp add: put16be_def rkcrc16_step_own)
qed

lemma download_blocks:
  assumes "\<forall>b\<in>set blocks. length b = 4096" and "length tail < 4096"
  shows "stdin s = map Some blocks @ [Some tail] \<Longrightarrow>
    dev (download u idx crc s) =
      fold (\<lambda>b d. control_out u d idx b) (blocks @ [tail @ put16be (rkcrc16 crc (concat blocks @ tail))]) (dev s)"
  using assms(1)
proof (induction blocks arbitrary: crc s)
  case Nil
  then show ?case using assms(2) by (subst download.simps) (simp add: Let_def)
next
  case (Cons b bs)
  then have "length b = 4096" by simp
  then show ?case using Cons
    by (subst download.simps) (simp add: crc16.run_append)
qed

section \<open>Partition search\<close>

lemma strrchr_last: "x \<notin> set b \<Longrightarrow> strrchr (a @ x # b) x = Some (length a)"
proof (induction a)
  case Nil
  have "strrchr b x = None" using Nil by (induction b) (auto split: option.splits)
  then show ?case by simp
qed (simp split: option.splits)

lemma strrchr_none: "x \<notin> set s \<Longrightarrow> strrchr s x = None"
  by (induction s) (auto split: option.splits)

lemma lookup_part_found:
  assumes "strstr param ''mtdparts='' = Some m"
    and "strstr (drop m param) (''('' @ name @ '')'') = Some p" and "length name \<le> 253"
    and s1: "take p (drop m param) = front @ sep # szs @ CHR ''@'' # offs"
    and "CHR ''@'' \<notin> set offs"
    and "CHR ''-'' \<notin> set (front @ sep # szs)"
    and "sep = CHR '','' \<or> sep = CHR '':'' \<and> CHR '','' \<notin> set front"
    and "CHR '','' \<notin> set szs" and "CHR '':'' \<notin> set szs"
  shows "snd (lookup_part param name) = Part_range (fst (strtoul0 offs)) (fst (strtoul0 szs))"
proof -
  have e: "take 255 (''('' @ name @ '')'') = ''('' @ name @ '')''" using assms(3) by simp
  let ?a = "length (front @ sep # szs)"
  have a: "strrchr (take p (drop m param)) (CHR ''@'') = Some ?a"
    using strrchr_last [OF assms(5), of "front @ sep # szs"] by (simp add: s1)
  have o: "drop (?a + 1) (take p (drop m param)) = offs" and t: "take ?a (take p (drop m param)) = front @ sep # szs"
    unfolding s1 by simp_all
  have m: "strrchr (front @ sep # szs) (CHR ''-'') = None" by (rule strrchr_none [OF assms(6)])
  have s: "strrchr (front @ sep # szs) sep = Some (length front)" using strrchr_last [of sep szs front] assms(7-9) by blast
  show ?thesis
  proof (cases "sep = CHR '',''")
    case True
    with assms(1,2) e a o t m s show ?thesis unfolding lookup_part_def Let_def by simp
  next
    case False
    then have c: "sep = CHR '':''" "strrchr (front @ sep # szs) (CHR '','') = None"
      using assms(7,8) by (auto intro!: strrchr_none)
    with assms(1,2) e a o t m s show ?thesis unfolding lookup_part_def Let_def by simp
  qed
qed

section \<open>A simulated device\<close>

datatype sim = Idle "nat \<Rightarrow> bytes" | Reading "nat \<Rightarrow> bytes" nat | Writing "nat \<Rightarrow> bytes" nat | Status "nat \<Rightarrow> bytes"

fun sim_out :: "sim \<Rightarrow> bytes \<Rightarrow> sim" where
  "sim_out (Idle f) fr = (case frame_offset fr of None \<Rightarrow> Idle f
     | Some off \<Rightarrow> if frame_command fr = Some RKFT_CMD_READLBA then Reading f (unat off)
       else if frame_command fr = Some RKFT_CMD_WRITELBA then Writing f (unat off) else Status f)"
| "sim_out (Writing f off) bs = Status (put_sectors f off bs)"
| "sim_out d _ = d"

fun sim_in :: "sim \<Rightarrow> nat \<Rightarrow> bytes \<times> sim" where
  "sim_in (Reading f off) n = (sectors f off 32, Status f)"
| "sim_in (Status f) n = (replicate 13 0, Idle f)"
| "sim_in d n = ([], d)"

definition sim_usb :: "sim usb" where
  "sim_usb = \<lparr>bulk_out = sim_out, bulk_in = sim_in, control_out = (\<lambda>d _ _. d), random = (\<lambda>d. (7, d))\<rparr>"

fun sim_flash :: "sim \<Rightarrow> nat \<Rightarrow> bytes" where
  "sim_flash (Idle f) = f"
| "sim_flash (Reading f _) = f"
| "sim_flash (Writing f _) = f"
| "sim_flash (Status f) = f"

definition sim_idle :: "sim \<Rightarrow> bool" where
  "sim_idle d \<longleftrightarrow> (\<exists>f. d = Idle f \<and> (\<forall>i. length (f i) = 512))"

lemma put_sectors_512:
  assumes "\<And>i. length (f i) = 512" shows "length (put_sectors f off bs i) = 512"
proof (cases "off \<le> i \<and> i < off + length bs div 512")
  case True
  then have "i - off + 1 \<le> length bs div 512" by arith
  then have "(i - off + 1) * 512 \<le> length bs" by (simp add: less_eq_div_iff_mult_less_eq)
  then have "512 * (i - off) + 512 \<le> length bs" by (simp add: mult.commute)
  with True show ?thesis by (simp add: put_sectors_def)
qed (use assms in \<open>auto simp: put_sectors_def\<close>)

lemma sim_lba_device: "lba_device sim_usb sim_idle sim_flash"
proof -
  have ne: "RKFT_CMD_WRITELBA \<noteq> RKFT_CMD_READLBA" by (simp add: RKFT_CMD_WRITELBA_def RKFT_CMD_READLBA_def)
  show ?thesis
    unfolding lba_device_def
    by (auto simp: sim_usb_def sim_idle_def cmd_frame_decodes ne Let_def put_sectors_512)
qed

definition sim_start :: "bytes option list \<Rightarrow> sim ft" where
  "sim_start inp = \<lparr>dev = Idle (\<lambda>_. replicate 512 0), buf = replicate 16384 0, ibuf = replicate 528 0,
     stdin = inp, wres = [], stdout = [], msgs = []\<rparr>"

lemma sim_start_facts [simp]:
  "sim_idle (Idle (\<lambda>_. replicate 512 0))" "length (buf (sim_start inp)) = 16384" "wres (sim_start inp) = []"
  "stdin (sim_start inp) = inp" "stdout (sim_start inp) = []" "dev (sim_start inp) = Idle (\<lambda>_. replicate 512 0)"
  by (simp_all add: sim_start_def sim_idle_def)

section \<open>Defects\<close>

text \<open>Asked for 32 or more IDB sectors, the tool receives and prints \<open>528 * 32\<close> bytes with a buffer
  of 16384.\<close>

lemma read_idb_overflows:
  assumes "length (buf s) = 16384" and "32 \<le> unat sz"
  shows "read_idb u off sz s = Fault"
proof -
  have nz: "sz \<noteq> 0" using assms(2) by auto
  have n: "(if 32 < unat sz then 32 else unat sz) = 32" using assms(2) by simp
  have k: "length (buf s1) = length (buf s)" if "transact_in u c off k m s = Done s1" for c k m s1
    using that by (auto simp: transact_in_def recv_buf_def recv_res_def send_cmd_def send_frame_def
        bind_outcome_Done_iff Let_def overwrite_def split: prod.splits if_splits)
  have "bind_outcome (transact_in u RKFT_CMD_READSECTOR off 32 16896 s)
      (\<lambda>s1. bind_outcome (write_out 16896 s1) f) = Fault" for f
  proof (cases "transact_in u RKFT_CMD_READSECTOR off 32 16896 s")
    case (Done s1)
    then show ?thesis using k [OF Done] assms(1) by (simp add: write_out_def)
  next
    case (Fatal e)
    then show ?thesis
      by (auto simp: transact_in_def recv_buf_def bind_outcome_def Let_def split: outcome.splits prod.splits if_splits)
  qed simp
  then show ?thesis using nz n by (subst read_idb.simps) (simp add: Let_def)
qed

text \<open>A parameter file that leaves no room for its check sum is written past the buffer.\<close>

lemma write_params_overflows:
  assumes "stdin s = [Some bs]" and "16372 < length bs" and "length bs \<le> 16376"
  shows "write_params u s = Fault"
  using assms by (simp add: write_params_def Let_def)

text \<open>A dash in the name of an earlier partition is taken for the size of the one asked for.\<close>

lemma lookup_part_dash:
  "snd (lookup_part ''mtdparts=rk29xxnand:0x2000@0x2000(my-boot),0x4000@0x4000(kernel)'' ''kernel'')
     = Part_to_end 0x4000"
  by (simp add: lookup_part_def strtoul0_def skip_space_def isspace_def take_sign_def has_0x_def
      digit_def xdigit_def number_def to_ulong_def)

section \<open>Properties\<close>

text \<open>The frame of a command is 31 bytes that start with \<open>USBC\<close> and carry command, offset and
  sector count in big-endian order at their places, whatever \<open>random\<close> returns and although the
  code skips the fields that are zero.\<close>

theorem cmd_frame_fields:
  "length (cmd_frame r cmd off n) = 31 \<and> take 4 (cmd_frame r cmd off n) = ascii ''USBC'' \<and>
   get32be (drop 12 (cmd_frame r cmd off n)) = Some cmd \<and> get32be (drop 17 (cmd_frame r cmd off n)) = Some off \<and>
   take 2 (drop 22 (cmd_frame r cmd off n)) = put16be n"
  using cmd_frame_decodes [of r cmd off n]
  by (simp add: frame_command_def frame_offset_def) (simp add: cmd_frame_eq)

text \<open>C13: writing whole blocks to flash and reading the range back yields the bytes written, and both
  loops end; the device is any that serves the two sector commands.\<close>

theorem flash_write_read_roundtrip:
  assumes "lba_device u idle flash" and "idle (dev s)" and "length (buf s) = 16384" and "wres s = []"
    and "stdin s = map Some blocks @ rest" and "\<forall>b\<in>set blocks. length b = 16384"
    and "unat sz = 32 * length blocks" and "unat off + 32 * length blocks \<le> 2 ^ 32"
    and "length blocks \<le> fuel"
  shows "\<exists>s'. read_flash fuel u off sz (write_flash u off sz s) = Some (Done s') \<and>
    stdout s' = stdout s @ concat blocks"
proof -
  let ?s1 = "write_flash u off sz s"
  have w: "idle (dev ?s1)" "length (buf ?s1) = 16384" "wres ?s1 = []" "stdout ?s1 = stdout s"
      "flash (dev ?s1) = put_sectors (flash (dev s)) (unat off) (concat blocks)"
    using write_flash_blocks [OF assms(1-3,7,8,5,6)] assms(4) by simp_all
  have "length (concat blocks) = 512 * (32 * length blocks)"
    using assms(6) by (induction blocks) auto
  then have "sectors (flash (dev ?s1)) (unat off) (32 * length blocks) = concat blocks"
    by (simp add: w(5) sectors_put_same)
  then show ?thesis
    using read_flash_sectors [OF assms(1) w(1-3) assms(7-9)] w(4) by auto
qed

theorem flash_write_read_roundtrip_witness:
  "\<exists>s'. read_flash 1 sim_usb 0x2000 32 (write_flash sim_usb 0x2000 32 (sim_start [Some (replicate 16384 5)]))
      = Some (Done s') \<and> stdout s' = replicate 16384 5"
  using flash_write_read_roundtrip [OF sim_lba_device, of "sim_start [Some (replicate 16384 5)]"
      "[replicate 16384 5]" "[]" 32 "0x2000" 1] by simp

text \<open>A read whose sector count is no multiple of 32 never ends: the count wraps below zero, and
  however long the loop runs it has not finished, whatever the device does.\<close>

theorem read_flash_never_ends:
  assumes "unat sz mod 32 \<noteq> 0" and "length (buf s) = 16384" and "wres s = []"
  shows "\<forall>fuel. read_flash fuel u off sz s = None"
  using read_flash_wraps [OF assms] by blast

theorem read_flash_never_ends_witness:
  "\<forall>fuel. read_flash fuel sim_usb 0 10 (sim_start []) = None"
  by (rule read_flash_never_ends) simp_all

text \<open>Erasing a multiple of 32 sectors ends and leaves every sector of the range filled with
  \<open>0xff\<close> and every other sector as it was.\<close>

theorem erase_flash_fills:
  assumes "lba_device u idle flash" and "idle (dev s)"
    and "unat sz = 32 * k" and "unat off + 32 * k \<le> 2 ^ 32" and "k \<le> fuel"
  shows "\<exists>s'. erase_flash fuel u off sz s = Some s' \<and>
    (\<forall>i. flash (dev s') i = (if unat off \<le> i \<and> i < unat off + 32 * k then replicate 512 0xff else flash (dev s) i))"
proof -
  have "concat (replicate k (replicate 16384 (0xff :: u8))) = replicate (16384 * k) 0xff"
    by (induction k) (auto simp: replicate_add [symmetric])
  then obtain s' where e: "erase_flash fuel u off sz s = Some s'"
      "flash (dev s') = put_sectors (flash (dev s)) (unat off) (replicate (16384 * k) 0xff)"
    using erase_loop_blocks [OF assms(1), of "s\<lparr>buf := replicate 16384 0xff\<rparr>" sz k off fuel] assms(2-5)
    by (auto simp: erase_flash_def)
  have "take 512 (drop (512 * (i - unat off)) (replicate (16384 * k) 0xff)) = replicate 512 (0xff :: u8)"
    if "unat off \<le> i" "i < unat off + 32 * k" for i
  proof -
    have "i - unat off + 1 \<le> 32 * k" using that by arith
    then have "512 \<le> 16384 * k - 512 * (i - unat off)" by arith
    then show ?thesis by (simp add: min_def)
  qed
  moreover have "16384 * k div 512 = 32 * k" by simp
  ultimately have "flash (dev s') i =
      (if unat off \<le> i \<and> i < unat off + 32 * k then replicate 512 0xff else flash (dev s) i)" for i
    unfolding e(2) put_sectors_def by auto
  with e(1) show ?thesis by blast
qed

theorem erase_flash_fills_witness:
  "\<exists>s'. erase_flash 1 sim_usb 64 32 (sim_start []) = Some s' \<and>
     sim_flash (dev s') 70 = replicate 512 0xff \<and> sim_flash (dev s') 3 = replicate 512 0"
  using erase_flash_fills [OF sim_lba_device, of "sim_start []" 32 1 64 1] by auto



text \<open>The mask ROM download sends the file in order followed by its CRC-16, most significant
  byte first, so that the CRC of everything sent is zero, the test a receiver makes; block
  boundaries (also a file that is a multiple of 4096) do not matter.\<close>

theorem download_sends_file:
  assumes "\<forall>b\<in>set blocks. length b = 4096" and "length tail < 4096"
    and "stdin s = map Some blocks @ [Some tail]"
  shows "\<exists>sent. dev (download u idx 0xffff s) = fold (\<lambda>b d. control_out u d idx b) sent (dev s) \<and>
    concat sent = concat blocks @ tail @ put16be (rkcrc16 0xffff (concat blocks @ tail)) \<and>
    rkcrc16 0xffff (concat sent) = 0"
proof (intro exI conjI)
  let ?crc = "rkcrc16 0xffff (concat blocks @ tail)"
  let ?sent = "blocks @ [tail @ put16be ?crc]"
  show "dev (download u idx 0xffff s) = fold (\<lambda>b d. control_out u d idx b) ?sent (dev s)"
    by (rule download_blocks [OF assms])
  show c: "concat ?sent = concat blocks @ tail @ put16be ?crc" by simp
  show "rkcrc16 0xffff (concat ?sent) = 0"
    using rkcrc16_own [of ?crc] by (simp add: crc16.run_append)
qed

theorem download_sends_file_witness:
  "\<exists>sent. dev (download sim_usb 1137 0xffff (sim_start [Some [1, 2, 3]]))
      = fold (\<lambda>b d. control_out sim_usb d 1137 b) sent (Idle (\<lambda>_. replicate 512 0)) \<and>
    rkcrc16 0xffff (concat sent) = 0"
  using download_sends_file [of "[]" "[1, 2, 3]" "sim_start [Some [1, 2, 3]]" sim_usb 1137] by auto

text \<open>For a partition written as \<open>size@offset(name)\<close> in \<open>mtdparts\<close>, first or not, the search
  returns exactly its offset and size, provided no dash occurs before it.\<close>

theorem lookup_part_correct:
  assumes "strstr param ''mtdparts='' = Some m"
    and "strstr (drop m param) (''('' @ name @ '')'') = Some p" and "length name \<le> 253"
    and "take p (drop m param) = front @ sep # szs @ CHR ''@'' # offs"
    and "CHR ''@'' \<notin> set offs"
    and "CHR ''-'' \<notin> set (front @ sep # szs)"
    and "sep = CHR '','' \<or> sep = CHR '':'' \<and> CHR '','' \<notin> set front"
    and "CHR '','' \<notin> set szs" and "CHR '':'' \<notin> set szs"
  shows "snd (lookup_part param name) = Part_range (fst (strtoul0 offs)) (fst (strtoul0 szs))"
  using assms by (rule lookup_part_found)

theorem lookup_part_correct_witness:
  "snd (lookup_part ''mtdparts=nand:0x2000@0x2000(uboot),0x4000@0x6000(boot)'' ''boot'')
     = Part_range (fst (strtoul0 ''0x6000'')) (fst (strtoul0 ''0x4000''))"
  by (rule lookup_part_correct [where m = 0 and p = 48 and sep = "CHR '',''" and front = "''mtdparts=nand:0x2000@0x2000(uboot)''"])
     simp_all

end
