(* ===== verification/AvbAb.thy ===== *)
theory AvbAb
  imports Prelude
begin

text \<open>
  The A/B slot selection of U-Boot: \<open>lib/avb/libavb_ab/avb_ab_flow.c\<close> with its metadata
  (\<open>include/android_avb/avb_ab_flow.h\<close>) and the CRC-32 of \<open>lib/avb/libavb/avb_crc32.c\<close>.  The
  platform (record \<open>avb_ops\<close>: the \<open>misc\<close> partition, the rollback store and \<open>avb_slot_verify\<close>) is an
  argument; variables the code reads before it set them are arguments too.  The theorems show that
  metadata survives storing and loading, which slot a boot selects and what it costs, and that
  activating a slot makes the next boot select it.
\<close>

section \<open>CRC-32\<close>

definition iavb_crc32_tab :: "u32 list" where
  "iavb_crc32_tab = [
   0x00000000, 0x77073096, 0xee0e612c, 0x990951ba, 0x076dc419, 0x706af48f, 0xe963a535, 0x9e6495a3,
   0x0edb8832, 0x79dcb8a4, 0xe0d5e91e, 0x97d2d988, 0x09b64c2b, 0x7eb17cbd, 0xe7b82d07, 0x90bf1d91,
   0x1db71064, 0x6ab020f2, 0xf3b97148, 0x84be41de, 0x1adad47d, 0x6ddde4eb, 0xf4d4b551, 0x83d385c7,
   0x136c9856, 0x646ba8c0, 0xfd62f97a, 0x8a65c9ec, 0x14015c4f, 0x63066cd9, 0xfa0f3d63, 0x8d080df5,
   0x3b6e20c8, 0x4c69105e, 0xd56041e4, 0xa2677172, 0x3c03e4d1, 0x4b04d447, 0xd20d85fd, 0xa50ab56b,
   0x35b5a8fa, 0x42b2986c, 0xdbbbc9d6, 0xacbcf940, 0x32d86ce3, 0x45df5c75, 0xdcd60dcf, 0xabd13d59,
   0x26d930ac, 0x51de003a, 0xc8d75180, 0xbfd06116, 0x21b4f4b5, 0x56b3c423, 0xcfba9599, 0xb8bda50f,
   0x2802b89e, 0x5f058808, 0xc60cd9b2, 0xb10be924, 0x2f6f7c87, 0x58684c11, 0xc1611dab, 0xb6662d3d,
   0x76dc4190, 0x01db7106, 0x98d220bc, 0xefd5102a, 0x71b18589, 0x06b6b51f, 0x9fbfe4a5, 0xe8b8d433,
   0x7807c9a2, 0x0f00f934, 0x9609a88e, 0xe10e9818, 0x7f6a0dbb, 0x086d3d2d, 0x91646c97, 0xe6635c01,
   0x6b6b51f4, 0x1c6c6162, 0x856530d8, 0xf262004e, 0x6c0695ed, 0x1b01a57b, 0x8208f4c1, 0xf50fc457,
   0x65b0d9c6, 0x12b7e950, 0x8bbeb8ea, 0xfcb9887c, 0x62dd1ddf, 0x15da2d49, 0x8cd37cf3, 0xfbd44c65,
   0x4db26158, 0x3ab551ce, 0xa3bc0074, 0xd4bb30e2, 0x4adfa541, 0x3dd895d7, 0xa4d1c46d, 0xd3d6f4fb,
   0x4369e96a, 0x346ed9fc, 0xad678846, 0xda60b8d0, 0x44042d73, 0x33031de5, 0xaa0a4c5f, 0xdd0d7cc9,
   0x5005713c, 0x270241aa, 0xbe0b1010, 0xc90c2086, 0x5768b525, 0x206f85b3, 0xb966d409, 0xce61e49f,
   0x5edef90e, 0x29d9c998, 0xb0d09822, 0xc7d7a8b4, 0x59b33d17, 0x2eb40d81, 0xb7bd5c3b, 0xc0ba6cad,
   0xedb88320, 0x9abfb3b6, 0x03b6e20c, 0x74b1d29a, 0xead54739, 0x9dd277af, 0x04db2615, 0x73dc1683,
   0xe3630b12, 0x94643b84, 0x0d6d6a3e, 0x7a6a5aa8, 0xe40ecf0b, 0x9309ff9d, 0x0a00ae27, 0x7d079eb1,
   0xf00f9344, 0x8708a3d2, 0x1e01f268, 0x6906c2fe, 0xf762575d, 0x806567cb, 0x196c3671, 0x6e6b06e7,
   0xfed41b76, 0x89d32be0, 0x10da7a5a, 0x67dd4acc, 0xf9b9df6f, 0x8ebeeff9, 0x17b7be43, 0x60b08ed5,
   0xd6d6a3e8, 0xa1d1937e, 0x38d8c2c4, 0x4fdff252, 0xd1bb67f1, 0xa6bc5767, 0x3fb506dd, 0x48b2364b,
   0xd80d2bda, 0xaf0a1b4c, 0x36034af6, 0x41047a60, 0xdf60efc3, 0xa867df55, 0x316e8eef, 0x4669be79,
   0xcb61b38c, 0xbc66831a, 0x256fd2a0, 0x5268e236, 0xcc0c7795, 0xbb0b4703, 0x220216b9, 0x5505262f,
   0xc5ba3bbe, 0xb2bd0b28, 0x2bb45a92, 0x5cb36a04, 0xc2d7ffa7, 0xb5d0cf31, 0x2cd99e8b, 0x5bdeae1d,
   0x9b64c2b0, 0xec63f226, 0x756aa39c, 0x026d930a, 0x9c0906a9, 0xeb0e363f, 0x72076785, 0x05005713,
   0x95bf4a82, 0xe2b87a14, 0x7bb12bae, 0x0cb61b38, 0x92d28e9b, 0xe5d5be0d, 0x7cdcefb7, 0x0bdbdf21,
   0x86d3d2d4, 0xf1d4e242, 0x68ddb3f8, 0x1fda836e, 0x81be16cd, 0xf6b9265b, 0x6fb077e1, 0x18b74777,
   0x88085ae6, 0xff0f6a70, 0x66063bca, 0x11010b5c, 0x8f659eff, 0xf862ae69, 0x616bffd3, 0x166ccf45,
   0xa00ae278, 0xd70dd2ee, 0x4e048354, 0x3903b3c2, 0xa7672661, 0xd06016f7, 0x4969474d, 0x3e6e77db,
   0xaed16a4a, 0xd9d65adc, 0x40df0b66, 0x37d83bf0, 0xa9bcae53, 0xdebb9ec5, 0x47b2cf7f, 0x30b5ffe9,
   0xbdbdf21c, 0xcabac28a, 0x53b39330, 0x24b4a3a6, 0xbad03605, 0xcdd70693, 0x54de5729, 0x23d967bf,
   0xb3667a2e, 0xc4614ab8, 0x5d681b02, 0x2a6f2b94, 0xb40bbe37, 0xc30c8ea1, 0x5a05df1b, 0x2d02ef8d]"

fun iavb_crc32_loop :: "u32 \<Rightarrow> bytes \<Rightarrow> u32" where
  "iavb_crc32_loop crc [] = crc"
| "iavb_crc32_loop crc (b # bs) =
     iavb_crc32_loop (iavb_crc32_tab ! unat ((crc XOR ucast b) AND 0xFF) XOR drop_bit 8 crc) bs"

definition iavb_crc32 :: "u32 \<Rightarrow> bytes \<Rightarrow> u32" where
  "iavb_crc32 crc_in bs = iavb_crc32_loop (crc_in XOR NOT 0) bs XOR NOT 0"

definition avb_crc32 :: "bytes \<Rightarrow> u32" where
  "avb_crc32 bs = iavb_crc32 0 bs"

fun memcmp_acc :: "u8 \<Rightarrow> bytes \<Rightarrow> bytes \<Rightarrow> u8" where
  "memcmp_acc r (a # as) (b # bs) = memcmp_acc (r OR (a XOR b)) as bs"
| "memcmp_acc r _ _ = r"

definition avb_safe_memcmp :: "bytes \<Rightarrow> bytes \<Rightarrow> bool" where
  "avb_safe_memcmp s1 s2 = (memcmp_acc 0 s1 s2 \<noteq> 0)"

section \<open>Metadata\<close>

record AvbABSlotData =
  priority :: u8
  tries_remaining :: u8
  successful_boot :: u8
  reserved :: u8

record AvbABData =
  magic :: bytes
  version_major :: u8
  version_minor :: u8
  reserved1 :: bytes
  slots :: "AvbABSlotData list"
  last_boot :: u8
  reserved2 :: bytes
  crc32 :: u32

definition AVB_AB_MAGIC :: bytes where "AVB_AB_MAGIC = [0, 65, 66, 48]"
definition AVB_AB_MAJOR_VERSION :: u8 where "AVB_AB_MAJOR_VERSION = 1"
definition AVB_AB_MINOR_VERSION :: u8 where "AVB_AB_MINOR_VERSION = 0"
definition AVB_AB_MAX_PRIORITY :: u8 where "AVB_AB_MAX_PRIORITY = 15"
definition AVB_AB_MAX_TRIES_REMAINING :: u8 where "AVB_AB_MAX_TRIES_REMAINING = 7"

text \<open>The packed structure: the 28 bytes before the check sum, and all 32 as they lie in memory.\<close>

definition slot_bytes :: "AvbABSlotData \<Rightarrow> bytes" where
  "slot_bytes sl = [priority sl, tries_remaining sl, successful_boot sl, reserved sl]"

definition head_bytes :: "AvbABData \<Rightarrow> bytes" where
  "head_bytes d = magic d @ [version_major d, version_minor d] @ reserved1 d @
     concat (map slot_bytes (slots d)) @ [last_boot d] @ reserved2 d"

definition mem_bytes :: "AvbABData \<Rightarrow> bytes" where
  "mem_bytes d = head_bytes d @ put32le (crc32 d)"

definition slot_of_bytes :: "bytes \<Rightarrow> AvbABSlotData" where
  "slot_of_bytes b = \<lparr>priority = b ! 0, tries_remaining = b ! 1, successful_boot = b ! 2, reserved = b ! 3\<rparr>"

text \<open>\<open>memcpy\<close> into the structure, then \<open>avb_be32toh\<close> of the check sum.\<close>

definition data_of_bytes :: "bytes \<Rightarrow> AvbABData" where
  "data_of_bytes b = \<lparr>magic = take 4 b, version_major = b ! 4, version_minor = b ! 5,
     reserved1 = take 2 (drop 6 b), slots = [slot_of_bytes (take 4 (drop 8 b)), slot_of_bytes (take 4 (drop 12 b))],
     last_boot = b ! 16, reserved2 = take 11 (drop 17 b),
     crc32 = (case get32be (drop 28 b) of Some v \<Rightarrow> v | None \<Rightarrow> 0)\<rparr>"

definition avb_ab_data_verify_and_byteswap :: "bytes \<Rightarrow> AvbABData option" where
  "avb_ab_data_verify_and_byteswap src =
     (if avb_safe_memcmp (take 4 src) AVB_AB_MAGIC then None
      else (let dest = data_of_bytes src in
        if AVB_AB_MAJOR_VERSION < version_major dest then None
        else if crc32 dest \<noteq> avb_crc32 (head_bytes dest) then None
        else Some dest))"

definition avb_ab_data_update_crc_and_byteswap :: "AvbABData \<Rightarrow> bytes" where
  "avb_ab_data_update_crc_and_byteswap src = head_bytes src @ put32be (avb_crc32 (head_bytes src))"

definition avb_ab_data_init :: AvbABData where
  "avb_ab_data_init = \<lparr>magic = AVB_AB_MAGIC, version_major = AVB_AB_MAJOR_VERSION,
     version_minor = AVB_AB_MINOR_VERSION, reserved1 = [0, 0],
     slots = [\<lparr>priority = AVB_AB_MAX_PRIORITY, tries_remaining = AVB_AB_MAX_TRIES_REMAINING,
                successful_boot = 0, reserved = 0\<rparr>,
              \<lparr>priority = AVB_AB_MAX_PRIORITY - 1, tries_remaining = AVB_AB_MAX_TRIES_REMAINING,
                successful_boot = 0, reserved = 0\<rparr>],
     last_boot = 0, reserved2 = replicate 11 0, crc32 = 0\<rparr>"

section \<open>The platform\<close>

datatype AvbIOResult =
    AVB_IO_RESULT_OK
  | AVB_IO_RESULT_ERROR_OOM
  | AVB_IO_RESULT_ERROR_IO
  | AVB_IO_RESULT_ERROR_NO_SUCH_PARTITION
  | AVB_IO_RESULT_ERROR_RANGE_OUTSIDE_PARTITION
  | AVB_IO_RESULT_ERROR_NO_SUCH_VALUE
  | AVB_IO_RESULT_ERROR_INVALID_VALUE_SIZE
  | AVB_IO_RESULT_ERROR_INSUFFICIENT_SPACE

datatype AvbSlotVerifyResult =
    AVB_SLOT_VERIFY_RESULT_OK
  | AVB_SLOT_VERIFY_RESULT_ERROR_OOM
  | AVB_SLOT_VERIFY_RESULT_ERROR_IO
  | AVB_SLOT_VERIFY_RESULT_ERROR_VERIFICATION
  | AVB_SLOT_VERIFY_RESULT_ERROR_ROLLBACK_INDEX
  | AVB_SLOT_VERIFY_RESULT_ERROR_PUBLIC_KEY_REJECTED
  | AVB_SLOT_VERIFY_RESULT_ERROR_INVALID_METADATA
  | AVB_SLOT_VERIFY_RESULT_ERROR_UNSUPPORTED_VERSION
  | AVB_SLOT_VERIFY_RESULT_ERROR_INVALID_ARGUMENT

text \<open>What the flow uses of the verified data of a slot: its rollback indexes.\<close>

type_synonym slot_data = "nat \<Rightarrow> u64"

record 'm avb_ops =
  read_misc :: "'m \<Rightarrow> AvbIOResult \<times> bytes"
  write_misc :: "'m \<Rightarrow> bytes \<Rightarrow> AvbIOResult \<times> 'm"
  read_rollback_index :: "'m \<Rightarrow> nat \<Rightarrow> AvbIOResult \<times> u64"
  write_rollback_index :: "'m \<Rightarrow> nat \<Rightarrow> u64 \<Rightarrow> AvbIOResult \<times> 'm"
  slot_verify :: "'m \<Rightarrow> nat \<Rightarrow> AvbSlotVerifyResult \<times> slot_data option \<times> 'm"

definition avb_ab_data_write :: "'m avb_ops \<Rightarrow> AvbABData \<Rightarrow> 'm \<Rightarrow> AvbIOResult \<times> 'm" where
  "avb_ab_data_write ops d m =
     (case write_misc ops m (avb_ab_data_update_crc_and_byteswap d) of (io, m1) \<Rightarrow>
        (if io = AVB_IO_RESULT_ERROR_OOM then AVB_IO_RESULT_ERROR_OOM
         else if io \<noteq> AVB_IO_RESULT_OK then AVB_IO_RESULT_ERROR_IO else AVB_IO_RESULT_OK, m1))"

text \<open>\<open>old\<close> is what \<open>*data\<close> held before.\<close>

definition avb_ab_data_read :: "'m avb_ops \<Rightarrow> AvbABData \<Rightarrow> 'm \<Rightarrow> AvbIOResult \<times> AvbABData \<times> 'm" where
  "avb_ab_data_read ops old m =
     (case read_misc ops m of (io, serialized) \<Rightarrow>
        if io = AVB_IO_RESULT_ERROR_OOM then (AVB_IO_RESULT_ERROR_OOM, old, m)
        else if io \<noteq> AVB_IO_RESULT_OK \<or> length serialized \<noteq> 32 then (AVB_IO_RESULT_ERROR_IO, old, m)
        else (case avb_ab_data_verify_and_byteswap serialized of
            Some d \<Rightarrow> (AVB_IO_RESULT_OK, d, m)
          | None \<Rightarrow> (case avb_ab_data_write ops avb_ab_data_init m of (io1, m1) \<Rightarrow> (io1, avb_ab_data_init, m1))))"

section \<open>Slots\<close>

definition slot_is_bootable :: "AvbABSlotData \<Rightarrow> bool" where
  "slot_is_bootable sl = (priority sl > 0 \<and> (successful_boot sl \<noteq> 0 \<or> tries_remaining sl > 0))"

definition slot_set_unbootable :: "AvbABSlotData \<Rightarrow> AvbABSlotData" where
  "slot_set_unbootable sl = sl\<lparr>priority := 0, tries_remaining := 0, successful_boot := 0\<rparr>"

definition slot_normalize :: "AvbABSlotData \<Rightarrow> AvbABSlotData" where
  "slot_normalize sl =
     (if priority sl > 0 then
        (let s1 = (if tries_remaining sl = 0 \<and> successful_boot sl = 0 then slot_set_unbootable sl else sl)
         in if tries_remaining s1 > 0 \<and> successful_boot s1 \<noteq> 0 then slot_set_unbootable s1 else s1)
      else slot_set_unbootable sl)"

definition map_slot :: "nat \<Rightarrow> (AvbABSlotData \<Rightarrow> AvbABSlotData) \<Rightarrow> AvbABData \<Rightarrow> AvbABData" where
  "map_slot n f d = d\<lparr>slots := (slots d)[n := f (slots d ! n)]\<rparr>"

text \<open>\<open>ab_data\<close> and \<open>ab_data_orig\<close> as the function leaves them; on an error the second is not set.\<close>

definition load_metadata ::
  "'m avb_ops \<Rightarrow> AvbABData \<Rightarrow> AvbABData \<Rightarrow> 'm \<Rightarrow> AvbIOResult \<times> AvbABData \<times> AvbABData \<times> 'm" where
  "load_metadata ops old orig m =
     (case avb_ab_data_read ops old m of (io, d, m1) \<Rightarrow>
        if io \<noteq> AVB_IO_RESULT_OK then (io, d, orig, m1)
        else (AVB_IO_RESULT_OK, map_slot 1 slot_normalize (map_slot 0 slot_normalize d), d, m1))"

definition save_metadata_if_changed :: "'m avb_ops \<Rightarrow> AvbABData \<Rightarrow> AvbABData \<Rightarrow> 'm \<Rightarrow> AvbIOResult \<times> 'm" where
  "save_metadata_if_changed ops d orig m =
     (if avb_safe_memcmp (mem_bytes d) (mem_bytes orig) then avb_ab_data_write ops d m
      else (AVB_IO_RESULT_OK, m))"

section \<open>The flow\<close>

datatype AvbABFlowResult =
    AVB_AB_FLOW_RESULT_OK
  | AVB_AB_FLOW_RESULT_OK_WITH_VERIFICATION_ERROR
  | AVB_AB_FLOW_RESULT_ERROR_OOM
  | AVB_AB_FLOW_RESULT_ERROR_IO
  | AVB_AB_FLOW_RESULT_ERROR_NO_BOOTABLE_SLOTS
  | AVB_AB_FLOW_RESULT_ERROR_INVALID_ARGUMENT

record 'm flow =
  plat :: 'm
  ab_data :: AvbABData
  sdata :: "slot_data option list"
  saw_error :: bool

text \<open>One turn of the validation loop; \<open>Some ret\<close> is a jump to \<open>out\<close>.\<close>

definition verify_slot :: "'m avb_ops \<Rightarrow> bool \<Rightarrow> nat \<Rightarrow> 'm flow \<Rightarrow> AvbABFlowResult option \<times> 'm flow" where
  "verify_slot ops allow n s =
     (if slot_is_bootable (slots (ab_data s) ! n) then
        (case slot_verify ops (plat s) n of (vr, sd, m1) \<Rightarrow>
          (let s1 = s\<lparr>plat := m1, sdata := (sdata s)[n := sd]\<rparr>;
               unboot = (None, s1\<lparr>ab_data := map_slot n slot_set_unbootable (ab_data s1)\<rparr>);
               tolerate = (if allow then (None, s1\<lparr>saw_error := True\<rparr>) else unboot)
           in case vr of
                AVB_SLOT_VERIFY_RESULT_ERROR_OOM \<Rightarrow> (Some AVB_AB_FLOW_RESULT_ERROR_OOM, s1)
              | AVB_SLOT_VERIFY_RESULT_ERROR_IO \<Rightarrow> (Some AVB_AB_FLOW_RESULT_ERROR_IO, s1)
              | AVB_SLOT_VERIFY_RESULT_OK \<Rightarrow> (None, s1)
              | AVB_SLOT_VERIFY_RESULT_ERROR_INVALID_METADATA \<Rightarrow> unboot
              | AVB_SLOT_VERIFY_RESULT_ERROR_UNSUPPORTED_VERSION \<Rightarrow> unboot
              | AVB_SLOT_VERIFY_RESULT_ERROR_VERIFICATION \<Rightarrow> tolerate
              | AVB_SLOT_VERIFY_RESULT_ERROR_ROLLBACK_INDEX \<Rightarrow> tolerate
              | AVB_SLOT_VERIFY_RESULT_ERROR_PUBLIC_KEY_REJECTED \<Rightarrow> tolerate
              | AVB_SLOT_VERIFY_RESULT_ERROR_INVALID_ARGUMENT \<Rightarrow> (Some AVB_AB_FLOW_RESULT_ERROR_INVALID_ARGUMENT, s1)))
      else (None, s))"

definition select_slot :: "AvbABData \<Rightarrow> nat option" where
  "select_slot d =
     (let s0 = slots d ! 0; s1 = slots d ! 1 in
      if slot_is_bootable s0 \<and> slot_is_bootable s1 then Some (if priority s1 > priority s0 then 1 else 0)
      else if slot_is_bootable s0 then Some 0
      else if slot_is_bootable s1 then Some 1
      else None)"

definition rollback_value :: "slot_data option list \<Rightarrow> nat \<Rightarrow> u64" where
  "rollback_value sd n = (case (sd ! 0, sd ! 1) of
     (Some a, Some b) \<Rightarrow> (if a n < b n then a n else b n)
   | (Some a, None) \<Rightarrow> a n
   | (None, Some b) \<Rightarrow> b n
   | (None, None) \<Rightarrow> 0)"

definition io_failure :: "AvbIOResult \<Rightarrow> AvbABFlowResult" where
  "io_failure io = (if io = AVB_IO_RESULT_ERROR_OOM then AVB_AB_FLOW_RESULT_ERROR_OOM else AVB_AB_FLOW_RESULT_ERROR_IO)"

fun update_rollback :: "'m avb_ops \<Rightarrow> slot_data option list \<Rightarrow> nat list \<Rightarrow> 'm \<Rightarrow> AvbABFlowResult option \<times> 'm" where
  "update_rollback ops sd [] m = (None, m)"
| "update_rollback ops sd (n # ns) m =
     (let v = rollback_value sd n in
      if v \<noteq> 0 then
        (case read_rollback_index ops m n of (io, cur) \<Rightarrow>
           if io \<noteq> AVB_IO_RESULT_OK then (Some (io_failure io), m)
           else if cur \<noteq> v then
             (case write_rollback_index ops m n v of (io1, m1) \<Rightarrow>
                if io1 \<noteq> AVB_IO_RESULT_OK then (Some (io_failure io1), m1) else update_rollback ops sd ns m1)
           else update_rollback ops sd ns m)
      else update_rollback ops sd ns m)"

definition spend_try :: "AvbABSlotData \<Rightarrow> AvbABSlotData" where
  "spend_try sl = (if successful_boot sl = 0 \<and> tries_remaining sl > 0
     then sl\<lparr>tries_remaining := tries_remaining sl - 1\<rparr> else sl)"

text \<open>Everything between loading and the label \<open>out\<close>: the result, the state and the slot whose
  data is handed out.  A failing \<open>avb_assert\<close> is \<open>Fault\<close>.\<close>

definition flow_body ::
  "'m avb_ops \<Rightarrow> bool \<Rightarrow> 'm flow \<Rightarrow> (AvbABFlowResult \<times> 'm flow \<times> nat option) outcome" where
  "flow_body ops allow s =
     (case verify_slot ops allow 0 s of (Some r, s1) \<Rightarrow> Done (r, s1, None)
      | (None, s1) \<Rightarrow>
        (case verify_slot ops allow 1 s1 of (Some r, s2) \<Rightarrow> Done (r, s2, None)
         | (None, s2) \<Rightarrow>
           (case select_slot (ab_data s2) of
              None \<Rightarrow> Done (AVB_AB_FLOW_RESULT_ERROR_NO_BOOTABLE_SLOTS, s2, None)
            | Some i \<Rightarrow>
              (case update_rollback ops (sdata s2) [0..<32] (plat s2) of
                 (Some r, m3) \<Rightarrow> Done (r, s2\<lparr>plat := m3\<rparr>, None)
               | (None, m3) \<Rightarrow>
                 if sdata s2 ! i = None then Fault
                 else Done (if saw_error s2 then AVB_AB_FLOW_RESULT_OK_WITH_VERIFICATION_ERROR else AVB_AB_FLOW_RESULT_OK,
                            s2\<lparr>plat := m3, ab_data := map_slot i spend_try (ab_data s2)\<rparr>, Some i)))))"

definition avb_ab_flow ::
  "'m avb_ops \<Rightarrow> bool \<Rightarrow> AvbABData \<Rightarrow> AvbABData \<Rightarrow> 'm \<Rightarrow> (AvbABFlowResult \<times> nat option \<times> 'm) outcome" where
  "avb_ab_flow ops allow junk junk_orig m =
     (case load_metadata ops junk junk_orig m of (io, d, orig, m1) \<Rightarrow>
       (let s = \<lparr>plat = m1, ab_data = d, sdata = [None, None], saw_error = False\<rparr> in
        bind_outcome (if io \<noteq> AVB_IO_RESULT_OK then Done (io_failure io, s, None) else flow_body ops allow s)
         (\<lambda>(ret, s1, sel).
           case save_metadata_if_changed ops (ab_data s1) orig (plat s1) of (io1, m2) \<Rightarrow>
             if io1 \<noteq> AVB_IO_RESULT_OK then Done (io_failure io1, None, m2) else Done (ret, sel, m2))))"

section \<open>Marking slots\<close>

definition with_metadata ::
  "'m avb_ops \<Rightarrow> (AvbABData \<Rightarrow> AvbABData) \<Rightarrow> AvbABData \<Rightarrow> AvbABData \<Rightarrow> 'm \<Rightarrow> AvbIOResult \<times> 'm" where
  "with_metadata ops f junk junk_orig m =
     (case load_metadata ops junk junk_orig m of (io, d, orig, m1) \<Rightarrow>
        if io \<noteq> AVB_IO_RESULT_OK then (io, m1) else save_metadata_if_changed ops (f d) orig m1)"

definition activate :: "nat \<Rightarrow> AvbABData \<Rightarrow> AvbABData" where
  "activate n d =
     (let d1 = map_slot n (\<lambda>sl. sl\<lparr>priority := AVB_AB_MAX_PRIORITY,
                 tries_remaining := AVB_AB_MAX_TRIES_REMAINING, successful_boot := 0\<rparr>) d
      in if priority (slots d1 ! (1 - n)) = AVB_AB_MAX_PRIORITY
         then map_slot (1 - n) (\<lambda>sl. sl\<lparr>priority := AVB_AB_MAX_PRIORITY - 1\<rparr>) d1 else d1)"

definition mark_successful :: "nat \<Rightarrow> AvbABData \<Rightarrow> AvbABData" where
  "mark_successful n d = (if \<not> slot_is_bootable (slots d ! n) then d
     else map_slot n (\<lambda>sl. sl\<lparr>tries_remaining := 0, successful_boot := 1\<rparr>) d)"

definition avb_ab_mark_slot_active ::
  "'m avb_ops \<Rightarrow> nat \<Rightarrow> AvbABData \<Rightarrow> AvbABData \<Rightarrow> 'm \<Rightarrow> (AvbIOResult \<times> 'm) outcome" where
  "avb_ab_mark_slot_active ops n junk junk_orig m =
     (if n < 2 then Done (with_metadata ops (activate n) junk junk_orig m) else Fault)"

definition avb_ab_mark_slot_unbootable ::
  "'m avb_ops \<Rightarrow> nat \<Rightarrow> AvbABData \<Rightarrow> AvbABData \<Rightarrow> 'm \<Rightarrow> (AvbIOResult \<times> 'm) outcome" where
  "avb_ab_mark_slot_unbootable ops n junk junk_orig m =
     (if n < 2 then Done (with_metadata ops (map_slot n slot_set_unbootable) junk junk_orig m) else Fault)"

definition avb_ab_mark_slot_successful ::
  "'m avb_ops \<Rightarrow> nat \<Rightarrow> AvbABData \<Rightarrow> AvbABData \<Rightarrow> 'm \<Rightarrow> (AvbIOResult \<times> 'm) outcome" where
  "avb_ab_mark_slot_successful ops n junk junk_orig m =
     (if n < 2 then Done (with_metadata ops (mark_successful n) junk junk_orig m) else Fault)"

fun avb_ab_flow_result_to_string :: "AvbABFlowResult \<Rightarrow> string" where
  "avb_ab_flow_result_to_string AVB_AB_FLOW_RESULT_OK = ''OK''"
| "avb_ab_flow_result_to_string AVB_AB_FLOW_RESULT_OK_WITH_VERIFICATION_ERROR = ''OK_WITH_VERIFICATION_ERROR''"
| "avb_ab_flow_result_to_string AVB_AB_FLOW_RESULT_ERROR_OOM = ''ERROR_OOM''"
| "avb_ab_flow_result_to_string AVB_AB_FLOW_RESULT_ERROR_IO = ''ERROR_IO''"
| "avb_ab_flow_result_to_string AVB_AB_FLOW_RESULT_ERROR_NO_BOOTABLE_SLOTS = ''ERROR_NO_BOOTABLE_SLOTS''"
| "avb_ab_flow_result_to_string AVB_AB_FLOW_RESULT_ERROR_INVALID_ARGUMENT = ''ERROR_INVALID_ARGUMENT''"

section \<open>Storing and loading\<close>

lemma memcmp_acc_zero:
  "length a = length b \<Longrightarrow> memcmp_acc r a b = 0 \<longleftrightarrow> r = 0 \<and> a = b"
proof (induction r a b rule: memcmp_acc.induct)
  case (1 r x xs y ys)
  have "r OR (x XOR y) = 0 \<longleftrightarrow> r = 0 \<and> x = y"
    using xor_right_cancel [of x y y] by (simp add: or_eq_0_iff)
  with 1 show ?case by auto
qed simp_all

lemma avb_safe_memcmp_neq: "length a = length b \<Longrightarrow> avb_safe_memcmp a b \<longleftrightarrow> a \<noteq> b"
  by (simp add: avb_safe_memcmp_def memcmp_acc_zero)

definition ab_wf :: "AvbABData \<Rightarrow> bool" where
  "ab_wf d \<longleftrightarrow> magic d = AVB_AB_MAGIC \<and> version_major d \<le> AVB_AB_MAJOR_VERSION \<and>
     length (reserved1 d) = 2 \<and> length (slots d) = 2 \<and> length (reserved2 d) = 11"

definition sealed :: "AvbABData \<Rightarrow> AvbABData" where
  "sealed d = d\<lparr>crc32 := avb_crc32 (head_bytes d)\<rparr>"

lemma ab_wf_cases:
  assumes "ab_wf d"
  obtains a b s0 s1 r where "reserved1 d = [a, b]" "slots d = [s0, s1]" "reserved2 d = r" "length r = 11"
    "magic d = [0, 65, 66, 48]"
  using assms by (auto simp: ab_wf_def AVB_AB_MAGIC_def length_Suc_conv numeral_eq_Suc)

lemma head_bytes_crc [simp]: "head_bytes (d\<lparr>crc32 := v\<rparr>) = head_bytes d"
  by (simp add: head_bytes_def)

lemma length_head_bytes: "ab_wf d \<Longrightarrow> length (head_bytes d) = 28"
  by (elim ab_wf_cases) (simp add: head_bytes_def slot_bytes_def)

lemma slot_of_slot_bytes: "slot_of_bytes (slot_bytes sl) = sl"
  by (simp add: slot_of_bytes_def slot_bytes_def)

lemma data_of_head_bytes:
  assumes "ab_wf d"
  shows "data_of_bytes (head_bytes d @ put32be c) = d\<lparr>crc32 := c\<rparr>"
proof -
  obtain a b s0 s1 r where d: "reserved1 d = [a, b]" "slots d = [s0, s1]" "reserved2 d = r" "length r = 11"
    "magic d = [0, 65, 66, 48]" using ab_wf_cases [OF assms] by blast
  have "get32be (put32be c) = Some c" using get32be_put32be [of c "[]"] by simp
  moreover have "slot_of_bytes [priority sl, tries_remaining sl, successful_boot sl, reserved sl] = sl" for sl
    by (simp add: slot_of_bytes_def)
  ultimately show ?thesis
    using d by (intro AvbABData.equality) (simp_all add: data_of_bytes_def head_bytes_def slot_bytes_def)
qed

lemma head_bytes_inject:
  assumes "ab_wf d" "ab_wf e"
  shows "head_bytes d = head_bytes e \<longleftrightarrow> d\<lparr>crc32 := 0\<rparr> = e\<lparr>crc32 := 0\<rparr>"
  by (metis assms data_of_head_bytes head_bytes_crc)

lemma mem_bytes_eq_head: "ab_wf d \<Longrightarrow> ab_wf e \<Longrightarrow> mem_bytes d = mem_bytes e \<Longrightarrow> head_bytes d = head_bytes e"
  using length_head_bytes [of d] length_head_bytes [of e] by (simp add: mem_bytes_def)

lemma verify_update: "ab_wf d \<Longrightarrow>
  avb_ab_data_verify_and_byteswap (avb_ab_data_update_crc_and_byteswap d) = Some (sealed d)"
proof -
  assume w: "ab_wf d"
  have m: "take 4 (head_bytes d @ put32be c) = AVB_AB_MAGIC" for c
    using w by (auto simp: ab_wf_def AVB_AB_MAGIC_def head_bytes_def)
  show ?thesis
    unfolding avb_ab_data_verify_and_byteswap_def avb_ab_data_update_crc_and_byteswap_def m Let_def
    using w by (simp add: avb_safe_memcmp_neq data_of_head_bytes [OF w] sealed_def ab_wf_def not_less)
qed

definition stored :: "'m avb_ops \<Rightarrow> 'm \<Rightarrow> AvbABData \<Rightarrow> bool" where
  "stored ops m d \<longleftrightarrow> ab_wf d \<and> read_misc ops m = (AVB_IO_RESULT_OK, avb_ab_data_update_crc_and_byteswap d)"

definition persistent :: "'m avb_ops \<Rightarrow> bool" where
  "persistent ops \<longleftrightarrow> (\<forall>m bs m'. write_misc ops m bs = (AVB_IO_RESULT_OK, m') \<longrightarrow> read_misc ops m' = (AVB_IO_RESULT_OK, bs))"

lemma read_stored:
  assumes "stored ops m d"
  shows "avb_ab_data_read ops old m = (AVB_IO_RESULT_OK, sealed d, m)"
proof -
  have "ab_wf d" using assms by (simp add: stored_def)
  then have "length (avb_ab_data_update_crc_and_byteswap d) = 32"
    by (simp add: avb_ab_data_update_crc_and_byteswap_def length_head_bytes)
  with assms verify_update [OF \<open>ab_wf d\<close>] show ?thesis
    by (simp add: avb_ab_data_read_def stored_def)
qed

lemma write_stores:
  assumes "persistent ops" and "ab_wf d" and "avb_ab_data_write ops d m = (AVB_IO_RESULT_OK, m')"
  shows "stored ops m' d"
  using assms by (auto simp: avb_ab_data_write_def persistent_def stored_def split: prod.splits if_splits)

section \<open>Normal forms\<close>

text \<open>The three states a slot can be in after loading.\<close>

definition slot_canonical :: "AvbABSlotData \<Rightarrow> bool" where
  "slot_canonical sl \<longleftrightarrow>
     priority sl = 0 \<and> tries_remaining sl = 0 \<and> successful_boot sl = 0 \<or>
     priority sl > 0 \<and> tries_remaining sl > 0 \<and> successful_boot sl = 0 \<or>
     priority sl > 0 \<and> tries_remaining sl = 0 \<and> successful_boot sl \<noteq> 0"

lemma word_pos_iff: "(0 :: u8) < w \<longleftrightarrow> w \<noteq> 0"
  by (simp add: word_gt_0)

lemma slot_normalize_canonical: "slot_canonical (slot_normalize sl)"
  by (auto simp: slot_normalize_def slot_canonical_def slot_set_unbootable_def Let_def word_pos_iff)

lemma slot_normalize_id: "slot_canonical sl \<Longrightarrow> slot_normalize sl = sl"
  by (auto simp: slot_normalize_def slot_canonical_def slot_set_unbootable_def Let_def word_pos_iff)

lemma slot_canonical_bootable: "slot_canonical sl \<Longrightarrow> slot_is_bootable sl \<longleftrightarrow> priority sl \<noteq> 0"
  by (auto simp: slot_canonical_def slot_is_bootable_def word_pos_iff)

definition normalized :: "AvbABData \<Rightarrow> AvbABData" where
  "normalized d = map_slot 1 slot_normalize (map_slot 0 slot_normalize d)"

lemma map_slot_wf [simp]: "ab_wf (map_slot n f d) = ab_wf d" "ab_wf (sealed d) = ab_wf d"
  by (simp_all add: map_slot_def ab_wf_def sealed_def)

lemma map_slot_nth: "n < length (slots d) \<Longrightarrow> slots (map_slot n f d) ! k = (if k = n then f (slots d ! n) else slots d ! k)"
  by (simp add: map_slot_def nth_list_update)

lemma length_map_slot [simp]: "length (slots (map_slot n f d)) = length (slots d)"
  by (simp add: map_slot_def)

lemma normalized_wf [simp]: "ab_wf (normalized d) = ab_wf d"
  by (simp add: normalized_def)

lemma load_stored:
  assumes "stored ops m d"
  shows "load_metadata ops junk junk_orig m = (AVB_IO_RESULT_OK, normalized (sealed d), sealed d, m)"
  by (simp add: load_metadata_def read_stored [OF assms] normalized_def)

text \<open>Saving leaves the new metadata stored, written or not.\<close>

lemma save_stored:
  assumes "persistent ops" and "stored ops m d" and "ab_wf e"
    and "save_metadata_if_changed ops e (sealed d) m = (AVB_IO_RESULT_OK, m')"
  shows "stored ops m' e"
proof (cases "mem_bytes e = mem_bytes (sealed d)")
  case True
  have w: "ab_wf d" using assms(2) by (simp add: stored_def)
  then have "ab_wf (sealed d)" by simp
  then have "head_bytes e = head_bytes d"
    using mem_bytes_eq_head [OF assms(3) _ True] by (simp add: sealed_def)
  moreover have "m' = m" using assms(4) True by (simp add: save_metadata_if_changed_def avb_safe_memcmp_neq)
  ultimately show ?thesis using assms(2,3)
    by (simp add: stored_def avb_ab_data_update_crc_and_byteswap_def)
next
  case False
  have w: "ab_wf d" using assms(2) by (simp add: stored_def)
  have "length (mem_bytes e) = length (mem_bytes (sealed d))"
    using length_head_bytes [OF assms(3)] length_head_bytes [OF w] by (simp add: mem_bytes_def sealed_def)
  with False have "avb_ab_data_write ops e m = (AVB_IO_RESULT_OK, m')"
    using assms(4) by (simp add: save_metadata_if_changed_def avb_safe_memcmp_neq)
  then show ?thesis by (rule write_stores [OF assms(1,3)])
qed

section \<open>What a boot does to the metadata\<close>

text \<open>
  The specification of a boot on the metadata alone, given the result \<open>vr n\<close> of verifying slot
  \<open>n\<close>: slots that fail are made unbootable, the bootable slot of highest priority is chosen (the
  first on a tie), and it pays with one try unless it is known to be good.
\<close>

definition passes :: "bool \<Rightarrow> AvbSlotVerifyResult \<Rightarrow> bool" where
  "passes allow r \<longleftrightarrow> r = AVB_SLOT_VERIFY_RESULT_OK \<or>
     allow \<and> r \<in> {AVB_SLOT_VERIFY_RESULT_ERROR_VERIFICATION, AVB_SLOT_VERIFY_RESULT_ERROR_ROLLBACK_INDEX,
                  AVB_SLOT_VERIFY_RESULT_ERROR_PUBLIC_KEY_REJECTED}"

definition fatal :: "AvbSlotVerifyResult \<Rightarrow> bool" where
  "fatal r \<longleftrightarrow> r \<in> {AVB_SLOT_VERIFY_RESULT_ERROR_OOM, AVB_SLOT_VERIFY_RESULT_ERROR_IO,
     AVB_SLOT_VERIFY_RESULT_ERROR_INVALID_ARGUMENT}"

definition drop_failing :: "(nat \<Rightarrow> AvbSlotVerifyResult) \<Rightarrow> bool \<Rightarrow> nat \<Rightarrow> AvbABData \<Rightarrow> AvbABData" where
  "drop_failing vr allow n d = (if slot_is_bootable (slots d ! n) \<and> \<not> passes allow (vr n)
     then map_slot n slot_set_unbootable d else d)"

definition boot_next :: "(nat \<Rightarrow> AvbSlotVerifyResult) \<Rightarrow> bool \<Rightarrow> AvbABData \<Rightarrow> nat option \<times> AvbABData" where
  "boot_next vr allow d =
     (let f = drop_failing vr allow 1 (drop_failing vr allow 0 (normalized (sealed d)))
      in case select_slot f of None \<Rightarrow> (None, f) | Some i \<Rightarrow> (Some i, map_slot i spend_try f))"

text \<open>What is documented of \<open>avb_slot_verify\<close>: data is handed out when the slot passes, and the
  \<open>misc\<close> partition is left alone.\<close>

definition verifier :: "'m avb_ops \<Rightarrow> (nat \<Rightarrow> AvbSlotVerifyResult) \<Rightarrow> bool \<Rightarrow> bool" where
  "verifier ops vr allow \<longleftrightarrow> (\<forall>m n. \<exists>sd m'. slot_verify ops m n = (vr n, sd, m') \<and>
     read_misc ops m' = read_misc ops m \<and> (passes allow (vr n) \<longrightarrow> sd \<noteq> None))"

definition works :: "'m avb_ops \<Rightarrow> bool" where
  "works ops \<longleftrightarrow> persistent ops \<and> (\<forall>m bs. fst (write_misc ops m bs) = AVB_IO_RESULT_OK) \<and>
     (\<forall>m n. fst (read_rollback_index ops m n) = AVB_IO_RESULT_OK) \<and>
     (\<forall>m n v. \<exists>m'. write_rollback_index ops m n v = (AVB_IO_RESULT_OK, m') \<and> read_misc ops m' = read_misc ops m)"

lemma drop_failing_wf [simp]: "ab_wf (drop_failing vr allow n d) = ab_wf d"
  by (simp add: drop_failing_def)

lemma verify_slot_spec:
  assumes "verifier ops vr allow" and "\<not> fatal (vr n)" and "n < 2"
    and "length (slots (ab_data s)) = 2" and "length (sdata s) = 2"
  shows "\<exists>s'. verify_slot ops allow n s = (None, s') \<and> ab_data s' = drop_failing vr allow n (ab_data s) \<and>
    read_misc ops (plat s') = read_misc ops (plat s) \<and> length (sdata s') = 2 \<and>
    (\<forall>k. k \<noteq> n \<longrightarrow> sdata s' ! k = sdata s ! k) \<and>
    (slot_is_bootable (slots (ab_data s') ! n) \<longrightarrow> sdata s' ! n \<noteq> None)"
proof (cases "slot_is_bootable (slots (ab_data s) ! n)")
  case False
  then show ?thesis using assms(5) by (simp add: verify_slot_def drop_failing_def)
next
  case True
  from assms(1) obtain sd m' where v: "slot_verify ops (plat s) n = (vr n, sd, m')"
      "read_misc ops m' = read_misc ops (plat s)" "passes allow (vr n) \<Longrightarrow> sd \<noteq> None"
    unfolding verifier_def by blast
  have nb: "\<not> slot_is_bootable (slot_set_unbootable sl)" for sl
    by (simp add: slot_is_bootable_def slot_set_unbootable_def)
  show ?thesis
  proof (cases "passes allow (vr n)")
    case True
    with \<open>slot_is_bootable (slots (ab_data s) ! n)\<close> v assms(2-5) show ?thesis
      by (cases "vr n") (auto simp: verify_slot_def drop_failing_def passes_def fatal_def)
  next
    case False
    with \<open>slot_is_bootable (slots (ab_data s) ! n)\<close> v assms(2-5) nb show ?thesis
      by (cases "vr n") (auto simp: verify_slot_def drop_failing_def passes_def fatal_def map_slot_nth)
  qed
qed

lemma update_rollback_ok:
  assumes "works ops"
  shows "\<exists>m'. update_rollback ops sd ns m = (None, m') \<and> read_misc ops m' = read_misc ops m"
proof (induction ns arbitrary: m)
  case (Cons n ns)
  obtain cur where c: "read_rollback_index ops m n = (AVB_IO_RESULT_OK, cur)"
    using assms by (metis works_def prod.collapse)
  obtain m1 where w: "write_rollback_index ops m n (rollback_value sd n) = (AVB_IO_RESULT_OK, m1)"
    "read_misc ops m1 = read_misc ops m" using assms unfolding works_def by blast
  then show ?case using Cons.IH [of m] Cons.IH [of m1] c by (auto simp: Let_def)
qed simp

lemma select_slot_bootable: "select_slot d = Some i \<Longrightarrow> i < 2 \<and> slot_is_bootable (slots d ! i)"
  by (auto simp: select_slot_def Let_def split: if_splits)

lemma drop_failing_other:
  "k \<noteq> n \<Longrightarrow> n < length (slots d) \<Longrightarrow> slots (drop_failing vr allow n d) ! k = slots d ! k"
  by (simp add: drop_failing_def map_slot_nth)

lemma save_works:
  "works ops \<Longrightarrow> \<exists>m'. save_metadata_if_changed ops d orig m = (AVB_IO_RESULT_OK, m')"
proof -
  assume w: "works ops"
  obtain m1 where "write_misc ops m (avb_ab_data_update_crc_and_byteswap d) = (AVB_IO_RESULT_OK, m1)"
    using w unfolding works_def by (metis prod.collapse)
  then show ?thesis by (simp add: save_metadata_if_changed_def avb_ab_data_write_def)
qed

lemma flow_body_spec:
  fixes ops :: "'m avb_ops" and m :: 'm
  assumes "verifier ops vr allow" and "\<not> fatal (vr 0)" "\<not> fatal (vr 1)" and "works ops"
    and "ab_wf d"
  defines "s \<equiv> \<lparr>plat = m, ab_data = d, sdata = [None, None], saw_error = False\<rparr>"
    and "f \<equiv> drop_failing vr allow 1 (drop_failing vr allow 0 d)"
  shows "\<exists>ret s'. flow_body ops allow s = Done (ret, s', select_slot f) \<and>
    ab_data s' = (case select_slot f of None \<Rightarrow> f | Some i \<Rightarrow> map_slot i spend_try f) \<and>
    read_misc ops (plat s') = read_misc ops m \<and>
    (select_slot f = None \<longleftrightarrow> ret = AVB_AB_FLOW_RESULT_ERROR_NO_BOOTABLE_SLOTS)"
proof -
  have l: "length (slots d) = 2" using assms(5) by (simp add: ab_wf_def)
  have "n < 2 \<Longrightarrow> length (slots (drop_failing vr allow n e)) = length (slots e)" for n e
    by (simp add: drop_failing_def)
  then have l1: "length (slots (drop_failing vr allow 0 d)) = 2" using l by simp
  obtain s1 where v0: "verify_slot ops allow 0 s = (None, s1)" "ab_data s1 = drop_failing vr allow 0 d"
      "read_misc ops (plat s1) = read_misc ops m" "length (sdata s1) = 2"
      "slot_is_bootable (slots (ab_data s1) ! 0) \<longrightarrow> sdata s1 ! 0 \<noteq> None"
    using verify_slot_spec [OF assms(1,2), of s] l by (auto simp: s_def)
  obtain s2 where v1: "verify_slot ops allow 1 s1 = (None, s2)" "ab_data s2 = f"
      "read_misc ops (plat s2) = read_misc ops m" "sdata s2 ! 0 = sdata s1 ! 0"
      "slot_is_bootable (slots (ab_data s2) ! 1) \<longrightarrow> sdata s2 ! 1 \<noteq> None"
    using verify_slot_spec [OF assms(1,3), of s1] l1 v0(2-4) by (auto simp: f_def)
  have "slots f ! 0 = slots (ab_data s1) ! 0"
    using drop_failing_other [of 0 1 "drop_failing vr allow 0 d"] l1 v0(2) by (simp add: f_def)
  then have sd: "sdata s2 ! i \<noteq> None" if "select_slot f = Some i" for i
    using select_slot_bootable [OF that] v0(5) v1(2,4,5) less_2_cases [of i] by auto
  obtain m3 where "update_rollback ops (sdata s2) [0..<32] (plat s2) = (None, m3)" "read_misc ops m3 = read_misc ops m"
    using update_rollback_ok [OF assms(4)] v1(3) by metis
  with v0(1) v1(1-3) sd show ?thesis
    by (cases "select_slot f") (auto simp: flow_body_def)
qed

lemma flow_refines:
  assumes "works ops" and "verifier ops vr allow" and "\<not> fatal (vr 0)" "\<not> fatal (vr 1)"
    and "stored ops m d"
  shows "\<exists>ret m'. avb_ab_flow ops allow junk junk_orig m = Done (ret, fst (boot_next vr allow d), m') \<and>
    stored ops m' (snd (boot_next vr allow d)) \<and>
    (fst (boot_next vr allow d) = None \<longleftrightarrow> ret = AVB_AB_FLOW_RESULT_ERROR_NO_BOOTABLE_SLOTS)"
proof -
  define e where "e = normalized (sealed d)"
  define f where "f = drop_failing vr allow 1 (drop_failing vr allow 0 e)"
  have w: "ab_wf d" "ab_wf e" "ab_wf f" using assms(5) by (simp_all add: stored_def e_def f_def)
  let ?s = "\<lparr>plat = m, ab_data = e, sdata = [None, None], saw_error = False\<rparr>"
  obtain ret s' where b: "flow_body ops allow ?s = Done (ret, s', select_slot f)"
      "ab_data s' = (case select_slot f of None \<Rightarrow> f | Some i \<Rightarrow> map_slot i spend_try f)"
      "read_misc ops (plat s') = read_misc ops m"
      "select_slot f = None \<longleftrightarrow> ret = AVB_AB_FLOW_RESULT_ERROR_NO_BOOTABLE_SLOTS"
    using flow_body_spec [OF assms(2-4,1) w(2), of m, folded f_def]
    by (elim exE conjE) (rule that; assumption)
  have n: "boot_next vr allow d = (select_slot f, ab_data s')"
    unfolding b(2) by (auto simp: boot_next_def f_def e_def Let_def split: option.split)
  have st: "stored ops (plat s') d" using assms(5) b(3) by (simp add: stored_def)
  have wf: "ab_wf (ab_data s')" unfolding b(2) using w(3) by (simp split: option.split)
  obtain m' where sv: "save_metadata_if_changed ops (ab_data s') (sealed d) (plat s') = (AVB_IO_RESULT_OK, m')"
    using save_works [OF assms(1)] by blast
  have "stored ops m' (ab_data s')"
    using save_stored [OF _ st wf sv] assms(1) by (simp add: works_def)
  moreover have "avb_ab_flow ops allow junk junk_orig m = Done (ret, select_slot f, m')"
    using b(1) sv by (simp add: avb_ab_flow_def load_stored [OF assms(5)] e_def [symmetric])
  ultimately show ?thesis using b(4) n by auto
qed

section \<open>The chosen slot\<close>

lemma sealed_slots [simp]: "slots (sealed d) = slots d"
  by (simp add: sealed_def)

lemma normalized_nth:
  "ab_wf d \<Longrightarrow> k < 2 \<Longrightarrow> slots (normalized d) ! k = slot_normalize (slots d ! k)"
  by (auto simp: normalized_def map_slot_nth ab_wf_def less_2_cases_iff)

lemma drop_failing_nth:
  assumes "length (slots d) = 2" and "k < 2"
  shows "slots (drop_failing vr allow 1 (drop_failing vr allow 0 d)) ! k =
    (if slot_is_bootable (slots d ! k) \<and> \<not> passes allow (vr k) then slot_set_unbootable (slots d ! k) else slots d ! k)"
  using assms by (auto simp: drop_failing_def map_slot_nth less_2_cases_iff)

lemma unbootable_facts [simp]:
  "\<not> slot_is_bootable (slot_set_unbootable sl)" "tries_remaining (slot_set_unbootable sl) = 0"
  "slot_canonical (slot_set_unbootable sl)"
  by (simp_all add: slot_is_bootable_def slot_set_unbootable_def slot_canonical_def)

lemma boot_next_slots:
  assumes "ab_wf d" and "boot_next vr allow d = (Some i, d')" and "k < 2"
  defines "f \<equiv> drop_failing vr allow 1 (drop_failing vr allow 0 (normalized (sealed d)))"
  shows "i < 2" "slot_is_bootable (slots (normalized d) ! i)" "passes allow (vr i)" "ab_wf d'"
    "slots d' ! k = (if k = i then spend_try (slots (normalized d) ! i)
       else if slot_is_bootable (slots (normalized d) ! k) \<and> \<not> passes allow (vr k)
         then slot_set_unbootable (slots (normalized d) ! k) else slots (normalized d) ! k)"
    "k \<noteq> i \<Longrightarrow> slot_is_bootable (slots (normalized d) ! k) \<Longrightarrow> passes allow (vr k) \<Longrightarrow>
       priority (slots (normalized d) ! k) \<le> priority (slots (normalized d) ! i)"
proof -
  have w: "ab_wf f" using assms(1) by (simp add: f_def)
  have sel: "select_slot f = Some i" and d': "d' = map_slot i spend_try f"
    using assms(2) by (auto simp: boot_next_def Let_def f_def split: option.splits)
  have e: "slots (normalized (sealed d)) ! j = slots (normalized d) ! j" if "j < 2" for j
    using that assms(1) normalized_nth [of d j] normalized_nth [of "sealed d" j] by simp
  have l: "length (slots f) = 2" "length (slots (normalized (sealed d))) = 2"
    using w assms(1) by (simp_all add: ab_wf_def normalized_def)
  have f: "slots f ! j = (if slot_is_bootable (slots (normalized d) ! j) \<and> \<not> passes allow (vr j)
      then slot_set_unbootable (slots (normalized d) ! j) else slots (normalized d) ! j)" if "j < 2" for j
    using drop_failing_nth [OF l(2) that] e [OF that] by (simp add: f_def)
  have i: "i < 2" "slot_is_bootable (slots f ! i)" using select_slot_bootable [OF sel] by auto
  show "i < 2" by (rule i)
  show b: "slot_is_bootable (slots (normalized d) ! i)" "passes allow (vr i)"
    using i f [OF i(1)] by (auto split: if_splits)
  show "ab_wf d'" using w d' by simp
  show "slots d' ! k = (if k = i then spend_try (slots (normalized d) ! i)
       else if slot_is_bootable (slots (normalized d) ! k) \<and> \<not> passes allow (vr k)
         then slot_set_unbootable (slots (normalized d) ! k) else slots (normalized d) ! k)"
    using b f [OF i(1)] f [OF assms(3)] i(1) l(1) by (simp add: d' map_slot_nth)
  show "priority (slots (normalized d) ! k) \<le> priority (slots (normalized d) ! i)"
    if "k \<noteq> i" "slot_is_bootable (slots (normalized d) ! k)" "passes allow (vr k)"
  proof -
    have "slots f ! k = slots (normalized d) ! k" "slots f ! i = slots (normalized d) ! i"
      using that b f [OF i(1)] f [OF assms(3)] by auto
    then show ?thesis using sel that b assms(3) i(1)
      by (auto simp: select_slot_def Let_def less_2_cases_iff split: if_splits)
  qed
qed

section \<open>Tries\<close>

definition tries_total :: "AvbABData \<Rightarrow> nat" where
  "tries_total d = unat (tries_remaining (slots (normalized d) ! 0)) + unat (tries_remaining (slots (normalized d) ! 1))"

lemma normalize_tries_le: "unat (tries_remaining (slot_normalize sl)) \<le> unat (tries_remaining sl)"
  by (simp add: slot_normalize_def slot_set_unbootable_def Let_def)

lemma spend_try_less:
  assumes "slot_canonical sl" and "slot_is_bootable sl" and "successful_boot sl = 0"
  shows "unat (tries_remaining (spend_try sl)) < unat (tries_remaining sl)"
proof -
  have "tries_remaining sl \<noteq> 0" using assms by (auto simp: slot_is_bootable_def slot_canonical_def word_pos_iff)
  then have "unat (tries_remaining sl - 1) = unat (tries_remaining sl) - 1" "0 < unat (tries_remaining sl)"
    by (simp_all add: unat_minus_one unat_gt_0)
  then show ?thesis using assms(3) \<open>tries_remaining sl \<noteq> 0\<close> by (simp add: spend_try_def word_pos_iff)
qed

lemma boot_next_spends:
  assumes "ab_wf d" and "boot_next vr allow d = (Some i, d')" and "successful_boot (slots (normalized d) ! i) = 0"
  shows "tries_total d' < tries_total d"
proof -
  note b = boot_next_slots [OF assms(1,2)]
  have i: "i < 2" and w: "ab_wf d'" using b(1,4) [of 0] by auto
  have c: "slot_canonical (slots (normalized d) ! k)" if "k < 2" for k
    using normalized_nth [OF assms(1) that] slot_normalize_canonical by simp
  let ?t = "\<lambda>e k. unat (tries_remaining (slots (normalized e) ! k))"
  have "?t d' k \<le> unat (tries_remaining (slots d' ! k))" if "k < 2" for k
    using normalized_nth [OF w that] normalize_tries_le by simp
  moreover have "unat (tries_remaining (slots d' ! i)) < ?t d i"
    using b(5) [OF i] spend_try_less [OF c [OF i] b(2) [OF i] assms(3)] by simp
  moreover have "unat (tries_remaining (slots d' ! k)) \<le> ?t d k" if "k < 2" "k \<noteq> i" for k
    using b(5) [OF that(1)] that(2) by simp
  ultimately have "?t d' i < ?t d i" "\<And>k. k < 2 \<Longrightarrow> k \<noteq> i \<Longrightarrow> ?t d' k \<le> ?t d k"
    using i by (meson le_less_trans, meson le_trans)
  then show ?thesis using i unfolding tries_total_def less_2_cases_iff
    by (metis add_less_le_mono add_le_less_mono less_2_cases_iff One_nat_def n_not_Suc_n)
qed

lemma stored_slots: "stored ops m d \<Longrightarrow> stored ops m e \<Longrightarrow> slots d = slots e"
proof -
  assume s: "stored ops m d" "stored ops m e"
  then have "sealed d = sealed e" using read_stored [of ops m d] read_stored [of ops m e] by simp
  then show ?thesis by (metis sealed_slots)
qed

section \<open>Activating a slot\<close>

lemma with_metadata_stores:
  assumes "works ops" and "stored ops m d" and "\<And>e. ab_wf e \<Longrightarrow> ab_wf (g e)"
  shows "\<exists>m'. with_metadata ops g junk junk_orig m = (AVB_IO_RESULT_OK, m') \<and>
    stored ops m' (g (normalized (sealed d)))"
proof -
  obtain m' where sv: "save_metadata_if_changed ops (g (normalized (sealed d))) (sealed d) m = (AVB_IO_RESULT_OK, m')"
    using save_works [OF assms(1)] by blast
  have "ab_wf (g (normalized (sealed d)))" using assms(2,3) by (simp add: stored_def)
  from save_stored [OF _ assms(2) this sv] assms(1) sv show ?thesis
    by (simp add: with_metadata_def load_stored [OF assms(2)] works_def)
qed

lemma activate_wf [simp]: "ab_wf (activate n d) = ab_wf d"
  by (simp add: activate_def Let_def)

lemma activate_nth:
  assumes "ab_wf d" and "n < 2"
  shows "slots (activate n d) ! n = (slots d ! n)\<lparr>priority := 15, tries_remaining := 7, successful_boot := 0\<rparr>"
    and "slots (activate n d) ! (1 - n) = (if priority (slots d ! (1 - n)) = 15
       then (slots d ! (1 - n))\<lparr>priority := 14\<rparr> else slots d ! (1 - n))"
  using assms
  by (auto simp: activate_def Let_def map_slot_nth ab_wf_def less_2_cases_iff AVB_AB_MAX_PRIORITY_def
      AVB_AB_MAX_TRIES_REMAINING_def)

lemma boot_next_some:
  assumes "ab_wf d" and "k < 2" and "slot_is_bootable (slots (normalized d) ! k)" and "passes allow (vr k)"
  shows "\<exists>i d'. boot_next vr allow d = (Some i, d')"
proof -
  define f where "f = drop_failing vr allow 1 (drop_failing vr allow 0 (normalized (sealed d)))"
  have l: "length (slots (normalized (sealed d))) = 2" using assms(1) by (simp add: ab_wf_def normalized_def)
  have e: "slots (normalized (sealed d)) ! k = slots (normalized d) ! k"
    using assms(1,2) normalized_nth [of d k] normalized_nth [of "sealed d" k] by simp
  then have "slot_is_bootable (slots f ! k)" using drop_failing_nth [OF l assms(2)] assms(3,4) by (simp add: f_def)
  then have "select_slot f \<noteq> None" using assms(2) by (auto simp: select_slot_def Let_def less_2_cases_iff)
  then show ?thesis by (auto simp: boot_next_def Let_def f_def)
qed

lemma normalize_priority_le: "priority (slot_normalize sl) \<le> priority sl"
  by (simp add: slot_normalize_def slot_set_unbootable_def Let_def)

lemma boot_next_activated:
  assumes "ab_wf d" and "n < 2" and "priority (slots d ! (1 - n)) \<le> 15" and "passes allow (vr n)"
  shows "\<exists>d'. boot_next vr allow (activate n d) = (Some n, d')"
proof -
  let ?a = "activate n d"
  have w: "ab_wf ?a" using assms(1) by simp
  have k: "1 - n < 2" by simp
  have "slot_canonical (slots ?a ! n)" by (simp add: activate_nth(1) [OF assms(1,2)] slot_canonical_def)
  then have an: "slots (normalized ?a) ! n = slots ?a ! n"
    using normalized_nth [OF w assms(2)] slot_normalize_id by simp
  then have pn: "priority (slots (normalized ?a) ! n) = 15" and b: "slot_is_bootable (slots (normalized ?a) ! n)"
    by (simp_all add: activate_nth(1) [OF assms(1,2)] slot_is_bootable_def)
  have lt: "p \<noteq> 15 \<Longrightarrow> p \<le> 15 \<Longrightarrow> p < 15" for p :: u8 by (rule le_neq_trans)
  have "priority (slots ?a ! (1 - n)) < 15"
  proof (cases "priority (slots d ! (1 - n)) = 15")
    case True
    then show ?thesis unfolding activate_nth(2) [OF assms(1,2)] by simp
  next
    case False
    then show ?thesis unfolding activate_nth(2) [OF assms(1,2)] using lt [OF False assms(3)] by simp
  qed
  then have pk: "priority (slots (normalized ?a) ! (1 - n)) < 15"
    unfolding normalized_nth [OF w k] by (rule order_le_less_trans [OF normalize_priority_le])
  obtain i d' where i: "boot_next vr allow ?a = (Some i, d')" using boot_next_some [where vr = vr, OF w assms(2) b assms(4)] by blast
  have "i = n"
  proof (rule ccontr)
    assume ne: "i \<noteq> n"
    have "i < 2" using boot_next_slots(1) [OF w i assms(2)] .
    with ne assms(2) have "i = 1 - n" by (auto simp: less_2_cases_iff)
    moreover have "priority (slots (normalized ?a) ! n) \<le> priority (slots (normalized ?a) ! i)"
      using boot_next_slots(6) [OF w i assms(2)] ne b assms(4) by blast
    ultimately have "15 \<le> priority (slots (normalized ?a) ! (1 - n))" unfolding pn by simp
    with pk show False by (meson leD)
  qed
  with i show ?thesis by blast
qed

section \<open>A concrete platform\<close>

definition sim_ops :: "bytes avb_ops" where
  "sim_ops = \<lparr>read_misc = (\<lambda>m. (AVB_IO_RESULT_OK, m)), write_misc = (\<lambda>_ bs. (AVB_IO_RESULT_OK, bs)),
     read_rollback_index = (\<lambda>_ _. (AVB_IO_RESULT_OK, 0)), write_rollback_index = (\<lambda>m _ _. (AVB_IO_RESULT_OK, m)),
     slot_verify = (\<lambda>m n. (AVB_SLOT_VERIFY_RESULT_OK, Some (\<lambda>_. 0), m))\<rparr>"

abbreviation all_ok :: "nat \<Rightarrow> AvbSlotVerifyResult" where
  "all_ok \<equiv> (\<lambda>_. AVB_SLOT_VERIFY_RESULT_OK)"

lemma sim_ops_facts: "works sim_ops" "verifier sim_ops all_ok allow" "persistent sim_ops"
  by (simp_all add: works_def persistent_def verifier_def sim_ops_def)

lemma init_wf: "ab_wf avb_ab_data_init"
  by (simp add: ab_wf_def avb_ab_data_init_def AVB_AB_MAGIC_def)

lemma init_stored: "stored sim_ops (avb_ab_data_update_crc_and_byteswap avb_ab_data_init) avb_ab_data_init"
  by (simp add: stored_def init_wf) (simp add: sim_ops_def)

section \<open>Defects\<close>

text \<open>When loading fails, the metadata written at \<open>out\<close> is whatever the stack held.\<close>

lemma flow_writes_junk:
  assumes "read_misc ops m = (AVB_IO_RESULT_ERROR_IO, bs)" and "ab_wf junk" "ab_wf junk_orig"
    and "head_bytes junk \<noteq> head_bytes junk_orig"
    and "write_misc ops m (avb_ab_data_update_crc_and_byteswap junk) = (AVB_IO_RESULT_OK, m')"
  shows "avb_ab_flow ops allow junk junk_orig m = Done (AVB_AB_FLOW_RESULT_ERROR_IO, None, m')"
proof -
  have l: "length (mem_bytes junk) = length (mem_bytes junk_orig)"
    using length_head_bytes [OF assms(2)] length_head_bytes [OF assms(3)] by (simp add: mem_bytes_def)
  have "mem_bytes junk \<noteq> mem_bytes junk_orig" using mem_bytes_eq_head [OF assms(2,3)] assms(4) by blast
  then have c: "avb_safe_memcmp (mem_bytes junk) (mem_bytes junk_orig)" by (simp add: avb_safe_memcmp_neq [OF l])
  have load: "load_metadata ops junk junk_orig m = (AVB_IO_RESULT_ERROR_IO, junk, junk_orig, m)"
    using assms(1) by (simp add: load_metadata_def avb_ab_data_read_def)
  have "avb_ab_data_write ops junk m = (AVB_IO_RESULT_OK, m')"
    using assms(5) by (simp add: avb_ab_data_write_def)
  with c show ?thesis
    by (simp add: avb_ab_flow_def load save_metadata_if_changed_def io_failure_def)
qed

section \<open>Properties\<close>

text \<open>Metadata written to the \<open>misc\<close> partition is accepted and read back with every field
  unchanged and the check sum of the 28 bytes before it.\<close>

theorem ab_metadata_roundtrip:
  assumes "persistent ops" and "ab_wf d" and "avb_ab_data_write ops d m = (AVB_IO_RESULT_OK, m')"
  shows "avb_ab_data_read ops old m' = (AVB_IO_RESULT_OK, d\<lparr>crc32 := avb_crc32 (head_bytes d)\<rparr>, m')"
  using read_stored [OF write_stores [OF assms]] by (simp add: sealed_def)

theorem ab_metadata_roundtrip_witness:
  "avb_ab_data_read sim_ops avb_ab_data_init (avb_ab_data_update_crc_and_byteswap avb_ab_data_init) =
     (AVB_IO_RESULT_OK, avb_ab_data_init\<lparr>crc32 := avb_crc32 (head_bytes avb_ab_data_init)\<rparr>,
      avb_ab_data_update_crc_and_byteswap avb_ab_data_init)"
  by (rule ab_metadata_roundtrip [OF sim_ops_facts(3) init_wf, where m = "[]"])
     (simp add: avb_ab_data_write_def sim_ops_def)



text \<open>C16: the slot a boot hands out was bootable and passed verification (or failed in a way the
  caller allowed), and no other such slot has a higher priority.\<close>

theorem avb_ab_flow_chooses_best:
  assumes "works ops" and "verifier ops vr allow" and "\<not> fatal (vr 0)" "\<not> fatal (vr 1)"
    and "stored ops m d" and "avb_ab_flow ops allow junk junk_orig m = Done (ret, Some i, m')"
  shows "i < 2 \<and> slot_is_bootable (slot_normalize (slots d ! i)) \<and> passes allow (vr i) \<and>
    (\<forall>k<2. slot_is_bootable (slot_normalize (slots d ! k)) \<and> passes allow (vr k) \<longrightarrow>
       priority (slot_normalize (slots d ! k)) \<le> priority (slot_normalize (slots d ! i)))"
proof -
  have w: "ab_wf d" using assms(5) by (simp add: stored_def)
  obtain d' where b: "boot_next vr allow d = (Some i, d')"
    using flow_refines [OF assms(1-5), of junk junk_orig] assms(6) by (metis outcome.inject(1) prod.collapse prod.inject)
  have i: "i < 2" using boot_next_slots(1) [OF w b, of 0] by simp
  show ?thesis
    using i boot_next_slots(2,3,6) [OF w b] normalized_nth [OF w] by (metis order_refl)
qed

theorem avb_ab_flow_chooses_best_witness:
  "\<exists>ret i m'. avb_ab_flow sim_ops False avb_ab_data_init avb_ab_data_init
       (avb_ab_data_update_crc_and_byteswap avb_ab_data_init) = Done (ret, Some i, m') \<and> i < 2"
proof -
  have "\<exists>d'. boot_next all_ok False (activate 0 avb_ab_data_init) = (Some 0, d')"
    by (rule boot_next_activated [OF init_wf])
       (simp_all add: avb_ab_data_init_def AVB_AB_MAX_PRIORITY_def passes_def)
  moreover have "activate 0 avb_ab_data_init = avb_ab_data_init"
    by (simp add: activate_def avb_ab_data_init_def map_slot_def AVB_AB_MAX_PRIORITY_def Let_def)
  ultimately have "fst (boot_next all_ok False avb_ab_data_init) = Some 0" by auto
  then obtain ret m' where f: "avb_ab_flow sim_ops False avb_ab_data_init avb_ab_data_init
       (avb_ab_data_update_crc_and_byteswap avb_ab_data_init) = Done (ret, Some 0, m')"
    using flow_refines [OF sim_ops_facts(1,2) _ _ init_stored, of False avb_ab_data_init avb_ab_data_init]
    by (auto simp: fatal_def)
  with avb_ab_flow_chooses_best [OF sim_ops_facts(1,2) _ _ init_stored f] show ?thesis
    by (auto simp: fatal_def)
qed

text \<open>Marking a slot active succeeds and makes the next boot choose that slot, provided it passes
  verification and the other slot's stored priority is in the documented range.\<close>

theorem mark_active_then_boot:
  assumes "works ops" and "verifier ops vr allow" and "\<not> fatal (vr 0)" "\<not> fatal (vr 1)"
    and "stored ops m d" and "n < 2" and "priority (slots d ! (1 - n)) \<le> 15" and "passes allow (vr n)"
  shows "\<exists>m1 ret m2. avb_ab_mark_slot_active ops n j1 j2 m = Done (AVB_IO_RESULT_OK, m1) \<and>
    avb_ab_flow ops allow j3 j4 m1 = Done (ret, Some n, m2)"
proof -
  let ?e = "normalized (sealed d)"
  have w: "ab_wf d" "ab_wf ?e" using assms(5) by (simp_all add: stored_def)
  obtain m1 where m1: "with_metadata ops (activate n) j1 j2 m = (AVB_IO_RESULT_OK, m1)" "stored ops m1 (activate n ?e)"
    using with_metadata_stores [OF assms(1,5), of "activate n"] by auto
  have "priority (slots ?e ! (1 - n)) \<le> 15"
    using normalized_nth [of "sealed d" "1 - n"] w(1) normalize_priority_le [of "slots d ! (1 - n)"] assms(7) by simp
  then obtain d' where "boot_next vr allow (activate n ?e) = (Some n, d')"
    using boot_next_activated [where vr = vr, OF w(2) assms(6) _ assms(8)] by blast
  then show ?thesis
    using flow_refines [OF assms(1-4) m1(2), of j3 j4] m1(1) assms(6) by (auto simp: avb_ab_mark_slot_active_def)
qed

theorem mark_active_then_boot_witness:
  "\<exists>m1 ret m2. avb_ab_mark_slot_active sim_ops 1 avb_ab_data_init avb_ab_data_init
       (avb_ab_data_update_crc_and_byteswap avb_ab_data_init) = Done (AVB_IO_RESULT_OK, m1) \<and>
    avb_ab_flow sim_ops False avb_ab_data_init avb_ab_data_init m1 = Done (ret, Some 1, m2)"
  by (rule mark_active_then_boot [OF sim_ops_facts(1,2) _ _ init_stored])
     (simp_all add: fatal_def passes_def avb_ab_data_init_def AVB_AB_MAX_PRIORITY_def)

text \<open>C17: a system that never reports a successful boot cannot loop: in any sequence of boots that
  all choose a slot not known to be good, there are at most as many as tries were stored at the
  start.\<close>

theorem unproven_boots_bounded:
  assumes "works ops" and "verifier ops vr allow" and "\<not> fatal (vr 0)" "\<not> fatal (vr 1)"
    and "stored ops (ms 0) d"
    and "\<forall>j<k. \<exists>ret i e. avb_ab_flow ops allow junk junk_orig (ms j) = Done (ret, Some i, ms (Suc j)) \<and>
      stored ops (ms j) e \<and> successful_boot (slot_normalize (slots e ! i)) = 0"
  shows "k \<le> tries_total d"
  using assms(5,6)
proof (induction k arbitrary: ms d)
  case (Suc k)
  then obtain ret i e where f: "avb_ab_flow ops allow junk junk_orig (ms 0) = Done (ret, Some i, ms (Suc 0))"
      "stored ops (ms 0) e" "successful_boot (slot_normalize (slots e ! i)) = 0" by blast
  have w: "ab_wf d" using Suc.prems(1) by (simp add: stored_def)
  obtain d' where b: "boot_next vr allow d = (Some i, d')" "stored ops (ms (Suc 0)) d'"
    using flow_refines [OF assms(1-4) Suc.prems(1), of junk junk_orig] f(1)
    by (metis outcome.inject(1) prod.collapse prod.inject)
  have "successful_boot (slots (normalized d) ! i) = 0"
    using f(3) stored_slots [OF Suc.prems(1) f(2)] normalized_nth [OF w boot_next_slots(1) [OF w b(1), of 0]] by simp
  then have "tries_total d' < tries_total d" by (rule boot_next_spends [OF w b(1)])
  moreover have "k \<le> tries_total d'"
  proof (rule Suc.IH [of "\<lambda>j. ms (Suc j)"])
    show "stored ops (ms (Suc 0)) d'" by (rule b(2))
    show "\<forall>j<k. \<exists>ret i e. avb_ab_flow ops allow junk junk_orig (ms (Suc j)) = Done (ret, Some i, ms (Suc (Suc j))) \<and>
      stored ops (ms (Suc j)) e \<and> successful_boot (slot_normalize (slots e ! i)) = 0"
      using Suc.prems(2) by auto
  qed
  ultimately show ?case by simp
qed simp

theorem unproven_boots_bounded_witness:
  "\<exists>ms ret. avb_ab_flow sim_ops False avb_ab_data_init avb_ab_data_init (ms 0) = Done (ret, Some 0, ms (Suc 0)) \<and>
     1 \<le> tries_total avb_ab_data_init"
proof -
  let ?m = "avb_ab_data_update_crc_and_byteswap avb_ab_data_init"
  have "\<exists>d'. boot_next all_ok False (activate 0 avb_ab_data_init) = (Some 0, d')"
    by (rule boot_next_activated [OF init_wf])
       (simp_all add: avb_ab_data_init_def AVB_AB_MAX_PRIORITY_def passes_def)
  moreover have "activate 0 avb_ab_data_init = avb_ab_data_init"
    by (simp add: activate_def avb_ab_data_init_def map_slot_def AVB_AB_MAX_PRIORITY_def Let_def)
  ultimately have "fst (boot_next all_ok False avb_ab_data_init) = Some 0" by auto
  then obtain ret m' where f: "avb_ab_flow sim_ops False avb_ab_data_init avb_ab_data_init ?m = Done (ret, Some 0, m')"
    using flow_refines [OF sim_ops_facts(1,2) _ _ init_stored, of False avb_ab_data_init avb_ab_data_init]
    by (auto simp: fatal_def)
  define ms where "ms = (\<lambda>j :: nat. if j = 0 then ?m else m')"
  have nf: "\<not> fatal (all_ok 0)" "\<not> fatal (all_ok 1)" by (simp_all add: fatal_def)
  have st: "stored sim_ops (ms 0) avb_ab_data_init" by (simp add: ms_def init_stored)
  have u: "successful_boot (slot_normalize (slots avb_ab_data_init ! 0)) = 0"
    by (simp add: avb_ab_data_init_def slot_normalize_def slot_set_unbootable_def Let_def)
  have "1 \<le> tries_total avb_ab_data_init"
    by (rule unproven_boots_bounded [where vr = all_ok and ms = ms and k = 1 and allow = False
          and junk = avb_ab_data_init and junk_orig = avb_ab_data_init, OF sim_ops_facts(1,2) nf st])
       (use f st u in \<open>auto simp: ms_def\<close>)
  with f show ?thesis by (intro exI [of _ ms] exI [of _ ret]) (simp add: ms_def)
qed

end
