(* ===== verification/ByteQueues.thy ===== *)
theory ByteQueues
  imports Prelude
begin

text \<open>
  The byte queues of U-Boot: \<open>lib/membuff.c\<close>, a ring of \<open>size - 1\<close> usable bytes that refuses what does
  not fit, and \<open>lib/circbuf.c\<close>, a ring of \<open>size\<close> bytes that overwrites the oldest.  Pointers are
  offsets from the start of the buffer.  The locale \<open>byte_fifo\<close> states what a first-in first-out
  queue of bytes promises and proves the sequences of operations once for both.
\<close>

section \<open>membuff.c\<close>

definition E2BIG :: int where "E2BIG = 7"

record membuff =
  mem :: bytes
  mstart :: bool
  mhead :: int
  mtail :: int

abbreviation mend :: "membuff \<Rightarrow> int" where
  "mend mb \<equiv> int (length (mem mb))"

definition membuff_purge :: "membuff \<Rightarrow> membuff" where
  "membuff_purge mb = mb\<lparr>mhead := 0, mtail := 0\<rparr>"

definition membuff_init :: "bytes \<Rightarrow> membuff" where
  "membuff_init b = membuff_purge \<lparr>mem = b, mstart = True, mhead = 0, mtail = 0\<rparr>"

definition membuff_uninit :: "membuff \<Rightarrow> membuff" where
  "membuff_uninit mb = membuff_purge (mb\<lparr>mem := [], mstart := False\<rparr>)"

text \<open>\<open>malloc\<close> delivers some bytes, or nothing.\<close>

definition membuff_new :: "bytes option \<Rightarrow> membuff \<Rightarrow> int \<times> membuff" where
  "membuff_new block mb = (case block of None \<Rightarrow> (- ENOMEM, mb\<lparr>mstart := False\<rparr>) | Some b \<Rightarrow> (0, membuff_init b))"

definition cap_len :: "int \<Rightarrow> int \<Rightarrow> int" where
  "cap_len maxlen len = (if 0 \<le> maxlen \<and> maxlen < len then maxlen else len)"

text \<open>The length, the offset to write to, and the buffer afterwards.\<close>

definition membuff_putraw :: "membuff \<Rightarrow> int \<Rightarrow> bool \<Rightarrow> int \<times> int \<times> membuff" where
  "membuff_putraw mb maxlen update =
     (if \<not> mstart mb then (0, mhead mb, mb)
      else if mtail mb \<le> mhead mb then
        (let len = cap_len maxlen (mend mb - mhead mb - 1);
             mb1 = (if update then mb\<lparr>mhead := mhead mb + len\<rparr> else mb)
         in if (maxlen < 0 \<or> len < maxlen) \<and> mtail mb \<noteq> 0
            then (len + 1, mhead mb, if update then mb1\<lparr>mhead := 0\<rparr> else mb1)
            else (len, mhead mb, mb1))
      else
        (let len = cap_len maxlen (mtail mb - mhead mb - 1)
         in (len, mhead mb, if update then mb\<lparr>mhead := mhead mb + len\<rparr> else mb)))"

text \<open>\<open>memcpy\<close> into the buffer at an offset.\<close>

definition store :: "int \<Rightarrow> bytes \<Rightarrow> membuff \<Rightarrow> membuff outcome" where
  "store off bs mb = (if 0 \<le> off \<and> off + int (length bs) \<le> mend mb
     then Done (mb\<lparr>mem := overwrite (nat off) bs (mem mb)\<rparr>) else Fault)"

definition membuff_putbyte :: "membuff \<Rightarrow> u8 \<Rightarrow> (bool \<times> membuff) outcome" where
  "membuff_putbyte mb ch = (case membuff_putraw mb 1 True of (len, off, mb1) \<Rightarrow>
     if len \<noteq> 1 then Done (False, mb1)
     else bind_outcome (store off [ch] mb1) (\<lambda>mb2. Done (True, mb2)))"

definition membuff_getraw :: "membuff \<Rightarrow> int \<Rightarrow> bool \<Rightarrow> int \<times> int \<times> membuff" where
  "membuff_getraw mb maxlen update =
     (if mtail mb < mhead mb then
        (let len = cap_len maxlen (mhead mb - mtail mb)
         in (len, mtail mb, if update then mb\<lparr>mtail := mtail mb + len\<rparr> else mb))
      else if mhead mb < mtail mb then
        (let len = cap_len maxlen (mend mb - mtail mb);
             t = mtail mb + len
         in (len, mtail mb, if update then mb\<lparr>mtail := (if t = mend mb then 0 else t)\<rparr> else mb))
      else (0, mtail mb, mb))"

definition membuff_getbyte :: "membuff \<Rightarrow> int \<times> membuff" where
  "membuff_getbyte mb = (case membuff_getraw mb 1 True of (len, off, mb1) \<Rightarrow>
     (if len \<noteq> 1 then - 1 else uint (mem mb ! nat off), mb1))"

definition membuff_peekbyte :: "membuff \<Rightarrow> int" where
  "membuff_peekbyte mb = (case membuff_getraw mb 1 False of (len, off, _) \<Rightarrow>
     (if len \<noteq> 1 then - 1 else uint (mem mb ! nat off)))"

text \<open>One turn of the loop in \<open>membuff_get\<close>: the bytes copied and the rest of \<open>maxlen\<close>.\<close>

definition get_pass :: "membuff \<Rightarrow> int \<Rightarrow> bytes \<times> int \<times> membuff" where
  "get_pass mb maxlen = (case membuff_getraw mb maxlen True of (len, off, mb1) \<Rightarrow>
     (take (nat len) (drop (nat off) (mem mb)), maxlen - len, mb1))"

definition membuff_get :: "membuff \<Rightarrow> int \<Rightarrow> bytes \<times> membuff" where
  "membuff_get mb maxlen = (case get_pass mb maxlen of (b1, rest, mb1) \<Rightarrow>
     if b1 = [] then ([], mb1)
     else (case get_pass mb1 rest of (b2, _, mb2) \<Rightarrow> (b1 @ b2, mb2)))"

definition put_pass :: "membuff \<times> bytes \<times> nat \<Rightarrow> (membuff \<times> bytes \<times> nat) outcome" where
  "put_pass x = (case x of (mb, bs, written) \<Rightarrow>
     (case membuff_putraw mb (int (length bs)) True of (n, off, mb1) \<Rightarrow>
       if n < 0 then Fault
       else bind_outcome (store off (take (nat n) bs) mb1) (\<lambda>mb2. Done (mb2, drop (nat n) bs, written + nat n))))"

definition membuff_put :: "membuff \<Rightarrow> bytes \<Rightarrow> (nat \<times> membuff) outcome" where
  "membuff_put mb bs = bind_outcome (put_pass (mb, bs, 0)) (\<lambda>x1.
     bind_outcome (put_pass x1) (\<lambda>(mb2, _, written). Done (written, mb2)))"

definition membuff_isempty :: "membuff \<Rightarrow> bool" where
  "membuff_isempty mb = (mhead mb = mtail mb)"

definition membuff_avail :: "membuff \<Rightarrow> int" where
  "membuff_avail mb = (case membuff_getraw mb (- 1) True of (n1, _, mb1) \<Rightarrow>
     (case membuff_getraw mb1 (- 1) True of (n2, _, _) \<Rightarrow> n1 + n2))"

definition membuff_size :: "membuff \<Rightarrow> int" where
  "membuff_size mb = mend mb"

definition membuff_free :: "membuff \<Rightarrow> int" where
  "membuff_free mb = (if mend mb = 0 then 0 else mend mb - 1 - membuff_avail mb)"

text \<open>\<open>memmove\<close> and \<open>memcpy\<close> inside the buffer; the second is given the meaning of the first.\<close>

definition move :: "nat \<Rightarrow> nat \<Rightarrow> nat \<Rightarrow> bytes \<Rightarrow> bytes" where
  "move dst src n b = overwrite dst (take n (drop src b)) b"

definition membuff_makecontig :: "membuff \<Rightarrow> bool \<times> membuff" where
  "membuff_makecontig mb =
     (if mhead mb < mtail mb then
        (let topsize = mend mb - mtail mb; botsize = mhead mb
         in if mtail mb \<le> mhead mb + topsize then (False, mb)
            else (let m1 = move (nat topsize) 0 (nat botsize) (mem mb)
                  in (True, mb\<lparr>mem := move 0 (nat (mtail mb)) (nat topsize) m1, mtail := 0, mhead := topsize + botsize\<rparr>)))
      else
        (let topsize = mhead mb - mtail mb
         in (True, mb\<lparr>mem := move 0 (nat (mtail mb)) (nat topsize) (mem mb), mtail := 0, mhead := topsize\<rparr>)))"

text \<open>The loop of \<open>membuff_readline\<close>: from offset \<open>s\<close> up to \<open>en\<close>; at the end of the buffer it goes
  on at its start.  \<open>room\<close> is \<open>maxlen - 1 - len\<close>.  The result is the line and the offset after it, or
  nothing.\<close>

function readline_loop :: "membuff \<Rightarrow> int \<Rightarrow> nat \<Rightarrow> nat \<Rightarrow> nat \<Rightarrow> bytes \<Rightarrow> (bytes \<times> nat) option" where
  "readline_loop mb minch s en room acc =
     (if s < en \<and> 0 < room then
        (let ch = mem mb ! s; line = acc @ [ch]; s1 = s + 1
         in if ch = 10 \<or> uint ch < minch then Some (line, s1)
            else if s1 = en \<and> mhead mb < mtail mb
              then readline_loop mb minch 0 (nat (mhead mb)) (room - 1) line
              else readline_loop mb minch s1 en (room - 1) line)
      else None)"
  by pat_completeness auto
termination
  by (relation "measure (\<lambda>(mb, minch, s, en, room, acc). room)") auto

declare readline_loop.simps [simp del]

definition membuff_readline :: "membuff \<Rightarrow> nat \<Rightarrow> int \<Rightarrow> bytes \<times> membuff" where
  "membuff_readline mb maxlen minch =
     (let en = (if mtail mb \<le> mhead mb then mhead mb else mend mb)
      in case readline_loop mb minch (nat (mtail mb)) (nat en) (maxlen - 1) [] of
           None \<Rightarrow> ([], mb)
         | Some (line, s) \<Rightarrow> (line, mb\<lparr>mtail := (if int s = mend mb then 0 else int s)\<rparr>))"

text \<open>The doubling loop; it does not end for a buffer of size 0.\<close>

partial_function (option) double_until :: "nat \<Rightarrow> nat \<Rightarrow> nat option" where
  "double_until sz goal = (if sz < goal then double_until (2 * sz) goal else Some sz)"

text \<open>\<open>realloc\<close> keeps the old bytes and appends some, or fails.\<close>

definition membuff_extend_by :: "membuff \<Rightarrow> nat \<Rightarrow> int \<Rightarrow> (nat \<Rightarrow> bytes option) \<Rightarrow> (int \<times> membuff) option" where
  "membuff_extend_by mb want maxsz realloc =
     (let orig = length (mem mb) in
      case double_until orig (orig + want) of None \<Rightarrow> None
      | Some s0 \<Rightarrow>
        (let sz = (if maxsz \<noteq> - 1 then min (int s0) maxsz else int s0);
             extra = sz - int orig
         in if extra \<le> 0 then Some (- E2BIG, mb)
            else (case realloc (nat extra) of None \<Rightarrow> Some (- ENOMEM, mb)
              | Some fresh \<Rightarrow>
                (let grown = mem mb @ take (nat extra) (fresh @ replicate (nat extra) 0)
                 in Some (0, if mhead mb < mtail mb
                   then mb\<lparr>mem := move (nat (mtail mb + extra)) (nat (mtail mb)) (nat (int orig - mtail mb)) grown,
                           mtail := mtail mb + extra\<rparr>
                   else mb\<lparr>mem := grown\<rparr>)))))"

section \<open>circbuf.c\<close>

record circbuf =
  csize :: nat
  totalsize :: nat
  ctop :: nat
  ctail :: nat
  cdata :: bytes

definition buf_init :: "bytes \<Rightarrow> circbuf" where
  "buf_init block = \<lparr>csize = 0, totalsize = length block, ctop = 0, ctail = 0, cdata = block\<rparr>"

definition cnext :: "circbuf \<Rightarrow> nat \<Rightarrow> nat" where
  "cnext c p = (if p + 1 = length (cdata c) then 0 else p + 1)"

fun pop_loop :: "circbuf \<Rightarrow> nat \<Rightarrow> nat \<Rightarrow> bytes \<times> nat" where
  "pop_loop c 0 p = ([], p)"
| "pop_loop c (Suc n) p = (case pop_loop c n (cnext c p) of (bs, q) \<Rightarrow> (cdata c ! p # bs, q))"

definition buf_pop :: "circbuf \<Rightarrow> nat \<Rightarrow> bytes \<times> circbuf" where
  "buf_pop c len = (let n = (if csize c < len then csize c else len)
     in case pop_loop c n (ctop c) of (bs, p) \<Rightarrow> (bs, c\<lparr>ctop := p, csize := csize c - n\<rparr>))"

definition push_byte :: "u8 \<Rightarrow> circbuf \<Rightarrow> circbuf" where
  "push_byte b c =
     (let c1 = c\<lparr>cdata := (cdata c)[ctail c := b], ctail := cnext c (ctail c)\<rparr>
      in if csize c1 < totalsize c1 then c1\<lparr>csize := csize c1 + 1\<rparr> else c1\<lparr>ctop := cnext c1 (ctop c1)\<rparr>)"

definition buf_push :: "circbuf \<Rightarrow> bytes \<Rightarrow> circbuf" where
  "buf_push c bs = fold push_byte bs c"

section \<open>The contents of a membuff\<close>

definition membuff_ok :: "membuff \<Rightarrow> bool" where
  "membuff_ok mb \<longleftrightarrow> mstart mb \<and> 0 \<le> mhead mb \<and> mhead mb < mend mb \<and> 0 \<le> mtail mb \<and> mtail mb < mend mb"

definition contents :: "membuff \<Rightarrow> bytes" where
  "contents mb = (if mtail mb \<le> mhead mb
     then take (nat (mhead mb - mtail mb)) (drop (nat (mtail mb)) (mem mb))
     else drop (nat (mtail mb)) (mem mb) @ take (nat (mhead mb)) (mem mb))"

definition space :: "membuff \<Rightarrow> nat" where
  "space mb = length (mem mb) - 1 - length (contents mb)"

text \<open>The same with natural numbers for the two offsets.\<close>

definition ring :: "nat \<Rightarrow> nat \<Rightarrow> bytes \<Rightarrow> bytes" where
  "ring h t m = (if t \<le> h then take (h - t) (drop t m) else drop t m @ take h m)"

lemma membuff_ok_cases:
  assumes "membuff_ok mb"
  obtains h t m where "mb = \<lparr>mem = m, mstart = True, mhead = int h, mtail = int t\<rparr>" "h < length m" "t < length m"
proof
  show "mb = \<lparr>mem = mem mb, mstart = True, mhead = int (nat (mhead mb)), mtail = int (nat (mtail mb))\<rparr>"
    using assms by (simp add: membuff_ok_def)
qed (use assms in \<open>auto simp: membuff_ok_def\<close>)

lemma contents_ring: "contents \<lparr>mem = m, mstart = b, mhead = int h, mtail = int t\<rparr> = ring h t m"
  by (simp add: contents_def ring_def nat_diff_distrib)

lemma contents_ring_simps:
  "contents \<lparr>mem = m, mstart = b, mhead = int h + int k, mtail = int t\<rparr> = ring (h + k) t m"
  "contents \<lparr>mem = m, mstart = b, mhead = int h, mtail = int t + int k\<rparr> = ring h (t + k) m"
  "contents \<lparr>mem = m, mstart = b, mhead = 0, mtail = int t\<rparr> = ring 0 t m"
  "contents \<lparr>mem = m, mstart = b, mhead = int h, mtail = 0\<rparr> = ring h 0 m"
  "contents \<lparr>mem = m, mstart = b, mhead = int h + int k, mtail = 0\<rparr> = ring (h + k) 0 m"
  using contents_ring [of m b "h + k" 0] contents_ring [of m b "h + k" t] contents_ring [of m b h "t + k"] contents_ring [of m b 0 t]
    contents_ring [of m b h 0] by simp_all

lemma length_ring:
  "h < length m \<Longrightarrow> t < length m \<Longrightarrow> length (ring h t m) = (if t \<le> h then h - t else length m - t + h)"
  by (auto simp: ring_def)

lemma ring_write:
  assumes "t \<le> h" and "h + length bs \<le> length m"
  shows "take (h + length bs - t) (drop t (overwrite h bs m)) = ring h t m @ bs"
  using assms by (simp add: overwrite_def ring_def take_add [symmetric] drop_take)

lemma ring_write_end:
  assumes "t \<le> h" and "h + length bs = length m"
  shows "drop t (overwrite h bs m) = ring h t m @ bs"
  using assms by (simp add: overwrite_def ring_def drop_take)

lemma ring_write_low:
  assumes "h + length bs \<le> t" and "t \<le> length m"
  shows "drop t (overwrite h bs m) @ take (h + length bs) (overwrite h bs m) = drop t m @ take h m @ bs"
  using assms by (simp add: overwrite_def)

section \<open>Putting\<close>

text \<open>One turn of \<open>membuff_put\<close>: it appends what it takes, and it takes everything, or fills the
  buffer, or leaves the head at the start so that the second turn can.\<close>

lemma put_pass_spec:
  assumes "membuff_ok mb"
  shows "\<exists>n mb'. put_pass (mb, bs, w) = Done (mb', drop n bs, w + n) \<and> membuff_ok mb' \<and>
    n \<le> length bs \<and> n \<le> space mb \<and> contents mb' = contents mb @ take n bs \<and>
    length (mem mb') = length (mem mb) \<and>
    (n = length bs \<or> n = space mb \<or> mhead mb' = 0 \<and> mtail mb' \<noteq> 0) \<and>
    (mhead mb = 0 \<and> mtail mb \<noteq> 0 \<longrightarrow> n = min (length bs) (space mb))"
proof -
  obtain h t m where mb: "mb = \<lparr>mem = m, mstart = True, mhead = int h, mtail = int t\<rparr>"
    and b: "h < length m" "t < length m" using membuff_ok_cases [OF assms] .
  have sp: "space mb = length m - 1 - (if t \<le> h then h - t else length m - t + h)"
    using b by (simp add: space_def mb contents_ring length_ring)
  show ?thesis
  proof (cases "t \<le> h")
    case th: True
    consider (fits) "length bs \<le> length m - h - 1" | (wrap) "length m - h - 1 < length bs" "t \<noteq> 0"
      | (full) "length m - h - 1 < length bs" "t = 0" by linarith
    then show ?thesis
    proof cases
      case fits
      have l: "cap_len (int (length bs)) (int (length m) - int h - 1) = int (length bs)"
        using fits b by (auto simp: cap_len_def)
      have r: "ring (h + length bs) t (overwrite h bs m) = ring h t m @ bs"
        using ring_write [of t h bs m] th fits b by (simp add: ring_def)
      have lo: "length (overwrite h bs m) = length m" using fits b by (simp add: overwrite_def)
      show ?thesis
        using th fits b l r lo sp
        by (intro exI [of _ "length bs"] exI [of _ "\<lparr>mem = overwrite h bs m, mstart = True, mhead = int (h + length bs), mtail = int t\<rparr>"])
           (auto simp: put_pass_def membuff_putraw_def store_def mb contents_ring contents_ring_simps membuff_ok_def Let_def min_def)
    next
      case wrap
      let ?n = "length m - h"
      have l: "cap_len (int (length bs)) (int (length m) - int h - 1) = int (length m - h - 1)"
        using wrap b by (auto simp: cap_len_def)
      have len: "int (length m - h - 1) + 1 = int ?n" "?n \<le> length bs" using b wrap by auto
      have lt: "length (take ?n bs) = ?n" using len by simp
      have nd: "nat (int (length m) - int h) = ?n" by linarith
      have lo: "length (overwrite h (take ?n bs) m) = length m" using lt b by (simp add: overwrite_def)
      have r: "ring 0 t (overwrite h (take ?n bs) m) = ring h t m @ take ?n bs"
        using ring_write_end [of t h "take ?n bs" m] th lt b wrap by (simp add: ring_def)
      show ?thesis
        using th wrap b l len lt lo r sp nd
        by (intro exI [of _ ?n] exI [of _ "\<lparr>mem = overwrite h (take ?n bs) m, mstart = True, mhead = 0, mtail = int t\<rparr>"])
           (auto simp: put_pass_def membuff_putraw_def store_def mb contents_ring contents_ring_simps membuff_ok_def Let_def)
    next
      case full
      define k where "k = length m - h - 1"
      have l: "cap_len (int (length bs)) (int (length m) - int h - 1) = int k"
        using full b by (auto simp: cap_len_def k_def)
      have lt: "length (take k bs) = k" "h + k < length m" "k < length bs" using full b by (auto simp: k_def)
      have r: "ring (h + k) t (overwrite h (take k bs) m) = ring h t m @ take k bs"
        using ring_write [of t h "take k bs" m] th lt b by (simp add: ring_def)
      have lo: "length (overwrite h (take k bs) m) = length m" using lt b by (simp add: overwrite_def)
      have sk: "space mb = k" using sp full b by (simp add: k_def)
      show ?thesis
        using th full(2) b l lt lo r sk
        by (intro exI [of _ k] exI [of _ "\<lparr>mem = overwrite h (take k bs) m, mstart = True, mhead = int (h + k), mtail = int t\<rparr>"])
           (auto simp: put_pass_def membuff_putraw_def store_def mb contents_ring contents_ring_simps membuff_ok_def Let_def)
    qed
  next
    case ht: False
    define n where "n = min (length bs) (t - h - 1)"
    have l: "cap_len (int (length bs)) (int t - int h - 1) = int n"
      using ht by (auto simp: cap_len_def n_def)
    have lt: "length (take n bs) = n" "h + n < t" using ht by (auto simp: n_def)
    have r: "ring (h + n) t (overwrite h (take n bs) m) = ring h t m @ take n bs"
      using ring_write_low [of h "take n bs" t m] lt ht b by (simp add: ring_def)
    have lo: "length (overwrite h (take n bs) m) = length m" using lt b by (simp add: overwrite_def)
    have s: "space mb = t - h - 1" using sp ht b by simp
    have nb: "n \<le> length bs" "n \<le> space mb" "n = length bs \<or> n = space mb" "n = min (length bs) (space mb)"
      using s by (auto simp: n_def min_def)
    show ?thesis
      using ht b l lt lo r nb
      by (intro exI [of _ n] exI [of _ "\<lparr>mem = overwrite h (take n bs) m, mstart = True, mhead = int (h + n), mtail = int t\<rparr>"])
         (auto simp: put_pass_def membuff_putraw_def store_def mb contents_ring contents_ring_simps membuff_ok_def Let_def)
  qed
qed

lemma membuff_put_spec:
  assumes "membuff_ok mb"
  shows "\<exists>mb'. membuff_put mb bs = Done (min (length bs) (space mb), mb') \<and> membuff_ok mb' \<and>
    contents mb' = contents mb @ take (space mb) bs \<and> length (mem mb') = length (mem mb)"
proof -
  obtain n mb1 where p1: "put_pass (mb, bs, 0) = Done (mb1, drop n bs, n)" "membuff_ok mb1" "n \<le> length bs"
      "n \<le> space mb" "contents mb1 = contents mb @ take n bs" "length (mem mb1) = length (mem mb)"
      "n = length bs \<or> n = space mb \<or> mhead mb1 = 0 \<and> mtail mb1 \<noteq> 0"
    using put_pass_spec [OF assms, of bs 0] by auto
  have sp: "space mb1 = space mb - n" using p1(3,5,6) by (simp add: space_def)
  obtain k mb2 where p2: "put_pass (mb1, drop n bs, n) = Done (mb2, drop k (drop n bs), n + k)" "membuff_ok mb2"
      "k \<le> length bs - n" "k \<le> space mb1" "contents mb2 = contents mb1 @ take k (drop n bs)"
      "length (mem mb2) = length (mem mb1)"
      "mhead mb1 = 0 \<and> mtail mb1 \<noteq> 0 \<longrightarrow> k = min (length bs - n) (space mb1)"
    using put_pass_spec [OF p1(2), of "drop n bs" n] by auto
  have nk: "n + k = min (length bs) (space mb)" using p1(3,4,7) p2(3,4,7) sp by auto
  have "take n bs @ take k (drop n bs) = take (n + k) bs" by (simp add: take_add)
  also have "\<dots> = take (space mb) bs" unfolding nk by (simp add: min_def)
  finally show ?thesis using p1(1,5,6) p2(1,2,5,6) nk by (simp add: membuff_put_def)
qed

section \<open>Getting\<close>

lemma ring_read:
  assumes "t \<le> h" and "n \<le> h - t"
  shows "take n (drop t m) = take n (ring h t m)" and "ring h (t + n) m = drop n (ring h t m)"
proof -
  have "n + t \<le> h" using assms by simp
  then show "take n (drop t m) = take n (ring h t m)" "ring h (t + n) m = drop n (ring h t m)"
    using assms by (simp_all add: ring_def min_def drop_take add.commute)
qed

lemma ring_read_high:
  assumes "h < t" and "t < length m" and "n \<le> length m - t"
  shows "take n (drop t m) = take n (ring h t m)"
    and "ring h (if t + n = length m then 0 else t + n) m = drop n (ring h t m)"
  using assms by (auto simp: ring_def min_def add.commute)

lemma get_pass_spec:
  assumes "membuff_ok mb"
  shows "\<exists>n mb'. get_pass mb maxlen = (take n (contents mb), maxlen - int n, mb') \<and> membuff_ok mb' \<and>
    n \<le> length (contents mb) \<and> contents mb' = drop n (contents mb) \<and> mem mb' = mem mb \<and>
    (0 \<le> maxlen \<longrightarrow> n \<le> nat maxlen) \<and>
    (n = length (contents mb) \<or> 0 \<le> maxlen \<and> n = nat maxlen \<or> mtail mb' = 0 \<and> 0 < n) \<and>
    (mtail mb \<le> mhead mb \<longrightarrow> n = length (contents mb) \<or> 0 \<le> maxlen \<and> n = nat maxlen)"
proof -
  obtain h t m where mb: "mb = \<lparr>mem = m, mstart = True, mhead = int h, mtail = int t\<rparr>"
    and b: "h < length m" "t < length m" using membuff_ok_cases [OF assms] .
  define avail where "avail = (if t \<le> h then h - t else length m - t)"
  define n where "n = (if 0 \<le> maxlen then min avail (nat maxlen) else avail)"
  have c: "cap_len maxlen (int avail) = int n" by (auto simp: cap_len_def n_def)
  have na: "n \<le> avail" by (simp add: n_def)
  have lr: "avail \<le> length (ring h t m)" "t \<le> h \<Longrightarrow> avail = length (ring h t m)"
    using b by (auto simp: avail_def length_ring)
  consider (low) "t < h" | (eq) "t = h" | (high) "h < t" by linarith
  then show ?thesis
  proof cases
    case low
    then have r: "take n (drop t m) = take n (ring h t m)" "ring h (t + n) m = drop n (ring h t m)"
      using ring_read [of t h n m] na by (auto simp: avail_def)
    have g: "membuff_getraw mb maxlen True = (int n, int t, mb\<lparr>mtail := int t + int n\<rparr>)"
      using low c by (simp add: membuff_getraw_def mb avail_def of_nat_diff Let_def)
    have "t + n \<le> h" using low na by (simp add: avail_def)
    then show ?thesis
      using g r b lr low
      by (intro exI [of _ n] exI [of _ "mb\<lparr>mtail := int t + int n\<rparr>"])
         (auto simp: get_pass_def mb contents_ring contents_ring_simps membuff_ok_def n_def)
  next
    case eq
    then show ?thesis
      using b assms by (intro exI [of _ 0] exI [of _ mb])
        (simp add: get_pass_def membuff_getraw_def mb contents_ring ring_def)
  next
    case high
    let ?t = "if t + n = length m then 0 else t + n"
    have nl: "n \<le> length m - t" using high na by (simp add: avail_def)
    have r: "take n (drop t m) = take n (ring h t m)" "ring h ?t m = drop n (ring h t m)"
      using ring_read_high [OF high b(2) nl] by auto
    have g: "membuff_getraw mb maxlen True = (int n, int t, mb\<lparr>mtail := int ?t\<rparr>)"
      using high c b nl by (auto simp: membuff_getraw_def mb avail_def of_nat_diff Let_def)
    have ct: "contents (mb\<lparr>mtail := int ?t\<rparr>) = drop n (contents mb)"
      using r(2) contents_ring [of m True h ?t] by (simp add: mb contents_ring del: of_nat_add)
    have av: "n = avail \<or> 0 \<le> maxlen \<and> n = nat maxlen" by (auto simp: n_def)
    have "n = avail \<Longrightarrow> ?t = 0" using high b by (simp add: avail_def)
    moreover have "0 < avail" using high b by (simp add: avail_def)
    moreover have "membuff_ok (mb\<lparr>mtail := int ?t\<rparr>)" using b nl by (auto simp: membuff_ok_def mb)
    ultimately show ?thesis
      using g r(1) ct lr(1) na av high
      by (intro exI [of _ n] exI [of _ "mb\<lparr>mtail := int ?t\<rparr>"])
         (auto simp: get_pass_def mb contents_ring n_def)
  qed
qed

lemma membuff_get_spec:
  assumes "membuff_ok mb" and "0 \<le> maxlen"
  shows "\<exists>mb'. membuff_get mb maxlen = (take (nat maxlen) (contents mb), mb') \<and> membuff_ok mb' \<and>
    contents mb' = drop (nat maxlen) (contents mb) \<and> mem mb' = mem mb"
proof -
  obtain n mb1 where p1: "get_pass mb maxlen = (take n (contents mb), maxlen - int n, mb1)" "membuff_ok mb1"
      "n \<le> length (contents mb)" "contents mb1 = drop n (contents mb)" "mem mb1 = mem mb" "n \<le> nat maxlen"
      "n = length (contents mb) \<or> n = nat maxlen \<or> mtail mb1 = 0 \<and> 0 < n"
    using get_pass_spec [OF assms(1), of maxlen] assms(2) by auto
  show ?thesis
  proof (cases "n = 0")
    case True
    then have "contents mb = [] \<or> maxlen = 0" using p1(7) assms(2) by auto
    then show ?thesis using p1 True assms(2)
      by (intro exI [of _ mb1]) (auto simp: membuff_get_def)
  next
    case False
    have ne: "take n (contents mb) \<noteq> []" using False p1(3) by auto
    have m1: "0 \<le> maxlen - int n" "nat (maxlen - int n) = nat maxlen - n" using p1(6) assms(2) by auto
    obtain k mb2 where p2: "get_pass mb1 (maxlen - int n) = (take k (contents mb1), maxlen - int n - int k, mb2)"
        "membuff_ok mb2" "k \<le> length (contents mb1)" "contents mb2 = drop k (contents mb1)" "mem mb2 = mem mb1"
        "k \<le> nat maxlen - n"
        "mtail mb1 \<le> mhead mb1 \<longrightarrow> k = length (contents mb1) \<or> k = nat maxlen - n"
      using get_pass_spec [OF p1(2), of "maxlen - int n"] m1 by auto
    have "mtail mb1 = 0 \<Longrightarrow> mtail mb1 \<le> mhead mb1" using p1(2) by (simp add: membuff_ok_def)
    then have nk: "n + k = min (length (contents mb)) (nat maxlen)"
      using p1(3,4,6,7) p2(3,6,7) by auto
    have "take n (contents mb) @ take k (drop n (contents mb)) = take (n + k) (contents mb)" by (simp add: take_add)
    also have "\<dots> = take (nat maxlen) (contents mb)" unfolding nk by (simp add: min_def)
    finally have t: "take n (contents mb) @ take k (contents mb1) = take (nat maxlen) (contents mb)" by (simp add: p1(4))
    have "drop (k + n) (contents mb) = drop (nat maxlen) (contents mb)" using nk by (simp add: add.commute min_def)
    with t show ?thesis using p1(1,4,5) p2(1,2,4,5) ne
      by (intro exI [of _ mb2]) (simp add: membuff_get_def)
  qed
qed

section \<open>Moving and growing\<close>

lemma contents_at:
  "0 \<le> mhead mb \<Longrightarrow> 0 \<le> mtail mb \<Longrightarrow> contents mb = ring (nat (mhead mb)) (nat (mtail mb)) (mem mb)"
  by (auto simp: contents_def ring_def nat_diff_distrib nat_le_eq_zle)

lemma makecontig_spec:
  assumes "membuff_ok mb" and "membuff_makecontig mb = (ok, mb')"
  shows "membuff_ok mb' \<and> contents mb' = contents mb \<and> length (mem mb') = length (mem mb) \<and>
    (if ok then mtail mb' = 0 else mb' = mb)"
proof -
  obtain h t m where mb: "mb = \<lparr>mem = m, mstart = True, mhead = int h, mtail = int t\<rparr>"
    and b: "h < length m" "t < length m" using membuff_ok_cases [OF assms(1)] .
  show ?thesis
  proof (cases "h < t")
    case ht: True
    define top where "top = length m - t"
    have tp: "int (length m) - int t = int top" "0 < top" "top + t = length m" using b by (auto simp: top_def)
    show ?thesis
    proof (cases "t \<le> h + top")
      case True
      then have "ok = False" "mb' = mb" using assms(2) ht tp by (auto simp: membuff_makecontig_def mb Let_def)
      then show ?thesis using assms(1) by simp
    next
      case False
      define m1 where "m1 = move top 0 h m"
      define m2 where "m2 = move 0 t top m1"
      have m1: "m1 = take top m @ take h m @ drop (top + h) m"
        using b by (simp add: m1_def move_def overwrite_def)
      have d: "drop t m1 = drop t m" using False b tp by (simp add: m1)
      have "take top (drop t m) = drop t m" using tp by simp
      then have m2: "m2 = drop t m @ drop top m1" using tp b by (simp add: m2_def move_def overwrite_def d top_def)
      have "length m2 = length m" using False b tp by (simp add: m2 m1)
      moreover have "ring (top + h) 0 m2 = ring h t m"
      proof -
        have "top + h + t - length m = h" using tp by simp
        then show ?thesis using ht b tp by (simp add: ring_def m2 m1)
      qed
      moreover have e: "ok = True" "mb' = \<lparr>mem = m2, mstart = True, mhead = int top + int h, mtail = 0\<rparr>"
        using assms(2) ht False tp by (auto simp: membuff_makecontig_def mb Let_def m1_def m2_def)
      moreover have "m \<noteq> []" using b by auto
      ultimately show ?thesis using False ht b tp
        by (simp add: mb contents_ring contents_ring_simps membuff_ok_def)
    qed
  next
    case th: False
    define k where "k = h - t"
    have k: "int h - int t = int k" "h = t + k" "k < length m" using th b by (auto simp: k_def)
    define m2 where "m2 = move 0 t k m"
    have m2: "m2 = take k (drop t m) @ drop k m" using b k by (simp add: m2_def move_def overwrite_def)
    have "length m2 = length m" using b k by (simp add: m2)
    moreover have "ring k 0 m2 = ring h t m" using b k by (simp add: ring_def m2)
    moreover have "ok = True" "mb' = \<lparr>mem = m2, mstart = True, mhead = int k, mtail = 0\<rparr>"
      using assms(2) th k(1) by (auto simp: membuff_makecontig_def mb Let_def m2_def)
    moreover have "m \<noteq> []" using b by auto
    ultimately show ?thesis using b k(3) by (simp add: mb contents_ring contents_ring_simps membuff_ok_def)
  qed
qed

lemma double_until_total: "0 < sz \<Longrightarrow> \<exists>r. double_until sz goal = Some r \<and> goal \<le> r \<and> sz \<le> r"
proof (induction "goal - sz" arbitrary: sz rule: less_induct)
  case less
  show ?case
  proof (cases "sz < goal")
    case True
    then have "goal - 2 * sz < goal - sz" using less.prems by linarith
    then obtain r where "double_until (2 * sz) goal = Some r" "goal \<le> r" "2 * sz \<le> r"
      using less.hyps [of "2 * sz"] less.prems by auto
    with True show ?thesis by (subst double_until.simps) auto
  qed (simp add: double_until.simps)
qed

lemma double_until_stuck: "0 < goal \<Longrightarrow> double_until 0 goal = None"
proof (rule ccontr)
  assume g: "0 < goal" and "double_until 0 goal \<noteq> None"
  then obtain r where r: "double_until 0 goal = Some r" by auto
  have "sz \<noteq> 0 \<or> goal = 0" if "double_until sz goal = Some r" for sz goal r
  proof (rule double_until.raw_induct [where P = "\<lambda>sz goal r. sz \<noteq> 0 \<or> goal = 0", OF _ that])
    fix f sz goal r
    assume IH: "\<And>s g y. f s g = Some y \<Longrightarrow> s \<noteq> (0 :: nat) \<or> g = (0 :: nat)"
      and e: "(if sz < goal then f (2 * sz) goal else Some sz) = Some (r :: nat)"
    show "sz \<noteq> 0 \<or> goal = 0" using IH [of "2 * sz" goal r] e by (cases "sz < goal") auto
  qed
  with r g show False by blast
qed

lemma extend_by_spec:
  assumes "membuff_ok mb" and "membuff_extend_by mb want maxsz realloc = Some (ret, mb')"
  shows "membuff_ok mb' \<and> contents mb' = contents mb \<and>
    (if ret = 0 then length (mem mb) < length (mem mb') else mb' = mb)"
proof -
  obtain h t m where mb: "mb = \<lparr>mem = m, mstart = True, mhead = int h, mtail = int t\<rparr>"
    and b: "h < length m" "t < length m" using membuff_ok_cases [OF assms(1)] .
  obtain s0 where s0: "double_until (length m) (length m + want) = Some s0"
    using double_until_total [of "length m"] b by (metis gr_implies_not0 length_greater_0_conv list.size(3))
  define sz where "sz = (if maxsz \<noteq> - 1 then min (int s0) maxsz else int s0)"
  define x where "x = sz - int (length m)"
  consider (big) "x \<le> 0" | (nomem) "0 < x" "realloc (nat x) = None" | (ok) fresh where "0 < x" "realloc (nat x) = Some fresh"
    by (metis linorder_not_less option.exhaust)
  then show ?thesis
  proof cases
    case big
    then show ?thesis using assms s0 by (auto simp: membuff_extend_by_def mb Let_def sz_def x_def E2BIG_def)
  next
    case nomem
    then show ?thesis using assms s0 by (auto simp: membuff_extend_by_def mb Let_def sz_def x_def ENOMEM_def)
  next
    case ok
    define k where "k = nat x"
    define g where "g = m @ take k (fresh @ replicate k 0)"
    have xk: "x = int k" "0 < k" using ok by (auto simp: k_def)
    have lg: "length g = length m + k" by (simp add: g_def)
    have e: "ret = 0" "mb' = (if h < t
        then \<lparr>mem = move (t + k) t (length m - t) g, mstart = True, mhead = int h, mtail = int t + int k\<rparr>
        else \<lparr>mem = g, mstart = True, mhead = int h, mtail = int t\<rparr>)"
    proof -
      have n: "\<not> sz \<le> int (length m)" "sz - int (length m) = int k" using ok(1) xk by (auto simp: x_def)
      have lt: "nat (int (length m) - int t) = length m - t" "nat (int t + int k) = t + k" by linarith+
      have "membuff_extend_by mb want maxsz realloc = Some (0, if h < t
        then \<lparr>mem = move (t + k) t (length m - t) g, mstart = True, mhead = int h, mtail = int t + int k\<rparr>
        else \<lparr>mem = g, mstart = True, mhead = int h, mtail = int t\<rparr>)"
        unfolding membuff_extend_by_def mb Let_def
        using s0 ok(2) n lt by (simp add: sz_def [symmetric] g_def k_def [symmetric] xk(1))
      with assms(2) show "ret = 0" "mb' = (if h < t
        then \<lparr>mem = move (t + k) t (length m - t) g, mstart = True, mhead = int h, mtail = int t + int k\<rparr>
        else \<lparr>mem = g, mstart = True, mhead = int h, mtail = int t\<rparr>)" by simp_all
    qed
    show ?thesis
    proof (cases "h < t")
      case True
      define m2 where "m2 = move (t + k) t (length m - t) g"
      have t: "take (length m - t) (drop t g) = drop t m" using b by (simp add: g_def)
      have m2: "m2 = take (t + k) g @ drop t m" using b lg by (simp add: m2_def move_def overwrite_def t)
      have "ring h (t + k) m2 = ring h t m" using True b lg by (simp add: ring_def m2) (simp add: g_def)
      moreover have "length m2 = length m + k" using b lg by (simp add: m2)
      moreover have "mb' = \<lparr>mem = m2, mstart = True, mhead = int h, mtail = int t + int k\<rparr>"
        using e True by (simp add: m2_def)
      ultimately show ?thesis using e(1) xk b by (simp add: mb contents_ring contents_ring_simps membuff_ok_def)
    next
      case False
      have "ring h t g = ring h t m" using False b by (simp add: ring_def g_def)
      then show ?thesis using e False xk b lg by (simp add: mb contents_ring membuff_ok_def)
    qed
  qed
qed

section \<open>The contents of a circbuf\<close>

definition circ_ok :: "circbuf \<Rightarrow> bool" where
  "circ_ok c \<longleftrightarrow> 0 < totalsize c \<and> totalsize c = length (cdata c) \<and> ctop c < totalsize c \<and>
     csize c \<le> totalsize c \<and> ctail c = (ctop c + csize c) mod totalsize c"

definition ccontents :: "circbuf \<Rightarrow> bytes" where
  "ccontents c = map (\<lambda>i. cdata c ! ((ctop c + i) mod totalsize c)) [0..<csize c]"

lemma cnext_mod: "p < length (cdata c) \<Longrightarrow> cnext c p = (p + 1) mod length (cdata c)"
  by (auto simp: cnext_def)

lemma mod_add_neq:
  assumes "i < j" and "j < n + i"
  shows "(a + i) mod n \<noteq> (a + j) mod (n :: nat)"
proof
  assume "(a + i) mod n = (a + j) mod n"
  then have "n dvd j - i" using assms(1) mod_eq_dvd_iff_nat [of "a + i" "a + j" n] by auto
  moreover have "0 < j - i" "j - i < n" using assms by auto
  ultimately show False by (simp add: nat_dvd_not_less)
qed

lemma push_byte_spec:
  assumes "circ_ok c"
  shows "circ_ok (push_byte b c) \<and> totalsize (push_byte b c) = totalsize c \<and>
    ccontents (push_byte b c) = (if csize c < totalsize c then ccontents c @ [b] else tl (ccontents c) @ [b])"
proof -
  let ?n = "totalsize c"
  have n: "0 < ?n" "length (cdata c) = ?n" "ctop c < ?n" "csize c \<le> ?n" "ctail c = (ctop c + csize c) mod ?n"
    using assms by (auto simp: circ_ok_def)
  have tl: "ctail c < ?n" using n by simp
  define d where "d = (cdata c)[ctail c := b]"
  have nx: "cnext c (ctail c) = (ctop c + csize c + 1) mod ?n"
    using cnext_mod [of "ctail c" c] n tl by (simp add: mod_Suc_eq)
  show ?thesis
  proof (cases "csize c < ?n")
    case True
    have p: "push_byte b c = c\<lparr>cdata := d, ctail := cnext c (ctail c), csize := csize c + 1\<rparr>"
      using True by (simp add: push_byte_def Let_def d_def)
    have "d ! ((ctop c + i) mod ?n) = cdata c ! ((ctop c + i) mod ?n)" if "i < csize c" for i
      using mod_add_neq [of i "csize c" ?n "ctop c"] that True n(5) by (simp add: d_def)
    moreover have "d ! ((ctop c + csize c) mod ?n) = b" using tl n by (simp add: d_def)
    ultimately have "ccontents (push_byte b c) = ccontents c @ [b]" by (simp add: p ccontents_def)
    moreover have "circ_ok (push_byte b c)" using n nx True by (simp add: p circ_ok_def d_def)
    ultimately show ?thesis using True by (simp add: p)
  next
    case False
    then have full: "csize c = ?n" using n by simp
    then have tt: "ctail c = ctop c" using n by simp
    have nx2: "cnext (c\<lparr>cdata := d, ctail := cnext c (ctail c)\<rparr>) (ctop c) = (ctop c + 1) mod ?n"
      using n cnext_mod [of "ctop c" "c\<lparr>cdata := d, ctail := cnext c (ctail c)\<rparr>"] by (simp add: d_def)
    have p: "push_byte b c = c\<lparr>cdata := d, ctail := cnext c (ctail c), ctop := (ctop c + 1) mod ?n\<rparr>"
      using False nx2 by (simp add: push_byte_def Let_def d_def)
    have old: "d ! ((ctop c + 1 + i) mod ?n) = cdata c ! ((ctop c + (i + 1)) mod ?n)" if "i < ?n - 1" for i
      using mod_add_neq [of 0 "i + 1" ?n "ctop c"] that tt n by (simp add: d_def)
    have new: "d ! ((ctop c + 1 + (?n - 1)) mod ?n) = b" using tt n by (simp add: d_def)
    have "ccontents (push_byte b c) = map (\<lambda>i. d ! ((ctop c + 1 + i) mod ?n)) [0..<?n]"
      by (simp add: p ccontents_def full mod_add_left_eq)
    also have "[0..<?n] = [0..<?n - 1] @ [?n - 1]" using n(1) by (metis Suc_pred' upt_Suc_append zero_le)
    also have "map (\<lambda>i. d ! ((ctop c + 1 + i) mod ?n)) ([0..<?n - 1] @ [?n - 1]) =
        map (\<lambda>i. cdata c ! ((ctop c + (i + 1)) mod ?n)) [0..<?n - 1] @ [b]"
      using old new by simp
    also have "map (\<lambda>i. cdata c ! ((ctop c + (i + 1)) mod ?n)) [0..<?n - 1] = tl (ccontents c)"
      using n(1) by (intro nth_equalityI) (simp_all add: ccontents_def full nth_tl less_diff_conv)
    finally have "ccontents (push_byte b c) = tl (ccontents c) @ [b]" .
    moreover have "Suc (ctop c + ?n) mod ?n = Suc (ctop c) mod ?n" by (metis add_Suc mod_add_self2)
    then have "circ_ok (push_byte b c)"
      using n nx full by (simp add: p circ_ok_def d_def mod_add_left_eq)
    ultimately show ?thesis using False by (simp add: p)
  qed
qed

lemma length_ccontents: "length (ccontents c) = csize c"
  by (simp add: ccontents_def)

text \<open>Pushing keeps the newest \<open>totalsize\<close> bytes.\<close>

lemma buf_push_spec:
  assumes "circ_ok c"
  shows "circ_ok (buf_push c bs) \<and> totalsize (buf_push c bs) = totalsize c \<and>
    ccontents (buf_push c bs) =
      drop (length (ccontents c) + length bs - totalsize c) (ccontents c @ bs)"
  using assms
proof (induction bs arbitrary: c)
  case Nil
  then have "csize c \<le> totalsize c" by (simp add: circ_ok_def)
  with Nil show ?case by (simp add: buf_push_def length_ccontents)
next
  case (Cons b bs)
  note p = push_byte_spec [OF Cons.prems, of b]
  have sz: "csize c \<le> totalsize c" "0 < totalsize c" using Cons.prems by (auto simp: circ_ok_def)
  have IH: "circ_ok (buf_push c (b # bs))" "totalsize (buf_push c (b # bs)) = totalsize c"
    "ccontents (buf_push c (b # bs)) =
      drop (length (ccontents (push_byte b c)) + length bs - totalsize c) (ccontents (push_byte b c) @ bs)"
    using Cons.IH [of "push_byte b c"] p by (simp_all add: buf_push_def)
  show ?case
  proof (cases "csize c < totalsize c")
    case True
    then show ?thesis using IH p by simp
  next
    case False
    then have l: "length (ccontents c) = totalsize c" using sz by (simp add: length_ccontents)
    then obtain x xs where x: "ccontents c = x # xs" using sz(2) by (cases "ccontents c") auto
    moreover from this have "totalsize c = Suc (length xs)" using l by simp
    ultimately show ?thesis using IH p False by simp
  qed
qed

lemma pop_loop_spec:
  "p < length (cdata c) \<Longrightarrow> pop_loop c n p =
     (map (\<lambda>i. cdata c ! ((p + i) mod length (cdata c))) [0..<n], (p + n) mod length (cdata c))"
proof (induction n arbitrary: p)
  case (Suc n)
  let ?N = "length (cdata c)"
  have N: "0 < ?N" using Suc.prems by linarith
  have "pop_loop c n (cnext c p) =
      (map (\<lambda>i. cdata c ! (((p + 1) mod ?N + i) mod ?N)) [0..<n], ((p + 1) mod ?N + n) mod ?N)"
    using Suc.IH [of "(p + 1) mod ?N"] N by (simp add: cnext_mod [OF Suc.prems])
  moreover have "map (\<lambda>i. cdata c ! ((p + i) mod ?N)) [0..<Suc n] =
      cdata c ! p # map (\<lambda>i. cdata c ! ((p + 1 + i) mod ?N)) [0..<n]"
    using Suc.prems by (intro nth_equalityI) (auto simp: nth_Cons' less_Suc_eq_0_disj nth_append)
  ultimately show ?case by (simp add: mod_add_left_eq)
qed simp

lemma buf_pop_spec:
  assumes "circ_ok c"
  shows "\<exists>c'. buf_pop c n = (take n (ccontents c), c') \<and> circ_ok c' \<and> totalsize c' = totalsize c \<and>
    ccontents c' = drop n (ccontents c)"
proof -
  let ?N = "totalsize c"
  define k where "k = (if csize c < n then csize c else n)"
  have c: "0 < ?N" "length (cdata c) = ?N" "ctop c < ?N" "csize c \<le> ?N" "ctail c = (ctop c + csize c) mod ?N"
    using assms by (auto simp: circ_ok_def)
  have k: "k \<le> csize c" "take n [0..<csize c] = [0..<k]" "drop n [0..<csize c] = [k..<csize c]"
    by (auto simp: k_def min_def)
  define c' where "c' = c\<lparr>ctop := (ctop c + k) mod ?N, csize := csize c - k\<rparr>"
  have p: "buf_pop c n = (take n (ccontents c), c')"
    using pop_loop_spec [of "ctop c" c k] c
    by (simp add: buf_pop_def k_def [symmetric] Let_def c'_def ccontents_def take_map k(2))
  have "((ctop c + k) mod ?N + (csize c - k)) mod ?N = (ctop c + k + (csize c - k)) mod ?N"
    by (rule mod_add_left_eq)
  also have "ctop c + k + (csize c - k) = ctop c + csize c" using k(1) by simp
  finally have "circ_ok c'" using c by (auto simp: circ_ok_def c'_def)
  moreover have "ccontents c' = drop k (ccontents c)"
    using k(1) by (intro nth_equalityI)
      (auto simp: ccontents_def c'_def mod_add_left_eq add.assoc)
  moreover have "drop k (ccontents c) = drop n (ccontents c)" by (simp add: k_def length_ccontents)
  ultimately show ?thesis using p by (simp add: c'_def)
qed

section \<open>First in, first out\<close>

datatype qop = Put bytes | Get nat

text \<open>What a queue should do with a sequence of operations: the bytes that come out, and what stays.\<close>

fun fifo_spec :: "qop list \<Rightarrow> bytes \<Rightarrow> bytes \<times> bytes" where
  "fifo_spec [] q = ([], q)"
| "fifo_spec (Put bs # ops) q = fifo_spec ops (q @ bs)"
| "fifo_spec (Get n # ops) q = apfst ((@) (take n q)) (fifo_spec ops (drop n q))"

fun fits :: "nat \<Rightarrow> qop list \<Rightarrow> bytes \<Rightarrow> bool" where
  "fits cap [] q \<longleftrightarrow> True"
| "fits cap (Put bs # ops) q \<longleftrightarrow> length q + length bs \<le> cap \<and> fits cap ops (q @ bs)"
| "fits cap (Get n # ops) q \<longleftrightarrow> fits cap ops (drop n q)"

fun qrun :: "('s \<Rightarrow> bytes \<Rightarrow> 's) \<Rightarrow> ('s \<Rightarrow> nat \<Rightarrow> bytes \<times> 's) \<Rightarrow> qop list \<Rightarrow> 's \<Rightarrow> bytes \<times> 's" where
  "qrun put get [] s = ([], s)"
| "qrun put get (Put bs # ops) s = qrun put get ops (put s bs)"
| "qrun put get (Get n # ops) s = (case get s n of (bs, s1) \<Rightarrow> apfst ((@) bs) (qrun put get ops s1))"

locale byte_fifo =
  fixes ok :: "'s \<Rightarrow> bool" and abst :: "'s \<Rightarrow> bytes" and cap :: "'s \<Rightarrow> nat"
    and put :: "'s \<Rightarrow> bytes \<Rightarrow> 's" and get :: "'s \<Rightarrow> nat \<Rightarrow> bytes \<times> 's"
  assumes put_law: "ok s \<Longrightarrow> length (abst s) + length bs \<le> cap s \<Longrightarrow>
      ok (put s bs) \<and> cap (put s bs) = cap s \<and> abst (put s bs) = abst s @ bs"
    and get_law: "ok s \<Longrightarrow> \<exists>s'. get s n = (take n (abst s), s') \<and> ok s' \<and> cap s' = cap s \<and> abst s' = drop n (abst s)"
begin

lemma run_fifo:
  assumes "ok s" and "fits (cap s) ops (abst s)"
  shows "fst (qrun put get ops s) = fst (fifo_spec ops (abst s)) \<and>
    abst (snd (qrun put get ops s)) = snd (fifo_spec ops (abst s)) \<and> ok (snd (qrun put get ops s))"
  using assms
proof (induction ops arbitrary: s)
  case (Cons x ops)
  show ?case
  proof (cases x)
    case (Put bs)
    then show ?thesis using Cons.IH [of "put s bs"] put_law [OF Cons.prems(1), of bs] Cons.prems(2) by simp
  next
    case (Get n)
    obtain s' where "get s n = (take n (abst s), s')" "ok s'" "cap s' = cap s" "abst s' = drop n (abst s)"
      using get_law [OF Cons.prems(1)] by blast
    then show ?thesis using Get Cons.IH [of s'] Cons.prems(2) by simp
  qed
qed simp

end

definition mb_put :: "membuff \<Rightarrow> bytes \<Rightarrow> membuff" where
  "mb_put mb bs = (case membuff_put mb bs of Done (_, mb') \<Rightarrow> mb' | _ \<Rightarrow> mb)"

interpretation mbq: byte_fifo membuff_ok contents "\<lambda>mb. length (mem mb) - 1" mb_put "\<lambda>mb n. membuff_get mb (int n)"
proof unfold_locales
  fix s and bs :: bytes assume a: "membuff_ok s" "length (contents s) + length bs \<le> length (mem s) - 1"
  then have "length bs \<le> space s" by (simp add: space_def)
  then show "membuff_ok (mb_put s bs) \<and> length (mem (mb_put s bs)) - 1 = length (mem s) - 1 \<and>
      contents (mb_put s bs) = contents s @ bs"
    using membuff_put_spec [OF a(1), of bs] by (auto simp: mb_put_def)
next
  fix s n assume "membuff_ok s"
  then show "\<exists>s'. membuff_get s (int n) = (take n (contents s), s') \<and> membuff_ok s' \<and>
      length (mem s') - 1 = length (mem s) - 1 \<and> contents s' = drop n (contents s)"
    using membuff_get_spec [of s "int n"] by auto
qed

interpretation cbq: byte_fifo circ_ok ccontents totalsize buf_push buf_pop
proof unfold_locales
  fix s and bs :: bytes assume "circ_ok s" "length (ccontents s) + length bs \<le> totalsize s"
  then show "circ_ok (buf_push s bs) \<and> totalsize (buf_push s bs) = totalsize s \<and>
      ccontents (buf_push s bs) = ccontents s @ bs"
    using buf_push_spec [of s bs] by simp
next
  fix s n assume "circ_ok s"
  then show "\<exists>s'. buf_pop s n = (take n (ccontents s), s') \<and> circ_ok s' \<and> totalsize s' = totalsize s \<and>
      ccontents s' = drop n (ccontents s)"
    using buf_pop_spec [of s n] by blast
qed

section \<open>Properties\<close>

lemma new_membuff_ok: "0 < length b \<Longrightarrow> membuff_ok (membuff_init b) \<and> contents (membuff_init b) = []"
  by (simp add: membuff_ok_def membuff_init_def membuff_purge_def contents_def)

lemma new_circ_ok: "0 < length b \<Longrightarrow> circ_ok (buf_init b) \<and> ccontents (buf_init b) = []"
  by (simp add: circ_ok_def buf_init_def ccontents_def)

text \<open>C24: any sequence of puts and gets on a fresh membuff that never asks for more than \<open>size - 1\<close>
  bytes of room delivers the bytes in the order they were put, across every wrap of the ring.\<close>

theorem membuff_is_fifo:
  assumes "0 < length b" and "fits (length b - 1) ops []"
  shows "fst (qrun mb_put (\<lambda>mb n. membuff_get mb (int n)) ops (membuff_init b)) = fst (fifo_spec ops [])"
  using mbq.run_fifo [of "membuff_init b" ops] new_membuff_ok [OF assms(1)] assms(2)
  by (simp add: membuff_init_def membuff_purge_def)

theorem membuff_is_fifo_witness:
  "fst (qrun mb_put (\<lambda>mb n. membuff_get mb (int n)) [Put [1, 2], Get 1, Put [3, 4], Get 9] (membuff_init [0, 0, 0, 0]))
     = [1, 2, 3, 4]"
  using membuff_is_fifo [of "[0, 0, 0, 0]" "[Put [1, 2], Get 1, Put [3, 4], Get 9]"] by simp

text \<open>C25: a put never leaves the buffer; it takes exactly what fits, reports how much, and appends
  that to the contents.\<close>

theorem membuff_put_takes_what_fits:
  assumes "membuff_ok mb"
  shows "\<exists>mb'. membuff_put mb bs = Done (min (length bs) (length (mem mb) - 1 - length (contents mb)), mb') \<and>
    membuff_ok mb' \<and> contents mb' = contents mb @ take (length (mem mb) - 1 - length (contents mb)) bs"
  using membuff_put_spec [OF assms, of bs] by (auto simp: space_def)

theorem membuff_put_takes_what_fits_witness:
  "\<exists>mb'. membuff_put (membuff_init [0, 0, 0]) [7, 8, 9] = Done (2, mb') \<and> contents mb' = [7, 8]"
proof -
  have ok: "membuff_ok (membuff_init [0, 0, 0])" "contents (membuff_init [0, 0, 0]) = []"
    using new_membuff_ok [of "[0, 0, 0]"] by auto
  have "length (mem (membuff_init [0, 0, 0])) = 3" by (simp add: membuff_init_def membuff_purge_def)
  with membuff_put_takes_what_fits [OF ok(1), of "[7, 8, 9]"] ok(2) show ?thesis by (auto simp: numeral_eq_Suc)
qed

text \<open>Making a membuff contiguous and growing it change neither its contents nor its validity;
  the first, when it succeeds, leaves the data at the start, and the second, when it succeeds,
  leaves more room.  Growing a buffer that has any size at all ends.\<close>

theorem membuff_moves_keep_contents:
  assumes "membuff_ok mb"
  shows "(membuff_makecontig mb = (c, mb1) \<longrightarrow> membuff_ok mb1 \<and> contents mb1 = contents mb \<and> (c \<longrightarrow> mtail mb1 = 0)) \<and>
    (\<exists>ret mb2. membuff_extend_by mb want maxsz realloc = Some (ret, mb2) \<and> membuff_ok mb2 \<and>
       contents mb2 = contents mb \<and> (ret = 0 \<longrightarrow> length (mem mb) < length (mem mb2)))"
proof -
  have "0 < length (mem mb)" using assms by (auto simp: membuff_ok_def)
  then obtain r where "double_until (length (mem mb)) (length (mem mb) + want) = Some r"
    using double_until_total by blast
  then have "membuff_extend_by mb want maxsz realloc \<noteq> None"
    by (simp add: membuff_extend_by_def Let_def split: option.split)
  then obtain ret mb2 where e: "membuff_extend_by mb want maxsz realloc = Some (ret, mb2)" by auto
  show ?thesis
    using makecontig_spec [OF assms, of c mb1] extend_by_spec [OF assms e] e by (auto split: if_splits)
qed

theorem membuff_moves_keep_contents_witness:
  "\<exists>ret mb2. membuff_extend_by (membuff_init [0, 0]) 1 (- 1) (\<lambda>n. Some (replicate n 0)) = Some (ret, mb2) \<and>
     contents mb2 = []"
  using membuff_moves_keep_contents [of "membuff_init [0, 0]"] new_membuff_ok [of "[0, 0]"] by force

text \<open>Pushing into a circbuf keeps the newest \<open>totalsize\<close> bytes of what was there and what was
  pushed, popping delivers the oldest, and the structure stays valid.\<close>

theorem circbuf_keeps_newest:
  assumes "circ_ok c"
  shows "circ_ok (buf_push c bs) \<and>
    ccontents (buf_push c bs) = drop (length (ccontents c) + length bs - totalsize c) (ccontents c @ bs) \<and>
    (\<exists>c'. buf_pop c n = (take n (ccontents c), c') \<and> circ_ok c' \<and> ccontents c' = drop n (ccontents c))"
  using buf_push_spec [OF assms, of bs] buf_pop_spec [OF assms, of n] by blast

theorem circbuf_keeps_newest_witness:
  "ccontents (buf_push (buf_init [0, 0]) [1, 2, 3]) = [2, 3]"
  using circbuf_keeps_newest [of "buf_init [0, 0]" "[1, 2, 3]"] new_circ_ok [of "[0, 0]"]
  by (simp add: buf_init_def)

end
