(* ===== verification/Lmb.thy ===== *)
theory Lmb
  imports Prelude
begin

text \<open>
  The logical memory blocks of U-Boot (\<open>lib/lmb.c\<close>, \<open>include/lmb.h\<close>): the tables of memory and of
  reserved ranges from which the boot code places the device tree and the initial ram disk.
  \<open>phys_addr_t\<close> and \<open>unsigned long\<close> are 32 bits wide on the RK3128, and all sums wrap.  A table is an array
  of 17 entries of which the first \<open>cnt\<close> count; an access outside of it is a \<open>Fault\<close>.  The lemmas
  relate every operation to the set of addresses the counted entries cover.
\<close>

section \<open>Tables\<close>

definition MAX_LMB_REGIONS :: nat where "MAX_LMB_REGIONS = 16"
definition LMB_ALLOC_ANYWHERE :: u32 where "LMB_ALLOC_ANYWHERE = 0"

record lmb_property =
  lbase :: u32
  lsize :: u32

record lmb_region =
  cnt :: u32
  rgn_size :: u32
  region :: "lmb_property list"

record lmb =
  memory :: lmb_region
  reserved :: lmb_region

abbreviation block :: "u32 \<Rightarrow> u32 \<Rightarrow> lmb_property" where
  "block b s \<equiv> \<lparr>lbase = b, lsize = s\<rparr>"

definition entry :: "lmb_region \<Rightarrow> nat \<Rightarrow> lmb_property outcome" where
  "entry rgn i = (if i < length (region rgn) then Done (region rgn ! i) else Fault)"

definition set_entry :: "lmb_region \<Rightarrow> nat \<Rightarrow> lmb_property \<Rightarrow> lmb_region" where
  "set_entry rgn i p = rgn\<lparr>region := (region rgn)[i := p]\<rparr>"

definition lmb_addrs_overlap :: "u32 \<Rightarrow> u32 \<Rightarrow> u32 \<Rightarrow> u32 \<Rightarrow> bool" where
  "lmb_addrs_overlap base1 size1 base2 size2 \<longleftrightarrow> base1 < base2 + size2 \<and> base2 < base1 + size1"

definition lmb_addrs_adjacent :: "u32 \<Rightarrow> u32 \<Rightarrow> u32 \<Rightarrow> u32 \<Rightarrow> int" where
  "lmb_addrs_adjacent base1 size1 base2 size2 =
     (if base2 = base1 + size1 then 1 else if base1 = base2 + size2 then - 1 else 0)"

definition lmb_regions_adjacent :: "lmb_region \<Rightarrow> nat \<Rightarrow> nat \<Rightarrow> int outcome" where
  "lmb_regions_adjacent rgn r1 r2 =
     bind_outcome (entry rgn r1) (\<lambda>p. bind_outcome (entry rgn r2) (\<lambda>q.
       Done (lmb_addrs_adjacent (lbase p) (lsize p) (lbase q) (lsize q))))"

text \<open>The loop of \<open>lmb_remove_region\<close> from index \<open>i\<close> on.\<close>

function move_down :: "lmb_region \<Rightarrow> nat \<Rightarrow> lmb_region outcome" where
  "move_down rgn i =
     (if i < unat (cnt rgn - 1) then
        if i + 1 < length (region rgn)
        then move_down (set_entry rgn i (region rgn ! (i + 1))) (i + 1)
        else Fault
      else Done rgn)"
  by pat_completeness auto
termination
  by (relation "measure (\<lambda>(rgn, i). length (region rgn) - i)") (auto simp: set_entry_def)

definition lmb_remove_region :: "lmb_region \<Rightarrow> nat \<Rightarrow> lmb_region outcome" where
  "lmb_remove_region rgn r = bind_outcome (move_down rgn r) (\<lambda>g. Done (g\<lparr>cnt := cnt g - 1\<rparr>))"

definition lmb_coalesce_regions :: "lmb_region \<Rightarrow> nat \<Rightarrow> nat \<Rightarrow> lmb_region outcome" where
  "lmb_coalesce_regions rgn r1 r2 =
     bind_outcome (entry rgn r1) (\<lambda>p. bind_outcome (entry rgn r2) (\<lambda>q.
       lmb_remove_region (set_entry rgn r1 (p\<lparr>lsize := lsize p + lsize q\<rparr>)) r2))"

definition lmb_init_region :: "lmb_region \<Rightarrow> lmb_region" where
  "lmb_init_region rgn = (set_entry rgn 0 (block 0 0))\<lparr>cnt := 1, rgn_size := 0\<rparr>"

definition lmb_init :: "lmb \<Rightarrow> lmb" where
  "lmb_init l = l\<lparr>memory := lmb_init_region (memory l), reserved := lmb_init_region (reserved l)\<rparr>"

text \<open>
  The shape of all searching loops of the file: the first index below \<open>cnt\<close>, from \<open>i\<close> on, whose entry
  satisfies the condition of the loop's \<open>break\<close> or \<open>return\<close>; \<open>cnt\<close> when there is none.
\<close>

function first_from :: "(lmb_property \<Rightarrow> bool) \<Rightarrow> lmb_region \<Rightarrow> nat \<Rightarrow> nat outcome" where
  "first_from P rgn i =
     (if i < unat (cnt rgn) then
        (case entry rgn i of
           Done p \<Rightarrow> if P p then Done i else first_from P rgn (i + 1)
         | Fatal e \<Rightarrow> Fatal e
         | Fault \<Rightarrow> Fault)
      else Done i)"
  by pat_completeness auto
termination
  by (relation "measure (\<lambda>(P, rgn, i). unat (cnt rgn) - i)") auto

section \<open>Adding a range\<close>

definition same_block :: "u32 \<Rightarrow> u32 \<Rightarrow> lmb_property \<Rightarrow> bool" where
  "same_block base sz p \<longleftrightarrow> lbase p = base \<and> lsize p = sz"

definition touches :: "u32 \<Rightarrow> u32 \<Rightarrow> lmb_property \<Rightarrow> bool" where
  "touches base sz p \<longleftrightarrow> lmb_addrs_adjacent base sz (lbase p) (lsize p) \<noteq> 0"

definition hits :: "u32 \<Rightarrow> u32 \<Rightarrow> lmb_property \<Rightarrow> bool" where
  "hits base sz p \<longleftrightarrow> same_block base sz p \<or> touches base sz p"

definition absorb :: "u32 \<Rightarrow> u32 \<Rightarrow> lmb_property \<Rightarrow> lmb_property" where
  "absorb base sz p =
     (if 0 < lmb_addrs_adjacent base sz (lbase p) (lsize p)
      then block (lbase p - sz) (lsize p + sz)
      else p\<lparr>lsize := lsize p + sz\<rparr>)"

text \<open>The insertion loop with \<open>i = n - 1\<close>, counting down.\<close>

fun shift_in :: "u32 \<Rightarrow> u32 \<Rightarrow> lmb_property list \<Rightarrow> nat \<Rightarrow> lmb_property list" where
  "shift_in base sz ps 0 = ps"
| "shift_in base sz ps (Suc i) =
     (if base < lbase (ps ! i)
      then shift_in base sz (ps[i + 1 := ps ! i]) i
      else ps[i + 1 := block base sz])"

definition insert_block :: "lmb_region \<Rightarrow> u32 \<Rightarrow> u32 \<Rightarrow> lmb_region" where
  "insert_block rgn base sz =
     (let ps = shift_in base sz (region rgn) (unat (cnt rgn));
          ps1 = (if base < lbase (ps ! 0) then ps[0 := block base sz] else ps)
      in rgn\<lparr>region := ps1, cnt := cnt rgn + 1\<rparr>)"

definition join_next :: "lmb_region \<Rightarrow> nat \<Rightarrow> (int \<times> lmb_region) outcome" where
  "join_next rgn i =
     (if i < unat (cnt rgn - 1) then
        bind_outcome (lmb_regions_adjacent rgn i (i + 1)) (\<lambda>a.
          if a \<noteq> 0 then bind_outcome (lmb_coalesce_regions rgn i (i + 1)) (\<lambda>g. Done (1, g))
          else Done (0, rgn))
      else Done (0, rgn))"

definition lmb_add_region :: "lmb_region \<Rightarrow> u32 \<Rightarrow> u32 \<Rightarrow> (int \<times> lmb_region) outcome" where
  "lmb_add_region rgn base sz =
     bind_outcome (entry rgn 0) (\<lambda>p0.
       if cnt rgn = 1 \<and> lsize p0 = 0 then Done (0, set_entry rgn 0 (block base sz))
       else bind_outcome (first_from (hits base sz) rgn 0) (\<lambda>i.
         if i < unat (cnt rgn) \<and> same_block base sz (region rgn ! i) then Done (0, rgn)
         else
           (let hit = i < unat (cnt rgn);
                rgn1 = (if hit then set_entry rgn i (absorb base sz (region rgn ! i)) else rgn)
            in bind_outcome (join_next rgn1 i) (\<lambda>(c, rgn2).
                 let coalesced = (if hit then 1 else 0) + c
                 in if coalesced \<noteq> 0 then Done (coalesced, rgn2)
                    else if MAX_LMB_REGIONS \<le> unat (cnt rgn2) then Done (- 1, rgn2)
                    else Done (0, insert_block rgn2 base sz)))))"

definition lmb_add :: "lmb \<Rightarrow> u32 \<Rightarrow> u32 \<Rightarrow> (int \<times> lmb) outcome" where
  "lmb_add l base sz = bind_outcome (lmb_add_region (memory l) base sz) (\<lambda>(r, g). Done (r, l\<lparr>memory := g\<rparr>))"

definition lmb_reserve :: "lmb \<Rightarrow> u32 \<Rightarrow> u32 \<Rightarrow> (int \<times> lmb) outcome" where
  "lmb_reserve l base sz =
     bind_outcome (lmb_add_region (reserved l) base sz) (\<lambda>(r, g). Done (r, l\<lparr>reserved := g\<rparr>))"

section \<open>Freeing a range\<close>

definition lmb_free_region :: "lmb_region \<Rightarrow> u32 \<Rightarrow> u32 \<Rightarrow> (int \<times> lmb_region) outcome" where
  "lmb_free_region rgn base sz =
     (let fin = base + sz
      in bind_outcome (first_from (\<lambda>p. lbase p \<le> base \<and> fin \<le> lbase p + lsize p) rgn 0) (\<lambda>i.
           if i = unat (cnt rgn) then Done (- 1, rgn)
           else bind_outcome (entry rgn i) (\<lambda>p.
             let rgnbegin = lbase p; rgnend = lbase p + lsize p
             in if rgnbegin = base \<and> rgnend = fin then
                  bind_outcome (lmb_remove_region rgn i) (\<lambda>g. Done (0, g))
                else if rgnbegin = base then
                  Done (0, set_entry rgn i (block fin (lsize p - sz)))
                else if rgnend = fin then
                  Done (0, set_entry rgn i (p\<lparr>lsize := lsize p - sz\<rparr>))
                else
                  lmb_add_region (set_entry rgn i (p\<lparr>lsize := base - lbase p\<rparr>)) fin (rgnend - fin))))"

definition lmb_free :: "lmb \<Rightarrow> u32 \<Rightarrow> u32 \<Rightarrow> (int \<times> lmb) outcome" where
  "lmb_free l base sz =
     bind_outcome (lmb_free_region (reserved l) base sz) (\<lambda>(r, g). Done (r, l\<lparr>reserved := g\<rparr>))"

section \<open>Searching and allocating\<close>

definition lmb_overlaps_region :: "lmb_region \<Rightarrow> u32 \<Rightarrow> u32 \<Rightarrow> int outcome" where
  "lmb_overlaps_region rgn base sz =
     bind_outcome (first_from (\<lambda>p. lmb_addrs_overlap base sz (lbase p) (lsize p)) rgn 0) (\<lambda>i.
       Done (if i < unat (cnt rgn) then int i else - 1))"

definition lmb_align_down :: "u32 \<Rightarrow> u32 \<Rightarrow> u32" where
  "lmb_align_down addr sz = addr AND NOT (sz - 1)"

definition lmb_align_up :: "u32 \<Rightarrow> u32 \<Rightarrow> u32" where
  "lmb_align_up addr sz = (addr + (sz - 1)) AND NOT (sz - 1)"

lemma first_from_hit:
  "i < unat (cnt rgn) \<Longrightarrow> i < length (region rgn) \<Longrightarrow>
     first_from P rgn i = (if P (region rgn ! i) then Done i else first_from P rgn (Suc i))"
  by (simp add: entry_def)

lemma first_from_end: "\<not> i < unat (cnt rgn) \<Longrightarrow> first_from P rgn i = Done i"
  by simp

lemma first_from_out: "i < unat (cnt rgn) \<Longrightarrow> \<not> i < length (region rgn) \<Longrightarrow> first_from P rgn i = Fault"
  by (simp add: entry_def)

declare first_from.simps [simp del]

lemma first_from_found:
  assumes "first_from P rgn i = Done j" "j < unat (cnt rgn)"
  shows "j < length (region rgn) \<and> P (region rgn ! j)"
  using assms
proof (induction "unat (cnt rgn) - i" arbitrary: i)
  case 0
  then show ?case by (simp add: first_from_end)
next
  case (Suc n)
  then have i: "i < unat (cnt rgn)" by simp
  show ?case
  proof (cases "i < length (region rgn)")
    case True
    then show ?thesis
      using Suc.prems Suc.hyps(1) [of "Suc i"] Suc.hyps(2) i
      by (auto simp: first_from_hit split: if_splits)
  next
    case False
    then show ?thesis using Suc.prems i by (simp add: first_from_out)
  qed
qed

lemma overlap_gives_progress:
  fixes base sz rb rs :: u32
  assumes "lmb_addrs_overlap base sz rb rs" "sz \<le> rb"
  shows "unat (rb - sz) < unat base"
proof -
  have lt: "unat rb < unat (base + sz)"
    using assms(1) by (simp add: lmb_addrs_overlap_def word_less_nat_alt)
  have s: "unat sz \<le> unat rb"
    using assms(2) by (simp add: word_le_nat_alt)
  have "unat (base + sz) \<le> unat base + unat sz"
    by (simp add: unat_word_ariths)
  then show ?thesis
    using lt s by (simp add: unat_sub word_le_nat_alt)
qed

lemma align_down_le: "unat (lmb_align_down x a) \<le> unat x"
  unfolding lmb_align_down_def word_le_nat_alt [symmetric] by (rule word_and_le2)

text \<open>
  The \<open>while\<close> loop of \<open>__lmb_alloc_base\<close> in one memory region: \<open>Some\<close> when the function returns from within,
  \<open>None\<close> when the loop ends and the next region is tried.
\<close>

function take_area :: "lmb \<Rightarrow> u32 \<Rightarrow> u32 \<Rightarrow> u32 \<Rightarrow> u32 \<Rightarrow> (u32 \<times> lmb) option outcome" where
  "take_area l sz align lmbbase base =
     (if base \<noteq> 0 \<and> lmbbase \<le> base then
        (case lmb_overlaps_region (reserved l) base sz of
           Done j \<Rightarrow>
             if j < 0 then
               bind_outcome (lmb_add_region (reserved l) base (lmb_align_up sz align)) (\<lambda>(r, g).
                 Done (Some (if r < 0 then 0 else base, l\<lparr>reserved := g\<rparr>)))
             else
               (let res_base = lbase (region (reserved l) ! nat j)
                in if res_base < sz then Done None
                   else take_area l sz align lmbbase (lmb_align_down (res_base - sz) align))
         | Fatal e \<Rightarrow> Fatal e
         | Fault \<Rightarrow> Fault)
      else Done None)"
  by pat_completeness auto
termination
proof (relation "measure (\<lambda>(l, sz, align, lmbbase, base). unat base)", simp, goal_cases)
  case (1 l sz align lmbbase base j x)
  from 1(2) obtain i where i: "first_from (\<lambda>p. lmb_addrs_overlap base sz (lbase p) (lsize p)) (reserved l) 0 = Done i"
    and j: "j = (if i < unat (cnt (reserved l)) then int i else - 1)"
    by (auto simp: lmb_overlaps_region_def bind_outcome_Done_iff)
  with 1(3) have "i < unat (cnt (reserved l))" "j = int i" by (auto split: if_splits)
  with first_from_found [OF i] 1(4) have "lmb_addrs_overlap base sz x (lsize (region (reserved l) ! i))"
    by simp
  then have "unat (x - sz) < unat base"
    using 1(5) by (intro overlap_gives_progress) auto
  then show ?case
    using align_down_le [of "x - sz" align] by simp
qed

fun alloc_down :: "lmb \<Rightarrow> u32 \<Rightarrow> u32 \<Rightarrow> u32 \<Rightarrow> nat \<Rightarrow> (u32 \<times> lmb) outcome" where
  "alloc_down l sz align max_addr 0 = Done (0, l)"
| "alloc_down l sz align max_addr (Suc i) =
     bind_outcome (entry (memory l) i) (\<lambda>p.
       let lmbbase = lbase p; lmbsize = lsize p;
           next_region = alloc_down l sz align max_addr i;
           try_from = (\<lambda>base. bind_outcome (take_area l sz align lmbbase base) (\<lambda>ret.
             case ret of Some res \<Rightarrow> Done res | None \<Rightarrow> next_region))
       in if lmbsize < sz then next_region
          else if max_addr = LMB_ALLOC_ANYWHERE then
            try_from (lmb_align_down (lmbbase + lmbsize - sz) align)
          else if lmbbase < max_addr then
            (let top = lmbbase + lmbsize;
                 top1 = (if top < lmbbase then - 1 else top)
             in try_from (lmb_align_down (min top1 max_addr - sz) align))
          else next_region)"

definition lmb_alloc_base_quiet :: "lmb \<Rightarrow> u32 \<Rightarrow> u32 \<Rightarrow> u32 \<Rightarrow> (u32 \<times> lmb) outcome" where
  "lmb_alloc_base_quiet l sz align max_addr = alloc_down l sz align max_addr (nat (sint (cnt (memory l) - 1) + 1))"

text \<open>\<open>lmb_alloc_base\<close> only adds a message when nothing was found: the flag.\<close>

definition lmb_alloc_base :: "lmb \<Rightarrow> u32 \<Rightarrow> u32 \<Rightarrow> u32 \<Rightarrow> (u32 \<times> bool \<times> lmb) outcome" where
  "lmb_alloc_base l sz align max_addr =
     bind_outcome (lmb_alloc_base_quiet l sz align max_addr) (\<lambda>(a, l1). Done (a, a = 0, l1))"

definition lmb_alloc :: "lmb \<Rightarrow> u32 \<Rightarrow> u32 \<Rightarrow> (u32 \<times> bool \<times> lmb) outcome" where
  "lmb_alloc l sz align = lmb_alloc_base l sz align LMB_ALLOC_ANYWHERE"

definition lmb_is_reserved :: "lmb \<Rightarrow> u32 \<Rightarrow> int outcome" where
  "lmb_is_reserved l addr =
     bind_outcome (first_from (\<lambda>p. lbase p \<le> addr \<and> addr \<le> lbase p + lsize p - 1) (reserved l) 0) (\<lambda>i.
       Done (if i < unat (cnt (reserved l)) then 1 else 0))"

section \<open>The counted entries\<close>

text \<open>
  What a table stands for: its counted entries, and the addresses they cover.  A table is \<open>sound\<close> when
  the entries are in order, do not overlap, do not reach the end of the address space and, but for the
  single entry of a fresh table, are not empty.
\<close>

definition blocks :: "lmb_region \<Rightarrow> lmb_property list" where
  "blocks rgn = take (unat (cnt rgn)) (region rgn)"

definition lend :: "lmb_property \<Rightarrow> nat" where
  "lend p = unat (lbase p) + unat (lsize p)"

definition span :: "lmb_property \<Rightarrow> nat set" where
  "span p = {unat (lbase p)..<lend p}"

definition covers :: "lmb_region \<Rightarrow> nat set" where
  "covers rgn = (\<Union>p\<in>set (blocks rgn). span p)"

definition tidy :: "lmb_property list \<Rightarrow> bool" where
  "tidy ps \<longleftrightarrow> sorted_wrt (\<lambda>p q. lend p \<le> unat (lbase q)) ps \<and> (\<forall>p\<in>set ps. lend p < 2 ^ 32)"

definition solid :: "lmb_property list \<Rightarrow> bool" where
  "solid ps \<longleftrightarrow> (\<forall>p\<in>set ps. 0 < lsize p)"

definition shaped :: "lmb_region \<Rightarrow> bool" where
  "shaped rgn \<longleftrightarrow> length (region rgn) = Suc MAX_LMB_REGIONS \<and> 1 \<le> unat (cnt rgn) \<and> unat (cnt rgn) \<le> MAX_LMB_REGIONS"

definition sound :: "lmb_region \<Rightarrow> bool" where
  "sound rgn \<longleftrightarrow> shaped rgn \<and> tidy (blocks rgn) \<and> (solid (blocks rgn) \<or> cnt rgn = 1)"

lemma length_blocks: "shaped rgn \<Longrightarrow> length (blocks rgn) = unat (cnt rgn)"
  by (simp add: blocks_def shaped_def MAX_LMB_REGIONS_def)

lemma nth_blocks: "i < unat (cnt rgn) \<Longrightarrow> blocks rgn ! i = region rgn ! i"
  by (simp add: blocks_def)

lemma first_from_shaped:
  assumes "unat (cnt rgn) \<le> length (region rgn)" "i \<le> unat (cnt rgn)"
  shows "first_from P rgn i = Done (i + length (takeWhile (\<lambda>p. \<not> P p) (drop i (blocks rgn))))"
  using assms
proof (induction "unat (cnt rgn) - i" arbitrary: i)
  case 0
  then show ?case by (simp add: first_from_end blocks_def)
next
  case (Suc n)
  then have i: "i < unat (cnt rgn)" "i < length (region rgn)" by auto
  then have "drop i (blocks rgn) = region rgn ! i # drop (Suc i) (blocks rgn)"
    by (simp add: blocks_def flip: Cons_nth_drop_Suc)
  with i Suc show ?case by (simp add: first_from_hit)
qed

lemma first_from_none:
  assumes "shaped rgn" "\<forall>p\<in>set (blocks rgn). \<not> P p"
  shows "first_from P rgn 0 = Done (unat (cnt rgn))"
proof -
  have "takeWhile (\<lambda>p. \<not> P p) (blocks rgn) = blocks rgn"
    using assms(2) by (simp only: takeWhile_eq_all_conv)
  with first_from_shaped [of rgn 0 P] assms(1) show ?thesis
    by (simp add: shaped_def length_blocks)
qed

lemma first_from_split:
  assumes "shaped rgn" "blocks rgn = A @ p # B" "\<forall>a\<in>set A. \<not> P a" "P p"
  shows "first_from P rgn 0 = Done (length A)"
proof -
  have "takeWhile (\<lambda>p. \<not> P p) (A @ p # B) = A"
    using assms(3,4) by (subst takeWhile_append2) auto
  with first_from_shaped [of rgn 0 P] assms(1,2) show ?thesis by (simp add: shaped_def)
qed

lemma unat_minus_one: "1 \<le> unat c \<Longrightarrow> unat (c - 1) = unat c - 1" for c :: u32
  by (simp add: unat_sub word_le_nat_alt)

lemma move_down_step:
  "i < unat (cnt rgn - 1) \<Longrightarrow> i + 1 < length (region rgn) \<Longrightarrow>
     move_down rgn i = move_down (set_entry rgn i (region rgn ! (i + 1))) (i + 1)"
  "\<not> i < unat (cnt rgn - 1) \<Longrightarrow> move_down rgn i = Done rgn"
  by simp_all

declare move_down.simps [simp del] take_area.simps [simp del]

lemma move_down_region:
  assumes "1 \<le> unat (cnt rgn)" "unat (cnt rgn) \<le> length (region rgn)" "i < unat (cnt rgn)"
  shows "\<exists>ps. move_down rgn i = Done (rgn\<lparr>region := ps\<rparr>) \<and> length ps = length (region rgn) \<and>
     take (unat (cnt rgn) - 1) ps = take i (blocks rgn) @ drop (Suc i) (blocks rgn)"
  using assms
proof (induction rgn i rule: move_down.induct)
  case (1 rgn i)
  show ?case
  proof (cases "i < unat (cnt rgn - 1)")
    case True
    let ?g = "set_entry rgn i (region rgn ! (i + 1))"
    from True "1.prems" have i: "i + 1 < unat (cnt rgn)" "i + 1 < length (region rgn)"
      by (auto simp: unat_minus_one)
    from "1.IH" [OF True i(2)] "1.prems" i obtain ps where ps: "move_down ?g (i + 1) = Done (?g\<lparr>region := ps\<rparr>)"
      "length ps = length (region rgn)"
      "take (unat (cnt rgn) - 1) ps = take (i + 1) (blocks ?g) @ drop (Suc (i + 1)) (blocks ?g)"
      by (auto simp: set_entry_def)
    have b: "blocks ?g = (blocks rgn)[i := blocks rgn ! Suc i]"
      using i by (simp add: blocks_def set_entry_def take_update_swap)
    have len: "Suc i < length (blocks rgn)" using i by (simp add: blocks_def)
    then have "take (i + 1) (blocks ?g) @ drop (Suc (i + 1)) (blocks ?g)
       = take i (blocks rgn) @ drop (Suc i) (blocks rgn)"
      unfolding b by (simp add: take_Suc_conv_app_nth flip: Cons_nth_drop_Suc)
    with ps i show ?thesis
      by (intro exI [of _ ps]) (simp add: set_entry_def move_down_step(1) [OF True i(2)])
  next
    case False
    with "1.prems" have i: "i = unat (cnt rgn) - 1" by (auto simp: unat_minus_one)
    with "1.prems" have "drop (Suc i) (blocks rgn) = []" "take i (blocks rgn) = take i (region rgn)"
      by (auto simp: blocks_def)
    with move_down_step(2) [OF False] i show ?thesis
      by (intro exI [of _ "region rgn"]) simp
  qed
qed

lemma remove_region_blocks:
  assumes "1 \<le> unat (cnt rgn)" "unat (cnt rgn) \<le> length (region rgn)" "i < unat (cnt rgn)"
  shows "\<exists>g. lmb_remove_region rgn i = Done g \<and> length (region g) = length (region rgn) \<and>
     unat (cnt g) = unat (cnt rgn) - 1 \<and> blocks g = take i (blocks rgn) @ drop (Suc i) (blocks rgn)"
  using move_down_region [OF assms] assms(1)
  by (auto simp: lmb_remove_region_def blocks_def unat_minus_one)

section \<open>The reference for adding\<close>

text \<open>
  \<open>lmb_add_region\<close> on a plain list of entries: join the range to the first entry that touches it, and
  that entry to its successor, or insert the range before the first entry with a higher base.
\<close>

definition insert_sorted :: "u32 \<Rightarrow> u32 \<Rightarrow> lmb_property list \<Rightarrow> lmb_property list" where
  "insert_sorted base sz ps =
     takeWhile (\<lambda>p. lbase p \<le> base) ps @ block base sz # dropWhile (\<lambda>p. lbase p \<le> base) ps"

definition join_list :: "lmb_property \<Rightarrow> lmb_property list \<Rightarrow> int \<times> lmb_property list" where
  "join_list p ps = (case ps of
     q # rest \<Rightarrow> if lmb_addrs_adjacent (lbase p) (lsize p) (lbase q) (lsize q) \<noteq> 0
       then (2, p\<lparr>lsize := lsize p + lsize q\<rparr> # rest) else (1, p # ps)
   | [] \<Rightarrow> (1, [p]))"

definition add_list :: "u32 \<Rightarrow> u32 \<Rightarrow> lmb_property list \<Rightarrow> int \<times> lmb_property list" where
  "add_list base sz ps =
     (if length ps = 1 \<and> lsize (hd ps) = 0 then (0, [block base sz])
      else (case dropWhile (\<lambda>p. \<not> hits base sz p) ps of
        [] \<Rightarrow> if MAX_LMB_REGIONS \<le> length ps then (- 1, ps) else (0, insert_sorted base sz ps)
      | p # rest \<Rightarrow>
          if same_block base sz p then (0, ps)
          else (case join_list (absorb base sz p) rest of (r, joined) \<Rightarrow>
            (r, takeWhile (\<lambda>p. \<not> hits base sz p) ps @ joined))))"

lemma shift_in_split:
  assumes "\<forall>x\<in>set B. base < lbase x" "A \<noteq> [] \<Longrightarrow> \<not> base < lbase (last A)"
  shows "shift_in base sz (A @ B @ c # D) (length A + length B)
    = (if A = [] then hd (B @ [c]) # B @ D else A @ block base sz # B @ D)"
  using assms(1)
proof (induction B arbitrary: c D rule: rev_induct)
  case Nil
  show ?case
  proof (cases A rule: rev_cases)
    case (snoc A' a)
    with assms(2) show ?thesis by (simp add: nth_append list_update_append)
  qed simp
next
  case (snoc x B)
  have "shift_in base sz (A @ (B @ [x]) @ c # D) (length A + length (B @ [x]))
      = shift_in base sz (A @ B @ x # x # D) (length A + length B)"
    using snoc.prems by (simp add: nth_append list_update_append)
  also have "\<dots> = (if A = [] then hd (B @ [x]) # B @ x # D else A @ block base sz # B @ x # D)"
    using snoc by simp
  finally show ?case by (cases B) auto
qed

lemma insert_block_blocks:
  assumes sh: "shaped rgn" and room: "unat (cnt rgn) < MAX_LMB_REGIONS"
    and srt: "sorted_wrt (\<lambda>p q. lbase p \<le> lbase q) (blocks rgn)"
  shows "shaped (insert_block rgn base sz) \<and> blocks (insert_block rgn base sz) = insert_sorted base sz (blocks rgn)"
proof -
  define A where "A = takeWhile (\<lambda>p. lbase p \<le> base) (blocks rgn)"
  define B where "B = dropWhile (\<lambda>p. lbase p \<le> base) (blocks rgn)"
  have len: "length (region rgn) = 17" "1 \<le> unat (cnt rgn)" "unat (cnt rgn) < 16"
    using sh room by (auto simp: shaped_def MAX_LMB_REGIONS_def)
  then obtain c D where cD: "drop (unat (cnt rgn)) (region rgn) = c # D"
    by (cases "drop (unat (cnt rgn)) (region rgn)") auto
  have split: "region rgn = A @ B @ c # D"
    by (metis append.assoc append_take_drop_id blocks_def cD takeWhile_dropWhile_id A_def B_def)
  have n: "length A + length B = unat (cnt rgn)"
    by (metis length_append length_blocks sh takeWhile_dropWhile_id A_def B_def)
  have hiB: "\<forall>x\<in>set B. base < lbase x"
  proof (cases B)
    case Nil
    show ?thesis unfolding Nil by simp
  next
    case (Cons b bs)
    then have "\<not> lbase b \<le> base" using hd_dropWhile [of "\<lambda>p. lbase p \<le> base" "blocks rgn"] by (simp add: B_def)
    moreover have "sorted_wrt (\<lambda>p q. lbase p \<le> lbase q) B"
      using srt by (metis sorted_wrt_append takeWhile_dropWhile_id B_def)
    ultimately show ?thesis unfolding Cons by fastforce
  qed
  have loA: "\<forall>x\<in>set A. \<not> base < lbase x" by (auto simp: A_def dest: set_takeWhileD)
  have sft: "shift_in base sz (region rgn) (unat (cnt rgn))
      = (if A = [] then hd (B @ [c]) # B @ D else A @ block base sz # B @ D)"
    using shift_in_split [of B base A sz c D] loA hiB n split by (metis last_in_set)
  have reg: "region (insert_block rgn base sz) = A @ block base sz # B @ D"
  proof (cases "A = []")
    case True
    with n len have "B \<noteq> []" by (cases B) auto
    with hiB have "base < lbase (hd B)" by simp
    with True sft \<open>B \<noteq> []\<close> show ?thesis by (simp add: insert_block_def hd_append)
  next
    case False
    then obtain a A' where "A = a # A'" by (cases A) auto
    with loA sft show ?thesis by (simp add: insert_block_def)
  qed
  have c: "unat (cnt (insert_block rgn base sz)) = unat (cnt rgn) + 1"
    using len by (simp add: insert_block_def Let_def unat_word_ariths)
  have l: "length (region (insert_block rgn base sz)) = 17"
    using len(1) split unfolding reg by (metis (no_types, lifting) add_Suc_right length_Cons length_append)
  have "unat (cnt rgn) = length A + length B" using n by simp
  then show ?thesis
    using c l len by (simp add: shaped_def MAX_LMB_REGIONS_def blocks_def [of "insert_block _ _ _"] reg insert_sorted_def A_def [symmetric] B_def [symmetric])
qed

lemma shaped_set_entry [simp]: "shaped (set_entry rgn i p) = shaped rgn"
  by (simp add: shaped_def set_entry_def)

lemma cnt_set_entry [simp]: "cnt (set_entry rgn i p) = cnt rgn"
  by (simp add: set_entry_def)

lemma blocks_set_entry: "blocks (set_entry rgn i p) = (blocks rgn)[i := p]"
  by (simp add: blocks_def set_entry_def take_update_swap)

lemma entry_shaped: "shaped rgn \<Longrightarrow> i \<le> unat (cnt rgn) \<Longrightarrow> entry rgn i = Done (region rgn ! i)"
  by (simp add: entry_def shaped_def)

lemma coalesce_blocks:
  assumes sh: "shaped rgn" and bl: "blocks rgn = A @ p # q # R"
  shows "\<exists>g. lmb_coalesce_regions rgn (length A) (Suc (length A)) = Done g \<and> shaped g \<and>
     blocks g = A @ p\<lparr>lsize := lsize p + lsize q\<rparr> # R"
proof -
  let ?g = "set_entry rgn (length A) (p\<lparr>lsize := lsize p + lsize q\<rparr>)"
  have n: "Suc (length A) < unat (cnt rgn)"
    using bl length_blocks [OF sh] by simp
  then have e: "region rgn ! length A = p" "region rgn ! Suc (length A) = q"
    using bl nth_blocks [of _ rgn, symmetric] by (simp_all add: nth_append)
  have bg: "blocks ?g = A @ p\<lparr>lsize := lsize p + lsize q\<rparr> # q # R"
    by (simp add: blocks_set_entry bl)
  obtain g where "lmb_remove_region ?g (Suc (length A)) = Done g"
    "length (region g) = length (region ?g)" "unat (cnt g) = unat (cnt rgn) - 1"
    "blocks g = take (Suc (length A)) (blocks ?g) @ drop (Suc (Suc (length A))) (blocks ?g)"
    using remove_region_blocks [of ?g "Suc (length A)"] n sh
    by (auto simp: shaped_def set_entry_def MAX_LMB_REGIONS_def)
  with n sh show ?thesis
    by (simp add: lmb_coalesce_regions_def entry_shaped e bg)
       (auto simp: shaped_def set_entry_def)
qed

lemma join_next_blocks:
  assumes sh: "shaped rgn" and bl: "blocks rgn = A @ p # R"
  shows "\<exists>c g. join_next rgn (length A) = Done (c, g) \<and> shaped g \<and>
     join_list p R = (1 + c, drop (length A) (blocks g)) \<and> take (length A) (blocks g) = A"
proof -
  have n: "unat (cnt rgn - 1) = length A + length R"
    using bl length_blocks [OF sh] sh by (simp add: shaped_def unat_minus_one)
  show ?thesis
  proof (cases R)
    case Nil
    with n bl sh show ?thesis by (simp add: join_next_def join_list_def)
  next
    case (Cons q R')
    have "unat (cnt rgn) = Suc (Suc (length A + length R'))"
      using bl Cons length_blocks [OF sh] by simp
    then have "lmb_regions_adjacent rgn (length A) (Suc (length A))
        = Done (lmb_addrs_adjacent (lbase p) (lsize p) (lbase q) (lsize q))"
      using sh bl Cons nth_blocks [of "length A" rgn] nth_blocks [of "Suc (length A)" rgn]
      by (simp add: lmb_regions_adjacent_def entry_shaped nth_append)
    moreover obtain g where "lmb_coalesce_regions rgn (length A) (Suc (length A)) = Done g" "shaped g"
      "blocks g = A @ p\<lparr>lsize := lsize p + lsize q\<rparr> # R'"
      using coalesce_blocks [OF sh, of A p q R'] bl Cons by auto
    ultimately show ?thesis
      using n Cons bl sh by (auto simp: join_next_def join_list_def)
  qed
qed

text \<open>On a well-formed table the array code is the list reference.\<close>

lemma add_region_refines:
  assumes sh: "shaped rgn" and srt: "sorted_wrt (\<lambda>p q. lbase p \<le> lbase q) (blocks rgn)"
  shows "\<exists>r g. lmb_add_region rgn base sz = Done (r, g) \<and> shaped g \<and> add_list base sz (blocks rgn) = (r, blocks g)"
proof -
  define A where "A = takeWhile (\<lambda>p. \<not> hits base sz p) (blocks rgn)"
  define R where "R = dropWhile (\<lambda>p. \<not> hits base sz p) (blocks rgn)"
  have AR: "blocks rgn = A @ R" by (simp add: A_def R_def)
  have n: "unat (cnt rgn) = length A + length R"
    using AR length_blocks [OF sh] by simp
  have len: "1 \<le> unat (cnt rgn)" "unat (cnt rgn) \<le> length (region rgn)"
    using sh by (auto simp: shaped_def)
  have one: "cnt rgn = 1 \<longleftrightarrow> length (blocks rgn) = 1"
    using length_blocks [OF sh] by (metis unat_1 word_unat_eq_iff)
  have h: "hd (blocks rgn) = region rgn ! 0"
    using len nth_blocks [of 0 rgn] by (subst hd_conv_nth) (auto simp: blocks_def)
  have first: "first_from (hits base sz) rgn 0 = Done (length A)"
    using first_from_shaped [OF len(2), of 0 "hits base sz"] by (simp add: A_def)
  consider (empty) "cnt rgn = 1 \<and> lsize (region rgn ! 0) = 0"
    | (miss) "\<not> (cnt rgn = 1 \<and> lsize (region rgn ! 0) = 0)" "R = []"
    | (hit) p R' where "\<not> (cnt rgn = 1 \<and> lsize (region rgn ! 0) = 0)" "R = p # R'"
    by (cases R) auto
  then show ?thesis
  proof cases
    case empty
    then obtain q where "blocks rgn = [q]" using one by (auto simp: length_Suc_conv)
    with empty h one sh show ?thesis
      by (auto simp: lmb_add_region_def entry_shaped add_list_def blocks_set_entry)
  next
    case miss
    then have jn: "join_next rgn (length A) = Done (0, rgn)" and la: "length A = unat (cnt rgn)"
      using n len by (auto simp: join_next_def unat_minus_one)
    have spec: "add_list base sz (blocks rgn) =
        (if MAX_LMB_REGIONS \<le> unat (cnt rgn) then (- 1, blocks rgn) else (0, insert_sorted base sz (blocks rgn)))"
      using miss one h by (auto simp: add_list_def R_def [symmetric] length_blocks [OF sh])
    have code: "lmb_add_region rgn base sz =
        Done (if MAX_LMB_REGIONS \<le> unat (cnt rgn) then (- 1, rgn) else (0, insert_block rgn base sz))"
      using miss(1) jn by (auto simp: lmb_add_region_def entry_shaped [OF sh] first la)
    show ?thesis
      using insert_block_blocks [OF sh _ srt, of base sz] sh by (simp add: spec code)
  next
    case hit
    have e: "region rgn ! length A = p"
      using n hit AR nth_blocks [of "length A" rgn] by simp
    let ?g = "set_entry rgn (length A) (absorb base sz p)"
    have "blocks ?g = A @ absorb base sz p # R'"
      using hit AR by (simp add: blocks_set_entry)
    from join_next_blocks [OF _ this] sh obtain c g where c: "join_next ?g (length A) = Done (c, g)" "shaped g"
      "join_list (absorb base sz p) R' = (1 + c, drop (length A) (blocks g))" "take (length A) (blocks g) = A"
      by auto
    then have "1 + c \<noteq> 0" "blocks g = A @ drop (length A) (blocks g)"
      by (auto simp: join_list_def split: list.splits if_splits) (metis append_take_drop_id)+
    moreover have "add_list base sz (blocks rgn)
        = (if same_block base sz p then (0, blocks rgn) else (1 + c, A @ drop (length A) (blocks g)))"
      using hit one h c by (auto simp: add_list_def R_def [symmetric] A_def [symmetric])
    moreover have "lmb_add_region rgn base sz = Done (if same_block base sz p then (0, rgn) else (1 + c, g))"
      using hit n c \<open>1 + c \<noteq> 0\<close> by (auto simp: lmb_add_region_def entry_shaped [OF sh] first e)
    ultimately show ?thesis
      using c sh by simp
  qed
qed

section \<open>What the operations do to the covered addresses\<close>

definition listed :: "lmb_property list \<Rightarrow> nat set" where
  "listed ps = (\<Union>p\<in>set ps. span p)"

lemma covers_listed: "covers rgn = listed (blocks rgn)"
  by (simp add: covers_def listed_def)

lemma listed_simps [simp]:
  "listed [] = {}" "listed (p # ps) = span p \<union> listed ps" "listed (ps @ qs) = listed ps \<union> listed qs"
  by (auto simp: listed_def)

definition above :: "lmb_property \<Rightarrow> lmb_property \<Rightarrow> bool" where
  "above p q \<longleftrightarrow> lend p \<le> unat (lbase q)"

lemma tidy_append:
  "tidy (ps @ qs) \<longleftrightarrow> tidy ps \<and> tidy qs \<and> (\<forall>p\<in>set ps. \<forall>q\<in>set qs. above p q)"
  by (auto simp: tidy_def above_def sorted_wrt_append)

lemma tidy_Cons: "tidy (p # ps) \<longleftrightarrow> lend p < 2 ^ 32 \<and> (\<forall>q\<in>set ps. above p q) \<and> tidy ps"
  by (auto simp: tidy_def above_def)

lemma tidy_Nil [simp]: "tidy []"
  by (simp add: tidy_def)

lemmas tidy_simps = tidy_append tidy_Cons

lemma above_trans: "above p q \<Longrightarrow> above q r \<Longrightarrow> above p r"
  by (simp add: above_def lend_def)

lemma tidy_sorted: "tidy ps \<Longrightarrow> sorted_wrt (\<lambda>p q. lbase p \<le> lbase q) ps"
  unfolding tidy_def by (rule sorted_wrt_mono_rel [rotated], blast) (simp add: lend_def word_le_nat_alt)

lemma unat_lend: "lend p < 2 ^ 32 \<Longrightarrow> unat (lbase p + lsize p) = lend p"
  by (simp add: lend_def unat_word_ariths)

text \<open>Below the end of the address space the word comparisons are the comparisons of the intervals.\<close>

lemma adjacent_cases:
  assumes "lend p < 2 ^ 32" "lend q < 2 ^ 32"
  shows "lmb_addrs_adjacent (lbase p) (lsize p) (lbase q) (lsize q) =
     (if unat (lbase q) = lend p then 1 else if unat (lbase p) = lend q then - 1 else 0)"
  using unat_lend [OF assms(1)] unat_lend [OF assms(2)]
  by (simp add: lmb_addrs_adjacent_def word_unat_eq_iff)

lemma overlap_iff:
  assumes "lend p < 2 ^ 32" "lend q < 2 ^ 32"
  shows "lmb_addrs_overlap (lbase p) (lsize p) (lbase q) (lsize q) \<longleftrightarrow>
     unat (lbase p) < lend q \<and> unat (lbase q) < lend p"
  using unat_lend [OF assms(1)] unat_lend [OF assms(2)]
  by (simp add: lmb_addrs_overlap_def word_less_nat_alt)

lemma lend_block [simp]: "lend (block b s) = unat b + unat s"
  by (simp add: lend_def)

lemma span_block: "span (block b s) = {unat b..<unat b + unat s}"
  by (simp add: span_def)

lemma touches_iff:
  assumes "unat base + unat sz < 2 ^ 32" "lend p < 2 ^ 32"
  shows "touches base sz p \<longleftrightarrow> unat (lbase p) = unat base + unat sz \<or> unat base = lend p"
  using adjacent_cases [of "block base sz" p] assms by (simp add: touches_def split: if_splits)

lemma absorb_cases:
  assumes "touches base sz p" "unat base + unat sz < 2 ^ 32" "lend p < 2 ^ 32"
  shows "(unat (lbase p) = unat base + unat sz \<and> unat (lbase (absorb base sz p)) = unat base \<and> lend (absorb base sz p) = lend p) \<or>
     (unat base = lend p \<and> lbase (absorb base sz p) = lbase p \<and> lend (absorb base sz p) = unat base + unat sz)"
proof -
  have adj: "lmb_addrs_adjacent base sz (lbase p) (lsize p) =
     (if unat (lbase p) = unat base + unat sz then 1 else if unat base = lend p then - 1 else 0)"
    using adjacent_cases [of "block base sz" p] assms(2,3) by simp
  from assms(1) consider "unat (lbase p) = unat base + unat sz"
    | "unat (lbase p) \<noteq> unat base + unat sz" "unat base = lend p"
    by (auto simp: touches_def adj split: if_splits)
  then show ?thesis
  proof cases
    case 1
    then have "lbase p = base + sz"
      using assms(2) by (simp add: word_unat_eq_iff unat_word_ariths)
    then have "lbase p - sz = base" by simp
    moreover have "unat (lsize p + sz) = unat (lsize p) + unat sz"
      using 1 assms(3) by (simp add: lend_def unat_word_ariths)
    ultimately show ?thesis using 1 by (simp add: absorb_def adj lend_def)
  next
    case 2
    then have "unat (lsize p + sz) = unat (lsize p) + unat sz"
      using assms(2) by (simp add: lend_def unat_word_ariths)
    moreover have "absorb base sz p = p\<lparr>lsize := lsize p + sz\<rparr>"
      using 2 by (simp add: absorb_def adj)
    ultimately show ?thesis using 2 by (simp add: lend_def)
  qed
qed

lemma absorb_span:
  assumes "touches base sz p" "unat base + unat sz < 2 ^ 32" "lend p < 2 ^ 32"
  shows "span (absorb base sz p) = span p \<union> {unat base..<unat base + unat sz}"
    and "lend (absorb base sz p) < 2 ^ 32"
  using absorb_cases [OF assms] assms(2,3) by (auto simp: span_def lend_def)

lemma join_size:
  assumes "lend p < 2 ^ 32" "lend q < 2 ^ 32" "unat (lbase p) \<le> unat (lbase q)"
    and "lmb_addrs_adjacent (lbase p) (lsize p) (lbase q) (lsize q) \<noteq> 0"
  shows "unat (lsize p + lsize q) = unat (lsize p) + unat (lsize q)"
    and "unat (lbase q) = lend p \<or> unat (lbase p) = lend q"
proof -
  have bound: "unat (lsize p) < 4294967296" using assms(1) by (simp add: lend_def)
  show "unat (lsize p + lsize q) = unat (lsize p) + unat (lsize q)"
    "unat (lbase q) = lend p \<or> unat (lbase p) = lend q"
    using assms(2-4) bound
    by (auto simp: adjacent_cases [OF assms(1,2)] lend_def unat_word_ariths split: if_splits)
qed

lemma join_list_listed:
  assumes "lend p < 2 ^ 32" "tidy R" "\<forall>q\<in>set R. unat (lbase p) \<le> unat (lbase q)"
  shows "listed (snd (join_list p R)) = span p \<union> listed R"
proof (cases R)
  case (Cons q R')
  then have q: "lend q < 2 ^ 32" "unat (lbase p) \<le> unat (lbase q)"
    using assms by (auto simp: tidy_Cons)
  show ?thesis
  proof (cases "lmb_addrs_adjacent (lbase p) (lsize p) (lbase q) (lsize q) = 0")
    case True
    with Cons show ?thesis by (simp add: join_list_def)
  next
    case False
    have "span (p\<lparr>lsize := lsize p + lsize q\<rparr>) = span p \<union> span q"
      using join_size [OF assms(1) q False] q by (auto simp: span_def lend_def)
    with False Cons show ?thesis by (simp add: join_list_def Un_assoc)
  qed
qed (simp add: join_list_def)

lemma join_list_tidy:
  assumes "lend p < 2 ^ 32" "tidy R" "\<forall>q\<in>set R. above p q" "\<forall>a\<in>set A. above a p" "tidy A"
  shows "tidy (A @ snd (join_list p R))"
proof (cases R)
  case Nil
  with assms show ?thesis by (simp add: join_list_def tidy_simps)
next
  case (Cons q R')
  then have q: "lend q < 2 ^ 32" "above p q" "\<forall>r\<in>set R'. above q r" "tidy R'"
    using assms by (auto simp: tidy_Cons)
  show ?thesis
  proof (cases "lmb_addrs_adjacent (lbase p) (lsize p) (lbase q) (lsize q) = 0")
    case True
    with Cons assms show ?thesis by (auto simp: join_list_def tidy_simps intro: above_trans)
  next
    case False
    let ?m = "p\<lparr>lsize := lsize p + lsize q\<rparr>"
    have m: "lend ?m = lend q" "lbase ?m = lbase p"
      using False q by (auto simp: adjacent_cases [OF assms(1) q(1)] above_def lend_def unat_word_ariths split: if_splits)
    with q assms Cons have "\<forall>r\<in>set R'. above ?m r" "\<forall>a\<in>set A. above a ?m" "lend ?m < 2 ^ 32"
      by (auto simp: above_def)
    moreover have "\<forall>a\<in>set A. \<forall>r\<in>set R'. above a r"
      using assms Cons by (auto intro: above_trans)
    ultimately show ?thesis
      using False Cons q assms by (simp add: join_list_def tidy_simps)
  qed
qed

lemma insert_sorted_listed: "listed (insert_sorted base sz ps) = listed ps \<union> span (block base sz)"
proof -
  have "listed ps = listed (takeWhile (\<lambda>p. lbase p \<le> base) ps) \<union> listed (dropWhile (\<lambda>p. lbase p \<le> base) ps)"
    by (metis listed_simps(3) takeWhile_dropWhile_id)
  then show ?thesis by (auto simp: insert_sorted_def)
qed

lemma add_list_cases:
  assumes "add_list base sz ps = (r, qs)"
  obtains (empty) q where "ps = [q]" "lsize q = 0" "qs = [block base sz]" "r = 0"
  | (same) p where "p \<in> set ps" "same_block base sz p" "qs = ps" "r = 0"
  | (full) "MAX_LMB_REGIONS \<le> length ps" "qs = ps" "r = - 1"
  | (new) "\<forall>p\<in>set ps. \<not> hits base sz p" "qs = insert_sorted base sz ps" "r = 0"
  | (join) A p R where "ps = A @ p # R" "touches base sz p" "\<forall>a\<in>set A. \<not> touches base sz a"
      "(r, qs) = (fst (join_list (absorb base sz p) R), A @ snd (join_list (absorb base sz p) R))"
proof (cases "length ps = 1 \<and> lsize (hd ps) = 0")
  case True
  with assms empty show ?thesis by (auto simp: add_list_def length_Suc_conv)
next
  case nonempty: False
  show ?thesis
  proof (cases "dropWhile (\<lambda>p. \<not> hits base sz p) ps")
    case Nil
    have "(r, qs) = (if MAX_LMB_REGIONS \<le> length ps then (- 1, ps) else (0, insert_sorted base sz ps))"
      using nonempty assms unfolding add_list_def Nil by auto
    moreover have "\<forall>p\<in>set ps. \<not> hits base sz p" using Nil by (simp add: dropWhile_eq_Nil_conv)
    ultimately show ?thesis using full new by (auto split: if_splits)
  next
    case (Cons p R)
    define A where "A = takeWhile (\<lambda>p. \<not> hits base sz p) ps"
    have AR: "ps = A @ p # R" using Cons by (metis A_def takeWhile_dropWhile_id)
    have h: "hits base sz p" using Cons hd_dropWhile [of "\<lambda>p. \<not> hits base sz p" ps] by auto
    have A: "\<forall>a\<in>set A. \<not> touches base sz a" by (auto simp: A_def hits_def dest: set_takeWhileD)
    show ?thesis
    proof (cases "same_block base sz p")
      case True
      with Cons nonempty assms same AR show ?thesis by (auto simp: add_list_def split: if_splits)
    next
      case False
      with Cons nonempty assms
      have "(r, qs) = (fst (join_list (absorb base sz p) R), A @ snd (join_list (absorb base sz p) R))"
        by (auto simp: add_list_def A_def [symmetric] split: prod.splits if_splits)
      with False h join AR A show ?thesis by (auto simp: hits_def)
    qed
  qed
qed

lemma absorb_le:
  assumes "touches base sz p" "unat base + unat sz < 2 ^ 32" "tidy (p # R)"
  shows "\<forall>q\<in>set R. unat (lbase (absorb base sz p)) \<le> unat (lbase q)"
  using absorb_cases [OF assms(1,2)] assms(3) by (auto simp: tidy_Cons above_def lend_def)

text \<open>Whatever the range, a successful addition covers it and nothing else besides what was covered.\<close>

lemma add_list_listed:
  assumes "tidy ps" "unat base + unat sz < 2 ^ 32" "add_list base sz ps = (r, qs)" "0 \<le> r"
  shows "listed qs = listed ps \<union> {unat base..<unat base + unat sz}"
  using assms(3)
proof (cases rule: add_list_cases)
  case (empty q)
  then show ?thesis by (auto simp: span_def lend_def)
next
  case (same p)
  then have "span p = {unat base..<unat base + unat sz}"
    by (auto simp: same_block_def span_def lend_def)
  with same show ?thesis by (auto simp: listed_def)
next
  case new
  then show ?thesis by (simp add: insert_sorted_listed span_block)
next
  case (join A p R)
  then have p: "lend p < 2 ^ 32" "tidy R" "tidy (p # R)"
    using assms(1) by (auto simp: tidy_simps)
  have "listed (snd (join_list (absorb base sz p) R)) = span (absorb base sz p) \<union> listed R"
    using absorb_span(2) [OF join(2) assms(2) p(1)] p(2) absorb_le [OF join(2) assms(2) p(3)]
    by (rule join_list_listed)
  with join absorb_span(1) [OF join(2) assms(2) p(1)] show ?thesis by auto
qed (use assms(4) in simp)

definition clear_of :: "u32 \<Rightarrow> u32 \<Rightarrow> lmb_property list \<Rightarrow> bool" where
  "clear_of base sz ps \<longleftrightarrow> (\<forall>p\<in>set ps. \<not> lmb_addrs_overlap base sz (lbase p) (lsize p))"

lemma clear_above:
  assumes "clear_of base sz ps" "unat base + unat sz < 2 ^ 32" "tidy ps" "p \<in> set ps"
  shows "above (block base sz) p \<or> above p (block base sz)"
proof -
  have "lend p < 2 ^ 32" using assms(3,4) by (simp add: tidy_def)
  then have "\<not> (unat base < lend p \<and> unat (lbase p) < unat base + unat sz)"
    using assms overlap_iff [of "block base sz" p] by (auto simp: clear_of_def)
  then show ?thesis by (auto simp: above_def)
qed

lemma insert_sorted_tidy:
  assumes "clear_of base sz ps" "unat base + unat sz < 2 ^ 32" "tidy ps" "\<forall>p\<in>set ps. \<not> touches base sz p"
  shows "tidy (insert_sorted base sz ps)"
proof -
  define A where "A = takeWhile (\<lambda>p. lbase p \<le> base) ps"
  define B where "B = dropWhile (\<lambda>p. lbase p \<le> base) ps"
  have AB: "ps = A @ B" by (simp add: A_def B_def)
  have apart: "unat (lbase p) \<noteq> unat base + unat sz \<and> unat base \<noteq> lend p" if "p \<in> set ps" for p
    using assms(2-4) that touches_iff [of base sz p] by (auto simp: tidy_def)
  have a: "\<forall>p\<in>set A. above p (block base sz)"
  proof
    fix p assume p: "p \<in> set A"
    then have le: "unat (lbase p) \<le> unat base" by (auto simp: A_def word_le_nat_alt dest: set_takeWhileD)
    have "p \<in> set ps" using p AB by simp
    with clear_above [OF assms(1-3) this] apart [OF this] le show "above p (block base sz)"
      by (auto simp: above_def lend_def)
  qed
  have "\<forall>p\<in>set B. base < lbase p"
  proof (cases B)
    case (Cons b bs)
    then have "\<not> lbase b \<le> base" using hd_dropWhile [of "\<lambda>p. lbase p \<le> base" ps] by (simp add: B_def)
    with Cons tidy_sorted [OF assms(3)] AB show ?thesis by (auto simp: sorted_wrt_append)
  qed simp
  then have b: "\<forall>p\<in>set B. above (block base sz) p"
    using clear_above [OF assms(1-3)] AB by (fastforce simp: above_def lend_def word_less_nat_alt)
  have "tidy (A @ block base sz # B)"
    using a b assms(2,3) AB by (auto simp: tidy_simps)
  then show ?thesis
    by (simp add: insert_sorted_def A_def B_def)
qed

lemma absorb_above:
  assumes t: "touches base sz p" and ns: "unat base + unat sz < 2 ^ 32" and tp: "tidy (A @ p # R)"
    and cl: "clear_of base sz (A @ p # R)" and na: "\<forall>a\<in>set A. \<not> touches base sz a"
    and sl: "solid R"
  shows "(\<forall>a\<in>set A. above a (absorb base sz p)) \<and> (\<forall>q\<in>set R. above (absorb base sz p) q)"
proof (intro conjI ballI)
  have p: "lend p < 2 ^ 32" using tp by (simp add: tidy_simps)
  note ab = absorb_cases [OF t ns p]
  show "above a (absorb base sz p)" if a: "a \<in> set A" for a
  proof -
    have ap: "above a p" using tp a by (auto simp: tidy_simps)
    have "lend a < 2 ^ 32" using tp a by (auto simp: tidy_def)
    then have "unat base \<noteq> lend a" "unat (lbase a) \<noteq> unat base + unat sz"
      using touches_iff [of base sz a] na a ns by auto
    with ab ap clear_above [OF cl ns tp, of a] a show ?thesis
      by (auto simp: above_def lend_def)
  qed
  show "above (absorb base sz p) q" if q: "q \<in> set R" for q
  proof -
    have pq: "above p q" "0 < unat (lsize q)"
      using tp q sl by (auto simp: tidy_simps solid_def word_less_nat_alt)
    from ab show ?thesis
    proof
      assume "unat base = lend p \<and> lbase (absorb base sz p) = lbase p \<and> lend (absorb base sz p) = unat base + unat sz"
      with pq clear_above [OF cl ns tp, of q] q show ?thesis by (auto simp: above_def lend_def)
    qed (use pq in \<open>auto simp: above_def\<close>)
  qed
qed

text \<open>A range that overlaps no entry keeps the table in order.\<close>

lemma add_list_tidy:
  assumes "tidy ps" "unat base + unat sz < 2 ^ 32" "clear_of base sz ps" "add_list base sz ps = (r, qs)"
    and "solid ps \<or> length ps = 1"
  shows "tidy qs"
  using assms(4)
proof (cases rule: add_list_cases)
  case new
  with insert_sorted_tidy [OF assms(3,2,1)] show ?thesis by (simp add: hits_def)
next
  case (join A p R)
  then have p: "lend p < 2 ^ 32" "tidy R" "tidy A" "tidy (A @ p # R)" "clear_of base sz (A @ p # R)" "solid R"
    using assms(1,3,5) by (auto simp: tidy_simps solid_def)
  note ab = absorb_above [OF join(2) assms(2) p(4,5) join(3) p(6)]
  show ?thesis
    using join_list_tidy [OF absorb_span(2) [OF join(2) assms(2) p(1)] p(2) _ _ p(3)] ab join(4) by simp
qed (use assms in \<open>simp_all add: tidy_simps\<close>)

lemma join_list_solid:
  assumes "lend p < 2 ^ 32" "tidy R" "\<forall>q\<in>set R. unat (lbase p) \<le> unat (lbase q)" "solid R" "0 < lsize p"
  shows "solid (snd (join_list p R))"
proof (cases R)
  case (Cons q R')
  then have "lend q < 2 ^ 32" "unat (lbase p) \<le> unat (lbase q)" "solid R'"
    using assms by (auto simp: tidy_Cons solid_def)
  with join_size(1) [OF assms(1) this(1,2)] assms(4,5) Cons show ?thesis
    by (auto simp: join_list_def solid_def word_less_nat_alt)
qed (use assms in \<open>simp add: join_list_def solid_def\<close>)


lemma absorb_size:
  assumes "touches base sz p" "unat base + unat sz < 2 ^ 32" "lend p < 2 ^ 32" "0 < sz"
  shows "0 < lsize (absorb base sz p)"
  using absorb_cases [OF assms(1-3)] assms(4) by (auto simp: lend_def word_less_nat_alt)

lemma add_list_solid:
  assumes "tidy ps" "unat base + unat sz < 2 ^ 32" "0 < sz" "add_list base sz ps = (r, qs)"
    and "solid ps \<or> length ps = 1"
  shows "solid qs \<or> length qs = 1"
  using assms(4)
proof (cases rule: add_list_cases)
  case new
  show ?thesis
  proof (cases "solid ps")
    case True
    with new assms(3) show ?thesis
      by (auto simp: insert_sorted_def solid_def dest: set_takeWhileD set_dropWhileD)
  next
    case False
    with assms(5) obtain q where "ps = [q]" "lsize q = 0"
      by (auto simp: solid_def length_Suc_conv word_gt_0)
    with assms(4) show ?thesis by (auto simp: add_list_def)
  qed
next
  case (join A p R)
  then have p: "lend p < 2 ^ 32" "tidy R" "tidy (p # R)" "solid R" "solid A"
    using assms(1,5) by (auto simp: tidy_simps solid_def)
  have "solid (snd (join_list (absorb base sz p) R))"
    using absorb_span(2) [OF join(2) assms(2) p(1)] p(2) absorb_le [OF join(2) assms(2) p(3)] p(4)
      absorb_size [OF join(2) assms(2) p(1) assms(3)]
    by (rule join_list_solid)
  with join p show ?thesis by (simp add: solid_def ball_Un)
qed (use assms in simp_all)

lemma add_list_refused:
  assumes "add_list base sz ps = (r, qs)" "r < 0"
  shows "MAX_LMB_REGIONS \<le> length ps \<and> qs = ps"
  using assms by (cases rule: add_list_cases) (auto simp: join_list_def split: list.splits if_splits)

lemma sound_blocks:
  assumes "sound rgn"
  shows "shaped rgn" "tidy (blocks rgn)" "solid (blocks rgn) \<or> length (blocks rgn) = 1"
  using assms length_blocks [of rgn] by (auto simp: sound_def)

lemma soundI:
  assumes "shaped rgn" "tidy (blocks rgn)" "solid (blocks rgn) \<or> length (blocks rgn) = 1"
  shows "sound rgn"
proof -
  have "length (blocks rgn) = 1 \<longleftrightarrow> cnt rgn = 1"
    using length_blocks [OF assms(1)] by (metis unat_1 word_unat_eq_iff)
  with assms show ?thesis by (auto simp: sound_def)
qed

lemma add_region_covers:
  assumes "sound rgn" "unat base + unat sz < 2 ^ 32"
  shows "\<exists>r g. lmb_add_region rgn base sz = Done (r, g) \<and> shaped g \<and>
     (if r < 0 then unat (cnt rgn) = MAX_LMB_REGIONS \<and> covers g = covers rgn
      else covers g = covers rgn \<union> {unat base..<unat base + unat sz}) \<and>
     (0 < sz \<and> clear_of base sz (blocks rgn) \<longrightarrow> sound g)"
proof -
  note s = sound_blocks [OF assms(1)]
  obtain r g where g: "lmb_add_region rgn base sz = Done (r, g)" "shaped g" "add_list base sz (blocks rgn) = (r, blocks g)"
    using add_region_refines [OF s(1) tidy_sorted [OF s(2)]] by blast
  have "0 < sz \<and> clear_of base sz (blocks rgn) \<longrightarrow> sound g"
    using add_list_tidy [OF s(2) assms(2) _ g(3) s(3)] add_list_solid [OF s(2) assms(2) _ g(3) s(3)] g(2)
    by (auto intro: soundI)
  moreover have "covers g = covers rgn \<union> {unat base..<unat base + unat sz}" if "\<not> r < 0"
    using add_list_listed [OF s(2) assms(2) g(3)] that by (simp add: covers_listed)
  moreover have "unat (cnt rgn) = MAX_LMB_REGIONS \<and> covers g = covers rgn" if "r < 0"
    using add_list_refused [OF g(3) that] length_blocks [OF s(1)] s(1) by (simp add: covers_listed shaped_def)
  ultimately show ?thesis using g by auto
qed

lemma tidy_disjoint: "tidy (A @ p # B) \<Longrightarrow> span p \<inter> (listed A \<union> listed B) = {}"
  by (fastforce simp: tidy_simps above_def listed_def span_def lend_def)

lemma listed_replace:
  assumes "tidy (A @ p # B)" "X \<subseteq> span p" "listed M = span p - X"
  shows "listed (A @ M @ B) = listed (A @ p # B) - X"
  using tidy_disjoint [OF assms(1)] assms(2,3) by auto

text \<open>A range inside an entry, in the order of the comparisons of \<open>lmb_free\<close>.\<close>

lemma inside_iff:
  assumes "lend p < 2 ^ 32" "unat base + unat sz < 2 ^ 32"
  shows "lbase p \<le> base \<and> base + sz \<le> lbase p + lsize p \<longleftrightarrow>
     unat (lbase p) \<le> unat base \<and> unat base + unat sz \<le> lend p"
  using unat_lend [OF assms(1)] unat_lend [of "block base sz"] assms(2) by (simp add: word_le_nat_alt)

lemma inside_span:
  assumes "lend p < 2 ^ 32" "unat base + unat sz < 2 ^ 32" "0 < sz"
  shows "lbase p \<le> base \<and> base + sz \<le> lbase p + lsize p \<longleftrightarrow> {unat base..<unat base + unat sz} \<subseteq> span p"
proof -
  have "0 < unat sz" using assms(3) by (simp add: word_less_nat_alt)
  then show ?thesis
    by (simp add: inside_iff [OF assms(1,2)] span_def ivl_subset)
qed

definition shrink :: "u32 \<Rightarrow> u32 \<Rightarrow> lmb_property \<Rightarrow> lmb_property list" where
  "shrink base sz p =
     (if lbase p = base \<and> lbase p + lsize p = base + sz then []
      else if lbase p = base then [block (base + sz) (lsize p - sz)]
      else if lbase p + lsize p = base + sz then [p\<lparr>lsize := lsize p - sz\<rparr>]
      else [p\<lparr>lsize := base - lbase p\<rparr>])"

definition splits :: "u32 \<Rightarrow> u32 \<Rightarrow> lmb_property \<Rightarrow> bool" where
  "splits base sz p \<longleftrightarrow> lbase p \<noteq> base \<and> lbase p + lsize p \<noteq> base + sz"

lemma shrink_span:
  assumes p: "lend p < 2 ^ 32" and ns: "unat base + unat sz < 2 ^ 32"
    and ins: "unat (lbase p) \<le> unat base" "unat base + unat sz \<le> lend p"
  shows "listed (shrink base sz p) = span p - {unat base..<(if splits base sz p then lend p else unat base + unat sz)}"
    and "\<forall>q\<in>set (shrink base sz p). unat (lbase p) \<le> unat (lbase q) \<and> lend q \<le> lend p"
    and "splits base sz p \<Longrightarrow> \<exists>q. shrink base sz p = [q] \<and> 0 < lsize q \<and> lend q = unat base"
proof -
  have e: "unat (lbase p + lsize p) = lend p" "unat (base + sz) = unat base + unat sz"
    using unat_lend [OF p] unat_lend [of "block base sz"] ns by simp_all
  have eqs: "lbase p = base \<longleftrightarrow> unat (lbase p) = unat base"
    "lbase p + lsize p = base + sz \<longleftrightarrow> lend p = unat base + unat sz"
    using e by (simp_all add: word_unat_eq_iff)
  have le: "unat sz \<le> unat (lsize p)" using ins by (simp add: lend_def)
  then have sub: "unat (lsize p - sz) = unat (lsize p) - unat sz" "unat (base - lbase p) = unat base - unat (lbase p)"
    using ins by (simp_all add: unat_sub word_le_nat_alt)
  show "listed (shrink base sz p) = span p - {unat base..<(if splits base sz p then lend p else unat base + unat sz)}"
    using ins le by (auto simp: shrink_def splits_def eqs span_def lend_def sub e)
  show "\<forall>q\<in>set (shrink base sz p). unat (lbase p) \<le> unat (lbase q) \<and> lend q \<le> lend p"
    using ins le by (auto simp: shrink_def eqs lend_def sub e)
  show "splits base sz p \<Longrightarrow> \<exists>q. shrink base sz p = [q] \<and> 0 < lsize q \<and> lend q = unat base"
    using ins by (auto simp: shrink_def splits_def eqs lend_def sub word_less_nat_alt)
qed

text \<open>\<open>lmb_free\<close> replaces the entry by what is left of it in front of or behind the hole, and adds the rest.\<close>

lemma free_region_split:
  assumes sh: "shaped rgn" and bl: "blocks rgn = A @ p # B"
    and A: "\<forall>a\<in>set A. \<not> (lbase a \<le> base \<and> base + sz \<le> lbase a + lsize a)"
    and p: "lbase p \<le> base \<and> base + sz \<le> lbase p + lsize p"
  shows "\<exists>g. blocks g = A @ shrink base sz p @ B \<and> length (region g) = Suc MAX_LMB_REGIONS \<and>
     (shrink base sz p \<noteq> [] \<longrightarrow> shaped g) \<and>
     lmb_free_region rgn base sz =
       (if splits base sz p then lmb_add_region g (base + sz) (lbase p + lsize p - (base + sz)) else Done (0, g))"
proof -
  have n: "length A < unat (cnt rgn)" "unat (cnt rgn) \<le> length (region rgn)" "1 \<le> unat (cnt rgn)"
    "length (region rgn) = Suc MAX_LMB_REGIONS"
    using bl length_blocks [OF sh] sh by (auto simp: shaped_def)
  have "region rgn ! length A = p" using bl n nth_blocks [of "length A" rgn] by simp
  then have e: "entry rgn (length A) = Done p" using n sh by (simp add: entry_shaped)
  have first: "first_from (\<lambda>p. lbase p \<le> base \<and> base + sz \<le> lbase p + lsize p) rgn 0 = Done (length A)"
    using sh bl A p by (rule first_from_split)
  have free: "lmb_free_region rgn base sz = (if lbase p = base \<and> lbase p + lsize p = base + sz
      then bind_outcome (lmb_remove_region rgn (length A)) (\<lambda>g. Done (0, g))
      else (let g = set_entry rgn (length A) (hd (shrink base sz p))
            in if splits base sz p then lmb_add_region g (base + sz) (lbase p + lsize p - (base + sz)) else Done (0, g)))"
    using n by (auto simp: lmb_free_region_def first e Let_def shrink_def splits_def)
  show ?thesis
  proof (cases "lbase p = base \<and> lbase p + lsize p = base + sz")
    case True
    then have "shrink base sz p = []" "\<not> splits base sz p" by (auto simp: shrink_def splits_def)
    moreover obtain g where "lmb_remove_region rgn (length A) = Done g" "blocks g = A @ B"
      "length (region g) = length (region rgn)"
      using remove_region_blocks [OF n(3,2,1)] bl by auto
    moreover have "lmb_free_region rgn base sz = bind_outcome (lmb_remove_region rgn (length A)) (\<lambda>g. Done (0, g))"
      using free by (simp only: if_P [OF True])
    ultimately show ?thesis using n by (intro exI [of _ g]) simp
  next
    case False
    then have ne: "shrink base sz p = [hd (shrink base sz p)]" by (auto simp: shrink_def)
    show ?thesis
    proof (intro exI conjI)
      let ?g = "set_entry rgn (length A) (hd (shrink base sz p))"
      have "blocks ?g = A @ hd (shrink base sz p) # B" using bl by (simp add: blocks_set_entry)
      then show "blocks ?g = A @ shrink base sz p @ B" using ne by (metis append_Cons append_Nil)
      show "length (region ?g) = Suc MAX_LMB_REGIONS" using n by (simp add: set_entry_def)
      show "shrink base sz p \<noteq> [] \<longrightarrow> shaped ?g" using sh by simp
      show "lmb_free_region rgn base sz = (if splits base sz p then lmb_add_region ?g (base + sz) (lbase p + lsize p - (base + sz)) else Done (0, ?g))"
        using False by (simp only: free if_False Let_def)
    qed
  qed
qed

lemma free_region_uncovers:
  assumes so: "sound rgn" and ns: "unat base + unat sz < 2 ^ 32" and sz: "0 < sz"
  shows "\<exists>r g. lmb_free_region rgn base sz = Done (r, g) \<and>
     (0 \<le> r \<longrightarrow> covers g = covers rgn - {unat base..<unat base + unat sz}) \<and>
     (r < 0 \<longrightarrow> unat (cnt rgn) = MAX_LMB_REGIONS \<or>
        g = rgn \<and> (\<forall>p\<in>set (blocks rgn). \<not> {unat base..<unat base + unat sz} \<subseteq> span p))"
proof -
  note s = sound_blocks [OF so]
  let ?in = "\<lambda>p. lbase p \<le> base \<and> base + sz \<le> lbase p + lsize p"
  have bound: "\<forall>p\<in>set (blocks rgn). lend p < 2 ^ 32" using s(2) by (simp add: tidy_def)
  show ?thesis
  proof (cases "\<exists>p\<in>set (blocks rgn). ?in p")
    case False
    then have "first_from ?in rgn 0 = Done (unat (cnt rgn))"
      using s(1) by (intro first_from_none) auto
    then have "lmb_free_region rgn base sz = Done (- 1, rgn)"
      by (simp add: lmb_free_region_def)
    moreover have "\<forall>p\<in>set (blocks rgn). \<not> {unat base..<unat base + unat sz} \<subseteq> span p"
      using False bound inside_span [OF _ ns sz] by blast
    ultimately show ?thesis by simp
  next
    case True
    then obtain A p B where bl: "blocks rgn = A @ p # B" and p: "?in p" and A: "\<forall>a\<in>set A. \<not> ?in a"
      using split_list_first_prop [of "blocks rgn" ?in] by auto
    obtain g where g: "blocks g = A @ shrink base sz p @ B" "shrink base sz p \<noteq> [] \<longrightarrow> shaped g"
      "lmb_free_region rgn base sz =
         (if splits base sz p then lmb_add_region g (base + sz) (lbase p + lsize p - (base + sz)) else Done (0, g))"
      using free_region_split [OF s(1) bl A p] by blast
    have lp: "lend p < 2 ^ 32" using bl bound by simp
    have ins: "unat (lbase p) \<le> unat base" "unat base + unat sz \<le> lend p"
      using p inside_iff [OF lp ns] by simp_all
    have sub: "{unat base..<unat base + unat sz} \<subseteq> span p" using inside_span [OF lp ns sz] p by simp
    have t: "tidy (A @ p # B)" using s(2) bl by simp
    note sh = shrink_span [OF lp ns ins]
    show ?thesis
    proof (cases "splits base sz p")
      case False
      have "listed (A @ shrink base sz p @ B) = listed (A @ p # B) - {unat base..<unat base + unat sz}"
        using False sh(1) by (intro listed_replace [OF t sub]) simp
      with False g bl show ?thesis by (simp add: covers_listed)
    next
      case True
      then obtain q where q: "shrink base sz p = [q]" "0 < lsize q" "lend q = unat base" "unat (lbase p) \<le> unat (lbase q)"
        using sh(2,3) by auto
      have gl: "listed (A @ [q] @ B) = listed (A @ p # B) - {unat base..<lend p}"
        using True sh(1) q(1) ins by (intro listed_replace [OF t]) (auto simp: span_def)
      have tg: "tidy (blocks g)"
        using t q ins unfolding g(1) by (auto simp: tidy_simps above_def)
      have "solid (blocks g) \<or> length (blocks g) = 1"
        using s(3) q unfolding g(1) bl by (auto simp: solid_def)
      with g(2) q tg have sg: "sound g" by (intro soundI) auto
      have e: "unat (base + sz) = unat base + unat sz" "unat (lbase p + lsize p) = lend p"
        using unat_lend [OF lp] unat_lend [of "block base sz"] ns by simp_all
      then have len: "unat (base + sz) + unat (lbase p + lsize p - (base + sz)) = lend p"
        using p ins by (simp add: unat_sub)
      have "unat (base + sz) + unat (lbase p + lsize p - (base + sz)) < 2 ^ 32" using len lp by simp
      from add_region_covers [OF sg this] len
      obtain r h where h: "lmb_add_region g (base + sz) (lbase p + lsize p - (base + sz)) = Done (r, h)"
        "if r < 0 then unat (cnt g) = MAX_LMB_REGIONS \<and> covers h = covers g
         else covers h = covers g \<union> {unat (base + sz)..<lend p}"
        by metis
      have n: "unat (cnt g) = unat (cnt rgn)"
        using length_blocks [OF s(1)] length_blocks [of g] g q bl by simp
      have cg: "covers g = covers rgn - {unat base..<lend p}"
        using gl unfolding covers_listed g(1) q(1) bl by simp
      have "{unat base + unat sz..<lend p} \<subseteq> covers rgn"
        using ins unfolding covers_listed bl by (auto simp: span_def)
      then have "covers g \<union> {unat (base + sz)..<lend p} = covers rgn - {unat base..<unat base + unat sz}"
        using ins unfolding cg e by auto
      with n h True g(3) show ?thesis by (intro exI [of _ r] exI [of _ h]) auto
    qed
  qed
qed

section \<open>The search for room\<close>

lemma unat_align_down_pow:
  assumes "k < 32"
  shows "unat (lmb_align_down x (2 ^ k)) = unat x - unat x mod 2 ^ k"
proof -
  have "x AND (2 ^ k - 1) = take_bit k x" by (simp add: take_bit_eq_mask mask_eq_exp_minus_1)
  moreover have "unat (take_bit k x) = unat x mod 2 ^ k" by (metis unsigned_take_bit_eq take_bit_eq_mod)
  ultimately show ?thesis by (simp only: lmb_align_down_def unat_and_not)
qed

lemma align_up_bounds:
  assumes "unat sz + unat a \<le> 2 ^ 32" "0 < a"
  shows "unat sz \<le> unat (lmb_align_up sz a)" "unat (lmb_align_up sz a) < unat sz + unat a"
proof -
  have a: "unat (a - 1) = unat a - 1" "0 < unat a" 
    using assms(2) by (simp_all add: unat_minus_one word_less_nat_alt)
  then have "unat (sz + (a - 1)) = unat sz + unat a - 1"
    using assms(1) by (simp add: unat_word_ariths)
  moreover have "unat ((sz + (a - 1)) AND (a - 1)) \<le> unat a - 1"
    unfolding a(1) [symmetric] word_le_nat_alt [symmetric] by (rule word_and_le1)
  ultimately show "unat sz \<le> unat (lmb_align_up sz a)" "unat (lmb_align_up sz a) < unat sz + unat a"
    using a(2) by (simp_all add: lmb_align_up_def unat_and_not)
qed


lemma align_down_dvd: "k < 32 \<Longrightarrow> 2 ^ k dvd unat (lmb_align_down x (2 ^ k))"
  by (simp add: unat_align_down_pow)

lemma align_down_greatest:
  assumes "k < 32" "2 ^ k dvd c" "c \<le> unat x"
  shows "c \<le> unat (lmb_align_down x (2 ^ k))"
proof -
  obtain d where d: "c = 2 ^ k * d" using assms(2) by (auto simp: dvd_def)
  then have "d \<le> unat x div 2 ^ k" using assms(3) by (simp add: less_eq_div_iff_mult_less_eq mult.commute)
  then have "c \<le> 2 ^ k * (unat x div 2 ^ k)" using d by simp
  then show ?thesis by (simp add: unat_align_down_pow [OF assms(1)] minus_mod_eq_mult_div)
qed

lemma overlaps_region_cases:
  assumes "shaped rgn"
  obtains (clear) "lmb_overlaps_region rgn base sz = Done (- 1)" "clear_of base sz (blocks rgn)"
  | (hit) i where "lmb_overlaps_region rgn base sz = Done (int i)" "region rgn ! i \<in> set (blocks rgn)"
      "lmb_addrs_overlap base sz (lbase (region rgn ! i)) (lsize (region rgn ! i))"
proof (cases "clear_of base sz (blocks rgn)")
  case True
  then have "first_from (\<lambda>p. lmb_addrs_overlap base sz (lbase p) (lsize p)) rgn 0 = Done (unat (cnt rgn))"
    using assms by (intro first_from_none) (simp_all add: clear_of_def)
  with True clear show ?thesis by (simp add: lmb_overlaps_region_def)
next
  case False
  then obtain A p B where bl: "blocks rgn = A @ p # B" and p: "lmb_addrs_overlap base sz (lbase p) (lsize p)"
    and A: "\<forall>a\<in>set A. \<not> lmb_addrs_overlap base sz (lbase a) (lsize a)"
    using split_list_first_prop [of "blocks rgn" "\<lambda>p. lmb_addrs_overlap base sz (lbase p) (lsize p)"]
    by (auto simp: clear_of_def)
  have "first_from (\<lambda>p. lmb_addrs_overlap base sz (lbase p) (lsize p)) rgn 0 = Done (length A)"
    using assms bl A p by (rule first_from_split)
  moreover have "length A < unat (cnt rgn)" using length_blocks [OF assms] bl by simp
  moreover from this have "region rgn ! length A = p" using bl nth_blocks [of "length A" rgn] by simp
  ultimately show ?thesis using hit [of "length A"] bl p by (simp add: lmb_overlaps_region_def)
qed

text \<open>
  The address the loop settles on, started at an aligned \<open>base\<close>: the highest aligned address from
  \<open>base\<close> down to \<open>lmbbase\<close> at which \<open>sz\<close> bytes are clear of the reserved entries.
\<close>

definition fits :: "lmb \<Rightarrow> u32 \<Rightarrow> nat \<Rightarrow> u32 \<Rightarrow> bool" where
  "fits l sz k c \<longleftrightarrow> c \<noteq> 0 \<and> 2 ^ k dvd unat c \<and> clear_of c sz (blocks (reserved l))"

lemma overlap_excludes:
  assumes "tidy ps" "p \<in> set ps" "lmb_addrs_overlap base sz (lbase p) (lsize p)" "unat base + unat sz < 2 ^ 32"
    and "unat (lbase p) < unat c + unat sz" "unat c \<le> unat base"
  shows "\<not> clear_of c sz ps"
proof -
  have p: "lend p < 2 ^ 32" using assms(1,2) by (simp add: tidy_def)
  then have "unat base < lend p" using overlap_iff [of "block base sz" p] assms(3,4) by simp
  then have "lmb_addrs_overlap c sz (lbase p) (lsize p)"
    using overlap_iff [of "block c sz" p] p assms(4-6) by simp
  with assms(2) show ?thesis by (auto simp: clear_of_def)
qed

lemma take_area_step:
  assumes "shaped (reserved l)" "base \<noteq> 0" "lmbbase \<le> base" "\<not> clear_of base sz (blocks (reserved l))"
  obtains p where "p \<in> set (blocks (reserved l))" "lmb_addrs_overlap base sz (lbase p) (lsize p)"
    "take_area l sz align lmbbase base = (if lbase p < sz then Done None
       else take_area l sz align lmbbase (lmb_align_down (lbase p - sz) align))"
  using assms(1)
proof (cases rule: overlaps_region_cases [of _ base sz])
  case (hit i)
  have "take_area l sz align lmbbase base = (if lbase (region (reserved l) ! i) < sz then Done None
       else take_area l sz align lmbbase (lmb_align_down (lbase (region (reserved l) ! i) - sz) align))"
    using hit(1) assms(2,3) by (subst take_area.simps) simp
  with hit show ?thesis by (intro that)
qed (use assms in simp)

definition settle :: "lmb \<Rightarrow> u32 \<Rightarrow> u32 \<Rightarrow> u32 \<Rightarrow> (u32 \<times> lmb) option outcome" where
  "settle l sz align a = bind_outcome (lmb_add_region (reserved l) a (lmb_align_up sz align)) (\<lambda>(r, g).
     Done (Some (if r < 0 then 0 else a, l\<lparr>reserved := g\<rparr>)))"

lemma take_area_clear:
  assumes "shaped (reserved l)" "base \<noteq> 0" "lmbbase \<le> base" "clear_of base sz (blocks (reserved l))"
  shows "take_area l sz align lmbbase base = settle l sz align base"
  using assms(1)
proof (cases rule: overlaps_region_cases [of _ base sz])
  case clear
  then show ?thesis using assms(2,3) by (subst take_area.simps) (simp add: settle_def)
qed (use assms(4) in \<open>auto simp: clear_of_def\<close>)

lemma skipped_unfit:
  assumes "sound (reserved l)" "k < 32" "p \<in> set (blocks (reserved l))"
    "lmb_addrs_overlap base sz (lbase p) (lsize p)" "unat base + unat sz < 2 ^ 32" "\<not> lbase p < sz"
    and c: "lmb_align_down (lbase p - sz) (2 ^ k) < c" "c \<le> base"
  shows "\<not> fits l sz k c"
proof
  assume f: "fits l sz k c"
  then have "\<not> unat c \<le> unat (lbase p - sz)"
    using align_down_greatest [OF assms(2), of "unat c" "lbase p - sz"] c(1)
    by (auto simp: fits_def word_less_nat_alt)
  moreover have "unat (lbase p - sz) = unat (lbase p) - unat sz"
    using assms(6) by (simp add: unat_sub not_less)
  ultimately have "unat (lbase p) < unat c + unat sz" by linarith
  with overlap_excludes [OF sound_blocks(2) [OF assms(1)] assms(3-5), of c] c(2) f show False
    by (simp add: fits_def word_le_nat_alt)
qed

lemma take_area_spec:
  assumes "sound (reserved l)" "k < 32" "unat base + unat sz < 2 ^ 32" "2 ^ k dvd unat base"
  shows "(\<exists>a. lmbbase \<le> a \<and> a \<le> base \<and> fits l sz k a \<and> (\<forall>c. a < c \<and> c \<le> base \<longrightarrow> \<not> fits l sz k c) \<and>
       take_area l sz (2 ^ k) lmbbase base = settle l sz (2 ^ k) a) \<or>
     take_area l sz (2 ^ k) lmbbase base = Done None \<and> (\<forall>c. lmbbase \<le> c \<and> c \<le> base \<longrightarrow> \<not> fits l sz k c)"
  using assms(3,4)
proof (induction "unat base" arbitrary: base rule: less_induct)
  case less
  note s = sound_blocks [OF assms(1)]
  consider (stop) "base = 0 \<or> \<not> lmbbase \<le> base"
    | (clear) "base \<noteq> 0" "lmbbase \<le> base" "clear_of base sz (blocks (reserved l))"
    | (hit) "base \<noteq> 0" "lmbbase \<le> base" "\<not> clear_of base sz (blocks (reserved l))"
    by blast
  then show ?case
  proof cases
    case stop
    then have "take_area l sz (2 ^ k) lmbbase base = Done None" by (subst take_area.simps) auto
    with stop show ?thesis by (auto simp: fits_def)
  next
    case clear
    with take_area_clear [OF s(1) clear] less.prems show ?thesis
      by (intro disjI1 exI [of _ base]) (auto simp: fits_def)
  next
    case hit
    from take_area_step [OF s(1) hit, of "2 ^ k"] obtain p where p: "p \<in> set (blocks (reserved l))"
      "lmb_addrs_overlap base sz (lbase p) (lsize p)"
      "take_area l sz (2 ^ k) lmbbase base = (if lbase p < sz then Done None
         else take_area l sz (2 ^ k) lmbbase (lmb_align_down (lbase p - sz) (2 ^ k)))"
      by blast
    have excl: "\<not> fits l sz k c" if "unat (lbase p) < unat c + unat sz" "c \<le> base" for c
      using overlap_excludes [OF s(2) p(1,2) less.prems(1), of c] that by (simp add: fits_def word_le_nat_alt)
    show ?thesis
    proof (cases "lbase p < sz")
      case True
      then have "\<forall>c. c \<le> base \<longrightarrow> \<not> fits l sz k c"
        using excl by (simp add: word_less_nat_alt)
      with True p(3) show ?thesis by simp
    next
      case False
      let ?b = "lmb_align_down (lbase p - sz) (2 ^ k)"
      have lt: "unat ?b < unat base"
        using overlap_gives_progress [OF p(2)] False align_down_le [of "lbase p - sz" "2 ^ k"] by (simp add: not_less)
      note below = skipped_unfit [OF assms(1,2) p(1,2) less.prems(1) False]
      have rest: "\<not> fits l sz k c" if "c \<le> base" "c \<le> ?b \<Longrightarrow> \<not> fits l sz k c" for c
        using that below [of c] by (cases "c \<le> ?b") (auto simp: not_le)
      have ta: "take_area l sz (2 ^ k) lmbbase base = take_area l sz (2 ^ k) lmbbase ?b"
        using p(3) False by simp
      have le: "?b \<le> base" using lt by (simp add: word_le_nat_alt)
      have "unat ?b + unat sz < 2 ^ 32" using lt less.prems(1) by linarith
      from less.hyps [OF lt this align_down_dvd [OF assms(2)]] show ?thesis
      proof (elim disjE exE conjE)
        fix a assume a: "lmbbase \<le> a" "a \<le> ?b" "fits l sz k a" "\<forall>c. a < c \<and> c \<le> ?b \<longrightarrow> \<not> fits l sz k c"
          "take_area l sz (2 ^ k) lmbbase ?b = settle l sz (2 ^ k) a"
        then have "\<forall>c. a < c \<and> c \<le> base \<longrightarrow> \<not> fits l sz k c" using rest by blast
        with a ta le show ?thesis by (intro disjI1 exI [of _ a]) auto
      next
        assume "take_area l sz (2 ^ k) lmbbase ?b = Done None" "\<forall>c. lmbbase \<le> c \<and> c \<le> ?b \<longrightarrow> \<not> fits l sz k c"
        then show ?thesis using rest ta by auto
      qed
    qed
  qed
qed

definition room_top :: "u32 \<Rightarrow> lmb_property \<Rightarrow> nat" where
  "room_top max_addr p = (if max_addr = LMB_ALLOC_ANYWHERE then lend p else min (lend p) (unat max_addr))"

definition start_base :: "u32 \<Rightarrow> u32 \<Rightarrow> lmb_property \<Rightarrow> u32" where
  "start_base sz max_addr p =
     (if max_addr = LMB_ALLOC_ANYWHERE then lbase p + lsize p - sz
      else min (if lbase p + lsize p < lbase p then - 1 else lbase p + lsize p) max_addr - sz)"

definition has_room :: "u32 \<Rightarrow> u32 \<Rightarrow> lmb_property \<Rightarrow> bool" where
  "has_room sz max_addr p \<longleftrightarrow> \<not> lsize p < sz \<and> (max_addr = LMB_ALLOC_ANYWHERE \<or> lbase p < max_addr)"

lemma alloc_down_Suc:
  assumes "entry (memory l) i = Done p"
  shows "alloc_down l sz align max_addr (Suc i) =
    (if has_room sz max_addr p then
       bind_outcome (take_area l sz align (lbase p) (lmb_align_down (start_base sz max_addr p) align)) (\<lambda>ret.
         case ret of Some res \<Rightarrow> Done res | None \<Rightarrow> alloc_down l sz align max_addr i)
     else alloc_down l sz align max_addr i)"
  using assms by (simp add: has_room_def start_base_def Let_def)

lemma unat_start_base:
  assumes "lend p < 2 ^ 32" "has_room sz max_addr p" "max_addr = LMB_ALLOC_ANYWHERE \<or> sz \<le> max_addr"
  shows "unat (start_base sz max_addr p) = room_top max_addr p - unat sz" "unat sz \<le> room_top max_addr p"
proof -
  have e: "unat (lbase p + lsize p) = lend p" using assms(1) by (rule unat_lend)
  then have nw: "\<not> lbase p + lsize p < lbase p" by (simp add: word_less_nat_alt lend_def)
  have le: "unat sz \<le> lend p" using assms(2) by (simp add: has_room_def lend_def word_less_nat_alt)
  have m: "unat (min (lbase p + lsize p) max_addr) = min (lend p) (unat max_addr)"
    by (simp add: min_def e word_le_nat_alt)
  show "unat sz \<le> room_top max_addr p"
    using le assms(3) by (auto simp: room_top_def word_le_nat_alt)
  show "unat (start_base sz max_addr p) = room_top max_addr p - unat sz"
  proof (cases "max_addr = LMB_ALLOC_ANYWHERE")
    case True
    then show ?thesis using e le by (simp add: start_base_def room_top_def unat_sub word_le_nat_alt)
  next
    case False
    then have "sz \<le> min (lbase p + lsize p) max_addr" using assms(3) e le by (simp add: word_le_nat_alt)
    with False nw m show ?thesis by (simp add: start_base_def room_top_def unat_sub)
  qed
qed

definition place :: "lmb \<Rightarrow> u32 \<Rightarrow> nat \<Rightarrow> u32 \<Rightarrow> lmb_property list \<Rightarrow> u32 \<Rightarrow> bool" where
  "place l sz k max_addr ps c \<longleftrightarrow> fits l sz k c \<and>
     (\<exists>p\<in>set ps. unat (lbase p) \<le> unat c \<and> unat c + unat sz \<le> room_top max_addr p)"

lemma no_room:
  assumes "\<not> has_room sz max_addr p" "0 < sz" "unat (lbase p) \<le> unat c" "unat c + unat sz \<le> room_top max_addr p"
  shows False
  using assms by (auto simp: has_room_def room_top_def lend_def word_le_nat_alt word_less_nat_alt split: if_splits)

lemma region_try:
  assumes "sound (reserved l)" "k < 32" "lend p < 2 ^ 32" "has_room sz max_addr p"
    "max_addr = LMB_ALLOC_ANYWHERE \<or> sz \<le> max_addr"
  defines "b \<equiv> lmb_align_down (start_base sz max_addr p) (2 ^ k)"
  shows "(\<exists>a. place l sz k max_addr [p] a \<and> (\<forall>c. place l sz k max_addr [p] c \<longrightarrow> c \<le> a) \<and>
       take_area l sz (2 ^ k) (lbase p) b = settle l sz (2 ^ k) a) \<or>
     take_area l sz (2 ^ k) (lbase p) b = Done None \<and> (\<forall>c. \<not> place l sz k max_addr [p] c)"
proof -
  note st = unat_start_base [OF assms(3-5)]
  have b: "unat b \<le> room_top max_addr p - unat sz"
    using align_down_le [of "start_base sz max_addr p" "2 ^ k"] st(1) by (simp add: b_def)
  have top: "room_top max_addr p < 2 ^ 32" using assms(3) by (simp add: room_top_def min_def)
  have "unat b + unat sz < 2 ^ 32" using b st(2) top by linarith
  moreover have "2 ^ k dvd unat b" unfolding b_def by (rule align_down_dvd [OF assms(2)])
  ultimately have spec: "(\<exists>a. lbase p \<le> a \<and> a \<le> b \<and> fits l sz k a \<and> (\<forall>c. a < c \<and> c \<le> b \<longrightarrow> \<not> fits l sz k c) \<and> take_area l sz (2 ^ k) (lbase p) b = settle l sz (2 ^ k) a) \<or>
     take_area l sz (2 ^ k) (lbase p) b = Done None \<and> (\<forall>c. lbase p \<le> c \<and> c \<le> b \<longrightarrow> \<not> fits l sz k c)"
    using take_area_spec [OF assms(1,2), of b sz "lbase p"] by blast
  have pl: "place l sz k max_addr [p] c \<longleftrightarrow> lbase p \<le> c \<and> c \<le> b \<and> fits l sz k c" for c
  proof
    assume pl: "place l sz k max_addr [p] c"
    then have "unat c + unat sz \<le> room_top max_addr p" by (simp add: place_def)
    then have "unat c \<le> unat (start_base sz max_addr p)" using st(1) by linarith
    with pl align_down_greatest [OF assms(2), of "unat c"] show "lbase p \<le> c \<and> c \<le> b \<and> fits l sz k c"
      by (simp add: place_def fits_def b_def word_le_nat_alt)
  next
    assume "lbase p \<le> c \<and> c \<le> b \<and> fits l sz k c"
    with b st(2) show "place l sz k max_addr [p] c" by (auto simp: place_def word_le_nat_alt)
  qed
  from spec show ?thesis
  proof (elim disjE exE conjE)
    fix a assume a: "lbase p \<le> a" "a \<le> b" "fits l sz k a" "\<forall>c. a < c \<and> c \<le> b \<longrightarrow> \<not> fits l sz k c"
      "take_area l sz (2 ^ k) (lbase p) b = settle l sz (2 ^ k) a"
    then have "\<forall>c. place l sz k max_addr [p] c \<longrightarrow> c \<le> a" by (auto simp: pl not_le [symmetric])
    with a show ?thesis by (intro disjI1 exI [of _ a]) (simp add: pl)
  next
    assume "take_area l sz (2 ^ k) (lbase p) b = Done None" "\<forall>c. lbase p \<le> c \<and> c \<le> b \<longrightarrow> \<not> fits l sz k c"
    then show ?thesis by (simp add: pl)
  qed
qed

definition give :: "lmb \<Rightarrow> u32 \<Rightarrow> u32 \<Rightarrow> u32 \<Rightarrow> (u32 \<times> lmb) outcome" where
  "give l sz align a = bind_outcome (lmb_add_region (reserved l) a (lmb_align_up sz align)) (\<lambda>(r, g).
     Done (if r < 0 then 0 else a, l\<lparr>reserved := g\<rparr>))"

lemma settle_give:
  "bind_outcome (settle l sz align a) (\<lambda>ret. case ret of Some res \<Rightarrow> Done res | None \<Rightarrow> other) = give l sz align a"
  by (cases "lmb_add_region (reserved l) a (lmb_align_up sz align)") (auto simp: settle_def give_def)

text \<open>A place in a lower region lies below every place in a higher one.\<close>

lemma lower_region_place:
  assumes "tidy (ps @ [p])" "place l sz k max_addr ps c" "place l sz k max_addr [p] a"
  shows "c \<le> a"
proof -
  obtain q where "q \<in> set ps" "unat c + unat sz \<le> room_top max_addr q" using assms(2) by (auto simp: place_def)
  moreover have "room_top max_addr q \<le> lend q" by (simp add: room_top_def)
  moreover have "lend q \<le> unat (lbase p)" using assms(1) \<open>q \<in> set ps\<close> by (auto simp: tidy_simps above_def)
  ultimately show ?thesis using assms(3) by (auto simp: place_def word_le_nat_alt)
qed

lemma alloc_down_spec:
  assumes "sound (reserved l)" "shaped (memory l)" "\<forall>p\<in>set (blocks (memory l)). lend p < 2 ^ 32"
    "k < 32" "0 < sz" "max_addr = LMB_ALLOC_ANYWHERE \<or> sz \<le> max_addr" "n \<le> unat (cnt (memory l))"
  shows "(\<exists>a. place l sz k max_addr (take n (blocks (memory l))) a \<and>
       (tidy (blocks (memory l)) \<longrightarrow> (\<forall>c. place l sz k max_addr (take n (blocks (memory l))) c \<longrightarrow> c \<le> a)) \<and>
       alloc_down l sz (2 ^ k) max_addr n = give l sz (2 ^ k) a) \<or>
     alloc_down l sz (2 ^ k) max_addr n = Done (0, l) \<and> (\<forall>c. \<not> place l sz k max_addr (take n (blocks (memory l))) c)"
  using assms(7)
proof (induction n)
  case 0
  then show ?case by (simp add: place_def)
next
  case (Suc n)
  let ?p = "blocks (memory l) ! n"
  have len: "n < length (blocks (memory l))" using Suc.prems length_blocks [OF assms(2)] by simp
  then have tk: "take (Suc n) (blocks (memory l)) = take n (blocks (memory l)) @ [?p]"
    by (rule take_Suc_conv_app_nth)
  have pl: "place l sz k max_addr (take (Suc n) (blocks (memory l))) c \<longleftrightarrow>
      place l sz k max_addr (take n (blocks (memory l))) c \<or> place l sz k max_addr [?p] c" for c
    unfolding tk by (auto simp: place_def)
  have e: "entry (memory l) n = Done ?p"
    using Suc.prems assms(2) by (simp add: entry_shaped nth_blocks)
  have lp: "lend ?p < 2 ^ 32" using assms(3) len by simp
  note ih = Suc.IH [OF Suc_leD [OF Suc.prems]]
  show ?case
  proof (cases "has_room sz max_addr ?p")
    case True
    let ?t = "take_area l sz (2 ^ k) (lbase ?p) (lmb_align_down (start_base sz max_addr ?p) (2 ^ k))"
    have run: "alloc_down l sz (2 ^ k) max_addr (Suc n) = bind_outcome ?t (\<lambda>ret.
        case ret of Some res \<Rightarrow> Done res | None \<Rightarrow> alloc_down l sz (2 ^ k) max_addr n)"
      unfolding alloc_down_Suc [OF e] if_P [OF True] ..
    have td: "tidy (take n (blocks (memory l)) @ [?p])" if "tidy (blocks (memory l))"
    proof -
      have "tidy (take (Suc n) (blocks (memory l)) @ drop (Suc n) (blocks (memory l)))" using that by simp
      then show ?thesis unfolding tk tidy_append by simp
    qed
    from region_try [OF assms(1,4) lp True assms(6)] show ?thesis
    proof (elim disjE exE conjE)
      fix a assume a: "place l sz k max_addr [?p] a" "\<forall>c. place l sz k max_addr [?p] c \<longrightarrow> c \<le> a" "?t = settle l sz (2 ^ k) a"
      have "alloc_down l sz (2 ^ k) max_addr (Suc n) = give l sz (2 ^ k) a" by (simp only: run a(3) settle_give)
      moreover have "tidy (blocks (memory l)) \<longrightarrow> (\<forall>c. place l sz k max_addr (take (Suc n) (blocks (memory l))) c \<longrightarrow> c \<le> a)"
        using a(1,2) lower_region_place [OF td _ a(1)] by (auto simp: pl)
      ultimately show ?thesis using a(1) pl by blast
    next
      assume "?t = Done None" "\<forall>c. \<not> place l sz k max_addr [?p] c"
      with ih pl show ?thesis unfolding run by simp
    qed
  next
    case False
    then have "\<not> place l sz k max_addr [?p] c" for c
      using no_room [OF False assms(5)] by (auto simp: place_def)
    with ih pl show ?thesis
      unfolding alloc_down_Suc [OF e] if_not_P [OF False] by auto
  qed
qed

lemma sint_small:
  fixes w :: u32
  assumes "unat w < 2 ^ 31"
  shows "sint w = int (unat w)"
proof -
  have "int (unat w) < int (2 ^ 31)" using assms by (simp only: of_nat_less_iff)
  then have lt: "uint w < 2 ^ 31" by simp
  have "- (2 ^ 31) \<le> (0::int)" by simp
  also have "0 \<le> uint w" by simp
  finally have "signed_take_bit 31 (uint w) = uint w"
    using lt by (rule signed_take_bit_int_eq_self)
  then show ?thesis by (simp add: sint_uint)
qed

lemma count_down_start:
  assumes "shaped rgn"
  shows "nat (sint (cnt rgn - 1) + 1) = unat (cnt rgn)"
proof -
  have c: "1 \<le> unat (cnt rgn)" "unat (cnt rgn) \<le> 16" using assms by (auto simp: shaped_def MAX_LMB_REGIONS_def)
  then have "sint (cnt rgn - 1) = int (unat (cnt rgn) - 1)"
    using sint_small [of "cnt rgn - 1"] by (simp add: unat_minus_one)
  with c show ?thesis by simp
qed

lemma clear_disjoint:
  assumes "clear_of base sz (blocks rgn)" "tidy (blocks rgn)" "unat base + unat sz < 2 ^ 32"
  shows "{unat base..<unat base + unat sz} \<inter> covers rgn = {}"
proof -
  have "above (block base sz) p \<or> above p (block base sz)" if "p \<in> set (blocks rgn)" for p
    using clear_above [OF assms(1,3,2) that] .
  then show ?thesis by (fastforce simp: covers_def span_def above_def lend_def)
qed

lemma unat_exp_small:
  assumes "k < 32"
  shows "unat ((2::u32) ^ k) = 2 ^ k"
proof -
  have "(2::nat) ^ k < 2 ^ 32" using assms by (rule power_strict_increasing) simp
  then have "unat (word_of_nat (2 ^ k) :: u32) = 2 ^ k"
    unfolding unsigned_of_nat using assms by (simp add: take_bit_nat_eq_self)
  then show ?thesis by simp
qed

text \<open>The table of reserved ranges after a successful allocation, and what a failed one means.\<close>

lemma give_spec:
  assumes so: "sound (reserved l)" and sz: "0 < sz" and k: "k < 32"
    and a: "fits l sz k a" "unat a + unat sz + 2 ^ k \<le> 2 ^ 32"
  shows "\<exists>r g. lmb_add_region (reserved l) a (lmb_align_up sz (2 ^ k)) = Done (r, g) \<and>
     give l sz (2 ^ k) a = Done (if r < 0 then 0 else a, l\<lparr>reserved := g\<rparr>) \<and>
     (if r < (0::int) then unat (cnt (reserved l)) = MAX_LMB_REGIONS \<and> covers g = covers (reserved l)
      else covers g = covers (reserved l) \<union> {unat a..<unat a + unat (lmb_align_up sz (2 ^ k))})"
proof -
  have "unat ((2::u32) ^ k) = 2 ^ k" using k by (simp add: unat_exp_small)
  then have "unat (lmb_align_up sz (2 ^ k)) < unat sz + 2 ^ k"
    using align_up_bounds(2) [of sz "2 ^ k"] a(2) by (simp add: word_less_nat_alt)
  then have "unat a + unat (lmb_align_up sz (2 ^ k)) < 2 ^ 32" using a(2) by linarith
  from add_region_covers [OF so this] obtain r g where
    "lmb_add_region (reserved l) a (lmb_align_up sz (2 ^ k)) = Done (r, g)"
    "if r < 0 then unat (cnt (reserved l)) = MAX_LMB_REGIONS \<and> covers g = covers (reserved l)
     else covers g = covers (reserved l) \<union> {unat a..<unat a + unat (lmb_align_up sz (2 ^ k))}"
    by blast
  then show ?thesis by (intro exI [of _ r] exI [of _ g]) (simp add: give_def)
qed

text \<open>What \<open>__lmb_alloc_base\<close> comes to: the range it settles on and tries to add to the reserved ones, or nothing.\<close>

lemma alloc_base_outcome:
  assumes "sound (reserved l)" "shaped (memory l)" "\<forall>p\<in>set (blocks (memory l)). lend p + 2 ^ k \<le> 2 ^ 32"
    and "k < 32" "0 < sz" "max_addr = LMB_ALLOC_ANYWHERE \<or> sz \<le> max_addr"
  shows "(\<exists>a r g. place l sz k max_addr (blocks (memory l)) a \<and> a \<noteq> 0 \<and>
       (tidy (blocks (memory l)) \<longrightarrow> (\<forall>c. place l sz k max_addr (blocks (memory l)) c \<longrightarrow> c \<le> a)) \<and>
       {unat a..<unat a + unat sz} \<inter> covers (reserved l) = {} \<and>
       lmb_add_region (reserved l) a (lmb_align_up sz (2 ^ k)) = Done (r, g) \<and>
       lmb_alloc_base_quiet l sz (2 ^ k) max_addr = Done (if r < 0 then 0 else a, l\<lparr>reserved := g\<rparr>) \<and>
       (if r < (0::int) then unat (cnt (reserved l)) = MAX_LMB_REGIONS \<and> covers g = covers (reserved l)
        else covers g = covers (reserved l) \<union> {unat a..<unat a + unat (lmb_align_up sz (2 ^ k))})) \<or>
     lmb_alloc_base_quiet l sz (2 ^ k) max_addr = Done (0, l) \<and> (\<forall>c. \<not> place l sz k max_addr (blocks (memory l)) c)"
proof -
  have bound: "\<forall>p\<in>set (blocks (memory l)). lend p < 2 ^ 32"
  proof
    fix p assume "p \<in> set (blocks (memory l))"
    then have "lend p + 2 ^ k \<le> 2 ^ 32" using assms(3) by blast
    moreover have "0 < (2::nat) ^ k" by simp
    ultimately show "lend p < 2 ^ 32" by linarith
  qed
  have all: "take (unat (cnt (memory l))) (blocks (memory l)) = blocks (memory l)"
    using length_blocks [OF assms(2)] by simp
  have run: "lmb_alloc_base_quiet l sz (2 ^ k) max_addr = alloc_down l sz (2 ^ k) max_addr (unat (cnt (memory l)))"
    by (simp add: lmb_alloc_base_quiet_def count_down_start [OF assms(2)])
  from alloc_down_spec [OF assms(1,2) bound assms(4-6) order.refl] show ?thesis
    unfolding all run [symmetric]
  proof (elim disjE exE conjE)
    fix a assume a: "place l sz k max_addr (blocks (memory l)) a" "lmb_alloc_base_quiet l sz (2 ^ k) max_addr = give l sz (2 ^ k) a"
      and top: "tidy (blocks (memory l)) \<longrightarrow> (\<forall>c. place l sz k max_addr (blocks (memory l)) c \<longrightarrow> c \<le> a)"
    then obtain p where p: "p \<in> set (blocks (memory l))" "unat a + unat sz \<le> room_top max_addr p"
      unfolding place_def by blast
    have f: "fits l sz k a" "a \<noteq> 0" using a(1) by (auto simp: place_def fits_def)
    have "room_top max_addr p \<le> lend p" by (simp add: room_top_def)
    moreover have "lend p + 2 ^ k \<le> 2 ^ 32" using assms(3) p(1) by blast
    ultimately have fit: "unat a + unat sz + 2 ^ k \<le> 2 ^ 32" using p(2) by linarith
    moreover have "0 < (2::nat) ^ k" by simp
    ultimately have "unat a + unat sz < 2 ^ 32" by linarith
    then have dis: "{unat a..<unat a + unat sz} \<inter> covers (reserved l) = {}"
      using clear_disjoint [of a sz "reserved l"] f sound_blocks(2) [OF assms(1)] by (simp add: fits_def)
    from give_spec [OF assms(1,5,4) f(1) fit] obtain r g where
      "lmb_add_region (reserved l) a (lmb_align_up sz (2 ^ k)) = Done (r, g)"
      "give l sz (2 ^ k) a = Done (if r < 0 then 0 else a, l\<lparr>reserved := g\<rparr>)"
      "if r < (0::int) then unat (cnt (reserved l)) = MAX_LMB_REGIONS \<and> covers g = covers (reserved l)
       else covers g = covers (reserved l) \<union> {unat a..<unat a + unat (lmb_align_up sz (2 ^ k))}"
      by blast
    with a f dis top show ?thesis
      by (intro disjI1 exI [of _ a] exI [of _ r] exI [of _ g]) simp
  qed simp
qed

section \<open>Several ranges in a row\<close>

text \<open>
  A table of address ranges with a bounded number of entries, as the boot code uses it: ranges that
  do not overlap what is there can be added as long as there are entries left.
\<close>

definition range_of :: "u32 \<times> u32 \<Rightarrow> nat set" where
  "range_of r = {unat (fst r)..<unat (fst r) + unat (snd r)}"

definition proper :: "u32 \<times> u32 \<Rightarrow> bool" where
  "proper r \<longleftrightarrow> 0 < snd r \<and> unat (fst r) + unat (snd r) < 2 ^ 32"

fun add_all :: "('t \<Rightarrow> u32 \<times> u32 \<Rightarrow> 't option) \<Rightarrow> 't \<Rightarrow> (u32 \<times> u32) list \<Rightarrow> 't option" where
  "add_all add t [] = Some t"
| "add_all add t (r # rs) = (case add t r of None \<Rightarrow> None | Some t1 \<Rightarrow> add_all add t1 rs)"

locale range_table =
  fixes ok :: "'t \<Rightarrow> bool"
    and cov :: "'t \<Rightarrow> nat set"
    and used :: "'t \<Rightarrow> nat"
    and add :: "'t \<Rightarrow> u32 \<times> u32 \<Rightarrow> 't option"
  assumes add_law: "ok t \<Longrightarrow> proper r \<Longrightarrow> range_of r \<inter> cov t = {} \<Longrightarrow> used t < MAX_LMB_REGIONS \<Longrightarrow>
    \<exists>t1. add t r = Some t1 \<and> ok t1 \<and> cov t1 = cov t \<union> range_of r \<and> used t1 \<le> Suc (used t)"
begin

lemma add_all_disjoint:
  assumes "ok t" "\<forall>r\<in>set rs. proper r \<and> range_of r \<inter> cov t = {}" "sorted_wrt (\<lambda>r q. range_of r \<inter> range_of q = {}) rs"
    "used t + length rs \<le> MAX_LMB_REGIONS"
  shows "\<exists>t1. add_all add t rs = Some t1 \<and> ok t1 \<and> cov t1 = cov t \<union> (\<Union>r\<in>set rs. range_of r)"
  using assms
proof (induction rs arbitrary: t)
  case (Cons r rs)
  obtain t1 where t1: "add t r = Some t1" "ok t1" "cov t1 = cov t \<union> range_of r" "used t1 \<le> Suc (used t)"
    using add_law [of t r] Cons.prems by auto
  then have "\<exists>t2. add_all add t1 rs = Some t2 \<and> ok t2 \<and> cov t2 = cov t1 \<union> (\<Union>r\<in>set rs. range_of r)"
    using Cons.prems by (intro Cons.IH) auto
  with t1 show ?case by (auto simp: Un_assoc)
qed simp

end

definition reserve_range :: "lmb \<Rightarrow> u32 \<times> u32 \<Rightarrow> lmb option" where
  "reserve_range l r = (case lmb_reserve l (fst r) (snd r) of
     Done (res, l1) \<Rightarrow> if res < 0 then None else Some l1 | _ \<Rightarrow> None)"

definition add_range :: "lmb \<Rightarrow> u32 \<times> u32 \<Rightarrow> lmb option" where
  "add_range l r = (case lmb_add l (fst r) (snd r) of
     Done (res, l1) \<Rightarrow> if res < 0 then None else Some l1 | _ \<Rightarrow> None)"

lemma disjoint_clear:
  assumes "solid (blocks rgn)" "tidy (blocks rgn)" "proper r" "range_of r \<inter> covers rgn = {}"
  shows "clear_of (fst r) (snd r) (blocks rgn)"
proof -
  have False if p: "p \<in> set (blocks rgn)" and o: "lmb_addrs_overlap (fst r) (snd r) (lbase p) (lsize p)" for p
  proof -
    have lp: "lend p < 2 ^ 32" "0 < unat (lsize p)"
      using p assms(1,2) by (auto simp: tidy_def solid_def word_less_nat_alt)
    then have "unat (fst r) < lend p \<and> unat (lbase p) < unat (fst r) + unat (snd r)" "0 < unat (snd r)"
      using overlap_iff [of "block (fst r) (snd r)" p] assms(3) o by (auto simp: proper_def word_less_nat_alt)
    then have "max (unat (fst r)) (unat (lbase p)) \<in> range_of r \<inter> span p"
      using lp by (auto simp: range_of_def span_def lend_def)
    with p assms(4) show False by (auto simp: covers_def)
  qed
  then show ?thesis by (auto simp: clear_of_def)
qed

lemma insert_sorted_length: "length (insert_sorted base sz ps) = Suc (length ps)"
  unfolding insert_sorted_def by (metis add_Suc_right length_Cons length_append takeWhile_dropWhile_id)

lemma add_list_length:
  assumes "add_list base sz ps = (r, qs)"
  shows "length qs \<le> Suc (length ps)"
  using assms
  by (cases rule: add_list_cases)
     (auto simp: insert_sorted_length join_list_def split: list.splits if_splits)

lemma add_region_law:
  assumes "sound rgn" "proper r" "range_of r \<inter> covers rgn = {}" "unat (cnt rgn) < MAX_LMB_REGIONS"
  shows "\<exists>res g. lmb_add_region rgn (fst r) (snd r) = Done (res, g) \<and> 0 \<le> res \<and> sound g \<and>
     covers g = covers rgn \<union> range_of r \<and> unat (cnt g) \<le> Suc (unat (cnt rgn))"
proof -
  note s = sound_blocks [OF assms(1)]
  have ns: "unat (fst r) + unat (snd r) < 2 ^ 32" "0 < snd r" using assms(2) by (auto simp: proper_def)
  obtain res g where g: "lmb_add_region rgn (fst r) (snd r) = Done (res, g)" "shaped g"
    "add_list (fst r) (snd r) (blocks rgn) = (res, blocks g)"
    using add_region_refines [OF s(1) tidy_sorted [OF s(2)]] by blast
  have res: "0 \<le> res" using add_list_refused [OF g(3)] length_blocks [OF s(1)] assms(4) by fastforce
  have "tidy (blocks g)"
  proof (cases "solid (blocks rgn)")
    case True
    then show ?thesis
      using add_list_tidy [OF s(2) ns(1) disjoint_clear [OF True s(2) assms(2,3)] g(3) s(3)] by simp
  next
    case False
    with s(3) obtain q where "blocks rgn = [q]" "lsize q = 0" by (auto simp: solid_def length_Suc_conv word_gt_0)
    with g(3) have "blocks g = [block (fst r) (snd r)]" by (simp add: add_list_def)
    with ns show ?thesis by (simp add: tidy_Cons)
  qed
  then have "sound g" using g(2) add_list_solid [OF s(2) ns g(3) s(3)] by (intro soundI)
  moreover have "covers g = covers rgn \<union> range_of r"
    using add_list_listed [OF s(2) ns(1) g(3) res] by (simp add: covers_listed range_of_def)
  moreover have "unat (cnt g) \<le> Suc (unat (cnt rgn))"
    using add_list_length [OF g(3)] length_blocks [OF g(2)] length_blocks [OF s(1)] by simp
  ultimately show ?thesis using g res by blast
qed

interpretation reserved_table: range_table "\<lambda>l. sound (reserved l)" "\<lambda>l. covers (reserved l)"
  "\<lambda>l. unat (cnt (reserved l))" reserve_range
  by unfold_locales (use add_region_law in \<open>fastforce simp: reserve_range_def lmb_reserve_def\<close>)

interpretation memory_table: range_table "\<lambda>l. sound (memory l)" "\<lambda>l. covers (memory l)"
  "\<lambda>l. unat (cnt (memory l))" add_range
  by unfold_locales (use add_region_law in \<open>fastforce simp: add_range_def lmb_add_def\<close>)

section \<open>Properties\<close>

definition table_of :: "u32 \<Rightarrow> lmb_property list \<Rightarrow> lmb_region" where
  "table_of n ps = \<lparr>cnt = n, rgn_size = 0, region = ps @ replicate (17 - length ps) (block 0 0)\<rparr>"

text \<open>One gigabyte of memory, with the kernel and the device tree reserved.\<close>

definition board :: lmb where
  "board = \<lparr>memory = table_of 1 [block 0x60000000 0x40000000],
     reserved = table_of 2 [block 0x60408000 0x800000, block 0x61f00000 0x10000]\<rparr>"

lemmas board_simps = board_def table_of_def blocks_def shaped_def tidy_def solid_def sound_def lend_def
  MAX_LMB_REGIONS_def

lemma board_sound: "sound (reserved board)" "sound (memory board)"
  by (simp_all add: board_simps take_Cons')

text \<open>\<open>lmb_reserve\<close> on an orderly table always returns; unless the table is full it then covers exactly
  what it covered and the new range, a refusal changes nothing, and the table stays orderly when
  the range overlapped no entry.  The memory table is not touched.\<close>

theorem lmb_reserve_covers:
  assumes "sound (reserved l)" "unat base + unat sz < 2 ^ 32"
  shows "\<exists>r l1. lmb_reserve l base sz = Done (r, l1) \<and> memory l1 = memory l \<and>
     (if r < 0 then unat (cnt (reserved l)) = MAX_LMB_REGIONS \<and> covers (reserved l1) = covers (reserved l)
      else covers (reserved l1) = covers (reserved l) \<union> {unat base..<unat base + unat sz}) \<and>
     (0 < sz \<and> clear_of base sz (blocks (reserved l)) \<longrightarrow> sound (reserved l1))"
proof -
  obtain r g where g: "lmb_add_region (reserved l) base sz = Done (r, g)"
     "if r < 0 then unat (cnt (reserved l)) = MAX_LMB_REGIONS \<and> covers g = covers (reserved l)
      else covers g = covers (reserved l) \<union> {unat base..<unat base + unat sz}"
     "0 < sz \<and> clear_of base sz (blocks (reserved l)) \<longrightarrow> sound g"
    using add_region_covers [OF assms] by blast
  then show ?thesis by (intro exI [of _ r] exI [of _ "l\<lparr>reserved := g\<rparr>"]) (simp add: lmb_reserve_def)
qed

theorem lmb_reserve_covers_witness:
  "\<exists>r l1. lmb_reserve board 0x62000000 0x100000 = Done (r, l1) \<and> memory l1 = memory board \<and>
     (if r < 0 then unat (cnt (reserved board)) = MAX_LMB_REGIONS \<and> covers (reserved l1) = covers (reserved board)
      else covers (reserved l1) = covers (reserved board) \<union> {unat (0x62000000::u32)..<unat (0x62000000::u32) + unat (0x100000::u32)}) \<and>
     (0 < (0x100000::u32) \<and> clear_of 0x62000000 0x100000 (blocks (reserved board)) \<longrightarrow> sound (reserved l1))"
  by (rule lmb_reserve_covers) (use board_sound in simp_all)

text \<open>C27: \<open>lmb_free\<close> on an orderly table always returns; when it reports success exactly the range is no longer
  covered, whether it was all, the front, the end or the middle of an entry.  When it fails and the
  table was not full, no entry contained the range and nothing changed.\<close>

theorem lmb_free_uncovers:
  assumes "sound (reserved l)" "unat base + unat sz < 2 ^ 32" "0 < sz"
  shows "\<exists>r l1. lmb_free l base sz = Done (r, l1) \<and> memory l1 = memory l \<and>
     (0 \<le> r \<longrightarrow> covers (reserved l1) = covers (reserved l) - {unat base..<unat base + unat sz}) \<and>
     (r < 0 \<longrightarrow> unat (cnt (reserved l)) = MAX_LMB_REGIONS \<or>
        l1 = l \<and> (\<forall>p\<in>set (blocks (reserved l)). \<not> {unat base..<unat base + unat sz} \<subseteq> span p))"
proof -
  obtain r g where g: "lmb_free_region (reserved l) base sz = Done (r, g)"
     "0 \<le> r \<longrightarrow> covers g = covers (reserved l) - {unat base..<unat base + unat sz}"
     "r < 0 \<longrightarrow> unat (cnt (reserved l)) = MAX_LMB_REGIONS \<or>
        g = reserved l \<and> (\<forall>p\<in>set (blocks (reserved l)). \<not> {unat base..<unat base + unat sz} \<subseteq> span p)"
    using free_region_uncovers [OF assms] by blast
  then show ?thesis by (intro exI [of _ r] exI [of _ "l\<lparr>reserved := g\<rparr>"]) (auto simp: lmb_free_def)
qed

theorem lmb_free_uncovers_witness:
  "\<exists>r l1. lmb_free board 0x60500000 0x1000 = Done (r, l1) \<and> memory l1 = memory board \<and>
     (0 \<le> r \<longrightarrow> covers (reserved l1) = covers (reserved board) - {unat (0x60500000::u32)..<unat (0x60500000::u32) + unat (0x1000::u32)}) \<and>
     (r < 0 \<longrightarrow> unat (cnt (reserved board)) = MAX_LMB_REGIONS \<or>
        l1 = board \<and> (\<forall>p\<in>set (blocks (reserved board)). \<not> {unat (0x60500000::u32)..<unat (0x60500000::u32) + unat (0x1000::u32)} \<subseteq> span p))"
  by (rule lmb_free_uncovers) (use board_sound in simp_all)



text \<open>From a fresh map up to fifteen non-empty ranges that do not overlap each other can be reserved one after
  the other, in any order of addresses; none is refused, and in the end exactly their union is reserved.\<close>

theorem lmb_reserve_disjoint_ranges:
  assumes "length (region (reserved l)) = 17" "\<forall>r\<in>set rs. proper r"
    and "sorted_wrt (\<lambda>r q. range_of r \<inter> range_of q = {}) rs" "length rs \<le> 15"
  shows "\<exists>l1. add_all reserve_range (lmb_init l) rs = Some l1 \<and> sound (reserved l1) \<and>
     covers (reserved l1) = (\<Union>r\<in>set rs. range_of r)"
proof -
  have b: "blocks (reserved (lmb_init l)) = [block 0 0]"
    using assms(1) by (cases "region (reserved l)") (auto simp: lmb_init_def lmb_init_region_def set_entry_def blocks_def)
  have "sound (reserved (lmb_init l))"
    using assms(1) by (simp add: sound_def b shaped_def tidy_Cons MAX_LMB_REGIONS_def)
      (simp add: lmb_init_def lmb_init_region_def set_entry_def)
  moreover have "covers (reserved (lmb_init l)) = {}" by (simp add: covers_listed b span_def)
  moreover have "unat (cnt (reserved (lmb_init l))) = 1" by (simp add: lmb_init_def lmb_init_region_def)
  ultimately show ?thesis
    using reserved_table.add_all_disjoint [of "lmb_init l" rs] assms(2-4) by (simp add: MAX_LMB_REGIONS_def)
qed

theorem lmb_reserve_disjoint_ranges_witness:
  "\<exists>l1. add_all reserve_range (lmb_init board) [(0x61f00000, 0x10000), (0x60408000, 0x800000)] = Some l1 \<and>
     sound (reserved l1) \<and> covers (reserved l1) = (\<Union>r\<in>set [(0x61f00000, 0x10000), (0x60408000, 0x800000)]. range_of r)"
  by (rule lmb_reserve_disjoint_ranges) (auto simp: proper_def range_of_def board_def table_of_def)

text \<open>\<open>lmb_is_reserved\<close> answers 1 exactly for the addresses some entry covers, in every table whose entries
  stay below the end of the address space and none of which is the empty entry at address 0.\<close>

theorem lmb_is_reserved_iff:
  assumes "shaped (reserved l)" "\<forall>p\<in>set (blocks (reserved l)). lend p < 2 ^ 32 \<and> (lbase p \<noteq> 0 \<or> lsize p \<noteq> 0)"
  shows "lmb_is_reserved l addr = Done (if unat addr \<in> covers (reserved l) then 1 else 0)"
proof -
  let ?P = "\<lambda>p. lbase p \<le> addr \<and> addr \<le> lbase p + lsize p - 1"
  have P: "?P p \<longleftrightarrow> unat addr \<in> span p" if "p \<in> set (blocks (reserved l))" for p
  proof -
    have p: "lend p < 2 ^ 32" "lbase p \<noteq> 0 \<or> lsize p \<noteq> 0" using assms(2) that by auto
    then have "lbase p + lsize p \<noteq> 0" using unat_lend [OF p(1)] by (auto simp: lend_def unat_eq_zero)
    then have "0 < lend p" using unat_lend [OF p(1)] by (metis unat_eq_zero gr0I)
    then have "unat (lbase p + lsize p - 1) = lend p - 1" using unat_lend [OF p(1)] by (simp add: unat_minus_one)
    with \<open>0 < lend p\<close> show ?thesis by (auto simp: word_le_nat_alt span_def)
  qed
  show ?thesis
  proof (cases "\<exists>p\<in>set (blocks (reserved l)). ?P p")
    case True
    then obtain A p B where "blocks (reserved l) = A @ p # B" "?P p" "\<forall>a\<in>set A. \<not> ?P a"
      using split_list_first_prop [of "blocks (reserved l)" ?P] by auto
    with first_from_split [OF assms(1), of A p B ?P] length_blocks [OF assms(1)] P show ?thesis
      by (auto simp: lmb_is_reserved_def covers_def)
  next
    case False
    then have "first_from ?P (reserved l) 0 = Done (unat (cnt (reserved l)))"
      using assms(1) by (intro first_from_none) auto
    with False P show ?thesis by (auto simp: lmb_is_reserved_def covers_def)
  qed
qed

theorem lmb_is_reserved_iff_witness:
  "lmb_is_reserved board 0x60408000 = Done (if unat (0x60408000::u32) \<in> covers (reserved board) then 1 else 0)"
  by (rule lmb_is_reserved_iff) (simp_all add: board_simps take_Cons')

section \<open>Corner cases of the code\<close>

text \<open>A fresh map reports every address as reserved: the upper end of its empty entry wraps.\<close>

lemma fresh_map_all_reserved:
  assumes "length (region (reserved l)) = 17"
  shows "lmb_is_reserved (lmb_init l) addr = Done 1"
proof -
  have "region (reserved l) \<noteq> []" using assms by auto
  then have "first_from (\<lambda>p. lbase p \<le> addr \<and> addr \<le> lbase p + lsize p - 1) (reserved (lmb_init l)) 0 = Done 0"
    by (subst first_from_hit) (auto simp: lmb_init_def lmb_init_region_def set_entry_def word_order.extremum)
  then show ?thesis by (simp add: lmb_is_reserved_def lmb_init_def lmb_init_region_def)
qed

lemmas table_eval = table_of_def blocks_def first_from.simps move_down.simps entry_def set_entry_def
  lmb_free_region_def lmb_add_region_def lmb_remove_region_def lmb_coalesce_regions_def lmb_regions_adjacent_def
  lmb_addrs_adjacent_def join_next_def insert_block_def hits_def same_block_def touches_def absorb_def
  MAX_LMB_REGIONS_def take_Cons' nth_Cons' Let_def

text \<open>A limit below the size makes the first candidate wrap past the top of memory.\<close>

lemma alloc_limit_below_size:
  "map_outcome (\<lambda>(a, err, _). (a, err)) (lmb_alloc_base \<lparr>memory = table_of 1 [block 0 0x10000], reserved = table_of 1 [block 0 0]\<rparr> 0x2000 0x1000 0x1000)
     = Done (0xfffff000, False)"
  by (simp add: table_eval lmb_alloc_base_def lmb_alloc_base_quiet_def take_area.simps lmb_overlaps_region_def
      lmb_addrs_overlap_def lmb_align_down_def lmb_align_up_def LMB_ALLOC_ANYWHERE_def)

text \<open>After the last entry has been freed the next reservation is lost and the freed one comes back.\<close>

lemma reserve_after_last_free:
  "(case lmb_free_region (table_of 1 [block 0x1000 0x1000]) 0x1000 0x1000 of
      Done (_, g) \<Rightarrow> (case lmb_add_region g 0x3000 0x1000 of Done (r, h) \<Rightarrow> Some (r, blocks h) | _ \<Rightarrow> None)
    | _ \<Rightarrow> None) = Some (0, [block 0x1000 0x1000])"
  by (simp add: table_eval)

text \<open>A hole in an entry of a full table drops the part behind the hole.\<close>

lemma free_in_full_table:
  "(case lmb_free_region (table_of 16 (map (\<lambda>i. block (i * 0x1000) 0x800) [1,2,3,4,5,6,7,8,9,10,11,12,13,14,15,16])) 0x1200 0x100 of
      Done (r, g) \<Rightarrow> (r, hd (blocks g), length (blocks g)) | _ \<Rightarrow> (0, block 0 0, 0)) = (- 1, block 0x1000 0x200, 16)"
  by (simp add: table_eval)

text \<open>Entries out of order, which overlapping reservations leave behind, are joined the wrong way round.\<close>

lemma backward_join:
  "(case lmb_add_region (table_of 2 [block 50 10, block 40 10]) 60 10 of
      Done (r, g) \<Rightarrow> (r, blocks g) | _ \<Rightarrow> (0, [])) = (2, [block 50 30])"
  by (simp add: table_eval)

end
