(* ===== verification/RkUnpack.thy ===== *)
theory RkUnpack
  imports RkCrc
begin

text \<open>
  The unpacker of Rockchip firmware images, \<open>tools/rkflashtool-src/rkunpack.c\<close>: the three image formats
  RKAF, RKFW and RKFP.  The image is a mapped file, padded with zeros to the end of its last page; a read
  behind that is a \<open>Fault\<close>, as is a write to the fixed directory buffer beyond its end.  What the tool prints and
  what it leaves in the file system is the state; the results of \<open>mkdir\<close>, \<open>open\<close> and \<open>write\<close> are inputs.
\<close>

section \<open>State and environment\<close>

datatype unpack_report =
    Rkaf_detected | Size_invalid u32 | Size_matches u32 | Manufacturer bytes | Model bytes
  | Number_of_files int | Skipping_self | File_entry u32 u32 bytes u32
  | Rkfw_detected | Version nat nat nat | Date nat nat nat nat nat nat | Brand_new_chip u8 | Family string
  | Rkfp_detected | Sector_size u32 | Entry_offsets u32 u32 | Entry_size u32 | Entry_count u32
  | Fw_size u32 | Entry_crc u32 | Header_crc u32 | Fp_entry u32 u32 bytes u32 u32 u32 | Unpacked

datatype mkdir_result = Made | Exists | Mkdir_failed

record unpack_env =
  mkdir_env :: "bytes \<Rightarrow> mkdir_result"
  write_env :: "nat \<Rightarrow> nat option"

text \<open>
  \<open>write_env k\<close> tells how many bytes the \<open>k\<close>-th file may take, or that its \<open>open\<close>, \<open>write\<close> or \<open>close\<close> fails.
\<close>

record unpack_state =
  ulog :: "unpack_report list"
  udirs :: "bytes list"
  ufiles :: "(bytes \<times> bytes) list"

definition report :: "unpack_report \<Rightarrow> unpack_state \<Rightarrow> unpack_state" where
  "report r s = s\<lparr>ulog := ulog s @ [r]\<rparr>"

lemma ufiles_report [simp]: "ufiles (report r s) = ufiles s"
  by (simp add: report_def)

definition PATH_MAX :: nat where "PATH_MAX = 4096"
definition PAGE_SIZE :: nat where "PAGE_SIZE = 4096"

definition mapped :: "bytes \<Rightarrow> bytes" where
  "mapped img = img @ replicate ((PAGE_SIZE - length img mod PAGE_SIZE) mod PAGE_SIZE) 0"

section \<open>Reading the image\<close>

definition need :: "'a option \<Rightarrow> 'a outcome" where
  "need x = (case x of Some a \<Rightarrow> Done a | None \<Rightarrow> Fault)"

lemma need_simps [simp]: "need (Some a) = Done a" "need None = Fault"
  by (simp_all add: need_def)

definition le32_at :: "bytes \<Rightarrow> nat \<Rightarrow> u32 outcome" where
  "le32_at bs off = need (rd32le off bs)"

text \<open>A C string in the image, up to its NUL.\<close>

definition cstr_at :: "bytes \<Rightarrow> nat \<Rightarrow> bytes outcome" where
  "cstr_at bs off =
     (let s = takeWhile (\<lambda>b. b \<noteq> 0) (drop off bs)
      in if off + length s < length bs then Done s else Fault)"

definition memcmp_eq :: "bytes \<Rightarrow> nat \<Rightarrow> string \<Rightarrow> bool outcome" where
  "memcmp_eq bs off s = bind_outcome (need (slice off (length s) bs)) (\<lambda>x. Done (x = ascii s))"

section \<open>Writing files\<close>

definition write_file :: "unpack_env \<Rightarrow> bytes \<Rightarrow> bytes \<Rightarrow> nat \<Rightarrow> nat \<Rightarrow> unpack_state \<Rightarrow> unpack_state outcome" where
  "write_file env path bs off len s =
     (case write_env env (length (ufiles s)) of
        None \<Rightarrow> Fatal ''write_file''
      | Some n \<Rightarrow> bind_outcome (need (slice off len bs)) (\<lambda>d.
          Done (s\<lparr>ufiles := ufiles s @ [(path, take n d)]\<rparr>)))"

text \<open>The loop over the slashes of a path: \<open>pre\<close> is what lies before \<open>sep\<close>.\<close>

fun make_dirs :: "unpack_env \<Rightarrow> bytes \<Rightarrow> bytes \<Rightarrow> unpack_state \<Rightarrow> unpack_state outcome" where
  "make_dirs env pre [] s = Done s"
| "make_dirs env pre (c # cs) s =
     (if c = of_char CHR ''/'' then
        if PATH_MAX \<le> length pre then Fault
        else (case mkdir_env env pre of
            Mkdir_failed \<Rightarrow> Fatal ''mkdir''
          | Exists \<Rightarrow> make_dirs env (pre @ [c]) cs s
          | Made \<Rightarrow> make_dirs env (pre @ [c]) cs (s\<lparr>udirs := udirs s @ [pre]\<rparr>))
      else make_dirs env (pre @ [c]) cs s)"

section \<open>RKAF\<close>

definition rkaf_entry :: "unpack_env \<Rightarrow> bytes \<Rightarrow> nat \<Rightarrow> unpack_state \<Rightarrow> unpack_state outcome" where
  "rkaf_entry env bs p s =
     bind_outcome (le32_at bs (p + 0x60)) (\<lambda>ioff.
     bind_outcome (le32_at bs (p + 0x64)) (\<lambda>noff.
     bind_outcome (le32_at bs (p + 0x68)) (\<lambda>isize.
     bind_outcome (le32_at bs (p + 0x6c)) (\<lambda>fsize.
     bind_outcome (memcmp_eq bs (p + 0x20) ''SELF'') (\<lambda>self.
       if self then Done (report Skipping_self s)
       else
         bind_outcome (cstr_at bs (p + 0x20)) (\<lambda>path.
         let s1 = report (File_entry ioff (ioff + isize - 1) path fsize) s
         in bind_outcome (memcmp_eq bs p ''parameter'') (\<lambda>is_param.
         let ioff1 = (if is_param then ioff + 8 else ioff);
             fsize1 = (if is_param then fsize - 12 else fsize)
         in bind_outcome (make_dirs env [] path s1) (\<lambda>s2.
              write_file env path bs (unat ioff1) (unat fsize1) s2))))))))"

fun rkaf_entries :: "unpack_env \<Rightarrow> bytes \<Rightarrow> nat \<Rightarrow> nat \<Rightarrow> unpack_state \<Rightarrow> unpack_state outcome" where
  "rkaf_entries env bs 0 p s = Done s"
| "rkaf_entries env bs (Suc count) p s =
     bind_outcome (rkaf_entry env bs p s) (\<lambda>s1. rkaf_entries env bs count (p + 0x70) s1)"

definition unpack_rkaf :: "unpack_env \<Rightarrow> nat \<Rightarrow> bytes \<Rightarrow> unpack_state \<Rightarrow> unpack_state outcome" where
  "unpack_rkaf env sz bs s =
     (let s1 = report Rkaf_detected s
      in bind_outcome (le32_at bs 4) (\<lambda>len.
         let fsize = len + 4;
             s2 = report (if fsize \<noteq> of_nat sz then Size_invalid fsize else Size_matches fsize) s1
         in bind_outcome (cstr_at bs 0x48) (\<lambda>manufacturer.
            bind_outcome (cstr_at bs 0x08) (\<lambda>model.
            bind_outcome (le32_at bs 0x88) (\<lambda>count.
              rkaf_entries env bs (nat (sint count)) 0x8c
                (report (Number_of_files (sint count)) (report (Model model) (report (Manufacturer manufacturer) s2))))))))"

section \<open>RKFW\<close>

definition chip_name :: "nat \<Rightarrow> string option" where
  "chip_name c =
     (if c = 0x50 then Some ''rk29xx'' else if c = 0x60 then Some ''rk30xx''
      else if c = 0x70 then Some ''rk31xx'' else if c = 0x80 then Some ''rk32xx''
      else if c = 0x41 then Some ''rk3368'' else if c = 0x36 then Some ''rv1106''
      else if c = 0x38 then Some ''rk35xx'' else None)"

text \<open>The fields up to the chip; they are read from the first 22 bytes.\<close>

definition rkfw_intro :: "bytes \<Rightarrow> unpack_state \<Rightarrow> unpack_state outcome" where
  "rkfw_intro bs s =
     bind_outcome (need (slice 0 0x16 bs)) (\<lambda>h.
       let b = (\<lambda>i. unat (h ! i));
           s1 = report (Date (b 0x0f * 256 + b 0x0e) (b 0x10) (b 0x11) (b 0x12) (b 0x13) (b 0x14))
             (report (Version (b 9) (b 8) (b 7 * 256 + b 6)) (report Rkfw_detected s))
       in Done (case chip_name (b 0x15) of
            Some c \<Rightarrow> report (Family c) s1
          | None \<Rightarrow> report (Family ''unknown'') (report (Brand_new_chip (h ! 0x15)) s1)))"

definition rkfw_first_part :: "bytes \<Rightarrow> nat \<Rightarrow> string outcome" where
  "rkfw_first_part bs ioff =
     bind_outcome (memcmp_eq bs ioff ''BOOT'') (\<lambda>is_boot.
       if is_boot then Done ''BOOT''
       else bind_outcome (memcmp_eq bs ioff ''LDR '') (\<lambda>is_ldr.
         if is_ldr then Done ''LDR'' else Fatal ''cannot find BOOT signature''))"

definition unpack_rkfw :: "unpack_env \<Rightarrow> bytes \<Rightarrow> unpack_state \<Rightarrow> unpack_state outcome" where
  "unpack_rkfw env bs s =
     bind_outcome (rkfw_intro bs s) (\<lambda>s1.
     bind_outcome (le32_at bs 0x19) (\<lambda>ioff.
     bind_outcome (le32_at bs 0x1d) (\<lambda>isize.
     bind_outcome (rkfw_first_part bs (unat ioff)) (\<lambda>first_part.
     bind_outcome (write_file env (ascii first_part) bs (unat ioff) (unat isize)
       (report (File_entry ioff (ioff + isize - 1) (ascii first_part) isize) s1)) (\<lambda>s2.
     bind_outcome (le32_at bs 0x21) (\<lambda>ioff2.
     bind_outcome (le32_at bs 0x25) (\<lambda>isize2.
     bind_outcome (memcmp_eq bs (unat ioff2) ''RKAF'') (\<lambda>is_rkaf.
       if \<not> is_rkaf then Fatal ''cannot find embedded RKAF update.img''
       else write_file env (ascii ''embedded-update.img'') bs (unat ioff2) (unat isize2)
         (report (File_entry ioff2 (ioff2 + isize2 - 1) (ascii ''embedded-update.img'') isize2) s2)))))))))"

section \<open>RKFP\<close>

text \<open>All offsets are computed in 32 bits.\<close>

definition rkfp_entry :: "unpack_env \<Rightarrow> bytes \<Rightarrow> u32 \<Rightarrow> u32 \<Rightarrow> unpack_state \<Rightarrow> unpack_state outcome" where
  "rkfp_entry env bs pss pos s =
     (let p = unat pos
      in bind_outcome (le32_at bs (p + 36)) (\<lambda>ioff.
         bind_outcome (le32_at bs (p + 40)) (\<lambda>isize.
         bind_outcome (le32_at bs (p + 44)) (\<lambda>fsize.
         bind_outcome (cstr_at bs p) (\<lambda>path.
         bind_outcome (le32_at bs (p + 32)) (\<lambda>typ.
         bind_outcome (le32_at bs (p + 48)) (\<lambda>prop.
           write_file env path bs (unat (ioff * pss)) (unat fsize)
             (report (Fp_entry (ioff * pss) ((ioff + isize) * pss) path typ prop fsize) s))))))))"

fun rkfp_entries :: "unpack_env \<Rightarrow> bytes \<Rightarrow> u32 \<Rightarrow> u32 \<Rightarrow> u32 \<Rightarrow> nat \<Rightarrow> nat \<Rightarrow> unpack_state \<Rightarrow> unpack_state outcome" where
  "rkfp_entries env bs pss peo pes 0 i s = Done s"
| "rkfp_entries env bs pss peo pes (Suc n) i s =
     bind_outcome (rkfp_entry env bs pss (pss * peo + of_nat i * pes) s) (\<lambda>s1.
       rkfp_entries env bs pss peo pes n (i + 1) s1)"

definition unpack_rkfp :: "unpack_env \<Rightarrow> bytes \<Rightarrow> unpack_state \<Rightarrow> unpack_state outcome" where
  "unpack_rkfp env bs s =
     bind_outcome (need (slice 0 16 bs)) (\<lambda>h.
     let b = (\<lambda>i. unat (h ! i));
         s1 = report (Date (b 5 * 256 + b 4) (b 6) (b 7) (b 8) (b 9) (b 10))
           (report (Version (b 15) (b 14) (b 13 * 256 + b 12)) (report Rkfp_detected s))
     in bind_outcome (le32_at bs 0x10) (\<lambda>pss.
        bind_outcome (le32_at bs 0x14) (\<lambda>peo.
        bind_outcome (le32_at bs 0x18) (\<lambda>pbeo.
        bind_outcome (le32_at bs 0x1c) (\<lambda>pes.
        bind_outcome (le32_at bs 0x20) (\<lambda>pec.
        bind_outcome (le32_at bs 0x24) (\<lambda>fw.
        bind_outcome (le32_at bs 504) (\<lambda>ecrc.
        bind_outcome (le32_at bs 508) (\<lambda>hcrc.
          rkfp_entries env bs pss peo pes (nat (sint pec)) 0
            (fold report [Sector_size pss, Entry_offsets peo pbeo, Entry_size pes, Entry_count pec,
              Fw_size fw, Entry_crc ecrc, Header_crc hcrc] s1))))))))))"

section \<open>The tool\<close>

definition rkunpack_main :: "unpack_env \<Rightarrow> nat \<Rightarrow> bytes option \<Rightarrow> unpack_state outcome" where
  "rkunpack_main env argc file =
     (let s = \<lparr>ulog = [], udirs = [], ufiles = []\<rparr>
      in if argc \<noteq> 2 then Fatal ''usage''
         else (case file of None \<Rightarrow> Fatal ''open'' | Some img \<Rightarrow>
           if img = [] then Fatal ''mmap''
           else
             (let bs = mapped img
              in bind_outcome
                (bind_outcome (memcmp_eq bs 0 ''RKAF'') (\<lambda>af.
                 if af then unpack_rkaf env (length img) bs s
                 else bind_outcome (memcmp_eq bs 0 ''RKFW'') (\<lambda>fw.
                 if fw then unpack_rkfw env bs s
                 else bind_outcome (memcmp_eq bs 0 ''RKFP'') (\<lambda>fp.
                 if fp then unpack_rkfp env bs s else Fatal ''invalid signature''))))
                (\<lambda>s1. Done (report Unpacked s1)))))"

section \<open>A reference for the RKAF table\<close>

text \<open>An entry of the table as the packer lays it out: name, path, and four little-endian words.\<close>

record rkaf_item =
  iname :: bytes
  ipath :: bytes
  ioffset :: u32
  inoff :: u32
  iisize :: u32
  ifsize :: u32

definition pad :: "nat \<Rightarrow> bytes \<Rightarrow> bytes" where
  "pad n xs = xs @ replicate (n - length xs) 0"

definition item_bytes :: "rkaf_item \<Rightarrow> bytes" where
  "item_bytes e = pad 0x20 (iname e) @ pad 0x40 (ipath e) @ put32le (ioffset e) @ put32le (inoff e) @
     put32le (iisize e) @ put32le (ifsize e)"

definition item_ok :: "rkaf_item \<Rightarrow> bool" where
  "item_ok e \<longleftrightarrow> length (iname e) < 0x20 \<and> length (ipath e) < 0x40 \<and> 0 \<notin> set (ipath e)"

definition is_self :: "rkaf_item \<Rightarrow> bool" where
  "is_self e \<longleftrightarrow> take (length ''SELF'') (pad 0x40 (ipath e)) = ascii ''SELF''"

definition is_param :: "rkaf_item \<Rightarrow> bool" where
  "is_param e \<longleftrightarrow> take (length ''parameter'') (pad 0x20 (iname e)) = ascii ''parameter''"

definition payload :: "bytes \<Rightarrow> rkaf_item \<Rightarrow> bytes" where
  "payload img e =
     (if is_param e then take (unat (ifsize e) - 12) (drop (unat (ioffset e) + 8) img)
      else take (unat (ifsize e)) (drop (unat (ioffset e)) img))"

definition in_image :: "bytes \<Rightarrow> rkaf_item \<Rightarrow> bool" where
  "in_image img e \<longleftrightarrow> unat (ioffset e) + unat (ifsize e) \<le> length img \<and>
     unat (ioffset e) + unat (ifsize e) < 2 ^ 32 \<and> (is_param e \<longrightarrow> 12 \<le> unat (ifsize e))"

definition friendly :: "unpack_env \<Rightarrow> bool" where
  "friendly env \<longleftrightarrow> (\<forall>d. mkdir_env env d \<noteq> Mkdir_failed) \<and> (\<forall>k. \<exists>n. write_env env k = Some n \<and> 2 ^ 32 \<le> n)"

lemma length_pad [simp]: "length xs \<le> n \<Longrightarrow> length (pad n xs) = n"
  by (simp add: pad_def)

lemma length_item_bytes: "item_ok e \<Longrightarrow> length (item_bytes e) = 0x70"
  by (simp add: item_bytes_def item_ok_def)

lemma le32_at_put: "length xs = off \<Longrightarrow> le32_at (xs @ put32le v @ ys) off = Done v"
  by (simp add: le32_at_def rd32le_def)

lemma memcmp_eq_at:
  assumes "length xs = off" "length s \<le> length ys"
  shows "memcmp_eq (xs @ ys) off s = Done (take (length s) ys = ascii s)"
  using assms by (simp add: memcmp_eq_def slice_def)

lemma cstr_at_pad:
  assumes "length xs = off" "0 \<notin> set path" "length path < n"
  shows "cstr_at (xs @ pad n path @ ys) off = Done path"
proof -
  have "replicate (n - length path) (0::u8) = 0 # replicate (n - length path - 1) 0"
    using assms(3) by (cases "n - length path") auto
  then have "takeWhile (\<lambda>b. b \<noteq> 0) (pad n path @ ys) = path"
    using assms(2) by (simp add: pad_def) (subst takeWhile_append2, auto)
  with assms show ?thesis by (simp add: cstr_at_def)
qed

lemma make_dirs_friendly:
  assumes "\<forall>d. mkdir_env env d \<noteq> Mkdir_failed" "length pre + length path \<le> PATH_MAX"
  shows "\<exists>ds. make_dirs env pre path s = Done (s\<lparr>udirs := udirs s @ ds\<rparr>)"
  using assms(2)
proof (induction path arbitrary: pre s)
  case Nil
  show ?case by (intro exI [of _ "[]"]) simp
next
  case (Cons c cs)
  have tl: "\<exists>ds. make_dirs env (pre @ [c]) cs t = Done (t\<lparr>udirs := udirs t @ ds\<rparr>)" for t
    using Cons by simp
  show ?case
  proof (cases "c = of_char CHR ''/''")
    case True
    have "\<exists>ds. make_dirs env (pre @ [c]) cs (s\<lparr>udirs := udirs s @ [pre]\<rparr>) = Done (s\<lparr>udirs := udirs s @ pre # ds\<rparr>)"
      using tl [of "s\<lparr>udirs := udirs s @ [pre]\<rparr>"] by simp
    with True tl [of s] assms(1) [rule_format, of pre] Cons.prems show ?thesis
      by (cases "mkdir_env env pre") auto
  next
    case False
    with tl [of s] show ?thesis by simp
  qed
qed

lemma write_file_friendly:
  assumes "\<forall>k. \<exists>n. write_env env k = Some n \<and> 2 ^ 32 \<le> n" "off + len \<le> length bs" "len < 2 ^ 32"
  shows "write_file env path bs off len s = Done (s\<lparr>ufiles := ufiles s @ [(path, take len (drop off bs))]\<rparr>)"
proof -
  obtain n where "write_env env (length (ufiles s)) = Some n" "2 ^ 32 \<le> n" using assms(1) by blast
  with assms(2,3) show ?thesis by (simp add: write_file_def slice_def)
qed

text \<open>One entry of the table.\<close>

lemma rkaf_entry_item:
  assumes "friendly env" "item_ok e" "length pre = p" "bs = pre @ item_bytes e @ post" "in_image bs e"
  shows "\<exists>s1. rkaf_entry env bs p s = Done s1 \<and>
     ufiles s1 = ufiles s @ (if is_self e then [] else [(ipath e, payload bs e)])"
proof -
  let ?N = "pad 0x20 (iname e)" and ?P = "pad 0x40 (ipath e)"
  have ok: "length ?N = 0x20" "length ?P = 0x40" "0 \<notin> set (ipath e)" "length (ipath e) < 0x40"
    using assms(2) by (auto simp: item_ok_def)
  have bs: "bs = pre @ ?N @ ?P @ put32le (ioffset e) @ put32le (inoff e) @ put32le (iisize e) @ put32le (ifsize e) @ post"
    by (simp add: assms(4) item_bytes_def)
  have w: "le32_at bs (p + 0x60) = Done (ioffset e)" "le32_at bs (p + 0x64) = Done (inoff e)"
    "le32_at bs (p + 0x68) = Done (iisize e)" "le32_at bs (p + 0x6c) = Done (ifsize e)"
    unfolding bs using assms(3) ok by (simp_all add: le32_at_def rd32le_def)
  have self: "memcmp_eq bs (p + 0x20) ''SELF'' = Done (is_self e)"
    using memcmp_eq_at [of "pre @ ?N" "p + 0x20" "''SELF''"] assms(3) ok unfolding bs by (simp add: is_self_def)
  have par: "memcmp_eq bs p ''parameter'' = Done (is_param e)"
    using memcmp_eq_at [of pre p "''parameter''"] assms(3) ok unfolding bs by (simp add: is_param_def)
  have str: "cstr_at bs (p + 0x20) = Done (ipath e)"
    using cstr_at_pad [of "pre @ ?N" "p + 0x20" "ipath e" "0x40"
      "put32le (ioffset e) @ put32le (inoff e) @ put32le (iisize e) @ put32le (ifsize e) @ post"] assms(3) ok
    unfolding bs by simp
  show ?thesis
  proof (cases "is_self e")
    case True
    then show ?thesis by (simp add: rkaf_entry_def w self report_def)
  next
    case False
    let ?s1 = "report (File_entry (ioffset e) (ioffset e + iisize e - 1) (ipath e) (ifsize e)) s"
    obtain ds where ds: "make_dirs env [] (ipath e) ?s1 = Done (?s1\<lparr>udirs := udirs ?s1 @ ds\<rparr>)"
      using make_dirs_friendly [of env "[]" "ipath e" ?s1] assms(1) ok by (auto simp: friendly_def PATH_MAX_def)
    have fr: "\<forall>k. \<exists>n. write_env env k = Some n \<and> 2 ^ 32 \<le> n" using assms(1) by (simp add: friendly_def)
    have lt: "unat (ifsize e) < 2 ^ 32" using unsigned_less [of "ifsize e"] by simp
    have off: "unat (if is_param e then ioffset e + 8 else ioffset e) = unat (ioffset e) + (if is_param e then 8 else 0)"
      "unat (if is_param e then ifsize e - 12 else ifsize e) = unat (ifsize e) - (if is_param e then 12 else 0)"
      using assms(5) by (auto simp: in_image_def unat_word_ariths unat_sub word_le_nat_alt)
    have "rkaf_entry env bs p s = write_file env (ipath e) bs (unat (ioffset e) + (if is_param e then 8 else 0))
        (unat (ifsize e) - (if is_param e then 12 else 0)) (?s1\<lparr>udirs := udirs ?s1 @ ds\<rparr>)"
      using False off ds by (simp add: rkaf_entry_def w self par str Let_def)
    also have "\<dots> = Done (?s1\<lparr>udirs := udirs ?s1 @ ds, ufiles := ufiles ?s1 @ [(ipath e, payload bs e)]\<rparr>)"
      using assms(5) lt by (subst write_file_friendly [OF fr]) (auto simp: in_image_def payload_def)
    finally show ?thesis using False by (simp add: report_def)
  qed
qed

lemma rkaf_entries_items:
  assumes "friendly env" "\<forall>e\<in>set es. item_ok e \<and> in_image bs e" "length pre = p"
    "bs = pre @ concat (map item_bytes es) @ post"
  shows "\<exists>s1. rkaf_entries env bs (length es) p s = Done s1 \<and>
     ufiles s1 = ufiles s @ map (\<lambda>e. (ipath e, payload bs e)) (filter (\<lambda>e. \<not> is_self e) es)"
  using assms(2-)
proof (induction es arbitrary: pre p s)
  case (Cons e es)
  obtain s1 where s1: "rkaf_entry env bs p s = Done s1"
    "ufiles s1 = ufiles s @ (if is_self e then [] else [(ipath e, payload bs e)])"
    using rkaf_entry_item [OF assms(1), of e pre p bs "concat (map item_bytes es) @ post" s] Cons.prems by auto
  obtain s2 where "rkaf_entries env bs (length es) (p + 0x70) s1 = Done s2"
    "ufiles s2 = ufiles s1 @ map (\<lambda>e. (ipath e, payload bs e)) (filter (\<lambda>e. \<not> is_self e) es)"
    using Cons.IH [of "pre @ item_bytes e" "p + 0x70" s1] Cons.prems by (auto simp: length_item_bytes)
  with s1 show ?case by auto
qed simp

lemma mapped_append: "\<exists>z. mapped img = img @ z"
  by (simp add: mapped_def)

lemma payload_append: "in_image img e \<Longrightarrow> payload (img @ z) e = payload img e"
  by (auto simp: in_image_def payload_def)

lemma in_image_append: "in_image img e \<Longrightarrow> in_image (img @ z) e"
  by (auto simp: in_image_def)

lemma length_takeWhile_lt: "\<exists>x\<in>set xs. \<not> P x \<Longrightarrow> length (takeWhile P xs) < length xs"
  by (induction xs) auto

lemma cstr_at_found:
  assumes "0 \<in> set (drop off hdr)"
  shows "\<exists>s. cstr_at (hdr @ ys) off = Done s"
proof -
  have "length (takeWhile (\<lambda>b. b \<noteq> 0) (drop off hdr)) < length (drop off hdr)"
    using assms by (intro length_takeWhile_lt) auto
  moreover have "off \<le> length hdr" using assms by (cases "off \<le> length hdr") auto
  moreover have "takeWhile (\<lambda>b. b \<noteq> 0) (drop off hdr @ ys) = takeWhile (\<lambda>b. b \<noteq> 0) (drop off hdr)"
    using assms by (subst takeWhile_append1) auto
  ultimately show ?thesis by (auto simp: cstr_at_def Let_def)
qed

lemma sint_of_nat_small:
  assumes "n < 2 ^ 31"
  shows "nat (sint (of_nat n :: u32)) = n"
  using assms by (simp add: signed_of_nat signed_take_bit_int_eq_self)

lemma le32_at_append: "rd32le off xs = Some v \<Longrightarrow> le32_at (xs @ ys) off = Done v"
proof -
  assume "rd32le off xs = Some v"
  then obtain b0 b1 b2 b3 r where "drop off xs = b0 # b1 # b2 # b3 # r" "get32le (b0 # b1 # b2 # b3 # r) = Some v"
    by (cases "drop off xs" rule: get32le.cases) (auto simp: rd32le_def)
  moreover from this have "off \<le> length xs" by (cases "off \<le> length xs") auto
  ultimately show ?thesis by (simp add: le32_at_def rd32le_def)
qed

lemma memcmp_eq_append:
  "off + length t \<le> length xs \<Longrightarrow> memcmp_eq (xs @ ys) off t = Done (take (length t) (drop off xs) = ascii t)"
  by (simp add: memcmp_eq_def slice_def)

lemma memcmp4:
  assumes "off + 4 \<le> length xs" "length t = 4"
  shows "memcmp_eq (xs @ ys) off t = Done (take 4 (drop off xs) = ascii t)"
  using memcmp_eq_append [of off t xs ys] assms by simp

lemma unpack_rkaf_items:
  assumes "friendly env" "length hdr = 0x8c" "0 \<in> set (drop 0x48 hdr)"
    "rd32le 4 hdr = Some len" "rd32le 0x88 hdr = Some (of_nat (length es))" "length es < 2 ^ 31"
    "\<forall>e\<in>set es. item_ok e \<and> in_image bs e" "bs = hdr @ concat (map item_bytes es) @ post"
  shows "\<exists>s1. unpack_rkaf env sz bs s = Done s1 \<and>
     ufiles s1 = ufiles s @ map (\<lambda>e. (ipath e, payload bs e)) (filter (\<lambda>e. \<not> is_self e) es)"
proof -
  obtain m where m: "cstr_at bs 0x48 = Done m"
    using cstr_at_found [OF assms(3)] assms(8) by blast
  have "0 \<in> set (drop 0x08 hdr)"
    using assms(3) set_drop_subset_set_drop [of 8 "0x48" hdr] by auto
  then obtain mo where mo: "cstr_at bs 0x08 = Done mo"
    using cstr_at_found assms(8) by blast
  have w: "le32_at bs 4 = Done len" "le32_at bs 0x88 = Done (of_nat (length es))"
    using le32_at_append assms(4,5,8) by blast+
  define t where "t = report (Number_of_files (sint (of_nat (length es) :: u32))) (report (Model mo) (report (Manufacturer m)
    (report (if len + 4 \<noteq> of_nat sz then Size_invalid (len + 4) else Size_matches (len + 4)) (report Rkaf_detected s))))"
  have "unpack_rkaf env sz bs s = rkaf_entries env bs (length es) 0x8c t"
    using sint_of_nat_small [OF assms(6)] by (simp only: unpack_rkaf_def w m mo Let_def bind_outcome_simps t_def)
  moreover have "ufiles t = ufiles s" by (simp add: t_def)
  ultimately show ?thesis using rkaf_entries_items [OF assms(1,7,2,8), of t] by simp
qed

lemma rkaf_header_facts:
  assumes "take 4 hdr = ascii ''RKAF''" "length hdr = 0x8c"
  shows "memcmp_eq (hdr @ ys) 0 ''RKAF'' = Done True" "\<exists>v. rd32le 4 hdr = Some v"
  using assms get32le_Some_iff [of "drop 4 hdr"] memcmp4 [of 0 hdr "''RKAF''" ys] by (simp_all add: rd32le_def)

lemma payload_container:
  assumes "is_param e" "length tag = 4" "length content + 12 < 2 ^ 32"
    "take (unat (ifsize e)) (drop (unat (ioffset e)) img) = rk_container tag content" "in_image img e"
  shows "payload img e = content"
proof -
  let ?d = "drop (unat (ioffset e)) img"
  have n: "unat (ifsize e) = 12 + length content"
    using arg_cong [OF assms(4), of length] assms(2,5) by (auto simp: rk_container_def in_image_def)
  have "take (unat (ifsize e) - 12) (drop 8 ?d) = take (length content) (drop 8 (take (unat (ifsize e)) ?d))"
    using n by (simp add: drop_take min_def)
  also have "\<dots> = content" using assms(2) by (simp add: assms(4) rk_container_def)
  finally show ?thesis using assms(1) by (simp add: payload_def add.commute)
qed

section \<open>Properties\<close>

text \<open>C28: unpacking an RKAF image whose table was laid out by the packer succeeds, and writes, in the order of
  the table, exactly the bytes each entry names, the SELF entry left out; of a parameter file that
  carries the container of \<open>rkcrc -p\<close> it writes the bare content.\<close>

theorem rkaf_unpacks_entries:
  assumes "friendly env" "take 4 hdr = ascii ''RKAF''" "length hdr = 0x8c" "0 \<in> set (drop 0x48 hdr)"
    and "rd32le 0x88 hdr = Some (of_nat (length es))" "length es < 2 ^ 31"
    and img: "img = hdr @ concat (map item_bytes es) @ post" and ok: "\<forall>e\<in>set es. item_ok e \<and> in_image img e"
  shows "(\<exists>s. rkunpack_main env 2 (Some img) = Done s \<and>
       ufiles s = map (\<lambda>e. (ipath e, payload img e)) (filter (\<lambda>e. \<not> is_self e) es)) \<and>
     (\<forall>e\<in>set es. is_param e \<and> length tag = 4 \<and> length content + 12 < 2 ^ 32 \<and>
       take (unat (ifsize e)) (drop (unat (ioffset e)) img) = rk_container tag content \<longrightarrow> payload img e = content)"
proof
  obtain z where z: "mapped img = img @ z" using mapped_append by blast
  then have bs: "mapped img = hdr @ concat (map item_bytes es) @ post @ z" by (simp add: img)
  note hf = rkaf_header_facts [OF assms(2,3)]
  obtain len where len: "rd32le 4 hdr = Some len" using hf(2) by blast
  have im: "\<forall>e\<in>set es. item_ok e \<and> in_image (mapped img) e"
    using ok in_image_append by (auto simp: z)
  have pl: "map (\<lambda>e. (ipath e, payload (mapped img) e)) (filter (\<lambda>e. \<not> is_self e) es)
      = map (\<lambda>e. (ipath e, payload img e)) (filter (\<lambda>e. \<not> is_self e) es)"
    using ok payload_append by (auto simp: z)
  obtain s1 where s1: "unpack_rkaf env (length img) (mapped img) \<lparr>ulog = [], udirs = [], ufiles = []\<rparr> = Done s1"
    "ufiles s1 = map (\<lambda>e. (ipath e, payload img e)) (filter (\<lambda>e. \<not> is_self e) es)"
    using unpack_rkaf_items [OF assms(1,3,4) len assms(5,6) im bs, of "length img" "\<lparr>ulog = [], udirs = [], ufiles = []\<rparr>"] pl
    by auto
  have "img \<noteq> []" using assms(3) img by auto
  moreover have "memcmp_eq (mapped img) 0 ''RKAF'' = Done True" using hf(1) by (simp add: bs)
  ultimately have "rkunpack_main env 2 (Some img) = Done (report Unpacked s1)"
    using s1(1) by (simp add: rkunpack_main_def Let_def)
  then show "\<exists>s. rkunpack_main env 2 (Some img) = Done s \<and>
       ufiles s = map (\<lambda>e. (ipath e, payload img e)) (filter (\<lambda>e. \<not> is_self e) es)"
    using s1(2) by simp
  show "\<forall>e\<in>set es. is_param e \<and> length tag = 4 \<and> length content + 12 < 2 ^ 32 \<and>
       take (unat (ifsize e)) (drop (unat (ioffset e)) img) = rk_container tag content \<longrightarrow> payload img e = content"
    using payload_container ok by (intro ballI impI) (elim conjE, simp)
qed

definition easy_env :: unpack_env where
  "easy_env = \<lparr>mkdir_env = (\<lambda>_. Made), write_env = (\<lambda>_. Some (2 ^ 32))\<rparr>"

lemma easy_friendly: "friendly easy_env"
  by (simp add: friendly_def easy_env_def)

definition sample_item :: rkaf_item where
  "sample_item = \<lparr>iname = ascii ''parameter'', ipath = ascii ''parameter'', ioffset = 252, inoff = 0,
     iisize = 15, ifsize = 15\<rparr>"

definition sample_hdr :: bytes where
  "sample_hdr = ascii ''RKAF'' @ put32le 263 @ replicate 0x80 0 @ put32le 1"

definition sample_rkaf :: bytes where
  "sample_rkaf = sample_hdr @ concat (map item_bytes [sample_item]) @ rk_container (ascii ''PARM'') [1, 2, 3]"

lemma sample_item_ok: "item_ok sample_item"
  by (simp add: item_ok_def sample_item_def ascii_def)

lemma sample_in_image: "in_image sample_rkaf sample_item"
proof -
  have "length sample_rkaf = 267"
    using length_item_bytes [OF sample_item_ok] by (simp add: sample_rkaf_def sample_hdr_def rk_container_def)
  then show ?thesis by (simp add: in_image_def sample_item_def)
qed

theorem rkaf_unpacks_entries_witness:
  "\<exists>s. rkunpack_main easy_env 2 (Some sample_rkaf) = Done s \<and> ufiles s = [(ascii ''parameter'', payload sample_rkaf sample_item)]"
proof -
  have "(\<exists>s. rkunpack_main easy_env 2 (Some sample_rkaf) = Done s \<and>
       ufiles s = map (\<lambda>e. (ipath e, payload sample_rkaf e)) (filter (\<lambda>e. \<not> is_self e) [sample_item])) \<and>
     (\<forall>e\<in>set [sample_item]. is_param e \<and> length (ascii ''PARM'') = 4 \<and> length [1, 2, 3 :: u8] + 12 < 2 ^ 32 \<and>
       take (unat (ifsize e)) (drop (unat (ioffset e)) sample_rkaf) = rk_container (ascii ''PARM'') [1, 2, 3] \<longrightarrow>
       payload sample_rkaf e = [1, 2, 3])"
    using sample_rkaf_def
  proof (rule rkaf_unpacks_entries [OF easy_friendly, rotated 5])
    show "\<forall>e\<in>set [sample_item]. item_ok e \<and> in_image sample_rkaf e"
      using sample_item_ok sample_in_image by simp
  qed (simp_all add: sample_hdr_def rd32le_def)
  moreover have "\<not> is_self sample_item" "ipath sample_item = ascii ''parameter''"
    by (simp_all add: is_self_def sample_item_def pad_def ascii_def)
  ultimately show ?thesis by simp
qed

lemma rkfw_intro_ok:
  assumes "0x16 \<le> length bs"
  shows "\<exists>s1. rkfw_intro bs s = Done s1 \<and> ufiles s1 = ufiles s"
  using assms by (simp add: rkfw_intro_def slice_def Let_def split: option.split)

lemma rkfw_first_part_append:
  assumes "off + 4 \<le> length img"
  shows "rkfw_first_part (img @ z) off =
    (if take 4 (drop off img) = ascii ''BOOT'' then Done ''BOOT''
     else if take 4 (drop off img) = ascii ''LDR '' then Done ''LDR'' else Fatal ''cannot find BOOT signature'')"
  using assms memcmp4 [of off img "''BOOT''" z] memcmp4 [of off img "''LDR ''" z]
  by (simp add: rkfw_first_part_def)

text \<open>The outcome of unpacking an RKFW image whose two parts lie inside the file, on every branch: without the
  BOOT or LDR signature, or without the embedded RKAF, the tool stops with an error; otherwise it writes the
  two parts under their fixed names.\<close>

theorem rkfw_unpack_outcome:
  assumes "friendly env" "take 4 img = ascii ''RKFW''" "0x29 \<le> length img"
    and "rd32le 0x19 img = Some a" "rd32le 0x1d img = Some n" "rd32le 0x21 img = Some b" "rd32le 0x25 img = Some k"
    and "unat a + max 4 (unat n) \<le> length img" "unat b + max 4 (unat k) \<le> length img"
  defines "sig \<equiv> take 4 (drop (unat a) img)" and "emb \<equiv> take 4 (drop (unat b) img)"
  shows "(sig \<noteq> ascii ''BOOT'' \<and> sig \<noteq> ascii ''LDR '' \<longrightarrow>
       rkunpack_main env 2 (Some img) = Fatal ''cannot find BOOT signature'') \<and>
     ((sig = ascii ''BOOT'' \<or> sig = ascii ''LDR '') \<and> emb \<noteq> ascii ''RKAF'' \<longrightarrow>
       rkunpack_main env 2 (Some img) = Fatal ''cannot find embedded RKAF update.img'') \<and>
     ((sig = ascii ''BOOT'' \<or> sig = ascii ''LDR '') \<and> emb = ascii ''RKAF'' \<longrightarrow>
       (\<exists>s. rkunpack_main env 2 (Some img) = Done s \<and>
          ufiles s = [(if sig = ascii ''BOOT'' then ascii ''BOOT'' else ascii ''LDR'', take (unat n) (drop (unat a) img)),
            (ascii ''embedded-update.img'', take (unat k) (drop (unat b) img))]))"
proof -
  obtain z where z: "mapped img = img @ z" using mapped_append by blast
  have fr: "\<forall>k. \<exists>n. write_env env k = Some n \<and> 2 ^ 32 \<le> n" using assms(1) by (simp add: friendly_def)
  let ?s = "\<lparr>ulog = [], udirs = [], ufiles = []\<rparr>"
  obtain s1 where s1: "rkfw_intro (img @ z) ?s = Done s1" "ufiles s1 = []"
    using rkfw_intro_ok [of "img @ z" ?s] assms(3) by auto
  note w = le32_at_append [OF assms(4)] le32_at_append [OF assms(5)] le32_at_append [OF assms(6)] le32_at_append [OF assms(7)]
  have fp: "rkfw_first_part (img @ z) (unat a) =
    (if sig = ascii ''BOOT'' then Done ''BOOT'' else if sig = ascii ''LDR '' then Done ''LDR''
     else Fatal ''cannot find BOOT signature'')"
    using rkfw_first_part_append assms(8) by (simp add: sig_def)
  have em: "memcmp_eq (img @ z) (unat b) ''RKAF'' = Done (emb = ascii ''RKAF'')"
    using memcmp4 [of "unat b" img "''RKAF''" z] assms(9) by (simp add: emb_def)
  have wr: "write_file env path (img @ z) (unat x) (unat y) t
      = Done (t\<lparr>ufiles := ufiles t @ [(path, take (unat y) (drop (unat x) img))]\<rparr>)"
    if "unat x + unat y \<le> length img" for path and x y :: u32 and t
    using write_file_friendly [OF fr, of "unat x" "unat y" "img @ z"] that unsigned_less [of y] by simp
  have in1: "unat a + unat n \<le> length img" and in2: "unat b + unat k \<le> length img" using assms(8,9) by auto
  have run: "unpack_rkfw env (img @ z) ?s =
    (if sig \<noteq> ascii ''BOOT'' \<and> sig \<noteq> ascii ''LDR '' then Fatal ''cannot find BOOT signature''
     else if emb \<noteq> ascii ''RKAF'' then Fatal ''cannot find embedded RKAF update.img''
     else unpack_rkfw env (img @ z) ?s)"
    by (simp add: unpack_rkfw_def s1 w fp wr [OF in1] em)
  have ne: "ascii ''RKFW'' \<noteq> ascii ''RKAF''" by (simp add: ascii_def)
  have "img \<noteq> []" using assms(3) by auto
  then have main: "rkunpack_main env 2 (Some img) =
      bind_outcome (unpack_rkfw env (img @ z) ?s) (\<lambda>s1. Done (report Unpacked s1))"
    using memcmp4 [of 0 img "''RKAF''" z] memcmp4 [of 0 img "''RKFW''" z] assms(2,3) ne
    by (simp add: rkunpack_main_def Let_def z)
  have "\<exists>t. unpack_rkfw env (img @ z) ?s = Done t \<and>
      ufiles t = [(if sig = ascii ''BOOT'' then ascii ''BOOT'' else ascii ''LDR'', take (unat n) (drop (unat a) img)),
        (ascii ''embedded-update.img'', take (unat k) (drop (unat b) img))]"
    if "sig = ascii ''BOOT'' \<or> sig = ascii ''LDR ''" "emb = ascii ''RKAF''"
    using that by (auto simp: unpack_rkfw_def s1 w fp wr [OF in1] wr [OF in2] em)
  then show ?thesis using run main by (auto split: if_splits)
qed


definition sample_rkfw :: bytes where
  "sample_rkfw = ascii ''RKFW'' @ replicate 0x15 0 @ put32le 0x29 @ put32le 8 @ put32le 0x31 @ put32le 6 @
     ascii ''BOOT1234'' @ ascii ''RKAFxy''"

theorem rkfw_unpack_outcome_witness:
  "\<exists>s. rkunpack_main easy_env 2 (Some sample_rkfw) = Done s \<and>
     ufiles s = [(ascii ''BOOT'', ascii ''BOOT1234''), (ascii ''embedded-update.img'', ascii ''RKAFxy'')]"
proof -
  have w: "rd32le 0x19 sample_rkfw = Some 0x29" "rd32le 0x1d sample_rkfw = Some 8"
    "rd32le 0x21 sample_rkfw = Some 0x31" "rd32le 0x25 sample_rkfw = Some 6"
    by (simp_all add: sample_rkfw_def rd32le_def)
  have h: "take 4 sample_rkfw = ascii ''RKFW''" "0x29 \<le> length sample_rkfw"
    "unat (0x29::u32) + max 4 (unat (8::u32)) \<le> length sample_rkfw" "unat (0x31::u32) + max 4 (unat (6::u32)) \<le> length sample_rkfw"
    by (simp_all add: sample_rkfw_def)
  have c: "take 4 (drop 0x29 sample_rkfw) = ascii ''BOOT''" "take 4 (drop 0x31 sample_rkfw) = ascii ''RKAF''"
    "take 8 (drop 0x29 sample_rkfw) = ascii ''BOOT1234''" "take 6 (drop 0x31 sample_rkfw) = ascii ''RKAFxy''"
    by (simp_all add: sample_rkfw_def ascii_def)
  show ?thesis
    using rkfw_unpack_outcome [OF easy_friendly h(1,2) w h(3,4)] c by simp
qed

section \<open>Corner cases of the code\<close>

text \<open>A short \<open>write\<close> is taken for success.\<close>

lemma short_write_unnoticed:
  "write_file (easy_env\<lparr>write_env := \<lambda>_. Some 2\<rparr>) (ascii ''f'') [1, 2, 3, 4] 0 4 \<lparr>ulog = [], udirs = [], ufiles = []\<rparr>
     = Done \<lparr>ulog = [], udirs = [], ufiles = [(ascii ''f'', [1, 2])]\<rparr>"
  by (simp add: write_file_def easy_env_def slice_def)

text \<open>The number of entries is trusted: a header that claims an entry the file does not have makes the tool read
  behind the mapping.\<close>

lemma entry_count_trusted:
  assumes "length bs \<le> p"
  shows "rkaf_entries env bs (Suc n) p s = Fault"
  using assms by (simp add: rkaf_entry_def le32_at_def rd32le_def)

end
