(* ===== verification/UbString.thy ===== *)
theory UbString
  imports Prelude
begin

text \<open>
  The string library of U-Boot: \<open>lib/ctype.c\<close>, \<open>lib/string.c\<close> and \<open>lib/strto.c\<close>, as the boot code calls it.  Memory is one
  block of bytes, a pointer an index into it and its address (the block starts at an aligned address);
  every routine that runs over the end of the block is a \<open>Fault\<close>.  Sharing the block makes the
  behaviour on overlapping areas part of the model.
\<close>

section \<open>Memory\<close>

definition rd :: "bytes \<Rightarrow> nat \<Rightarrow> u8 outcome" where
  "rd m p = (if p < length m then Done (m ! p) else Fault)"

definition wr :: "bytes \<Rightarrow> nat \<Rightarrow> u8 \<Rightarrow> bytes outcome" where
  "wr m p b = (if p < length m then Done (m[p := b]) else Fault)"

text \<open>The shape of the searching loops: the first address from \<open>p\<close> on whose byte satisfies the condition.\<close>

function scan_to :: "(u8 \<Rightarrow> bool) \<Rightarrow> bytes \<Rightarrow> nat \<Rightarrow> nat outcome" where
  "scan_to Q m p = (if p < length m then (if Q (m ! p) then Done p else scan_to Q m (p + 1)) else Fault)"
  by pat_completeness auto
termination
  by (relation "measure (\<lambda>(Q, m, p). length m - p)") auto

declare scan_to.simps [simp del]

section \<open>ctype.c\<close>

definition CT_U :: nat where "CT_U = 0x01"
definition CT_L :: nat where "CT_L = 0x02"
definition CT_D :: nat where "CT_D = 0x04"
definition CT_C :: nat where "CT_C = 0x08"
definition CT_P :: nat where "CT_P = 0x10"
definition CT_S :: nat where "CT_S = 0x20"
definition CT_X :: nat where "CT_X = 0x40"
definition CT_SP :: nat where "CT_SP = 0x80"

definition ctype_table :: "nat list" where
  "ctype_table =
    replicate 8 CT_C @
    [CT_C] @ replicate 5 (CT_C OR CT_S) @ replicate 2 CT_C @
    replicate 8 CT_C @ replicate 8 CT_C @
    [CT_S OR CT_SP] @ replicate 7 CT_P @
    replicate 8 CT_P @
    replicate 8 CT_D @
    replicate 2 CT_D @ replicate 6 CT_P @
    [CT_P] @ replicate 6 (CT_U OR CT_X) @ [CT_U] @
    replicate 8 CT_U @ replicate 8 CT_U @
    replicate 3 CT_U @ replicate 5 CT_P @
    [CT_P] @ replicate 6 (CT_L OR CT_X) @ [CT_L] @
    replicate 8 CT_L @ replicate 8 CT_L @
    replicate 3 CT_L @ replicate 4 CT_P @ [CT_C] @
    replicate 16 0 @ replicate 16 0 @
    [CT_S OR CT_SP] @ replicate 15 CT_P @ replicate 16 CT_P @
    replicate 16 CT_U @
    replicate 7 CT_U @ [CT_P] @ replicate 7 CT_U @ [CT_L] @
    replicate 16 CT_L @
    replicate 7 CT_L @ [CT_P] @ replicate 8 CT_L"

definition ismask :: "u8 \<Rightarrow> nat \<Rightarrow> bool" where
  "ismask c f \<longleftrightarrow> (ctype_table ! unat c) AND f \<noteq> 0"

definition is_digit :: "u8 \<Rightarrow> bool" where "is_digit c = ismask c CT_D"
definition is_lower :: "u8 \<Rightarrow> bool" where "is_lower c = ismask c CT_L"
definition is_upper :: "u8 \<Rightarrow> bool" where "is_upper c = ismask c CT_U"
definition is_space :: "u8 \<Rightarrow> bool" where "is_space c = ismask c CT_S"
definition is_xdigit :: "u8 \<Rightarrow> bool" where "is_xdigit c = ismask c (CT_D OR CT_X)"
definition is_print :: "u8 \<Rightarrow> bool" where "is_print c = ismask c (CT_P OR CT_U OR CT_L OR CT_D OR CT_SP)"

definition to_lower :: "u8 \<Rightarrow> u8" where
  "to_lower c = (if is_upper c then c + 0x20 else c)"

definition to_upper :: "u8 \<Rightarrow> u8" where
  "to_upper c = (if is_lower c then c - 0x20 else c)"

section \<open>string.c: comparing\<close>

text \<open>The turns of the loop of \<open>strncasecmp\<close> with \<open>Suc n\<close> left.\<close>

fun strncasecmp_loop :: "bytes \<Rightarrow> nat \<Rightarrow> nat \<Rightarrow> nat \<Rightarrow> int outcome" where
  "strncasecmp_loop m s1 s2 0 = Done 0"
| "strncasecmp_loop m s1 s2 (Suc n) =
     bind_outcome (rd m s1) (\<lambda>c1. bind_outcome (rd m s2) (\<lambda>c2.
       if c1 = 0 \<or> c2 = 0 then Done (uint c1 - uint c2)
       else if c1 = c2 then strncasecmp_loop m (s1 + 1) (s2 + 1) n
       else if to_lower c1 \<noteq> to_lower c2 then Done (uint (to_lower c1) - uint (to_lower c2))
       else strncasecmp_loop m (s1 + 1) (s2 + 1) n))"

definition strncasecmp :: "bytes \<Rightarrow> nat \<Rightarrow> nat \<Rightarrow> u32 \<Rightarrow> int outcome" where
  "strncasecmp m s1 s2 len = strncasecmp_loop m s1 s2 (unat len)"

definition strcasecmp :: "bytes \<Rightarrow> nat \<Rightarrow> nat \<Rightarrow> int outcome" where
  "strcasecmp m s1 s2 = strncasecmp m s1 s2 (- 1)"

text \<open>The difference is kept in a \<open>signed char\<close>.\<close>

function strcmp :: "bytes \<Rightarrow> nat \<Rightarrow> nat \<Rightarrow> int outcome" where
  "strcmp m cs ct =
     (if cs < length m \<and> ct < length m then
        (let res = sint (m ! cs - m ! ct)
         in if res \<noteq> 0 \<or> m ! cs = 0 then Done res else strcmp m (cs + 1) (ct + 1))
      else Fault)"
  by pat_completeness auto
termination
  by (relation "measure (\<lambda>(m, cs, ct). length m - cs)") auto

declare strcmp.simps [simp del]

fun strncmp_loop :: "bytes \<Rightarrow> nat \<Rightarrow> nat \<Rightarrow> nat \<Rightarrow> int outcome" where
  "strncmp_loop m cs ct 0 = Done 0"
| "strncmp_loop m cs ct (Suc n) =
     bind_outcome (rd m cs) (\<lambda>a. bind_outcome (rd m ct) (\<lambda>b.
       let res = sint (a - b)
       in if res \<noteq> 0 \<or> a = 0 then Done res else strncmp_loop m (cs + 1) (ct + 1) n))"

definition strncmp :: "bytes \<Rightarrow> nat \<Rightarrow> nat \<Rightarrow> u32 \<Rightarrow> int outcome" where
  "strncmp m cs ct count = strncmp_loop m cs ct (unat count)"

fun memcmp_loop :: "bytes \<Rightarrow> nat \<Rightarrow> nat \<Rightarrow> nat \<Rightarrow> int outcome" where
  "memcmp_loop m cs ct 0 = Done 0"
| "memcmp_loop m cs ct (Suc n) =
     bind_outcome (rd m cs) (\<lambda>a. bind_outcome (rd m ct) (\<lambda>b.
       if uint a - uint b \<noteq> 0 then Done (uint a - uint b) else memcmp_loop m (cs + 1) (ct + 1) n))"

definition memcmp :: "bytes \<Rightarrow> nat \<Rightarrow> nat \<Rightarrow> u32 \<Rightarrow> int outcome" where
  "memcmp m cs ct count = memcmp_loop m cs ct (unat count)"

section \<open>string.c: searching\<close>

definition strchrnul :: "bytes \<Rightarrow> nat \<Rightarrow> u8 \<Rightarrow> nat outcome" where
  "strchrnul m s c = scan_to (\<lambda>b. b = c \<or> b = 0) m s"

definition strchr :: "bytes \<Rightarrow> nat \<Rightarrow> u8 \<Rightarrow> nat option outcome" where
  "strchr m s c = bind_outcome (scan_to (\<lambda>b. b = c \<or> b = 0) m s) (\<lambda>p.
     Done (if m ! p = c then Some p else None))"

definition strlen :: "bytes \<Rightarrow> nat \<Rightarrow> nat outcome" where
  "strlen m s = bind_outcome (scan_to (\<lambda>b. b = 0) m s) (\<lambda>sc. Done (sc - s))"

fun strnlen_loop :: "bytes \<Rightarrow> nat \<Rightarrow> nat \<Rightarrow> nat outcome" where
  "strnlen_loop m sc 0 = Done sc"
| "strnlen_loop m sc (Suc n) = bind_outcome (rd m sc) (\<lambda>b. if b = 0 then Done sc else strnlen_loop m (sc + 1) n)"

definition strnlen :: "bytes \<Rightarrow> nat \<Rightarrow> u32 \<Rightarrow> nat outcome" where
  "strnlen m s count = bind_outcome (strnlen_loop m s (unat count)) (\<lambda>sc. Done (sc - s))"

fun strrchr_down :: "bytes \<Rightarrow> nat \<Rightarrow> u8 \<Rightarrow> nat \<Rightarrow> nat option" where
  "strrchr_down m s c 0 = (if m ! s = c then Some s else None)"
| "strrchr_down m s c (Suc k) = (if m ! (s + Suc k) = c then Some (s + Suc k) else strrchr_down m s c k)"

definition strrchr :: "bytes \<Rightarrow> nat \<Rightarrow> u8 \<Rightarrow> nat option outcome" where
  "strrchr m s c = bind_outcome (strlen m s) (\<lambda>n. Done (strrchr_down m s c n))"

text \<open>The inner loops over a set of characters: is the byte \<open>c\<close>, which is not NUL, in the string at \<open>r\<close>?\<close>

definition in_chars :: "bytes \<Rightarrow> nat \<Rightarrow> u8 \<Rightarrow> bool outcome" where
  "in_chars m r c = bind_outcome (scan_to (\<lambda>b. b = 0 \<or> b = c) m r) (\<lambda>q. Done (m ! q \<noteq> 0))"

function skip_chars :: "bool \<Rightarrow> bytes \<Rightarrow> nat \<Rightarrow> nat \<Rightarrow> nat outcome" where
  "skip_chars want m p ct =
     (if p < length m then
        if m ! p = 0 then Done p
        else (case in_chars m ct (m ! p) of
            Done b \<Rightarrow> if b = want then skip_chars want m (p + 1) ct else Done p
          | Fatal e \<Rightarrow> Fatal e
          | Fault \<Rightarrow> Fault)
      else Fault)"
  by pat_completeness auto
termination
  by (relation "measure (\<lambda>(want, m, p, ct). length m - p)") auto

declare skip_chars.simps [simp del]

definition strcspn :: "bytes \<Rightarrow> nat \<Rightarrow> nat \<Rightarrow> nat outcome" where
  "strcspn m s reject = bind_outcome (skip_chars False m s reject) (\<lambda>p. Done (p - s))"

definition strspn :: "bytes \<Rightarrow> nat \<Rightarrow> nat \<Rightarrow> nat outcome" where
  "strspn m s accept = bind_outcome (skip_chars True m s accept) (\<lambda>p. Done (p - s))"

definition strpbrk :: "bytes \<Rightarrow> nat \<Rightarrow> nat \<Rightarrow> nat option outcome" where
  "strpbrk m cs ct = bind_outcome (skip_chars False m cs ct) (\<lambda>p. Done (if m ! p = 0 then None else Some p))"

text \<open>The loop of \<open>strstr\<close>: \<open>k\<close> turns are left, \<open>l1 = l2 + k - 1\<close> at the top of each.\<close>

fun strstr_loop :: "bytes \<Rightarrow> nat \<Rightarrow> nat \<Rightarrow> nat \<Rightarrow> nat \<Rightarrow> nat option outcome" where
  "strstr_loop m s1 s2 l2 0 = Done None"
| "strstr_loop m s1 s2 l2 (Suc k) =
     bind_outcome (memcmp_loop m s1 s2 l2) (\<lambda>r.
       if r = 0 then Done (Some s1) else strstr_loop m (s1 + 1) s2 l2 k)"

definition strstr :: "bytes \<Rightarrow> nat \<Rightarrow> nat \<Rightarrow> nat option outcome" where
  "strstr m s1 s2 =
     bind_outcome (strlen m s2) (\<lambda>l2.
       if l2 = 0 then Done (Some s1)
       else bind_outcome (strlen m s1) (\<lambda>l1. strstr_loop m s1 s2 l2 (l1 + 1 - l2)))"

text \<open>\<open>strstr\<close> with a literal, which lies outside the buffer.\<close>

definition strstr_lit :: "bytes \<Rightarrow> nat \<Rightarrow> string \<Rightarrow> nat option outcome" where
  "strstr_lit m p lit =
     bind_outcome (strlen m p) (\<lambda>_. strstr (m @ ascii lit @ [0]) p (length m))"

text \<open>\<open>c\<close> is an \<open>int\<close>: \<open>memscan\<close> compares it as such, \<open>memchr\<close> converts it.\<close>

fun memscan :: "bytes \<Rightarrow> nat \<Rightarrow> int \<Rightarrow> nat \<Rightarrow> nat outcome" where
  "memscan m p c 0 = Done p"
| "memscan m p c (Suc n) = bind_outcome (rd m p) (\<lambda>b. if uint b = c then Done p else memscan m (p + 1) c n)"

fun memchr :: "bytes \<Rightarrow> nat \<Rightarrow> int \<Rightarrow> nat \<Rightarrow> nat option outcome" where
  "memchr m p c 0 = Done None"
| "memchr m p c (Suc n) =
     bind_outcome (rd m p) (\<lambda>b. if (word_of_int c :: u8) = b then Done (Some p) else memchr m (p + 1) c n)"

fun check_bytes8 :: "bytes \<Rightarrow> nat \<Rightarrow> u8 \<Rightarrow> nat \<Rightarrow> nat option outcome" where
  "check_bytes8 m p v 0 = Done None"
| "check_bytes8 m p v (Suc n) =
     bind_outcome (rd m p) (\<lambda>b. if b \<noteq> v then Done (Some p) else check_bytes8 m (p + 1) v n)"

definition rd64le :: "bytes \<Rightarrow> nat \<Rightarrow> u64 outcome" where
  "rd64le m p = (if p + 8 \<le> length m then Done (foldr (\<lambda>b w. ucast b OR push_bit 8 w) (take 8 (drop p m)) 0) else Fault)"

definition spread8 :: "u8 \<Rightarrow> u64" where
  "spread8 v = (let a = ucast v :: u64; b = a OR push_bit 8 a; c = b OR push_bit 16 b in c OR push_bit 32 c)"

fun inv_words :: "bytes \<Rightarrow> nat \<Rightarrow> u8 \<Rightarrow> nat \<Rightarrow> nat \<Rightarrow> nat option outcome" where
  "inv_words m p v 0 rest = check_bytes8 m p v rest"
| "inv_words m p v (Suc k) rest =
     bind_outcome (rd64le m p) (\<lambda>w. if w \<noteq> spread8 v then check_bytes8 m p v 8 else inv_words m (p + 8) v k rest)"

definition memchr_inv :: "bytes \<Rightarrow> nat \<Rightarrow> int \<Rightarrow> nat \<Rightarrow> nat option outcome" where
  "memchr_inv m start c n =
     (let v = word_of_int c :: u8
      in if n \<le> 16 then check_bytes8 m start v n
         else
           (let prefix = (if start mod 8 = 0 then 0 else 8 - start mod 8)
            in bind_outcome (check_bytes8 m start v prefix) (\<lambda>r.
                 case r of Some p \<Rightarrow> Done (Some p)
                 | None \<Rightarrow> inv_words m (start + prefix) v ((n - prefix) div 8) ((n - prefix) mod 8))))"

section \<open>string.c: copying\<close>

function copy_str :: "bytes \<Rightarrow> nat \<Rightarrow> nat \<Rightarrow> bytes outcome" where
  "copy_str m d s =
     (if s < length m \<and> d < length m then
        (let b = m ! s; m1 = m[d := b] in if b \<noteq> 0 then copy_str m1 (d + 1) (s + 1) else Done m1)
      else Fault)"
  by pat_completeness auto
termination
  by (relation "measure (\<lambda>(m, d, s). length m - s)") auto

declare copy_str.simps [simp del]

definition strcpy :: "bytes \<Rightarrow> nat \<Rightarrow> nat \<Rightarrow> bytes outcome" where
  "strcpy m dest src = copy_str m dest src"

fun strncpy_loop :: "bytes \<Rightarrow> nat \<Rightarrow> nat \<Rightarrow> nat \<Rightarrow> bytes outcome" where
  "strncpy_loop m d s 0 = Done m"
| "strncpy_loop m d s (Suc n) =
     bind_outcome (rd m s) (\<lambda>b. bind_outcome (wr m d b) (\<lambda>m1.
       if b \<noteq> 0 then strncpy_loop m1 (d + 1) (s + 1) n else Done m1))"

definition strncpy :: "bytes \<Rightarrow> nat \<Rightarrow> nat \<Rightarrow> u32 \<Rightarrow> bytes outcome" where
  "strncpy m dest src count = strncpy_loop m dest src (unat count)"

text \<open>\<open>memcpy\<close>: whole words while both addresses are aligned, then bytes, always upwards.\<close>

fun copy_words :: "bytes \<Rightarrow> nat \<Rightarrow> nat \<Rightarrow> nat \<Rightarrow> bytes outcome" where
  "copy_words m d s 0 = Done m"
| "copy_words m d s (Suc n) =
     (if s + 4 \<le> length m \<and> d + 4 \<le> length m
      then copy_words (overwrite d (take 4 (drop s m)) m) (d + 4) (s + 4) n else Fault)"

fun copy_up :: "bytes \<Rightarrow> nat \<Rightarrow> nat \<Rightarrow> nat \<Rightarrow> bytes outcome" where
  "copy_up m d s 0 = Done m"
| "copy_up m d s (Suc n) =
     bind_outcome (rd m s) (\<lambda>b. bind_outcome (wr m d b) (\<lambda>m1. copy_up m1 (d + 1) (s + 1) n))"

definition memcpy :: "bytes \<Rightarrow> nat \<Rightarrow> nat \<Rightarrow> nat \<Rightarrow> bytes outcome" where
  "memcpy m dest src count =
     (if src = dest then Done m
      else
        (let words = (if dest mod 4 = 0 \<and> src mod 4 = 0 then count div 4 else 0)
         in bind_outcome (copy_words m dest src words) (\<lambda>m1.
              copy_up m1 (dest + 4 * words) (src + 4 * words) (count - 4 * words))))"

fun copy_down :: "bytes \<Rightarrow> nat \<Rightarrow> nat \<Rightarrow> nat \<Rightarrow> bytes outcome" where
  "copy_down m d s 0 = Done m"
| "copy_down m d s (Suc n) =
     bind_outcome (rd m (s + n)) (\<lambda>b. bind_outcome (wr m (d + n) b) (\<lambda>m1. copy_down m1 d s n))"

definition memmove :: "bytes \<Rightarrow> nat \<Rightarrow> nat \<Rightarrow> nat \<Rightarrow> bytes outcome" where
  "memmove m dest src count = (if dest \<le> src then memcpy m dest src count else copy_down m dest src count)"

text \<open>\<open>memset\<close>: four copies of the byte per word while the address is aligned.\<close>

definition fill_word :: "int \<Rightarrow> u32" where
  "fill_word c = ((\<lambda>cl. push_bit 8 cl OR (word_of_int c AND 0xff)) ^^ 4) 0"

fun fill_words :: "bytes \<Rightarrow> nat \<Rightarrow> u32 \<Rightarrow> nat \<Rightarrow> bytes outcome" where
  "fill_words m p w 0 = Done m"
| "fill_words m p w (Suc n) =
     (if p + 4 \<le> length m then fill_words (overwrite p (put32le w) m) (p + 4) w n else Fault)"

fun fill_bytes :: "bytes \<Rightarrow> nat \<Rightarrow> u8 \<Rightarrow> nat \<Rightarrow> bytes outcome" where
  "fill_bytes m p b 0 = Done m"
| "fill_bytes m p b (Suc n) = bind_outcome (wr m p b) (\<lambda>m1. fill_bytes m1 (p + 1) b n)"

definition memset :: "bytes \<Rightarrow> nat \<Rightarrow> int \<Rightarrow> nat \<Rightarrow> bytes outcome" where
  "memset m s c count =
     (let words = (if s mod 4 = 0 then count div 4 else 0)
      in bind_outcome (fill_words m s (fill_word c) words) (\<lambda>m1.
           fill_bytes m1 (s + 4 * words) (word_of_int c) (count - 4 * words)))"

definition strlcpy :: "bytes \<Rightarrow> nat \<Rightarrow> nat \<Rightarrow> nat \<Rightarrow> (nat \<times> bytes) outcome" where
  "strlcpy m dest src sz =
     bind_outcome (strlen m src) (\<lambda>ret.
       if sz = 0 then Done (ret, m)
       else (let len = (if sz \<le> ret then sz - 1 else ret)
             in bind_outcome (memcpy m dest src len) (\<lambda>m1.
                bind_outcome (wr m1 (dest + len) 0) (\<lambda>m2. Done (ret, m2)))))"

definition strcat :: "bytes \<Rightarrow> nat \<Rightarrow> nat \<Rightarrow> bytes outcome" where
  "strcat m dest src = bind_outcome (scan_to (\<lambda>b. b = 0) m dest) (\<lambda>d. copy_str m d src)"

text \<open>The second loop of \<open>strncat\<close> with \<open>count = Suc n\<close>.\<close>

fun strncat_loop :: "bytes \<Rightarrow> nat \<Rightarrow> nat \<Rightarrow> nat \<Rightarrow> bytes outcome" where
  "strncat_loop m d s 0 =
     bind_outcome (rd m s) (\<lambda>b. bind_outcome (wr m d b) (\<lambda>m1. if b = 0 then Done m1 else wr m1 (d + 1) 0))"
| "strncat_loop m d s (Suc n) =
     bind_outcome (rd m s) (\<lambda>b. bind_outcome (wr m d b) (\<lambda>m1.
       if b = 0 then Done m1 else strncat_loop m1 (d + 1) (s + 1) n))"

definition strncat :: "bytes \<Rightarrow> nat \<Rightarrow> nat \<Rightarrow> u32 \<Rightarrow> bytes outcome" where
  "strncat m dest src count =
     (if count = 0 then Done m
      else bind_outcome (scan_to (\<lambda>b. b = 0) m dest) (\<lambda>d. strncat_loop m d src (unat count - 1)))"

text \<open>\<open>malloc\<close> delivers the address of a fresh area, or nothing.\<close>

definition strdup :: "nat option \<Rightarrow> bytes \<Rightarrow> nat option \<Rightarrow> (nat option \<times> bytes) outcome" where
  "strdup fresh m s = (case s of None \<Rightarrow> Done (None, m)
     | Some p \<Rightarrow> bind_outcome (strlen m p) (\<lambda>_.
         case fresh of None \<Rightarrow> Done (None, m)
         | Some new \<Rightarrow> bind_outcome (strcpy m new p) (\<lambda>m1. Done (Some new, m1))))"

definition memdup :: "nat option \<Rightarrow> bytes \<Rightarrow> nat \<Rightarrow> nat \<Rightarrow> (nat option \<times> bytes) outcome" where
  "memdup fresh m src len = (case fresh of None \<Rightarrow> Done (None, m)
     | Some p \<Rightarrow> bind_outcome (memcpy m p src len) (\<lambda>m1. Done (Some p, m1)))"

section \<open>string.c: splitting\<close>

text \<open>The result, the variable \<open>___strtok\<close> and the memory afterwards.\<close>

definition strtok :: "bytes \<Rightarrow> nat option \<Rightarrow> nat option \<Rightarrow> nat \<Rightarrow> (nat option \<times> nat option \<times> bytes) outcome" where
  "strtok m saved s ct =
     (case (case s of Some p \<Rightarrow> Some p | None \<Rightarrow> saved) of
        None \<Rightarrow> Done (None, saved, m)
      | Some start \<Rightarrow>
          bind_outcome (strspn m start ct) (\<lambda>n.
          let sbegin = start + n
          in bind_outcome (rd m sbegin) (\<lambda>b.
             if b = 0 then Done (None, None, m)
             else bind_outcome (strpbrk m sbegin ct) (\<lambda>send.
               case send of None \<Rightarrow> Done (Some sbegin, None, m)
               | Some q \<Rightarrow> Done (Some sbegin, Some (q + 1), m[q := 0])))))"

definition strsep :: "bytes \<Rightarrow> nat option \<Rightarrow> nat \<Rightarrow> (nat option \<times> nat option \<times> bytes) outcome" where
  "strsep m s ct =
     (case s of None \<Rightarrow> Done (None, None, m)
      | Some sbegin \<Rightarrow> bind_outcome (strpbrk m sbegin ct) (\<lambda>fin.
          case fin of None \<Rightarrow> Done (Some sbegin, None, m)
          | Some q \<Rightarrow> Done (Some sbegin, Some (q + 1), m[q := 0])))"

function swab_loop :: "bytes \<Rightarrow> nat \<Rightarrow> bytes outcome" where
  "swab_loop m p =
     (if p < length m then
        if m ! p = 0 then Done m
        else if p + 1 < length m then
          if m ! (p + 1) = 0 then Done m
          else swab_loop (m[p := m ! (p + 1), p + 1 := m ! p]) (p + 2)
        else Fault
      else Fault)"
  by pat_completeness auto
termination
  by (relation "measure (\<lambda>(m, p). length m - p)") auto

declare swab_loop.simps [simp del]

definition strswab :: "bytes \<Rightarrow> nat option \<Rightarrow> (nat option \<times> bytes) outcome" where
  "strswab m s = (case s of None \<Rightarrow> Done (None, m)
     | Some p \<Rightarrow> bind_outcome (rd m p) (\<lambda>b.
         if b = 0 then Done (None, m) else bind_outcome (swab_loop m p) (\<lambda>m1. Done (Some p, m1))))"

section \<open>strto.c\<close>

abbreviation chr :: "char \<Rightarrow> u8" where
  "chr c \<equiv> of_char c"

text \<open>Reading the one or two bytes behind a leading 0 is in order: they are read one after the other.\<close>

definition fixup_radix :: "bytes \<Rightarrow> nat \<Rightarrow> nat \<Rightarrow> (nat \<times> nat) outcome" where
  "fixup_radix m s base =
     bind_outcome (rd m s) (\<lambda>c0.
     bind_outcome (if c0 = chr CHR ''0'' \<and> (base = 0 \<or> base = 16) then
         bind_outcome (rd m (s + 1)) (\<lambda>c1. Done (to_lower c1 = chr CHR ''x'')) else Done False) (\<lambda>x.
     bind_outcome (if x \<and> base = 0 then bind_outcome (rd m (s + 2)) (\<lambda>c2. Done (is_xdigit c2)) else Done False) (\<lambda>hex.
       let base1 = (if base \<noteq> 0 then base else if c0 = chr CHR ''0'' then (if x \<and> hex then 16 else 8) else 10)
       in Done (if base1 = 16 \<and> x then s + 2 else s, base1))))"

definition digit_value :: "u8 \<Rightarrow> nat" where
  "digit_value c = (if is_digit c then unat (c - chr CHR ''0'')
     else unat ((if is_lower c then to_upper c else c) - chr CHR ''A'' + 10))"

definition is_digit_of :: "nat \<Rightarrow> u8 \<Rightarrow> bool" where
  "is_digit_of base c \<longleftrightarrow> is_xdigit c \<and> digit_value c < base"

definition strto_value :: "nat \<Rightarrow> bytes \<Rightarrow> 'a::len word" where
  "strto_value base ds = foldl (\<lambda>r c. r * of_nat base + of_nat (digit_value c)) 0 ds"

definition simple_strto :: "bytes \<Rightarrow> nat \<Rightarrow> nat \<Rightarrow> ('a::len word \<times> nat) outcome" where
  "simple_strto m cp base =
     bind_outcome (fixup_radix m cp base) (\<lambda>(p, base1).
     bind_outcome (scan_to (\<lambda>c. \<not> is_digit_of base1 c) m p) (\<lambda>q.
       Done (strto_value base1 (take (q - p) (drop p m)), q)))"

definition simple_strtoul :: "bytes \<Rightarrow> nat \<Rightarrow> nat \<Rightarrow> (u32 \<times> nat) outcome" where
  "simple_strtoul m cp base = simple_strto m cp base"

definition simple_strtoull :: "bytes \<Rightarrow> nat \<Rightarrow> nat \<Rightarrow> (u64 \<times> nat) outcome" where
  "simple_strtoull m cp base = simple_strto m cp base"

definition simple_strtol :: "bytes \<Rightarrow> nat \<Rightarrow> nat \<Rightarrow> (u32 \<times> nat) outcome" where
  "simple_strtol m cp base =
     bind_outcome (rd m cp) (\<lambda>c.
       if c = chr CHR ''-'' then bind_outcome (simple_strtoul m (cp + 1) base) (\<lambda>(v, q). Done (- v, q))
       else simple_strtoul m cp base)"

definition strict_strtoul :: "bytes \<Rightarrow> nat \<Rightarrow> nat \<Rightarrow> (int \<times> u32) outcome" where
  "strict_strtoul m cp base =
     bind_outcome (strlen m cp) (\<lambda>len.
       if len = 0 then Done (- EINVAL, 0)
       else bind_outcome (simple_strtoul m cp base) (\<lambda>(val, q).
         if q = cp then Done (- EINVAL, 0)
         else bind_outcome (rd m q) (\<lambda>c.
           if c = 0 \<or> len = q - cp + 1 \<and> c = chr CHR 0x0A then Done (0, val) else Done (- EINVAL, 0))))"

text \<open>The suffixes of \<open>ustrtoul\<close> and \<open>ustrtoull\<close>: the factor, and how far the end moves.\<close>

definition suffix_factor :: "u8 \<Rightarrow> nat" where
  "suffix_factor c =
     (if c = chr CHR ''G'' then 1024 * 1024 * 1024 else if c = chr CHR ''M'' then 1024 * 1024
      else if c = chr CHR ''K'' \<or> c = chr CHR ''k'' then 1024 else 1)"

definition apply_suffix :: "bytes \<Rightarrow> 'a::len word \<times> nat \<Rightarrow> ('a word \<times> nat) outcome" where
  "apply_suffix m r = (case r of (v, q) \<Rightarrow>
     bind_outcome (rd m q) (\<lambda>c.
       if suffix_factor c = 1 then Done (v, q)
       else bind_outcome (rd m (q + 1)) (\<lambda>c1.
         if c1 \<noteq> chr CHR ''i'' then Done (v * of_nat (suffix_factor c), q)
         else bind_outcome (rd m (q + 2)) (\<lambda>c2.
           Done (v * of_nat (suffix_factor c), if c2 = chr CHR ''B'' then q + 3 else q + 2)))))"

definition ustrtoul :: "bytes \<Rightarrow> nat \<Rightarrow> nat \<Rightarrow> (u32 \<times> nat) outcome" where
  "ustrtoul m cp base = bind_outcome (simple_strtoul m cp base) (apply_suffix m)"

definition ustrtoull :: "bytes \<Rightarrow> nat \<Rightarrow> nat \<Rightarrow> (u64 \<times> nat) outcome" where
  "ustrtoull m cp base = bind_outcome (simple_strtoull m cp base) (apply_suffix m)"

text \<open>The loop of \<open>trailing_strtoln\<close> with \<open>p = str + k\<close>.\<close>

fun trailing_loop :: "bytes \<Rightarrow> nat \<Rightarrow> nat \<Rightarrow> int outcome" where
  "trailing_loop m str 0 = Done (- 1)"
| "trailing_loop m str (Suc k) =
     bind_outcome (rd m (str + Suc k)) (\<lambda>c.
       if \<not> is_digit c then bind_outcome (simple_strtoul m (str + Suc k + 1) 10) (\<lambda>(v, _). Done (sint v))
       else trailing_loop m str k)"

definition trailing_strtoln :: "bytes \<Rightarrow> nat \<Rightarrow> nat option \<Rightarrow> int outcome" where
  "trailing_strtoln m str fin =
     bind_outcome (case fin of Some e \<Rightarrow> Done e | None \<Rightarrow> bind_outcome (strlen m str) (\<lambda>n. Done (str + n))) (\<lambda>e.
       if e = 0 then Fault
       else bind_outcome (rd m (e - 1)) (\<lambda>c.
         if is_digit c then trailing_loop m str (e - 1 - str) else Done (- 1)))"

definition trailing_strtol :: "bytes \<Rightarrow> nat \<Rightarrow> int outcome" where
  "trailing_strtol m str = trailing_strtoln m str None"

section \<open>Strings in memory\<close>

definition zstr :: "bytes \<Rightarrow> nat \<Rightarrow> bytes \<Rightarrow> bool" where
  "zstr m p s \<longleftrightarrow> 0 \<notin> set s \<and> (\<exists>r. drop p m = s @ 0 # r)"

lemma drop_Cons_nth: "drop p m = x # r \<Longrightarrow> p < length m \<and> m ! p = x \<and> drop (Suc p) m = r"
  by (metis Cons_nth_drop_Suc drop_eq_Nil2 linorder_not_less list.discI list.inject)

lemma scan_to_drop:
  "drop p m = xs @ y # r \<Longrightarrow> \<forall>x\<in>set xs. \<not> Q x \<Longrightarrow> Q y \<Longrightarrow> scan_to Q m p = Done (p + length xs)"
proof (induction xs arbitrary: p)
  case Nil
  then show ?case using drop_Cons_nth [of p m y r] by (simp add: scan_to.simps [of Q m p])
next
  case (Cons x xs)
  then have "p < length m \<and> m ! p = x \<and> drop (Suc p) m = xs @ y # r"
    using drop_Cons_nth [of p m x "xs @ y # r"] by simp
  with Cons show ?case by (simp add: scan_to.simps [of Q m p])
qed

lemma zstr_nth:
  assumes "zstr m p s" "i \<le> length s"
  shows "p + i < length m" "m ! (p + i) = (if i = length s then 0 else s ! i)"
proof -
  from assms(1) obtain r where r: "drop p m = s @ 0 # r" by (auto simp: zstr_def)
  then have l: "length m - p = length s + 1 + length r" by (metis add.commute add.left_commute length_Cons length_append length_drop plus_1_eq_Suc)
  then show lt: "p + i < length m" using assms(2) by linarith
  have "m ! (p + i) = drop p m ! i" using lt by (simp add: nth_drop)
  with r assms(2) show "m ! (p + i) = (if i = length s then 0 else s ! i)" by (simp add: nth_append)
qed

lemma zstr_Cons: "zstr m p (x # s) \<longleftrightarrow> x \<noteq> 0 \<and> p < length m \<and> m ! p = x \<and> zstr m (Suc p) s"
proof
  assume "zstr m p (x # s)"
  then show "x \<noteq> 0 \<and> p < length m \<and> m ! p = x \<and> zstr m (Suc p) s"
    using drop_Cons_nth [of p m x] by (auto simp: zstr_def)
next
  assume "x \<noteq> 0 \<and> p < length m \<and> m ! p = x \<and> zstr m (Suc p) s"
  then show "zstr m p (x # s)" by (auto simp: zstr_def simp flip: Cons_nth_drop_Suc)
qed

lemma zstr_Nil: "zstr m p [] \<longleftrightarrow> p < length m \<and> m ! p = 0"
  using drop_Cons_nth [of p m 0] by (auto simp: zstr_def simp flip: Cons_nth_drop_Suc)

lemma strlen_zstr: "zstr m p s \<Longrightarrow> strlen m p = Done (length s)"
  using scan_to_drop [of p m s 0 _ "\<lambda>b. b = 0"] by (auto simp: zstr_def strlen_def) (metis bind_outcome_simps(1) diff_add_inverse)

lemma strchr_zstr:
  assumes "zstr m p s" "c \<noteq> 0"
  shows "strchr m p c = Done (if c \<in> set s then Some (p + length (takeWhile (\<lambda>b. b \<noteq> c) s)) else None)"
proof (cases "c \<in> set s")
  case True
  then obtain xs ys where s: "s = xs @ c # ys" "c \<notin> set xs" using split_list_first by fastforce
  with assms(1) obtain r where r: "drop p m = xs @ c # ys @ 0 # r" and z: "0 \<notin> set xs" by (auto simp: zstr_def)
  have "scan_to (\<lambda>b. b = c \<or> b = 0) m p = Done (p + length xs)"
    using r s z by (intro scan_to_drop) auto
  moreover have "m ! (p + length xs) = c" using zstr_nth(2) [OF assms(1), of "length xs"] s by simp
  moreover have "takeWhile (\<lambda>b. b \<noteq> c) s = xs" using s by (subst s(1), subst takeWhile_append2) auto
  ultimately show ?thesis using True by (simp add: strchr_def)
next
  case False
  from assms(1) obtain r where r: "drop p m = s @ 0 # r" "0 \<notin> set s" by (auto simp: zstr_def)
  have "scan_to (\<lambda>b. b = c \<or> b = 0) m p = Done (p + length s)"
    using r False by (intro scan_to_drop) auto
  moreover have "m ! (p + length s) = 0" using zstr_nth(2) [OF assms(1), of "length s"] by simp
  ultimately show ?thesis using False assms(2) by (simp add: strchr_def)
qed

lemma sint_eq_0_iff8: "sint w = 0 \<longleftrightarrow> w = 0" for w :: u8
  by (rule signed_eq_0_iff)

lemma strcmp_zstr:
  "zstr m p a \<Longrightarrow> zstr m q b \<Longrightarrow> \<exists>r. strcmp m p q = Done r \<and> (r = 0 \<longleftrightarrow> a = b)"
proof (induction a arbitrary: p q b)
  case Nil
  have "\<exists>y. q < length m \<and> m ! q = y \<and> (y = 0 \<longleftrightarrow> b = [])"
    using Nil.prems(2) by (cases b) (auto simp: zstr_Cons zstr_Nil)
  with Nil.prems(1) show ?case by (auto simp: strcmp.simps [of m p q] zstr_Nil sint_eq_0_iff8)
next
  case (Cons x a)
  show ?case
  proof (cases "b \<noteq> [] \<and> hd b = x")
    case True
    then obtain b' where b: "b = x # b'" by (cases b) auto
    with Cons.prems Cons.IH [of "Suc p" "Suc q" b'] show ?thesis
      by (auto simp: strcmp.simps [of m p q] zstr_Cons sint_eq_0_iff8)
  next
    case False
    have "\<exists>y. q < length m \<and> m ! q = y \<and> y \<noteq> x"
      using False Cons.prems by (cases b) (auto simp: zstr_Cons zstr_Nil)
    with Cons.prems(1) have "\<exists>r. strcmp m p q = Done r \<and> r \<noteq> 0"
      by (auto simp: strcmp.simps [of m p q] zstr_Cons sint_eq_0_iff8 Let_def)
    moreover have "x # a \<noteq> b" using False by auto
    ultimately show ?thesis by auto
  qed
qed

section \<open>Copying\<close>

lemma overwrite_Cons: "d < length m \<Longrightarrow> overwrite (Suc d) xs (m[d := b]) = overwrite d (b # xs) m"
  by (simp add: overwrite_def take_Suc_conv_app_nth)

lemma overwrite_append:
  "d + length xs \<le> length m \<Longrightarrow> overwrite (d + length xs) ys (overwrite d xs m) = overwrite d (xs @ ys) m"
  by (simp add: overwrite_def ac_simps)

lemma drop_overwrite_later:
  "d + length xs \<le> s \<Longrightarrow> d + length xs \<le> length m \<Longrightarrow> drop s (overwrite d xs m) = drop s m"
  by (simp add: overwrite_def)

lemma take_drop_overwrite_before:
  assumes "s + n \<le> d" "d + length xs \<le> length m"
  shows "take n (drop s (overwrite d xs m)) = take n (drop s m)"
proof -
  have "take n (drop s (overwrite d xs m)) = take n (drop s (take d m))"
    using assms by (simp add: overwrite_def)
  also have "\<dots> = take n (drop s m)"
    using assms by (simp add: drop_take)
  finally show ?thesis .
qed

text \<open>Upwards, a copy is right when the target does not start inside the source.\<close>

lemma copy_up_overwrite:
  assumes "s + n \<le> length m" "d + n \<le> length m" "d \<le> s \<or> s + n \<le> d"
  shows "copy_up m d s n = Done (overwrite d (take n (drop s m)) m)"
  using assms
proof (induction n arbitrary: m d s)
  case 0
  then show ?case by (simp add: overwrite_def)
next
  case (Suc n)
  let ?m = "m[d := m ! s]"
  have same: "take n (drop (s + 1) ?m) = take n (drop (s + 1) m)"
    using Suc.prems by (auto simp: drop_update_cancel take_update_cancel drop_update_swap)
  have "copy_up m d s (Suc n) = copy_up ?m (d + 1) (s + 1) n"
    using Suc.prems by (simp add: rd_def wr_def)
  also have "\<dots> = Done (overwrite (d + 1) (take n (drop (s + 1) ?m)) ?m)"
    using Suc.prems by (intro Suc.IH) auto
  also have "\<dots> = Done (overwrite d (m ! s # take n (drop (s + 1) m)) m)"
    using Suc.prems by (simp only: same) (simp add: overwrite_Cons)
  also have "m ! s # take n (drop (s + 1) m) = take (Suc n) (drop s m)"
    using Suc.prems by (simp flip: Cons_nth_drop_Suc)
  finally show ?case .
qed

lemma copy_words_overwrite:
  assumes "s + 4 * n \<le> length m" "d + 4 * n \<le> length m" "d \<le> s \<or> s + 4 * n \<le> d"
  shows "copy_words m d s n = Done (overwrite d (take (4 * n) (drop s m)) m)"
  using assms
proof (induction n arbitrary: m d s)
  case 0
  then show ?case by (simp add: overwrite_def)
next
  case (Suc n)
  let ?w = "take 4 (drop s m)" and ?r = "take (4 * n) (drop (s + 4) m)"
  let ?m = "overwrite d ?w m"
  have l: "length ?w = 4" "length ?m = length m" using Suc.prems by (simp_all add: length_overwrite)
  have same: "take (4 * n) (drop (s + 4) ?m) = ?r"
  proof (cases "d \<le> s")
    case True
    then show ?thesis using Suc.prems l by (simp add: drop_overwrite_later)
  next
    case False
    then show ?thesis using Suc.prems l by (intro take_drop_overwrite_before) auto
  qed
  have "copy_words m d s (Suc n) = copy_words ?m (d + 4) (s + 4) n" using Suc.prems by simp
  also have "\<dots> = Done (overwrite (d + 4) (take (4 * n) (drop (s + 4) ?m)) ?m)"
    using Suc.prems l by (intro Suc.IH) auto
  also have "\<dots> = Done (overwrite d (?w @ ?r) m)"
    using overwrite_append [of d ?w m ?r] Suc.prems l by (simp only: same l(1)) simp
  also have "?w @ ?r = take (4 * Suc n) (drop s m)"
    by (simp add: take_add add.commute)
  finally show ?case .
qed

lemma memcpy_overwrite:
  assumes "src + n \<le> length m" "dest + n \<le> length m" "dest \<le> src \<or> src + n \<le> dest"
  shows "memcpy m dest src n = Done (overwrite dest (take n (drop src m)) m)"
proof (cases "src = dest")
  case True
  then have "overwrite dest (take n (drop src m)) m = m"
    using assms(1) by (simp add: overwrite_def) (metis add.commute append_take_drop_id drop_drop)
  with True show ?thesis by (simp add: memcpy_def)
next
  case False
  define j where "j = (if dest mod 4 = 0 \<and> src mod 4 = 0 then n div 4 else 0)"
  define k where "k = 4 * j"
  have k: "k \<le> n" by (simp add: k_def j_def)
  let ?m = "overwrite dest (take k (drop src m)) m"
  have l: "length (take k (drop src m)) = k" "length ?m = length m"
    using assms k by (simp_all add: length_overwrite)
  have words: "copy_words m dest src j = Done ?m"
    unfolding k_def using assms k by (intro copy_words_overwrite) (auto simp: k_def)
  have same: "take (n - k) (drop (src + k) ?m) = take (n - k) (drop (src + k) m)"
  proof (cases "dest \<le> src")
    case True
    then show ?thesis using assms k l by (simp add: drop_overwrite_later)
  next
    case False
    then show ?thesis using assms k l by (intro take_drop_overwrite_before) auto
  qed
  have "copy_up ?m (dest + k) (src + k) (n - k) = Done (overwrite (dest + k) (take (n - k) (drop (src + k) ?m)) ?m)"
    using assms k l by (intro copy_up_overwrite) auto
  also have "\<dots> = Done (overwrite dest (take k (drop src m) @ take (n - k) (drop (src + k) m)) m)"
    using overwrite_append [of dest "take k (drop src m)" m] assms k l by (simp only: same l(1))
  also have "take k (drop src m) @ take (n - k) (drop (src + k) m) = take n (drop src m)"
    using k by (metis add.commute drop_drop le_add_diff_inverse take_add)
  finally show ?thesis
    using False words by (simp add: memcpy_def j_def [symmetric] k_def Let_def)
qed

lemma overwrite_snoc:
  assumes "d + length xs < length m"
  shows "overwrite d xs (m[d + length xs := b]) = overwrite d (xs @ [b]) m"
proof -
  have "drop (d + length xs) (m[d + length xs := b]) = b # drop (Suc (d + length xs)) m"
    using assms by (simp add: drop_update_swap flip: Cons_nth_drop_Suc)
  then show ?thesis by (simp add: overwrite_def take_update_cancel)
qed

text \<open>Downwards, a copy is right when the source does not start inside the target.\<close>

lemma copy_down_overwrite:
  assumes "s + n \<le> length m" "d + n \<le> length m" "s \<le> d"
  shows "copy_down m d s n = Done (overwrite d (take n (drop s m)) m)"
  using assms
proof (induction n arbitrary: m)
  case 0
  then show ?case by (simp add: overwrite_def)
next
  case (Suc n)
  let ?m = "m[d + n := m ! (s + n)]"
  have same: "take n (drop s ?m) = take n (drop s m)"
    using Suc.prems by (simp add: drop_update_swap take_update_cancel)
  have "copy_down m d s (Suc n) = copy_down ?m d s n" using Suc.prems by (simp add: rd_def wr_def)
  also have "\<dots> = Done (overwrite d (take n (drop s m)) ?m)"
    using Suc.IH [of ?m] Suc.prems same by simp
  also have "overwrite d (take n (drop s m)) ?m = overwrite d (take n (drop s m) @ [m ! (s + n)]) m"
    using overwrite_snoc [of d "take n (drop s m)" m] Suc.prems by simp
  also have "take n (drop s m) @ [m ! (s + n)] = take (Suc n) (drop s m)"
    using Suc.prems by (simp add: take_Suc_conv_app_nth)
  finally show ?case .
qed

lemma fill_bytes_overwrite:
  "p + n \<le> length m \<Longrightarrow> fill_bytes m p b n = Done (overwrite p (replicate n b) m)"
proof (induction n arbitrary: m p)
  case (Suc n)
  have "fill_bytes m p b (Suc n) = fill_bytes (m[p := b]) (Suc p) b n" using Suc.prems by (simp add: wr_def)
  also have "\<dots> = Done (overwrite (Suc p) (replicate n b) (m[p := b]))" using Suc by simp
  also have "\<dots> = Done (overwrite p (replicate (Suc n) b) m)" using Suc.prems by (simp add: overwrite_Cons)
  finally show ?case .
qed (simp add: overwrite_def)

lemma fill_words_overwrite:
  assumes "put32le w = replicate 4 b" "p + 4 * n \<le> length m"
  shows "fill_words m p w n = Done (overwrite p (replicate (4 * n) b) m)"
  using assms(2)
proof (induction n arbitrary: m p)
  case (Suc n)
  let ?m = "overwrite p (replicate 4 b) m"
  have "fill_words m p w (Suc n) = fill_words ?m (p + 4) w n" using Suc.prems by (simp add: assms(1))
  also have "\<dots> = Done (overwrite (p + 4) (replicate (4 * n) b) ?m)"
    using Suc by (simp add: length_overwrite)
  also have "\<dots> = Done (overwrite p (replicate 4 b @ replicate (4 * n) b) m)"
    using overwrite_append [of p "replicate 4 b" m "replicate (4 * n) b"] Suc.prems by simp
  also have "replicate 4 b @ replicate (4 * n) b = replicate (4 * Suc n) b" by (simp add: replicate_add add.commute flip: replicate_add)
  finally show ?case .
qed (simp add: overwrite_def)

lemma repeat_byte4: "((\<lambda>cl. push_bit 8 cl OR a) ^^ 4) 0 = a OR push_bit 8 a OR push_bit 16 a OR push_bit 24 (a :: u32)"
proof -
  have n: "8 + 8 = (16::nat)" "8 + 16 = (24::nat)" by simp_all
  have "((\<lambda>cl. push_bit 8 cl OR a) ^^ 4) 0 = ((\<lambda>cl. push_bit 8 cl OR a) ^^ Suc (Suc (Suc (Suc 0)))) 0"
    by (simp only: numeral_eq_Suc pred_numeral_simps BitM.simps)
  also have "\<dots> = push_bit 8 (push_bit 8 (push_bit 8 a OR a) OR a) OR a"
    by (simp only: funpow.simps o_apply id_apply push_bit_of_0 or.left_neutral)
  also have "\<dots> = push_bit (8 + (8 + 8)) a OR (push_bit (8 + 8) a OR (push_bit 8 a OR a))"
    by (simp only: push_bit_or push_bit_push_bit or.assoc)
  also have "\<dots> = a OR push_bit 8 a OR push_bit 16 a OR push_bit 24 a"
    by (simp only: or.assoc or.commute or.left_commute n)
  finally show ?thesis .
qed

lemma fill_word_bytes: "put32le (fill_word c) = replicate 4 (word_of_int c)"
proof -
  define v :: u8 where "v = word_of_int c"
  have m8: "(0xff :: u32) = mask 8" by (simp add: mask_eq_exp_minus_1)
  have v: "(word_of_int c :: u32) AND mask 8 = ucast v"
    by (rule bit_word_eqI) (auto simp: v_def bit_simps)
  have "put32le (fill_word c) = [v, v, v, v]"
    unfolding fill_word_def m8 v repeat_byte4 put32le_def by (simp only: bytes_of_word32)
  then show ?thesis by (simp add: v_def numeral_eq_Suc)
qed

lemma memset_overwrite:
  assumes "s + n \<le> length m"
  shows "memset m s c n = Done (overwrite s (replicate n (word_of_int c)) m)"
proof -
  define j where "j = (if s mod 4 = 0 then n div 4 else 0)"
  have k: "4 * j \<le> n" by (simp add: j_def)
  let ?b = "word_of_int c :: u8"
  let ?m = "overwrite s (replicate (4 * j) ?b) m"
  have l: "length ?m = length m" using assms k by (simp add: length_overwrite)
  have "memset m s c n = fill_bytes ?m (s + 4 * j) ?b (n - 4 * j)"
    using fill_words_overwrite [OF fill_word_bytes, of s j m] assms k by (simp add: memset_def j_def [symmetric] Let_def)
  also have "\<dots> = Done (overwrite (s + 4 * j) (replicate (n - 4 * j) ?b) ?m)"
    using assms k l by (intro fill_bytes_overwrite) simp
  also have "\<dots> = Done (overwrite s (replicate (4 * j) ?b @ replicate (n - 4 * j) ?b) m)"
    using overwrite_append [of s "replicate (4 * j) ?b" m] assms k by simp
  also have "replicate (4 * j) ?b @ replicate (n - 4 * j) ?b = replicate n ?b"
    using k by (simp flip: replicate_add)
  finally show ?thesis .
qed

section \<open>Searching\<close>

lemma memcmp_loop_eq:
  assumes "p + n \<le> length m" "q + n \<le> length m"
  shows "\<exists>r. memcmp_loop m p q n = Done r \<and> (r = 0 \<longleftrightarrow> take n (drop p m) = take n (drop q m))"
  using assms
proof (induction n arbitrary: p q)
  case (Suc n)
  then have d: "take (Suc n) (drop p m) = m ! p # take n (drop (Suc p) m)"
    "take (Suc n) (drop q m) = m ! q # take n (drop (Suc q) m)"
    by (simp_all flip: Cons_nth_drop_Suc)
  obtain r where "memcmp_loop m (Suc p) (Suc q) n = Done r" "r = 0 \<longleftrightarrow> take n (drop (Suc p) m) = take n (drop (Suc q) m)"
    using Suc.IH [of "Suc p" "Suc q"] Suc.prems by auto
  with Suc.prems show ?case by (auto simp: rd_def d dest: word_uint_eqI)
qed simp

text \<open>\<open>strstr\<close> finds the first occurrence.\<close>

definition occurs_at :: "bytes \<Rightarrow> bytes \<Rightarrow> nat \<Rightarrow> bool" where
  "occurs_at a b k \<longleftrightarrow> k + length b \<le> length a \<and> take (length b) (drop k a) = b"

lemma zstr_take: "zstr m p a \<Longrightarrow> k + n \<le> length a \<Longrightarrow> take n (drop (p + k) m) = take n (drop k a) \<and> p + k + n \<le> length m"
proof -
  assume z: "zstr m p a" and k: "k + n \<le> length a"
  then obtain r where r: "drop p m = a @ 0 # r" by (auto simp: zstr_def)
  then have "drop (p + k) m = drop k (a @ 0 # r)" by (metis add.commute drop_drop)
  moreover have "p + length a < length m" using zstr_nth(1) [OF z, of "length a"] by simp
  ultimately show ?thesis using k by simp
qed

lemma strstr_loop_zstr:
  assumes "zstr m p a" "zstr m q b" "j + k = Suc (length a) - length b" "length b \<le> length a"
    "\<forall>i<j. \<not> occurs_at a b i"
  shows "\<exists>r. strstr_loop m (p + j) q (length b) k = Done r \<and>
     (case r of None \<Rightarrow> \<forall>i. \<not> occurs_at a b i
      | Some x \<Rightarrow> \<exists>i. x = p + i \<and> occurs_at a b i \<and> (\<forall>i'<i. \<not> occurs_at a b i'))"
  using assms(3,5)
proof (induction k arbitrary: j)
  case 0
  then have "\<forall>i. \<not> occurs_at a b i" using assms(4) by (auto simp: occurs_at_def not_less)
  then show ?case by simp
next
  case (Suc k)
  then have j: "j + length b \<le> length a" using assms(4) by linarith
  have b: "take (length b) (drop q m) = b" "q + length b \<le> length m"
    using zstr_take [OF assms(2), of 0 "length b"] by simp_all
  obtain r where r: "memcmp_loop m (p + j) q (length b) = Done r" "r = 0 \<longleftrightarrow> occurs_at a b j"
    using memcmp_loop_eq [of "p + j" "length b" m q] zstr_take [OF assms(1) j] b j by (auto simp: occurs_at_def)
  show ?case
  proof (cases "occurs_at a b j")
    case True
    with r Suc.prems show ?thesis by auto
  next
    case False
    then have "\<forall>i<Suc j. \<not> occurs_at a b i" using Suc.prems(2) by (auto simp: less_Suc_eq)
    with Suc.IH [of "Suc j"] Suc.prems r False show ?thesis by simp
  qed
qed

lemma strstr_zstr:
  assumes "zstr m p a" "zstr m q b"
  shows "\<exists>r. strstr m p q = Done r \<and>
       (case r of None \<Rightarrow> \<forall>i. \<not> occurs_at a b i
        | Some x \<Rightarrow> \<exists>i. x = p + i \<and> occurs_at a b i \<and> (\<forall>i'<i. \<not> occurs_at a b i'))"
proof (cases "b = [] \<or> length a < length b")
  case True
  then show ?thesis
    using assms by (auto simp: strstr_def strlen_zstr occurs_at_def)
next
  case False
  then show ?thesis
    using strstr_loop_zstr [OF assms, of 0 "Suc (length a) - length b"] assms by (simp add: strstr_def strlen_zstr not_less)
qed

section \<open>The interface of the searches\<close>

text \<open>
  What the callers of \<open>strchr\<close> and \<open>strstr\<close> rely on: on a terminated string the search ends, and it returns the
  first position that qualifies.
\<close>

locale first_search =
  fixes search :: "bytes \<Rightarrow> nat \<Rightarrow> nat option outcome"
    and occ :: "bytes \<Rightarrow> nat \<Rightarrow> bool"
  assumes finds: "zstr m p a \<Longrightarrow> \<exists>r. search m p = Done r \<and>
       (case r of None \<Rightarrow> \<forall>i. \<not> occ a i
        | Some x \<Rightarrow> \<exists>i. x = p + i \<and> occ a i \<and> (\<forall>i'<i. \<not> occ a i'))"
begin

lemma search_cases:
  assumes "zstr m p a"
  obtains "search m p = Done None" "\<forall>i. \<not> occ a i"
  | i where "search m p = Done (Some (p + i))" "occ a i" "\<forall>i'<i. \<not> occ a i'"
  using finds [OF assms] by (auto split: option.splits)

lemma search_none: "zstr m p a \<Longrightarrow> \<forall>i. \<not> occ a i \<Longrightarrow> search m p = Done None"
  by (erule search_cases) auto

lemma search_first: "zstr m p a \<Longrightarrow> occ a n \<Longrightarrow> \<forall>j<n. \<not> occ a j \<Longrightarrow> search m p = Done (Some (p + n))"
  by (erule search_cases) (auto dest: linorder_neqE_nat)

end

lemma strchr_search:
  assumes "c \<noteq> 0"
  shows "first_search (\<lambda>m p. strchr m p c) (\<lambda>a i. i < length a \<and> a ! i = c)"
proof
  fix m p a
  assume z: "zstr m p a"
  show "\<exists>r. strchr m p c = Done r \<and> (case r of None \<Rightarrow> \<forall>i. \<not> (i < length a \<and> a ! i = c)
      | Some x \<Rightarrow> \<exists>i. x = p + i \<and> (i < length a \<and> a ! i = c) \<and> (\<forall>i'<i. \<not> (i' < length a \<and> a ! i' = c)))"
  proof (cases "c \<in> set a")
    case True
    then obtain xs ys where s: "a = xs @ c # ys" "c \<notin> set xs" using split_list_first by fastforce
    have "takeWhile (\<lambda>b. b \<noteq> c) (xs @ c # ys) = xs" using s(2) by (subst takeWhile_append2) auto
    with s strchr_zstr [OF z assms] True have "strchr m p c = Done (Some (p + length xs))" by simp
    moreover have "length xs < length a \<and> a ! length xs = c" "\<forall>i<length xs. a ! i \<noteq> c"
      using s by (auto simp: nth_append)
    ultimately show ?thesis by auto
  next
    case False
    then show ?thesis using strchr_zstr [OF z assms] by (auto simp: in_set_conv_nth)
  qed
qed

text \<open>The same for a string taken apart at the place that is found.\<close>

lemma strchr_first:
  assumes "zstr m p (xs @ c # ys)" "c \<noteq> 0" "c \<notin> set xs"
  shows "strchr m p c = Done (Some (p + length xs))"
  by (rule first_search.search_first [OF strchr_search [OF assms(2)] assms(1)]) (use assms(3) in \<open>auto simp: nth_append\<close>)

lemma zstr_literal:
  assumes "0 \<notin> set (ascii lit)"
  shows "zstr (m @ ascii lit @ [0]) (length m) (ascii lit)"
  using assms by (auto simp: zstr_def)

lemma zstr_append: "zstr m p s \<Longrightarrow> zstr (m @ x) p s"
  using zstr_nth(1) [of m p s "length s"] by (auto simp: zstr_def)

lemma strstr_lit_search:
  assumes "0 \<notin> set (ascii lit)"
  shows "first_search (\<lambda>m p. strstr_lit m p lit) (\<lambda>a. occurs_at a (ascii lit))"
proof
  fix m p a
  assume z: "zstr m p a"
  show "\<exists>r. strstr_lit m p lit = Done r \<and> (case r of None \<Rightarrow> \<forall>i. \<not> occurs_at a (ascii lit) i
      | Some x \<Rightarrow> \<exists>i. x = p + i \<and> occurs_at a (ascii lit) i \<and> (\<forall>i'<i. \<not> occurs_at a (ascii lit) i'))"
    using strstr_zstr [OF zstr_append [OF z] zstr_literal [OF assms]] strlen_zstr [OF z]
    by (simp add: strstr_lit_def)
qed

lemma strstr_lit_first:
  assumes "zstr m p (xs @ ascii lit @ ys)" "0 \<notin> set (ascii lit)" "\<forall>j<length xs. \<not> occurs_at (xs @ ascii lit @ ys) (ascii lit) j"
  shows "strstr_lit m p lit = Done (Some (p + length xs))"
  by (rule first_search.search_first [OF strstr_lit_search [OF assms(2)] assms(1) _ assms(3)]) (simp add: occurs_at_def)

lemma check_bytes8_split:
  "check_bytes8 m p v (a + b) = bind_outcome (check_bytes8 m p v a) (\<lambda>r.
     case r of Some x \<Rightarrow> Done (Some x) | None \<Rightarrow> check_bytes8 m (p + a) v b)"
proof (induction a arbitrary: p)
  case (Suc a)
  have "Suc a + b = Suc (a + b)" by simp
  with Suc [of "Suc p"] show ?case by (cases "rd m p") (simp_all only: check_bytes8.simps bind_outcome_simps, auto)
qed simp

lemma check_bytes8_total:
  assumes "p + n \<le> length m"
  shows "\<exists>r. check_bytes8 m p v n = Done r \<and> (r = None \<longleftrightarrow> take n (drop p m) = replicate n v)"
  using assms
proof (induction n arbitrary: p)
  case (Suc n)
  have "take (Suc n) (drop p m) = m ! p # take n (drop (Suc p) m)"
    using Suc.prems by (simp flip: Cons_nth_drop_Suc)
  with Suc.IH [of "Suc p"] Suc.prems show ?case by (auto simp: rd_def)
qed simp

abbreviation join8 :: "bytes \<Rightarrow> u64" where
  "join8 bs \<equiv> foldr (\<lambda>b w. ucast b OR push_bit 8 w) bs 0"

lemma join8_low: "(ucast (ucast b OR push_bit 8 (w :: u64)) :: u8) = b" for b :: u8
  by (rule bit_word_eqI) (simp add: bit_simps)

lemma join8_high: "drop_bit 8 (ucast b OR push_bit 8 (w :: u64)) = take_bit 56 w" for b :: u8
  by (rule bit_word_eqI) (auto simp: bit_simps dest: bit_imp_le_length)

lemma join8_bits: "bit (join8 xs) i \<Longrightarrow> i < 8 * length xs"
proof (induction xs arbitrary: i)
  case (Cons b xs)
  from Cons.prems have "bit (ucast b :: u64) i \<or> 8 \<le> i \<and> bit (join8 xs) (i - 8)"
    by (auto simp: bit_simps)
  then show ?case
  proof
    assume "bit (ucast b :: u64) i"
    then show ?thesis by (auto simp: bit_simps dest: bit_imp_le_length)
  next
    assume "8 \<le> i \<and> bit (join8 xs) (i - 8)"
    with Cons.IH [of "i - 8"] show ?thesis by simp
  qed
qed simp

lemma join8_inject:
  "length xs = length ys \<Longrightarrow> length xs \<le> 8 \<Longrightarrow> join8 xs = join8 ys \<Longrightarrow> xs = ys"
proof (induction xs ys rule: list_induct2)
  case (Cons x xs y ys)
  have "take_bit 56 (join8 zs) = join8 zs" if "length zs \<le> 7" for zs
    using join8_bits [of zs] that by (intro bit_word_eqI) (force simp: bit_simps)
  then have low: "take_bit 56 (join8 xs) = join8 xs" "take_bit 56 (join8 ys) = join8 ys"
    using Cons by simp_all
  have e: "ucast x OR push_bit 8 (join8 xs) = ucast y OR push_bit 8 (join8 ys)" using Cons.prems(2) by simp
  have "join8 xs = join8 ys"
    using arg_cong [OF e, of "drop_bit 8"] unfolding join8_high low .
  moreover have "x = y" using arg_cong [OF e, of "ucast :: u64 \<Rightarrow> u8"] unfolding join8_low .
  ultimately show ?case using Cons by simp
qed simp

lemma spread8_join8: "spread8 v = join8 (replicate 8 v)"
proof -
  define a :: u64 where "a = ucast v"
  have n: "8 + 8 = (16::nat)" "8 + 16 = (24::nat)" "8 + 24 = (32::nat)" "8 + 32 = (40::nat)" "8 + 40 = (48::nat)"
    "8 + 48 = (56::nat)" "16 + 8 = (24::nat)" "32 + 8 = (40::nat)" "32 + 16 = (48::nat)" "32 + 24 = (56::nat)" "48 + 8 = (56::nat)" by simp_all
  have "join8 (replicate 8 v) = join8 [v, v, v, v, v, v, v, v]" by (simp add: numeral_eq_Suc)
  also have "\<dots> = a OR push_bit 8 a OR push_bit 16 a OR push_bit 24 a OR push_bit 32 a OR push_bit 40 a OR push_bit 48 a OR push_bit 56 a"
    by (simp only: foldr.simps o_apply id_apply a_def [symmetric] push_bit_or push_bit_push_bit push_bit_of_0 n or.assoc or.right_neutral)
  also have "\<dots> = spread8 v"
    by (simp only: spread8_def a_def [symmetric] Let_def push_bit_or push_bit_push_bit n or.assoc)
  finally show ?thesis ..
qed

lemma rd64le_spread8:
  assumes "p + 8 \<le> length m"
  shows "\<exists>w. rd64le m p = Done w \<and> (w = spread8 v \<longleftrightarrow> take 8 (drop p m) = replicate 8 v)"
  using assms join8_inject [of "take 8 (drop p m)" "replicate 8 v"]
  by (auto simp: rd64le_def spread8_join8)

lemma inv_words_bytewise:
  "p + 8 * k + rest \<le> length m \<Longrightarrow> inv_words m p v k rest = check_bytes8 m p v (8 * k + rest)"
proof (induction k arbitrary: p)
  case (Suc k)
  obtain w where w: "rd64le m p = Done w" "w = spread8 v \<longleftrightarrow> take 8 (drop p m) = replicate 8 v"
    using rd64le_spread8 [of p m v] Suc.prems by auto
  obtain r where r: "check_bytes8 m p v 8 = Done r" "r = None \<longleftrightarrow> take 8 (drop p m) = replicate 8 v"
    using check_bytes8_total [of p 8 m v] Suc.prems by auto
  have "8 * Suc k + rest = 8 + (8 * k + rest)" by simp
  then have "check_bytes8 m p v (8 * Suc k + rest) =
      (case r of Some x \<Rightarrow> Done (Some x) | None \<Rightarrow> check_bytes8 m (p + 8) v (8 * k + rest))"
    by (simp only: check_bytes8_split r(1) bind_outcome_simps)
  moreover have "inv_words m (p + 8) v k rest = check_bytes8 m (p + 8) v (8 * k + rest)"
    using Suc.prems by (intro Suc.IH) simp
  ultimately show ?case using w r by (auto split: option.splits)
qed simp

section \<open>Numbers\<close>

definition digits_number :: "nat \<Rightarrow> bytes \<Rightarrow> nat" where
  "digits_number base ds = foldl (\<lambda>r c. r * base + digit_value c) 0 ds"

lemma strto_value_number: "strto_value base ds = word_of_nat (digits_number base ds)"
proof (induction ds rule: rev_induct)
  case (snoc d ds)
  then show ?case by (simp add: strto_value_def digits_number_def)
qed (simp add: strto_value_def digits_number_def)

lemma simple_strto_digits:
  assumes "fixup_radix m cp base = Done (p, b)" "drop p m = ds @ c # r"
    "\<forall>d\<in>set ds. is_digit_of b d" "\<not> is_digit_of b c"
  shows "simple_strto m cp base = Done (word_of_nat (digits_number b ds), p + length ds)"
  using assms scan_to_drop [OF assms(2), of "\<lambda>c. \<not> is_digit_of b c"]
  by (simp add: simple_strto_def strto_value_number)

lemma fixup_radix_plain:
  assumes "cp < length m" "base = 8 \<or> base = 10"
  shows "fixup_radix m cp base = Done (cp, base)"
  using assms by (auto simp: fixup_radix_def rd_def)

lemma fixup_radix_0x:
  assumes "drop cp m = ascii ''0x'' @ r"
  shows "fixup_radix m cp 16 = Done (cp + 2, 16)" "drop (cp + 2) m = r"
proof -
  have d: "drop cp m = chr CHR ''0'' # chr CHR ''x'' # r" using assms by (simp add: ascii_def)
  note d0 = drop_Cons_nth [OF d]
  then have d1: "drop (Suc cp) m = chr CHR ''x'' # r" by blast
  note d1 = drop_Cons_nth [OF d1]
  have "to_lower (chr CHR ''x'') = chr CHR ''x''" by code_simp
  with d0 d1 show "fixup_radix m cp 16 = Done (cp + 2, 16)" by (simp add: fixup_radix_def rd_def)
  show "drop (cp + 2) m = r" using d1 by simp
qed

lemma simple_strtoul_digits:
  assumes "base = 16 \<and> pre = ascii ''0x'' \<or> (base = 8 \<or> base = 10) \<and> pre = []"
    and "drop cp m = pre @ ds @ c # r" "\<forall>d\<in>set ds. is_digit_of base d" "\<not> is_digit_of base c"
  shows "simple_strtoul m cp base = Done (word_of_nat (digits_number base ds), cp + length pre + length ds)"
  using assms(1)
proof
  assume b: "base = 16 \<and> pre = ascii ''0x''"
  then have "fixup_radix m cp base = Done (cp + 2, 16)" "drop (cp + 2) m = ds @ c # r"
    using fixup_radix_0x [of cp m "ds @ c # r"] assms(2) by simp_all
  from simple_strto_digits [OF this] assms(3,4) b show ?thesis by (simp add: simple_strtoul_def)
next
  assume b: "(base = 8 \<or> base = 10) \<and> pre = []"
  have "cp < length m" using assms(2) by (cases "cp < length m") auto
  then have f: "fixup_radix m cp base = Done (cp, base)" using b by (intro fixup_radix_plain) auto
  have "drop cp m = ds @ c # r" using assms(2) b by simp
  from simple_strto_digits [OF f this assms(3,4)] b show ?thesis by (simp add: simple_strtoul_def)
qed

section \<open>Properties\<close>

text \<open>\<open>memmove\<close> copies correctly for every position of the two areas, overlapping or not and aligned or not: the
  target area afterwards holds what the source area held, all other bytes are as before.  \<open>memset\<close> sets
  exactly its area.\<close>

theorem memmove_memset_correct:
  assumes "src + n \<le> length m" "dest + n \<le> length m"
  shows "memmove m dest src n = Done (overwrite dest (take n (drop src m)) m) \<and>
     memset m dest c n = Done (overwrite dest (replicate n (word_of_int c)) m)"
  using assms by (simp add: memmove_def memcpy_overwrite copy_down_overwrite memset_overwrite)

theorem memmove_memset_correct_witness:
  "memmove [1, 2, 3, 4, 5, 6] 2 0 4 = Done (overwrite 2 (take 4 (drop 0 [1, 2, 3, 4, 5, 6])) [1, 2, 3, 4, 5, 6]) \<and>
     memset [1, 2, 3, 4, 5, 6] 2 7 4 = Done (overwrite 2 (replicate 4 (word_of_int 7)) [1, 2, 3, 4, 5, 6])"
  by (rule memmove_memset_correct) simp_all

text \<open>\<open>strstr\<close> on two strings returns the first position at which the second occurs in the first, and NULL exactly
  when it does not occur; \<open>strcmp\<close> returns 0 exactly for equal strings.\<close>

theorem strstr_strcmp_correct:
  assumes "zstr m p a" "zstr m q b"
  shows "(\<exists>r. strstr m p q = Done r \<and>
       (case r of None \<Rightarrow> \<forall>i. \<not> occurs_at a b i
        | Some x \<Rightarrow> \<exists>i. x = p + i \<and> occurs_at a b i \<and> (\<forall>i'<i. \<not> occurs_at a b i'))) \<and>
     (\<exists>r. strcmp m p q = Done r \<and> (r = 0 \<longleftrightarrow> a = b))"
  using strstr_zstr [OF assms] strcmp_zstr [OF assms] by simp

theorem strstr_strcmp_correct_witness:
  "strstr [5, 6, 7, 0, 6, 7, 0] 0 4 = Done (Some 1) \<and> (\<exists>r. strcmp [5, 6, 7, 0, 6, 7, 0] 0 4 = Done r \<and> r \<noteq> 0)"
proof -
  have "zstr [5, 6, 7, 0, 6, 7, 0] 0 [5, 6, 7]" "zstr [5, 6, 7, 0, 6, 7, 0] 4 [6, 7]" by (simp_all add: zstr_def)
  note w = strstr_strcmp_correct [OF this]
  have o: "occurs_at [5, 6, 7] [6, 7] (i :: nat) \<longleftrightarrow> i = 1" for i
    by (cases i) (auto simp: occurs_at_def)
  from w show ?thesis by (auto simp: o split: option.splits)
qed

text \<open>\<open>memchr_inv\<close>, which compares eight bytes at a time from an aligned address on, gives the same answer as
  comparing byte by byte, for every start address and length.\<close>

theorem memchr_inv_equals_bytewise:
  assumes "start + n \<le> length m"
  shows "memchr_inv m start c n = check_bytes8 m start (word_of_int c) n"
proof (cases "n \<le> 16")
  case True
  then show ?thesis by (simp add: memchr_inv_def)
next
  case False
  define k where "k = (if start mod 8 = 0 then 0 else 8 - start mod 8)"
  have "k \<le> 8" by (simp add: k_def)
  then have k: "k \<le> n" using False by simp
  have "inv_words m (start + k) v ((n - k) div 8) ((n - k) mod 8) = check_bytes8 m (start + k) v (n - k)" for v
    using inv_words_bytewise [of "start + k" "(n - k) div 8" "(n - k) mod 8" m v] assms k by simp
  moreover have "n = k + (n - k)" using k by simp
  ultimately show ?thesis
    using False check_bytes8_split [of m start "word_of_int c" k "n - k"] by (simp add: memchr_inv_def k_def [symmetric] Let_def)
qed

theorem memchr_inv_equals_bytewise_witness:
  "memchr_inv (replicate 30 9) 3 9 20 = check_bytes8 (replicate 30 9) 3 (word_of_int 9) 20"
  by (rule memchr_inv_equals_bytewise) simp

text \<open>\<open>simple_strtoul\<close> in base 8 or 10, or in base 16 behind \<open>0x\<close>, reads the longest run of digits and returns its
  value modulo \<open>2\<^sup>3\<^sup>2\<close> together with the address of the first byte that is no digit.\<close>

theorem simple_strtoul_value:
  assumes "base = 16 \<and> pre = ascii ''0x'' \<or> (base = 8 \<or> base = 10) \<and> pre = []"
    and "drop cp m = pre @ ds @ c # r" "\<forall>d\<in>set ds. is_digit_of base d" "\<not> is_digit_of base c"
  shows "simple_strtoul m cp base = Done (word_of_nat (digits_number base ds), cp + length pre + length ds)"
  using assms by (rule simple_strtoul_digits)

theorem simple_strtoul_value_witness:
  "simple_strtoul (ascii ''0x1fK'') 0 16 = Done (word_of_nat (digits_number 16 (ascii ''1f'')), 0 + length (ascii ''0x'') + length (ascii ''1f''))"
proof (rule simple_strtoul_value)
  show "(16 :: nat) = 16 \<and> ascii ''0x'' = ascii ''0x'' \<or> ((16 :: nat) = 8 \<or> (16 :: nat) = 10) \<and> ascii ''0x'' = []" by simp
  show "drop 0 (ascii ''0x1fK'') = ascii ''0x'' @ ascii ''1f'' @ of_char CHR ''K'' # []" by (simp add: ascii_def)
  show "\<forall>d\<in>set (ascii ''1f''). is_digit_of 16 d" by code_simp
  show "\<not> is_digit_of 16 (of_char CHR ''K'')" by code_simp
qed

section \<open>Corner cases of the code\<close>

text \<open>The difference in \<open>strcmp\<close> is cut to a \<open>signed char\<close>: a string can be found smaller than one it exceeds.\<close>

lemma strcmp_wrong_order: "strcmp [0xff, 0, 0x01, 0] 0 2 = Done (- 2)"
  by (simp add: strcmp.simps)

text \<open>A string of digits only has no trailing number for \<open>trailing_strtol\<close>.\<close>

lemma trailing_all_digits: "trailing_strtol (ascii ''123'' @ [0]) 0 = Done (- 1)"
  by code_simp

text \<open>\<open>trailing_strtoln\<close> reads on behind the end it was given.\<close>

lemma trailing_reads_past_end: "trailing_strtoln (ascii ''ab1234'' @ [0]) 0 (Some 4) = Done 1234"
  by code_simp

end
