(* ===== verification/RkParm.thy ===== *)
theory RkParm
  imports UbString CText
begin

text \<open>
  The Rockchip parameter partition table of U-Boot, \<open>disk/part_rkparm.c\<close>: the text block that names the
  partitions of the flash, read with the string routines of \<open>UbString\<close> from the buffer it was loaded into.
  Pointers are indices into that buffer.  The calls that change the environment are recorded, the
  results of the allocator and of the block device are inputs.
\<close>

section \<open>Data\<close>

definition RK_PARAM_OFFSET :: u32 where "RK_PARAM_OFFSET = 0x2000"
definition MAX_PARAM_SIZE :: nat where "MAX_PARAM_SIZE = 1024 * 64"
definition PART_NAME_LEN :: nat where "PART_NAME_LEN = 32"
definition IF_TYPE_RKNAND :: int where "IF_TYPE_RKNAND = 12"

record rkparm_part =
  part_name :: bytes
  part_start :: u32
  part_size :: u32

record blk_desc =
  if_type :: int
  devnum :: int
  lba :: u32
  blksz :: u32

datatype env_call =
    Update_filter string bytes string
  | Env_set string bytes

record parm_state =
  parts_head :: "rkparm_part list"
  dev_num :: int
  env_calls :: "env_call list"

record parm_world =
  memalign_ok :: bool
  calloc_ok :: bool
  malloc_ok :: "nat \<Rightarrow> bool"
  blk_dread :: "u32 \<Rightarrow> nat \<Rightarrow> bytes option"

definition parm_initial :: parm_state where
  "parm_initial = \<lparr>parts_head = [], dev_num = - 1, env_calls = []\<rparr>"

section \<open>Exporting the table to the environment\<close>

definition rkparm_export_part_env :: "parm_world \<Rightarrow> bytes \<Rightarrow> nat \<Rightarrow> string \<Rightarrow> string \<Rightarrow> bool \<Rightarrow> parm_state \<Rightarrow> parm_state outcome" where
  "rkparm_export_part_env w m cmdline token varname strip_token s =
     bind_outcome (strstr_lit m cmdline token) (\<lambda>found.
       case found of None \<Rightarrow> Done s
       | Some q \<Rightarrow>
         (let part_env = (if strip_token then q + length token else q)
          in bind_outcome (scan_to (\<lambda>b. b = 0 \<or> is_space b) m part_env) (\<lambda>e.
             let buf = filter is_print (take (e - part_env) (drop part_env m))
             in if buf = [] then Done s
                else if \<not> calloc_ok w then Done s
                else Done (s\<lparr>env_calls := env_calls s @ [Env_set varname buf]\<rparr>))))"

section \<open>Parsing the table\<close>

text \<open>
  One turn of the loop: the partition and the next comma, or the end of the loop.  The terminating NUL of a
  name of 32 bytes lands outside the name: \<open>Fault\<close>.
\<close>

definition parm_numbers :: "bytes \<Rightarrow> nat \<Rightarrow> (u32 \<times> u32 \<times> nat) outcome" where
  "parm_numbers m nx =
     bind_outcome (rd m (nx + 1)) (\<lambda>c.
     bind_outcome (if c = of_char CHR ''-'' then Done (- 1, nx + 2) else simple_strtoul m (nx + 1) 16) (\<lambda>(sz, p1).
     bind_outcome (simple_strtoul m (p1 + 1) 16) (\<lambda>(start, p2). Done (sz, start, p2 + 1))))"

definition parm_entry :: "parm_world \<Rightarrow> blk_desc \<Rightarrow> bytes \<Rightarrow> nat \<Rightarrow> nat \<Rightarrow> (rkparm_part \<times> nat option) option outcome" where
  "parm_entry w dev m k nx =
     bind_outcome (parm_numbers m nx) (\<lambda>(sz, start, name).
     bind_outcome (strchr m name (of_char CHR '')'')) (\<lambda>pend.
       case pend of None \<Rightarrow> Done None
       | Some e \<Rightarrow>
         if \<not> malloc_ok w k then Done None
         else
           (let len = min (e - name) PART_NAME_LEN;
                st = start + (if if_type dev \<noteq> IF_TYPE_RKNAND then RK_PARAM_OFFSET else 0)
            in if len = PART_NAME_LEN then Fault
               else bind_outcome (strchr m name (of_char CHR '','')) (\<lambda>comma.
                 Done (Some (\<lparr>part_name = take len (drop name m), part_start = st,
                   part_size = (if sz = - 1 then lba dev - st else sz)\<rparr>, comma))))))"

lemma scan_to_le: "scan_to Q m p = Done q \<Longrightarrow> p \<le> q \<and> q < length m"
proof (induction "length m - p" arbitrary: p)
  case 0
  then show ?case by (simp add: scan_to.simps [of Q m p])
next
  case (Suc n)
  then have "Q (m ! p) \<and> q = p \<and> p < length m \<or> scan_to Q m (p + 1) = Done q"
    by (auto simp: scan_to.simps [of Q m p] split: if_splits)
  moreover have "n = length m - (p + 1)" using Suc.hyps(2) by simp
  ultimately show ?case using Suc.hyps(1) [of "p + 1"] by auto
qed

lemma strchr_le: "strchr m p c = Done (Some q) \<Longrightarrow> p \<le> q \<and> q < length m"
  by (auto simp: strchr_def bind_outcome_Done_iff split: if_splits dest: scan_to_le)

lemma fixup_radix_le: "fixup_radix m cp b = Done (p, b1) \<Longrightarrow> cp \<le> p"
  by (auto simp: fixup_radix_def bind_outcome_Done_iff Let_def)

lemma simple_strtoul_le:
  assumes "simple_strtoul m cp b = Done (v, q)"
  shows "cp \<le> q"
proof -
  from assms obtain p b1 where "fixup_radix m cp b = Done (p, b1)" "scan_to (\<lambda>c. \<not> is_digit_of b1 c) m p = Done q"
    by (auto simp: simple_strtoul_def simple_strto_def bind_outcome_Done_iff)
  then show ?thesis using fixup_radix_le scan_to_le by fastforce
qed

lemma parm_numbers_le:
  assumes "parm_numbers m nx = Done (sz, st, name)"
  shows "nx < name"
proof -
  from assms obtain c x where c: "(if c = (of_char CHR ''-'' :: u8) then Done (- 1, nx + 2) else simple_strtoul m (nx + 1) 16) = Done x"
    "(case x of (z, p1) \<Rightarrow> bind_outcome (simple_strtoul m (p1 + 1) 16) (\<lambda>(start, p2). Done (z, start, p2 + 1))) = Done (sz, st, name)"
    unfolding parm_numbers_def bind_outcome_Done_iff by blast
  obtain z p1 where x: "x = (z, p1)" by (cases x)
  have "nx < p1" using c(1) simple_strtoul_le [of m "nx + 1" 16 z p1] x by (auto split: if_splits)
  moreover from c(2) x obtain p2 where "simple_strtoul m (p1 + 1) 16 = Done (st, p2)" "name = p2 + 1"
    by (auto simp: bind_outcome_Done_iff)
  ultimately show ?thesis using simple_strtoul_le [of m "p1 + 1" 16 st p2] by simp
qed

lemma parm_entry_progress:
  assumes "parm_entry w dev m k nx = Done (Some (part, Some nx1))"
  shows "nx < nx1 \<and> nx1 < length m"
proof -
  from assms obtain r where r: "parm_numbers m nx = Done r"
    by (auto simp: parm_entry_def bind_outcome_Done_iff)
  obtain sz st name where n: "r = (sz, st, name)" by (cases r)
  from assms r n obtain pend where p: "strchr m name (of_char CHR '')'') = Done pend"
    by (auto simp: parm_entry_def bind_outcome_Done_iff)
  from assms have "strchr m name (of_char CHR '','') = Done (Some nx1)"
    by (cases pend) (auto simp: parm_entry_def r n p [simplified] bind_outcome_Done_iff Let_def split: if_splits)
  with parm_numbers_le r n strchr_le show ?thesis by fastforce
qed

function parse_parts :: "parm_world \<Rightarrow> blk_desc \<Rightarrow> bytes \<Rightarrow> rkparm_part list \<Rightarrow> nat option \<Rightarrow> rkparm_part list outcome" where
  "parse_parts w dev m ps nxt =
     (case nxt of None \<Rightarrow> Done ps
      | Some nx \<Rightarrow>
        (case parm_entry w dev m (length ps) nx of
           Done None \<Rightarrow> Done ps
         | Done (Some (part, nx1)) \<Rightarrow> parse_parts w dev m (ps @ [part]) nx1
         | Fatal e \<Rightarrow> Fatal e
         | Fault \<Rightarrow> Fault))"
  by pat_completeness auto
termination
proof (relation "measure (\<lambda>(w, dev, m, ps, nxt). case nxt of None \<Rightarrow> 0 | Some n \<Rightarrow> Suc (length m - n))", goal_cases)
  case (2 w dev m ps nxt nx r x part nx1)
  then have e: "parm_entry w dev m (length ps) nx = Done (Some (part, nx1))" by simp
  show ?case
  proof (cases nx1)
    case (Some n)
    with parm_entry_progress [of w dev m "length ps" nx part n] e 2 show ?thesis by (auto intro: diff_less_mono2)
  qed (use 2 in simp)
qed simp

declare parse_parts.simps [simp del]

definition dev_code :: "blk_desc \<Rightarrow> int" where
  "dev_code dev = if_type dev * 256 + devnum dev"

definition rkparm_param_parse :: "parm_world \<Rightarrow> blk_desc \<Rightarrow> bytes \<Rightarrow> nat \<Rightarrow> parm_state \<Rightarrow> (int \<times> parm_state) outcome" where
  "rkparm_param_parse w dev m param s =
     bind_outcome (strstr_lit m param ''CMDLINE:'') (\<lambda>cmd.
     case cmd of None \<Rightarrow> Done (- EINVAL, s)
     | Some cmdline \<Rightarrow>
       bind_outcome (strstr_lit m cmdline ''mtdparts'') (\<lambda>blk.
       case blk of None \<Rightarrow> Done (- EINVAL, s)
       | Some blkdev_parts \<Rightarrow>
         bind_outcome (strchr m blkdev_parts (of_char CHR '':'')) (\<lambda>nxt.
         bind_outcome (strstr_lit m cmdline [CHR 0x0A]) (\<lambda>cmdline_end.
         let m1 = (case cmdline_end of None \<Rightarrow> m | Some e \<Rightarrow> m[e := 0]);
             args = cmdline + length ''CMDLINE:''
         in bind_outcome (strlen m1 args) (\<lambda>n.
            let s1 = s\<lparr>env_calls := env_calls s @ [Update_filter ''bootargs'' (take n (drop args m1)) ''initrd='']\<rparr>
            in bind_outcome (rkparm_export_part_env w m1 cmdline ''mtdparts='' ''mtdparts'' True s1) (\<lambda>s2.
               bind_outcome (rkparm_export_part_env w m1 cmdline ''blkdevparts='' ''blkdevparts'' True s2) (\<lambda>s3.
               bind_outcome (parse_parts w dev m1 [] nxt) (\<lambda>ps.
                 Done (0, s3\<lparr>parts_head := ps, dev_num := dev_code dev\<rparr>)))))))))"

definition rkparm_init_param :: "parm_world \<Rightarrow> blk_desc \<Rightarrow> parm_state \<Rightarrow> (int \<times> parm_state) outcome" where
  "rkparm_init_param w dev s =
     (if \<not> memalign_ok w then Done (- ENOMEM, s)
      else (case blk_dread w (if if_type dev \<noteq> IF_TYPE_RKNAND then RK_PARAM_OFFSET else 0) (MAX_PARAM_SIZE div 512) of
          None \<Rightarrow> Done (- EINVAL, s)
        | Some m \<Rightarrow> rkparm_param_parse w dev m 8 s))"

section \<open>The partition driver\<close>

definition stale :: "blk_desc \<Rightarrow> parm_state \<Rightarrow> bool" where
  "stale dev s \<longleftrightarrow> parts_head s = [] \<or> dev_num s \<noteq> dev_code dev"

definition refresh :: "parm_world \<Rightarrow> blk_desc \<Rightarrow> parm_state \<Rightarrow> (int \<times> parm_state) outcome" where
  "refresh w dev s = (if stale dev s then rkparm_init_param w dev s else Done (0, s))"

text \<open>The lines \<open>part_print_rkparm\<close> prints, or nothing but an error message.\<close>

definition part_print_rkparm :: "parm_world \<Rightarrow> blk_desc \<Rightarrow> parm_state \<Rightarrow> ((nat \<times> u32 \<times> u32 \<times> bytes) list option \<times> parm_state) outcome" where
  "part_print_rkparm w dev s =
     bind_outcome (refresh w dev s) (\<lambda>(ret, s1).
       Done (if ret \<noteq> 0 then None
         else Some (map (\<lambda>i. (i + 1, part_start (parts_head s1 ! i), part_size (parts_head s1 ! i), part_name (parts_head s1 ! i)))
           [0..<length (parts_head s1)]), s1))"

record disk_partition =
  dp_start :: u32
  dp_size :: u32
  dp_blksz :: u32
  dp_name :: bytes
  dp_type :: bytes
  dp_bootable :: bool

definition part_get_info_rkparm :: "parm_world \<Rightarrow> blk_desc \<Rightarrow> int \<Rightarrow> parm_state \<Rightarrow> (int \<times> disk_partition option \<times> parm_state) outcome" where
  "part_get_info_rkparm w dev idx s =
     (if idx < 1 then Done (- EINVAL, None, s)
      else bind_outcome (refresh w dev s) (\<lambda>(ret, s1).
        if ret \<noteq> 0 then Done (- 1, None, s1)
        else if int (length (parts_head s1)) < idx then Done (- EINVAL, None, s1)
        else (let p = parts_head s1 ! nat (idx - 1)
              in Done (0, Some \<lparr>dp_start = part_start p, dp_size = part_size p, dp_blksz = blksz dev,
                   dp_name = part_name p, dp_type = ascii ''U-Boot'', dp_bootable = False\<rparr>, s1))))"

definition part_test_rkparm :: "parm_world \<Rightarrow> blk_desc \<Rightarrow> parm_state \<Rightarrow> (int \<times> parm_state) outcome" where
  "part_test_rkparm w dev s =
     bind_outcome (refresh w dev s) (\<lambda>(ret, s1). Done (if ret \<noteq> 0 then - 1 else 0, s1))"

section \<open>The text of a table\<close>

text \<open>
  An entry of the table: its size, or the rest of the device, its first sector and its name; and the text the
  packing tools write for it.
\<close>

type_synonym table_entry = "u32 option \<times> u32 \<times> bytes"

definition hex32 :: "u32 \<Rightarrow> bytes" where
  "hex32 v = ascii ''0x'' @ ascii (print_08X v)"

fun entry_text :: "table_entry \<Rightarrow> bytes" where
  "entry_text (sz, st, nm) =
     (case sz of None \<Rightarrow> ascii ''-'' | Some v \<Rightarrow> hex32 v) @ ascii ''@'' @ hex32 st @ ascii ''('' @ nm @ ascii '')''"

definition tail_text :: "table_entry list \<Rightarrow> bytes" where
  "tail_text es = concat (map (\<lambda>e. ascii '','' @ entry_text e) es)"

fun entry_ok :: "table_entry \<Rightarrow> bool" where
  "entry_ok (sz, st, nm) \<longleftrightarrow> length nm < PART_NAME_LEN \<and> 0 \<notin> set nm \<and> of_char CHR '')'' \<notin> set nm \<and> of_char CHR '','' \<notin> set nm \<and> of_char (CHR 0x0A) \<notin> set nm"

fun part_of :: "blk_desc \<Rightarrow> table_entry \<Rightarrow> rkparm_part" where
  "part_of dev (sz, st, nm) =
     (let start = st + (if if_type dev \<noteq> IF_TYPE_RKNAND then RK_PARAM_OFFSET else 0)
      in \<lparr>part_name = nm, part_start = start,
          part_size = (case sz of None \<Rightarrow> lba dev - start | Some v \<Rightarrow> if v = - 1 then lba dev - start else v)\<rparr>)"

lemma hex_digit_bytes:
  "list_all (\<lambda>d. is_digit_of 16 (of_char (hexchar_up d)) \<and> digit_value (of_char (hexchar_up d)) = d) [0..<16]"
  by code_simp

lemma hex_digit_byte: "d < 16 \<Longrightarrow> is_digit_of 16 (of_char (hexchar_up d)) \<and> digit_value (of_char (hexchar_up d)) = d"
  using hex_digit_bytes by (simp add: list_all_iff)

lemma digits_number_hex:
  "\<forall>d\<in>set ds. d < 16 \<Longrightarrow> digits_number 16 (map (\<lambda>d. of_char (hexchar_up d)) ds) = number 16 ds"
  unfolding digits_number_def number_def
  by (induction ds rule: rev_induct) (simp_all add: hex_digit_byte mult.commute)

lemma hex32_digits:
  "\<forall>c\<in>set (ascii (print_08X v)). is_digit_of 16 c" "digits_number 16 (ascii (print_08X v)) = unat v"
proof -
  let ?ds = "hex_digits 8 (unat v)"
  have b: "\<forall>d\<in>set ?ds. d < 16" using hex_digits_bound by blast
  have a: "ascii (print_08X v) = map (\<lambda>d. of_char (hexchar_up d)) ?ds" by (simp add: ascii_def print_08X_def)
  show "\<forall>c\<in>set (ascii (print_08X v)). is_digit_of 16 c" using b hex_digit_byte by (auto simp: a)
  have "unat v < 16 ^ 8" using unsigned_less [of v] by simp
  then have "number 16 ?ds = unat v" by (rule number_hex_digits)
  with digits_number_hex [OF b] show "digits_number 16 (ascii (print_08X v)) = unat v" by (simp only: a)
qed

lemma strtoul_hex32:
  assumes "drop p m = hex32 v @ c # r" "\<not> is_digit_of 16 c"
  shows "simple_strtoul m p 16 = Done (v, p + 10)"
  using simple_strtoul_digits [of 16 "ascii ''0x''" p m "ascii (print_08X v)" c r] assms hex32_digits [of v]
  by (simp add: hex32_def)

lemma separators_no_digit: "\<not> is_digit_of 16 (of_char CHR ''@'')" "\<not> is_digit_of 16 (of_char CHR ''('')"
  by code_simp+

lemma drop_skip: "drop p m = xs @ r \<Longrightarrow> drop (p + length xs) m = r"
  by (metis add.commute append_eq_conv_conj drop_drop)

lemma length_hex32 [simp]: "length (hex32 v) = 10"
  by (simp add: hex32_def)

lemma parm_numbers_assoc:
  "parm_numbers m nx =
     bind_outcome (bind_outcome (rd m (nx + 1)) (\<lambda>c. if c = of_char CHR ''-'' then Done (- 1, nx + 2) else simple_strtoul m (nx + 1) 16))
       (\<lambda>(sz, p1). bind_outcome (simple_strtoul m (p1 + 1) 16) (\<lambda>(start, p2). Done (sz, start, p2 + 1)))"
  by (cases "rd m (nx + 1)") (simp_all add: parm_numbers_def)

lemma parm_numbers_text:
  assumes "drop nx m = c # (case sz of None \<Rightarrow> ascii ''-'' | Some v \<Rightarrow> hex32 v) @ ascii ''@'' @ hex32 st @ ascii ''('' @ r"
  shows "\<exists>name. parm_numbers m nx = Done (case sz of None \<Rightarrow> - 1 | Some v \<Rightarrow> v, st, name) \<and> drop name m = r \<and>
     name = nx + 1 + (case sz of None \<Rightarrow> 1 | Some _ \<Rightarrow> 10) + 12"
proof -
  let ?S = "case sz of None \<Rightarrow> ascii ''-'' | Some v \<Rightarrow> hex32 v"
  let ?T = "ascii ''@'' @ hex32 st @ ascii ''('' @ r"
  have d1: "drop (nx + 1) m = ?S @ ?T" using drop_Cons_nth [of nx m c] assms by simp
  then have d2: "drop (nx + 1 + length ?S) m = ?T" by (rule drop_skip)
  have l: "length ?S = (case sz of None \<Rightarrow> 1 | Some _ \<Rightarrow> 10)" by (simp split: option.split)
  have d3: "drop (nx + 1 + length ?S + 1) m = hex32 st @ of_char CHR ''('' # r"
    using drop_skip [of "nx + 1 + length ?S" m "ascii ''@''"] d2 by (simp add: ascii_def)
  have sz: "bind_outcome (rd m (nx + 1)) (\<lambda>c. if c = of_char CHR ''-'' then Done (- 1, nx + 2) else simple_strtoul m (nx + 1) 16)
      = Done (case sz of None \<Rightarrow> - 1 | Some v \<Rightarrow> v, nx + 1 + length ?S)"
  proof (cases sz)
    case None
    then have "drop (nx + 1) m = of_char CHR ''-'' # ?T" using d1 by (simp add: ascii_def)
    from drop_Cons_nth [OF this] None show ?thesis by (simp add: rd_def)
  next
    case (Some v)
    have "drop (nx + 1) m = hex32 v @ of_char CHR ''@'' # hex32 st @ ascii ''('' @ r"
      using d1 Some by (simp add: ascii_def)
    from strtoul_hex32 [OF this separators_no_digit(1)] have st: "simple_strtoul m (nx + 1) 16 = Done (v, nx + 11)" by simp
    have "drop (nx + 1) m = of_char CHR ''0'' # drop 1 (hex32 v) @ ?T"
      using d1 Some by (simp add: hex32_def ascii_def)
    from drop_Cons_nth [OF this] Some st show ?thesis by (simp add: rd_def)
  qed
  have "simple_strtoul m (nx + 1 + length ?S + 1) 16 = Done (st, nx + 1 + length ?S + 11)"
    using strtoul_hex32 [OF d3 separators_no_digit(2)] by simp
  moreover have "drop (nx + 1 + length ?S + 1 + 11) m = r"
    using drop_skip [of "nx + 1 + length ?S + 1" m "hex32 st @ ascii ''(''" r] d3 by (simp add: ascii_def)
  ultimately show ?thesis
    using sz by (simp add: parm_numbers_assoc l [symmetric])
qed

lemma ends_no_digit: "\<not> is_digit_of 16 0" "\<not> is_digit_of 16 (of_char (CHR 0x0A))"
  by code_simp+

lemma hex32_chars: "0 \<notin> set (hex32 v)" "of_char (CHR 0x0A) \<notin> set (hex32 v)"
proof -
  have "0 \<notin> set (ascii (print_08X v))" "of_char (CHR 0x0A) \<notin> set (ascii (print_08X v))"
    using hex32_digits(1) [of v] ends_no_digit by blast+
  then show "0 \<notin> set (hex32 v)" "of_char (CHR 0x0A) \<notin> set (hex32 v)" by (simp_all add: hex32_def ascii_def)
qed

lemma entry_text_chars:
  assumes "entry_ok e"
  shows "0 \<notin> set (entry_text e)" "of_char (CHR 0x0A) \<notin> set (entry_text e)"
proof -
  obtain sz st nm where e: "e = (sz, st, nm)" by (cases e)
  show "0 \<notin> set (entry_text e)" using assms hex32_chars(1) by (auto simp: e ascii_def split: option.split)
  show "of_char (CHR 0x0A) \<notin> set (entry_text e)" using assms hex32_chars(2) by (auto simp: e ascii_def split: option.split)
qed

lemma tail_text_chars:
  assumes "list_all entry_ok es"
  shows "0 \<notin> set (tail_text es)" "of_char (CHR 0x0A) \<notin> set (tail_text es)"
  using assms entry_text_chars by (auto simp: tail_text_def list_all_iff ascii_def)

lemma entry_located:
  assumes m: "drop nx m = c # entry_text (sz, st, nm) @ tail_text es @ 0 # r"
    and ok: "0 \<notin> set nm" "of_char CHR '')'' \<notin> set nm" "list_all entry_ok es"
  obtains name where "parm_numbers m nx = Done (case sz of None \<Rightarrow> - 1 | Some v \<Rightarrow> v, st, name)"
    "zstr m name (nm @ of_char CHR '')'' # tail_text es)" "strchr m name (of_char CHR '')'') = Done (Some (name + length nm))"
    "name + length nm = nx + length (entry_text (sz, st, nm))"
proof -
  have "drop nx m = c # (case sz of None \<Rightarrow> ascii ''-'' | Some v \<Rightarrow> hex32 v) @ ascii ''@'' @ hex32 st @ ascii ''('' @
      nm @ ascii '')'' @ tail_text es @ 0 # r"
    using m by simp
  from parm_numbers_text [OF this] obtain name where n: "parm_numbers m nx = Done (case sz of None \<Rightarrow> - 1 | Some v \<Rightarrow> v, st, name)"
    and d: "drop name m = nm @ ascii '')'' @ tail_text es @ 0 # r"
    and pos: "name = nx + 1 + (case sz of None \<Rightarrow> 1 | Some _ \<Rightarrow> 10) + 12"
    by blast
  have z: "zstr m name (nm @ of_char CHR '')'' # tail_text es)"
    using d ok tail_text_chars [OF ok(3)] by (simp add: zstr_def ascii_def)
  show ?thesis
  proof (rule that [OF n z])
    show "strchr m name (of_char CHR '')'') = Done (Some (name + length nm))"
      by (rule strchr_first [OF z]) (use ok(2) in \<open>simp_all add: ascii_def\<close>)
    show "name + length nm = nx + length (entry_text (sz, st, nm))" by (simp add: pos split: option.split)
  qed
qed

lemma parm_entry_text:
  assumes m: "drop nx m = c # entry_text e @ tail_text es @ 0 # r"
    and ok: "entry_ok e" "list_all entry_ok es" "malloc_ok w k"
  shows "parm_entry w dev m k nx = Done (Some (part_of dev e, if es = [] then None else Some (nx + 1 + length (entry_text e))))"
proof -
  obtain sz st nm where e: "e = (sz, st, nm)" by (cases e)
  have nm: "length nm < PART_NAME_LEN" "0 \<notin> set nm" "of_char CHR '')'' \<notin> set nm" "of_char CHR '','' \<notin> set nm"
    using ok(1) by (simp_all add: e)
  from entry_located [OF m [unfolded e] nm(2,3) ok(2)] obtain name
    where n: "parm_numbers m nx = Done (case sz of None \<Rightarrow> - 1 | Some v \<Rightarrow> v, st, name)"
      and z: "zstr m name (nm @ of_char CHR '')'' # tail_text es)" and p: "strchr m name (of_char CHR '')'') = Done (Some (name + length nm))"
      and pos: "name + length nm = nx + length (entry_text e)"
    unfolding e by blast
  have c: "strchr m name (of_char CHR '','') = Done (if es = [] then None else Some (nx + 1 + length (entry_text e)))"
  proof (cases es)
    case Nil
    then show ?thesis using strchr_zstr [OF z, of "of_char CHR '',''"] nm(4) by (simp add: tail_text_def)
  next
    case (Cons f fs)
    have "nm @ of_char CHR '')'' # tail_text es = (nm @ [of_char CHR '')'']) @ of_char CHR '','' # entry_text f @ tail_text fs"
      by (simp add: Cons tail_text_def ascii_def)
    from strchr_first [OF z [unfolded this]] nm(4) Cons pos show ?thesis by simp
  qed
  have "take (length nm) (drop name m) = nm" using z by (auto simp: zstr_def)
  moreover have "min (length nm) PART_NAME_LEN = length nm" using nm(1) by simp
  ultimately show ?thesis
    unfolding parm_entry_def
    using n nm(1) ok(3) c p by (simp add: e Let_def split: option.split)
qed

text \<open>The loop reads the whole table.\<close>

lemma parse_parts_text:
  assumes "drop nx m = c # entry_text e @ tail_text es @ 0 # r" "entry_ok e" "list_all entry_ok es" "\<forall>k. malloc_ok w k"
  shows "parse_parts w dev m ps (Some nx) = Done (ps @ map (part_of dev) (e # es))"
  using assms(1-3)
proof (induction es arbitrary: nx c e ps)
  case Nil
  then have "parm_entry w dev m (length ps) nx = Done (Some (part_of dev e, None))"
    using parm_entry_text [of nx m c e "[]" r w "length ps" dev] assms(4) by simp
  then show ?case by (simp add: parse_parts.simps)
next
  case (Cons f fs)
  let ?n = "nx + 1 + length (entry_text e)"
  have "parm_entry w dev m (length ps) nx = Done (Some (part_of dev e, Some ?n))"
    using parm_entry_text [OF Cons.prems, of w "length ps" dev] assms(4) by simp
  then have "parse_parts w dev m ps (Some nx) = parse_parts w dev m (ps @ [part_of dev e]) (Some ?n)"
    by (simp add: parse_parts.simps [of w dev m ps])
  moreover have "drop ?n m = of_char CHR '','' # entry_text f @ tail_text fs @ 0 # r"
    using drop_skip [of nx m "c # entry_text e"] Cons.prems(1) by (simp add: tail_text_def ascii_def)
  ultimately show ?case
    using Cons.IH [of ?n "of_char CHR '',''" f "ps @ [part_of dev e]"] Cons.prems by simp
qed

section \<open>Searching for literals\<close>

lemma scan_to_exists: "drop p m = xs @ 0 # r \<Longrightarrow> \<exists>e. scan_to (\<lambda>b. b = 0 \<or> Q b) m p = Done e"
proof (induction xs arbitrary: p)
  case Nil
  then show ?case using drop_Cons_nth [of p m 0 r] by (simp add: scan_to.simps [of _ m p])
next
  case (Cons x xs)
  then have "p < length m \<and> m ! p = x \<and> drop (Suc p) m = xs @ 0 # r" using drop_Cons_nth [of p m x] by simp
  with Cons.IH [of "Suc p"] show ?case by (simp add: scan_to.simps [of _ m p])
qed

lemma literals_no_nul:
  "0 \<notin> set (ascii ''CMDLINE:'')" "0 \<notin> set (ascii ''mtdparts'')" "0 \<notin> set (ascii [CHR 0x0A])"
  "0 \<notin> set (ascii ''mtdparts='')" "0 \<notin> set (ascii ''blkdevparts='')"
  by (simp_all add: ascii_def)

interpretation cmdline_search: first_search "\<lambda>m p. strstr_lit m p ''CMDLINE:''" "\<lambda>a. occurs_at a (ascii ''CMDLINE:'')"
  by (rule strstr_lit_search) (rule literals_no_nul)

interpretation mtdparts_search: first_search "\<lambda>m p. strstr_lit m p ''mtdparts''" "\<lambda>a. occurs_at a (ascii ''mtdparts'')"
  by (rule strstr_lit_search) (rule literals_no_nul)

text \<open>What the export to the environment leaves alone.\<close>

definition part_calls :: "env_call list \<Rightarrow> bool" where
  "part_calls calls \<longleftrightarrow> length calls \<le> 2 \<and> list_all (\<lambda>c. case c of Env_set k v \<Rightarrow> k \<in> {''mtdparts'', ''blkdevparts''} \<and> v \<noteq> []
     | Update_filter _ _ _ \<Rightarrow> False) calls"

lemma export_part_env_done:
  assumes "zstr m cmdline a" "0 \<notin> set (ascii token)"
  shows "\<exists>calls. rkparm_export_part_env w m cmdline token varname strip s = Done (s\<lparr>env_calls := env_calls s @ calls\<rparr>) \<and>
     (calls = [] \<or> (\<exists>v. v \<noteq> [] \<and> calls = [Env_set varname v]))"
proof -
  obtain r where r: "strstr_lit m cmdline token = Done r" and
    at: "case r of None \<Rightarrow> True | Some x \<Rightarrow> \<exists>i. x = cmdline + i \<and> i + length token \<le> length a"
    using first_search.finds [OF strstr_lit_search [OF assms(2)] assms(1)] by (fastforce simp: occurs_at_def split: option.splits)
  show ?thesis
  proof (cases r)
    case None
    then show ?thesis using r by (auto simp: rkparm_export_part_env_def intro: exI [of _ "[]"])
  next
    case (Some q)
    define p where "p = (if strip then q + length token else q)"
    from at Some obtain j where j: "q = cmdline + j" "j + length token \<le> length a" by auto
    define i where "i = (if strip then j + length token else j)"
    with j have i: "p = cmdline + i" "i \<le> length a" by (auto simp: p_def)
    obtain b where b: "drop cmdline m = a @ 0 # b" using assms(1) by (auto simp: zstr_def)
    have "drop p m = drop i (drop cmdline m)" using i(1) by (simp add: add.commute)
    then have "drop p m = drop i a @ 0 # b" using i(2) b by simp
    then have "\<exists>e. scan_to (\<lambda>b. b = 0 \<or> is_space b) m p = Done e" by (rule scan_to_exists)
    then obtain e where "scan_to (\<lambda>b. b = 0 \<or> is_space b) m p = Done e" by blast
    with r Some have "rkparm_export_part_env w m cmdline token varname strip s =
        Done (s\<lparr>env_calls := env_calls s @
          (let buf = filter is_print (take (e - p) (drop p m)) in if buf = [] \<or> \<not> calloc_ok w then [] else [Env_set varname buf])\<rparr>)"
      by (simp add: rkparm_export_part_env_def p_def [symmetric] Let_def)
    then show ?thesis
      by (intro exI [of _ "let buf = filter is_print (take (e - p) (drop p m)) in if buf = [] \<or> \<not> calloc_ok w then [] else [Env_set varname buf]"])
        (simp add: Let_def)
  qed
qed

section \<open>Properties\<close>

text \<open>The text of a parameter block: lines before the command line, its arguments up to \<open>mtdparts=\<close>, the name of the
  device, the table, and what follows the line.\<close>

definition parm_text :: "bytes \<Rightarrow> bytes \<Rightarrow> bytes \<Rightarrow> table_entry \<Rightarrow> table_entry list \<Rightarrow> bytes \<Rightarrow> bytes" where
  "parm_text before args device e es after =
     before @ ascii ''CMDLINE:'' @ args @ ascii ''mtdparts='' @ device @ ascii '':'' @ entry_text e @ tail_text es @
     of_char (CHR 0x0A) # after"

definition first_at :: "bytes \<Rightarrow> bytes \<Rightarrow> nat \<Rightarrow> bool" where
  "first_at a b n \<longleftrightarrow> list_all (\<lambda>j. \<not> occurs_at a b j) [0..<n]"

lemma drop_update:
  assumes "drop p m = xs @ y # r"
  shows "drop p (m[p + length xs := z]) = xs @ z # r"
proof -
  have "p < length m" using assms by (cases "p < length m") auto
  then show ?thesis using assms by (simp add: drop_update_swap)
qed

lemma zstr_skip:
  assumes "zstr m p (xs @ ys)"
  shows "zstr m (p + length xs) ys"
  using assms drop_skip [of p m xs] by (auto simp: zstr_def)

lemma occurs_at_single: "occurs_at (xs @ r) [x] j \<Longrightarrow> j < length xs \<Longrightarrow> x \<in> set xs"
  by (auto simp: occurs_at_def take_Suc_conv_app_nth)

text \<open>The run of the parser once the line and the table are located.\<close>

lemma parse_located:
  assumes found: "strstr_lit m param ''CMDLINE:'' = Done (Some c)" "strstr_lit m c ''mtdparts'' = Done (Some b)"
      "strchr m b (of_char CHR '':'') = Done (Some (c + 8 + length pre))" "strstr_lit m c [CHR 0x0A] = Done (Some (c + 8 + length line))"
    and line: "drop c m = ascii ''CMDLINE:'' @ line @ y # r" "0 \<notin> set line" "line = pre @ of_char CHR '':'' # entry_text e @ tail_text es"
    and ok: "entry_ok e" "list_all entry_ok es" "\<forall>k. malloc_ok w k"
  shows "\<exists>s1 calls. rkparm_param_parse w dev m param s = Done (0, s1) \<and>
     parts_head s1 = map (part_of dev) (e # es) \<and> dev_num s1 = dev_code dev \<and>
     env_calls s1 = env_calls s @ Update_filter ''bootargs'' line ''initrd='' # calls \<and> part_calls calls"
proof -
  define m1 where "m1 = m[c + 8 + length line := 0]"
  have d: "drop c m1 = (ascii ''CMDLINE:'' @ line) @ 0 # r"
    using drop_update [of c m "ascii ''CMDLINE:'' @ line" y r 0] line(1) by (simp add: m1_def eval_nat_numeral)
  then have z: "zstr m1 c (ascii ''CMDLINE:'' @ line)" using line(2) literals_no_nul(1) by (auto simp: zstr_def)
  have d8: "drop (c + 8) m1 = line @ 0 # r" using drop_skip [of c m1 "ascii ''CMDLINE:''"] d by (simp add: eval_nat_numeral)
  then have n: "strlen m1 (c + 8) = Done (length line)" using line(2) by (intro strlen_zstr) (auto simp: zstr_def)
  have bootargs: "take (length line) (drop (c + 8) m1) = line" using d8 by simp
  have L: "length ''CMDLINE:'' = 8" by simp
  let ?s1 = "s\<lparr>env_calls := env_calls s @ [Update_filter ''bootargs'' line ''initrd='']\<rparr>"
  obtain c1 where e1: "rkparm_export_part_env w m1 c ''mtdparts='' ''mtdparts'' True ?s1 = Done (?s1\<lparr>env_calls := env_calls ?s1 @ c1\<rparr>)"
      "c1 = [] \<or> (\<exists>v. v \<noteq> [] \<and> c1 = [Env_set ''mtdparts'' v])"
    using export_part_env_done [OF z literals_no_nul(4)] by blast
  let ?s2 = "?s1\<lparr>env_calls := env_calls ?s1 @ c1\<rparr>"
  obtain c2 where e2: "rkparm_export_part_env w m1 c ''blkdevparts='' ''blkdevparts'' True ?s2 = Done (?s2\<lparr>env_calls := env_calls ?s2 @ c2\<rparr>)"
      "c2 = [] \<or> (\<exists>v. v \<noteq> [] \<and> c2 = [Env_set ''blkdevparts'' v])"
    using export_part_env_done [OF z literals_no_nul(5)] by blast
  have "drop (c + 8 + length pre) m1 = of_char CHR '':'' # entry_text e @ tail_text es @ 0 # r"
    using drop_skip [of "c + 8" m1 pre] d8 line(3) by simp
  then have t: "parse_parts w dev m1 [] (Some (c + 8 + length pre)) = Done (map (part_of dev) (e # es))"
    using parse_parts_text ok by fastforce
  have "part_calls (c1 @ c2)" using e1(2) e2(2) by (auto simp: part_calls_def)
  then show ?thesis
    using found(1,2,3,4) n [folded L] bootargs [folded L] e1(1) e2(1) t
    by (simp add: rkparm_param_parse_def m1_def [symmetric] Let_def)
qed

text \<open>The block at \<open>param\<close> holds such a text, and the parser meets the line and the table at their first
  occurrence.\<close>

definition table_ok :: "bytes \<Rightarrow> bytes \<Rightarrow> bytes \<Rightarrow> table_entry \<Rightarrow> table_entry list \<Rightarrow> bytes \<Rightarrow> bool" where
  "table_ok before args device e es after \<longleftrightarrow>
     first_at (parm_text before args device e es after) (ascii ''CMDLINE:'') (length before) \<and>
     first_at (drop (length before) (parm_text before args device e es after)) (ascii ''mtdparts'') (8 + length args) \<and>
     of_char CHR '':'' \<notin> set device \<and> of_char (CHR 0x0A) \<notin> set args \<and> of_char (CHR 0x0A) \<notin> set device \<and>
     entry_ok e \<and> list_all entry_ok es"

definition table_block :: "bytes \<Rightarrow> nat \<Rightarrow> bytes \<Rightarrow> bytes \<Rightarrow> bytes \<Rightarrow> table_entry \<Rightarrow> table_entry list \<Rightarrow> bytes \<Rightarrow> bool" where
  "table_block m param before args device e es after \<longleftrightarrow>
     zstr m param (parm_text before args device e es after) \<and> table_ok before args device e es after"

text \<open>What follows the line does not matter.\<close>

lemma first_at_append:
  assumes "n + length b \<le> Suc (length a)"
  shows "first_at (a @ x) b n \<longleftrightarrow> first_at a b n"
proof -
  have "occurs_at (a @ x) b j \<longleftrightarrow> occurs_at a b j" if "j < n" for j
    using that assms by (auto simp: occurs_at_def)
  then show ?thesis by (auto simp: first_at_def list_all_iff)
qed

lemma table_ok_append: "table_ok before args device e es (after @ x) \<longleftrightarrow> table_ok before args device e es after"
proof -
  let ?t = "parm_text before args device e es after"
  have t: "parm_text before args device e es (after @ x) = ?t @ x" by (simp add: parm_text_def)
  have d: "drop (length before) (?t @ x) = drop (length before) ?t @ x" by (simp add: parm_text_def)
  have "first_at (?t @ x) (ascii ''CMDLINE:'') (length before) \<longleftrightarrow> first_at ?t (ascii ''CMDLINE:'') (length before)"
    by (rule first_at_append) (simp add: parm_text_def)
  moreover have "first_at (drop (length before) ?t @ x) (ascii ''mtdparts'') (8 + length args) \<longleftrightarrow>
      first_at (drop (length before) ?t) (ascii ''mtdparts'') (8 + length args)"
    by (rule first_at_append) (simp add: parm_text_def)
  ultimately show ?thesis by (simp only: table_ok_def t d)
qed

text \<open>The parser reads every entry of the table, and hands the line to \<open>bootargs\<close>.\<close>

lemma rkparm_parse_table:
  assumes "table_block m param before args device e es after" and w: "\<forall>k. malloc_ok w k"
  shows "\<exists>s1 calls. rkparm_param_parse w dev m param s = Done (0, s1) \<and>
     parts_head s1 = map (part_of dev) (e # es) \<and> dev_num s1 = dev_code dev \<and>
     env_calls s1 = env_calls s @ Update_filter ''bootargs''
       (args @ ascii ''mtdparts='' @ device @ ascii '':'' @ entry_text e @ tail_text es) ''initrd='' # calls \<and> part_calls calls"
proof -
  from assms have blk: "zstr m param (parm_text before args device e es after)"
    and cmd: "first_at (parm_text before args device e es after) (ascii ''CMDLINE:'') (length before)"
    and mtd: "first_at (drop (length before) (parm_text before args device e es after)) (ascii ''mtdparts'') (8 + length args)"
    and chars: "of_char CHR '':'' \<notin> set device" "of_char (CHR 0x0A) \<notin> set args" "of_char (CHR 0x0A) \<notin> set device"
    and ok: "entry_ok e" "list_all entry_ok es"
    by (auto simp: table_block_def table_ok_def)
  let ?nl = "of_char (CHR 0x0A) :: u8"
  let ?table = "entry_text e @ tail_text es"
  let ?pre = "args @ ascii ''mtdparts='' @ device"
  let ?line = "?pre @ of_char CHR '':'' # ?table"
  let ?rest = "ascii ''CMDLINE:'' @ ?line @ ?nl # after"
  have T: "parm_text before args device e es after = before @ ?rest" by (simp add: parm_text_def ascii_def)
  define c where "c = param + length before"
  have zc: "zstr m c ?rest" using zstr_skip blk unfolding T c_def by blast
  have f1: "strstr_lit m param ''CMDLINE:'' = Done (Some c)"
    using strstr_lit_first [of m param before "''CMDLINE:''" "?line @ ?nl # after"] blk literals_no_nul(1) cmd
    by (simp add: T c_def first_at_def list_all_iff)
  define b where "b = c + (8 + length args)"
  have f2: "strstr_lit m c ''mtdparts'' = Done (Some b)"
    using strstr_lit_first [of m c "ascii ''CMDLINE:'' @ args" "''mtdparts''"
        "ascii ''='' @ device @ of_char CHR '':'' # ?table @ ?nl # after"] zc literals_no_nul(2) mtd
    by (simp add: T b_def first_at_def list_all_iff ascii_def)
  have "zstr m b ((ascii ''mtdparts='' @ device) @ of_char CHR '':'' # ?table @ ?nl # after)"
    using zstr_skip [of m c "ascii ''CMDLINE:'' @ args"] zc by (simp add: b_def eval_nat_numeral)
  then have f3: "strchr m b (of_char CHR '':'') = Done (Some (c + 8 + length ?pre))"
    by (rule strchr_first [THEN trans]) (use chars(1) in \<open>simp_all add: b_def ascii_def\<close>)
  have "?nl \<notin> set (ascii ''CMDLINE:'' @ ?line)"
    using chars entry_text_chars(2) [OF ok(1)] tail_text_chars(2) [OF ok(2)] by (simp add: ascii_def)
  then have "\<not> occurs_at ?rest (ascii [CHR 0x0A]) j" if "j < length (ascii ''CMDLINE:'' @ ?line)" for j
    using occurs_at_single [of "ascii ''CMDLINE:'' @ ?line" "?nl # after" ?nl j] that by (auto simp: ascii_def)
  then have f4: "strstr_lit m c [CHR 0x0A] = Done (Some (c + 8 + length ?line))"
    using strstr_lit_first [of m c "ascii ''CMDLINE:'' @ ?line" "[CHR 0x0A]" after] zc literals_no_nul(3)
    by (simp add: ascii_def)
  obtain r where r: "drop c m = ascii ''CMDLINE:'' @ ?line @ ?nl # after @ 0 # r" "0 \<notin> set ?line"
    using zc by (auto simp: zstr_def)
  show ?thesis using parse_located [OF f1 f2 f3 f4 r refl ok w] by (simp add: ascii_def)
qed

definition info_of :: "blk_desc \<Rightarrow> rkparm_part \<Rightarrow> disk_partition" where
  "info_of dev p = \<lparr>dp_start = part_start p, dp_size = part_size p, dp_blksz = blksz dev,
     dp_name = part_name p, dp_type = ascii ''U-Boot'', dp_bootable = False\<rparr>"

lemma get_info_refreshed:
  assumes "refresh w dev s = Done (0, s1)" "parts_head s1 = map f xs" "1 \<le> idx"
  shows "part_get_info_rkparm w dev idx s =
     Done (if idx \<le> int (length xs) then (0, Some (info_of dev (f (xs ! nat (idx - 1)))), s1) else (- EINVAL, None, s1))"
  using assms by (auto simp: part_get_info_rkparm_def info_of_def Let_def)

definition parm_offset :: "blk_desc \<Rightarrow> u32" where
  "parm_offset dev = (if if_type dev \<noteq> IF_TYPE_RKNAND then RK_PARAM_OFFSET else 0)"

lemma refresh_table:
  assumes "table_block m 8 before args device e es after" "blk_dread w (parm_offset dev) 128 = Some m"
    and "memalign_ok w" "\<forall>k. malloc_ok w k" "stale dev s"
  shows "\<exists>s1 calls. refresh w dev s = Done (0, s1) \<and> parts_head s1 = map (part_of dev) (e # es) \<and> \<not> stale dev s1 \<and>
     env_calls s1 = env_calls s @ Update_filter ''bootargs''
       (args @ ascii ''mtdparts='' @ device @ ascii '':'' @ entry_text e @ tail_text es) ''initrd='' # calls \<and> part_calls calls"
  using rkparm_parse_table [OF assms(1,4), of dev s] assms
  by (auto simp: refresh_def rkparm_init_param_def parm_offset_def MAX_PARAM_SIZE_def stale_def)

text \<open>C29: When the device holds a parameter block with a table, the first request for a partition reads and parses it:
  partition \<open>idx\<close> is entry \<open>idx\<close> of the table with its name, its first sector (moved by \<open>RK_PARAM_OFFSET\<close> on every
  medium but raw NAND) and its size (\<open>-\<close> is the rest of the device), a number past the table gives \<open>-EINVAL\<close>.  Every later
  request on the device gives the same answer from the list kept, whatever the device then returns; the
  command line of the block has been given to \<open>bootargs\<close>.\<close>

theorem part_get_info_table:
  assumes "table_block m 8 before args device e es after" "blk_dread w (parm_offset dev) 128 = Some m"
    and "memalign_ok w" "\<forall>k. malloc_ok w k" "stale dev s"
  shows "\<exists>s1 calls.
     (\<forall>idx\<ge>1. part_get_info_rkparm w dev idx s =
        Done (if idx \<le> int (length (e # es)) then (0, Some (info_of dev (part_of dev ((e # es) ! nat (idx - 1)))), s1)
              else (- EINVAL, None, s1))) \<and>
     (\<forall>w2. \<forall>idx\<ge>1. part_get_info_rkparm w2 dev idx s1 = part_get_info_rkparm w dev idx s) \<and>
     env_calls s1 = env_calls s @ Update_filter ''bootargs''
       (args @ ascii ''mtdparts='' @ device @ ascii '':'' @ entry_text e @ tail_text es) ''initrd='' # calls"
proof -
  obtain s1 calls where r: "refresh w dev s = Done (0, s1)" and p: "parts_head s1 = map (part_of dev) (e # es)" and "\<not> stale dev s1"
    and c: "env_calls s1 = env_calls s @ Update_filter ''bootargs''
       (args @ ascii ''mtdparts='' @ device @ ascii '':'' @ entry_text e @ tail_text es) ''initrd='' # calls"
    using refresh_table [OF assms] by blast
  then have "refresh w2 dev s1 = Done (0, s1)" for w2 by (simp add: refresh_def)
  from get_info_refreshed [OF this p] get_info_refreshed [OF r p] c
  show ?thesis by (intro exI [of _ s1] exI [of _ calls]) simp
qed

text \<open>A block with two partitions, as the witness reads it.\<close>

definition sample_text :: bytes where
  "sample_text = parm_text (ascii ''VER:1 '') (ascii ''quiet '') (ascii ''rk'')
     (Some 0x2000, 0x2000, ascii ''uboot'') [(None, 0x6000, ascii ''rootfs'')] []"

definition sample_block :: bytes where
  "sample_block = replicate 8 9 @ sample_text @ [0]"

definition sample_world :: parm_world where
  "sample_world = \<lparr>memalign_ok = True, calloc_ok = True, malloc_ok = (\<lambda>_. True), blk_dread = (\<lambda>_ _. Some sample_block)\<rparr>"

definition sample_dev :: blk_desc where
  "sample_dev = \<lparr>if_type = 6, devnum = 0, lba = 0xE00000, blksz = 512\<rparr>"

lemma sample_text_ok:
  "0 \<notin> set sample_text"
  "table_ok (ascii ''VER:1 '') (ascii ''quiet '') (ascii ''rk'') (Some 0x2000, 0x2000, ascii ''uboot'') [(None, 0x6000, ascii ''rootfs'')] []"
proof -
  have e: "entry_ok (Some 0x2000, 0x2000, ascii ''uboot'')" "list_all entry_ok [(None, 0x6000, ascii ''rootfs'')]"
    by (simp_all add: ascii_def PART_NAME_LEN_def)
  show "0 \<notin> set sample_text"
    using entry_text_chars(1) [OF e(1)] tail_text_chars(1) [OF e(2)]
    by (simp add: sample_text_def parm_text_def ascii_def del: entry_text.simps)
  have "first_at sample_text (ascii ''CMDLINE:'') (length (ascii ''VER:1 ''))"
    by (simp add: sample_text_def first_at_def parm_text_def occurs_at_def ascii_def upt_rec del: entry_text.simps)
  moreover have "first_at (drop (length (ascii ''VER:1 '')) sample_text) (ascii ''mtdparts'') (8 + length (ascii ''quiet ''))"
    by (simp add: sample_text_def first_at_def parm_text_def occurs_at_def ascii_def upt_rec del: entry_text.simps)
  ultimately show "table_ok (ascii ''VER:1 '') (ascii ''quiet '') (ascii ''rk'') (Some 0x2000, 0x2000, ascii ''uboot'') [(None, 0x6000, ascii ''rootfs'')] []"
    using e by (simp add: table_ok_def sample_text_def ascii_def)
qed

lemma length_sample_text: "length sample_text < 200"
  by (simp add: sample_text_def parm_text_def tail_text_def)

lemma sample_block_ok:
  "table_block sample_block 8 (ascii ''VER:1 '') (ascii ''quiet '') (ascii ''rk'')
     (Some 0x2000, 0x2000, ascii ''uboot'') [(None, 0x6000, ascii ''rootfs'')] []"
  using sample_text_ok by (simp add: table_block_def zstr_def sample_block_def sample_text_def [symmetric])

theorem part_get_info_table_witness:
  "\<exists>s1. part_get_info_rkparm sample_world sample_dev 2 parm_initial =
       Done (0, Some (info_of sample_dev (part_of sample_dev (None, 0x6000, ascii ''rootfs''))), s1) \<and>
     part_get_info_rkparm sample_world sample_dev 3 parm_initial = Done (- EINVAL, None, s1)"
  using part_get_info_table [OF sample_block_ok, of sample_world sample_dev parm_initial]
  by (auto simp: sample_world_def parm_initial_def stale_def)

text \<open>Without a readable table the driver reports failure and keeps its state: when the buffer cannot be allocated,
  the block cannot be read, has no \<open>CMDLINE:\<close>, or has no \<open>mtdparts\<close> behind it, \<open>part_get_info_rkparm\<close> and
  \<open>part_test_rkparm\<close> return -1 and \<open>part_print_rkparm\<close> prints no table.\<close>

theorem rkparm_no_table:
  assumes "stale dev s" "1 \<le> idx"
    and "memalign_ok w \<Longrightarrow> blk_dread w (parm_offset dev) 128 = Some m \<Longrightarrow> zstr m 8 a \<and>
      (\<forall>i. occurs_at a (ascii ''CMDLINE:'') i \<longrightarrow> first_at a (ascii ''CMDLINE:'') i \<longrightarrow> (\<forall>j. \<not> occurs_at (drop i a) (ascii ''mtdparts'') j))"
    and "blk_dread w (parm_offset dev) 128 = None \<or> blk_dread w (parm_offset dev) 128 = Some m"
  shows "part_get_info_rkparm w dev idx s = Done (- 1, None, s) \<and> part_test_rkparm w dev s = Done (- 1, s) \<and>
     part_print_rkparm w dev s = Done (None, s)"
proof -
  have parse: "rkparm_param_parse w dev m 8 s = Done (- EINVAL, s)"
    if "memalign_ok w" "blk_dread w (parm_offset dev) 128 = Some m"
  proof -
    note a = assms(3) [OF that]
    from conjunct1 [OF a] show ?thesis
    proof (cases rule: cmdline_search.search_cases)
      case 1
      then show ?thesis by (simp add: rkparm_param_parse_def)
    next
      case (2 i)
      have "zstr m (8 + length (take i a)) (drop i a)" using a by (intro zstr_skip) simp
      moreover have "length (take i a) = i" using 2(2) by (simp add: occurs_at_def)
      ultimately have "zstr m (8 + i) (drop i a)" by simp
      moreover have "\<forall>j. \<not> occurs_at (drop i a) (ascii ''mtdparts'') j"
        using a 2(2,3) by (auto simp: first_at_def list_all_iff)
      ultimately have "strstr_lit m (8 + i) ''mtdparts'' = Done None" by (rule mtdparts_search.search_none)
      with 2(1) show ?thesis by (simp add: rkparm_param_parse_def)
    qed
  qed
  have "\<exists>ret. ret \<noteq> 0 \<and> refresh w dev s = Done (ret, s)"
    using assms(1,4) parse by (auto simp: refresh_def rkparm_init_param_def parm_offset_def MAX_PARAM_SIZE_def EINVAL_def ENOMEM_def split: if_splits)
  then show ?thesis using assms(2) by (auto simp: part_get_info_rkparm_def part_test_rkparm_def part_print_rkparm_def)
qed

theorem rkparm_no_table_witness:
  "part_get_info_rkparm (sample_world\<lparr>blk_dread := \<lambda>_ _. Some (replicate 128 0)\<rparr>) sample_dev 1 parm_initial = Done (- 1, None, parm_initial) \<and>
     part_test_rkparm (sample_world\<lparr>blk_dread := \<lambda>_ _. Some (replicate 128 0)\<rparr>) sample_dev parm_initial = Done (- 1, parm_initial) \<and>
     part_print_rkparm (sample_world\<lparr>blk_dread := \<lambda>_ _. Some (replicate 128 0)\<rparr>) sample_dev parm_initial = Done (None, parm_initial)"
proof (rule rkparm_no_table)
  show "stale sample_dev parm_initial" by (simp add: stale_def parm_initial_def)
  show "zstr (replicate 128 0) 8 [] \<and> (\<forall>i. occurs_at [] (ascii ''CMDLINE:'') i \<longrightarrow> first_at [] (ascii ''CMDLINE:'') i \<longrightarrow>
      (\<forall>j. \<not> occurs_at (drop i []) (ascii ''mtdparts'') j))"
    by (simp add: zstr_Nil occurs_at_def ascii_def)
qed simp_all

section \<open>Corner cases of the code\<close>

text \<open>A name of 32 characters or more: the terminating NUL is written one byte behind \<open>part->name\<close>.\<close>

lemma long_name_faults:
  assumes "drop nx m = c # entry_text (sz, st, nm) @ 0 # r" "0 \<notin> set nm" "of_char CHR '')'' \<notin> set nm" "malloc_ok w k"
    and "PART_NAME_LEN \<le> length nm"
  shows "parm_entry w dev m k nx = Fault"
proof -
  have "drop nx m = c # entry_text (sz, st, nm) @ tail_text [] @ 0 # r" using assms(1) by (simp add: tail_text_def)
  from entry_located [OF this assms(2,3) list.pred_inject(1)] obtain name
    where "parm_numbers m nx = Done (case sz of None \<Rightarrow> - 1 | Some v \<Rightarrow> v, st, name)"
      "strchr m name (of_char CHR '')'') = Done (Some (name + length nm))"
    by metis
  with assms(4,5) show ?thesis by (simp add: parm_entry_def Let_def)
qed

text \<open>An entry cut short: the character skipped behind a number may be the terminating NUL, and the parser reads the
  first sector from whatever follows the line.\<close>

lemma cut_entry_reads_on:
  "parm_numbers (ascii '':0x1'' @ [0] @ ascii ''0x7('') 0 = Done (1, 7, 9)"
proof -
  let ?m = "ascii '':0x1'' @ [0] @ ascii ''0x7(''"
  have d: "is_digit_of 16 0x31" "is_digit_of 16 0x37" "\<not> is_digit_of 16 0" "\<not> is_digit_of 16 0x28"
    "digits_number 16 [0x31] = 1" "digits_number 16 [0x37] = 7"
    by code_simp+
  have "simple_strtoul ?m 1 16 = Done (1, 4)" "simple_strtoul ?m 5 16 = Done (7, 8)"
    using simple_strtoul_digits [of 16 "ascii ''0x''" 1 ?m "[0x31]" 0 "ascii ''0x7(''"]
      simple_strtoul_digits [of 16 "ascii ''0x''" 5 ?m "[0x37]" "0x28" "[]"] d by (simp_all add: ascii_def)
  then show ?thesis by (simp add: parm_numbers_def rd_def ascii_def)
qed

end
