(* ===== verification/Atags.thy ===== *)
theory Atags
  imports Prelude "HOL-Library.AList"
begin

text \<open>
  The tags the boot stages hand to each other, \<open>arch/arm/mach-rockchip/rk_atags.c\<close> and its header: a chain of
  records in a fixed area of memory, each with its size in words, its magic, its data and a hash.  Memory is the
  list of bytes from \<open>ATAGS_PHYS_BASE\<close> on, a pointer is its distance from there modulo \<open>2\<^sup>3\<^sup>2\<close>; an access outside the memory
  given is a \<open>Fault\<close>.  The walk along the chain need not end, so it is a partial function.
\<close>

section \<open>Constants and records of the header\<close>

definition ATAG_CORE :: u32 where "ATAG_CORE = 0x54410001"
definition ATAG_NONE :: u32 where "ATAG_NONE = 0"
definition ATAG_SERIAL :: u32 where "ATAG_SERIAL = 0x54410050"
definition ATAG_BOOTDEV :: u32 where "ATAG_BOOTDEV = 0x54410051"
definition ATAG_DDR_MEM :: u32 where "ATAG_DDR_MEM = 0x54410052"
definition ATAG_TOS_MEM :: u32 where "ATAG_TOS_MEM = 0x54410053"
definition ATAG_RAM_PARTITION :: u32 where "ATAG_RAM_PARTITION = 0x54410054"
definition ATAG_ATF_MEM :: u32 where "ATAG_ATF_MEM = 0x54410055"
definition ATAG_PUB_KEY :: u32 where "ATAG_PUB_KEY = 0x54410056"
definition ATAG_SOC_INFO :: u32 where "ATAG_SOC_INFO = 0x54410057"
definition ATAG_BOOT1_PARAM :: u32 where "ATAG_BOOT1_PARAM = 0x54410058"
definition ATAG_PSTORE :: u32 where "ATAG_PSTORE = 0x54410059"
definition ATAG_FWVER :: u32 where "ATAG_FWVER = 0x5441005a"
definition ATAG_MAX :: u32 where "ATAG_MAX = 0x544100ff"

lemmas atag_magics = ATAG_CORE_def ATAG_NONE_def ATAG_SERIAL_def ATAG_BOOTDEV_def ATAG_DDR_MEM_def ATAG_TOS_MEM_def
  ATAG_RAM_PARTITION_def ATAG_ATF_MEM_def ATAG_PUB_KEY_def ATAG_SOC_INFO_def ATAG_BOOT1_PARAM_def ATAG_PSTORE_def
  ATAG_FWVER_def ATAG_MAX_def

definition ATAGS_SIZE :: nat where "ATAGS_SIZE = 0x2000"
definition HASH_LEN :: nat where "HASH_LEN = 4"
definition FWVER_LEN :: nat where "FWVER_LEN = 36"
definition FW_MAX :: nat where "FW_MAX = 4"

text \<open>The sizes of the packed structures, field by field.\<close>

definition sizeof_tag_header :: nat where "sizeof_tag_header = 4 + 4"
definition sizeof_tag_core :: nat where "sizeof_tag_core = 4 + 4 + 4"
definition sizeof_tag_serial :: nat where "sizeof_tag_serial = 4 + 4 + 8 + 4 + 4 + 4 + 4 * 2 + 4"
definition sizeof_tag_bootdev :: nat where "sizeof_tag_bootdev = 4 + 4 + 4 + 4 + 4 + 4 * 6 + 4"
definition sizeof_tag_ddr_mem :: nat where "sizeof_tag_ddr_mem = 4 + 4 + 8 * 20 + 4 + 4 * 2 + 4"
definition sizeof_tag_tos_mem :: nat where "sizeof_tag_tos_mem = 4 + (8 + 8 + 4 + 4) + (8 + 8 + 4 + 4) + 8 * 7 + 4 + 4"
definition sizeof_tag_atf_mem :: nat where "sizeof_tag_atf_mem = 4 + 8 + 4 + 4 + 4 * 2 + 4"
definition sizeof_tag_pub_key :: nat where "sizeof_tag_pub_key = 4 + 4 + 768 + 4 + 4 * 5 + 4"
definition sizeof_tag_ram_partition :: nat where "sizeof_tag_ram_partition = 4 + 4 + 4 * 4 + 6 * (16 + 8 + 8) + 4 * 3 + 4"
definition sizeof_tag_soc_info :: nat where "sizeof_tag_soc_info = 4 + 4 + 4 + 4 * 6 + 4"
definition sizeof_tag_boot1p :: nat where "sizeof_tag_boot1p = 4 + 4 * 8 + 4 * 4 + 4"
definition sizeof_tag_pstore :: nat where "sizeof_tag_pstore = 4 + 16 * (4 + 4) + 4"
definition sizeof_tag_fwver :: nat where "sizeof_tag_fwver = 4 + 8 * FWVER_LEN + 4"

lemmas atag_sizes = sizeof_tag_header_def sizeof_tag_core_def sizeof_tag_serial_def sizeof_tag_bootdev_def
  sizeof_tag_ddr_mem_def sizeof_tag_tos_mem_def sizeof_tag_atf_mem_def sizeof_tag_pub_key_def
  sizeof_tag_ram_partition_def sizeof_tag_soc_info_def sizeof_tag_boot1p_def sizeof_tag_pstore_def
  sizeof_tag_fwver_def FWVER_LEN_def

text \<open>The largest member of the union is the public key.\<close>

definition sizeof_tag :: nat where "sizeof_tag = sizeof_tag_header + sizeof_tag_pub_key"

definition tag_size :: "nat \<Rightarrow> nat" where
  "tag_size n = (sizeof_tag_header + n) div 4"

text \<open>The switch over the magic: the size of a tag in words, 0 for one that cannot be set.\<close>

definition tag_words :: "u32 \<Rightarrow> nat" where
  "tag_words magic =
     (if magic = ATAG_SERIAL then tag_size sizeof_tag_serial
      else if magic = ATAG_BOOTDEV then tag_size sizeof_tag_bootdev
      else if magic = ATAG_TOS_MEM then tag_size sizeof_tag_tos_mem
      else if magic = ATAG_DDR_MEM then tag_size sizeof_tag_ddr_mem
      else if magic = ATAG_RAM_PARTITION then tag_size sizeof_tag_ram_partition
      else if magic = ATAG_ATF_MEM then tag_size sizeof_tag_atf_mem
      else if magic = ATAG_PUB_KEY then tag_size sizeof_tag_pub_key
      else if magic = ATAG_SOC_INFO then tag_size sizeof_tag_soc_info
      else if magic = ATAG_BOOT1_PARAM then tag_size sizeof_tag_boot1p
      else if magic = ATAG_PSTORE then tag_size sizeof_tag_pstore
      else if magic = ATAG_FWVER then tag_size sizeof_tag_fwver
      else 0)"

section \<open>Hash and checks\<close>

text \<open>\<open>char\<close> is unsigned on ARM.\<close>

definition js_hash :: "bytes \<Rightarrow> u32" where
  "js_hash bs = foldl (\<lambda>hash b. hash XOR (push_bit 5 hash + ucast b + drop_bit 2 hash)) 0x47C6A7E6 bs"

definition atags_bad_magic :: "u32 \<Rightarrow> bool" where
  "atags_bad_magic magic \<longleftrightarrow> magic \<noteq> ATAG_CORE \<and> magic \<noteq> ATAG_NONE \<and> (magic < ATAG_SERIAL \<or> ATAG_MAX < magic)"

text \<open>\<open>tag_next\<close>, as a distance from the base: pointer arithmetic in words, modulo \<open>2\<^sup>3\<^sup>2\<close>.\<close>

definition tag_next :: "nat \<Rightarrow> nat \<Rightarrow> nat" where
  "tag_next t sz = (t + 4 * sz) mod 2 ^ 32"

definition atags_size_overflow :: "nat \<Rightarrow> nat \<Rightarrow> bool" where
  "atags_size_overflow t sz \<longleftrightarrow> ATAGS_SIZE < (t + (4 * sz) mod 2 ^ 32) mod 2 ^ 32"

definition atags_overflow :: "nat \<Rightarrow> nat \<Rightarrow> bool" where
  "atags_overflow t sz \<longleftrightarrow> atags_size_overflow t 0 \<or> atags_size_overflow t sz"

definition rdw :: "bytes \<Rightarrow> nat \<Rightarrow> u32 outcome" where
  "rdw m off = (case rd32le off m of None \<Rightarrow> Fault | Some v \<Rightarrow> Done v)"

definition put_at :: "nat \<Rightarrow> bytes \<Rightarrow> bytes \<Rightarrow> bytes outcome" where
  "put_at off bs m = (if off + length bs \<le> length m then Done (overwrite off bs m) else Fault)"

definition atags_is_available :: "bytes \<Rightarrow> bool outcome" where
  "atags_is_available m = bind_outcome (rdw m 4) (\<lambda>magic. Done (magic = ATAG_CORE))"

section \<open>Walking the chain\<close>

text \<open>
  How the loop \<open>for_each_tag\<close> is left: at a tag with the magic, at the end of the chain, or at a tag that fails a check.
  \<open>stop\<close> is the extra exit at a tag of magic \<open>ATAG_NONE\<close> that only \<open>atags_set_tag\<close> has.  No value: the loop does not end.
\<close>

datatype walk = Found nat | At_end nat | Bad_chain

partial_function (option) for_each_tag :: "bool \<Rightarrow> bytes \<Rightarrow> u32 \<Rightarrow> nat \<Rightarrow> walk outcome option" where
  "for_each_tag stop m magic t =
     (case rd32le t m of None \<Rightarrow> Some Fault
      | Some sz \<Rightarrow>
        if sz = 0 then Some (Done (At_end t))
        else if atags_overflow t (unat sz) then Some (Done Bad_chain)
        else (case rd32le (t + 4) m of None \<Rightarrow> Some Fault
          | Some mg \<Rightarrow>
            if atags_bad_magic mg then Some (Done Bad_chain)
            else if mg = magic then Some (Done (Found t))
            else if stop \<and> mg = ATAG_NONE then Some (Done (At_end t))
            else for_each_tag stop m magic (tag_next t (unat sz))))"

section \<open>Setting and getting tags\<close>

text \<open>
  Writing the tag at \<open>t\<close>: header, data, hash over both; and, behind a new tag, the end of the chain.
\<close>

definition write_tag :: "nat \<Rightarrow> u32 \<Rightarrow> nat \<Rightarrow> bytes \<Rightarrow> bool \<Rightarrow> bytes \<Rightarrow> (int \<times> bytes) outcome" where
  "write_tag t magic sz tagdata app m =
     (let len = 4 * sz - sizeof_tag_header - HASH_LEN in
      if length tagdata < len then Fault
      else
        (let h = put32le (of_nat sz) @ put32le magic @ take len tagdata
         in bind_outcome (put_at t (h @ put32le (js_hash h)) m) (\<lambda>m1.
            if app then bind_outcome (put_at (tag_next t sz) (put32le 0 @ put32le ATAG_NONE) m1) (\<lambda>m2. Done (0, m2))
            else Done (0, m1))))"

definition core_image :: bytes where
  "core_image = put32le (of_nat (tag_size sizeof_tag_core)) @ put32le ATAG_CORE @ put32le 0 @ put32le 0 @ put32le 0"

text \<open>\<open>tpl\<close> is the configuration of the first loader, which creates the chain.\<close>

definition atags_set_tag :: "bool \<Rightarrow> u32 \<Rightarrow> bytes option \<Rightarrow> bytes \<Rightarrow> (int \<times> bytes) outcome option" where
  "atags_set_tag tpl magic tagdata m =
     (case atags_is_available m of Fault \<Rightarrow> Some Fault | Fatal e \<Rightarrow> Some (Fatal e)
      | Done avail \<Rightarrow>
        if \<not> tpl \<and> \<not> avail then Some (Done (- EPERM, m))
        else (case tagdata of None \<Rightarrow> Some (Done (- ENODATA, m))
        | Some d \<Rightarrow>
          if atags_bad_magic magic then Some (Done (- EINVAL, m))
          else if magic = ATAG_CORE \<or> magic = ATAG_NONE then Some (Done (- EPERM, m))
          else
            (let finish = (\<lambda>t app m1.
               if tag_words magic = 0 then Done (- EINVAL, m1)
               else if atags_size_overflow t (tag_words magic) then Done (- ENOMEM, m1)
               else write_tag t magic (tag_words magic) d app m1)
             in if \<not> avail then
                  Some (bind_outcome (put_at 0 core_image m) (finish (tag_next 0 (tag_size sizeof_tag_core)) True))
                else map_option (\<lambda>w. bind_outcome w (\<lambda>r. case r of
                    Bad_chain \<Rightarrow> Done (- EINVAL, m)
                  | Found t \<Rightarrow> finish t False m
                  | At_end t \<Rightarrow> finish t True m)) (for_each_tag True m magic 0))))"

text \<open>The tag \<open>atags_get_tag\<close> returns, as its distance from the base.\<close>

definition atags_get_tag :: "u32 \<Rightarrow> bytes \<Rightarrow> nat option outcome option" where
  "atags_get_tag magic m =
     (case atags_is_available m of Fault \<Rightarrow> Some Fault | Fatal e \<Rightarrow> Some (Fatal e)
      | Done avail \<Rightarrow>
        if \<not> avail then Some (Done None)
        else map_option (\<lambda>w. bind_outcome w (\<lambda>r. case r of
            Found t \<Rightarrow>
              bind_outcome (rdw m t) (\<lambda>sz.
              bind_outcome (rdw m ((t + 4 * unat sz + (2 ^ 32 - HASH_LEN)) mod 2 ^ 32)) (\<lambda>hash.
                if hash = 0 then Done (Some t)
                else (case slice t ((4 * unat sz + (2 ^ 32 - HASH_LEN)) mod 2 ^ 32) m of None \<Rightarrow> Fault
                  | Some bs \<Rightarrow> Done (if js_hash bs = hash then Some t else None))))
          | _ \<Rightarrow> Done None)) (for_each_tag False m magic 0))"

section \<open>The callers in the file\<close>

definition atags_set_shared_fwver :: "bool \<Rightarrow> nat \<Rightarrow> bytes option \<Rightarrow> bytes \<Rightarrow> (int \<times> bytes) outcome option" where
  "atags_set_shared_fwver tpl fwid ver m =
     (case ver of None \<Rightarrow> Some (Done (- EINVAL, m))
      | Some v \<Rightarrow>
        if FWVER_LEN \<le> length v \<or> FW_MAX \<le> fwid then Some (Done (- EINVAL, m))
        else (case atags_get_tag ATAG_FWVER m of None \<Rightarrow> None
          | Some Fault \<Rightarrow> Some Fault | Some (Fatal e) \<Rightarrow> Some (Fatal e)
          | Some (Done None) \<Rightarrow>
              map_option (\<lambda>r. bind_outcome r (\<lambda>(_, m2). Done (0, m2)))
                (atags_set_tag tpl ATAG_FWVER
                  (Some (overwrite (4 + FWVER_LEN * fwid) (v @ [0]) (replicate sizeof_tag_fwver 0))) m)
          | Some (Done (Some t)) \<Rightarrow>
              (case put_at (t + sizeof_tag_header + 4 + FWVER_LEN * fwid) (v @ [0]) m of
                 Fault \<Rightarrow> Some Fault | Fatal e \<Rightarrow> Some (Fatal e)
               | Done m1 \<Rightarrow>
                 (case slice (t + sizeof_tag_header) (sizeof_tag_fwver - HASH_LEN) m1 of None \<Rightarrow> Some Fault
                  | Some d \<Rightarrow> map_option (\<lambda>r. bind_outcome r (\<lambda>(_, m2). Done (0, m2)))
                      (atags_set_tag tpl ATAG_FWVER (Some d) m1)))))"

definition BOOT_TYPE_UNKNOWN :: int where "BOOT_TYPE_UNKNOWN = 0"
definition BOOT_TYPE_NAND :: int where "BOOT_TYPE_NAND = 2 ^ 0"
definition BOOT_TYPE_EMMC :: int where "BOOT_TYPE_EMMC = 2 ^ 1"
definition BOOT_TYPE_SD0 :: int where "BOOT_TYPE_SD0 = 2 ^ 2"
definition BOOT_TYPE_SPI_NOR :: int where "BOOT_TYPE_SPI_NOR = 2 ^ 4"
definition BOOT_TYPE_SPI_NAND :: int where "BOOT_TYPE_SPI_NAND = 2 ^ 5"
definition BOOT_TYPE_RAM :: int where "BOOT_TYPE_RAM = 2 ^ 6"
definition BOOT_TYPE_MTD_BLK_NAND :: int where "BOOT_TYPE_MTD_BLK_NAND = 2 ^ 7"
definition BOOT_TYPE_MTD_BLK_SPI_NAND :: int where "BOOT_TYPE_MTD_BLK_SPI_NAND = 2 ^ 8"
definition BOOT_TYPE_MTD_BLK_SPI_NOR :: int where "BOOT_TYPE_MTD_BLK_SPI_NOR = 2 ^ 9"
definition BOOT_TYPE_UFS :: int where "BOOT_TYPE_UFS = 2 ^ 12"

definition bootdev_map :: "int list" where
  "bootdev_map = [BOOT_TYPE_UNKNOWN, BOOT_TYPE_NAND, BOOT_TYPE_EMMC, BOOT_TYPE_SPI_NOR, BOOT_TYPE_SPI_NAND, BOOT_TYPE_SD0,
     BOOT_TYPE_UNKNOWN, BOOT_TYPE_UFS, BOOT_TYPE_UNKNOWN, BOOT_TYPE_UNKNOWN, BOOT_TYPE_UNKNOWN]"

definition spl_bootdev_map :: "int list" where
  "spl_bootdev_map = [BOOT_TYPE_RAM, BOOT_TYPE_EMMC, BOOT_TYPE_SD0, BOOT_TYPE_UNKNOWN, BOOT_TYPE_NAND] @
     replicate 11 BOOT_TYPE_UNKNOWN @
     [BOOT_TYPE_MTD_BLK_NAND, BOOT_TYPE_MTD_BLK_SPI_NAND, BOOT_TYPE_MTD_BLK_SPI_NOR, BOOT_TYPE_UNKNOWN, BOOT_TYPE_UFS]"

text \<open>The index is an \<open>int\<close> compared with an unsigned length.\<close>

definition get_bootdev_by_brom_bootsource :: "int \<Rightarrow> int" where
  "get_bootdev_by_brom_bootsource bootsource =
     (if int (length bootdev_map) - 1 < bootsource mod 2 ^ 32 \<or> bootsource < 0 then 0 else bootdev_map ! nat bootsource)"

definition get_bootdev_by_spl_bootdevice :: "int \<Rightarrow> int" where
  "get_bootdev_by_spl_bootdevice bootdevice =
     (if int (length spl_bootdev_map) - 1 < bootdevice mod 2 ^ 32 then - ENODEV else spl_bootdev_map ! nat bootdevice)"

definition bootdev_data :: "u32 \<Rightarrow> bytes" where
  "bootdev_data devtype = overwrite 4 (put32le devtype) (replicate sizeof_tag_bootdev 0)"

definition atags_set_bootdev_by_brom_bootsource :: "int \<Rightarrow> bytes \<Rightarrow> (int \<times> bytes) outcome option" where
  "atags_set_bootdev_by_brom_bootsource bootsource m =
     atags_set_tag False ATAG_BOOTDEV (Some (bootdev_data (of_int (get_bootdev_by_brom_bootsource bootsource)))) m"

text \<open>\<open>devtype\<close> is unsigned, so that the test for a negative value after the assignment is never true.\<close>

definition atags_set_bootdev_by_spl_bootdevice :: "int \<Rightarrow> bytes \<Rightarrow> (int \<times> bytes) outcome option" where
  "atags_set_bootdev_by_spl_bootdevice bootdevice m =
     (let devtype = of_int (get_bootdev_by_spl_bootdevice bootdevice) :: u32;
          devtype1 = (if devtype < 0 then of_int BOOT_TYPE_UNKNOWN else devtype)
      in atags_set_tag False ATAG_BOOTDEV (Some (bootdev_data devtype1)) m)"

text \<open>The key is copied into a structure on the stack: more bytes than its field has are a \<open>Fault\<close>.\<close>

definition atags_set_pub_key :: "bytes option \<Rightarrow> int \<Rightarrow> int \<Rightarrow> bytes \<Rightarrow> (int \<times> bytes) outcome option" where
  "atags_set_pub_key data len flag m =
     (case data of None \<Rightarrow> Some (Done (- ENOMEM, m))
      | Some d \<Rightarrow>
        (let n = nat (len mod 2 ^ 32) in
         if 768 < n \<or> length d < n then Some Fault
         else atags_set_tag False ATAG_PUB_KEY
           (Some (overwrite 776 (put32le (of_int flag)) (overwrite 8 (take n d)
             (overwrite 4 (put32le (of_int len)) (replicate sizeof_tag_pub_key 0))))) m))"

definition atags_destroy :: "bytes \<Rightarrow> bytes outcome" where
  "atags_destroy m = bind_outcome (atags_is_available m) (\<lambda>avail.
     if avail then put_at 0 (replicate sizeof_tag 0) m else Done m)"

section \<open>The chain as a list of tags\<close>

text \<open>A tag in memory, the tags a caller can set, and the chain they form.\<close>

fun tag_image :: "u32 \<times> bytes \<Rightarrow> bytes" where
  "tag_image (magic, d) =
     (let h = put32le (of_nat (tag_words magic)) @ put32le magic @ d in h @ put32le (js_hash h))"

fun tag_ok :: "u32 \<times> bytes \<Rightarrow> bool" where
  "tag_ok (magic, d) \<longleftrightarrow> tag_words magic \<noteq> 0 \<and> length d = 4 * tag_words magic - 12"

definition chain :: "(u32 \<times> bytes) list \<Rightarrow> bytes" where
  "chain es = concat (map tag_image es)"

definition chain_end :: bytes where
  "chain_end = put32le 0 @ put32le ATAG_NONE"

definition tags_at :: "bytes \<Rightarrow> (u32 \<times> bytes) list \<Rightarrow> bool" where
  "tags_at m es \<longleftrightarrow> (\<exists>rest. m = core_image @ chain es @ chain_end @ rest) \<and> distinct (map fst es) \<and>
     list_all tag_ok es \<and> ATAGS_SIZE \<le> length m"

definition settable :: "u32 list" where
  "settable = [ATAG_SERIAL, ATAG_BOOTDEV, ATAG_TOS_MEM, ATAG_DDR_MEM, ATAG_RAM_PARTITION, ATAG_ATF_MEM, ATAG_PUB_KEY,
     ATAG_SOC_INFO, ATAG_BOOT1_PARAM, ATAG_PSTORE, ATAG_FWVER]"

lemma tag_words_settable: "tag_words magic \<noteq> 0 \<longleftrightarrow> magic \<in> set settable"
  by (simp add: tag_words_def settable_def tag_size_def atag_sizes)

lemma settable_facts:
  "list_all (\<lambda>mg. 10 \<le> tag_words mg \<and> tag_words mg \<le> 203 \<and> \<not> atags_bad_magic mg \<and> mg \<noteq> ATAG_CORE \<and> mg \<noteq> ATAG_NONE) settable"
  by code_simp

lemma tag_words_facts:
  assumes "tag_words mg \<noteq> 0"
  shows "10 \<le> tag_words mg" "tag_words mg \<le> 203" "\<not> atags_bad_magic mg" "mg \<noteq> ATAG_CORE" "mg \<noteq> ATAG_NONE"
proof -
  have "mg \<in> set settable" using assms tag_words_settable by blast
  then show "10 \<le> tag_words mg" "tag_words mg \<le> 203" "\<not> atags_bad_magic mg" "mg \<noteq> ATAG_CORE" "mg \<noteq> ATAG_NONE"
    using settable_facts by (auto simp: list_all_iff)
qed

lemma settable_total: "sum_list (map tag_words settable) = 518"
  by code_simp

lemma length_tag_image: "tag_ok e \<Longrightarrow> length (tag_image e) = 4 * tag_words (fst e)"
  using tag_words_facts(1) [of "fst e"] by (cases e) (simp add: Let_def)

lemma chain_simps [simp]: "chain [] = []" "chain (e # es) = tag_image e @ chain es" "chain (xs @ ys) = chain xs @ chain ys"
  by (simp_all add: chain_def)

lemma length_chain: "list_all tag_ok es \<Longrightarrow> length (chain es) = 4 * sum_list (map (tag_words \<circ> fst) es)"
  by (induction es) (simp_all add: length_tag_image)

lemma chain_bound:
  assumes "list_all tag_ok es" "distinct (map fst es)"
  shows "length (chain es) \<le> 2072"
proof -
  have "sum_list (map tag_words (map fst es)) = sum tag_words (set (map fst es))"
    using assms(2) by (rule sum_list_distinct_conv_sum_set)
  also have "\<dots> \<le> sum tag_words (set settable)"
    using assms(1) by (intro sum_mono2) (auto simp: list_all_iff simp flip: tag_words_settable)
  also have "\<dots> = sum_list (map tag_words settable)"
    by (rule sum_list_distinct_conv_sum_set [symmetric]) (simp add: settable_def atag_magics)
  finally show ?thesis using length_chain [OF assms(1)] by (simp add: settable_total)
qed

lemma length_core_image [simp]: "length core_image = 20"
  by (simp add: core_image_def)

lemma length_chain_end [simp]: "length chain_end = 8"
  by (simp add: chain_end_def)

lemma small_offsets:
  assumes "t + 4 * n \<le> ATAGS_SIZE"
  shows "tag_next t n = t + 4 * n" "\<not> atags_overflow t n" "\<not> atags_size_overflow t n"
  using assms by (simp_all add: tag_next_def atags_overflow_def atags_size_overflow_def ATAGS_SIZE_def)

lemma unat_words: "tag_words mg \<noteq> 0 \<Longrightarrow> unat (of_nat (tag_words mg) :: u32) = tag_words mg"
  using tag_words_facts(2) [of mg] by (simp add: unsigned_of_nat take_bit_nat_eq_self)

lemma of_nat_words: "tag_words mg \<noteq> 0 \<Longrightarrow> (of_nat (tag_words mg) :: u32) \<noteq> 0"
  using unat_words [of mg] by (metis unat_0)

text \<open>A tag in memory whose data need not fit its hash, as an update in place leaves it for a moment.\<close>

definition raw_tag :: "u32 \<Rightarrow> bytes \<Rightarrow> bytes" where
  "raw_tag mg u = put32le (of_nat (tag_words mg)) @ put32le mg @ u"

lemma tag_image_raw: "tag_image (mg, d) = raw_tag mg (d @ put32le (js_hash (put32le (of_nat (tag_words mg)) @ put32le mg @ d)))"
  by (simp add: raw_tag_def Let_def)

text \<open>One turn of the walk.\<close>

lemma walk_tag:
  assumes "m = pre @ raw_tag mg u @ post" "tag_words mg \<noteq> 0" "length pre + 4 * tag_words mg \<le> ATAGS_SIZE"
  shows "for_each_tag stop m magic (length pre) =
     (if mg = magic then Some (Done (Found (length pre))) else for_each_tag stop m magic (length pre + 4 * tag_words mg))"
proof -
  have "rd32le (length pre) m = Some (of_nat (tag_words mg))" "rd32le (length pre + 4) m = Some mg"
    by (simp_all add: assms(1) raw_tag_def rd32le_def)
  then show ?thesis
    using tag_words_facts [OF assms(2)] of_nat_words [OF assms(2)] small_offsets [OF assms(3)]
    by (subst for_each_tag.simps) (simp add: unat_words [OF assms(2)])
qed

lemma walk_skip:
  "m = pre @ chain es @ post \<Longrightarrow> list_all tag_ok es \<Longrightarrow> length pre + length (chain es) \<le> ATAGS_SIZE \<Longrightarrow> magic \<notin> fst ` set es \<Longrightarrow>
   for_each_tag stop m magic (length pre) = for_each_tag stop m magic (length (pre @ chain es))"
proof (induction es arbitrary: pre)
  case (Cons e es)
  obtain mg d where e: "e = (mg, d)" by (cases e)
  have l: "length (tag_image e) = 4 * tag_words mg" using Cons.prems(2) length_tag_image [of e] by (simp add: e)
  have "for_each_tag stop m magic (length pre) = for_each_tag stop m magic (length (pre @ tag_image e))"
    using walk_tag [of m pre mg _ "chain es @ post" stop magic] Cons.prems l by (auto simp: e tag_image_raw simp del: tag_image.simps)
  also have "\<dots> = for_each_tag stop m magic (length ((pre @ tag_image e) @ chain es))"
    using Cons.prems by (intro Cons.IH) (simp_all add: e del: tag_image.simps)
  finally show ?case by simp
qed simp

lemma walk_core:
  assumes "m = core_image @ rest" "magic \<noteq> ATAG_CORE"
  shows "for_each_tag stop m magic 0 = for_each_tag stop m magic 20"
proof -
  have r: "rd32le 0 m = Some 5" "rd32le 4 m = Some ATAG_CORE"
    by (simp_all add: assms(1) core_image_def rd32le_def tag_size_def atag_sizes)
  have "\<not> atags_bad_magic ATAG_CORE" "ATAG_CORE \<noteq> ATAG_NONE" by (simp_all add: atags_bad_magic_def ATAG_CORE_def ATAG_NONE_def)
  moreover have "tag_next 0 5 = 20" "\<not> atags_overflow 0 5" using small_offsets [of 0 5] by (simp_all add: ATAGS_SIZE_def)
  ultimately show ?thesis using r assms(2) by (subst for_each_tag.simps) simp
qed

text \<open>The walk over a whole chain.\<close>

lemma walk_found:
  assumes m: "m = core_image @ chain xs @ raw_tag magic u @ post" and ok: "list_all tag_ok xs" "magic \<notin> fst ` set xs" "tag_words magic \<noteq> 0"
    and b: "length (chain xs) + 4 * tag_words magic \<le> 2072"
  shows "for_each_tag stop m magic 0 = Some (Done (Found (20 + length (chain xs))))"
proof -
  have "for_each_tag stop m magic 0 = for_each_tag stop m magic (length (core_image @ chain xs))"
    using walk_core [OF m tag_words_facts(4) [OF ok(3)]] walk_skip [OF m ok(1) _ ok(2)] b by (simp add: ATAGS_SIZE_def)
  also have "\<dots> = Some (Done (Found (length (core_image @ chain xs))))"
    using walk_tag [of m "core_image @ chain xs" magic u post stop magic] m ok(3) b by (simp add: ATAGS_SIZE_def)
  finally show ?thesis by simp
qed

lemma walk_end:
  assumes "tags_at m es" "magic \<notin> fst ` set es" "magic \<noteq> ATAG_CORE"
  shows "for_each_tag stop m magic 0 = Some (Done (At_end (20 + length (chain es))))"
proof -
  obtain rest where m: "m = core_image @ chain es @ chain_end @ rest" and ok: "list_all tag_ok es" "distinct (map fst es)"
    using assms(1) by (auto simp: tags_at_def)
  have "for_each_tag stop m magic 0 = for_each_tag stop m magic (length (core_image @ chain es))"
    using walk_core [OF m assms(3)] walk_skip [OF m ok(1) _ assms(2)] chain_bound [OF ok] by (simp add: ATAGS_SIZE_def)
  moreover have "rd32le (length (core_image @ chain es)) m = Some 0" by (simp add: m rd32le_def chain_end_def)
  ultimately show ?thesis by (subst (asm) (2) for_each_tag.simps) simp
qed

section \<open>Setting a tag of a chain\<close>

lemma put_at_end: "length T \<le> length R \<Longrightarrow> put_at (length pre) T (pre @ R) = Done (pre @ T @ drop (length T) R)"
  by (simp add: put_at_def overwrite_def)

lemma put_at_same: "length T = length S \<Longrightarrow> put_at (length pre) T (pre @ S @ post) = Done (pre @ T @ post)"
  by (simp add: put_at_def overwrite_def)

text \<open>What is kept of the data a caller hands over.\<close>

definition tag_part :: "u32 \<Rightarrow> bytes \<Rightarrow> bytes" where
  "tag_part mg d = take (4 * tag_words mg - 12) d"

lemma tag_ok_part: "tag_words mg \<noteq> 0 \<Longrightarrow> 4 * tag_words mg - 12 \<le> length d \<Longrightarrow> tag_ok (mg, tag_part mg d)"
  by (simp add: tag_part_def)

lemma write_tag_eq:
  assumes "4 * tag_words mg - 12 \<le> length d"
  shows "write_tag t mg (tag_words mg) d app m = bind_outcome (put_at t (tag_image (mg, tag_part mg d)) m) (\<lambda>m1.
     if app then bind_outcome (put_at (tag_next t (tag_words mg)) chain_end m1) (\<lambda>m2. Done (0, m2)) else Done (0, m1))"
  using assms by (cases app) (simp_all add: write_tag_def sizeof_tag_header_def HASH_LEN_def Let_def tag_part_def chain_end_def)

lemma alist_update_split:
  "k \<notin> fst ` set xs \<Longrightarrow> AList.update k v (xs @ (k, u) # ys) = xs @ (k, v) # ys"
  "k \<notin> fst ` set xs \<Longrightarrow> AList.update k v xs = xs @ [(k, v)]"
  by (induction xs) auto

lemma available_chain: "m = core_image @ rest \<Longrightarrow> atags_is_available m = Done True"
  by (simp add: atags_is_available_def rdw_def rd32le_def core_image_def)

lemma set_tag_raw:
  assumes m: "m = (core_image @ chain xs) @ raw_tag mg u @ chain ys @ chain_end @ rest" and u: "length u = 4 * tag_words mg - 8"
    and w: "tag_words mg \<noteq> 0" and ok: "list_all tag_ok (xs @ ys)" "distinct (map fst xs @ mg # map fst ys)" and l: "ATAGS_SIZE \<le> length m"
    and d: "4 * tag_words mg - 12 \<le> length d"
  shows "\<exists>m1. atags_set_tag tpl mg (Some d) m = Some (Done (0, m1)) \<and> tags_at m1 (xs @ (mg, tag_part mg d) # ys) \<and>
     length m1 = length m \<and> drop ATAGS_SIZE m1 = drop ATAGS_SIZE m"
proof -
  have ok2: "tag_ok (mg, tag_part mg d)" using tag_ok_part w d by blast
  let ?T = "tag_image (mg, tag_part mg d)"
  have len: "length ?T = 4 * tag_words mg" "length (raw_tag mg u) = 4 * tag_words mg"
    using length_tag_image [OF ok2] u tag_words_facts(1) [OF w] by (simp_all add: raw_tag_def del: tag_image.simps)
  have b: "length (chain xs) + 4 * tag_words mg + length (chain ys) \<le> 2072"
    using chain_bound [of "xs @ (mg, tag_part mg d) # ys"] ok ok2 len by (simp del: tag_image.simps)
  define m1 where "m1 = (core_image @ chain xs) @ ?T @ chain ys @ chain_end @ rest"
  have "write_tag (20 + length (chain xs)) mg (tag_words mg) d False m = Done (0, m1)"
    using put_at_same [of ?T "raw_tag mg u" "core_image @ chain xs" "chain ys @ chain_end @ rest"] len
    by (simp add: write_tag_eq [OF d] m m1_def del: tag_image.simps)
  moreover have "for_each_tag True m mg 0 = Some (Done (Found (20 + length (chain xs))))"
    using ok w b by (intro walk_found [of m xs mg u "chain ys @ chain_end @ rest"]) (auto simp: m)
  ultimately have "atags_set_tag tpl mg (Some d) m = Some (Done (0, m1))"
    using available_chain [of m] m tag_words_facts [OF w] w b small_offsets(3) [of "20 + length (chain xs)" "tag_words mg"]
    by (simp add: atags_set_tag_def Let_def ATAGS_SIZE_def)
  moreover have "length m1 = length m" "drop ATAGS_SIZE m1 = drop ATAGS_SIZE m"
    using len b by (simp_all add: m m1_def ATAGS_SIZE_def del: tag_image.simps)
  moreover from this have "tags_at m1 (xs @ (mg, tag_part mg d) # ys)"
    using ok ok2 l by (auto simp: tags_at_def m1_def simp del: tag_image.simps)
  ultimately show ?thesis by blast
qed

text \<open>The place of a tag in a chain.\<close>

lemma tags_at_split:
  assumes "tags_at m (xs @ (mg, d) # ys)"
  obtains h rest where "m = (core_image @ chain xs) @ raw_tag mg (d @ h) @ chain ys @ chain_end @ rest"
    "h = put32le (js_hash (put32le (of_nat (tag_words mg)) @ put32le mg @ d))" "tag_words mg \<noteq> 0" "length d = 4 * tag_words mg - 12"
    "list_all tag_ok (xs @ ys)" "distinct (map fst xs @ mg # map fst ys)" "ATAGS_SIZE \<le> length m"
    "length (chain xs) + 4 * tag_words mg \<le> 2072"
proof -
  obtain rest where m: "m = (core_image @ chain xs) @ tag_image (mg, d) @ chain ys @ chain_end @ rest"
    using assms by (auto simp: tags_at_def)
  have ok: "tag_ok (mg, d)" "list_all tag_ok (xs @ ys)" "distinct (map fst xs @ mg # map fst ys)" "ATAGS_SIZE \<le> length m"
    using assms by (auto simp: tags_at_def)
  have "length (chain xs) + 4 * tag_words mg \<le> 2072"
    using chain_bound [of "xs @ (mg, d) # ys"] assms length_tag_image [OF ok(1)] by (simp add: tags_at_def del: tag_image.simps)
  from that [OF m [unfolded tag_image_raw] refl _ _ ok(2-4) this] ok(1) show ?thesis by simp
qed

lemma set_tag_found:
  assumes "tags_at m (xs @ (mg, u) # ys)" "4 * tag_words mg - 12 \<le> length d"
  shows "\<exists>m1. atags_set_tag tpl mg (Some d) m = Some (Done (0, m1)) \<and> tags_at m1 (xs @ (mg, tag_part mg d) # ys) \<and>
     length m1 = length m \<and> drop ATAGS_SIZE m1 = drop ATAGS_SIZE m"
  using assms(1)
proof (rule tags_at_split)
  fix h rest
  assume a: "m = (core_image @ chain xs) @ raw_tag mg (u @ h) @ chain ys @ chain_end @ rest"
    "h = put32le (js_hash (put32le (of_nat (tag_words mg)) @ put32le mg @ u))" "tag_words mg \<noteq> 0" "length u = 4 * tag_words mg - 12"
    "list_all tag_ok (xs @ ys)" "distinct (map fst xs @ mg # map fst ys)" "ATAGS_SIZE \<le> length m"
  have "length (u @ h) = 4 * tag_words mg - 8" using a(2,4) tag_words_facts(1) [OF a(3)] by simp
  from set_tag_raw [OF a(1) this a(3,5,6,7) assms(2)] show ?thesis .
qed

lemma set_tag_new:
  assumes "tags_at m es" "mg \<notin> fst ` set es" "tag_words mg \<noteq> 0" "4 * tag_words mg - 12 \<le> length d"
  shows "\<exists>m1. atags_set_tag tpl mg (Some d) m = Some (Done (0, m1)) \<and> tags_at m1 (es @ [(mg, tag_part mg d)]) \<and>
     length m1 = length m \<and> drop ATAGS_SIZE m1 = drop ATAGS_SIZE m"
proof -
  obtain rest where m: "m = (core_image @ chain es) @ chain_end @ rest" and ok: "list_all tag_ok es" "distinct (map fst es)"
    and l: "ATAGS_SIZE \<le> length m"
    using assms(1) by (auto simp: tags_at_def)
  have ok2: "tag_ok (mg, tag_part mg d)" using tag_ok_part assms by simp
  let ?T = "tag_image (mg, tag_part mg d)"
  have len: "length ?T = 4 * tag_words mg" using length_tag_image [OF ok2] by (simp del: tag_image.simps)
  have b: "length (chain es) + 4 * tag_words mg \<le> 2072"
    using chain_bound [of "es @ [(mg, tag_part mg d)]"] ok ok2 assms(2) len by (simp add: image_iff del: tag_image.simps)
  define m1 where "m1 = (core_image @ chain es @ ?T) @ chain_end @ drop (4 * tag_words mg) rest"
  let ?t = "20 + length (chain es)"
  have n: "tag_next ?t (tag_words mg) = length (core_image @ chain es @ ?T)" "\<not> atags_size_overflow ?t (tag_words mg)"
    using small_offsets [of ?t "tag_words mg"] b len by (simp_all add: ATAGS_SIZE_def del: tag_image.simps)
  have "put_at ?t ?T m = Done ((core_image @ chain es @ ?T) @ drop (4 * tag_words mg) (chain_end @ rest))"
    using put_at_end [of ?T "chain_end @ rest" "core_image @ chain es"] len l b
    by (simp add: m ATAGS_SIZE_def del: tag_image.simps)
  moreover have "put_at (length (core_image @ chain es @ ?T)) chain_end ((core_image @ chain es @ ?T) @ drop (4 * tag_words mg) (chain_end @ rest))
      = Done m1"
    using put_at_end [of chain_end "drop (4 * tag_words mg) (chain_end @ rest)" "core_image @ chain es @ ?T"] len l b m
      tag_words_facts(1) [OF assms(3)]
    by (simp add: m1_def ATAGS_SIZE_def add.commute del: tag_image.simps)
  ultimately have "write_tag ?t mg (tag_words mg) d True m = Done (0, m1)"
    by (simp add: write_tag_eq [OF assms(4)] n del: tag_image.simps)
  then have "atags_set_tag tpl mg (Some d) m = Some (Done (0, m1))"
    using walk_end [OF assms(1,2), of True] available_chain [of m] m tag_words_facts [OF assms(3)] assms(3) n(2)
    by (simp add: atags_set_tag_def Let_def)
  moreover have "length m1 = length m" "drop ATAGS_SIZE m1 = drop ATAGS_SIZE m"
    using len b l m by (simp_all add: m1_def ATAGS_SIZE_def del: tag_image.simps)
  moreover from this have "tags_at m1 (es @ [(mg, tag_part mg d)])"
    using ok ok2 l assms(2) by (auto simp: tags_at_def m1_def simp del: tag_image.simps)
  ultimately show ?thesis by blast
qed

text \<open>Setting a tag updates one entry of the chain and nothing else.\<close>

lemma set_tag_update:
  assumes "tags_at m es" "tag_words mg \<noteq> 0" "4 * tag_words mg - 12 \<le> length d"
  shows "\<exists>m1. atags_set_tag tpl mg (Some d) m = Some (Done (0, m1)) \<and> tags_at m1 (AList.update mg (tag_part mg d) es) \<and>
     length m1 = length m \<and> drop ATAGS_SIZE m1 = drop ATAGS_SIZE m"
proof (cases "mg \<in> fst ` set es")
  case True
  then obtain u where "(mg, u) \<in> set es" by auto
  then obtain xs ys where es: "es = xs @ (mg, u) # ys" by (auto dest: split_list)
  moreover have "mg \<notin> fst ` set xs" using assms(1) es by (auto simp: tags_at_def)
  ultimately show ?thesis using set_tag_found [OF _ assms(3), of m xs u ys] assms(1) by (simp add: alist_update_split)
next
  case False
  then show ?thesis using set_tag_new [OF assms(1) False assms(2,3)] by (simp add: alist_update_split)
qed

section \<open>Getting a tag\<close>

lemma get_tag_found:
  assumes "tags_at m (xs @ (mg, d) # ys)"
  shows "atags_get_tag mg m = Some (Done (Some (20 + length (chain xs)))) \<and>
     slice (20 + length (chain xs) + 8) (4 * tag_words mg - 12) m = Some d"
  using assms
proof (rule tags_at_split)
  fix h rest
  let ?h = "put32le (of_nat (tag_words mg)) @ put32le mg @ d" and ?t = "20 + length (chain xs)"
  assume m: "m = (core_image @ chain xs) @ raw_tag mg (d @ h) @ chain ys @ chain_end @ rest" and h: "h = put32le (js_hash ?h)"
    and w: "tag_words mg \<noteq> 0" "length d = 4 * tag_words mg - 12" and ok: "list_all tag_ok (xs @ ys)" "distinct (map fst xs @ mg # map fst ys)"
    and b: "length (chain xs) + 4 * tag_words mg \<le> 2072"
  have n: "10 \<le> tag_words mg" "tag_words mg \<le> 203" using tag_words_facts [OF w(1)] by blast+
  have m2: "m = (core_image @ chain xs) @ ?h @ put32le (js_hash ?h) @ chain ys @ chain_end @ rest"
    using m h by (simp add: raw_tag_def)
  have s: "rd32le ?t m = Some (of_nat (tag_words mg))" by (simp add: m2 rd32le_def)
  have "(?t + 4 * tag_words mg + (2 ^ 32 - HASH_LEN)) mod 2 ^ 32 = length ((core_image @ chain xs) @ ?h)"
    using b n w(2) by (simp add: HASH_LEN_def mod_if)
  moreover have "rd32le (length ((core_image @ chain xs) @ ?h)) m = Some (js_hash ?h)" by (simp add: m2 rd32le_def)
  moreover have "(4 * tag_words mg + (2 ^ 32 - HASH_LEN)) mod 2 ^ 32 = length ?h"
    using n w(2) by (simp add: HASH_LEN_def mod_if)
  moreover have "slice ?t (length ?h) m = Some ?h" using m2 by (simp add: slice_def)
  moreover have "for_each_tag False m mg 0 = Some (Done (Found ?t))"
    using ok w b by (intro walk_found [of m xs mg "d @ h" "chain ys @ chain_end @ rest"]) (auto simp: m)
  ultimately have "atags_get_tag mg m = Some (Done (Some ?t))"
    using available_chain [of m] m s by (simp add: atags_get_tag_def rdw_def unat_words [OF w(1)])
  moreover have "slice (?t + 8) (4 * tag_words mg - 12) m = Some d" using m2 w(2) by (simp add: slice_def)
  ultimately show ?thesis by blast
qed

lemma get_tag_absent:
  assumes "tags_at m es" "mg \<notin> fst ` set es" "mg \<noteq> ATAG_CORE"
  shows "atags_get_tag mg m = Some (Done None)"
  using walk_end [OF assms, of False] assms(1) available_chain [of m] by (auto simp: atags_get_tag_def tags_at_def)

text \<open>The data of the tag a caller gets.\<close>

definition tag_data :: "bytes \<Rightarrow> u32 \<Rightarrow> bytes option" where
  "tag_data m mg = (case atags_get_tag mg m of
      Some (Done (Some t)) \<Rightarrow> slice (t + sizeof_tag_header) (4 * tag_words mg - 12) m
    | _ \<Rightarrow> None)"

lemma tag_data_map:
  assumes "tags_at m es" "mg \<noteq> ATAG_CORE"
  shows "tag_data m mg = map_of es mg"
proof (cases "mg \<in> fst ` set es")
  case True
  then obtain d where d: "map_of es mg = Some d" by (metis map_of_eq_None_iff option.exhaust)
  then obtain xs ys where es: "es = xs @ (mg, d) # ys" by (metis map_of_SomeD split_list)
  show ?thesis using get_tag_found [OF assms(1) [unfolded es]] d by (simp add: tag_data_def sizeof_tag_header_def)
next
  case False
  then have "map_of es mg = None" by (simp add: map_of_eq_None_iff)
  then show ?thesis using get_tag_absent [OF assms(1) False assms(2)] by (simp add: tag_data_def)
qed

section \<open>The first tag\<close>

lemma set_tag_fresh:
  assumes "rd32le 4 m = Some v" "v \<noteq> ATAG_CORE" "ATAGS_SIZE \<le> length m" "tag_words mg \<noteq> 0" "4 * tag_words mg - 12 \<le> length d"
  shows "\<exists>m1. atags_set_tag True mg (Some d) m = Some (Done (0, m1)) \<and> tags_at m1 [(mg, tag_part mg d)] \<and>
     length m1 = length m \<and> drop ATAGS_SIZE m1 = drop ATAGS_SIZE m"
proof -
  have ok: "tag_ok (mg, tag_part mg d)" using tag_ok_part assms(4,5) by blast
  let ?T = "tag_image (mg, tag_part mg d)" and ?R = "drop 20 m"
  have len: "length ?T = 4 * tag_words mg" using length_tag_image [OF ok] by (simp del: tag_image.simps)
  have n: "10 \<le> tag_words mg" "tag_words mg \<le> 203" using tag_words_facts [OF assms(4)] by blast+
  define m1 where "m1 = (core_image @ ?T) @ chain_end @ drop (4 * tag_words mg + 8) ?R"
  have c: "put_at 0 core_image m = Done (core_image @ ?R)"
    using put_at_end [of core_image m "[]"] assms(3) by (simp add: ATAGS_SIZE_def)
  have s: "tag_next 0 (tag_size sizeof_tag_core) = 20" "tag_next 20 (tag_words mg) = length (core_image @ ?T)"
    "\<not> atags_size_overflow 20 (tag_words mg)"
    using small_offsets [of 0 5] small_offsets [of 20 "tag_words mg"] n len
    by (simp_all add: tag_size_def atag_sizes ATAGS_SIZE_def del: tag_image.simps)
  have "put_at 20 ?T (core_image @ ?R) = Done ((core_image @ ?T) @ drop (4 * tag_words mg) ?R)"
    using put_at_end [of ?T ?R core_image] len n assms(3) by (simp add: ATAGS_SIZE_def del: tag_image.simps)
  moreover have "put_at (length (core_image @ ?T)) chain_end ((core_image @ ?T) @ drop (4 * tag_words mg) ?R) = Done m1"
    using put_at_end [of chain_end "drop (4 * tag_words mg) ?R" "core_image @ ?T"] n assms(3)
    by (simp add: m1_def ATAGS_SIZE_def add.commute add.left_commute del: tag_image.simps)
  ultimately have "write_tag 20 mg (tag_words mg) d True (core_image @ ?R) = Done (0, m1)"
    by (simp add: write_tag_eq [OF assms(5)] s del: tag_image.simps)
  then have "atags_set_tag True mg (Some d) m = Some (Done (0, m1))"
    using c s assms(1,2,4) tag_words_facts [OF assms(4)] by (simp add: atags_set_tag_def atags_is_available_def rdw_def Let_def)
  moreover have "length m1 = length m" "drop ATAGS_SIZE m1 = drop ATAGS_SIZE m"
    using len n assms(3) by (simp_all add: m1_def ATAGS_SIZE_def del: tag_image.simps)
  moreover from this have "tags_at m1 [(mg, tag_part mg d)]"
    using ok assms(3) by (auto simp: tags_at_def m1_def simp del: tag_image.simps)
  ultimately show ?thesis by blast
qed

section \<open>The tags as a boot stage sees them\<close>

text \<open>
  A store that takes every acceptable value for a key, and what follows for a sequence of them.
\<close>

fun put_all :: "('k \<Rightarrow> 'v \<Rightarrow> 's \<Rightarrow> (int \<times> 's) outcome option) \<Rightarrow> ('k \<times> 'v) list \<Rightarrow> 's \<Rightarrow> 's option" where
  "put_all put [] s = Some s"
| "put_all put ((k, v) # kvs) s =
     (case put k v s of Some (Done (ret, s1)) \<Rightarrow> if ret = 0 then put_all put kvs s1 else None | _ \<Rightarrow> None)"

locale keyed_store =
  fixes invar :: "'s \<Rightarrow> bool" and contents :: "'s \<Rightarrow> 'k \<rightharpoonup> 'd"
    and accepts :: "'k \<Rightarrow> 'v \<Rightarrow> bool" and part :: "'k \<Rightarrow> 'v \<Rightarrow> 'd"
    and put :: "'k \<Rightarrow> 'v \<Rightarrow> 's \<Rightarrow> (int \<times> 's) outcome option"
  assumes put_law: "invar s \<Longrightarrow> accepts k v \<Longrightarrow>
    \<exists>s1. put k v s = Some (Done (0, s1)) \<and> invar s1 \<and> contents s1 = (contents s)(k \<mapsto> part k v)"
begin

lemma puts_law:
  "invar s \<Longrightarrow> \<forall>(k, v)\<in>set kvs. accepts k v \<Longrightarrow>
   \<exists>s1. put_all put kvs s = Some s1 \<and> invar s1 \<and> contents s1 = fold (\<lambda>(k, v) c. c(k \<mapsto> part k v)) kvs (contents s)"
proof (induction kvs arbitrary: s)
  case (Cons kv kvs)
  obtain k v where kv: "kv = (k, v)" by (cases kv)
  obtain s1 where "put k v s = Some (Done (0, s1))" "invar s1" "contents s1 = (contents s)(k \<mapsto> part k v)"
    using put_law [OF Cons.prems(1), of k v] Cons.prems(2) kv by auto
  with Cons.IH [of s1] Cons.prems(2) show ?case by (simp add: kv)
qed simp

end

definition tag_accepts :: "u32 \<Rightarrow> bytes \<Rightarrow> bool" where
  "tag_accepts mg d \<longleftrightarrow> tag_words mg \<noteq> 0 \<and> 4 * tag_words mg - 12 \<le> length d"

text \<open>The tags but the first, which only marks the chain; and the memory in which they lie, whose rest is \<open>behind\<close>.\<close>

definition tag_map :: "bytes \<Rightarrow> u32 \<rightharpoonup> bytes" where
  "tag_map m mg = (if mg = ATAG_CORE then None else tag_data m mg)"

definition tag_area :: "bytes \<Rightarrow> bytes \<Rightarrow> bool" where
  "tag_area behind m \<longleftrightarrow> (\<exists>es. tags_at m es) \<and> drop ATAGS_SIZE m = behind"

lemma tag_map_at:
  assumes "tags_at m es"
  shows "tag_map m = map_of es"
proof
  fix mg
  have "ATAG_CORE \<notin> fst ` set es" using assms tag_words_facts(4) by (fastforce simp: tags_at_def list_all_iff)
  then have "map_of es ATAG_CORE = None" by (simp add: map_of_eq_None_iff)
  then show "tag_map m mg = map_of es mg" using tag_data_map [OF assms, of mg] by (simp add: tag_map_def)
qed

interpretation atag_store: keyed_store "tag_area behind" tag_map tag_accepts tag_part "\<lambda>mg d. atags_set_tag tpl mg (Some d)"
  for behind tpl
proof
  fix m mg d
  assume a: "tag_area behind m" "tag_accepts mg d"
  then obtain es where es: "tags_at m es" "drop ATAGS_SIZE m = behind" by (auto simp: tag_area_def)
  with set_tag_update [OF es(1), of mg d tpl] a(2)
  obtain m1 where m1: "atags_set_tag tpl mg (Some d) m = Some (Done (0, m1))" "tags_at m1 (AList.update mg (tag_part mg d) es)"
      "drop ATAGS_SIZE m1 = behind"
    by (auto simp: tag_accepts_def)
  moreover have "tag_map m1 = (tag_map m)(mg \<mapsto> tag_part mg d)"
    using tag_map_at [OF es(1)] tag_map_at [OF m1(2)] by (simp add: update_conv')
  ultimately show "\<exists>s1. atags_set_tag tpl mg (Some d) m = Some (Done (0, s1)) \<and> tag_area behind s1 \<and>
      tag_map s1 = (tag_map m)(mg \<mapsto> tag_part mg d)"
    by (auto simp: tag_area_def)
qed

section \<open>The firmware versions\<close>

lemma overwrite_inside:
  assumes "k + length new \<le> length b"
  shows "overwrite (length a + k) new (a @ b @ c) = a @ overwrite k new b @ c"
  using assms by (simp add: overwrite_def)

lemma tag_words_fwver: "tag_words ATAG_FWVER = 76"
  by code_simp

definition fwver_slot :: "nat \<Rightarrow> bytes \<Rightarrow> bytes \<Rightarrow> bytes" where
  "fwver_slot fwid v d = overwrite (4 + FWVER_LEN * fwid) (v @ [0]) d"

lemma set_shared_fwver_update:
  assumes "tags_at m es" "fwid < FW_MAX" "length v < FWVER_LEN"
  shows "\<exists>m1. atags_set_shared_fwver tpl fwid (Some v) m = Some (Done (0, m1)) \<and>
     tags_at m1 (AList.update ATAG_FWVER (fwver_slot fwid v (case map_of es ATAG_FWVER of None \<Rightarrow> replicate 292 0 | Some d \<Rightarrow> d)) es)"
proof (cases "map_of es ATAG_FWVER")
  case None
  then have n: "ATAG_FWVER \<notin> fst ` set es" by (simp add: map_of_eq_None_iff)
  have fit: "4 + 36 * fwid + length v + 1 \<le> 292" using assms(2,3) by (simp add: FW_MAX_def FWVER_LEN_def)
  have p: "tag_part ATAG_FWVER (fwver_slot fwid v (replicate sizeof_tag_fwver 0)) = fwver_slot fwid v (replicate 292 0)"
    using fit by (simp add: tag_part_def fwver_slot_def overwrite_def tag_words_fwver FWVER_LEN_def sizeof_tag_fwver_def take_Cons')
  have "atags_get_tag ATAG_FWVER m = Some (Done None)"
    using get_tag_absent [OF assms(1) n] by (simp add: ATAG_FWVER_def ATAG_CORE_def)
  moreover have "4 * tag_words ATAG_FWVER - 12 \<le> length (fwver_slot fwid v (replicate sizeof_tag_fwver 0))"
    using fit by (simp add: fwver_slot_def overwrite_def tag_words_fwver FWVER_LEN_def sizeof_tag_fwver_def)
  ultimately show ?thesis
    using set_tag_update [OF assms(1), of ATAG_FWVER "fwver_slot fwid v (replicate sizeof_tag_fwver 0)" tpl] assms(2,3) p None
    by (auto simp: atags_set_shared_fwver_def tag_words_fwver fwver_slot_def)
next
  case (Some d)
  then obtain xs ys where es: "es = xs @ (ATAG_FWVER, d) # ys" by (metis map_of_SomeD split_list)
  note at = assms(1) [unfolded es]
  let ?t = "20 + length (chain xs)" and ?d = "fwver_slot fwid v d"
  from at show ?thesis
  proof (rule tags_at_split)
    fix h rest
    assume a: "m = (core_image @ chain xs) @ raw_tag ATAG_FWVER (d @ h) @ chain ys @ chain_end @ rest"
      "h = put32le (js_hash (put32le (of_nat (tag_words ATAG_FWVER)) @ put32le ATAG_FWVER @ d))" "tag_words ATAG_FWVER \<noteq> 0"
      "length d = 4 * tag_words ATAG_FWVER - 12" "list_all tag_ok (xs @ ys)" "distinct (map fst xs @ ATAG_FWVER # map fst ys)" "ATAGS_SIZE \<le> length m"
    have ld: "length d = 292" using a(4) by (simp add: tag_words_fwver)
    have fit: "4 + 36 * fwid + length (v @ [0]) \<le> length d" using assms(2,3) ld by (simp add: FW_MAX_def FWVER_LEN_def)
    have ld2: "length ?d = 292" using fit ld by (simp add: fwver_slot_def FWVER_LEN_def length_overwrite)
    let ?pre = "(core_image @ chain xs) @ put32le (of_nat (tag_words ATAG_FWVER)) @ put32le ATAG_FWVER"
    define m1 where "m1 = (core_image @ chain xs) @ raw_tag ATAG_FWVER (?d @ h) @ chain ys @ chain_end @ rest"
    have m: "m = ?pre @ d @ h @ chain ys @ chain_end @ rest" using a(1) by (simp add: raw_tag_def)
    have m1: "m1 = ?pre @ ?d @ h @ chain ys @ chain_end @ rest" by (simp add: m1_def raw_tag_def)
    have off: "?t + sizeof_tag_header + 4 + FWVER_LEN * fwid = length ?pre + (4 + 36 * fwid)" by (simp add: sizeof_tag_header_def FWVER_LEN_def)
    have "put_at (?t + sizeof_tag_header + 4 + FWVER_LEN * fwid) (v @ [0]) m = Done m1"
      using overwrite_inside [OF fit, of ?pre "h @ chain ys @ chain_end @ rest"] fit
      unfolding off put_at_def m1 m by (simp add: fwver_slot_def FWVER_LEN_def)
    moreover have "slice (?t + sizeof_tag_header) (sizeof_tag_fwver - HASH_LEN) m1 = Some ?d"
      using slice_exact [of ?pre "?t + 8" ?d 292] ld2 by (simp add: m1 sizeof_tag_header_def sizeof_tag_fwver_def FWVER_LEN_def HASH_LEN_def)
    moreover have "atags_get_tag ATAG_FWVER m = Some (Done (Some ?t))" using get_tag_found [OF at] by blast
    moreover have "length (?d @ h) = 4 * tag_words ATAG_FWVER - 8" "length m1 = length m"
      using ld ld2 a(2) by (simp_all add: m m1 tag_words_fwver)
    moreover have "tag_part ATAG_FWVER ?d = ?d" using ld2 by (simp add: tag_part_def tag_words_fwver)
    ultimately show ?thesis
      using set_tag_raw [OF m1_def _ a(3,5,6), of ?d tpl] a(6,7) ld2 assms(2,3) Some
      by (auto simp: atags_set_shared_fwver_def tag_words_fwver es alist_update_split)
  qed
qed

section \<open>Properties\<close>

text \<open>C30: The first loader finds no chain and sets tags, later stages set further ones: as long as every tag is one of the known
  kinds with its data, no call fails, whatever the order and however often a tag is set again, and the chain stays inside
  its 8 KiB.  Afterwards \<open>atags_get_tag\<close> finds for every magic the data set last, with an intact hash, and NULL for a magic
  never set.\<close>

theorem atags_last_set_wins:
  assumes "rd32le 4 m = Some v" "v \<noteq> ATAG_CORE" "ATAGS_SIZE \<le> length m"
    and "first \<noteq> []" "\<forall>(mg, d)\<in>set first. tag_accepts mg d" "\<forall>(mg, d)\<in>set later. tag_accepts mg d"
  shows "\<exists>m1 m2. put_all (\<lambda>mg d. atags_set_tag True mg (Some d)) first m = Some m1 \<and>
     put_all (\<lambda>mg d. atags_set_tag False mg (Some d)) later m1 = Some m2 \<and>
     drop ATAGS_SIZE m2 = drop ATAGS_SIZE m \<and>
     tag_map m2 = fold (\<lambda>(mg, d) c. c(mg \<mapsto> tag_part mg d)) (first @ later) Map.empty"
proof -
  obtain mg d rest where f: "first = (mg, d) # rest" using assms(4) by (cases first) auto
  have acc: "tag_accepts mg d" "\<forall>(mg, d)\<in>set rest. tag_accepts mg d" using assms(5) by (auto simp: f)
  obtain m0 where m0: "atags_set_tag True mg (Some d) m = Some (Done (0, m0))" "tags_at m0 [(mg, tag_part mg d)]"
      "drop ATAGS_SIZE m0 = drop ATAGS_SIZE m"
    using set_tag_fresh [OF assms(1-3), of mg d] acc(1) by (auto simp: tag_accepts_def)
  then have "tag_area (drop ATAGS_SIZE m) m0" "tag_map m0 = Map.empty(mg \<mapsto> tag_part mg d)"
    using tag_map_at [OF m0(2)] by (auto simp: tag_area_def)
  with atag_store.puts_law [of "drop ATAGS_SIZE m" m0 rest True] acc(2)
  obtain m1 where m1: "put_all (\<lambda>mg d. atags_set_tag True mg (Some d)) rest m0 = Some m1" "tag_area (drop ATAGS_SIZE m) m1"
      "tag_map m1 = fold (\<lambda>(mg, d) c. c(mg \<mapsto> tag_part mg d)) rest (Map.empty(mg \<mapsto> tag_part mg d))" by auto
  with atag_store.puts_law [of "drop ATAGS_SIZE m" m1 later False] assms(6)
  obtain m2 where "put_all (\<lambda>mg d. atags_set_tag False mg (Some d)) later m1 = Some m2" "tag_area (drop ATAGS_SIZE m) m2"
      "tag_map m2 = fold (\<lambda>(mg, d) c. c(mg \<mapsto> tag_part mg d)) later (tag_map m1)" by auto
  with m0(1) m1 show ?thesis by (simp add: f tag_area_def)
qed

theorem atags_last_set_wins_witness:
  "\<exists>m1 m2. put_all (\<lambda>mg d. atags_set_tag True mg (Some d)) [(ATAG_SERIAL, replicate 40 1)] (put32le 0 @ put32le 7 @ replicate 0x2000 0) = Some m1 \<and>
     put_all (\<lambda>mg d. atags_set_tag False mg (Some d)) [(ATAG_SERIAL, replicate 40 2)] m1 = Some m2 \<and>
     tag_map m2 ATAG_SERIAL = Some (replicate 36 2)"
proof -
  have s: "tag_words ATAG_SERIAL = 12" by code_simp
  have "rd32le 4 (put32le 0 @ put32le 7 @ replicate 0x2000 0) = Some 7" by (simp add: rd32le_def)
  from atags_last_set_wins [OF this, of "[(ATAG_SERIAL, replicate 40 1)]" "[(ATAG_SERIAL, replicate 40 2)]"]
  obtain m1 m2 where "put_all (\<lambda>mg d. atags_set_tag True mg (Some d)) [(ATAG_SERIAL, replicate 40 1)] (put32le 0 @ put32le 7 @ replicate 0x2000 0) = Some m1"
      "put_all (\<lambda>mg d. atags_set_tag False mg (Some d)) [(ATAG_SERIAL, replicate 40 2)] m1 = Some m2"
      "tag_map m2 = fold (\<lambda>(mg, d) c. c(mg \<mapsto> tag_part mg d)) ([(ATAG_SERIAL, replicate 40 1)] @ [(ATAG_SERIAL, replicate 40 2)]) Map.empty"
    by (auto simp: tag_accepts_def s ATAG_CORE_def ATAGS_SIZE_def)
  then show ?thesis by (auto simp: tag_part_def s)
qed

text \<open>\<open>atags_set_shared_fwver\<close> stores a version string of less than 36 bytes in its field of the firmware version tag, which it creates
  when there is none; the fields of the other firmware and all other tags stay as they were.\<close>

theorem atags_set_shared_fwver_stores:
  assumes "tag_area behind m" "fwid < FW_MAX" "length v < FWVER_LEN"
  shows "\<exists>m1. atags_set_shared_fwver tpl fwid (Some v) m = Some (Done (0, m1)) \<and>
     tag_map m1 = (tag_map m)(ATAG_FWVER \<mapsto> fwver_slot fwid v (case tag_map m ATAG_FWVER of None \<Rightarrow> replicate 292 0 | Some d \<Rightarrow> d))"
proof -
  obtain es where es: "tags_at m es" using assms(1) by (auto simp: tag_area_def)
  from set_shared_fwver_update [OF es assms(2,3), of tpl] obtain m1
    where m1: "atags_set_shared_fwver tpl fwid (Some v) m = Some (Done (0, m1))"
      "tags_at m1 (AList.update ATAG_FWVER (fwver_slot fwid v (case map_of es ATAG_FWVER of None \<Rightarrow> replicate 292 0 | Some d \<Rightarrow> d)) es)"
    by blast
  then show ?thesis using tag_map_at [OF es] tag_map_at [OF m1(2)] by (simp add: update_conv')
qed

theorem atags_set_shared_fwver_stores_witness:
  "\<exists>m1. atags_set_shared_fwver False 1 (Some (ascii ''v1.2'')) (core_image @ chain_end @ replicate 0x2000 0) = Some (Done (0, m1)) \<and>
     tag_map m1 ATAG_FWVER = Some (fwver_slot 1 (ascii ''v1.2'') (replicate 292 0))"
proof -
  have t: "tags_at (core_image @ chain_end @ replicate 0x2000 0) []" by (auto simp: tags_at_def ATAGS_SIZE_def)
  then have "tag_area (drop ATAGS_SIZE (core_image @ chain_end @ replicate 0x2000 0)) (core_image @ chain_end @ replicate 0x2000 0)"
    by (auto simp: tag_area_def)
  from atags_set_shared_fwver_stores [OF this, of 1 "ascii ''v1.2''" False] tag_map_at [OF t] show ?thesis
    by (auto simp: FW_MAX_def FWVER_LEN_def)
qed

section \<open>Corner cases of the code\<close>

text \<open>A size field whose product with 4 wraps to 0 passes the overflow check, and the walk never leaves the tag.\<close>

lemma wrapped_size_hangs:
  assumes "rd32le t m = Some 0x40000000" "rd32le (t + 4) m = Some mg" "\<not> atags_bad_magic mg" "mg \<noteq> magic" "mg \<noteq> ATAG_NONE" "t \<le> ATAGS_SIZE"
  shows "for_each_tag stop m magic t = None"
proof (rule ccontr)
  assume "for_each_tag stop m magic t \<noteq> None"
  then obtain r where r: "for_each_tag stop m magic t = Some r" by auto
  have next_same: "tag_next t (unat (0x40000000 :: u32)) = t" "\<not> atags_overflow t (unat (0x40000000 :: u32))"
    using assms(6) by (simp_all add: tag_next_def atags_overflow_def atags_size_overflow_def ATAGS_SIZE_def)
  have "\<not> (s' = stop \<and> m' = m \<and> mg' = magic \<and> t' = t)" if "for_each_tag s' m' mg' t' = Some r" for s' m' mg' t'
  proof (rule for_each_tag.raw_induct [where P = "\<lambda>s' m' mg' t' r. \<not> (s' = stop \<and> m' = m \<and> mg' = magic \<and> t' = t)", OF _ that])
    fix f s' m' mg' t' r
    assume IH: "\<And>s' m' mg' t' r. f s' m' mg' t' = Some r \<Longrightarrow> \<not> (s' = stop \<and> m' = m \<and> mg' = magic \<and> t' = t)"
      and e: "(case rd32le t' m' of None \<Rightarrow> Some Fault
      | Some sz \<Rightarrow>
        if sz = 0 then Some (Done (At_end t'))
        else if atags_overflow t' (unat sz) then Some (Done Bad_chain)
        else (case rd32le (t' + 4) m' of None \<Rightarrow> Some Fault
          | Some mg \<Rightarrow>
            if atags_bad_magic mg then Some (Done Bad_chain)
            else if mg = mg' then Some (Done (Found t'))
            else if s' \<and> mg = ATAG_NONE then Some (Done (At_end t'))
            else f s' m' mg' (tag_next t' (unat sz)))) = Some r"
    show "\<not> (s' = stop \<and> m' = m \<and> mg' = magic \<and> t' = t)"
    proof
      assume c: "s' = stop \<and> m' = m \<and> mg' = magic \<and> t' = t"
      then have "f stop m magic t = Some r" using e assms next_same by (simp split: if_splits)
      with IH show False by blast
    qed
  qed
  with r show False by blast
qed

text \<open>The overflow check leaves no room for the end of the chain: a tag that ends with the area puts it behind the area.\<close>

lemma end_behind_area:
  assumes "t + 4 * tag_words mg = ATAGS_SIZE" "length m = ATAGS_SIZE" "4 * tag_words mg - 12 \<le> length d" "tag_words mg \<noteq> 0"
  shows "\<not> atags_size_overflow t (tag_words mg) \<and> write_tag t mg (tag_words mg) d True m = Fault"
proof -
  have "length (tag_image (mg, tag_part mg d)) = 4 * tag_words mg"
    using length_tag_image [OF tag_ok_part [OF assms(4,3)]] by (simp del: tag_image.simps)
  then show ?thesis
    using small_offsets [of t "tag_words mg"] assms
    by (simp add: write_tag_eq put_at_def overwrite_def del: tag_image.simps)
qed

text \<open>\<open>atags_set_shared_fwver\<close> reports success when there is no chain to set the tag in.\<close>

lemma fwver_error_lost:
  assumes "atags_is_available m = Done False" "length v < FWVER_LEN" "fwid < FW_MAX"
  shows "atags_set_shared_fwver False fwid (Some v) m = Some (Done (0, m))"
  using assms by (simp add: atags_set_shared_fwver_def atags_get_tag_def atags_set_tag_def)

text \<open>An unknown boot device is meant to become \<open>BOOT_TYPE_UNKNOWN\<close>, but the error code is stored.\<close>

lemma unknown_bootdevice_stored:
  assumes "tag_area behind m"
  shows "\<exists>m1. atags_set_bootdev_by_spl_bootdevice 99 m = Some (Done (0, m1)) \<and>
     tag_map m1 ATAG_BOOTDEV = Some (tag_part ATAG_BOOTDEV (bootdev_data 0xffffffed))"
proof -
  have "tag_accepts ATAG_BOOTDEV (bootdev_data 0xffffffed)" by code_simp
  moreover have "(of_int (get_bootdev_by_spl_bootdevice 99) :: u32) = 0xffffffed"
    by (simp add: get_bootdev_by_spl_bootdevice_def spl_bootdev_map_def ENODEV_def)
  ultimately show ?thesis
    using atag_store.put_law [OF assms, of ATAG_BOOTDEV "bootdev_data 0xffffffed" False]
    by (auto simp: atags_set_bootdev_by_spl_bootdevice_def Let_def)
qed

text \<open>A public key longer than its field overruns the structure on the stack.\<close>

lemma long_pub_key_faults: "768 < len \<Longrightarrow> len < 2 ^ 31 \<Longrightarrow> atags_set_pub_key (Some d) len flag m = Some Fault"
  by (auto simp: atags_set_pub_key_def Let_def)

end
