(* ===== verification/EnvHash.thy ===== *)
theory EnvHash
  imports Prelude "HOL-Library.Sublist"
begin

text \<open>
  The hash table that holds the environment of U-Boot, \<open>lib/hashtable.c\<close>: creation, search, insertion, overwriting, deletion and
  prefix matching, with double hashing, open addressing and marks for deleted entries.  Strings are byte lists without
  their NUL.  The results of the allocator and the decisions of the callbacks and of \<open>change_ok\<close> are inputs; \<open>errno\<close> is part of
  the state.  The search loop runs on fuel, the size of the table.
\<close>

section \<open>Data\<close>

datatype env_op = env_op_create | env_op_delete | env_op_overwrite

datatype haction = FIND | ENTER

record hentry =
  hkey :: "bytes option"
  hdata :: "bytes option"
  hcallback :: "nat option"
  hflags :: int

record hslot =
  used :: int
  entry :: hentry

record hsearch_data =
  htable :: "hslot list option"
  hsize :: nat
  filled :: u32
  allocs :: nat
  herrno :: int

record hworld =
  alloc_ok :: "nat \<Rightarrow> bool"
  callback_init :: "bytes \<Rightarrow> nat option"
  flags_init :: "bytes \<Rightarrow> int"
  callback_denies :: "nat \<Rightarrow> bytes \<Rightarrow> bytes option \<Rightarrow> env_op \<Rightarrow> int \<Rightarrow> bool"
  change_ok :: "(hentry \<Rightarrow> bytes option \<Rightarrow> env_op \<Rightarrow> int \<Rightarrow> bool) option"

definition zero_slot :: hslot where
  "zero_slot = \<lparr>used = 0, entry = \<lparr>hkey = None, hdata = None, hcallback = None, hflags = 0\<rparr>\<rparr>"

definition set_errno :: "int \<Rightarrow> hsearch_data \<Rightarrow> hsearch_data" where
  "set_errno e h = h\<lparr>herrno := e\<rparr>"

text \<open>\<open>strdup\<close>: NULL for NULL and when the allocator has nothing left.\<close>

definition hdup :: "hworld \<Rightarrow> bytes option \<Rightarrow> hsearch_data \<Rightarrow> bytes option \<times> hsearch_data" where
  "hdup w s h = (case s of None \<Rightarrow> (None, h)
     | Some _ \<Rightarrow> (if alloc_ok w (allocs h) then s else None, h\<lparr>allocs := allocs h + 1\<rparr>))"

definition slot_at :: "hsearch_data \<Rightarrow> nat \<Rightarrow> hslot outcome" where
  "slot_at h i = (case htable h of None \<Rightarrow> Fault | Some t \<Rightarrow> if i < length t then Done (t ! i) else Fault)"

definition set_slot :: "nat \<Rightarrow> hslot \<Rightarrow> hsearch_data \<Rightarrow> hsearch_data" where
  "set_slot i s h = h\<lparr>htable := map_option (\<lambda>t. t[i := s]) (htable h)\<rparr>"

section \<open>Creation\<close>

text \<open>The loop of \<open>isprime\<close>, with the wrap of the product of two \<open>unsigned int\<close>.\<close>

definition divisor_from :: "nat \<Rightarrow> nat \<Rightarrow> bool" where
  "divisor_from number d \<longleftrightarrow> (d * d) mod 2 ^ 32 < number \<and> number mod d \<noteq> 0"

partial_function (option) isprime_loop :: "nat \<Rightarrow> nat \<Rightarrow> nat option" where
  "isprime_loop number d = (if divisor_from number d then isprime_loop number ((d + 2) mod 2 ^ 32) else Some d)"

definition isprime :: "nat \<Rightarrow> bool option" where
  "isprime number = map_option (\<lambda>d. number mod d \<noteq> 0) (isprime_loop number 3)"

partial_function (option) next_prime :: "nat \<Rightarrow> nat option" where
  "next_prime nel = (case isprime nel of None \<Rightarrow> None | Some p \<Rightarrow> if p then Some nel else next_prime ((nel + 2) mod 2 ^ 32))"

text \<open>\<open>nel |= 1\<close>, then the first prime; no value when the search for it does not end.\<close>

definition hcreate_r :: "hworld \<Rightarrow> nat \<Rightarrow> hsearch_data option \<Rightarrow> (int \<times> hsearch_data option) option" where
  "hcreate_r w nel htab =
     (case htab of None \<Rightarrow> Some (0, None)
      | Some h \<Rightarrow>
        if htable h \<noteq> None then Some (0, Some h)
        else map_option (\<lambda>n.
          let h1 = h\<lparr>hsize := n, filled := 0, allocs := allocs h + 1\<rparr>
          in if alloc_ok w (allocs h) then (1, Some (h1\<lparr>htable := Some (replicate ((n + 1) mod 2 ^ 32) zero_slot)\<rparr>))
             else (0, Some h1)) (next_prime (if even nel then nel + 1 else nel)))"

text \<open>The loop that frees the entries reads the table, which has to be there.\<close>

definition hdestroy_r :: "hsearch_data option \<Rightarrow> hsearch_data option outcome" where
  "hdestroy_r htab =
     (case htab of None \<Rightarrow> Done None
      | Some h \<Rightarrow> if htable h = None \<and> 0 < hsize h then Fault else Done (Some (h\<lparr>htable := None\<rparr>)))"

section \<open>Searching\<close>

function hmatch_from :: "bytes \<Rightarrow> nat \<Rightarrow> hsearch_data \<Rightarrow> (nat \<times> nat option) outcome" where
  "hmatch_from match idx h =
     (if hsize h \<le> idx then Done (0, None)
      else bind_outcome (slot_at h idx) (\<lambda>s.
        if used s \<le> 0 then hmatch_from match (idx + 1) h
        else (case hkey (entry s) of None \<Rightarrow> Fault
          | Some k \<Rightarrow> if prefix match k then Done (idx, Some idx) else hmatch_from match (idx + 1) h)))"
  by pat_completeness auto
termination
  by (relation "measure (\<lambda>(match, idx, h). hsize h - idx)") auto

declare hmatch_from.simps [simp del]

definition hmatch_r :: "bytes \<Rightarrow> nat \<Rightarrow> hsearch_data \<Rightarrow> (nat \<times> nat option \<times> hsearch_data) outcome" where
  "hmatch_r match last_idx h = bind_outcome (hmatch_from match (last_idx + 1) h) (\<lambda>(r, ep).
     Done (r, ep, if ep = None then set_errno ESRCH h else h))"

text \<open>The result of a call: the number returned, the entry \<open>retval\<close> is set to, and the table.\<close>

type_synonym hresult = "nat \<times> nat option \<times> hsearch_data"

definition hcall_denies :: "hworld \<Rightarrow> hentry \<Rightarrow> bytes \<Rightarrow> bytes option \<Rightarrow> env_op \<Rightarrow> int \<Rightarrow> bool" where
  "hcall_denies w e key newval op flag = (case hcallback e of None \<Rightarrow> False | Some c \<Rightarrow> callback_denies w c key newval op flag)"

definition hchange_denied :: "hworld \<Rightarrow> hentry \<Rightarrow> bytes option \<Rightarrow> env_op \<Rightarrow> int \<Rightarrow> bool" where
  "hchange_denied w e newval op flag = (case change_ok w of None \<Rightarrow> False | Some f \<Rightarrow> f e newval op flag)"

text \<open>\<open>None\<close>: the slot holds another key, keep searching.\<close>

definition compare_and_overwrite_entry ::
  "hworld \<Rightarrow> bytes \<Rightarrow> bytes option \<Rightarrow> haction \<Rightarrow> int \<Rightarrow> nat \<Rightarrow> nat \<Rightarrow> hsearch_data \<Rightarrow> hresult option outcome" where
  "compare_and_overwrite_entry w key data action flag hval idx h =
     bind_outcome (slot_at h idx) (\<lambda>s.
       if used s \<noteq> int hval then Done None
       else (case hkey (entry s) of None \<Rightarrow> Fault
       | Some k \<Rightarrow>
         if k \<noteq> key then Done None
         else if action = ENTER \<and> data \<noteq> None then
           if hchange_denied w (entry s) data env_op_overwrite flag then Done (Some (0, None, set_errno EPERM h))
           else if hcall_denies w (entry s) key data env_op_overwrite flag then Done (Some (0, None, set_errno EINVAL h))
           else (case hdup w data h of (d, h1) \<Rightarrow>
             let h2 = set_slot idx (s\<lparr>entry := (entry s)\<lparr>hdata := d\<rparr>\<rparr>) h1
             in if d = None then Done (Some (0, None, set_errno ENOMEM h2)) else Done (Some (idx, Some idx, h2)))
         else Done (Some (idx, Some idx, h))))"

definition next_idx :: "nat \<Rightarrow> nat \<Rightarrow> nat \<Rightarrow> nat" where
  "next_idx sz hval2 idx = (if idx \<le> hval2 then sz + idx - hval2 else idx - hval2)"

datatype probe = Hit hresult | Miss nat

fun hprobe :: "nat \<Rightarrow> hworld \<Rightarrow> bytes \<Rightarrow> bytes option \<Rightarrow> haction \<Rightarrow> int \<Rightarrow> nat \<Rightarrow> nat \<Rightarrow> nat \<Rightarrow> hsearch_data \<Rightarrow> probe outcome option" where
  "hprobe 0 w key data action flag hval hval2 idx h = None"
| "hprobe (Suc n) w key data action flag hval hval2 idx h =
     (let idx1 = next_idx (hsize h) hval2 idx in
      if idx1 = hval then Some (Done (Miss idx1))
      else (case compare_and_overwrite_entry w key data action flag hval idx1 h of
          Fault \<Rightarrow> Some Fault | Fatal e \<Rightarrow> Some (Fatal e)
        | Done (Some r) \<Rightarrow> Some (Done (Hit r))
        | Done None \<Rightarrow>
          (case slot_at h idx1 of Fault \<Rightarrow> Some Fault | Fatal e \<Rightarrow> Some (Fatal e)
           | Done s \<Rightarrow> if used s \<noteq> 0 then hprobe n w key data action flag hval hval2 idx1 h else Some (Done (Miss idx1)))))"

text \<open>The hash of a key; \<open>char\<close> is unsigned on ARM.\<close>

definition hash_key :: "bytes \<Rightarrow> u32" where
  "hash_key key = foldr (\<lambda>c h. push_bit 4 h + ucast c) key (of_nat (length key))"

definition first_idx :: "nat \<Rightarrow> bytes \<Rightarrow> nat" where
  "first_idx sz key = (let v = unat (hash_key key) mod sz in if v = 0 then 1 else v)"

definition second_hash :: "nat \<Rightarrow> nat \<Rightarrow> nat" where
  "second_hash sz hval = 1 + hval mod (sz - 2)"

definition hdelete_slot :: "nat \<Rightarrow> hslot \<Rightarrow> hsearch_data \<Rightarrow> hsearch_data" where
  "hdelete_slot idx s h =
     (set_slot idx (s\<lparr>used := - 1, entry := (entry s)\<lparr>hcallback := None, hflags := 0\<rparr>\<rparr>) h)\<lparr>filled := filled h - 1\<rparr>"

text \<open>Entering a key that was not found, in the slot \<open>idx\<close>.\<close>

definition henter :: "hworld \<Rightarrow> bytes \<Rightarrow> bytes option \<Rightarrow> int \<Rightarrow> nat \<Rightarrow> nat \<Rightarrow> hsearch_data \<Rightarrow> hresult outcome" where
  "henter w key data flag hval idx h =
     (if filled h = of_nat (hsize h) then Done (0, None, set_errno ENOMEM h)
      else bind_outcome (slot_at h idx) (\<lambda>s0.
        case hdup w (Some key) h of (k, h1) \<Rightarrow> (case hdup w data h1 of (d, h2) \<Rightarrow>
          let s1 = s0\<lparr>used := int hval, entry := (entry s0)\<lparr>hkey := k, hdata := d\<rparr>\<rparr>
          in if k = None \<or> d = None then Done (0, None, set_errno ENOMEM (set_slot idx s1 h2))
             else
               (let s2 = s1\<lparr>entry := (entry s1)\<lparr>hcallback := callback_init w key, hflags := flags_init w key\<rparr>\<rparr>;
                    h3 = (set_slot idx s2 h2)\<lparr>filled := filled h2 + 1\<rparr>
                in if hchange_denied w (entry s2) data env_op_create flag
                   then Done (0, None, set_errno EPERM (hdelete_slot idx s2 h3))
                   else if hcall_denies w (entry s2) key data env_op_create flag
                   then Done (0, None, set_errno EINVAL (hdelete_slot idx s2 h3))
                   else Done (1, Some idx, h3)))))"

definition hsearch_r :: "hworld \<Rightarrow> bytes \<Rightarrow> bytes option \<Rightarrow> haction \<Rightarrow> int \<Rightarrow> hsearch_data \<Rightarrow> hresult outcome option" where
  "hsearch_r w key data action flag h =
     (if hsize h = 0 then Some Fault
      else
        (let hval = first_idx (hsize h) key;
             finish = (\<lambda>idx first_deleted.
               if action = ENTER then henter w key data flag hval (if first_deleted \<noteq> 0 then first_deleted else idx) h
               else Done (0, None, set_errno ESRCH h))
         in (case slot_at h hval of Fault \<Rightarrow> Some Fault | Fatal e \<Rightarrow> Some (Fatal e)
           | Done s \<Rightarrow>
             if used s = 0 then Some (finish hval 0)
             else (case compare_and_overwrite_entry w key data action flag hval hval h of
                 Fault \<Rightarrow> Some Fault | Fatal e \<Rightarrow> Some (Fatal e)
               | Done (Some r) \<Rightarrow> Some (Done r)
               | Done None \<Rightarrow>
                 if hsize h = 2 then Some Fault
                 else map_option (\<lambda>p. bind_outcome p (\<lambda>r. case r of
                     Hit x \<Rightarrow> Done x
                   | Miss idx \<Rightarrow> finish idx (if used s = - 1 then hval else 0)))
                   (hprobe (hsize h) w key data action flag hval (second_hash (hsize h) hval) hval h)))))"

definition hdelete_r :: "hworld \<Rightarrow> bytes \<Rightarrow> int \<Rightarrow> hsearch_data \<Rightarrow> (int \<times> hsearch_data) outcome option" where
  "hdelete_r w key flag h =
     map_option (\<lambda>p. bind_outcome p (\<lambda>(idx, ep, h1).
       if idx = 0 then Done (0, set_errno ESRCH h1)
       else bind_outcome (slot_at h1 idx) (\<lambda>s.
         if hchange_denied w (entry s) None env_op_delete flag then Done (0, set_errno EPERM h1)
         else if hcall_denies w (entry s) key None env_op_delete flag then Done (0, set_errno EINVAL h1)
         else Done (1, hdelete_slot idx s h1)))) (hsearch_r w key None FIND 0 h)"

section \<open>Prime sizes\<close>

definition prime_size :: "nat \<Rightarrow> bool" where
  "prime_size n \<longleftrightarrow> 2 \<le> n \<and> (\<forall>d. 1 < d \<and> d < n \<longrightarrow> \<not> d dvd n)"

text \<open>The loop of \<open>isprime\<close> stops at the first odd number that divides its argument or whose square reaches it.\<close>

lemma isprime_loop_stops:
  assumes "odd d" "3 \<le> d" "d \<le> n" "n < 2 ^ 31" "d * d < 2 ^ 32" "\<forall>q. odd q \<and> 3 \<le> q \<and> q < d \<longrightarrow> \<not> q dvd n" "d = 3 \<or> (d - 2) * (d - 2) < n"
  shows "\<exists>r. isprime_loop n d = Some r \<and> odd r \<and> 3 \<le> r \<and> r \<le> n \<and> (n \<le> r * r \<or> r dvd n) \<and>
     (\<forall>q. odd q \<and> 3 \<le> q \<and> q < r \<longrightarrow> \<not> q dvd n) \<and> (r = 3 \<or> (r - 2) * (r - 2) < n)"
  using assms
proof (induction "n - d" arbitrary: d rule: less_induct)
  case less
  show ?case
  proof (cases "divisor_from n d")
    case False
    then have "n \<le> d * d \<or> d dvd n" using less.prems by (auto simp: divisor_from_def)
    with False less.prems show ?thesis by (subst isprime_loop.simps) auto
  next
    case True
    then have sq: "d * d < n" and nd: "\<not> d dvd n" using less.prems by (auto simp: divisor_from_def dvd_eq_mod_eq_0)
    have "3 * d \<le> d * d" using less.prems(2) by simp
    then have le: "d + 2 \<le> n" using sq less.prems(2) by linarith
    have s2: "(d + 2) * (d + 2) < 2 ^ 32"
    proof -
      have "d < 46341"
      proof (rule ccontr)
        assume "\<not> d < 46341"
        then have "46341 * 46341 \<le> d * d" by (intro mult_le_mono) simp_all
        then show False using sq less.prems(4) by simp
      qed
      moreover have "(d + 2) * (d + 2) = d * d + 4 * d + 4" by simp
      ultimately show ?thesis using sq less.prems(4) by simp
    qed
    have nq: "\<not> q dvd n" if "odd q" "3 \<le> q" "q < d + 2" for q
    proof -
      have "q \<noteq> d + 1" using that(1) less.prems(1) by auto
      then have "q < d \<or> q = d" using that(3) by linarith
      then show ?thesis using less.prems(6) nd that by blast
    qed
    have "isprime_loop n d = isprime_loop n (d + 2)"
      using True le less.prems(4) by (subst isprime_loop.simps) simp
    moreover have "\<exists>r. isprime_loop n (d + 2) = Some r \<and> odd r \<and> 3 \<le> r \<and> r \<le> n \<and> (n \<le> r * r \<or> r dvd n) \<and>
     (\<forall>q. odd q \<and> 3 \<le> q \<and> q < r \<longrightarrow> \<not> q dvd n) \<and> (r = 3 \<or> (r - 2) * (r - 2) < n)"
      using less.prems(1,2,4) le s2 nq sq by (intro less.hyps) auto
    ultimately show ?thesis by simp
  qed
qed

lemma prime_size_iff_loop:
  assumes "odd n" "5 \<le> n" "odd r" "3 \<le> r" "r \<le> n" "n \<le> r * r \<or> r dvd n"
    "\<forall>q. odd q \<and> 3 \<le> q \<and> q < r \<longrightarrow> \<not> q dvd n" "r = 3 \<or> (r - 2) * (r - 2) < n"
  shows "n mod r \<noteq> 0 \<longleftrightarrow> prime_size n"
proof
  assume r: "n mod r \<noteq> 0"
  have "\<not> d dvd n" if d: "1 < d" "d < n" for d
  proof
    assume "d dvd n"
    then obtain e where e: "n = d * e" by (elim dvdE)
    have "e \<noteq> 0" "e \<noteq> 1" using e d assms(2) by auto
    then have "1 < e" by simp
    have oe: "odd d" "odd e" using e assms(1) by auto
    define p where "p = min d e"
    have p: "odd p" "p dvd n" "p * p \<le> n" "1 < p"
      using oe e d \<open>1 < e\<close> by (auto simp: p_def min_def intro: mult_le_mono)
    have "p \<noteq> 2" using p(1) by auto
    then have "3 \<le> p" using p(4) by simp
    then have "r \<le> p" using assms(7) p(1,2) by (meson not_le)
    then have "r * r \<le> p * p" by (intro mult_le_mono)
    then have "n = r * r" using p(3) assms(6) r by (auto simp: dvd_eq_mod_eq_0)
    then show False using r by simp
  qed
  then show "prime_size n" using assms(2) by (simp add: prime_size_def)
next
  assume p: "prime_size n"
  have "r < n"
  proof (rule ccontr)
    assume "\<not> r < n"
    then have rn: "r = n" using assms(5) by simp
    then have "(n - 2) * (n - 2) < n" using assms(2,8) by simp
    moreover have "3 * (n - 2) \<le> (n - 2) * (n - 2)" using assms(2) by (intro mult_le_mono1) simp
    ultimately show False using assms(2) by linarith
  qed
  then show "n mod r \<noteq> 0" using p assms(4) by (auto simp: prime_size_def dvd_eq_mod_eq_0)
qed

lemma isprime_correct:
  assumes "odd n" "5 \<le> n" "n < 2 ^ 31"
  shows "isprime n = Some (prime_size n)"
proof -
  have "\<exists>r. isprime_loop n 3 = Some r \<and> odd r \<and> 3 \<le> r \<and> r \<le> n \<and> (n \<le> r * r \<or> r dvd n) \<and>
     (\<forall>q. odd q \<and> 3 \<le> q \<and> q < r \<longrightarrow> \<not> q dvd n) \<and> (r = 3 \<or> (r - 2) * (r - 2) < n)"
    using assms by (intro isprime_loop_stops) auto
  then show ?thesis using prime_size_iff_loop [OF assms(1,2)] by (auto simp: isprime_def)
qed

lemma prime_521: "prime_size 521"
proof -
  have "isprime 521 = Some True" by (simp add: isprime_def isprime_loop.simps divisor_from_def)
  then show ?thesis using isprime_correct [of 521] by simp
qed

text \<open>For the sizes the environment asks for the search for a prime ends.\<close>

lemma next_prime_ends:
  assumes "odd n" "5 \<le> n" "n \<le> 521"
  shows "\<exists>p. next_prime n = Some p \<and> prime_size p \<and> n \<le> p \<and> p \<le> 521"
  using assms
proof (induction "521 - n" arbitrary: n rule: less_induct)
  case less
  have i: "isprime n = Some (prime_size n)" using less.prems by (intro isprime_correct) auto
  show ?case
  proof (cases "prime_size n")
    case True
    with i less.prems show ?thesis by (subst next_prime.simps) simp
  next
    case False
    then have "n \<noteq> 521" using prime_521 by auto
    then have "n < 521" using less.prems(3) by simp
    moreover have "n \<noteq> 520" using less.prems(1) by auto
    ultimately have n: "n + 2 \<le> 521" by simp
    have "next_prime n = next_prime (n + 2)" using i False n by (subst next_prime.simps) simp
    moreover have "\<exists>p. next_prime (n + 2) = Some p \<and> prime_size p \<and> n + 2 \<le> p \<and> p \<le> 521"
      using less.prems n by (intro less.hyps) auto
    ultimately show ?thesis by auto
  qed
qed

section \<open>The probe sequence\<close>

text \<open>With a prime size the probe sequence of a key visits every index once before it is back at the first.\<close>

definition path :: "nat \<Rightarrow> bytes \<Rightarrow> nat \<Rightarrow> nat" where
  "path n k j = (next_idx n (second_hash n (first_idx n k)) ^^ j) (first_idx n k)"

lemma path_simps: "path n k 0 = first_idx n k" "path n k (Suc j) = next_idx n (second_hash n (first_idx n k)) (path n k j)"
  by (simp_all add: path_def)

lemma first_idx_range: "2 \<le> n \<Longrightarrow> 1 \<le> first_idx n k \<and> first_idx n k < n"
  by (simp add: first_idx_def Let_def)

lemma second_hash_range:
  assumes "3 \<le> n"
  shows "1 \<le> second_hash n v \<and> second_hash n v < n"
proof -
  have "v mod (n - 2) < n - 2" using assms by (intro mod_less_divisor) simp
  then show ?thesis by (simp add: second_hash_def)
qed

lemma path_range: "3 \<le> n \<Longrightarrow> 1 \<le> path n k j \<and> path n k j \<le> n"
proof (induction j)
  case 0
  then show ?case using first_idx_range [of n k] by (simp add: path_simps)
next
  case (Suc j)
  then show ?case using second_hash_range [of n "first_idx n k"] by (auto simp: path_simps next_idx_def)
qed

lemma path_mod: "3 \<le> n \<Longrightarrow> (path n k j + j * second_hash n (first_idx n k)) mod n = first_idx n k"
proof (induction j)
  case 0
  then show ?case using first_idx_range [of n k] by (simp add: path_simps)
next
  case (Suc j)
  let ?h = "second_hash n (first_idx n k)"
  have h: "?h < n" using second_hash_range [OF Suc.prems, of "first_idx n k"] by simp
  have "(next_idx n ?h (path n k j) + ?h) mod n = path n k j mod n"
    using h path_range [OF Suc.prems, of k j] by (simp add: next_idx_def)
  then have "(next_idx n ?h (path n k j) + ?h + j * ?h) mod n = (path n k j + j * ?h) mod n" by (metis mod_add_left_eq)
  then show ?case using Suc by (simp add: path_simps ac_simps)
qed

lemma prime_coprime:
  assumes "prime_size n" "0 < h" "h < n"
  shows "coprime n h"
proof -
  have "gcd n h \<le> h" using assms(2) by (simp add: gcd_le2_nat)
  then have "gcd n h < n" using assms(3) by simp
  moreover have "gcd n h dvd n" "0 < gcd n h" using assms(2) by simp_all
  ultimately have "gcd n h = 1" using assms(1) by (auto simp: prime_size_def nat_neq_iff)
  then show ?thesis by (simp add: coprime_iff_gcd_eq_1)
qed

lemma path_inj:
  assumes "prime_size n" "3 \<le> n" "i < j" "j < n"
  shows "path n k i \<noteq> path n k j"
proof
  let ?h = "second_hash n (first_idx n k)"
  assume e: "path n k i = path n k j"
  have h: "0 < ?h" "?h < n" using second_hash_range [OF assms(2), of "first_idx n k"] by simp_all
  have "(path n k i + i * ?h) mod n = (path n k i + j * ?h) mod n" using path_mod [OF assms(2)] e by metis
  then have "n dvd (path n k i + j * ?h) - (path n k i + i * ?h)" using assms(3) by (metis mod_eq_dvd_iff_nat add_le_mono le_refl mult_le_mono1 less_imp_le)
  then have "n dvd (j - i) * ?h" by (simp add: diff_mult_distrib)
  then have "n dvd j - i" using prime_coprime [OF assms(1) h] by (simp add: coprime_dvd_mult_left_iff)
  then show False using assms(3,4) by (auto dest: dvd_imp_le)
qed

lemma path_surj:
  assumes "prime_size n" "3 \<le> n"
  shows "path n k ` {0..<n} = {1..n}"
proof (rule card_subset_eq)
  show "path n k ` {0..<n} \<subseteq> {1..n}" using path_range [OF assms(2)] by auto
  have "inj_on (path n k) {0..<n}"
    using path_inj [OF assms] by (auto simp: inj_on_def) (metis nat_neq_iff)
  then show "card (path n k ` {0..<n}) = card {1..n}" by (simp add: card_image)
qed simp

lemma path_back:
  assumes "3 \<le> n"
  shows "path n k n = first_idx n k"
proof -
  have "path n k n mod n = first_idx n k" using path_mod [OF assms, of k n] by simp
  moreover have "path n k n \<noteq> n" using calculation first_idx_range [of n k] assms by auto
  ultimately show ?thesis using path_range [OF assms, of k n] by simp
qed

section \<open>The invariant of the table\<close>

text \<open>
  Every entry in use lies on the probe sequence of its key, behind slots that are not empty, and no key is there twice.
\<close>

definition live :: "hslot \<Rightarrow> bytes \<Rightarrow> bool" where
  "live s k \<longleftrightarrow> 0 < used s \<and> hkey (entry s) = Some k"

definition reaches :: "nat \<Rightarrow> hslot list \<Rightarrow> bytes \<Rightarrow> nat \<Rightarrow> bool" where
  "reaches n t k i \<longleftrightarrow> (\<exists>j<n. path n k j = i \<and> (\<forall>j'<j. used (t ! path n k j') \<noteq> 0))"

definition table_inv :: "nat \<Rightarrow> hslot list \<Rightarrow> bool" where
  "table_inv n t \<longleftrightarrow> length t = Suc n \<and>
     (\<forall>i\<in>{1..n}. 0 < used (t ! i) \<longrightarrow> (\<exists>k d. hkey (entry (t ! i)) = Some k \<and> hdata (entry (t ! i)) = Some d \<and>
        used (t ! i) = int (first_idx n k) \<and> reaches n t k i)) \<and>
     (\<forall>i\<in>{1..n}. \<forall>i'\<in>{1..n}. \<forall>k. live (t ! i) k \<longrightarrow> live (t ! i') k \<longrightarrow> i = i')"

definition hash_ok :: "hsearch_data \<Rightarrow> hslot list \<Rightarrow> bool" where
  "hash_ok h t \<longleftrightarrow> htable h = Some t \<and> table_inv (hsize h) t \<and> prime_size (hsize h) \<and> 5 \<le> hsize h \<and> hsize h < 2 ^ 31 \<and>
     filled h = of_nat (card {i \<in> {1..hsize h}. 0 < used (t ! i)})"

lemma table_inv_length: "table_inv n t \<Longrightarrow> length t = Suc n"
  unfolding table_inv_def by blast

lemma table_inv_live:
  assumes "table_inv n t" "i \<in> {1..n}" "0 < used (t ! i)"
  obtains k d where "hkey (entry (t ! i)) = Some k" "hdata (entry (t ! i)) = Some d" "used (t ! i) = int (first_idx n k)" "reaches n t k i"
  using assms unfolding table_inv_def by blast

lemma table_inv_unique:
  "table_inv n t \<Longrightarrow> i \<in> {1..n} \<Longrightarrow> i' \<in> {1..n} \<Longrightarrow> live (t ! i) k \<Longrightarrow> live (t ! i') k \<Longrightarrow> i = i'"
  unfolding table_inv_def by blast

lemma hash_ok_dests:
  assumes "hash_ok h t"
  shows "htable h = Some t" "length t = Suc (hsize h)" "prime_size (hsize h)" "5 \<le> hsize h" "hsize h < 2 ^ 31" "table_inv (hsize h) t"
  using assms table_inv_length unfolding hash_ok_def by blast+

lemma slot_at_ok: "hash_ok h t \<Longrightarrow> i \<le> hsize h \<Longrightarrow> slot_at h i = Done (t ! i)"
  using hash_ok_dests(1,2) [of h t] by (simp add: slot_at_def)

lemma slot_at_path: "hash_ok h t \<Longrightarrow> slot_at h (path (hsize h) k j) = Done (t ! path (hsize h) k j)"
  using path_range [of "hsize h" k j] hash_ok_dests(4) [of h t] by (intro slot_at_ok) auto

lemma compare_miss:
  assumes "hash_ok h t" "i \<in> {1..hsize h}" "\<not> live (t ! i) k"
  shows "compare_and_overwrite_entry w k d a fl (first_idx (hsize h) k) i h = Done None"
proof -
  have s: "slot_at h i = Done (t ! i)" using slot_at_ok [OF assms(1)] assms(2) by simp
  show ?thesis
  proof (cases "used (t ! i) = int (first_idx (hsize h) k)")
    case True
    then have "0 < used (t ! i)" using first_idx_range [of "hsize h" k] hash_ok_dests(4) [OF assms(1)] by simp
    then obtain k' where k': "hkey (entry (t ! i)) = Some k'"
      using table_inv_live [OF hash_ok_dests(6) [OF assms(1)] assms(2)] by blast
    then have "k' \<noteq> k" using assms(3) \<open>0 < used (t ! i)\<close> by (auto simp: live_def)
    with s k' show ?thesis by (simp add: compare_and_overwrite_entry_def)
  qed (simp add: compare_and_overwrite_entry_def s)
qed

lemma path_in: "hash_ok h t \<Longrightarrow> path (hsize h) k j \<in> {1..hsize h}"
  using path_range [of "hsize h" k j] hash_ok_dests(4) [of h t] by auto

section \<open>The search loop\<close>

lemma hprobe_skip:
  assumes "hash_ok h t" "j \<le> m" "m < hsize h"
    and "\<forall>j'. j < j' \<and> j' \<le> m \<longrightarrow> used (t ! path (hsize h) k j') \<noteq> 0 \<and> \<not> live (t ! path (hsize h) k j') k"
  shows "hprobe (hsize h - j) w k d a fl (first_idx (hsize h) k) (second_hash (hsize h) (first_idx (hsize h) k)) (path (hsize h) k j) h =
     hprobe (hsize h - m) w k d a fl (first_idx (hsize h) k) (second_hash (hsize h) (first_idx (hsize h) k)) (path (hsize h) k m) h"
  using assms(2-4)
proof (induction m)
  case (Suc m)
  show ?case
  proof (cases "j = Suc m")
    case False
    let ?n = "hsize h"
    let ?probe = "\<lambda>f i. hprobe f w k d a fl (first_idx ?n k) (second_hash ?n (first_idx ?n k)) i h"
    have "?probe (?n - j) (path ?n k j) = ?probe (?n - m) (path ?n k m)" using False Suc by auto
    also have "?n - m = Suc (?n - Suc m)" using Suc.prems(2) by simp
    also have "?probe (Suc (?n - Suc m)) (path ?n k m) = ?probe (?n - Suc m) (path ?n k (Suc m))"
    proof -
      have "path ?n k (Suc m) \<noteq> first_idx ?n k"
        using path_inj [OF hash_ok_dests(3) [OF assms(1)], of 0 "Suc m" k] hash_ok_dests(4) [OF assms(1)] Suc.prems(2)
        by (simp add: path_simps(1) [of ?n k, symmetric])
      moreover have "used (t ! path ?n k (Suc m)) \<noteq> 0" "\<not> live (t ! path ?n k (Suc m)) k" using Suc.prems False by auto
      ultimately show ?thesis
        using compare_miss [OF assms(1) path_in [OF assms(1)]] slot_at_path [OF assms(1), of k "Suc m"]
        by (simp add: path_simps(2) [symmetric] Let_def)
    qed
    finally show ?thesis .
  qed simp
qed simp

lemma hprobe_live:
  assumes "hash_ok h t" "Suc m < hsize h" "compare_and_overwrite_entry w k d a fl (first_idx (hsize h) k) (path (hsize h) k (Suc m)) h = Done (Some r)"
  shows "hprobe (hsize h - m) w k d a fl (first_idx (hsize h) k) (second_hash (hsize h) (first_idx (hsize h) k)) (path (hsize h) k m) h = Some (Done (Hit r))"
proof -
  have "hsize h - m = Suc (hsize h - Suc m)" using assms(2) by simp
  moreover have "path (hsize h) k (Suc m) \<noteq> first_idx (hsize h) k"
    using path_inj [OF hash_ok_dests(3) [OF assms(1)], of 0 "Suc m" k] hash_ok_dests(4) [OF assms(1)] assms(2)
    by (simp add: path_simps(1) [of "hsize h" k, symmetric])
  ultimately show ?thesis using assms(3) by (simp add: path_simps(2) [symmetric] Let_def)
qed

lemma hprobe_empty:
  assumes "hash_ok h t" "Suc m < hsize h" "used (t ! path (hsize h) k (Suc m)) = 0"
  shows "hprobe (hsize h - m) w k d a fl (first_idx (hsize h) k) (second_hash (hsize h) (first_idx (hsize h) k)) (path (hsize h) k m) h =
     Some (Done (Miss (path (hsize h) k (Suc m))))"
proof -
  have "hsize h - m = Suc (hsize h - Suc m)" using assms(2) by simp
  moreover have "\<not> live (t ! path (hsize h) k (Suc m)) k" using assms(3) by (simp add: live_def)
  ultimately show ?thesis
    using compare_miss [OF assms(1) path_in [OF assms(1)]] slot_at_path [OF assms(1), of k "Suc m"] assms(3)
    by (simp add: path_simps(2) [symmetric] Let_def)
qed

lemma hprobe_back:
  assumes "3 \<le> hsize h"
  shows "hprobe 1 w k d a fl (first_idx (hsize h) k) (second_hash (hsize h) (first_idx (hsize h) k)) (path (hsize h) k (hsize h - 1)) h =
     Some (Done (Miss (first_idx (hsize h) k)))"
  using path_back [OF assms, of k] path_simps(2) [of "hsize h" k "hsize h - 1"] assms by (simp add: Let_def)

text \<open>A key that is in the table is found at its place.\<close>

lemma hsearch_live:
  assumes "hash_ok h t" "i \<in> {1..hsize h}" "live (t ! i) k"
    and "compare_and_overwrite_entry w k d a fl (first_idx (hsize h) k) i h = Done (Some r)"
  shows "hsearch_r w k d a fl h = Some (Done r)"
proof -
  let ?n = "hsize h" and ?v = "first_idx (hsize h) k"
  have "reaches ?n t k i"
    using table_inv_live [OF hash_ok_dests(6) [OF assms(1)] assms(2)] assms(3) by (auto simp: live_def)
  then obtain j where j: "j < ?n" "path ?n k j = i" "\<forall>j'<j. used (t ! path ?n k j') \<noteq> 0" by (auto simp: reaches_def)
  have v: "slot_at h ?v = Done (t ! ?v)" using slot_at_path [OF assms(1), of k 0] by (simp add: path_simps(1))
  have n: "?n \<noteq> 0" "?n \<noteq> 2" "3 \<le> ?n" using hash_ok_dests(4) [OF assms(1)] by simp_all
  show ?thesis
  proof (cases j)
    case 0
    then have "i = ?v" using j(2) by (simp add: path_simps)
    then have "used (t ! ?v) \<noteq> 0" using assms(3) by (auto simp: live_def)
    with v n assms(4) \<open>i = ?v\<close> show ?thesis by (simp add: hsearch_r_def Let_def)
  next
    case (Suc m)
    have other: "\<not> live (t ! path ?n k j') k" if "j' < j" for j'
    proof
      assume "live (t ! path ?n k j') k"
      then have "path ?n k j' = path ?n k j"
        using table_inv_unique [OF hash_ok_dests(6) [OF assms(1)] path_in [OF assms(1)] assms(2) _ assms(3)] j(2) by simp
      then show False using path_inj [OF hash_ok_dests(3) [OF assms(1)] n(3) that j(1)] by blast
    qed
    have "compare_and_overwrite_entry w k d a fl ?v ?v h = Done None"
      using compare_miss [OF assms(1) path_in [OF assms(1), of k 0] other] Suc by (simp add: path_simps(1))
    moreover have "used (t ! ?v) \<noteq> 0" using j(3) Suc by (auto simp: path_simps(1) [symmetric])
    moreover have "hprobe ?n w k d a fl ?v (second_hash ?n ?v) ?v h = Some (Done (Hit r))"
    proof -
      have "hprobe (?n - 0) w k d a fl ?v (second_hash ?n ?v) (path ?n k 0) h = hprobe (?n - m) w k d a fl ?v (second_hash ?n ?v) (path ?n k m) h"
        using j(1,3) other Suc by (intro hprobe_skip [OF assms(1)]) auto
      also have "\<dots> = Some (Done (Hit r))" using hprobe_live [OF assms(1), of m] j(1,2) Suc assms(4) by simp
      finally show ?thesis by (simp add: path_simps(1))
    qed
    ultimately show ?thesis using v n by (simp add: hsearch_r_def Let_def)
  qed
qed

text \<open>
  A key that is not there: the place a new entry goes to, the first slot of the sequence when it is marked as deleted, otherwise the
  first empty slot of the sequence.
\<close>

lemma hsearch_absent:
  assumes "hash_ok h t" "\<forall>i\<in>{1..hsize h}. \<not> live (t ! i) k" "\<exists>i\<in>{1..hsize h}. used (t ! i) = 0"
  obtains e where "e \<in> {1..hsize h}" "used (t ! e) = 0 \<or> used (t ! e) = - 1" "reaches (hsize h) t k e"
    "hsearch_r w k d a fl h = Some (if a = ENTER then henter w k d fl (first_idx (hsize h) k) e h else Done (0, None, set_errno ESRCH h))"
proof -
  let ?n = "hsize h" and ?v = "first_idx (hsize h) k"
  have v: "slot_at h ?v = Done (t ! ?v)" "?v \<in> {1..?n}"
    using slot_at_path [OF assms(1), of k 0] path_in [OF assms(1), of k 0] by (simp_all add: path_simps(1))
  have n: "?n \<noteq> 0" "?n \<noteq> 2" "3 \<le> ?n" using hash_ok_dests(4) [OF assms(1)] by simp_all
  show thesis
  proof (cases "used (t ! ?v) = 0")
    case True
    have "reaches ?n t k ?v" using n by (auto simp: reaches_def path_simps intro!: exI [of _ 0])
    moreover have "hsearch_r w k d a fl h = Some (if a = ENTER then henter w k d fl ?v ?v h else Done (0, None, set_errno ESRCH h))"
      using v n True by (simp add: hsearch_r_def Let_def)
    ultimately show thesis using that v(2) True by blast
  next
    case False
    obtain i where i: "i \<in> {1..?n}" "used (t ! i) = 0" using assms(3) by blast
    then have "i \<in> path ?n k ` {0..<?n}" using path_surj [OF hash_ok_dests(3) [OF assms(1)] n(3)] by simp
    then have ex: "\<exists>j<?n. used (t ! path ?n k j) = 0" using i by auto
    define J where "J = (LEAST j. used (t ! path ?n k j) = 0)"
    have J: "used (t ! path ?n k J) = 0" "J < ?n" "\<forall>j'<J. used (t ! path ?n k j') \<noteq> 0"
      using ex LeastI_ex [of "\<lambda>j. used (t ! path ?n k j) = 0"] Least_le [of "\<lambda>j. used (t ! path ?n k j) = 0"] not_less_Least
      unfolding J_def by (blast, meson le_less_trans, blast)
    have "J \<noteq> 0" using J(1) False by (metis path_simps(1))
    then obtain m where m: "J = Suc m" by (cases J) auto
    have "hprobe (?n - 0) w k d a fl ?v (second_hash ?n ?v) (path ?n k 0) h = hprobe (?n - m) w k d a fl ?v (second_hash ?n ?v) (path ?n k m) h"
      using J m assms(2) path_in [OF assms(1)] by (intro hprobe_skip [OF assms(1)]) auto
    also have "\<dots> = Some (Done (Miss (path ?n k J)))" using hprobe_empty [OF assms(1), of m] J m by simp
    finally have probe: "hprobe ?n w k d a fl ?v (second_hash ?n ?v) ?v h = Some (Done (Miss (path ?n k J)))" by (simp add: path_simps(1))
    have "compare_and_overwrite_entry w k d a fl ?v ?v h = Done None" using compare_miss [OF assms(1) v(2)] assms(2) v(2) by blast
    moreover define e where "e = (if used (t ! ?v) = - 1 then ?v else path ?n k J)"
    moreover have "?v \<noteq> 0" using v(2) by simp
    ultimately have "hsearch_r w k d a fl h = Some (if a = ENTER then henter w k d fl ?v e h else Done (0, None, set_errno ESRCH h))"
      using v(1) n False probe by (simp add: hsearch_r_def Let_def)
    moreover have "e \<in> {1..?n}" "used (t ! e) = 0 \<or> used (t ! e) = - 1"
      using v(2) path_in [OF assms(1), of k J] J(1) by (auto simp: e_def)
    moreover have "reaches ?n t k e"
    proof (cases "used (t ! ?v) = - 1")
      case True
      then show ?thesis using n by (auto simp: reaches_def e_def path_simps intro!: exI [of _ 0])
    next
      case F: False
      then show ?thesis using J by (auto simp: reaches_def e_def)
    qed
    ultimately show thesis using that by blast
  qed
qed

text \<open>The search for a key that is not there ends even when no slot is empty.\<close>

lemma hfind_absent:
  assumes "hash_ok h t" "\<forall>i\<in>{1..hsize h}. \<not> live (t ! i) k"
  shows "hsearch_r w k d FIND fl h = Some (Done (0, None, set_errno ESRCH h))"
proof (cases "\<exists>i\<in>{1..hsize h}. used (t ! i) = 0")
  case True
  then show ?thesis using hsearch_absent [OF assms True, of w d FIND fl] by auto
next
  case False
  let ?n = "hsize h" and ?v = "first_idx (hsize h) k"
  have v: "slot_at h ?v = Done (t ! ?v)" "?v \<in> {1..?n}"
    using slot_at_path [OF assms(1), of k 0] path_in [OF assms(1), of k 0] by (simp_all add: path_simps(1))
  have n: "?n \<noteq> 0" "?n \<noteq> 2" "3 \<le> ?n" using hash_ok_dests(4) [OF assms(1)] by simp_all
  have "hprobe (?n - 0) w k d FIND fl ?v (second_hash ?n ?v) (path ?n k 0) h =
      hprobe (?n - (?n - 1)) w k d FIND fl ?v (second_hash ?n ?v) (path ?n k (?n - 1)) h"
    using False assms(2) path_in [OF assms(1)] n by (intro hprobe_skip [OF assms(1)]) auto
  then have "hprobe ?n w k d FIND fl ?v (second_hash ?n ?v) ?v h = Some (Done (Miss ?v))"
    using hprobe_back [OF n(3), of w k d FIND fl] n by (simp add: path_simps(1))
  moreover have "compare_and_overwrite_entry w k d FIND fl ?v ?v h = Done None" using compare_miss [OF assms(1) v(2)] assms(2) v(2) by blast
  moreover have "used (t ! ?v) \<noteq> 0" using False v(2) by blast
  ultimately show ?thesis using v(1) n by (simp add: hsearch_r_def Let_def)
qed

section \<open>The table as a map\<close>

definition table_map :: "hslot list \<Rightarrow> bytes \<rightharpoonup> bytes" where
  "table_map t k = (case find (\<lambda>s. live s k) (drop 1 t) of None \<Rightarrow> None | Some s \<Rightarrow> hdata (entry s))"

lemma table_map_live:
  assumes "table_inv n t" "i \<in> {1..n}" "live (t ! i) k"
  shows "table_map t k = hdata (entry (t ! i))"
proof -
  have l: "length t = Suc n" using table_inv_length [OF assms(1)] .
  have "find (\<lambda>s. live s k) (drop 1 t) \<noteq> None"
    using assms(2,3) l by (auto simp: find_None_iff in_set_conv_nth intro!: bexI [of _ "t ! i"] exI [of _ "i - 1"])
  then obtain s where s: "find (\<lambda>s. live s k) (drop 1 t) = Some s" by blast
  then obtain j where j: "j < n" "live (t ! (j + 1)) k" "s = t ! (j + 1)" using l by (auto simp: find_Some_iff)
  then have "j + 1 = i" using table_inv_unique [OF assms(1) _ assms(2) _ assms(3), of "j + 1"] by simp
  with s j show ?thesis by (simp add: table_map_def)
qed

lemma table_map_none:
  assumes "table_inv n t" "\<forall>i\<in>{1..n}. \<not> live (t ! i) k"
  shows "table_map t k = None"
proof -
  have "find (\<lambda>s. live s k) (drop 1 t) = None"
    using assms(2) table_inv_length [OF assms(1)] by (auto simp: find_None_iff in_set_conv_nth)
  then show ?thesis by (simp add: table_map_def)
qed

text \<open>What changing one slot does to the invariant, to the map and to the counts.\<close>

lemma reaches_update:
  assumes "reaches n t k i'" "used s \<noteq> 0" "length t = Suc n" "i \<le> n"
  shows "reaches n (t[i := s]) k i'"
  using assms by (auto simp: reaches_def nth_list_update)

lemma table_inv_update:
  assumes "table_inv n t" "i \<in> {1..n}" "used s \<noteq> 0"
    and "0 < used s \<Longrightarrow> \<exists>k d. hkey (entry s) = Some k \<and> hdata (entry s) = Some d \<and> used s = int (first_idx n k) \<and> reaches n t k i \<and>
       (\<forall>i'\<in>{1..n}. live (t ! i') k \<longrightarrow> i' = i)"
  shows "table_inv n (t[i := s])"
proof -
  have l: "length t = Suc n" using table_inv_length [OF assms(1)] .
  have r: "reaches n (t[i := s]) k i'" if "reaches n t k i'" for k i'
    using reaches_update [OF that assms(3) l] assms(2) by simp
  have "\<exists>k d. hkey (entry (t[i := s] ! j)) = Some k \<and> hdata (entry (t[i := s] ! j)) = Some d \<and>
      used (t[i := s] ! j) = int (first_idx n k) \<and> reaches n (t[i := s]) k j" if j: "j \<in> {1..n}" "0 < used (t[i := s] ! j)" for j
  proof (cases "j = i")
    case True
    then show ?thesis using assms(4) j l r by fastforce
  next
    case False
    then have "0 < used (t ! j)" "t[i := s] ! j = t ! j" using j(2) by simp_all
    with table_inv_live [OF assms(1) j(1)] r show ?thesis by metis
  qed
  moreover have "j = j'" if j: "j \<in> {1..n}" "j' \<in> {1..n}" "live (t[i := s] ! j) k" "live (t[i := s] ! j') k" for j j' k
  proof (cases "j = i \<or> j' = i")
    case True
    then have "live s k" using j l by auto
    with assms(4) have "\<forall>i'\<in>{1..n}. live (t ! i') k \<longrightarrow> i' = i" by (auto simp: live_def)
    then show ?thesis using j True by (metis nth_list_update_neq)
  next
    case False
    then show ?thesis using table_inv_unique [OF assms(1)] j by simp
  qed
  ultimately show ?thesis using l unfolding table_inv_def length_list_update by blast
qed

lemma table_map_other:
  assumes "table_inv n t" "table_inv n (t[i := s])" "\<not> live (t ! i) k" "\<not> live s k"
  shows "table_map (t[i := s]) k = table_map t k"
proof (cases "\<exists>j\<in>{1..n}. live (t ! j) k")
  case True
  then obtain j where j: "j \<in> {1..n}" "live (t ! j) k" by blast
  then have "t[i := s] ! j = t ! j" using assms(3) by (cases "j = i") auto
  then show ?thesis using table_map_live [OF assms(1) j] table_map_live [OF assms(2) j(1)] j(2) by simp
next
  case False
  have l: "length t = Suc n" using table_inv_length [OF assms(1)] .
  have "\<not> live (t[i := s] ! j) k" if "j \<in> {1..n}" for j
    using False assms(4) l that by (cases "i = j") auto
  then show ?thesis using False table_map_none [OF assms(1)] table_map_none [OF assms(2)] by metis
qed

lemma used_update:
  assumes "length t = Suc n" "i \<in> {1..n}"
  shows "{j \<in> {1..n}. P (used (t[i := s] ! j))} =
     (if P (used s) then insert i {j \<in> {1..n}. P (used (t ! j))} else {j \<in> {1..n}. P (used (t ! j))} - {i})"
  using assms by (auto simp: nth_list_update split: if_splits)

definition empties :: "nat \<Rightarrow> hslot list \<Rightarrow> nat" where
  "empties n t = card {i \<in> {1..n}. used (t ! i) = 0}"

lemma empties_pos: "0 < empties n t \<longleftrightarrow> (\<exists>i\<in>{1..n}. used (t ! i) = 0)"
  by (auto simp: empties_def card_gt_0_iff)

lemma empties_update:
  assumes "length t = Suc n" "i \<in> {1..n}" "used s \<noteq> 0"
  shows "empties n t \<le> Suc (empties n (t[i := s]))" "used (t ! i) \<noteq> 0 \<Longrightarrow> empties n (t[i := s]) = empties n t"
proof -
  have e: "empties n (t[i := s]) = card ({j \<in> {1..n}. used (t ! j) = 0} - {i})"
    using used_update [OF assms(1,2), of "\<lambda>u. u = 0" s] assms(3) by (simp add: empties_def)
  have "card A \<le> Suc (card (A - {i}))" if "finite A" for A
    using that card_Suc_Diff1 [of A i] by (cases "i \<in> A") (simp_all del: card_Diff_insert)
  then show "empties n t \<le> Suc (empties n (t[i := s]))" unfolding e by (simp add: empties_def)
  show "empties n (t[i := s]) = empties n t" if "used (t ! i) \<noteq> 0"
    using that unfolding e by (simp add: empties_def)
qed

section \<open>The operations\<close>

text \<open>The allocator never fails; a world that also denies nothing.\<close>

definition plenty :: "hworld \<Rightarrow> bool" where
  "plenty w \<longleftrightarrow> (\<forall>n. alloc_ok w n)"

definition grants :: "hworld \<Rightarrow> bool" where
  "grants w \<longleftrightarrow> plenty w \<and> (\<forall>e v op fl. \<not> hchange_denied w e v op fl) \<and> (\<forall>e k v op fl. \<not> hcall_denies w e k v op fl)"

lemma hdup_plenty: "plenty w \<Longrightarrow> hdup w (Some v) h = (Some v, h\<lparr>allocs := allocs h + 1\<rparr>)"
  by (simp add: plenty_def hdup_def)

text \<open>What every operation leaves: a table in order whose map is \<open>f\<close>.\<close>

definition leaves :: "hsearch_data \<Rightarrow> hslot list \<Rightarrow> hsearch_data \<Rightarrow> (bytes \<rightharpoonup> bytes) \<Rightarrow> bool" where
  "leaves h t h1 f \<longleftrightarrow> (\<exists>t1. hash_ok h1 t1 \<and> table_map t1 = f \<and> hsize h1 = hsize h \<and> empties (hsize h) t \<le> Suc (empties (hsize h) t1))"

lemma hash_ok_cong:
  assumes "hash_ok h t" "htable h1 = htable h" "hsize h1 = hsize h" "filled h1 = filled h"
  shows "hash_ok h1 t"
  using assms by (simp add: hash_ok_def)

lemma leaves_same: "hash_ok h t \<Longrightarrow> htable h1 = htable h \<Longrightarrow> hsize h1 = hsize h \<Longrightarrow> filled h1 = filled h \<Longrightarrow> leaves h t h1 (table_map t)"
  using hash_ok_cong [of h t h1] by (auto simp: leaves_def)

lemma leaves_update:
  assumes "hash_ok h t" "i \<in> {1..hsize h}" "used s \<noteq> 0" "table_inv (hsize h) (t[i := s])" "htable h1 = Some (t[i := s])" "hsize h1 = hsize h"
    and "filled h1 = filled h + (if 0 < used s then 1 else 0) - (if 0 < used (t ! i) then 1 else 0)"
    and "\<And>k. table_map (t[i := s]) k = f k"
  shows "leaves h t h1 f"
proof -
  let ?S = "{j \<in> {1..hsize h}. 0 < used (t ! j)}"
  have l: "length t = Suc (hsize h)" using hash_ok_dests(2) [OF assms(1)] .
  have S: "{j \<in> {1..hsize h}. 0 < used (t[i := s] ! j)} = (if 0 < used s then insert i ?S else ?S - {i})"
    using used_update [OF l assms(2), of "\<lambda>u. 0 < u" s] .
  have i: "i \<in> ?S \<longleftrightarrow> 0 < used (t ! i)" using assms(2) by simp
  have f: "finite ?S" by simp
  have fc: "filled h = of_nat (card ?S)" using assms(1) unfolding hash_ok_def by blast
  have "(of_nat (card (if 0 < used s then insert i ?S else ?S - {i})) :: u32) = filled h1"
  proof (cases "i \<in> ?S")
    case True
    have "card ?S = Suc (card (?S - {i}))" using card_Suc_Diff1 [OF f True] by simp
    moreover have "insert i ?S = ?S" using True by (rule insert_absorb)
    ultimately show ?thesis using True i by (simp only: assms(7) fc) simp
  next
    case False
    then have "card (insert i ?S) = Suc (card ?S)" "?S - {i} = ?S" using card_insert_disjoint [OF f False] by blast+
    then show ?thesis using False i by (simp only: assms(7) fc) simp
  qed
  then have "hash_ok h1 (t[i := s])" using assms(1,4,5,6) S by (simp add: hash_ok_def)
  moreover have "table_map (t[i := s]) = f" using assms(8) by blast
  ultimately show ?thesis using empties_update(1) [OF l assms(2,3)] assms(6) by (auto simp: leaves_def)
qed

lemma live_used:
  assumes "hash_ok h t" "i \<in> {1..hsize h}" "live (t ! i) k"
  shows "used (t ! i) = int (first_idx (hsize h) k)" "reaches (hsize h) t k i" "\<exists>d. hdata (entry (t ! i)) = Some d"
  using table_inv_live [OF hash_ok_dests(6) [OF assms(1)] assms(2)] assms(3) by (auto simp: live_def)

lemma compare_find:
  assumes "hash_ok h t" "i \<in> {1..hsize h}" "live (t ! i) k"
  shows "compare_and_overwrite_entry w k d FIND fl (first_idx (hsize h) k) i h = Done (Some (i, Some i, h))"
  using slot_at_ok [OF assms(1), of i] live_used(1) [OF assms] assms(2,3) by (simp add: compare_and_overwrite_entry_def live_def)

definition set_outcome :: "hsearch_data \<Rightarrow> hslot list \<Rightarrow> bytes \<Rightarrow> bytes \<Rightarrow> hresult \<Rightarrow> bool" where
  "set_outcome h t k d r = (case r of (ret, ep, h1) \<Rightarrow>
     0 < ret \<and> ep \<noteq> None \<and> leaves h t h1 ((table_map t)(k \<mapsto> d)) \<or>
     ret = 0 \<and> ep = None \<and> herrno h1 \<in> {EPERM, EINVAL} \<and> leaves h t h1 (table_map t))"

lemma overwrite_slot:
  assumes "hash_ok h t" "i \<in> {1..hsize h}" "live (t ! i) k"
    and "h1 = set_slot i ((t ! i)\<lparr>entry := (entry (t ! i))\<lparr>hdata := Some d\<rparr>\<rparr>) (h\<lparr>allocs := a\<rparr>)"
  shows "leaves h t h1 ((table_map t)(k \<mapsto> d))"
proof -
  let ?s = "(t ! i)\<lparr>entry := (entry (t ! i))\<lparr>hdata := Some d\<rparr>\<rparr>" and ?n = "hsize h"
  note inv = hash_ok_dests(6) [OF assms(1)]
  have l: "length t = Suc ?n" using hash_ok_dests(2) [OF assms(1)] .
  have s: "live ?s k" "0 < used (t ! i)" "used ?s \<noteq> 0" using assms(3) by (auto simp: live_def)
  have inv2: "table_inv ?n (t[i := ?s])"
    using live_used [OF assms(1-3)] s table_inv_unique [OF inv _ assms(2) _ assms(3)]
    by (intro table_inv_update [OF inv assms(2) s(3)]) (auto simp: live_def)
  have "table_map (t[i := ?s]) k' = ((table_map t)(k \<mapsto> d)) k'" for k'
  proof (cases "k' = k")
    case True
    then show ?thesis using table_map_live [OF inv2 assms(2), of k] s l assms(2) by simp
  next
    case False
    then show ?thesis using table_map_other [OF inv inv2, of k'] assms(3) by (auto simp: live_def)
  qed
  then show ?thesis
    using assms(4) s hash_ok_dests(1) [OF assms(1)] by (intro leaves_update [OF assms(1,2) s(3) inv2]) (auto simp: set_slot_def)
qed

lemma hset_live:
  assumes "hash_ok h t" "i \<in> {1..hsize h}" "live (t ! i) k" "plenty w"
  shows "\<exists>r. hsearch_r w k (Some d) ENTER fl h = Some (Done r) \<and> set_outcome h t k d r \<and> (grants w \<longrightarrow> 0 < fst r)"
proof -
  let ?cmp = "compare_and_overwrite_entry w k (Some d) ENTER fl (first_idx (hsize h) k) i h"
  let ?h1 = "set_slot i ((t ! i)\<lparr>entry := (entry (t ! i))\<lparr>hdata := Some d\<rparr>\<rparr>) (h\<lparr>allocs := allocs h + 1\<rparr>)"
  have c: "?cmp = Done (Some (if hchange_denied w (entry (t ! i)) (Some d) env_op_overwrite fl then (0, None, set_errno EPERM h)
      else if hcall_denies w (entry (t ! i)) k (Some d) env_op_overwrite fl then (0, None, set_errno EINVAL h) else (i, Some i, ?h1)))"
    using slot_at_ok [OF assms(1), of i] live_used(1) [OF assms(1-3)] assms(2,3)
    by (simp add: compare_and_overwrite_entry_def live_def hdup_plenty [OF assms(4)] Let_def)
  have same: "leaves h t (set_errno x h) (table_map t)" for x
    by (rule leaves_same [OF assms(1)]) (simp_all add: set_errno_def)
  have e: "herrno (set_errno x h) = x" for x by (simp add: set_errno_def)
  show ?thesis
    unfolding hsearch_live [OF assms(1-3) c]
    using same e overwrite_slot [OF assms(1-3) refl] assms(2) by (auto simp: set_outcome_def grants_def)
qed

lemma new_slot:
  assumes "hash_ok h t" "e \<in> {1..hsize h}" "used (t ! e) \<le> 0" "reaches (hsize h) t k e" "\<forall>i\<in>{1..hsize h}. \<not> live (t ! i) k"
    and "used s = int (first_idx (hsize h) k)" "hkey (entry s) = Some k" "hdata (entry s) = Some d"
    and "htable h1 = Some (t[e := s])" "hsize h1 = hsize h" "filled h1 = filled h + 1"
  shows "leaves h t h1 ((table_map t)(k \<mapsto> d))"
proof -
  let ?n = "hsize h"
  note inv = hash_ok_dests(6) [OF assms(1)]
  have l: "length t = Suc ?n" using hash_ok_dests(2) [OF assms(1)] .
  have pos: "0 < used s" using assms(6) first_idx_range [of ?n k] hash_ok_dests(4) [OF assms(1)] by simp
  then have s: "used s \<noteq> 0" "live s k" using assms(7) by (simp_all add: live_def)
  have inv2: "table_inv ?n (t[e := s])"
    using assms(4-8) by (intro table_inv_update [OF inv assms(2) s(1)]) auto
  have "table_map (t[e := s]) k' = ((table_map t)(k \<mapsto> d)) k'" for k'
  proof (cases "k' = k")
    case True
    then show ?thesis using table_map_live [OF inv2 assms(2), of k] s l assms(2,8) by simp
  next
    case False
    then show ?thesis using table_map_other [OF inv inv2, of k'] assms(3,7) by (auto simp: live_def)
  qed
  then show ?thesis
    using pos assms(3,9-11) by (intro leaves_update [OF assms(1,2) s(1) inv2]) auto
qed

lemma dead_slot:
  assumes "hash_ok h t" "i \<in> {1..hsize h}" "used s = - 1" "htable h1 = Some (t[i := s])" "hsize h1 = hsize h"
    and "filled h1 = filled h - (if 0 < used (t ! i) then 1 else 0)" "\<And>k. live (t ! i) k \<Longrightarrow> f k = None" "\<And>k. \<not> live (t ! i) k \<Longrightarrow> f k = table_map t k"
  shows "leaves h t h1 f"
proof -
  let ?n = "hsize h"
  note inv = hash_ok_dests(6) [OF assms(1)]
  have l: "length t = Suc ?n" using hash_ok_dests(2) [OF assms(1)] .
  have s: "used s \<noteq> 0" "\<not> live s k" for k using assms(3) by (simp_all add: live_def)
  have inv2: "table_inv ?n (t[i := s])" using assms(3) by (intro table_inv_update [OF inv assms(2) s(1)]) auto
  have "table_map (t[i := s]) k = f k" for k
  proof (cases "live (t ! i) k")
    case True
    have "\<not> live (t[i := s] ! j) k" if "j \<in> {1..?n}" for j
      using table_inv_unique [OF inv that assms(2) _ True] s(2) l assms(2) by (cases "j = i") auto
    then show ?thesis using table_map_none [OF inv2, of k] assms(7) [OF True] by simp
  next
    case False
    then show ?thesis using table_map_other [OF inv inv2 False s(2)] assms(8) by simp
  qed
  then show ?thesis
    using assms(3-6) by (intro leaves_update [OF assms(1,2) s(1) inv2]) auto
qed

lemma not_full:
  assumes "hash_ok h t" "e \<in> {1..hsize h}" "used (t ! e) \<le> 0"
  shows "filled h \<noteq> of_nat (hsize h)"
proof -
  let ?S = "{i \<in> {1..hsize h}. 0 < used (t ! i)}"
  have "e \<notin> ?S" "?S \<subseteq> {1..hsize h}" using assms(3) by auto
  then have "?S \<subset> {1..hsize h}" using assms(2) by blast
  then have c: "card ?S < hsize h" using psubset_card_mono [of "{1..hsize h}" ?S] by simp
  have "filled h = of_nat (card ?S)" using assms(1) unfolding hash_ok_def by blast
  moreover have "unat (of_nat (card ?S) :: u32) = card ?S" "unat (of_nat (hsize h) :: u32) = hsize h"
    using c hash_ok_dests(5) [OF assms(1)] by (simp_all add: unsigned_of_nat take_bit_nat_eq_self del: Collect_conj_eq)
  ultimately show ?thesis using c by (metis nat_neq_iff)
qed

lemma henter_outcome:
  assumes "hash_ok h t" "e \<in> {1..hsize h}" "used (t ! e) = 0 \<or> used (t ! e) = - 1" "reaches (hsize h) t k e"
    and "\<forall>i\<in>{1..hsize h}. \<not> live (t ! i) k" "plenty w"
  shows "\<exists>r. henter w k (Some d) fl (first_idx (hsize h) k) e h = Done r \<and> set_outcome h t k d r \<and> (grants w \<longrightarrow> 0 < fst r)"
proof -
  have u: "used (t ! e) \<le> 0" using assms(3) by auto
  define s2 where "s2 = (t ! e)\<lparr>used := int (first_idx (hsize h) k),
    entry := (entry (t ! e))\<lparr>hkey := Some k, hdata := Some d, hcallback := callback_init w k, hflags := flags_init w k\<rparr>\<rparr>"
  define h3 where "h3 = (set_slot e s2 (h\<lparr>allocs := allocs h + 2\<rparr>))\<lparr>filled := filled h + 1\<rparr>"
  let ?no = "\<lambda>x. (0, None, set_errno x (hdelete_slot e s2 h3))"
  have r: "henter w k (Some d) fl (first_idx (hsize h) k) e h = Done (
      if hchange_denied w (entry s2) (Some d) env_op_create fl then ?no EPERM
      else if hcall_denies w (entry s2) k (Some d) env_op_create fl then ?no EINVAL else (1, Some e, h3))"
    using slot_at_ok [OF assms(1), of e] not_full [OF assms(1,2) u] assms(2)
    by (simp add: henter_def hdup_plenty [OF assms(6)] Let_def s2_def h3_def set_slot_def)
  have yes: "leaves h t h3 ((table_map t)(k \<mapsto> d))"
    using hash_ok_dests(1) [OF assms(1)]
    by (intro new_slot [OF assms(1,2) u assms(4,5), of s2]) (simp_all add: s2_def h3_def set_slot_def)
  have "table_map t x = table_map t x" for x by simp
  have no: "leaves h t (set_errno x (hdelete_slot e s2 h3)) (table_map t)" for x
    using hash_ok_dests(1) [OF assms(1)] u
    by (intro dead_slot [OF assms(1,2), of "s2\<lparr>used := - 1, entry := (entry s2)\<lparr>hcallback := None, hflags := 0\<rparr>\<rparr>"])
      (auto simp: h3_def set_slot_def hdelete_slot_def set_errno_def live_def)
  have e: "herrno (set_errno x (hdelete_slot e s2 h3)) = x" for x by (simp add: set_errno_def)
  show ?thesis unfolding r using yes no e by (auto simp: set_outcome_def grants_def)
qed

text \<open>Setting a key.\<close>

lemma hset_outcome:
  assumes "hash_ok h t" "0 < empties (hsize h) t" "plenty w"
  shows "\<exists>r. hsearch_r w k (Some d) ENTER fl h = Some (Done r) \<and> set_outcome h t k d r \<and> (grants w \<longrightarrow> 0 < fst r)"
proof (cases "\<exists>i\<in>{1..hsize h}. live (t ! i) k")
  case True
  then show ?thesis using hset_live [OF assms(1) _ _ assms(3)] by blast
next
  case False
  then have a: "\<forall>i\<in>{1..hsize h}. \<not> live (t ! i) k" by blast
  obtain e where e: "e \<in> {1..hsize h}" "used (t ! e) = 0 \<or> used (t ! e) = - 1" "reaches (hsize h) t k e"
    "hsearch_r w k (Some d) ENTER fl h = Some (henter w k (Some d) fl (first_idx (hsize h) k) e h)"
    using hsearch_absent [OF assms(1) a assms(2) [unfolded empties_pos], of w "Some d" ENTER fl] by auto
  with henter_outcome [OF assms(1) e(1-3) a assms(3), of d fl] show ?thesis by auto
qed

text \<open>Looking a key up, and deleting it.\<close>

lemma hfind_outcome:
  assumes "hash_ok h t"
  shows "case table_map t k of
      None \<Rightarrow> hsearch_r w k d FIND fl h = Some (Done (0, None, set_errno ESRCH h))
    | Some v \<Rightarrow> \<exists>i\<in>{1..hsize h}. live (t ! i) k \<and> hdata (entry (t ! i)) = Some v \<and> hsearch_r w k d FIND fl h = Some (Done (i, Some i, h))"
proof (cases "\<exists>i\<in>{1..hsize h}. live (t ! i) k")
  case True
  then obtain i where i: "i \<in> {1..hsize h}" "live (t ! i) k" by blast
  obtain v where "hdata (entry (t ! i)) = Some v" using live_used(3) [OF assms i] by blast
  then show ?thesis
    using table_map_live [OF hash_ok_dests(6) [OF assms] i] hsearch_live [OF assms i compare_find [OF assms i]] i by auto
next
  case False
  then show ?thesis using hfind_absent [OF assms] table_map_none [OF hash_ok_dests(6) [OF assms]] by auto
qed

lemma hdelete_outcome:
  assumes "hash_ok h t" "grants w"
  shows "\<exists>h1. hdelete_r w k fl h = Some (Done (if table_map t k = None then 0 else 1, h1)) \<and> leaves h t h1 ((table_map t)(k := None)) \<and>
     (\<exists>t1. htable h1 = Some t1 \<and> empties (hsize h) t1 = empties (hsize h) t)"
proof (cases "table_map t k")
  case None
  then have "hdelete_r w k fl h = Some (Done (0, set_errno ESRCH (set_errno ESRCH h)))"
    using hfind_outcome [OF assms(1), of w k None 0] by (simp add: hdelete_r_def)
  moreover have "leaves h t (set_errno ESRCH (set_errno ESRCH h)) (table_map t)"
    by (rule leaves_same [OF assms(1)]) (simp_all add: set_errno_def)
  moreover have "(table_map t)(k := None) = table_map t" using None by auto
  moreover have "htable (set_errno ESRCH (set_errno ESRCH h)) = Some t" using hash_ok_dests(1) [OF assms(1)] by (simp add: set_errno_def)
  ultimately show ?thesis using None by auto
next
  case (Some v)
  then obtain i where i: "i \<in> {1..hsize h}" "live (t ! i) k" "hsearch_r w k None FIND 0 h = Some (Done (i, Some i, h))"
    using hfind_outcome [OF assms(1), of w k None 0] by auto
  have "i \<noteq> 0" using i(1) by simp
  then have r: "hdelete_r w k fl h = Some (Done (1, hdelete_slot i (t ! i) h))"
    using i(1,3) slot_at_ok [OF assms(1), of i] assms(2) by (simp add: hdelete_r_def grants_def)
  let ?s = "(t ! i)\<lparr>used := - 1, entry := (entry (t ! i))\<lparr>hcallback := None, hflags := 0\<rparr>\<rparr>"
  have t1: "htable (hdelete_slot i (t ! i) h) = Some (t[i := ?s])"
    using hash_ok_dests(1) [OF assms(1)] by (simp add: hdelete_slot_def set_slot_def)
  have "leaves h t (hdelete_slot i (t ! i) h) ((table_map t)(k := None))"
    using i(2) t1 by (intro dead_slot [OF assms(1) i(1), of ?s]) (auto simp: hdelete_slot_def set_slot_def live_def)
  moreover have "empties (hsize h) (t[i := ?s]) = empties (hsize h) t"
    using i(2) by (intro empties_update(2) [OF hash_ok_dests(2) [OF assms(1)] i(1)]) (auto simp: live_def)
  ultimately show ?thesis using r t1 Some by auto
qed

section \<open>A fresh table\<close>

lemma next_prime_size:
  assumes "3 \<le> n" "n \<le> 521" "odd n"
  shows "\<exists>p. next_prime n = Some p \<and> prime_size p \<and> n \<le> p \<and> 5 \<le> p \<and> p \<le> 521"
proof (cases "n = 3")
  case True
  have "isprime 3 = Some False" by (simp add: isprime_def isprime_loop.simps divisor_from_def)
  then have "next_prime 3 = next_prime 5" by (subst next_prime.simps) simp
  then show ?thesis using True next_prime_ends [of 5] by auto
next
  case False
  with assms have "n \<noteq> 4" "3 < n" by auto
  then have "5 \<le> n" by simp
  then show ?thesis using next_prime_ends [of n] assms by force
qed

lemma hash_ok_fresh:
  assumes "prime_size n" "5 \<le> n" "n < 2 ^ 31" "htable h = Some (replicate (Suc n) zero_slot)" "hsize h = n" "filled h = 0"
  shows "hash_ok h (replicate (Suc n) zero_slot)" "empties n (replicate (Suc n) zero_slot) = n" "table_map (replicate (Suc n) zero_slot) = Map.empty"
proof -
  have z: "replicate (Suc n) zero_slot ! i = zero_slot" if "i \<in> {1..n}" for i using that by (intro nth_replicate) simp
  have u: "used (replicate (Suc n) zero_slot ! i) = 0" "\<not> live (replicate (Suc n) zero_slot ! i) k" if "i \<in> {1..n}" for i k
    unfolding z [OF that] by (simp_all add: zero_slot_def live_def)
  have inv: "table_inv n (replicate (Suc n) zero_slot)"
    unfolding table_inv_def using u by (metis length_replicate less_irrefl)
  have "{i \<in> {1..n}. 0 < used (replicate (Suc n) zero_slot ! i)} = {}" using u(1) by (metis (lifting) Collect_empty_eq less_irrefl)
  with inv show "hash_ok h (replicate (Suc n) zero_slot)"
    unfolding hash_ok_def assms(4-6) using assms(1-3) by (simp only: card.empty) simp
  have "{i \<in> {1..n}. used (replicate (Suc n) zero_slot ! i) = 0} = {1..n}" using u(1) by blast
  then show "empties n (replicate (Suc n) zero_slot) = n" by (simp only: empties_def card_atLeastAtMost)
  show "table_map (replicate (Suc n) zero_slot) = Map.empty"
    using table_map_none [OF inv] u(2) by (intro ext) blast
qed

lemma hcreate_prime:
  assumes "htable h = None" "2 \<le> nel" "nel \<le> 512"
  shows "\<exists>p. hcreate_r w nel (Some h) =
       Some (if alloc_ok w (allocs h)
         then (1, Some (h\<lparr>hsize := p, filled := 0, allocs := allocs h + 1, htable := Some (replicate (Suc p) zero_slot)\<rparr>))
         else (0, Some (h\<lparr>hsize := p, filled := 0, allocs := allocs h + 1\<rparr>))) \<and>
     prime_size p \<and> nel \<le> p \<and> 5 \<le> p \<and> p \<le> 521"
proof -
  define n where "n = (if even nel then nel + 1 else nel)"
  have "nel = 2 \<or> 3 \<le> nel" using assms(2) by auto
  then have "3 \<le> n" "n \<le> 521" "odd n" "nel \<le> n" using assms(3) by (auto simp: n_def)
  then obtain p where p: "next_prime n = Some p" "prime_size p" "nel \<le> p" "5 \<le> p" "p \<le> 521" using next_prime_size [of n] by auto
  have "(p + 1) mod 2 ^ 32 = Suc p" using p(5) by simp
  then show ?thesis
    using p assms(1) by (intro exI [of _ p]) (simp add: hcreate_r_def n_def Let_def del: replicate.simps)
qed

lemma hcreate_fresh:
  assumes "alloc_ok w (allocs h)" "htable h = None" "2 \<le> nel" "nel \<le> 512"
  shows "\<exists>h1 t. hcreate_r w nel (Some h) = Some (1, Some h1) \<and> hash_ok h1 t \<and> table_map t = Map.empty \<and>
     empties (hsize h1) t = hsize h1 \<and> nel \<le> hsize h1 \<and> hsize h1 \<le> 521"
proof -
  obtain p where p: "prime_size p" "nel \<le> p" "5 \<le> p" "p \<le> 521" and
    c: "hcreate_r w nel (Some h) = Some (1, Some (h\<lparr>hsize := p, filled := 0, allocs := allocs h + 1, htable := Some (replicate (Suc p) zero_slot)\<rparr>))"
    using hcreate_prime [OF assms(2-4), of w] assms(1) by auto
  define h1 where "h1 = h\<lparr>hsize := p, filled := 0, allocs := allocs h + 1, htable := Some (replicate (Suc p) zero_slot)\<rparr>"
  have "hcreate_r w nel (Some h) = Some (1, Some h1)" using c by (simp add: h1_def)
  moreover have "hsize h1 = p" "filled h1 = 0" "htable h1 = Some (replicate (Suc p) zero_slot)" by (simp_all add: h1_def)
  ultimately show ?thesis
    using hash_ok_fresh [of p h1] p by (intro exI [of _ h1] exI [of _ "replicate (Suc p) zero_slot"]) (simp del: replicate.simps)
qed

section \<open>Sequences of operations\<close>

text \<open>A store of variables with room for a number of further entries, and what a sequence of operations makes of it.\<close>

datatype var_op = Put bytes bytes | Del bytes

fun is_put :: "var_op \<Rightarrow> bool" where
  "is_put (Put k v) = True"
| "is_put (Del k) = False"

fun var_step :: "var_op \<Rightarrow> (bytes \<rightharpoonup> bytes) \<Rightarrow> (bytes \<rightharpoonup> bytes)" where
  "var_step (Put k v) f = f(k \<mapsto> v)"
| "var_step (Del k) f = f(k := None)"

fun run_vars :: "(bytes \<Rightarrow> bytes \<Rightarrow> 's \<Rightarrow> (int \<times> 's) outcome option) \<Rightarrow> (bytes \<Rightarrow> 's \<Rightarrow> (int \<times> 's) outcome option) \<Rightarrow> var_op list \<Rightarrow> 's \<Rightarrow> 's option" where
  "run_vars put del [] s = Some s"
| "run_vars put del (Put k v # ops) s = (case put k v s of Some (Done (_, s1)) \<Rightarrow> run_vars put del ops s1 | _ \<Rightarrow> None)"
| "run_vars put del (Del k # ops) s = (case del k s of Some (Done (_, s1)) \<Rightarrow> run_vars put del ops s1 | _ \<Rightarrow> None)"

locale var_store =
  fixes room :: "nat \<Rightarrow> 's \<Rightarrow> bool" and vars :: "'s \<Rightarrow> bytes \<rightharpoonup> bytes"
    and get :: "bytes \<Rightarrow> 's \<Rightarrow> bytes option outcome option"
    and put :: "bytes \<Rightarrow> bytes \<Rightarrow> 's \<Rightarrow> (int \<times> 's) outcome option"
    and del :: "bytes \<Rightarrow> 's \<Rightarrow> (int \<times> 's) outcome option"
  assumes get_law: "room n s \<Longrightarrow> get k s = Some (Done (vars s k))"
    and put_law: "room (Suc n) s \<Longrightarrow> \<exists>r s1. put k v s = Some (Done (r, s1)) \<and> 0 < r \<and> room n s1 \<and> vars s1 = (vars s)(k \<mapsto> v)"
    and del_law: "room n s \<Longrightarrow> \<exists>s1. del k s = Some (Done (if vars s k = None then 0 else 1, s1)) \<and> room n s1 \<and> vars s1 = (vars s)(k := None)"
begin

lemma run_law:
  "room (length (filter is_put ops) + n) s \<Longrightarrow>
   \<exists>s1. run_vars put del ops s = Some s1 \<and> room n s1 \<and> vars s1 = fold var_step ops (vars s)"
proof (induction ops arbitrary: s)
  case (Cons op ops)
  show ?case
  proof (cases op)
    case (Put k v)
    then obtain r s1 where "put k v s = Some (Done (r, s1))" "room (length (filter is_put ops) + n) s1" "vars s1 = (vars s)(k \<mapsto> v)"
      using put_law [of "length (filter is_put ops) + n" s k v] Cons.prems by auto
    then show ?thesis using Cons.IH [of s1] unfolding Put run_vars.simps by (simp only: option.case outcome.case prod.case fold_simps var_step.simps comp_apply)
  next
    case (Del k)
    then obtain s1 where "del k s = Some (Done (if vars s k = None then 0 else 1, s1))" "room (length (filter is_put ops) + n) s1"
        "vars s1 = (vars s)(k := None)"
      using del_law [of "length (filter is_put ops) + n" s k] Cons.prems by auto
    then show ?thesis using Cons.IH [of s1] unfolding Del run_vars.simps by (simp only: option.case outcome.case prod.case fold_simps var_step.simps comp_apply)
  qed
qed simp

lemma run_get:
  assumes "room (length (filter is_put ops)) s"
  shows "\<exists>s1. run_vars put del ops s = Some s1 \<and> (\<forall>k. get k s1 = Some (Done (fold var_step ops (vars s) k)))"
  using run_law [of ops 0 s] assms get_law by fastforce

end

text \<open>The value \<open>env_get\<close> returns, and setting a value, in terms of the calls of the table.\<close>

definition hlookup :: "hworld \<Rightarrow> bytes \<Rightarrow> hsearch_data \<Rightarrow> bytes option outcome option" where
  "hlookup w k h = map_option (\<lambda>r. bind_outcome r (\<lambda>(_, ep, h1).
     case ep of None \<Rightarrow> Done None | Some i \<Rightarrow> bind_outcome (slot_at h1 i) (\<lambda>s. Done (hdata (entry s))))) (hsearch_r w k None FIND 0 h)"

definition hput :: "hworld \<Rightarrow> int \<Rightarrow> bytes \<Rightarrow> bytes \<Rightarrow> hsearch_data \<Rightarrow> (int \<times> hsearch_data) outcome option" where
  "hput w fl k d h = map_option (\<lambda>r. bind_outcome r (\<lambda>(n, _, h1). Done (int n, h1))) (hsearch_r w k (Some d) ENTER fl h)"

definition hash_vars :: "hsearch_data \<Rightarrow> bytes \<rightharpoonup> bytes" where
  "hash_vars h = (case htable h of None \<Rightarrow> Map.empty | Some t \<Rightarrow> table_map t)"

definition hash_room :: "nat \<Rightarrow> hsearch_data \<Rightarrow> bool" where
  "hash_room n h \<longleftrightarrow> (\<exists>t. hash_ok h t \<and> n \<le> empties (hsize h) t)"

lemma hash_vars_ok: "hash_ok h t \<Longrightarrow> hash_vars h = table_map t"
  using hash_ok_dests(1) [of h t] by (simp add: hash_vars_def)

lemma leaves_room:
  assumes "leaves h t h1 f" "Suc n \<le> empties (hsize h) t"
  shows "hash_room n h1" "hash_vars h1 = f"
  using assms hash_vars_ok by (auto simp: leaves_def hash_room_def)

lemma hlookup_room: "hash_room n h \<Longrightarrow> hlookup w k h = Some (Done (hash_vars h k))"
proof -
  assume "hash_room n h"
  then obtain t where t: "hash_ok h t" by (auto simp: hash_room_def)
  show ?thesis
    using hfind_outcome [OF t, of w k None 0] slot_at_ok [OF t] hash_vars_ok [OF t]
    by (auto simp: hlookup_def split: option.splits)
qed

lemma hput_room:
  assumes "hash_room (Suc n) h" "grants w"
  shows "\<exists>r h1. hput w fl k d h = Some (Done (r, h1)) \<and> 0 < r \<and> hash_room n h1 \<and> hash_vars h1 = (hash_vars h)(k \<mapsto> d)"
proof -
  obtain t where t: "hash_ok h t" "Suc n \<le> empties (hsize h) t" using assms(1) by (auto simp: hash_room_def)
  have "plenty w" using assms(2) by (simp add: grants_def)
  then obtain ret ep h1 where r: "hsearch_r w k (Some d) ENTER fl h = Some (Done (ret, ep, h1))" "set_outcome h t k d (ret, ep, h1)" "0 < ret"
    using hset_outcome [OF t(1), of w k d fl] t(2) assms(2) by auto
  then have "leaves h t h1 ((table_map t)(k \<mapsto> d))" by (simp add: set_outcome_def)
  with leaves_room [OF this t(2)] r show ?thesis by (simp add: hput_def hash_vars_ok [OF t(1)])
qed

text \<open>A call that sets no entry returns 0.\<close>

lemma compare_ep: "compare_and_overwrite_entry w k d a fl v i h = Done (Some (ret, ep, h1)) \<Longrightarrow> ep = None \<Longrightarrow> ret = 0"
  by (auto simp: compare_and_overwrite_entry_def bind_outcome_Done_iff Let_def split: if_splits option.splits prod.splits)

lemma henter_ep: "henter w k d fl v i h = Done (ret, ep, h1) \<Longrightarrow> ep = None \<Longrightarrow> ret = 0"
  by (cases "hdup w (Some k) h"; cases "hdup w d (snd (hdup w (Some k) h))")
    (auto simp: henter_def bind_outcome_Done_iff Let_def split: if_splits)

lemma hprobe_ep: "hprobe n w k d a fl v v2 i h = Some (Done (Hit (ret, ep, h1))) \<Longrightarrow> ep = None \<Longrightarrow> ret = 0"
  by (induction n arbitrary: i) (auto simp: Let_def dest: compare_ep split: if_splits option.splits outcome.splits)

lemma hsearch_ep:
  assumes "hsearch_r w k d a fl h = Some (Done (ret, ep, h1))" "ep = None"
  shows "ret = 0"
proof -
  let ?P = "hprobe (hsize h) w k d a fl (first_idx (hsize h) k) (second_hash (hsize h) (first_idx (hsize h) k)) (first_idx (hsize h) k) h"
  consider "?P = None" | "?P = Some Fault" | e where "?P = Some (Fatal e)" | x where "?P = Some (Done (Hit x))" | i where "?P = Some (Done (Miss i))"
    by (metis option.exhaust outcome.exhaust probe.exhaust)
  then show ?thesis
    using assms by cases (auto simp: hsearch_r_def Let_def dest: compare_ep henter_ep hprobe_ep split: if_splits option.splits outcome.splits)
qed

text \<open>A name that is there already takes no further slot.\<close>

lemma hput_present:
  assumes "hash_room n h" "grants w" "hash_vars h k \<noteq> None"
  shows "\<exists>r h1. hput w fl k d h = Some (Done (r, h1)) \<and> 0 < r \<and> hash_room n h1 \<and> hash_vars h1 = (hash_vars h)(k \<mapsto> d)"
proof -
  obtain t where t: "hash_ok h t" "n \<le> empties (hsize h) t" using assms(1) by (auto simp: hash_room_def)
  have "\<exists>i\<in>{1..hsize h}. live (t ! i) k"
    using assms(3) table_map_none [OF hash_ok_dests(6) [OF t(1)], of k] hash_vars_ok [OF t(1)] by metis
  then obtain i where i: "i \<in> {1..hsize h}" "live (t ! i) k" by blast
  let ?s = "(t ! i)\<lparr>entry := (entry (t ! i))\<lparr>hdata := Some d\<rparr>\<rparr>"
  let ?h1 = "set_slot i ?s (h\<lparr>allocs := allocs h + 1\<rparr>)"
  have p: "plenty w" using assms(2) by (simp add: grants_def)
  have "compare_and_overwrite_entry w k (Some d) ENTER fl (first_idx (hsize h) k) i h = Done (Some (i, Some i, ?h1))"
    using slot_at_ok [OF t(1), of i] live_used(1) [OF t(1) i] i assms(2)
    by (simp add: compare_and_overwrite_entry_def live_def hdup_plenty [OF p] Let_def grants_def)
  from hsearch_live [OF t(1) i this] have r: "hput w fl k d h = Some (Done (int i, ?h1))" by (simp add: hput_def)
  have h1: "htable ?h1 = Some (t[i := ?s])" "hsize ?h1 = hsize h" using hash_ok_dests(1) [OF t(1)] by (simp_all add: set_slot_def)
  obtain t1 where t1: "hash_ok ?h1 t1" "table_map t1 = (table_map t)(k \<mapsto> d)" using overwrite_slot [OF t(1) i refl, of d "allocs h + 1"] by (auto simp: leaves_def)
  have "t1 = t[i := ?s]" using hash_ok_dests(1) [OF t1(1)] h1(1) by simp
  then have "empties (hsize h) t1 = empties (hsize h) t"
    using i(2) by (simp, intro empties_update(2) [OF hash_ok_dests(2) [OF t(1)] i(1)]) (auto simp: live_def)
  then have "hash_room n ?h1" using t(2) t1(1) h1(2) by (auto simp: hash_room_def)
  with r t1 hash_vars_ok [OF t1(1)] hash_vars_ok [OF t(1)] i(1) show ?thesis by (intro exI [of _ "int i"] exI [of _ ?h1]) simp
qed

lemma hdelete_room:
  assumes "hash_room n h" "grants w"
  shows "\<exists>h1. hdelete_r w k fl h = Some (Done (if hash_vars h k = None then 0 else 1, h1)) \<and> hash_room n h1 \<and> hash_vars h1 = (hash_vars h)(k := None)"
proof -
  obtain t where t: "hash_ok h t" "n \<le> empties (hsize h) t" using assms(1) by (auto simp: hash_room_def)
  obtain h1 t1 where d: "hdelete_r w k fl h = Some (Done (if table_map t k = None then 0 else 1, h1))" "leaves h t h1 ((table_map t)(k := None))"
      "htable h1 = Some t1" "empties (hsize h) t1 = empties (hsize h) t"
    using hdelete_outcome [OF t(1) assms(2), of k fl] by blast
  from d(2) obtain t2 where "hash_ok h1 t2" "table_map t2 = (table_map t)(k := None)" "hsize h1 = hsize h" by (auto simp: leaves_def)
  moreover have "t2 = t1" using d(3) hash_ok_dests(1) [OF calculation(1)] by simp
  ultimately show ?thesis
    using d(1,4) t(2) hash_vars_ok [OF t(1)] hash_vars_ok [of h1 t2] by (auto simp: hash_room_def)
qed

interpretation env_table: var_store "\<lambda>n h. grants w \<and> hash_room n h" hash_vars "hlookup w" "hput w fl" "\<lambda>k. hdelete_r w k fl"
  for w fl
  using hlookup_room hput_room hdelete_room by unfold_locales blast+

section \<open>Properties\<close>


definition open_world :: hworld where
  "open_world = \<lparr>alloc_ok = (\<lambda>_. True), callback_init = (\<lambda>_. None), flags_init = (\<lambda>_. 0),
     callback_denies = (\<lambda>_ _ _ _ _. False), change_ok = None\<rparr>"

definition no_table :: hsearch_data where
  "no_table = \<lparr>htable = None, hsize = 0, filled = 0, allocs = 0, herrno = 0\<rparr>"

lemma open_world_grants: "grants open_world"
  by (simp add: grants_def plenty_def open_world_def hchange_denied_def hcall_denies_def split: option.splits)


text \<open>C33: \<open>hcreate_r\<close> returns for every number of entries from 2 to 512: its search for a prime and the trial divisions in it end.  The size of the
  table is then a prime between the number asked for and 521, whether or not the allocation succeeds.\<close>

theorem hcreate_ends:
  assumes "htable h = None" "2 \<le> nel" "nel \<le> 512"
  shows "\<exists>r h1. hcreate_r w nel (Some h) = Some (r, Some h1) \<and> prime_size (hsize h1) \<and> nel \<le> hsize h1 \<and> hsize h1 \<le> 521 \<and>
     (r = 1 \<and> htable h1 = Some (replicate (hsize h1 + 1) zero_slot) \<or> r = 0 \<and> htable h1 = None)"
  using hcreate_prime [OF assms, of w] assms(1) by auto

theorem hcreate_ends_witness:
  "\<exists>r h1. hcreate_r open_world 512 (Some no_table) = Some (r, Some h1) \<and> prime_size (hsize h1) \<and> 512 \<le> hsize h1 \<and> hsize h1 \<le> 521"
  using hcreate_ends [of no_table 512 open_world] by (auto simp: no_table_def)


text \<open>A world in which the names with a callback refuse every change.\<close>

definition strict_world :: hworld where
  "strict_world = open_world\<lparr>callback_init := (\<lambda>k. if k = ascii ''ro'' then Some 1 else None), callback_denies := (\<lambda>_ _ _ _ _. True)\<rparr>"

definition empty_five :: hsearch_data where
  "empty_five = no_table\<lparr>htable := Some (replicate 6 zero_slot), hsize := 5\<rparr>"

lemma empty_five_ok: "hash_ok empty_five (replicate 6 zero_slot)" "empties (hsize empty_five) (replicate 6 zero_slot) = 5"
proof -
  have "isprime 5 = Some True" by (simp add: isprime_def isprime_loop.simps divisor_from_def)
  then have "prime_size 5" using isprime_correct [of 5] by simp
  then have p: "prime_size 5" "5 \<le> (5 :: nat)" "5 < (2 :: nat) ^ 31" by simp_all
  have f: "htable empty_five = Some (replicate (Suc 5) zero_slot)" "hsize empty_five = 5" "filled empty_five = 0" and six: "Suc 5 = 6"
    by (simp_all add: empty_five_def no_table_def)
  show "hash_ok empty_five (replicate 6 zero_slot)" "empties (hsize empty_five) (replicate 6 zero_slot) = 5"
    using hash_ok_fresh(1,2) [OF p f] unfolding six f(2) by blast+
qed

lemma empty_five_map: "table_map (replicate 6 zero_slot) = Map.empty"
proof
  fix k
  show "table_map (replicate 6 zero_slot) k = None"
    using table_map_none [OF hash_ok_dests(6) [OF empty_five_ok(1)], of k] by (auto simp: empty_five_def live_def zero_slot_def nth_Cons' numeral_eq_Suc)
qed


section \<open>Corner cases of the code\<close>

text \<open>The prime test takes 1 for a prime and 3 for none.\<close>

lemma isprime_small: "isprime 1 = Some True" "isprime 3 = Some False"
  by (simp_all add: isprime_def isprime_loop.simps divisor_from_def)

text \<open>The last slot of the table is never looked at by \<open>hmatch_r\<close>.\<close>

lemma hmatch_misses_last: "hmatch_r match (hsize h - 1) h = Done (0, None, set_errno ESRCH h)" if "0 < hsize h"
  using that by (simp add: hmatch_r_def hmatch_from.simps)

text \<open>
  When the slots in use and the slots marked as deleted leave none empty, a name whose first slot is in use replaces the entry there,
  although the table is not full.
\<close>

lemma deleted_marks_lose_entry:
  assumes "hash_ok h t" "\<forall>i\<in>{1..hsize h}. \<not> live (t ! i) k" "\<forall>i\<in>{1..hsize h}. used (t ! i) \<noteq> 0"
    and "live (t ! first_idx (hsize h) k) k'" "e \<in> {1..hsize h}" "used (t ! e) = - 1" "grants w"
  shows "\<exists>h1 t1. hsearch_r w k (Some d) ENTER fl h = Some (Done (1, Some (first_idx (hsize h) k), h1)) \<and> htable h1 = Some t1 \<and>
     (\<forall>i\<in>{1..hsize h}. \<not> live (t1 ! i) k')"
proof -
  let ?n = "hsize h" and ?v = "first_idx (hsize h) k"
  have v: "slot_at h ?v = Done (t ! ?v)" "?v \<in> {1..?n}"
    using slot_at_path [OF assms(1), of k 0] path_in [OF assms(1), of k 0] by (simp_all add: path_simps(1))
  have n: "?n \<noteq> 0" "?n \<noteq> 2" "3 \<le> ?n" using hash_ok_dests(4) [OF assms(1)] by simp_all
  have "hprobe (?n - 0) w k (Some d) ENTER fl ?v (second_hash ?n ?v) (path ?n k 0) h =
      hprobe (?n - (?n - 1)) w k (Some d) ENTER fl ?v (second_hash ?n ?v) (path ?n k (?n - 1)) h"
    using assms(2,3) path_in [OF assms(1)] n by (intro hprobe_skip [OF assms(1)]) auto
  then have "hprobe ?n w k (Some d) ENTER fl ?v (second_hash ?n ?v) ?v h = Some (Done (Miss ?v))"
    using hprobe_back [OF n(3), of w k "Some d" ENTER fl] n by (simp add: path_simps(1))
  moreover have "compare_and_overwrite_entry w k (Some d) ENTER fl ?v ?v h = Done None" using compare_miss [OF assms(1) v(2)] assms(2) v(2) by blast
  moreover have "used (t ! ?v) \<noteq> 0" "used (t ! ?v) \<noteq> - 1" using assms(4) by (auto simp: live_def)
  ultimately have s: "hsearch_r w k (Some d) ENTER fl h = Some (henter w k (Some d) fl ?v ?v h)"
    using v(1) n by (simp add: hsearch_r_def Let_def)
  define s2 where "s2 = (t ! ?v)\<lparr>used := int ?v,
    entry := (entry (t ! ?v))\<lparr>hkey := Some k, hdata := Some d, hcallback := callback_init w k, hflags := flags_init w k\<rparr>\<rparr>"
  have p: "plenty w" using assms(7) by (simp add: grants_def)
  have "\<exists>h1. henter w k (Some d) fl ?v ?v h = Done (1, Some ?v, h1) \<and> htable h1 = Some (t[?v := s2])"
    using v(1) not_full [OF assms(1,5)] assms(6,7) hash_ok_dests(1) [OF assms(1)]
    by (simp add: henter_def hdup_plenty [OF p] Let_def s2_def set_slot_def grants_def)
  moreover have "\<not> live (t[?v := s2] ! i) k'" if i: "i \<in> {1..?n}" for i
  proof (cases "i = ?v")
    case True
    have "k \<noteq> k'" using assms(2,4) v(2) by auto
    then show ?thesis using True hash_ok_dests(2) [OF assms(1)] i by (simp add: live_def s2_def)
  next
    case False
    then show ?thesis using table_inv_unique [OF hash_ok_dests(6) [OF assms(1)] i v(2) _ assms(4)] by auto
  qed
  ultimately show ?thesis using s by metis
qed

text \<open>When the copy of the name fails the slot stays in use, with no name: the next search that compares with it reads a NULL pointer.\<close>

lemma failed_copy_leaves_slot:
  assumes "\<not> alloc_ok w (allocs h)" "filled h \<noteq> of_nat (hsize h)" "slot_at h idx = Done s"
  shows "\<exists>h1. henter w k (Some d) fl hval idx h = Done (0, None, h1) \<and>
     (\<exists>s1. htable h1 = map_option (\<lambda>t. t[idx := s1]) (htable h) \<and> used s1 = int hval \<and> hkey (entry s1) = None)"
  using assms by (auto simp: henter_def hdup_def Let_def set_slot_def set_errno_def intro!: exI [of _ "s\<lparr>used := _, entry := _\<rparr>"])

end
