(* ===== verification/QSort.thy ===== *)
theory QSort
  imports Prelude "HOL-Library.Multiset"
begin

text \<open>
  \<open>lib/qsort.c\<close>: the shell sort behind \<open>qsort\<close>.  The array is a list of elements, so the loop that exchanges two elements byte by byte
  is an exchange of two list elements, and positions count elements; the gaps are of the form \<open>3k + 1\<close>, for which the division of
  byte distances by 3 is the division of element distances.  The comparison function is an argument.
\<close>

section \<open>The routine\<close>

definition exchange :: "nat \<Rightarrow> nat \<Rightarrow> 'a list \<Rightarrow> 'a list" where
  "exchange a b xs = xs[a := xs ! b, b := xs ! a]"

text \<open>The first gap.\<close>

function first_gap :: "nat \<Rightarrow> nat \<Rightarrow> nat" where
  "first_gap nel wgap = (let g = 3 * wgap + 1 in if g < (nel - 1) div 3 then first_gap nel g else g)"
  by pat_completeness auto
termination
  by (relation "measure (\<lambda>(nel, wgap). nel - wgap)") auto

declare first_gap.simps [simp del]

text \<open>The innermost loop: the element at \<open>j\<close> moves down in steps of the gap.\<close>

function sift :: "('a \<Rightarrow> 'a \<Rightarrow> int) \<Rightarrow> nat \<Rightarrow> nat \<Rightarrow> 'a list \<Rightarrow> 'a list" where
  "sift cmp wgap j xs =
     (if wgap = 0 \<or> j < wgap then xs
      else if cmp (xs ! (j - wgap)) (xs ! j) \<le> 0 then xs
      else sift cmp wgap (j - wgap) (exchange (j - wgap) j xs))"
  by pat_completeness auto
termination
  by (relation "measure (\<lambda>(cmp, wgap, j, xs). j)") auto

declare sift.simps [simp del]

function gap_pass :: "('a \<Rightarrow> 'a \<Rightarrow> int) \<Rightarrow> nat \<Rightarrow> nat \<Rightarrow> nat \<Rightarrow> 'a list \<Rightarrow> 'a list" where
  "gap_pass cmp wgap nel i xs =
     (let xs1 = sift cmp wgap i xs in if i + 1 < nel then gap_pass cmp wgap nel (i + 1) xs1 else xs1)"
  by pat_completeness auto
termination
  by (relation "measure (\<lambda>(cmp, wgap, nel, i, xs). nel - i)") auto

declare gap_pass.simps [simp del]

function gap_loop :: "('a \<Rightarrow> 'a \<Rightarrow> int) \<Rightarrow> nat \<Rightarrow> nat \<Rightarrow> 'a list \<Rightarrow> 'a list" where
  "gap_loop cmp nel wgap xs =
     (let xs1 = gap_pass cmp wgap nel wgap xs; g = (wgap - 1) div 3
      in if g \<noteq> 0 then gap_loop cmp nel g xs1 else xs1)"
  by pat_completeness auto
termination
  by (relation "measure (\<lambda>(cmp, nel, wgap, xs). wgap)") auto

declare gap_loop.simps [simp del]

definition qsort :: "('a \<Rightarrow> 'a \<Rightarrow> int) \<Rightarrow> 'a list \<Rightarrow> 'a list" where
  "qsort cmp xs = (if 1 < length xs then gap_loop cmp (length xs) (first_gap (length xs) 0) xs else xs)"

section \<open>Every pass rearranges\<close>

lemma length_exchange [simp]: "length (exchange a b xs) = length xs"
  by (simp add: exchange_def)

lemma mset_exchange: "a < length xs \<Longrightarrow> b < length xs \<Longrightarrow> mset (exchange a b xs) = mset xs"
  unfolding exchange_def by (rule mset_swap)

lemma sift_mset: "j < length xs \<Longrightarrow> mset (sift cmp g j xs) = mset xs \<and> length (sift cmp g j xs) = length xs"
proof (induction cmp g j xs rule: sift.induct)
  case (1 cmp g j xs)
  show ?case
  proof (cases "g = 0 \<or> j < g \<or> cmp (xs ! (j - g)) (xs ! j) \<le> 0")
    case True
    then show ?thesis by (subst (1 2) sift.simps) auto
  next
    case False
    then have "sift cmp g j xs = sift cmp g (j - g) (exchange (j - g) j xs)" by (subst sift.simps) simp
    then show ?thesis using 1 False mset_exchange [of "j - g" xs j] by auto
  qed
qed

lemma gap_pass_mset: "i < length xs \<Longrightarrow> nel = length xs \<Longrightarrow> mset (gap_pass cmp g nel i xs) = mset xs \<and> length (gap_pass cmp g nel i xs) = length xs"
proof (induction cmp g nel i xs rule: gap_pass.induct)
  case (1 cmp g nel i xs)
  then show ?case using sift_mset [of i xs cmp g] by (subst (1 2) gap_pass.simps) (auto simp: Let_def)
qed

section \<open>The last pass sorts\<close>

text \<open>The comparison agrees with an order on the elements at hand.\<close>

definition compares :: "('a \<Rightarrow> 'a \<Rightarrow> int) \<Rightarrow> ('a \<Rightarrow> 'a \<Rightarrow> bool) \<Rightarrow> 'a set \<Rightarrow> bool" where
  "compares cmp le A \<longleftrightarrow> (\<forall>a\<in>A. \<forall>b\<in>A. (cmp a b \<le> 0 \<longleftrightarrow> le a b) \<and> (le a b \<or> le b a)) \<and>
     (\<forall>a\<in>A. \<forall>b\<in>A. \<forall>c\<in>A. le a b \<longrightarrow> le b c \<longrightarrow> le a c)"

lemma compares_dests:
  assumes "compares cmp le A" "a \<in> A" "b \<in> A"
  shows "cmp a b \<le> 0 \<longleftrightarrow> le a b" "le a b \<or> le b a" "c \<in> A \<Longrightarrow> le a b \<Longrightarrow> le b c \<Longrightarrow> le a c"
  using assms unfolding compares_def by blast+

text \<open>With gap 1, the element at \<open>j\<close> is inserted in the sorted elements before it; those behind it already exceed them.\<close>

lemma sift_sorts:
  assumes "compares cmp le (set xs)" "xs = A @ x # B @ C" "sorted_wrt le (A @ B)" "list_all (\<lambda>b. le x b) B"
  shows "\<exists>D. sift cmp 1 (length A) xs = D @ C \<and> sorted_wrt le D \<and> length D = length (A @ x # B)"
  using assms
proof (induction A arbitrary: xs B rule: rev_induct)
  case Nil
  then have "sift cmp 1 (length []) xs = (x # B) @ C" by (subst sift.simps) simp
  moreover have "sorted_wrt le (x # B)" using Nil by (simp add: list_all_iff)
  ultimately show ?case by (intro exI [of _ "x # B"]) simp
next
  case (snoc y A)
  have n: "xs ! length A = y" "xs ! Suc (length A) = x" using snoc.prems(2) by (simp_all add: nth_append)
  have yx: "y \<in> set xs" "x \<in> set xs" using snoc.prems(2) by simp_all
  show ?case
  proof (cases "cmp y x \<le> 0")
    case True
    then have "le y x" using compares_dests(1) [OF snoc.prems(1) yx] by blast
    have tr: "le a x" if "a \<in> set A" for a
    proof -
      have "le a y" using snoc.prems(3) that by (auto simp: sorted_wrt_append)
      moreover have "a \<in> set xs" using snoc.prems(2) that by simp
      ultimately show ?thesis using compares_dests(3) [OF snoc.prems(1) _ yx] \<open>le y x\<close> by blast
    qed
    have "sift cmp 1 (length (A @ [y])) xs = xs" using True n by (subst sift.simps) simp
    moreover have "sorted_wrt le (A @ [y] @ x # B)"
      using snoc.prems(3,4) \<open>le y x\<close> tr by (auto simp: sorted_wrt_append list_all_iff)
    ultimately show ?thesis using snoc.prems(2) by (intro exI [of _ "A @ [y] @ x # B"]) simp
  next
    case False
    let ?xs = "A @ x # (y # B) @ C"
    have "exchange (length A) (Suc (length A)) xs = ?xs"
      using snoc.prems(2) by (simp add: exchange_def nth_append list_update_append)
    then have "sift cmp 1 (length (A @ [y])) xs = sift cmp 1 (length A) ?xs"
      using False n by (subst sift.simps) simp
    moreover have "set ?xs = set xs" using snoc.prems(2) by auto
    moreover have "le x y" using False compares_dests(1,2) [OF snoc.prems(1) yx] by blast
    ultimately show ?thesis
      using snoc.IH [of ?xs "y # B"] snoc.prems by simp
  qed
qed

lemma gap_pass_sorts:
  assumes "compares cmp le (set xs)" "i < length xs" "sorted_wrt le (take i xs)" "nel = length xs"
  shows "sorted_wrt le (gap_pass cmp 1 nel i xs)"
  using assms
proof (induction "length xs - i" arbitrary: i xs rule: less_induct)
  case less
  have xs: "xs = take i xs @ xs ! i # [] @ drop (Suc i) xs" unfolding append_Nil using less.prems(2) by (rule id_take_nth_drop)
  have l: "length (take i xs) = i" "min (length xs) i = i" using less.prems(2) by simp_all
  have s0: "sorted_wrt le (take i xs @ [])" "list_all (\<lambda>b. le (xs ! i) b) []" using less.prems(3) by simp_all
  obtain D where D: "sift cmp 1 i xs = D @ drop (Suc i) xs" "sorted_wrt le D" "length D = Suc i"
    using sift_sorts [OF less.prems(1) xs s0] l(2) unfolding l(1) by auto
  let ?xs = "sift cmp 1 i xs"
  have m: "mset ?xs = mset xs" "length ?xs = length xs" using sift_mset [OF less.prems(2)] by blast+
  then have s: "set ?xs = set xs" using mset_eq_setD by blast
  show ?case
  proof (cases "i + 1 < nel")
    case True
    then have "gap_pass cmp 1 nel i xs = gap_pass cmp 1 nel (i + 1) ?xs" by (subst gap_pass.simps) simp
    moreover have "sorted_wrt le (gap_pass cmp 1 nel (i + 1) ?xs)"
    proof (rule less.hyps)
      show "length ?xs - (i + 1) < length xs - i" "i + 1 < length ?xs" "nel = length ?xs" using True m less.prems by simp_all
      show "compares cmp le (set ?xs)" using less.prems(1) s by simp
      show "sorted_wrt le (take (i + 1) ?xs)" using D by simp
    qed
    ultimately show ?thesis by simp
  next
    case False
    then have "gap_pass cmp 1 nel i xs = D" using D(1) less.prems by (subst gap_pass.simps) simp
    then show ?thesis using D(2) by simp
  qed
qed

text \<open>The gaps end with 1, and stay inside the array.\<close>

lemma first_gap_form:
  assumes "2 \<le> nel" "g = 0 \<or> g < (nel - 1) div 3" "g mod 3 = 1 \<or> g = 0"
  shows "first_gap nel g mod 3 = 1 \<and> first_gap nel g < nel"
  using assms
proof (induction nel g rule: first_gap.induct)
  case (1 nel g)
  show ?case
  proof (cases "3 * g + 1 < (nel - 1) div 3")
    case True
    then have "first_gap nel g = first_gap nel (3 * g + 1)" by (subst first_gap.simps) simp
    moreover have "(3 * g + 1) mod 3 = 1" by presburger
    ultimately show ?thesis using 1 True by simp
  next
    case False
    then have "first_gap nel g = 3 * g + 1" by (subst first_gap.simps) simp
    moreover have "(3 * g + 1) mod 3 = 1" by presburger
    moreover have "3 * g + 1 < nel" using 1(2,3) by auto
    ultimately show ?thesis by simp
  qed
qed

text \<open>The gaps that occur: 1, 4, 13, 40 and so on.\<close>

fun nth_gap :: "nat \<Rightarrow> nat" where
  "nth_gap 0 = 1"
| "nth_gap (Suc k) = 3 * nth_gap k + 1"

lemma first_gap_nth:
  "first_gap nel (if k = 0 then 0 else nth_gap (k - 1)) \<in> range nth_gap"
proof (induction "nel - nth_gap k" arbitrary: k rule: less_induct)
  case less
  let ?g = "if k = 0 then 0 else nth_gap (k - 1)"
  have g: "3 * ?g + 1 = nth_gap k" by (cases k) simp_all
  show ?case
  proof (cases "nth_gap k < (nel - 1) div 3")
    case True
    then have "nel - nth_gap (Suc k) < nel - nth_gap k" by simp
    from less.hyps [OF this] have "first_gap nel (nth_gap k) \<in> range nth_gap" by simp
    then show ?thesis using True g by (subst first_gap.simps) (simp add: Let_def)
  next
    case False
    then show ?thesis using g by (subst first_gap.simps) (simp add: Let_def)
  qed
qed

lemma gap_loop_sorts:
  assumes "nth_gap k < length xs" "nel = length xs"
  shows "mset (gap_loop cmp nel (nth_gap k) xs) = mset xs \<and> (compares cmp le (set xs) \<longrightarrow> sorted_wrt le (gap_loop cmp nel (nth_gap k) xs))"
  using assms
proof (induction k arbitrary: xs)
  case 0
  then have "gap_loop cmp nel (nth_gap 0) xs = gap_pass cmp 1 nel 1 xs" by (subst gap_loop.simps) simp
  moreover have "sorted_wrt le (take 1 xs)" by (cases xs) simp_all
  ultimately show ?case using 0 gap_pass_mset [of 1 xs nel cmp 1] gap_pass_sorts [of cmp le xs 1 nel] by auto
next
  case (Suc k)
  let ?g = "nth_gap (Suc k)" and ?xs = "gap_pass cmp (nth_gap (Suc k)) nel (nth_gap (Suc k)) xs"
  have "(?g - 1) div 3 = nth_gap k" by simp
  moreover have "nth_gap k \<noteq> 0" by (cases k) simp_all
  ultimately have e: "gap_loop cmp nel ?g xs = gap_loop cmp nel (nth_gap k) ?xs" by (subst gap_loop.simps) (simp del: nth_gap.simps)
  have m: "mset ?xs = mset xs" "length ?xs = length xs" using gap_pass_mset [of ?g xs nel cmp ?g] Suc.prems by blast+
  then have "set ?xs = set xs" using mset_eq_setD by blast
  with Suc.IH [of ?xs] Suc.prems m e show ?case by simp
qed

lemma qsort_mset_sorted: "mset (qsort cmp xs) = mset xs" "compares cmp le (set xs) \<Longrightarrow> sorted_wrt le (qsort cmp xs)"
proof -
  have "mset (qsort cmp xs) = mset xs \<and> (compares cmp le (set xs) \<longrightarrow> sorted_wrt le (qsort cmp xs))"
  proof (cases "1 < length xs")
    case True
    obtain k where k: "first_gap (length xs) 0 = nth_gap k" using first_gap_nth [of "length xs" 0] by auto
    moreover have "first_gap (length xs) 0 < length xs" using first_gap_form [of "length xs" 0] True by simp
    ultimately show ?thesis using gap_loop_sorts [of k xs "length xs" cmp le] True by (simp add: qsort_def)
  next
    case False
    then have "xs = [] \<or> (\<exists>x. xs = [x])" by (cases xs) auto
    then show ?thesis by (auto simp: qsort_def)
  qed
  then show "mset (qsort cmp xs) = mset xs" "compares cmp le (set xs) \<Longrightarrow> sorted_wrt le (qsort cmp xs)" by blast+
qed

section \<open>Properties\<close>

text \<open>C34: \<open>qsort\<close> rearranges the array and leaves it sorted, for every comparison function that agrees with a total preorder on the
  elements of the array.\<close>

theorem qsort_sorts:
  assumes "compares cmp le (set xs)"
  shows "mset (qsort cmp xs) = mset xs \<and> sorted_wrt le (qsort cmp xs)"
  using qsort_mset_sorted assms by blast

theorem qsort_sorts_witness:
  "mset (qsort (\<lambda>a b. a - b) [5, 3, 9, 1, 7 :: int]) = {#1, 3, 5, 7, 9#} \<and> sorted_wrt (\<le>) (qsort (\<lambda>a b. a - b) [5, 3, 9, 1, 7 :: int])"
proof -
  have "compares (\<lambda>a b. a - b) (\<le>) (set [5, 3, 9, 1, 7 :: int])" unfolding compares_def by auto
  from qsort_sorts [OF this] show ?thesis by simp
qed

end
