(* ===== verification/CStrings.thy ===== *)
theory CStrings
  imports UbString "HOL-Library.Sublist"
begin

text \<open>
  The string routines of \<open>lib/string.c\<close> on whole strings, as the environment uses them: a string is the list of its bytes without the
  NUL.  Each routine is shown to be what the one of \<open>UbString\<close> computes on a memory that holds the strings.
\<close>

section \<open>Routines\<close>

text \<open>\<open>strcmp\<close>, with the difference cut to a \<open>signed char\<close>.\<close>

fun cmp_str :: "bytes \<Rightarrow> bytes \<Rightarrow> int" where
  "cmp_str [] [] = 0"
| "cmp_str [] (y # ys) = sint (0 - y)"
| "cmp_str (x # xs) [] = sint x"
| "cmp_str (x # xs) (y # ys) = (if x = y then cmp_str xs ys else sint (x - y))"

text \<open>\<open>strcasecmp\<close> and \<open>strncasecmp\<close>.\<close>

fun casecmp_str :: "bytes \<Rightarrow> bytes \<Rightarrow> int" where
  "casecmp_str [] [] = 0"
| "casecmp_str [] (y # ys) = - uint y"
| "casecmp_str (x # xs) [] = uint x"
| "casecmp_str (x # xs) (y # ys) =
     (if x = y then casecmp_str xs ys
      else if to_lower x \<noteq> to_lower y then uint (to_lower x) - uint (to_lower y)
      else casecmp_str xs ys)"

definition ncasecmp_str :: "bytes \<Rightarrow> bytes \<Rightarrow> nat \<Rightarrow> int" where
  "ncasecmp_str a b n = casecmp_str (take n a) (take n b)"

text \<open>\<open>strstr\<close>: the first position of \<open>b\<close> in \<open>a\<close>.\<close>

fun find_str :: "bytes \<Rightarrow> bytes \<Rightarrow> nat option" where
  "find_str [] b = (if b = [] then Some 0 else None)"
| "find_str (x # a) b = (if prefix b (x # a) then Some 0 else map_option Suc (find_str a b))"

text \<open>What repeated calls of \<open>strtok\<close> with one separator deliver.\<close>

function tokens :: "u8 \<Rightarrow> bytes \<Rightarrow> bytes list" where
  "tokens d s =
     (case dropWhile (\<lambda>c. c = d) s of [] \<Rightarrow> []
      | r \<Rightarrow> takeWhile (\<lambda>c. c \<noteq> d) r # tokens d (dropWhile (\<lambda>c. c \<noteq> d) r))"
  by pat_completeness auto
termination
proof (relation "measure (\<lambda>(d, s). length s)")
  fix d :: u8 and s x xs
  assume e: "dropWhile (\<lambda>c. c = d) s = x # xs"
  then have "x \<noteq> d" using hd_dropWhile [of "\<lambda>c. c = d" s] by simp
  then have "length (dropWhile (\<lambda>c. c \<noteq> d) (x # xs)) \<le> length xs" using length_dropWhile_le [of _ xs] by simp
  also have "length xs < length s" using e length_dropWhile_le [of "\<lambda>c. c = d" s] by simp
  finally show "((d, dropWhile (\<lambda>c. c \<noteq> d) (x # xs)), d, s) \<in> measure (\<lambda>(d, s). length s)" by simp
qed simp

declare tokens.simps [simp del]

section \<open>Agreement with the routines on memory\<close>

lemma strcmp_str: "zstr m p a \<Longrightarrow> zstr m q b \<Longrightarrow> strcmp m p q = Done (cmp_str a b)"
proof (induction a b arbitrary: p q rule: cmp_str.induct)
  case 1
  then show ?case by (auto simp: strcmp.simps [of m p q] zstr_Nil)
next
  case (2 y ys)
  then show ?case by (auto simp: strcmp.simps [of m p q] zstr_Nil zstr_Cons sint_eq_0_iff8)
next
  case (3 x xs)
  then show ?case by (auto simp: strcmp.simps [of m p q] zstr_Nil zstr_Cons sint_eq_0_iff8)
next
  case (4 x xs y ys)
  then show ?case by (auto simp: strcmp.simps [of m p q] zstr_Cons sint_eq_0_iff8)
qed

lemma cmp_str_0 [simp]: "cmp_str a b = 0 \<longleftrightarrow> a = b" if "0 \<notin> set a" "0 \<notin> set b"
  using that by (induction a b rule: cmp_str.induct) (auto simp: sint_eq_0_iff8)

lemma strncasecmp_str:
  "zstr m p a \<Longrightarrow> zstr m q b \<Longrightarrow> strncasecmp_loop m p q n = Done (ncasecmp_str a b n)"
proof (induction n arbitrary: p q a b)
  case (Suc n)
  show ?case
  proof (cases a)
    case Nil
    with Suc.prems show ?thesis
      by (cases b) (auto simp: ncasecmp_str_def zstr_Nil zstr_Cons rd_def)
  next
    case (Cons x xs)
    with Suc show ?thesis
      by (cases b) (auto simp: ncasecmp_str_def zstr_Nil zstr_Cons rd_def)
  qed
qed (simp add: ncasecmp_str_def)

lemma strcasecmp_str:
  assumes "zstr m p a" "zstr m q b" "length a < 2 ^ 32 - 1" "length b < 2 ^ 32 - 1"
  shows "strcasecmp m p q = Done (casecmp_str a b)"
proof -
  have "unat (- 1 :: u32) = 2 ^ 32 - 1" by (simp add: unsigned_minus_1_eq_mask mask_eq_exp_minus_1)
  then show ?thesis
    using strncasecmp_str [OF assms(1,2), of "2 ^ 32 - 1"] assms(3,4)
    by (simp add: strcasecmp_def strncasecmp_def ncasecmp_str_def)
qed

text \<open>Two strings compare as equal exactly when they are equal in lower case.\<close>

lemma casecmp_str_0:
  assumes "0 \<notin> set a" "0 \<notin> set b"
  shows "casecmp_str a b = 0 \<longleftrightarrow> map to_lower a = map to_lower b"
  using assms by (induction a b rule: casecmp_str.induct) (auto simp: uint_0_iff dest: word_uint_eqI)

lemma occurs_at_split: "occurs_at a b k \<longleftrightarrow> (\<exists>u v. a = u @ b @ v \<and> length u = k)"
proof
  assume o: "occurs_at a b k"
  have "a = take k a @ take (length b) (drop k a) @ drop (length b) (drop k a)" by (simp only: append_take_drop_id)
  moreover have "take (length b) (drop k a) = b" "length (take k a) = k" using o by (simp_all add: occurs_at_def)
  ultimately show "\<exists>u v. a = u @ b @ v \<and> length u = k" by (intro exI [of _ "take k a"] exI [of _ "drop (length b) (drop k a)"]) simp
qed (auto simp: occurs_at_def)

lemma find_str_first:
  "find_str a b = Some k \<longleftrightarrow> occurs_at a b k \<and> (\<forall>i<k. \<not> occurs_at a b i)"
proof (induction a arbitrary: k)
  case Nil
  then show ?case by (auto simp: occurs_at_def)
next
  case (Cons x a)
  have 0: "occurs_at (x # a) b 0 \<longleftrightarrow> prefix b (x # a)"
    by (simp add: occurs_at_split prefix_def)
  have S: "occurs_at (x # a) b (Suc k) \<longleftrightarrow> occurs_at a b k" for k by (simp add: occurs_at_def)
  show ?case
  proof (cases k)
    case 0
    then show ?thesis using \<open>occurs_at (x # a) b 0 \<longleftrightarrow> prefix b (x # a)\<close> by auto
  next
    case (Suc k')
    then show ?thesis using 0 Cons.IH [of k'] S by (auto simp: less_Suc_eq_0_disj)
  qed
qed

lemma find_str_split: "find_str a b = Some k \<Longrightarrow> \<exists>u v. a = u @ b @ v \<and> length u = k"
  using find_str_first [of a b k] occurs_at_split [of a b k] by blast

lemma find_str_none: "find_str a b = None \<longleftrightarrow> (\<forall>k. \<not> occurs_at a b k)"
proof
  assume n: "find_str a b = None"
  show "\<forall>k. \<not> occurs_at a b k"
  proof (rule ccontr)
    assume "\<not> (\<forall>k. \<not> occurs_at a b k)"
    then obtain k where "occurs_at a b k" by blast
    then have "occurs_at a b (LEAST k. occurs_at a b k)" by (rule LeastI)
    moreover have "\<forall>i<(LEAST k. occurs_at a b k). \<not> occurs_at a b i" using not_less_Least by blast
    ultimately have "find_str a b = Some (LEAST k. occurs_at a b k)" using find_str_first by blast
    then show False using n by simp
  qed
next
  assume "\<forall>k. \<not> occurs_at a b k"
  then show "find_str a b = None" using find_str_first [of a b] by (cases "find_str a b") auto
qed

lemma strstr_str: "zstr m p a \<Longrightarrow> zstr m q b \<Longrightarrow> strstr m p q = Done (map_option (\<lambda>k. p + k) (find_str a b))"
proof -
  assume "zstr m p a" "zstr m q b"
  from strstr_zstr [OF this] obtain r where r: "strstr m p q = Done r"
    "case r of None \<Rightarrow> \<forall>i. \<not> occurs_at a b i | Some x \<Rightarrow> \<exists>i. x = p + i \<and> occurs_at a b i \<and> (\<forall>i'<i. \<not> occurs_at a b i')" by blast
  show ?thesis
  proof (cases r)
    case None
    with r find_str_none [of a b] show ?thesis by simp
  next
    case (Some x)
    with r(2) obtain i where "x = p + i" "find_str a b = Some i" using find_str_first [of a b] by auto
    with r(1) Some show ?thesis by simp
  qed
qed

section \<open>Strings made of tokens\<close>

definition occurs :: "bytes \<Rightarrow> bytes \<Rightarrow> bool" where
  "occurs b a \<longleftrightarrow> find_str a b \<noteq> None"

lemma occurs_sublist: "occurs b a \<longleftrightarrow> (\<exists>u v. a = u @ b @ v)"
  by (simp add: occurs_def find_str_none occurs_at_split)

fun join :: "u8 \<Rightarrow> bytes list \<Rightarrow> bytes" where
  "join d [] = []"
| "join d [t] = t"
| "join d (t # u # ts) = t @ d # join d (u # ts)"

definition token_ok :: "u8 \<Rightarrow> bytes \<Rightarrow> bool" where
  "token_ok d t \<longleftrightarrow> t \<noteq> [] \<and> d \<notin> set t"

lemma join_Cons: "ts \<noteq> [] \<Longrightarrow> join d (t # ts) = t @ d # join d ts"
  by (cases ts) simp_all

lemma join_append: "xs \<noteq> [] \<Longrightarrow> ys \<noteq> [] \<Longrightarrow> join d (xs @ ys) = join d xs @ d # join d ys"
  by (induction d xs rule: join.induct) (simp_all add: join_Cons)

lemma tokens_empty: "tokens d s = [] \<longleftrightarrow> set s \<subseteq> {d}"
proof -
  have "tokens d s = [] \<longleftrightarrow> dropWhile (\<lambda>c. c = d) s = []" by (subst tokens.simps) (auto split: list.splits simp del: dropWhile_eq_Nil_conv)
  then show ?thesis by auto
qed

lemma tokens_Cons:
  assumes "token_ok d t" "r = [] \<or> hd r = d"
  shows "tokens d (t @ r) = t # tokens d r"
proof -
  obtain x xs where t: "t = x # xs" "x \<noteq> d" using assms(1) by (cases t) (auto simp: token_ok_def)
  have all: "\<forall>c\<in>set t. c \<noteq> d" using assms(1) by (auto simp: token_ok_def)
  have dr: "dropWhile (\<lambda>c. c = d) (t @ r) = t @ r" using t by simp
  have tw: "takeWhile (\<lambda>c. c \<noteq> d) (t @ r) = t" "dropWhile (\<lambda>c. c \<noteq> d) (t @ r) = r"
    using all assms(2) by (cases r; simp add: takeWhile_append2 dropWhile_append2)+
  have "tokens d (t @ r) = takeWhile (\<lambda>c. c \<noteq> d) (t @ r) # tokens d (dropWhile (\<lambda>c. c \<noteq> d) (t @ r))"
    unfolding tokens.simps [of d "t @ r"] dr using t(1) by simp
  then show ?thesis using tw by simp
qed

lemma tokens_skip [simp]: "tokens d (d # r) = tokens d r"
  by (subst (1 2) tokens.simps) simp

lemma tokens_Nil [simp]: "tokens d [] = []"
  by (simp add: tokens_empty)

lemma tokens_join: "list_all (token_ok d) ts \<Longrightarrow> tokens d (join d ts) = ts"
proof (induction d ts rule: join.induct)
  case (2 d t)
  then show ?case using tokens_Cons [of d t "[]"] by simp
next
  case (3 d t u ts)
  then show ?case using tokens_Cons [of d t "d # join d (u # ts)"] by simp
qed simp

lemma tokens_ok: "list_all (token_ok d) (tokens d s)"
proof (induction d s rule: tokens.induct)
  case (1 d s)
  show ?case
  proof (cases "dropWhile (\<lambda>c. c = d) s")
    case Nil
    then have "tokens d s = []" by (subst tokens.simps) (simp del: dropWhile_eq_Nil_conv)
    then show ?thesis by simp
  next
    case (Cons x xs)
    then have "x \<noteq> d" using hd_dropWhile [of "\<lambda>c. c = d" s] by simp
    then have "token_ok d (takeWhile (\<lambda>c. c \<noteq> d) (x # xs))" by (auto simp: token_ok_def dest: set_takeWhileD)
    then show ?thesis using 1 [OF Cons] by (subst tokens.simps) (simp add: Cons)
  qed
qed

lemma occurs_at_char: "occurs_at a [c] i \<longleftrightarrow> i < length a \<and> a ! i = c"
proof (cases "i < length a")
  case True
  then have "drop i a = a ! i # drop (Suc i) a" by (simp add: Cons_nth_drop_Suc)
  then show ?thesis using True by (simp add: occurs_at_def)
qed (simp add: occurs_at_def)

lemma find_str_single: "c \<notin> set v \<Longrightarrow> find_str (v @ c # r) [c] = Some (length v)"
  using find_str_first [of "v @ c # r" "[c]" "length v"] by (auto simp: occurs_at_char nth_append)

text \<open>A token in the middle of a string of tokens.\<close>

definition lead :: "u8 \<Rightarrow> bytes list \<Rightarrow> bytes" where
  "lead d ts = concat (map (\<lambda>t. t @ [d]) ts)"

lemma join_mid: "join d (xs @ t # ys) = lead d xs @ t @ (if ys = [] then [] else d # join d ys)"
proof (induction xs)
  case Nil
  then show ?case by (cases ys) (simp_all add: lead_def)
next
  case (Cons x xs)
  then show ?case using join_Cons [of "xs @ t # ys" d x] by (simp add: lead_def)
qed

lemma join_snoc: "ts \<noteq> [] \<Longrightarrow> join d (ts @ [t]) = join d ts @ [d] @ t"
  using join_append [of ts "[t]" d] by simp

lemma prefix_token:
  assumes "d \<notin> set a" "prefix a (x @ d # r)"
  shows "prefix a x"
proof (cases "length a \<le> length x")
  case True
  then show ?thesis using assms(2) by (auto simp: prefix_def append_eq_append_conv2)
next
  case False
  obtain zs where z: "x @ d # r = a @ zs" using assms(2) by (auto simp: prefix_def)
  have "a ! length x = (a @ zs) ! length x" using False by (simp add: nth_append)
  also have "\<dots> = d" using z by (metis nth_append_length)
  finally show ?thesis using assms(1) False by (metis not_le nth_mem)
qed

lemma find_str_skip:
  assumes "token_ok d a" "\<not> occurs a x"
  shows "find_str (x @ d # r) a = map_option (\<lambda>k. length x + 1 + k) (find_str r a)"
  using assms(2)
proof (induction x)
  case Nil
  have "\<not> prefix a (d # r)" using assms(1) by (cases a) (auto simp: token_ok_def)
  moreover have "Suc = (\<lambda>k. Suc k)" by simp
  ultimately show ?case by simp
next
  case (Cons c x)
  have no: "\<not> prefix a (c # x)" using Cons.prems by (auto simp: occurs_def)
  then have "\<not> prefix a (c # x @ d # r)" using prefix_token [of d a "c # x" r] assms(1) by (auto simp: token_ok_def)
  moreover have "\<not> occurs a x" using Cons.prems no by (auto simp: occurs_def)
  ultimately show ?case using Cons.IH by (cases "find_str r a") simp_all
qed

lemma find_str_mid:
  assumes "token_ok d a" "\<forall>x\<in>set xs. \<not> occurs a x"
  shows "find_str (lead d xs @ a @ r) a = Some (length (lead d xs))"
  using assms(2)
proof (induction xs)
  case Nil
  have "find_str (a @ r) a = Some 0" using assms(1) by (cases a) (simp_all add: token_ok_def)
  then show ?case by (simp add: lead_def)
next
  case (Cons x xs)
  have "lead d (x # xs) @ a @ r = x @ d # (lead d xs @ a @ r)" by (simp add: lead_def)
  then show ?case using find_str_skip [OF assms(1), of x "lead d xs @ a @ r"] Cons by (simp add: lead_def)
qed

text \<open>Replacing the first occurrence of a token that no token before it contains.\<close>

lemma replace_token:
  assumes "token_ok d a" "\<forall>x\<in>set xs. \<not> occurs a x"
  shows "\<exists>p. find_str (join d (xs @ a # ys)) a = Some p \<and>
     take p (join d (xs @ a # ys)) @ v @ drop (p + length a) (join d (xs @ a # ys)) = join d (xs @ v # ys)"
  using find_str_mid [OF assms] by (simp add: join_mid)

lemma tokens_append: "tokens d (u @ d # s) = tokens d u @ tokens d s"
proof (induction d u rule: tokens.induct)
  case (1 d u)
  show ?case
  proof (cases "dropWhile (\<lambda>c. c = d) u")
    case Nil
    then have "tokens d u = []" using tokens_empty [of d u] by auto
    moreover have "tokens d (u @ d # s) = tokens d s"
      using Nil by (induction u) (auto split: if_splits)
    ultimately show ?thesis by simp
  next
    case (Cons x xs)
    let ?t = "takeWhile (\<lambda>c. c \<noteq> d) (x # xs)" and ?r = "dropWhile (\<lambda>c. c \<noteq> d) (x # xs)"
    have "x \<noteq> d" using Cons hd_dropWhile [of "\<lambda>c. c = d" u] by simp
    then have t: "token_ok d ?t" by (auto simp: token_ok_def dest: set_takeWhileD)
    have r: "?r = [] \<or> hd ?r = d" using hd_dropWhile [of "\<lambda>c. c \<noteq> d" "x # xs"] by auto
    have u: "u = takeWhile (\<lambda>c. c = d) u @ ?t @ ?r" using Cons by (metis takeWhile_dropWhile_id)
    have skip: "tokens d (takeWhile (\<lambda>c. c = d) u @ q) = tokens d q" for q by (induction u) simp_all
    have "tokens d (u @ d # s) = tokens d (?t @ ?r @ d # s)" by (subst u) (simp only: append_assoc skip)
    also have "\<dots> = ?t # tokens d (?r @ d # s)" using r by (intro tokens_Cons [OF t]) (cases ?r; simp)
    also have "\<dots> = (?t # tokens d ?r) @ tokens d s" using 1 [OF Cons] by simp
    also have "?t # tokens d ?r = tokens d u" using tokens_Cons [OF t r] skip [of "?t @ ?r"] u by simp
    finally show ?thesis .
  qed
qed

end
