(* ===== verification/EnvText.thy ===== *)
theory EnvText
  imports EnvHash QSort CStrings
begin

text \<open>
  The environment as text, the second half of \<open>lib/hashtable.c\<close>: \<open>hexport_r\<close> writes the entries of the table, sorted by name, as lines
  \<open>name=value\<close>, \<open>himport_r\<close> reads them back, \<open>hwalk_r\<close> visits every entry.  The regular expressions of \<open>lib/slre.c\<close> are an argument: for a
  pattern that compiles, the strings it matches.  The copy \<open>himport_r\<close> works on is a list that ends with the NUL it appends; what is
  left of it at the read pointer is the state of the loop, since the NULs written into it are never read again.
\<close>

section \<open>Flags\<close>

definition H_NOCLEAR :: int where "H_NOCLEAR = 2 ^ 0"
definition H_FORCE :: int where "H_FORCE = 2 ^ 1"
definition H_INTERACTIVE :: int where "H_INTERACTIVE = 2 ^ 2"
definition H_HIDE_DOT :: int where "H_HIDE_DOT = 2 ^ 3"
definition H_MATCH_KEY :: int where "H_MATCH_KEY = 2 ^ 4"
definition H_MATCH_DATA :: int where "H_MATCH_DATA = 2 ^ 5"
definition H_MATCH_IDENT :: int where "H_MATCH_IDENT = 2 ^ 6"
definition H_MATCH_SUBSTR :: int where "H_MATCH_SUBSTR = 2 ^ 7"
definition H_MATCH_REGEX :: int where "H_MATCH_REGEX = 2 ^ 8"
definition H_MATCH_METHOD :: int where "H_MATCH_METHOD = H_MATCH_IDENT OR H_MATCH_SUBSTR OR H_MATCH_REGEX"
definition H_PROGRAMMATIC :: int where "H_PROGRAMMATIC = 2 ^ 9"

definition CONFIG_ENV_MIN_ENTRIES :: nat where "CONFIG_ENV_MIN_ENTRIES = 64"
definition CONFIG_ENV_MAX_ENTRIES :: nat where "CONFIG_ENV_MAX_ENTRIES = 512"

section \<open>Export\<close>

type_synonym regex = "bytes \<Rightarrow> (bytes \<Rightarrow> bool) option"

definition cmpkey :: "bytes \<times> bytes \<Rightarrow> bytes \<times> bytes \<Rightarrow> int" where
  "cmpkey e1 e2 = cmp_str (fst e1) (fst e2)"

text \<open>A NULL string is a fault; \<open>slre\<close> is the compiled pattern.\<close>

definition match_string :: "int \<Rightarrow> bytes option \<Rightarrow> bytes \<Rightarrow> (bytes \<Rightarrow> bool) \<Rightarrow> bool outcome" where
  "match_string flag str pat slre =
     (case str of None \<Rightarrow> Fault
      | Some s \<Rightarrow>
        (let how = flag AND H_MATCH_METHOD
         in Done (if how = H_MATCH_IDENT then cmp_str s pat = 0
            else if how = H_MATCH_SUBSTR then find_str s pat \<noteq> None
            else if how = H_MATCH_REGEX then slre s
            else False)))"

fun match_entry :: "regex \<Rightarrow> hentry \<Rightarrow> int \<Rightarrow> bytes list \<Rightarrow> bool outcome" where
  "match_entry rx ep flag [] = Done False"
| "match_entry rx ep flag (arg # argv) =
     (case rx arg of None \<Rightarrow> Done False
      | Some slre \<Rightarrow>
        bind_outcome (if flag AND H_MATCH_KEY \<noteq> 0 then match_string flag (hkey ep) arg slre else Done False) (\<lambda>k.
          if k then Done True
          else bind_outcome (if flag AND H_MATCH_DATA \<noteq> 0 then match_string flag (hdata ep) arg slre else Done False) (\<lambda>d.
            if d then Done True else match_entry rx ep flag argv)))"

text \<open>The first pass: the entries to export, in the order of the table.\<close>

fun export_entries :: "regex \<Rightarrow> int \<Rightarrow> bytes list \<Rightarrow> hslot list \<Rightarrow> (bytes \<times> bytes) list outcome" where
  "export_entries rx flag argv [] = Done []"
| "export_entries rx flag argv (s # ss) =
     (if used s \<le> 0 then export_entries rx flag argv ss
      else bind_outcome (match_entry rx (entry s) flag argv) (\<lambda>found.
        if argv \<noteq> [] \<and> \<not> found then export_entries rx flag argv ss
        else (case hkey (entry s) of None \<Rightarrow> Fault
          | Some k \<Rightarrow>
            if flag AND H_HIDE_DOT \<noteq> 0 \<and> prefix (ascii ''.'') k then export_entries rx flag argv ss
            else (case hdata (entry s) of None \<Rightarrow> Fault
              | Some d \<Rightarrow> bind_outcome (export_entries rx flag argv ss) (\<lambda>es. Done ((k, d) # es))))))"

definition escaped_char :: "u8 \<Rightarrow> u8 \<Rightarrow> bool" where
  "escaped_char sep c \<longleftrightarrow> c = sep \<or> c = chr CHR 0x5C"

text \<open>What \<open>totlen\<close> adds up for one entry.\<close>

definition entry_len :: "u8 \<Rightarrow> bytes \<times> bytes \<Rightarrow> nat" where
  "entry_len sep e = length (fst e) + 2 +
     (if sep = 0 then length (snd e) else length (snd e) + length (filter (escaped_char sep) (snd e))) + 2"

definition escape :: "u8 \<Rightarrow> bytes \<Rightarrow> bytes" where
  "escape sep d = concat (map (\<lambda>c. if escaped_char sep c then [chr CHR 0x5C, c] else [c]) d)"

definition env_line :: "u8 \<Rightarrow> bytes \<times> bytes \<Rightarrow> bytes" where
  "env_line sep e = fst e @ [chr CHR ''=''] @ escape sep (snd e) @ [sep]"

text \<open>The slots the loops from 1 to the size of the table visit.\<close>

definition table_slots :: "hsearch_data \<Rightarrow> hslot list outcome" where
  "table_slots h =
     (case htable h of None \<Rightarrow> if hsize h = 0 then Done [] else Fault
      | Some t \<Rightarrow> if length t \<le> hsize h then Fault else Done (take (hsize h) (drop 1 t)))"

text \<open>
  \<open>resp\<close> is NULL, or points to NULL or to a buffer of the caller.  The result: the size or \<open>-1\<close>, what \<open>*resp\<close> points to, and the table.
\<close>

definition hexport_r ::
  "hworld \<Rightarrow> regex \<Rightarrow> hsearch_data option \<Rightarrow> u8 \<Rightarrow> int \<Rightarrow> bytes option option \<Rightarrow> nat \<Rightarrow> bytes list \<Rightarrow> (int \<times> bytes option \<times> hsearch_data) outcome" where
  "hexport_r w rx htab sep flag resp len argv =
     (case htab of None \<Rightarrow> Fault
      | Some h \<Rightarrow>
        (case resp of None \<Rightarrow> Done (- 1, None, set_errno EINVAL h)
         | Some buf \<Rightarrow>
           bind_outcome (table_slots h) (\<lambda>slots.
              bind_outcome (export_entries rx flag argv slots) (\<lambda>es.
                let totlen = sum_list (map (entry_len sep) es);
                    es1 = qsort cmpkey es
                in if len \<noteq> 0 \<and> len < totlen + 1 then Done (- 1, buf, set_errno ENOMEM h)
                   else
                     (let n = (if len = 0 then totlen + 1 else len);
                          text = concat (map (env_line sep) es1)
                      in (case buf of
                            Some b \<Rightarrow>
                              if length b < n \<or> length b < length text + 1 then Fault
                              else Done (int n, Some (overwrite 0 (text @ [0]) (overwrite 0 (replicate n 0) b)), h)
                          | None \<Rightarrow>
                              if \<not> alloc_ok w (allocs h) then Done (- 1, None, set_errno ENOMEM (h\<lparr>allocs := allocs h + 1\<rparr>))
                              else if n < length text + 1 then Fault
                              else Done (int n, Some (overwrite 0 (text @ [0]) (replicate n 0)), h\<lparr>allocs := allocs h + 1\<rparr>)))))))"

section \<open>Import\<close>

text \<open>The variables still to be processed; a variable found is removed, all of its instances.\<close>

definition drop_var_from_set :: "bytes \<Rightarrow> bytes option list \<Rightarrow> bool \<times> bytes option list" where
  "drop_var_from_set name vars =
     (if vars = [] then (True, vars)
      else (Some name \<in> set vars, map (\<lambda>v. if v = Some name then None else v) vars))"

definition isblank :: "u8 \<Rightarrow> bool" where
  "isblank c \<longleftrightarrow> c = chr CHR '' '' \<or> c = 9"

text \<open>Carriage returns in front of line feeds are moved out, up to the first NUL; the number of them.\<close>

fun strip_crs :: "bytes \<Rightarrow> bytes \<times> nat" where
  "strip_crs [] = ([], 0)"
| "strip_crs (c # cs) =
     (if c = 0 then ([], 0)
      else (case strip_crs cs of (r, n) \<Rightarrow> if c = 13 \<and> cs \<noteq> [] \<and> hd cs = 10 then (r, n + 1) else (c # r, n)))"

text \<open>The value and what is left from its end on.\<close>

fun parse_value :: "u8 \<Rightarrow> bytes \<Rightarrow> (bytes \<times> bytes) outcome" where
  "parse_value sep [] = Fault"
| "parse_value sep [c] = (if c = 0 \<or> c = sep then Done ([], [c]) else Fault)"
| "parse_value sep (c # c' # cs) =
     (if c = 0 \<or> c = sep then Done ([], c # c' # cs)
      else if c = chr CHR 0x5C \<and> c' \<noteq> 0 then bind_outcome (parse_value sep cs) (\<lambda>(v, r). Done (c' # v, r))
      else bind_outcome (parse_value sep (c' # cs)) (\<lambda>(v, r). Done (c # v, r)))"

datatype env_item = Comment | Delete bytes | Insert bytes bytes

text \<open>One turn of the parser: the item and what is left behind it.\<close>

definition parse_item :: "u8 \<Rightarrow> bytes \<Rightarrow> (env_item \<times> bytes) outcome" where
  "parse_item sep ds0 =
     (let ds = dropWhile isblank ds0;
          name = takeWhile (\<lambda>c. c \<noteq> chr CHR ''='' \<and> c \<noteq> 0 \<and> c \<noteq> sep) ds
      in case ds of [] \<Rightarrow> Fault
         | c # _ \<Rightarrow>
           if c = chr CHR ''#'' then
             (case dropWhile (\<lambda>c. c \<noteq> 0 \<and> c \<noteq> sep) ds of [] \<Rightarrow> Fault | _ # r \<Rightarrow> Done (Comment, r))
           else (case drop (length name) ds of
               [] \<Rightarrow> Fault
             | [e] \<Rightarrow> if e = 0 then Done (Delete name, []) else Fault
             | e # f # r \<Rightarrow>
               if e = 0 \<or> f = 0 \<or> e = sep \<or> f = sep then Done (Delete name, if e = chr CHR ''='' then r else f # r)
               else bind_outcome (parse_value sep (f # r)) (\<lambda>(v, q). Done (Insert name v, drop 1 q))))"

lemma parse_value_length: "parse_value sep ds = Done (v, q) \<Longrightarrow> length q \<le> length ds"
  by (induction sep ds arbitrary: v q rule: parse_value.induct) (fastforce simp: bind_outcome_Done_iff split: if_splits)+

lemma parse_item_shorter: "parse_item sep ds0 = Done (it, ds1) \<Longrightarrow> length ds1 < length ds0"
proof -
  assume a: "parse_item sep ds0 = Done (it, ds1)"
  define ds where "ds = dropWhile isblank ds0"
  let ?name = "takeWhile (\<lambda>c. c \<noteq> chr CHR ''='' \<and> c \<noteq> 0 \<and> c \<noteq> sep) ds"
  have le: "length ds \<le> length ds0" by (simp add: ds_def length_dropWhile_le)
  have dw: "length (dropWhile (\<lambda>c. c \<noteq> 0 \<and> c \<noteq> sep) ds) \<le> length ds" by (rule length_dropWhile_le)
  have dn: "length (drop (length ?name) ds) \<le> length ds" by simp
  obtain c cs where c: "ds = c # cs" using a by (cases ds) (simp_all add: parse_item_def ds_def [symmetric] Let_def)
  show ?thesis
  proof (cases "c = chr CHR ''#''")
    case True
    then show ?thesis
      using a dw le by (auto simp: parse_item_def ds_def [symmetric] c Let_def split: list.splits)
  next
    case False
    then have b: "(case drop (length ?name) ds of [] \<Rightarrow> Fault
             | [e] \<Rightarrow> if e = 0 then Done (Delete ?name, []) else Fault
             | e # f # r \<Rightarrow>
               if e = 0 \<or> f = 0 \<or> e = sep \<or> f = sep then Done (Delete ?name, if e = chr CHR ''='' then r else f # r)
               else bind_outcome (parse_value sep (f # r)) (\<lambda>(v, q). Done (Insert ?name v, drop 1 q))) = Done (it, ds1)"
      using a c by (simp only: parse_item_def ds_def [symmetric] Let_def) simp
    obtain e r where d: "drop (length ?name) ds = e # r" using b by (cases "drop (length ?name) ds") simp_all
    have len: "Suc (length r) \<le> length ds0" using dn le unfolding d by simp
    show ?thesis
    proof (cases r)
      case Nil
      with b d have "ds1 = []" by (simp split: if_splits)
      then show ?thesis using len by (cases ds0) simp_all
    next
      case (Cons f r')
      with b d len show ?thesis
        by (auto simp: bind_outcome_Done_iff split: if_splits dest: parse_value_length)
    qed
  qed
qed

text \<open>What a parsed item does to the table; \<open>None\<close> for the table when the import gives up.\<close>

definition import_item :: "hworld \<Rightarrow> int \<Rightarrow> env_item \<Rightarrow> hsearch_data \<Rightarrow> bytes option list \<Rightarrow> (bool \<times> hsearch_data \<times> bytes option list) outcome option" where
  "import_item w flag it h vars =
     (case it of Comment \<Rightarrow> Some (Done (True, h, vars))
      | Delete name \<Rightarrow>
          (case drop_var_from_set name vars of (go, vars1) \<Rightarrow>
             if \<not> go then Some (Done (True, h, vars1))
             else bind_run (hdelete_r w name flag h) (\<lambda>(_, h1). Some (Done (True, h1, vars1))))
      | Insert name v \<Rightarrow>
          if name = [] then Some (Done (False, set_errno EINVAL h, vars))
          else (case drop_var_from_set name vars of (go, vars1) \<Rightarrow>
             if \<not> go then Some (Done (True, h, vars1))
             else bind_run (hsearch_r w name (Some v) ENTER flag h) (\<lambda>(_, _, h1). Some (Done (True, h1, vars1)))))"

text \<open>The loop: \<open>behind\<close> is the number of bytes from the end of the text on.\<close>

function import_loop :: "hworld \<Rightarrow> u8 \<Rightarrow> int \<Rightarrow> nat \<Rightarrow> bytes \<Rightarrow> hsearch_data \<Rightarrow> bytes option list \<Rightarrow> (bool \<times> hsearch_data \<times> bytes option list) outcome option" where
  "import_loop w sep flag behind ds h vars =
     (case parse_item sep ds of Fault \<Rightarrow> Some Fault | Fatal e \<Rightarrow> Some (Fatal e)
      | Done (it, ds1) \<Rightarrow>
        (case import_item w flag it h vars of None \<Rightarrow> None
         | Some Fault \<Rightarrow> Some Fault | Some (Fatal e) \<Rightarrow> Some (Fatal e)
         | Some (Done (go, h1, vars1)) \<Rightarrow>
             if go \<and> behind < length ds1 \<and> hd ds1 \<noteq> 0 then import_loop w sep flag behind ds1 h1 vars1
             else Some (Done (go, h1, vars1))))"
  by pat_completeness auto
termination
  by (relation "measure (\<lambda>(w, sep, flag, behind, ds, h, vars). length ds)") (auto dest: parse_item_shorter)

declare import_loop.simps [simp del]

text \<open>The variables that were not in the text are deleted.\<close>

fun delete_rest :: "hworld \<Rightarrow> int \<Rightarrow> bytes option list \<Rightarrow> hsearch_data \<Rightarrow> hsearch_data outcome option" where
  "delete_rest w flag [] h = Some (Done h)"
| "delete_rest w flag (None # vars) h = delete_rest w flag vars h"
| "delete_rest w flag (Some v # vars) h = bind_run (hdelete_r w v flag h) (\<lambda>(_, h1). delete_rest w flag vars h1)"

text \<open>The old table is given up unless it is to be kept.\<close>

definition himport_clear :: "int \<Rightarrow> hsearch_data \<Rightarrow> hsearch_data option outcome" where
  "himport_clear flag h = (if flag AND H_NOCLEAR = 0 \<and> htable h \<noteq> None then hdestroy_r (Some h) else Done (Some h))"

definition himport_r ::
  "hworld \<Rightarrow> hsearch_data option \<Rightarrow> bytes \<Rightarrow> u8 \<Rightarrow> int \<Rightarrow> bool \<Rightarrow> bytes list \<Rightarrow> (int \<times> hsearch_data option) outcome option" where
  "himport_r w htab env sep flag crlf_is_lf vars =
     (case htab of None \<Rightarrow> Some (Done (0, None))
      | Some h0 \<Rightarrow>
        (let h1 = h0\<lparr>allocs := allocs h0 + 1\<rparr>
         in if \<not> alloc_ok w (allocs h0) then Some (Done (0, Some (set_errno ENOMEM h1)))
            else bind_run (Some (himport_clear flag h1)) (\<lambda>ht.
              bind_run
                (case ht of Some h2 \<Rightarrow>
                   if htable h2 = None
                   then map_option Done (hcreate_r w (min (CONFIG_ENV_MIN_ENTRIES + length env div 8) CONFIG_ENV_MAX_ENTRIES) (Some h2))
                   else Some (Done (1, Some h2))
                 | None \<Rightarrow> Some Fault) (\<lambda>(ok, ht3).
                case ht3 of None \<Rightarrow> Some Fault
                | Some h3 \<Rightarrow>
                  if ok = 0 then Some (Done (0, Some h3))
                  else if env = [] then Some (Done (1, Some h3))
                  else
                    (let (data, behind) = (if crlf_is_lf then (case strip_crs env of (r, n) \<Rightarrow> (overwrite 0 r env @ [0], n + 1)) else (env @ [0], 1))
                     in bind_run (import_loop w sep flag behind data h3 (map Some vars)) (\<lambda>(go, h4, rest).
                        if \<not> go then Some (Done (0, Some h4))
                        else bind_run (delete_rest w flag rest h4) (\<lambda>h5. Some (Done (1, Some h5)))))))))"

section \<open>Walking\<close>

fun walk_slots :: "(hentry \<Rightarrow> 's \<Rightarrow> int \<times> 's) \<Rightarrow> hslot list \<Rightarrow> 's \<Rightarrow> int \<times> 's" where
  "walk_slots callback [] s = (0, s)"
| "walk_slots callback (x # xs) s =
     (if 0 < used x then (case callback (entry x) s of (r, s1) \<Rightarrow> if r \<noteq> 0 then (r, s1) else walk_slots callback xs s1)
      else walk_slots callback xs s)"

definition hwalk_r :: "(hentry \<Rightarrow> 's \<Rightarrow> int \<times> 's) \<Rightarrow> hsearch_data \<Rightarrow> 's \<Rightarrow> (int \<times> 's) outcome" where
  "hwalk_r callback h s = bind_outcome (table_slots h) (\<lambda>slots. Done (walk_slots callback slots s))"

section \<open>What is exported\<close>

definition live_pairs :: "hslot list \<Rightarrow> (bytes \<times> bytes) list" where
  "live_pairs ss = map (\<lambda>s. (the (hkey (entry s)), the (hdata (entry s)))) (filter (\<lambda>s. 0 < used s) ss)"

definition full_slots :: "hslot list \<Rightarrow> bool" where
  "full_slots ss \<longleftrightarrow> (\<forall>s\<in>set ss. 0 < used s \<longrightarrow> hkey (entry s) \<noteq> None \<and> hdata (entry s) \<noteq> None)"

lemma export_all: "full_slots ss \<Longrightarrow> flag AND H_HIDE_DOT = 0 \<Longrightarrow> export_entries rx flag [] ss = Done (live_pairs ss)"
  by (induction ss) (auto simp: full_slots_def live_pairs_def)

lemma live_pairs_map: "full_slots ss \<Longrightarrow> map_of (live_pairs ss) k = (case find (\<lambda>s. live s k) ss of None \<Rightarrow> None | Some s \<Rightarrow> hdata (entry s))"
  by (induction ss) (auto simp: full_slots_def live_pairs_def live_def)

lemma live_pairs_key: "k \<in> fst ` set (live_pairs ss) \<Longrightarrow> full_slots ss \<Longrightarrow> \<exists>j<length ss. live (ss ! j) k"
proof -
  assume "k \<in> fst ` set (live_pairs ss)" and f: "full_slots ss"
  then obtain s where s: "s \<in> set ss" "0 < used s" "k = the (hkey (entry s))" by (auto simp: live_pairs_def)
  then have "live s k" using f by (auto simp: full_slots_def live_def)
  then show ?thesis using s(1) by (auto simp: in_set_conv_nth)
qed

lemma live_pairs_distinct:
  assumes "full_slots ss" "\<And>i j k. i < length ss \<Longrightarrow> j < length ss \<Longrightarrow> live (ss ! i) k \<Longrightarrow> live (ss ! j) k \<Longrightarrow> i = j"
  shows "distinct (map fst (live_pairs ss))"
  using assms
proof (induction ss)
  case (Cons s ss)
  have f: "full_slots ss" using Cons.prems(1) by (simp add: full_slots_def)
  have d: "distinct (map fst (live_pairs ss))"
  proof (rule Cons.IH [OF f])
    fix i j k
    assume "i < length ss" "j < length ss" "live (ss ! i) k" "live (ss ! j) k"
    then show "i = j" using Cons.prems(2) [of "Suc i" "Suc j" k] by simp
  qed
  show ?case
  proof (cases "0 < used s")
    case True
    then obtain k where k: "hkey (entry s) = Some k" using Cons.prems(1) by (auto simp: full_slots_def)
    have "k \<notin> fst ` set (live_pairs ss)"
    proof
      assume "k \<in> fst ` set (live_pairs ss)"
      then obtain j where "j < length ss" "live (ss ! j) k" using live_pairs_key [OF _ f] by blast
      then show False using Cons.prems(2) [of 0 "Suc j" k] True k by (simp add: live_def)
    qed
    moreover have "live_pairs (s # ss) = (k, the (hdata (entry s))) # live_pairs ss" using True k by (simp add: live_pairs_def)
    ultimately show ?thesis using d by simp
  next
    case False
    then show ?thesis using d by (simp add: live_pairs_def)
  qed
qed (simp add: live_pairs_def)

lemma table_slots_ok:
  assumes "hash_ok h t"
  shows "table_slots h = Done (drop 1 t)" "full_slots (drop 1 t)" "map_of (live_pairs (drop 1 t)) = hash_vars h" "distinct (map fst (live_pairs (drop 1 t)))"
proof -
  note l = hash_ok_dests(1,2) [OF assms]
  show "table_slots h = Done (drop 1 t)" using l by (simp add: table_slots_def)
  show f: "full_slots (drop 1 t)"
    unfolding full_slots_def
  proof (intro ballI impI)
    fix s assume "s \<in> set (drop 1 t)" "0 < used s"
    then obtain i where i: "i < hsize h" "s = t ! Suc i" using l by (auto simp: in_set_conv_nth)
    then have "Suc i \<in> {1..hsize h}" by simp
    then show "hkey (entry s) \<noteq> None \<and> hdata (entry s) \<noteq> None"
      using table_inv_live [OF hash_ok_dests(6) [OF assms]] i \<open>0 < used s\<close> by (metis option.distinct(1))
  qed
  show "map_of (live_pairs (drop 1 t)) = hash_vars h"
    using live_pairs_map [OF f] hash_vars_ok [OF assms] by (auto simp: table_map_def)
  show "distinct (map fst (live_pairs (drop 1 t)))"
  proof (rule live_pairs_distinct [OF f])
    fix i j k
    assume "i < length (drop 1 t)" "j < length (drop 1 t)" "live (drop 1 t ! i) k" "live (drop 1 t ! j) k"
    then show "i = j" using table_inv_unique [OF hash_ok_dests(6) [OF assms], of "Suc i" "Suc j" k] l by simp
  qed
qed

section \<open>Lines are read back\<close>

definition name_ok :: "u8 \<Rightarrow> bytes \<Rightarrow> bool" where
  "name_ok sep k \<longleftrightarrow> k \<noteq> [] \<and> \<not> isblank (hd k) \<and> hd k \<noteq> chr CHR ''#'' \<and> chr CHR ''='' \<notin> set k \<and> 0 \<notin> set k \<and> sep \<notin> set k"

definition value_ok :: "u8 \<Rightarrow> bytes \<Rightarrow> bool" where
  "value_ok sep v \<longleftrightarrow> v \<noteq> [] \<and> 0 \<notin> set v \<and> (sep = 0 \<longrightarrow> chr CHR 0x5C \<notin> set v)"

definition pair_ok :: "u8 \<Rightarrow> bytes \<times> bytes \<Rightarrow> bool" where
  "pair_ok sep e \<longleftrightarrow> name_ok sep (fst e) \<and> value_ok sep (snd e)"

lemma parse_value_escape:
  assumes "0 \<notin> set v" "sep \<noteq> chr CHR 0x5C"
  shows "parse_value sep (escape sep v @ sep # r) = Done (v, sep # r)"
  using assms(1)
proof (induction v)
  case Nil
  then show ?case by (cases r) (simp_all add: escape_def)
next
  case (Cons c v)
  have z: "(chr CHR 0x5C :: u8) \<noteq> 0" by simp
  obtain x xs where x: "escape sep v @ sep # r = x # xs" by (cases "escape sep v @ sep # r") auto
  show ?case
  proof (cases "escaped_char sep c")
    case True
    then have "escape sep (c # v) @ sep # r = chr CHR 0x5C # c # escape sep v @ sep # r" by (simp add: escape_def)
    then show ?thesis using Cons assms(2) z by simp
  next
    case False
    then have "escape sep (c # v) @ sep # r = c # x # xs" "c \<noteq> sep" "c \<noteq> chr CHR 0x5C" using x by (simp_all add: escape_def escaped_char_def)
    then show ?thesis using Cons x by simp
  qed
qed

lemma parse_line:
  assumes "pair_ok sep (k, v)" "sep = 0 \<or> sep = 10"
  shows "parse_item sep (env_line sep (k, v) @ r) = Done (Insert k v, r)"
proof -
  have n: "name_ok sep k" and v: "v \<noteq> []" "0 \<notin> set v" using assms(1) by (simp_all add: pair_ok_def value_ok_def)
  have sep: "sep \<noteq> chr CHR 0x5C" "sep \<noteq> chr CHR ''=''" using assms(2) by auto
  let ?r = "escape sep v @ sep # r" and ?ds = "env_line sep (k, v) @ r"
  have ds: "?ds = k @ chr CHR ''='' # ?r" by (simp add: env_line_def)
  obtain c cs where k: "k = c # cs" "\<not> isblank c" "c \<noteq> chr CHR ''#''" using n by (cases k) (auto simp: name_ok_def)
  have d: "dropWhile isblank ?ds = ?ds" unfolding ds using k by simp
  have tw: "takeWhile (\<lambda>c. c \<noteq> chr CHR ''='' \<and> c \<noteq> 0 \<and> c \<noteq> sep) ?ds = k"
    unfolding ds using n by (subst takeWhile_append2) (auto simp: name_ok_def)
  obtain f q where f: "?r = f # q" "f \<noteq> 0" "f \<noteq> sep"
  proof -
    obtain b bs where b: "v = b # bs" using v(1) by (cases v) auto
    show thesis
    proof (cases "escaped_char sep b")
      case True
      then have "?r = chr CHR 0x5C # b # escape sep bs @ sep # r" by (simp add: escape_def b)
      then show thesis using that sep by fastforce
    next
      case False
      then have "?r = b # escape sep bs @ sep # r" "b \<noteq> sep" by (simp_all add: escape_def b escaped_char_def)
      then show thesis using that v(2) b by auto
    qed
  qed
  have dr: "drop (length k) ?ds = chr CHR ''='' # f # q" using f(1) by (simp add: ds)
  have pv: "parse_value sep (f # q) = Done (v, sep # r)" using parse_value_escape [OF v(2) sep(1), of r] f(1) by simp
  have cons: "?ds = c # tl ?ds" unfolding ds using k by simp
  have ne: "(chr CHR ''='' :: u8) \<noteq> 0" by simp
  show ?thesis
    unfolding parse_item_def Let_def d tw dr
    by (subst cons) (use k(3) f sep pv ne in simp)
qed

text \<open>The loop over lines, ended by a NUL.\<close>

lemma import_lines:
  assumes "sep = 0 \<or> sep = 10" "grants w"
  shows "list_all (pair_ok sep) es \<Longrightarrow> es \<noteq> [] \<Longrightarrow> hash_room (length es) h \<Longrightarrow> rest \<noteq> [] \<Longrightarrow>
     \<exists>h1. import_loop w sep flag 1 (concat (map (env_line sep) es) @ 0 # rest) h [] = Some (Done (True, h1, [])) \<and>
       hash_room 0 h1 \<and> hash_vars h1 = fold (\<lambda>(k, v) f. f(k \<mapsto> v)) es (hash_vars h)"
proof (induction es arbitrary: h)
  case (Cons e es)
  obtain k v where e: "e = (k, v)" by (cases e)
  let ?ds = "concat (map (env_line sep) es) @ 0 # rest"
  have ok: "pair_ok sep (k, v)" "k \<noteq> []" using Cons.prems(1) by (auto simp: e pair_ok_def name_ok_def)
  obtain r h1 where h1: "hput w flag k v h = Some (Done (r, h1))" "hash_room (length es) h1" "hash_vars h1 = (hash_vars h)(k \<mapsto> v)"
    using hput_room [of "length es" h w flag k v] Cons.prems(3) assms(2) by auto
  then obtain ret ep where "hsearch_r w k (Some v) ENTER flag h = Some (Done (ret, ep, h1))"
    by (cases "hsearch_r w k (Some v) ENTER flag h") (auto simp: hput_def bind_outcome_Done_iff)
  then have i: "import_item w flag (Insert k v) h [] = Some (Done (True, h1, []))"
    using ok(2) by (simp add: import_item_def drop_var_from_set_def)
  have p: "parse_item sep (env_line sep (k, v) @ ?ds) = Done (Insert k v, ?ds)" using parse_line [OF ok(1) assms(1)] .
  have step: "import_loop w sep flag 1 (env_line sep (k, v) @ ?ds) h [] =
      (if 1 < length ?ds \<and> hd ?ds \<noteq> 0 then import_loop w sep flag 1 ?ds h1 [] else Some (Done (True, h1, [])))"
    by (subst import_loop.simps) (simp add: p i)
  show ?case
  proof (cases es)
    case Nil
    then show ?thesis using step h1 by (simp add: e fun_upd_def)
  next
    case (Cons e' es')
    obtain k' v' where e': "e' = (k', v')" by (cases e')
    have "k' \<noteq> []" "0 \<notin> set k'" using Cons.prems(1) Cons by (auto simp: e' pair_ok_def name_ok_def)
    then have "hd ?ds \<noteq> 0" by (cases k') (simp_all add: Cons e' env_line_def)
    moreover have "1 < length ?ds" using Cons.prems(4) by (cases rest) simp_all
    ultimately have "import_loop w sep flag 1 (env_line sep (k, v) @ ?ds) h [] = import_loop w sep flag 1 ?ds h1 []" using step by simp
    then show ?thesis using Cons.IH [of h1] Cons.prems h1 Cons by (simp add: e fun_upd_def)
  qed
qed simp

section \<open>Properties\<close>

lemma length_escape: "length (escape sep v) = length v + length (filter (escaped_char sep) v)"
  by (induction v) (simp_all add: escape_def)

lemma line_fits:
  assumes "pair_ok sep e"
  shows "length (env_line sep e) + 2 \<le> entry_len sep e" "6 \<le> entry_len sep e"
proof -
  have z: "filter (escaped_char 0) (snd e) = []" if "sep = 0"
    using assms that by (auto simp: pair_ok_def value_ok_def escaped_char_def filter_empty_conv)
  then show "length (env_line sep e) + 2 \<le> entry_len sep e" by (simp add: env_line_def entry_len_def length_escape)
  have "1 \<le> length (fst e)" "1 \<le> length (snd e)" using assms by (auto simp: pair_ok_def name_ok_def value_ok_def Suc_le_eq)
  then show "6 \<le> entry_len sep e" by (simp add: entry_len_def)
qed

lemma lines_fit:
  assumes "list_all (pair_ok sep) es"
  shows "length (concat (map (env_line sep) es)) \<le> sum_list (map (entry_len sep) es)" "6 * length es \<le> sum_list (map (entry_len sep) es)"
  using assms
proof (induction es)
  case (Cons e es)
  { case 1 then show ?case using Cons line_fits [of sep e] by simp }
  { case 2 then show ?case using Cons line_fits [of sep e] by simp }
qed simp_all

lemma hexport_all:
  assumes "hash_ok h t" "alloc_ok w (allocs h)" "list_all (pair_ok sep) (live_pairs (drop 1 t))"
  defines "es \<equiv> live_pairs (drop 1 t)"
  shows "\<exists>zs. hexport_r w rx (Some h) sep 0 (Some None) 0 [] =
     Done (int (sum_list (map (entry_len sep) es) + 1), Some (concat (map (env_line sep) (qsort cmpkey es)) @ 0 # zs), h\<lparr>allocs := allocs h + 1\<rparr>) \<and>
     length (concat (map (env_line sep) (qsort cmpkey es)) @ 0 # zs) = sum_list (map (entry_len sep) es) + 1"
proof -
  let ?es1 = "qsort cmpkey es" and ?n = "sum_list (map (entry_len sep) es)"
  let ?text = "concat (map (env_line sep) ?es1)"
  have m: "mset ?es1 = mset es" by (rule qsort_mset_sorted)
  have "list_all (pair_ok sep) ?es1" using assms(3) mset_eq_setD [OF m] by (simp add: list_all_iff es_def)
  from lines_fit(1) [OF this] have "length ?text \<le> sum_list (map (entry_len sep) ?es1)" .
  also have "\<dots> = ?n" using m by (metis mset_map sum_mset_sum_list)
  finally have le: "length ?text \<le> ?n" .
  have e: "export_entries rx 0 [] (drop 1 t) = Done es"
    unfolding es_def using export_all [OF table_slots_ok(2) [OF assms(1)], of 0 rx] by simp
  let ?zs = "replicate (?n - length ?text) 0"
  have o: "overwrite 0 (?text @ [0]) (replicate (?n + 1) 0) = ?text @ 0 # ?zs" using le by (simp add: overwrite_def)
  have "hexport_r w rx (Some h) sep 0 (Some None) 0 [] = Done (int (?n + 1), Some (?text @ 0 # ?zs), h\<lparr>allocs := allocs h + 1\<rparr>)"
    unfolding hexport_r_def using table_slots_ok(1) [OF assms(1)] e assms(2) le o by (simp add: Let_def del: replicate.simps)
  moreover have "length (?text @ 0 # ?zs) = ?n + 1" using le by simp
  ultimately show ?thesis by blast
qed

lemma fold_pairs: "distinct (map fst es) \<Longrightarrow> fold (\<lambda>(k, v) f. f(k \<mapsto> v)) es f = f ++ map_of es"
proof (induction es arbitrary: f)
  case (Cons e es)
  obtain k v where e: "e = (k, v)" by (cases e)
  have "fold (\<lambda>(k, v) f. f(k \<mapsto> v)) (e # es) f = f(k \<mapsto> v) ++ map_of es" using Cons.prems Cons.IH [of "f(k \<mapsto> v)"] by (simp add: e del: fun_upd_apply)
  also have "\<dots> = f ++ map_of (e # es)"
  proof
    fix x
    have "map_of es k = None" using Cons.prems by (simp add: e map_of_eq_None_iff)
    then show "(f(k \<mapsto> v) ++ map_of es) x = (f ++ map_of (e # es)) x" by (cases "x = k") (simp_all add: e map_add_def split: option.split)
  qed
  finally show ?case .
qed simp

lemma map_of_mset: "mset xs = mset ys \<Longrightarrow> distinct (map fst xs) \<Longrightarrow> map_of xs = map_of ys"
proof -
  assume m: "mset xs = mset ys" and d: "distinct (map fst xs)"
  then have "set xs = set ys" "distinct (map fst ys)" by (metis mset_eq_setD, metis mset_eq_imp_distinct_iff mset_map)
  with d show ?thesis by (metis map_of_inject_set)
qed

text \<open>An import into an emptied table, up to its loop.\<close>

lemma himport_start:
  assumes "grants w" "env \<noteq> []"
  shows "\<exists>h3. himport_r w (Some h) env sep 0 False [] =
     bind_run (import_loop w sep 0 1 (env @ [0]) h3 []) (\<lambda>(go, h4, rest).
       if \<not> go then Some (Done (0, Some h4)) else bind_run (delete_rest w 0 rest h4) (\<lambda>h5. Some (Done (1, Some h5)))) \<and>
     hash_room (min (64 + length env div 8) 512) h3 \<and> hash_vars h3 = Map.empty"
proof -
  let ?n = "min (64 + length env div 8) 512"
  define h2 where "h2 = h\<lparr>allocs := allocs h + 1, htable := None\<rparr>"
  have al: "alloc_ok w n" for n using assms(1) by (simp add: grants_def plenty_def)
  have "htable h2 = None" "2 \<le> ?n" "?n \<le> 512" by (simp_all add: h2_def)
  from hcreate_fresh [OF al this] obtain h3 t where h3: "hcreate_r w ?n (Some h2) = Some (1, Some h3)" "hash_ok h3 t" "table_map t = Map.empty"
      "empties (hsize h3) t = hsize h3" "?n \<le> hsize h3" by blast
  have d: "himport_clear 0 (h\<lparr>allocs := allocs h + 1\<rparr>) = Done (Some h2)"
    by (simp add: himport_clear_def hdestroy_r_def h2_def)
  have "himport_r w (Some h) env sep 0 False [] =
     bind_run (import_loop w sep 0 1 (env @ [0]) h3 []) (\<lambda>(go, h4, rest).
       if \<not> go then Some (Done (0, Some h4)) else bind_run (delete_rest w 0 rest h4) (\<lambda>h5. Some (Done (1, Some h5))))"
    unfolding himport_r_def using assms(2) al h3(1) d
    by (simp add: CONFIG_ENV_MIN_ENTRIES_def CONFIG_ENV_MAX_ENTRIES_def \<open>htable h2 = None\<close> Let_def)
  moreover have "hash_room ?n h3" using h3 by (auto simp: hash_room_def)
  ultimately show ?thesis using h3(3) hash_vars_ok [OF h3(2)] by auto
qed

text \<open>C35: Exporting a table and importing the text gives the same variables, whatever was in the importing table, with NUL or line feed as
  separator: for up to 256 variables whose names do not begin with a blank or \<open>#\<close> and hold no \<open>=\<close> and no separator, and whose values are not
  empty.  Line feeds and backslashes in values survive with the line feed as separator; with NUL the values have no backslash.\<close>

theorem env_export_import:
  assumes "grants w" "hash_ok h t" "sep = 0 \<or> sep = 10" "card (dom (hash_vars h)) \<le> 256"
    and "\<forall>k v. hash_vars h k = Some v \<longrightarrow> name_ok sep k \<and> value_ok sep v"
  shows "\<exists>n text h1 h3. hexport_r w rx (Some h) sep 0 (Some None) 0 [] = Done (int n, Some text, h1) \<and> length text = n \<and>
     himport_r w (Some h2) text sep 0 False [] = Some (Done (1, Some h3)) \<and> hash_vars h3 = hash_vars h"
proof -
  define es where "es = live_pairs (drop 1 t)"
  define es1 where "es1 = qsort cmpkey es"
  have mo: "map_of es = hash_vars h" "distinct (map fst es)" using table_slots_ok(3,4) [OF assms(2)] by (simp_all add: es_def)
  have ms: "mset es1 = mset es" unfolding es1_def by (rule qsort_mset_sorted)
  then have d1: "distinct (map fst es1)" "length es1 = length es" by (metis mo(2) mset_eq_imp_distinct_iff mset_map, metis size_mset)
  have len: "length es \<le> 256"
    using assms(4) mo by (metis card_image distinct_card distinct_map dom_map_of_conv_image_fst length_map set_map)
  have ok: "list_all (pair_ok sep) es"
  proof (unfold list_all_iff, intro ballI)
    fix e assume "e \<in> set es"
    then have "hash_vars h (fst e) = Some (snd e)" using mo by (metis map_of_eq_Some_iff prod.collapse)
    then show "pair_ok sep e" using assms(5) by (simp add: pair_ok_def)
  qed
  then have ok1: "list_all (pair_ok sep) es1" using mset_eq_setD [OF ms] by (simp add: list_all_iff)
  have "alloc_ok w (allocs h)" using assms(1) by (simp add: grants_def plenty_def)
  from hexport_all [OF assms(2) this ok [unfolded es_def], of rx, folded es_def es1_def]
  obtain zs where ex: "hexport_r w rx (Some h) sep 0 (Some None) 0 [] =
       Done (int (sum_list (map (entry_len sep) es) + 1), Some (concat (map (env_line sep) es1) @ 0 # zs), h\<lparr>allocs := allocs h + 1\<rparr>)"
    "length (concat (map (env_line sep) es1) @ 0 # zs) = sum_list (map (entry_len sep) es) + 1" by blast
  let ?text = "concat (map (env_line sep) es1) @ 0 # zs"
  obtain h3 where h3: "himport_r w (Some h2) ?text sep 0 False [] =
     bind_run (import_loop w sep 0 1 (?text @ [0]) h3 []) (\<lambda>(go, h4, rest).
       if \<not> go then Some (Done (0, Some h4)) else bind_run (delete_rest w 0 rest h4) (\<lambda>h5. Some (Done (1, Some h5))))"
     "hash_room (min (64 + length ?text div 8) 512) h3" "hash_vars h3 = Map.empty"
    using himport_start [OF assms(1), of ?text h2 sep] by auto
  have "length es1 \<le> min (64 + length ?text div 8) 512"
    using lines_fit(2) [OF ok] len d1(2) unfolding ex(2) by simp
  then have room: "hash_room (length es1) h3" using h3(2) by (auto simp: hash_room_def)
  have "\<exists>h4. import_loop w sep 0 1 (?text @ [0]) h3 [] = Some (Done (True, h4, [])) \<and> hash_vars h4 = map_of es1"
  proof (cases "es1 = []")
    case False
    from import_lines [OF assms(3,1) ok1 False room, of "zs @ [0]" 0] obtain h4 where
      "import_loop w sep 0 1 (?text @ [0]) h3 [] = Some (Done (True, h4, []))"
      "hash_vars h4 = fold (\<lambda>(k, v) f. f(k \<mapsto> v)) es1 Map.empty" by (auto simp: h3(3))
    then show ?thesis using fold_pairs [OF d1(1), of Map.empty] by simp
  next
    case True
    then have "es = []" using d1(2) by simp
    then have z: "zs = []" using ex(2) True by simp
    obtain h4 where h4: "hdelete_r w [] 0 h3 = Some (Done (0, h4))" "hash_vars h4 = Map.empty"
      using hdelete_room [OF room assms(1), of "[]" 0] h3(3) by auto
    have "parse_item sep [0, 0] = Done (Delete [], [0])" by (simp add: parse_item_def isblank_def)
    then have "import_loop w sep 0 1 [0, 0] h3 [] = Some (Done (True, h4, []))"
      using h4 by (subst import_loop.simps) (simp add: import_item_def drop_var_from_set_def)
    then show ?thesis using True z h4(2) by simp
  qed
  then obtain h4 where "import_loop w sep 0 1 (?text @ [0]) h3 [] = Some (Done (True, h4, []))" "hash_vars h4 = map_of es1" by blast
  then have "himport_r w (Some h2) ?text sep 0 False [] = Some (Done (1, Some h4))" "hash_vars h4 = hash_vars h"
    using h3(1) map_of_mset [OF ms d1(1)] mo(1) by simp_all
  with ex show ?thesis by blast
qed

theorem env_export_import_witness:
  "\<exists>h n text h1 h3. hash_vars h = [ascii ''a'' \<mapsto> [120, 10, 92]] \<and>
     hexport_r open_world (\<lambda>_. None) (Some h) 10 0 (Some None) 0 [] = Done (int n, Some text, h1) \<and> length text = n \<and>
     himport_r open_world (Some no_table) text 10 0 False [] = Some (Done (1, Some h3)) \<and> hash_vars h3 = [ascii ''a'' \<mapsto> [120, 10, 92]]"
proof -
  have e: "hash_vars empty_five = Map.empty" using hash_vars_ok [OF empty_five_ok(1)] empty_five_map by simp
  have "hash_room (Suc 4) empty_five" using empty_five_ok by (auto simp: hash_room_def intro!: exI [of _ "replicate 6 zero_slot"])
  then obtain h where h: "hash_room 4 h" "hash_vars h = [ascii ''a'' \<mapsto> [120, 10, 92]]"
    using hput_room [OF _ open_world_grants, of 4 empty_five 0 "ascii ''a''" "[120, 10, 92]"] e by auto
  then obtain t where t: "hash_ok h t" by (auto simp: hash_room_def)
  have ok: "\<forall>k v. hash_vars h k = Some v \<longrightarrow> name_ok 10 k \<and> value_ok 10 v"
    by (simp add: h(2) name_ok_def value_ok_def ascii_def isblank_def)
  have "card (dom (hash_vars h)) \<le> 256" by (simp add: h(2))
  from env_export_import [OF open_world_grants t _ this ok, of "\<lambda>_. None" no_table] h(2) show ?thesis by auto
qed

section \<open>Corner cases of the code\<close>

text \<open>
  With NUL as separator the values are escaped all the same, but the escapes are not counted: three backslashes are enough to write
  behind the buffer that was allocated.
\<close>

lemma escapes_overrun_buffer:
  assumes "hash_ok h t" "alloc_ok w (allocs h)" "live_pairs (drop 1 t) = [(k, v)]" "0 \<notin> set v"
    and "2 < length (filter (\<lambda>c. c = chr CHR 0x5C) v)"
  shows "hexport_r w rx (Some h) 0 0 (Some None) 0 [] = Fault"
proof -
  have "export_entries rx 0 [] (drop 1 t) = Done [(k, v)]"
    using export_all [OF table_slots_ok(2) [OF assms(1)], of 0 rx] assms(3) by simp
  moreover have "filter (escaped_char 0) v = filter (\<lambda>c. c = chr CHR 0x5C) v"
    using assms(4) by (intro filter_cong) (auto simp: escaped_char_def)
  ultimately show ?thesis
    using table_slots_ok(1) [OF assms(1)] assms(2,5)
    by (simp add: hexport_r_def Let_def qsort_def env_line_def entry_len_def length_escape)
qed

text \<open>
  When carriage returns were taken out of a text that does not end with a line feed, the bytes left behind its new end are read as part of
  the last value: \<open>x=1\<close>, carriage return, line feed, \<open>y=2\<close> sets \<open>y\<close> to \<open>22\<close>.
\<close>

lemma crlf_repeats_tail:
  assumes "env = ascii ''x=1'' @ [13, 10] @ ascii ''y=2''"
  shows "parse_item 10 (drop 4 (overwrite 0 (fst (strip_crs env)) env @ [0])) = Done (Insert (ascii ''y'') (ascii ''22''), [])"
  unfolding assms by code_simp

end
