(* ===== verification/NvEdit.thy ===== *)
theory NvEdit
  imports EnvText
begin

text \<open>
  The variables of the environment, \<open>cmd/nvedit.c\<close>: \<open>env_get\<close> and \<open>env_set\<close> over the hash table, and the functions the Rockchip fork adds to
  edit the items of a kernel command line (\<open>env_append\<close>, \<open>env_replace\<close>, \<open>env_exist\<close>, \<open>env_delete\<close>, \<open>env_update_filter\<close>,
  \<open>env_update_extract_subset\<close>), with the commands \<open>setenv\<close>, \<open>env delete\<close> and \<open>printenv\<close>.  Strings are byte lists without their NUL; a
  pointer into a value is a position in it.  \<open>malloc\<close>, \<open>calloc\<close> and \<open>strdup\<close> draw on the allocator of the table.
\<close>

section \<open>State\<close>

record uenv =
  env_htab :: hsearch_data
  env_id :: int
  env_ready :: bool
  env_chars :: bytes

type_synonym 'a run = "('a \<times> uenv) outcome option"

definition CMD_RET_USAGE :: int where "CMD_RET_USAGE = - 1"
definition ARGS_ITEM_NUM :: nat where "ARGS_ITEM_NUM = 50"

abbreviation sp :: u8 where "sp \<equiv> 32"
abbreviation eq_sign :: u8 where "eq_sign \<equiv> 61"
abbreviation dash :: u8 where "dash \<equiv> 45"

definition take_mem :: "hworld \<Rightarrow> uenv \<Rightarrow> bool \<times> uenv" where
  "take_mem w st = (alloc_ok w (allocs (env_htab st)), st\<lparr>env_htab := (env_htab st)\<lparr>allocs := allocs (env_htab st) + 1\<rparr>\<rparr>)"

section \<open>Setting and getting\<close>

text \<open>The options in front of the name: \<open>None\<close> for a character other than \<open>f\<close>.\<close>

fun set_opts :: "bytes option list \<Rightarrow> nat \<Rightarrow> int \<Rightarrow> (bytes option list \<times> nat \<times> int) option outcome" where
  "set_opts (a # Some s # argv) argc env_flag =
     (if 1 < argc \<and> prefix [dash] s then
        if list_all (\<lambda>c. c = chr CHR ''f'') (tl s)
        then set_opts (Some s # argv) (argc - 1) (if tl s = [] then env_flag else env_flag OR H_FORCE)
        else Done None
      else Done (Some (a # Some s # argv, argc, env_flag)))"
| "set_opts argv argc env_flag = (if 1 < argc then Fault else Done (Some (argv, argc, env_flag)))"

text \<open>The arguments from the third on, joined by blanks.\<close>

fun all_args :: "bytes option list \<Rightarrow> bytes list outcome" where
  "all_args [] = Done []"
| "all_args (None # as) = Fault"
| "all_args (Some a # as) = bind_outcome (all_args as) (\<lambda>r. Done (a # r))"

definition do_env_set_flags :: "hworld \<Rightarrow> nat \<Rightarrow> bytes option list \<Rightarrow> int \<Rightarrow> uenv \<Rightarrow> int run" where
  "do_env_set_flags w argc0 argv0 env_flag0 st =
     bind_run (Some (set_opts argv0 argc0 env_flag0)) (\<lambda>opts.
       case opts of None \<Rightarrow> Some (Done (CMD_RET_USAGE, st))
       | Some (argv, argc, env_flag) \<Rightarrow>
         (case argv of a # Some name # rest \<Rightarrow>
            if eq_sign \<in> set name then Some (Done (1, st))
            else
              (let st1 = st\<lparr>env_id := env_id st + 1\<rparr>
               in if argc < 3 \<or> rest = [] \<or> hd rest = None
                  then bind_run (hdelete_r w name env_flag (env_htab st1)) (\<lambda>(rc, h).
                    Some (Done (if rc = 0 then 1 else 0, st1\<lparr>env_htab := h\<rparr>)))
                  else bind_run (Some (all_args (take (argc - 2) rest))) (\<lambda>args.
                    case take_mem w st1 of (ok, st2) \<Rightarrow>
                      if \<not> ok then Some (Done (1, st2))
                      else bind_run (hsearch_r w name (Some (join sp args)) ENTER env_flag (env_htab st2)) (\<lambda>(_, ep, h).
                        Some (Done (if ep = None then 1 else 0, st2\<lparr>env_htab := h\<rparr>)))))
          | _ \<Rightarrow> Some Fault))"

definition env_set :: "hworld \<Rightarrow> bytes option \<Rightarrow> bytes option \<Rightarrow> uenv \<Rightarrow> int run" where
  "env_set w varname varvalue st =
     (if \<not> env_ready st then Some (Done (1, st))
      else do_env_set_flags w (if varvalue = None \<or> varvalue = Some [] then 2 else 3)
        [Some (ascii ''setenv''), varname, varvalue, None] H_PROGRAMMATIC st)"

text \<open>
  Before the table is filled the variables are read from the stored text, \<open>env_chars\<close>, byte by byte.  \<open>envmatch\<close> compares with a name that ends
  with its NUL and returns the index of the value.
\<close>

fun envmatch :: "bytes \<Rightarrow> bytes \<Rightarrow> nat \<Rightarrow> int outcome" where
  "envmatch env [] i2 = Fault"
| "envmatch env (c # s1) i2 =
     (if length env \<le> i2 then Fault
      else if c = env ! i2 then if c = eq_sign then Done (int i2 + 1) else envmatch env s1 (i2 + 1)
      else if c = 0 \<and> env ! i2 = eq_sign then Done (int i2 + 1)
      else Done (- 1))"

definition CONFIG_ENV_SIZE :: nat where "CONFIG_ENV_SIZE = 0x8000"
definition sizeof_env_buf :: nat where "sizeof_env_buf = 32"

text \<open>The result and what is written to the buffer up to its NUL; nothing when it is not written.\<close>

function env_get_f_from :: "bytes \<Rightarrow> bytes \<Rightarrow> nat \<Rightarrow> nat \<Rightarrow> (int \<times> bytes option) outcome" where
  "env_get_f_from env name len i =
     (if length env \<le> i then Fault
      else if env ! i = 0 then Done (- 1, None)
      else
        (let entry = takeWhile (\<lambda>c. c \<noteq> 0) (drop i env); nxt = i + length entry
         in if CONFIG_ENV_SIZE < nxt then Done (- 1, None)
            else if length env \<le> nxt then Fault
            else (case envmatch env (name @ [0]) i of Fault \<Rightarrow> Fault | Fatal e \<Rightarrow> Fatal e
              | Done v \<Rightarrow>
                if v < 0 then env_get_f_from env name len (nxt + 1)
                else
                  (let val = drop (nat v) env; s = takeWhile (\<lambda>c. c \<noteq> 0) val
                   in if len = 0 then Done (0, None)
                      else if length s < len then if length val = length s then Fault else Done (int (length s), Some s)
                      else Done (int len, Some (take (len - 1) s))))))"
  by pat_completeness auto
termination
  by (relation "measure (\<lambda>(env, name, len, i). length env - i)") auto

declare env_get_f_from.simps [simp del]

definition env_get_f :: "bytes \<Rightarrow> bytes \<Rightarrow> nat \<Rightarrow> (int \<times> bytes option) outcome" where
  "env_get_f env name len = env_get_f_from env name len 0"

definition env_get :: "hworld \<Rightarrow> bytes \<Rightarrow> uenv \<Rightarrow> bytes option outcome option" where
  "env_get w name st =
     (if env_ready st then hlookup w name (env_htab st)
      else Some (bind_outcome (env_get_f (env_chars st) name sizeof_env_buf) (\<lambda>(n, buf). Done (if 0 < n then buf else None))))"

section \<open>Items of a value\<close>

definition exist_pos :: "bytes \<Rightarrow> bytes \<Rightarrow> nat option" where
  "exist_pos oldvalue v =
     (case find_str oldvalue ([sp] @ v @ [sp]) of Some p \<Rightarrow> Some (p + 1)
      | None \<Rightarrow>
        (let first = (case find_str oldvalue (v @ [sp]) of None \<Rightarrow> None
               | Some p \<Rightarrow> (case find_str (drop p oldvalue) [sp] of None \<Rightarrow> None
                   | Some q \<Rightarrow> if p + q = length v then Some p else None))
         in (case find_str oldvalue ([sp] @ v) of
               Some p \<Rightarrow> if p + length v + 1 = length oldvalue then Some (p + 1) else first
             | None \<Rightarrow> first)))"

definition env_exist :: "hworld \<Rightarrow> bytes \<Rightarrow> bytes \<Rightarrow> uenv \<Rightarrow> nat option run" where
  "env_exist w varname varvalue st =
     (if \<not> env_ready st then Some (Done (None, st))
      else (case take_mem w st of (ok, st1) \<Rightarrow>
        if \<not> ok then Some (Done (None, st1))
        else bind_run (hlookup w varname (env_htab st1)) (\<lambda>oldvalue.
          Some (Done (case oldvalue of None \<Rightarrow> None | Some ov \<Rightarrow> exist_pos ov varvalue, st1)))))"

definition env_append :: "hworld \<Rightarrow> bytes \<Rightarrow> bytes \<Rightarrow> uenv \<Rightarrow> int run" where
  "env_append w varname varvalue st =
     (if \<not> env_ready st then Some (Done (1, st))
      else bind_run (env_exist w varname varvalue st) (\<lambda>(pos, st1).
        if pos \<noteq> None then Some (Done (0, st1))
        else bind_run (hlookup w varname (env_htab st1)) (\<lambda>oldvalue.
          case take_mem w st1 of (ok, st2) \<Rightarrow>
            if \<not> ok then Some (Done (1, st2))
            else bind_run (env_set w (Some varname) (Some (case oldvalue of None \<Rightarrow> varvalue | Some ov \<Rightarrow> ov @ [sp] @ varvalue)) st2) (\<lambda>(_, st3).
              Some (Done (0, st3))))))"

definition env_replace :: "hworld \<Rightarrow> bytes \<Rightarrow> bytes \<Rightarrow> bytes \<Rightarrow> uenv \<Rightarrow> int run" where
  "env_replace w varname substr replacement st =
     (if \<not> env_ready st then Some (Done (1, st))
      else bind_run (hlookup w varname (env_htab st)) (\<lambda>oldvalue.
        case oldvalue of None \<Rightarrow> Some (Done (1, st))
        | Some ov \<Rightarrow>
          (case find_str ov substr of None \<Rightarrow> Some (Done (1, st))
           | Some p \<Rightarrow>
             (case take_mem w st of (ok, st1) \<Rightarrow>
                if \<not> ok then Some (Done (1, st1))
                else bind_run (env_set w (Some varname) (Some (take p ov @ replacement @ drop (p + length substr) ov)) st1) (\<lambda>(_, st2).
                  Some (Done (0, st2)))))))"

text \<open>The value is changed in place: in the entry of the table the search delivers.\<close>

definition set_value :: "hworld \<Rightarrow> bytes \<Rightarrow> bytes \<Rightarrow> uenv \<Rightarrow> uenv outcome option" where
  "set_value w varname v st =
     bind_run (hsearch_r w varname None FIND 0 (env_htab st)) (\<lambda>(_, ep, h).
       case ep of None \<Rightarrow> Some Fault
       | Some i \<Rightarrow> bind_run (Some (slot_at h i)) (\<lambda>s.
           Some (Done (st\<lparr>env_htab := set_slot i (s\<lparr>entry := (entry s)\<lparr>hdata := Some v\<rparr>\<rparr>) h\<rparr>))))"

definition env_delete :: "hworld \<Rightarrow> bytes \<Rightarrow> bytes \<Rightarrow> bool \<Rightarrow> uenv \<Rightarrow> int run" where
  "env_delete w varname varvalue complete_match st =
     (if \<not> env_ready st then Some (Done (1, st))
      else bind_run (hlookup w varname (env_htab st)) (\<lambda>v0.
        case v0 of None \<Rightarrow> Some (Done (0, st))
        | Some v \<Rightarrow>
          bind_run (if complete_match then env_exist w varname varvalue st else Some (Done (find_str v varvalue, st))) (\<lambda>(pos, st1).
            case pos of None \<Rightarrow> Some (Done (0, st1))
            | Some start \<Rightarrow>
              (case find_str (drop start v) [sp] of
                 Some q \<Rightarrow> bind_run (set_value w varname (take start v @ drop (start + q + 1) v) st1) (\<lambda>st2. Some (Done (0, st2)))
               | None \<Rightarrow>
                 if start = 0 then Some Fault
                 else bind_run (set_value w varname (take (start - 1) v) st1) (\<lambda>st2. Some (Done (0, st2)))))))"

section \<open>Merging items\<close>

definition has_eq :: "bytes \<Rightarrow> bool" where
  "has_eq s \<longleftrightarrow> find_str s [eq_sign] \<noteq> None"

text \<open>The title of an item: what \<open>strtok\<close> returns for the separator \<open>=\<close>.\<close>

definition title :: "bytes \<Rightarrow> bytes option" where
  "title s = (case tokens eq_sign s of [] \<Rightarrow> None | t # _ \<Rightarrow> Some t)"

text \<open>The items of the new value: those with \<open>=\<close> are collected, at most 50, the others appended at once.\<close>

fun collect_items :: "hworld \<Rightarrow> bytes \<Rightarrow> bytes option \<Rightarrow> bytes list \<Rightarrow> bytes list \<Rightarrow> uenv \<Rightarrow> bytes list run" where
  "collect_items w varname ignore [] items st = Some (Done (items, st))"
| "collect_items w varname ignore (v # vs) items st =
     (if ARGS_ITEM_NUM \<le> length items then Some (Done (items, st))
      else if ignore \<noteq> None \<and> find_str v (the ignore) \<noteq> None then collect_items w varname ignore vs items st
      else if has_eq v then collect_items w varname ignore vs (items @ [v]) st
      else bind_run (env_append w varname v st) (\<lambda>(_, st1). collect_items w varname ignore vs items st1))"

text \<open>The old item with the title of the new one; \<open>Inr\<close> when memory ran out.\<close>

fun find_title :: "hworld \<Rightarrow> bytes option \<Rightarrow> bytes list \<Rightarrow> uenv \<Rightarrow> (bytes option + unit) run" where
  "find_title w v_title [] st = Some (Done (Inl None, st))"
| "find_title w v_title (a # as) st =
     (case take_mem w st of (ok, st1) \<Rightarrow>
        if \<not> ok then Some (Done (Inr (), st1))
        else (case (title a, v_title) of
            (Some ta, Some tv) \<Rightarrow> if cmp_str ta tv = 0 then Some (Done (Inl (Some a), st1)) else find_title w v_title as st1
          | _ \<Rightarrow> Some Fault))"

fun merge_items :: "hworld \<Rightarrow> bytes \<Rightarrow> bytes list \<Rightarrow> bytes list \<Rightarrow> uenv \<Rightarrow> int run" where
  "merge_items w varname a_items [] st = Some (Done (0, st))"
| "merge_items w varname a_items (v # vs) st =
     (case take_mem w st of (ok, st1) \<Rightarrow>
        if \<not> ok then Some (Done (1, st1))
        else bind_run (find_title w (title v) a_items st1) (\<lambda>(r, st2).
          case r of Inr _ \<Rightarrow> Some (Done (1, st2))
          | Inl (Some a) \<Rightarrow> bind_run (env_replace w varname a v st2) (\<lambda>(_, st3). merge_items w varname a_items vs st3)
          | Inl None \<Rightarrow> bind_run (env_append w varname v st2) (\<lambda>(_, st3). merge_items w varname a_items vs st3)))"

definition env_update_filter :: "hworld \<Rightarrow> bytes \<Rightarrow> bytes \<Rightarrow> bytes option \<Rightarrow> uenv \<Rightarrow> int run" where
  "env_update_filter w varname varvalue ignore st =
     (if \<not> env_ready st then Some (Done (1, st))
      else bind_run (hlookup w varname (env_htab st)) (\<lambda>varargs.
        case varargs of None \<Rightarrow>
          bind_run (env_set w (Some varname) (Some varvalue) st) (\<lambda>(_, st1).
            if ignore \<noteq> None \<and> find_str varvalue (the ignore) \<noteq> None
            then bind_run (env_delete w varname (the ignore) False st1) (\<lambda>(_, st2). Some (Done (0, st2)))
            else Some (Done (0, st1)))
        | Some a \<Rightarrow>
          (case take_mem w st of (ok, st1) \<Rightarrow>
             if \<not> ok then Some (Done (1, st1))
             else (case take_mem w st1 of (ok2, st2) \<Rightarrow>
               if \<not> ok2 then Some (Done (1, st2))
               else bind_run (collect_items w varname ignore (tokens sp varvalue) [] st2) (\<lambda>(v_items, st3).
                 merge_items w varname (take ARGS_ITEM_NUM (filter has_eq (tokens sp a))) v_items st3)))))"

definition env_update :: "hworld \<Rightarrow> bytes \<Rightarrow> bytes \<Rightarrow> uenv \<Rightarrow> int run" where
  "env_update w varname varvalue st = env_update_filter w varname varvalue None st"

text \<open>The items are collected in two copies of the value, each with a blank behind it; the copies have room for the value only.\<close>

definition env_update_extract_subset :: "hworld \<Rightarrow> bytes \<Rightarrow> bytes \<Rightarrow> bytes \<Rightarrow> uenv \<Rightarrow> int run" where
  "env_update_extract_subset w varname subset_varname subset_key st =
     bind_run (env_get w varname st) (\<lambda>varvalue.
       case varvalue of None \<Rightarrow> Some (Done (0, st))
       | Some v \<Rightarrow>
         (case take_mem w st of (ok1, st1) \<Rightarrow> case take_mem w st1 of (ok2, st2) \<Rightarrow> case take_mem w st2 of (ok3, st3) \<Rightarrow>
            if \<not> ok1 \<or> \<not> ok2 \<or> \<not> ok3 then Some (Done (- ENOMEM, st3))
            else
              (let items = tokens sp v;
                   in_subset = (\<lambda>i. find_str i subset_key \<noteq> None);
                   line = (\<lambda>xs. concat (map (\<lambda>i. i @ [sp]) xs));
                   new = line (filter (\<lambda>i. \<not> in_subset i) items);
                   sub = line (filter in_subset items)
               in if length v < length new \<or> length v < length sub then Some Fault
                  else bind_run (env_set w (Some varname) (Some new) st3) (\<lambda>(_, st4).
                    bind_run (env_set w (Some subset_varname) (Some sub) st4) (\<lambda>(_, st5). Some (Done (0, st5)))))))"

section \<open>Commands\<close>

definition do_env_set :: "hworld \<Rightarrow> bytes list \<Rightarrow> uenv \<Rightarrow> int run" where
  "do_env_set w argv st =
     (if length argv < 2 then Some (Done (CMD_RET_USAGE, st))
      else do_env_set_flags w (length argv) (map Some argv @ [None]) H_INTERACTIVE st)"

fun delete_args :: "hworld \<Rightarrow> int \<Rightarrow> bytes list \<Rightarrow> uenv \<Rightarrow> int run" where
  "delete_args w env_flag [] st = Some (Done (0, st))"
| "delete_args w env_flag (name # names) st =
     bind_run (hdelete_r w name env_flag (env_htab st)) (\<lambda>(rc, h).
       bind_run (delete_args w env_flag names (st\<lparr>env_htab := h\<rparr>)) (\<lambda>(ret, st1).
         Some (Done (if rc = 0 then 1 else ret, st1))))"

definition do_env_delete :: "hworld \<Rightarrow> bytes list \<Rightarrow> uenv \<Rightarrow> int run" where
  "do_env_delete w argv st =
     bind_run (Some (set_opts (map Some argv @ [None]) (length argv) H_INTERACTIVE)) (\<lambda>opts.
       case opts of None \<Rightarrow> Some (Done (CMD_RET_USAGE, st))
       | Some (argv1, argc, env_flag) \<Rightarrow>
         delete_args w env_flag (map the (take (argc - 1) (drop 1 argv1))) (st\<lparr>env_id := env_id st + 1\<rparr>))"

definition do_env_update :: "hworld \<Rightarrow> bytes list \<Rightarrow> uenv \<Rightarrow> int run" where
  "do_env_update w argv st =
     (if length argv \<noteq> 3 then Some (Done (CMD_RET_USAGE, st)) else env_update w (argv ! 1) (argv ! 2) st)"

section \<open>The variables\<close>

definition env_vars :: "uenv \<Rightarrow> bytes \<rightharpoonup> bytes" where
  "env_vars st = hash_vars (env_htab st)"

text \<open>The table is in order with room for \<open>n\<close> more variables, memory is there and nothing refuses a change.\<close>

definition env_ok :: "hworld \<Rightarrow> nat \<Rightarrow> uenv \<Rightarrow> bool" where
  "env_ok w n st \<longleftrightarrow> env_ready st \<and> grants w \<and> hash_room n (env_htab st)"

definition var_name :: "bytes \<Rightarrow> bool" where
  "var_name k \<longleftrightarrow> eq_sign \<notin> set k \<and> \<not> prefix [dash] k"

lemma hash_vars_allocs [simp]: "hash_vars (h\<lparr>allocs := a\<rparr>) = hash_vars h"
  by (simp add: hash_vars_def)

lemma hash_room_allocs [simp]: "hash_room n (h\<lparr>allocs := a\<rparr>) = hash_room n h"
proof -
  have "hash_ok (h\<lparr>allocs := a\<rparr>) t = hash_ok h t" for t by (simp add: hash_ok_def)
  then show ?thesis by (simp add: hash_room_def)
qed

lemma take_mem_ok:
  assumes "env_ok w n st"
  obtains st1 where "take_mem w st = (True, st1)" "env_ok w n st1" "env_vars st1 = env_vars st"
proof
  show "take_mem w st = (True, st\<lparr>env_htab := (env_htab st)\<lparr>allocs := allocs (env_htab st) + 1\<rparr>\<rparr>)"
    using assms by (simp add: take_mem_def env_ok_def grants_def plenty_def)
qed (use assms in \<open>simp_all add: env_ok_def env_vars_def\<close>)

lemma env_lookup: "env_ok w n st \<Longrightarrow> hlookup w k (env_htab st) = Some (Done (env_vars st k))"
  using hlookup_room by (auto simp: env_ok_def env_vars_def)

text \<open>\<open>env_set\<close> on a name that is there takes no room, on a new one it takes one place.\<close>

lemma env_set_law:
  assumes "env_ok w n st" "env_vars st k = None \<Longrightarrow> n = Suc n'" "env_vars st k \<noteq> None \<Longrightarrow> n = n'" "var_name k" "v \<noteq> []"
  shows "\<exists>st1. env_set w (Some k) (Some v) st = Some (Done (0, st1)) \<and> env_ok w n' st1 \<and> env_vars st1 = (env_vars st)(k \<mapsto> v)"
proof -
  let ?st = "st\<lparr>env_id := env_id st + 1\<rparr>"
  have "env_ok w n ?st" using assms(1) by (simp add: env_ok_def)
  then obtain st2 where st2: "take_mem w ?st = (True, st2)" "env_ok w n st2" "env_vars st2 = env_vars ?st" by (rule take_mem_ok)
  have vs: "env_vars ?st = env_vars st" by (simp add: env_vars_def)
  have g: "grants w" "hash_room n (env_htab st2)" using st2(2) by (simp_all add: env_ok_def)
  obtain r h1 where "hput w H_PROGRAMMATIC k v (env_htab st2) = Some (Done (r, h1))" "0 < r" "hash_room n' h1"
      "hash_vars h1 = (hash_vars (env_htab st2))(k \<mapsto> v)"
    using hput_room [of n' "env_htab st2" w H_PROGRAMMATIC k v] hput_present [of n "env_htab st2" w k H_PROGRAMMATIC v] assms(2,3) g st2(3) vs
    by (cases "env_vars st k") (auto simp: env_vars_def)
  moreover from this(1,2) obtain ret ep where "hsearch_r w k (Some v) ENTER H_PROGRAMMATIC (env_htab st2) = Some (Done (ret, ep, h1))" "ret \<noteq> 0"
    by (cases "hsearch_r w k (Some v) ENTER H_PROGRAMMATIC (env_htab st2)") (auto simp: hput_def bind_outcome_Done_iff)
  moreover have "ep \<noteq> None" using hsearch_ep calculation(5,6) by blast
  moreover have "set_opts [Some (ascii ''setenv''), Some k, Some v, None] 3 H_PROGRAMMATIC =
      Done (Some ([Some (ascii ''setenv''), Some k, Some v, None], 3, H_PROGRAMMATIC))"
    using assms(4) by (simp add: var_name_def)
  ultimately have "env_set w (Some k) (Some v) st = Some (Done (0, st2\<lparr>env_htab := h1\<rparr>))"
    using assms(1,4,5) st2(1) by (simp add: env_set_def do_env_set_flags_def env_ok_def var_name_def Let_def)
  moreover have "env_ok w n' (st2\<lparr>env_htab := h1\<rparr>)" "env_vars (st2\<lparr>env_htab := h1\<rparr>) = (env_vars st)(k \<mapsto> v)"
    using st2 vs \<open>hash_room n' h1\<close> \<open>hash_vars h1 = (hash_vars (env_htab st2))(k \<mapsto> v)\<close> by (simp_all add: env_ok_def env_vars_def)
  ultimately show ?thesis by blast
qed

section \<open>Editing one item\<close>

lemma exist_pos_absent:
  assumes "token_ok sp v" "list_all (token_ok sp) cur" "v \<notin> set cur"
  shows "exist_pos (join sp cur) v = None"
proof -
  have ts: "tokens sp (join sp cur) = cur" using tokens_join [OF assms(2)] .
  have tv: "tokens sp v = [v]" "tokens sp (v @ sp # r) = v # tokens sp r" for r
    using tokens_Cons [OF assms(1), of "[]"] tokens_Cons [OF assms(1), of "sp # r"] by simp_all
  have mid: "find_str (join sp cur) ([sp] @ v @ [sp]) = None"
  proof (rule ccontr)
    assume "find_str (join sp cur) ([sp] @ v @ [sp]) \<noteq> None"
    then have "occurs ([sp] @ v @ [sp]) (join sp cur)" by (simp add: occurs_def)
    then obtain u r where "join sp cur = u @ sp # v @ sp # r" by (auto simp: occurs_sublist)
    then have "cur = tokens sp u @ v # tokens sp r" using ts tokens_append [of sp u "v @ sp # r"] tv by simp
    then show False using assms(3) by simp
  qed
  have last: "p + length v + 1 \<noteq> length (join sp cur)" if g: "find_str (join sp cur) ([sp] @ v) = Some p" for p
  proof
    assume l: "p + length v + 1 = length (join sp cur)"
    obtain u r where u: "join sp cur = u @ sp # v @ r" "length u = p" using find_str_split [OF g] by auto
    then have "r = []" using l by simp
    then have "cur = tokens sp u @ [v]" using ts u tokens_append [of sp u v] tv by simp
    then show False using assms(3) by simp
  qed
  have first: "p + q \<noteq> length v" if f: "find_str (join sp cur) (v @ [sp]) = Some p" "find_str (drop p (join sp cur)) [sp] = Some q" for p q
  proof
    assume l: "p + q = length v"
    obtain u r where u: "join sp cur = u @ v @ sp # r" "length u = p" using find_str_split [OF f(1)] by auto
    have "find_str (v @ sp # r) [sp] = Some (length v)" using find_str_single assms(1) by (simp add: token_ok_def)
    then have "q = length v" using f(2) u by simp
    then have "u = []" using l u(2) by simp
    then have "cur = v # tokens sp r" using ts u(1) tv by simp
    then show False using assms(3) by simp
  qed
  show ?thesis
    unfolding exist_pos_def mid Let_def using first last by (auto split: option.splits)
qed

lemma env_append_new:
  assumes "env_ok w n st" "env_vars st k = Some (join sp cur)" "var_name k" "token_ok sp v" "list_all (token_ok sp) cur" "cur \<noteq> []" "v \<notin> set cur"
  shows "\<exists>st1. env_append w k v st = Some (Done (0, st1)) \<and> env_ok w n st1 \<and> env_vars st1 = (env_vars st)(k \<mapsto> join sp (cur @ [v]))"
proof -
  from assms(1) obtain st1 where st1: "take_mem w st = (True, st1)" "env_ok w n st1" "env_vars st1 = env_vars st" by (rule take_mem_ok)
  have e: "env_exist w k v st = Some (Done (None, st1))"
    using assms(1,2) st1 env_lookup [OF st1(2), of k] exist_pos_absent [OF assms(4,5,7)] by (simp add: env_exist_def env_ok_def)
  from st1(2) obtain st2 where st2: "take_mem w st1 = (True, st2)" "env_ok w n st2" "env_vars st2 = env_vars st1" by (rule take_mem_ok)
  have "join sp cur @ sp # v \<noteq> []" by simp
  then obtain st3 where "env_set w (Some k) (Some (join sp cur @ sp # v)) st2 = Some (Done (0, st3))" "env_ok w n st3"
      "env_vars st3 = (env_vars st2)(k \<mapsto> join sp cur @ sp # v)"
    using env_set_law [OF st2(2), of k n "join sp cur @ sp # v"] st2(3) st1(3) assms(2,3) by auto
  then show ?thesis
    using assms(1,2) e st1 st2 env_lookup [OF st1(2), of k] join_snoc [OF assms(6), of sp v] by (simp add: env_append_def env_ok_def)
qed

lemma env_replace_token:
  assumes "env_ok w n st" "env_vars st k = Some (join sp (xs @ a # ys))" "var_name k" "token_ok sp a" "token_ok sp v" "\<forall>x\<in>set xs. \<not> occurs a x"
  shows "\<exists>st1. env_replace w k a v st = Some (Done (0, st1)) \<and> env_ok w n st1 \<and> env_vars st1 = (env_vars st)(k \<mapsto> join sp (xs @ v # ys))"
proof -
  let ?o = "join sp (xs @ a # ys)"
  obtain p where p: "find_str ?o a = Some p" "take p ?o @ v @ drop (p + length a) ?o = join sp (xs @ v # ys)"
    using replace_token [OF assms(4,6)] by blast
  from assms(1) obtain st1 where st1: "take_mem w st = (True, st1)" "env_ok w n st1" "env_vars st1 = env_vars st" by (rule take_mem_ok)
  have "join sp (xs @ v # ys) \<noteq> []" using assms(5) by (simp add: join_mid token_ok_def)
  then obtain st2 where "env_set w (Some k) (Some (join sp (xs @ v # ys))) st1 = Some (Done (0, st2))" "env_ok w n st2"
      "env_vars st2 = (env_vars st1)(k \<mapsto> join sp (xs @ v # ys))"
    using env_set_law [OF st1(2), of k n "join sp (xs @ v # ys)"] st1(3) assms(2,3) by auto
  then show ?thesis using assms(1,2) p st1 env_lookup [OF assms(1), of k] by (simp add: env_replace_def env_ok_def)
qed

section \<open>Merging two lists of items\<close>

text \<open>An item of a command line: a word with a title and \<open>=\<close>.\<close>

definition item_ok :: "bytes \<Rightarrow> bool" where
  "item_ok i \<longleftrightarrow> token_ok sp i \<and> 0 \<notin> set i \<and> has_eq i \<and> title i \<noteq> None"

lemma tokens_hd_subset: "tokens d s = t # ts \<Longrightarrow> set t \<subseteq> set s"
proof -
  assume "tokens d s = t # ts"
  then have "t = takeWhile (\<lambda>c. c \<noteq> d) (dropWhile (\<lambda>c. c = d) s)" by (subst (asm) tokens.simps) (auto split: list.splits)
  then show ?thesis by (auto dest: set_takeWhileD set_dropWhileD)
qed

lemma title_no_nul: "0 \<notin> set s \<Longrightarrow> title s = Some t \<Longrightarrow> 0 \<notin> set t"
  using tokens_hd_subset [of eq_sign s t] by (auto simp: title_def split: list.splits)

lemma find_title_ok:
  assumes "list_all item_ok as" "0 \<notin> set tv"
  shows "env_ok w n st \<Longrightarrow> \<exists>st1. find_title w (Some tv) as st = Some (Done (Inl (find (\<lambda>a. title a = Some tv) as), st1)) \<and>
     env_ok w n st1 \<and> env_vars st1 = env_vars st"
  using assms(1)
proof (induction as arbitrary: st)
  case (Cons a as)
  from Cons.prems(1) obtain st1 where st1: "take_mem w st = (True, st1)" "env_ok w n st1" "env_vars st1 = env_vars st" by (rule take_mem_ok)
  obtain ta where ta: "title a = Some ta" "0 \<notin> set ta" using Cons.prems(2) title_no_nul [of a] by (auto simp: item_ok_def)
  show ?case
  proof (cases "ta = tv")
    case True
    with st1 ta assms(2) show ?thesis by simp
  next
    case False
    then have "cmp_str ta tv \<noteq> 0" using ta(2) assms(2) by simp
    with st1 ta Cons.IH [OF st1(2)] Cons.prems(2) False show ?thesis by simp
  qed
qed auto

definition kept :: "bytes option \<Rightarrow> bytes \<Rightarrow> bool" where
  "kept ignore v \<longleftrightarrow> \<not> (ignore \<noteq> None \<and> find_str v (the ignore) \<noteq> None)"

definition subst_item :: "bytes list \<Rightarrow> bytes \<Rightarrow> bytes" where
  "subst_item vs a = (if has_eq a then (case find (\<lambda>v. title v = title a) vs of None \<Rightarrow> a | Some v \<Rightarrow> v) else a)"

text \<open>The words of \<open>base\<close> with the items of \<open>vs\<close>: an item with the title of a new one is replaced in its place, the other new ones follow.\<close>

definition merged :: "bytes list \<Rightarrow> bytes list \<Rightarrow> bytes list" where
  "merged base vs = map (subst_item vs) base @ filter (\<lambda>v. title v \<notin> title ` set (filter has_eq base)) vs"

definition word_ok :: "bytes \<Rightarrow> bool" where
  "word_ok i \<longleftrightarrow> token_ok sp i \<and> (has_eq i \<longrightarrow> item_ok i)"

text \<open>The titles are unique, and no item of \<open>base\<close> is part of another word.\<close>

definition mergeable :: "bytes list \<Rightarrow> bytes list \<Rightarrow> bool" where
  "mergeable base vs \<longleftrightarrow> base \<noteq> [] \<and> list_all word_ok base \<and> list_all item_ok vs \<and> distinct (map title (filter has_eq base)) \<and> distinct (map title vs) \<and>
     (\<forall>x\<in>set (filter has_eq base). \<forall>y\<in>set (base @ vs). occurs x y \<longrightarrow> x = y)"

lemma find_snoc: "find P (xs @ [v]) = (case find P xs of None \<Rightarrow> if P v then Some v else None | Some x \<Rightarrow> Some x)"
  by (induction xs) simp_all

lemma find_title_none: "t \<notin> title ` set vs \<Longrightarrow> find (\<lambda>v. title v = t) vs = None"
  unfolding find_None_iff by (metis imageI)

lemma subst_item_none: "title a \<notin> title ` set vs \<Longrightarrow> subst_item vs a = a"
  by (simp add: subst_item_def find_title_none)

lemma subst_item_cases: "subst_item vs a = a \<or> has_eq a \<and> subst_item vs a \<in> set vs \<and> title (subst_item vs a) = title a"
  by (auto simp: subst_item_def find_Some_iff split: option.splits)

lemma subst_item_title: "title (subst_item vs a) = title a"
  using subst_item_cases [of vs a] by auto

lemma subst_item_snoc:
  "\<not> has_eq a \<or> title a \<noteq> title v \<Longrightarrow> subst_item (vs @ [v]) a = subst_item vs a"
  "has_eq a \<Longrightarrow> title a = title v \<Longrightarrow> title a \<notin> title ` set vs \<Longrightarrow> subst_item (vs @ [v]) a = v"
  by (auto simp: subst_item_def find_snoc find_title_none split: option.splits)

lemma subst_item_map: "title v \<notin> title ` set (filter has_eq xs) \<Longrightarrow> map (subst_item (vs @ [v])) xs = map (subst_item vs) xs"
proof (rule map_cong [OF refl])
  fix x assume v: "title v \<notin> title ` set (filter has_eq xs)" "x \<in> set xs"
  have "title x \<noteq> title v" if "has_eq x"
  proof
    assume "title x = title v"
    moreover have "title x \<in> title ` set (filter has_eq xs)" using that v(2) by simp
    ultimately show False using v(1) by simp
  qed
  then show "subst_item (vs @ [v]) x = subst_item vs x" by (intro subst_item_snoc(1)) blast
qed

lemma merged_Nil: "merged base [] = base"
proof -
  have "subst_item [] = id" by (auto simp: subst_item_def)
  then show ?thesis by (simp add: merged_def)
qed

lemma merged_items:
  assumes "y \<in> set (merged base vs)"
  shows "y \<in> set base \<or> y \<in> set vs"
proof -
  consider x where "x \<in> set base" "y = subst_item vs x" | "y \<in> set vs" using assms by (auto simp: merged_def)
  then show ?thesis using subst_item_cases by cases metis+
qed

lemma merged_append:
  assumes "title v \<notin> title ` set (filter has_eq base)"
  shows "merged base (vs @ [v]) = merged base vs @ [v]"
proof -
  have "map (subst_item (vs @ [v])) base = map (subst_item vs) base" using assms by (rule subst_item_map)
  then show ?thesis using assms by (simp add: merged_def)
qed

lemma merged_replace:
  assumes "base = X @ a # Y" "has_eq a" "distinct (map title (filter has_eq base))" "title a = title v" "title v \<notin> title ` set vs"
  defines "rest \<equiv> map (subst_item vs) Y @ filter (\<lambda>v. title v \<notin> title ` set (filter has_eq base)) vs"
  shows "merged base vs = map (subst_item vs) X @ a # rest" "merged base (vs @ [v]) = map (subst_item vs) X @ v # rest"
proof -
  have "subst_item vs a = a" "subst_item (vs @ [v]) a = v" using assms(2,4,5) subst_item_none subst_item_snoc(2) by simp_all
  moreover have "title v \<notin> title ` set (filter has_eq X)" "title v \<notin> title ` set (filter has_eq Y)" using assms(1-4) by auto
  then have "map (subst_item (vs @ [v])) X = map (subst_item vs) X" "map (subst_item (vs @ [v])) Y = map (subst_item vs) Y"
    by (blast intro: subst_item_map)+
  moreover have "title v \<in> title ` set (filter has_eq base)" using assms(1,2,4) by auto
  ultimately show "merged base vs = map (subst_item vs) X @ a # rest" "merged base (vs @ [v]) = map (subst_item vs) X @ v # rest"
    by (simp_all add: merged_def assms(1) rest_def)
qed

lemma merge_step:
  assumes "mergeable base (vs1 @ v # vs2)" "env_ok w n st" "env_vars st k = Some (join sp (merged base vs1))" "var_name k" "title v = Some tv"
  shows "\<exists>st1. (case find (\<lambda>a. title a = Some tv) (filter has_eq base) of None \<Rightarrow> env_append w k v st | Some a \<Rightarrow> env_replace w k a v st) = Some (Done (0, st1)) \<and>
     env_ok w n st1 \<and> env_vars st1 = (env_vars st)(k \<mapsto> join sp (merged base (vs1 @ [v])))"
proof -
  have ok: "list_all word_ok base" "list_all item_ok vs1" "item_ok v" "base \<noteq> []"
    and dist: "distinct (map title (filter has_eq base))" "title v \<notin> title ` set vs1"
    and occ: "\<And>x y. x \<in> set (filter has_eq base) \<Longrightarrow> y \<in> set base \<union> set vs1 \<Longrightarrow> occurs x y \<Longrightarrow> x = y"
    using assms(1) by (auto simp: mergeable_def)
  have tok: "list_all (token_ok sp) (merged base vs1)" using ok merged_items [of _ base vs1] by (auto simp: list_all_iff item_ok_def word_ok_def)
  have he: "has_eq v" using ok(3) by (simp add: item_ok_def)
  show ?thesis
  proof (cases "find (\<lambda>a. title a = Some tv) (filter has_eq base)")
    case None
    then have new: "title v \<notin> title ` set (filter has_eq base)" using assms(5) by (auto simp: find_None_iff)
    have "v \<notin> set (merged base vs1)"
    proof
      assume "v \<in> set (merged base vs1)"
      then consider x where "x \<in> set base" "v = subst_item vs1 x" | "v \<in> set vs1" by (auto simp: merged_def)
      then show False
      proof cases
        case 1
        then have "has_eq x" using he subst_item_cases [of vs1 x] by auto
        then have "title x \<in> title ` set (filter has_eq base)" using 1(1) by simp
        then show False using new 1(2) subst_item_title by simp
      next
        case 2
        then show False using dist(2) by simp
      qed
    qed
    moreover have "merged base vs1 \<noteq> []" using ok(4) by (simp add: merged_def)
    ultimately show ?thesis
      using env_append_new [OF assms(2-4) _ tok, of v] ok(3) merged_append [OF new] None by (simp add: item_ok_def)
  next
    case (Some a)
    then have a: "a \<in> set base" "has_eq a" "title a = title v" using assms(5) by (auto simp: find_Some_iff dest: nth_mem)
    then obtain X Y where base: "base = X @ a # Y" by (meson split_list)
    note m = merged_replace [OF base a(2) dist(1) a(3) dist(2)]
    have "\<not> occurs a y" if y: "y \<in> set (map (subst_item vs1) X)" for y
    proof
      assume o: "occurs a y"
      obtain x where x: "x \<in> set X" "y = subst_item vs1 x" using y by auto
      have "y \<in> set base \<union> set vs1" using x base subst_item_cases [of vs1 x] by auto
      then have "y = a" using occ [OF _ _ o] a(1,2) by simp
      then have "title x = title a" "has_eq x" using x(2) a(2) subst_item_title [of vs1 x] subst_item_cases [of vs1 x] by auto
      then have "title a \<in> title ` set (filter has_eq X)" using x(1) by (metis (mono_tags) filter_set imageI mem_Collect_eq set_filter)
      then show False using base dist(1) a(2) by simp
    qed
    moreover have "token_ok sp a" "token_ok sp v" using ok(1,3) a(1) by (auto simp: list_all_iff item_ok_def word_ok_def)
    ultimately show ?thesis
      using env_replace_token [OF assms(2) _ assms(4), of "map (subst_item vs1) X" a] assms(3) m Some by simp
  qed
qed

lemma merge_items_ok:
  assumes "mergeable base (vs1 @ vs2)" "env_ok w n st" "env_vars st k = Some (join sp (merged base vs1))" "var_name k"
  shows "\<exists>st1. merge_items w k (filter has_eq base) vs2 st = Some (Done (0, st1)) \<and> env_ok w n st1 \<and>
     env_vars st1 = (env_vars st)(k \<mapsto> join sp (merged base (vs1 @ vs2)))"
  using assms
proof (induction vs2 arbitrary: vs1 st)
  case Nil
  then show ?case by (auto simp: fun_upd_idem)
next
  case (Cons v vs2)
  let ?as = "filter has_eq base"
  have v: "item_ok v" "list_all item_ok ?as" using Cons.prems(1) by (auto simp: mergeable_def list_all_iff word_ok_def)
  then obtain tv where tv: "title v = Some tv" "0 \<notin> set tv" using title_no_nul [of v] by (auto simp: item_ok_def)
  from Cons.prems(2) obtain st1 where st1: "take_mem w st = (True, st1)" "env_ok w n st1" "env_vars st1 = env_vars st" by (rule take_mem_ok)
  obtain st2 where st2: "find_title w (Some tv) ?as st1 = Some (Done (Inl (find (\<lambda>a. title a = Some tv) ?as), st2))" "env_ok w n st2" "env_vars st2 = env_vars st1"
    using find_title_ok [OF v(2) tv(2) st1(2)] by blast
  have "env_vars st2 k = Some (join sp (merged base vs1))" using st1(3) st2(3) Cons.prems(3) by simp
  from merge_step [OF Cons.prems(1) st2(2) this Cons.prems(4) tv(1)] obtain st3 where
    st3: "(case find (\<lambda>a. title a = Some tv) ?as of None \<Rightarrow> env_append w k v st2 | Some a \<Rightarrow> env_replace w k a v st2) = Some (Done (0, st3))"
      "env_ok w n st3" "env_vars st3 = (env_vars st2)(k \<mapsto> join sp (merged base (vs1 @ [v])))" by blast
  have "merge_items w k ?as (v # vs2) st = merge_items w k ?as vs2 st3"
    using st1(1) st2(1) st3(1) tv(1) by (simp split: option.splits)
  moreover have m: "mergeable base ((vs1 @ [v]) @ vs2)" using Cons.prems(1) by simp
  have "env_vars st3 k = Some (join sp (merged base (vs1 @ [v])))" using st3(3) by simp
  from Cons.IH [OF m st3(2) this Cons.prems(4)] obtain st4 where "merge_items w k ?as vs2 st3 = Some (Done (0, st4))" "env_ok w n st4"
      "env_vars st4 = (env_vars st3)(k \<mapsto> join sp (merged base ((vs1 @ [v]) @ vs2)))" by blast
  ultimately show ?case using st3(3) st2(3) st1(3) by (intro exI [of _ st4]) (simp del: merge_items.simps)
qed

text \<open>The first pass over the new line: the plain words are appended, the items collected.\<close>

lemma collect_items_ok:
  assumes "var_name k" "list_all (token_ok sp) (cur @ filter (kept ignore) vs)" "cur \<noteq> []"
    "distinct (filter (\<lambda>v. kept ignore v \<and> \<not> has_eq v) vs)" "set cur \<inter> set (filter (\<lambda>v. kept ignore v \<and> \<not> has_eq v) vs) = {}"
    "length items + length (filter (\<lambda>v. kept ignore v \<and> has_eq v) vs) < 50" "env_ok w n st" "env_vars st k = Some (join sp cur)"
  shows "\<exists>st1. collect_items w k ignore vs items st = Some (Done (items @ filter (\<lambda>v. kept ignore v \<and> has_eq v) vs, st1)) \<and> env_ok w n st1 \<and>
     env_vars st1 = (env_vars st)(k \<mapsto> join sp (cur @ filter (\<lambda>v. kept ignore v \<and> \<not> has_eq v) vs))"
  using assms(2-8)
proof (induction vs arbitrary: items cur st)
  case Nil
  then show ?case by (auto simp: fun_upd_idem)
next
  case (Cons v vs)
  have l: "\<not> ARGS_ITEM_NUM \<le> length items" using Cons.prems(5) by (simp add: ARGS_ITEM_NUM_def)
  consider (ignored) "\<not> kept ignore v" | (item) "kept ignore v" "has_eq v" | (plain) "kept ignore v" "\<not> has_eq v" by blast
  then show ?case
  proof cases
    case ignored
    then have "collect_items w k ignore (v # vs) items st = collect_items w k ignore vs items st" using l by (simp add: kept_def)
    moreover have "\<exists>st1. collect_items w k ignore vs items st = Some (Done (items @ filter (\<lambda>v. kept ignore v \<and> has_eq v) vs, st1)) \<and> env_ok w n st1 \<and>
     env_vars st1 = (env_vars st)(k \<mapsto> join sp (cur @ filter (\<lambda>v. kept ignore v \<and> \<not> has_eq v) vs))"
      using ignored Cons.prems by (intro Cons.IH) simp_all
    ultimately show ?thesis using ignored by (simp only: filter.simps if_False simp_thms)
  next
    case item
    then have "collect_items w k ignore (v # vs) items st = collect_items w k ignore vs (items @ [v]) st" using l by (auto simp: kept_def)
    moreover have "\<exists>st1. collect_items w k ignore vs (items @ [v]) st = Some (Done ((items @ [v]) @ filter (\<lambda>v. kept ignore v \<and> has_eq v) vs, st1)) \<and> env_ok w n st1 \<and>
     env_vars st1 = (env_vars st)(k \<mapsto> join sp (cur @ filter (\<lambda>v. kept ignore v \<and> \<not> has_eq v) vs))"
      using item Cons.prems by (intro Cons.IH) simp_all
    ultimately show ?thesis using item by (simp only: filter.simps if_True if_False simp_thms append_assoc append_Cons append_Nil)
  next
    case plain
    have "token_ok sp v" "v \<notin> set cur" "list_all (token_ok sp) cur" using plain Cons.prems by auto
    then obtain st1 where st1: "env_append w k v st = Some (Done (0, st1))" "env_ok w n st1" "env_vars st1 = (env_vars st)(k \<mapsto> join sp (cur @ [v]))"
      using env_append_new [OF Cons.prems(6,7) assms(1) _ _ Cons.prems(2)] by blast
    have "collect_items w k ignore (v # vs) items st = collect_items w k ignore vs items st1" using plain l st1(1) by (auto simp: kept_def)
    moreover have "\<exists>st2. collect_items w k ignore vs items st1 = Some (Done (items @ filter (\<lambda>v. kept ignore v \<and> has_eq v) vs, st2)) \<and> env_ok w n st2 \<and>
     env_vars st2 = (env_vars st1)(k \<mapsto> join sp ((cur @ [v]) @ filter (\<lambda>v. kept ignore v \<and> \<not> has_eq v) vs))"
      using plain Cons.prems st1 by (intro Cons.IH) auto
    ultimately show ?thesis using plain st1(3) by (simp only: filter.simps if_True if_False simp_thms append_assoc append_Cons append_Nil fun_upd_upd)
  qed
qed

lemma env_update_filter_merges:
  assumes "env_ok w n st" "var_name k" "env_vars st k = Some (join sp old)" "new = filter (kept ignore) (tokens sp varvalue)" "old \<noteq> []"
    and "mergeable (old @ filter (\<lambda>v. \<not> has_eq v) new) (filter has_eq new)" "distinct (filter (\<lambda>v. \<not> has_eq v) new)" "set old \<inter> set (filter (\<lambda>v. \<not> has_eq v) new) = {}"
    and "length (filter has_eq old) \<le> 50" "length (filter has_eq new) < 50"
  shows "\<exists>st1. env_update_filter w k varvalue ignore st = Some (Done (0, st1)) \<and> env_ok w n st1 \<and>
     env_vars st1 = (env_vars st)(k \<mapsto> join sp (merged (old @ filter (\<lambda>v. \<not> has_eq v) new) (filter has_eq new)))"
proof -
  let ?plain = "filter (\<lambda>v. \<not> has_eq v) new" and ?items = "filter has_eq new"
  have f: "?plain = filter (\<lambda>v. kept ignore v \<and> \<not> has_eq v) (tokens sp varvalue)" "?items = filter (\<lambda>v. kept ignore v \<and> has_eq v) (tokens sp varvalue)"
    by (simp_all add: assms(4) conj_commute)
  have ok: "list_all word_ok old" using assms(6) by (simp add: mergeable_def)
  then have tok: "list_all (token_ok sp) old" by (simp add: list_all_iff word_ok_def)
  have "list_all (token_ok sp) (filter (kept ignore) (tokens sp varvalue))" using tokens_ok [of sp varvalue] by (simp add: list_all_iff)
  then have tok2: "list_all (token_ok sp) (old @ filter (kept ignore) (tokens sp varvalue))" using tok by simp
  from assms(1) obtain st1 where st1: "take_mem w st = (True, st1)" "env_ok w n st1" "env_vars st1 = env_vars st" by (rule take_mem_ok)
  from st1(2) obtain st2 where st2: "take_mem w st1 = (True, st2)" "env_ok w n st2" "env_vars st2 = env_vars st1" by (rule take_mem_ok)
  have v2: "env_vars st2 k = Some (join sp old)" using st1(3) st2(3) assms(3) by simp
  obtain st3 where st3: "collect_items w k ignore (tokens sp varvalue) [] st2 = Some (Done (?items, st3))" "env_ok w n st3"
      "env_vars st3 = (env_vars st2)(k \<mapsto> join sp (old @ ?plain))"
    using collect_items_ok [OF assms(2) tok2 assms(5) _ _ _ st2(2) v2, of "[]"] assms(7,8,10) unfolding f by auto
  have a: "take ARGS_ITEM_NUM (filter has_eq (tokens sp (join sp old))) = filter has_eq (old @ ?plain)"
    using assms(9) tokens_join [OF tok] by (simp add: ARGS_ITEM_NUM_def)
  have u: "env_update_filter w k varvalue ignore st = merge_items w k (filter has_eq (old @ ?plain)) ?items st3"
    using assms(1,3) st1(1) st2(1) st3(1) env_lookup [OF assms(1), of k] unfolding a [symmetric] by (simp add: env_update_filter_def env_ok_def)
  have "env_vars st3 k = Some (join sp (merged (old @ ?plain) []))" using st3(3) by (simp add: merged_Nil)
  from merge_items_ok [of "old @ ?plain" "[]", simplified, OF assms(6) st3(2) this assms(2)] st3(3) st2(3) st1(3)
  show ?thesis unfolding u by auto
qed

section \<open>Properties\<close>

text \<open>C36: \<open>env_update_filter\<close> merges a command line into a variable that holds one.  Words of the new line with the string to ignore are left
  out; every item \<open>title=value\<close> whose title is also in the new line is replaced in its place; the new plain words and then the other new
  items follow at the end; no other variable changes.  Each title occurs once on either side, the new plain words are new, no old item is part
  of another word, and there are at most 50 old and fewer than 50 new items.\<close>

theorem env_update_merges:
  assumes "env_ok w n st" "var_name k" "env_vars st k = Some (join sp old)" "new = filter (kept ignore) (tokens sp varvalue)" "old \<noteq> []"
    and "mergeable (old @ filter (\<lambda>v. \<not> has_eq v) new) (filter has_eq new)" "distinct (filter (\<lambda>v. \<not> has_eq v) new)" "set old \<inter> set (filter (\<lambda>v. \<not> has_eq v) new) = {}"
    and "length (filter has_eq old) \<le> 50" "length (filter has_eq new) < 50"
  shows "\<exists>st1. env_update_filter w k varvalue ignore st = Some (Done (0, st1)) \<and> env_ok w n st1 \<and>
     env_vars st1 = (env_vars st)(k \<mapsto> join sp (merged (old @ filter (\<lambda>v. \<not> has_eq v) new) (filter has_eq new)))"
  using assms by (rule env_update_filter_merges)

text \<open>An environment with one variable.\<close>

lemma one_variable:
  obtains st where "env_ok open_world 4 st" "env_vars st = [k \<mapsto> v]"
proof -
  have e: "hash_vars empty_five = Map.empty" using hash_vars_ok [OF empty_five_ok(1)] empty_five_map by simp
  have "hash_room (Suc 4) empty_five" using empty_five_ok by (auto simp: hash_room_def intro!: exI [of _ "replicate 6 zero_slot"])
  then obtain h where "hash_room 4 h" "hash_vars h = [k \<mapsto> v]" using hput_room [OF _ open_world_grants, of 4 empty_five 0 k v] e by auto
  then show thesis using that [of "\<lparr>env_htab = h, env_id = 1, env_ready = True, env_chars = []\<rparr>"] open_world_grants by (simp add: env_ok_def env_vars_def)
qed

theorem env_update_merges_witness:
  "\<exists>st st1. env_vars st = [ascii ''bootargs'' \<mapsto> ascii ''a=1 ro b=2''] \<and>
     env_update_filter open_world (ascii ''bootargs'') (ascii ''b=3 initrd=x quiet c=4'') (Some (ascii ''initrd='')) st = Some (Done (0, st1)) \<and>
     env_vars st1 (ascii ''bootargs'') = Some (ascii ''a=1 ro b=3 quiet c=4'')"
proof -
  let ?old = "[ascii ''a=1'', ascii ''ro'', ascii ''b=2'']" and ?new = "[ascii ''b=3'', ascii ''quiet'', ascii ''c=4'']" and ?k = "ascii ''bootargs''"
  let ?ig = "Some (ascii ''initrd='')" and ?v = "ascii ''b=3 initrd=x quiet c=4''"
  have f: "filter (\<lambda>v. \<not> has_eq v) ?new = [ascii ''quiet'']" "filter has_eq ?new = [ascii ''b=3'', ascii ''c=4'']" by code_simp+
  have j: "join sp ?old = ascii ''a=1 ro b=2''" "join sp (merged (?old @ [ascii ''quiet'']) [ascii ''b=3'', ascii ''c=4'']) = ascii ''a=1 ro b=3 quiet c=4''" by code_simp+
  have n: "?new = filter (kept ?ig) (tokens sp ?v)" by code_simp
  have m: "mergeable (?old @ [ascii ''quiet'']) [ascii ''b=3'', ascii ''c=4'']" by code_simp
  have k: "var_name ?k" by code_simp
  have d: "set ?old \<inter> set [ascii ''quiet''] = {}" by code_simp
  have len: "length (filter has_eq ?old) \<le> 50" by code_simp
  obtain st where st: "env_ok open_world 4 st" "env_vars st = [?k \<mapsto> ascii ''a=1 ro b=2'']" by (rule one_variable)
  then have "env_vars st ?k = Some (join sp ?old)" using j(1) by simp
  from env_update_merges [OF st(1) k this n, unfolded f, OF _ m _ d len]
  obtain st1 where "env_update_filter open_world ?k ?v ?ig st = Some (Done (0, st1))"
      "env_vars st1 = (env_vars st)(?k \<mapsto> join sp (merged (?old @ [ascii ''quiet'']) [ascii ''b=3'', ascii ''c=4'']))" by auto
  with st(2) j(2) show ?thesis by (intro exI [of _ st] exI [of _ st1]) simp
qed

section \<open>Deleting an item\<close>

lemma set_value_ok:
  assumes "env_ok w n st" "env_vars st k \<noteq> None"
  shows "\<exists>st1. set_value w k v st = Some (Done st1) \<and> env_ok w n st1 \<and> env_vars st1 = (env_vars st)(k \<mapsto> v)"
proof -
  let ?h = "env_htab st"
  obtain t where t: "hash_ok ?h t" "n \<le> empties (hsize ?h) t" using assms(1) by (auto simp: env_ok_def hash_room_def)
  obtain i where i: "i \<in> {1..hsize ?h}" "live (t ! i) k" "hsearch_r w k None FIND 0 ?h = Some (Done (i, Some i, ?h))"
    using hfind_outcome [OF t(1), of w k None 0] assms(2) hash_vars_ok [OF t(1)] by (auto simp: env_vars_def split: option.splits)
  let ?s = "(t ! i)\<lparr>entry := (entry (t ! i))\<lparr>hdata := Some v\<rparr>\<rparr>"
  let ?h1 = "set_slot i ?s ?h"
  have r: "set_value w k v st = Some (Done (st\<lparr>env_htab := ?h1\<rparr>))" using i slot_at_ok [OF t(1), of i] by (simp add: set_value_def)
  have h: "?h1 = set_slot i ?s (?h\<lparr>allocs := allocs ?h\<rparr>)" by simp
  obtain t1 where t1: "hash_ok ?h1 t1" "table_map t1 = (table_map t)(k \<mapsto> v)" using overwrite_slot [OF t(1) i(1,2) h] by (auto simp: leaves_def)
  have h1: "htable ?h1 = Some (t[i := ?s])" "hsize ?h1 = hsize ?h" using hash_ok_dests(1) [OF t(1)] by (simp_all add: set_slot_def)
  have "t1 = t[i := ?s]" using hash_ok_dests(1) [OF t1(1)] h1(1) by simp
  then have "empties (hsize ?h) t1 = empties (hsize ?h) t"
    using i(2) by (simp, intro empties_update(2) [OF hash_ok_dests(2) [OF t(1)] i(1)]) (auto simp: live_def)
  then have "hash_room n ?h1" using t(2) t1(1) h1(2) by (auto simp: hash_room_def)
  with r t1 hash_vars_ok [OF t1(1)] hash_vars_ok [OF t(1)] assms(1) show ?thesis by (simp add: env_ok_def env_vars_def)
qed

section \<open>Corner cases of the code\<close>

text \<open>\<open>env_exist\<close> does not find an item that is the whole value, nor the last one when an item before it begins with it: \<open>env_append\<close> then adds
  it again.\<close>

lemma sole_item_missed: "exist_pos (ascii ''quiet'') (ascii ''quiet'') = None"
  by code_simp

lemma last_item_missed: "exist_pos (ascii ''x ro2 ro'') (ascii ''ro'') = None"
  by code_simp

text \<open>\<open>env_replace\<close> looks for the text of the item, not for the item: a longer item before it is changed in its place.\<close>

lemma longer_item_replaced:
  assumes "env_ok w n st" "env_vars st k = Some (ascii ''xa=1 a=1'')" "var_name k"
  shows "\<exists>st1. env_replace w k (ascii ''a=1'') (ascii ''a=2'') st = Some (Done (0, st1)) \<and> env_vars st1 k = Some (ascii ''xa=2 a=1'')"
proof -
  from assms(1) obtain st1 where st1: "take_mem w st = (True, st1)" "env_ok w n st1" "env_vars st1 = env_vars st" by (rule take_mem_ok)
  have f: "find_str (ascii ''xa=1 a=1'') (ascii ''a=1'') = Some 1"
    "take 1 (ascii ''xa=1 a=1'') @ ascii ''a=2'' @ drop (1 + length (ascii ''a=1'')) (ascii ''xa=1 a=1'') = ascii ''xa=2 a=1''" by code_simp+
  have "ascii ''xa=2 a=1'' \<noteq> []" by code_simp
  then obtain st2 where "env_set w (Some k) (Some (ascii ''xa=2 a=1'')) st1 = Some (Done (0, st2))" "env_vars st2 = (env_vars st1)(k \<mapsto> ascii ''xa=2 a=1'')"
    using env_set_law [OF st1(2), of k n "ascii ''xa=2 a=1''"] st1(3) assms(2,3) by auto
  with assms(1,2) st1(1) f env_lookup [OF assms(1), of k] show ?thesis by (simp add: env_replace_def env_ok_def)
qed

text \<open>Deleting the only item writes in front of the value.\<close>

lemma delete_only_item_faults:
  assumes "env_ok w n st" "env_vars st k = Some v" "sp \<notin> set v" "v \<noteq> []"
  shows "env_delete w k v False st = Some Fault"
proof -
  have "find_str v v = Some 0" using assms(4) by (cases v) simp_all
  moreover have "find_str v [sp] = None" using assms(3) by (auto simp: find_str_none occurs_at_char in_set_conv_nth)
  ultimately show ?thesis using assms(1,2) env_lookup [OF assms(1), of k] by (simp add: env_delete_def env_ok_def)
qed

text \<open>When every item goes to the same copy, \<open>env_update_extract_subset\<close> writes one byte behind it.\<close>

lemma extract_subset_overruns:
  assumes "env_ok w n st" "env_vars st k = Some (join sp ts)" "list_all (token_ok sp) ts" "ts \<noteq> []" "\<forall>t\<in>set ts. \<not> occurs key t"
  shows "env_update_extract_subset w k sub key st = Some Fault"
proof -
  from assms(1) obtain st1 where st1: "take_mem w st = (True, st1)" "env_ok w n st1" by (rule take_mem_ok)
  from st1(2) obtain st2 where st2: "take_mem w st1 = (True, st2)" "env_ok w n st2" by (rule take_mem_ok)
  from st2(2) obtain st3 where st3: "take_mem w st2 = (True, st3)" by (rule take_mem_ok)
  have f: "filter (\<lambda>i. find_str i key = None) ts = ts" using assms(5) by (auto simp: filter_id_conv occurs_def)
  have "length (join sp ts) < length (concat (map (\<lambda>i. i @ [sp]) ts))"
    using assms(4) by (induction sp ts rule: join.induct) simp_all
  then show ?thesis
    using assms(1,2) env_lookup [OF assms(1), of k] st1(1) st2(1) st3 tokens_join [OF assms(3)] f
    by (simp add: env_update_extract_subset_def env_get_def env_ok_def Let_def)
qed

text \<open>\<open>setenv -f\<close> without a name reads through a NULL pointer.\<close>

lemma setenv_force_faults: "do_env_set w [ascii ''setenv'', ascii ''-f''] st = Some Fault"
  by (simp add: do_env_set_def do_env_set_flags_def ascii_def)

text \<open>When a stored entry has the name but no \<open>=\<close>, \<open>envmatch\<close> runs over the end of the name.\<close>

lemma envmatch_overruns:
  assumes "drop i env = name @ 0 # r" "0 \<notin> set name" "eq_sign \<notin> set name"
  shows "envmatch env (name @ [0]) i = Fault"
  using assms
proof (induction name arbitrary: i)
  case Nil
  then have "i < length env" by (cases "i < length env") simp_all
  moreover have "env ! i = 0" using Nil(1) calculation by (metis append_Nil nth_via_drop)
  ultimately show ?case by simp
next
  case (Cons c name)
  then have "i < length env" by (cases "i < length env") simp_all
  moreover have "env ! i = c" using Cons.prems(1) calculation by (metis append_Cons nth_via_drop)
  moreover have "drop (Suc i) env = name @ 0 # r" using Cons.prems(1) by (metis append_Cons drop_Suc list.sel(3) tl_drop)
  ultimately show ?case using Cons by simp
qed

end
