(* ===== verification/MemBlk.thy ===== *)
theory MemBlk
  imports CStrings Lmb
begin

text \<open>
  The kinds of memory blocks the boot code hands out (\<open>include/memblk.h\<close>, \<open>arch/arm/mach-rockchip/memblk.c\<close>): their numbers, the
  attributes of each kind, and the record of a block.  A name is a string or \<open>None\<close> for a null pointer; a string is the list of its
  bytes without the NUL.
\<close>

section \<open>Kinds of blocks\<close>

definition ALIAS_COUNT_MAX :: nat where "ALIAS_COUNT_MAX = 2"
definition MEM_RESV_COUNT :: nat where "MEM_RESV_COUNT = 10"

text \<open>\<open>enum memblk_id\<close>.\<close>

definition MEM_UNK :: nat where "MEM_UNK = 0"
definition MEM_ATF :: nat where "MEM_ATF = 1"
definition MEM_OPTEE :: nat where "MEM_OPTEE = 2"
definition MEM_SHM :: nat where "MEM_SHM = 3"
definition MEM_UBOOT :: nat where "MEM_UBOOT = 4"
definition MEM_STACK :: nat where "MEM_STACK = 5"
definition MEM_FASTBOOT :: nat where "MEM_FASTBOOT = 6"
definition MEM_RESOURCE :: nat where "MEM_RESOURCE = 7"
definition MEM_RAMDISK :: nat where "MEM_RAMDISK = 8"
definition MEM_FDT :: nat where "MEM_FDT = 9"
definition MEM_FDT_DTBO :: nat where "MEM_FDT_DTBO = 10"
definition MEM_KERNEL :: nat where "MEM_KERNEL = 11"
definition MEM_UNCOMP_KERNEL :: nat where "MEM_UNCOMP_KERNEL = 12"
definition MEM_ANDROID :: nat where "MEM_ANDROID = 13"
definition MEM_AVB_ANDROID :: nat where "MEM_AVB_ANDROID = 14"
definition MEM_FIT_USER :: nat where "MEM_FIT_USER = 15"
definition MEM_FIT :: nat where "MEM_FIT = 16"
definition MEM_UIMAGE_USER :: nat where "MEM_UIMAGE_USER = 17"
definition MEM_UIMAGE :: nat where "MEM_UIMAGE = 18"
definition MEM_SEARCH :: nat where "MEM_SEARCH = 19"
definition MEM_BY_NAME :: nat where "MEM_BY_NAME = 20"
definition MEM_KMEM_RESERVED :: nat where "MEM_KMEM_RESERVED = 21"
definition MEM_MAX :: nat where "MEM_MAX = 22"

lemmas mem_ids = MEM_UNK_def MEM_ATF_def MEM_OPTEE_def MEM_SHM_def MEM_UBOOT_def MEM_STACK_def MEM_FASTBOOT_def
  MEM_RESOURCE_def MEM_RAMDISK_def MEM_FDT_def MEM_FDT_DTBO_def MEM_KERNEL_def MEM_UNCOMP_KERNEL_def MEM_ANDROID_def
  MEM_AVB_ANDROID_def MEM_FIT_USER_def MEM_FIT_def MEM_UIMAGE_USER_def MEM_UIMAGE_def MEM_SEARCH_def MEM_BY_NAME_def
  MEM_KMEM_RESERVED_def MEM_MAX_def

definition F_NONE :: u32 where "F_NONE = 0"
definition F_OFC :: u32 where "F_OFC = 0x1"
definition F_HOFC :: u32 where "F_HOFC = 0x2"
definition F_CACHELINE_ALIGN :: u32 where "F_CACHELINE_ALIGN = 0x8"
definition F_KMEM_RESERVED :: u32 where "F_KMEM_RESERVED = 0x10"
definition F_KMEM_CAN_OVERLAP :: u32 where "F_KMEM_CAN_OVERLAP = 0x20"
definition F_IGNORE_INVISIBLE :: u32 where "F_IGNORE_INVISIBLE = 0x40"
definition F_HIGHEST_MEM :: u32 where "F_HIGHEST_MEM = 0x80"
definition F_NO_FAIL_DUMP :: u32 where "F_NO_FAIL_DUMP = 0x100"
definition F_FAIL_WARNING :: u32 where "F_FAIL_WARNING = 0x200"

lemmas mem_flags = F_NONE_def F_OFC_def F_HOFC_def F_CACHELINE_ALIGN_def F_KMEM_RESERVED_def F_KMEM_CAN_OVERLAP_def
  F_IGNORE_INVISIBLE_def F_HIGHEST_MEM_def F_NO_FAIL_DUMP_def F_FAIL_WARNING_def

record memblk_attr =
  aname :: "bytes option"
  aliases :: "bytes option list"
  aflags :: u32

record memblock =
  mbase :: u32
  msize :: u32
  mbase_u64 :: u64
  msize_u64 :: u64
  orig_base :: u32
  attr :: memblk_attr

definition has_flag :: "u32 \<Rightarrow> u32 \<Rightarrow> bool" where
  "has_flag fl f \<longleftrightarrow> fl AND f \<noteq> 0"

section \<open>The table of attributes\<close>

definition MEM_DEFINE :: "string \<Rightarrow> u32 \<Rightarrow> memblk_attr" where
  "MEM_DEFINE s fl = \<lparr>aname = Some (ascii s), aliases = [None, None], aflags = fl\<rparr>"

definition MEM_DEFINE_2 :: "string \<Rightarrow> u32 \<Rightarrow> string \<Rightarrow> string \<Rightarrow> memblk_attr" where
  "MEM_DEFINE_2 s fl a0 a1 = \<lparr>aname = Some (ascii s), aliases = [Some (ascii a0), Some (ascii a1)], aflags = fl\<rparr>"

text \<open>The entries the initialiser leaves out are zero.\<close>

definition zero_attr :: memblk_attr where
  "zero_attr = \<lparr>aname = None, aliases = [None, None], aflags = 0\<rparr>"

text \<open>The table in the order of the numbers; the build is not for the RK3308.\<close>

definition mem_attr :: "memblk_attr list" where
  "mem_attr = [
     zero_attr,
     MEM_DEFINE ''ATF'' F_NONE,
     MEM_DEFINE ''OPTEE'' F_NONE,
     MEM_DEFINE_2 ''SHM'' F_NONE ''ramoops'' ''minidump'',
     MEM_DEFINE ''UBOOT'' F_KMEM_CAN_OVERLAP,
     MEM_DEFINE ''STACK'' (F_HOFC OR F_KMEM_CAN_OVERLAP),
     MEM_DEFINE ''FASTBOOT'' F_KMEM_CAN_OVERLAP,
     MEM_DEFINE ''RESOURCE'' F_OFC,
     MEM_DEFINE_2 ''RAMDISK'' F_OFC ''boot'' ''recovery'',
     MEM_DEFINE ''FDT'' F_OFC,
     MEM_DEFINE ''FDT_DTBO'' F_OFC,
     MEM_DEFINE ''KERNEL'' F_OFC,
     MEM_DEFINE ''UNCOMP_KERNEL'' (F_IGNORE_INVISIBLE OR F_FAIL_WARNING),
     MEM_DEFINE ''ANDROID'' (F_HOFC OR F_OFC OR F_KMEM_CAN_OVERLAP),
     MEM_DEFINE ''AVB_ANDROID'' (F_OFC OR F_CACHELINE_ALIGN OR F_KMEM_CAN_OVERLAP OR F_HIGHEST_MEM),
     MEM_DEFINE ''FIT_USER'' (F_OFC OR F_KMEM_CAN_OVERLAP),
     MEM_DEFINE ''FIT'' (F_OFC OR F_CACHELINE_ALIGN OR F_KMEM_CAN_OVERLAP OR F_HIGHEST_MEM),
     MEM_DEFINE ''UIMAGE_USER'' (F_OFC OR F_KMEM_CAN_OVERLAP),
     MEM_DEFINE ''UIMAGE'' (F_OFC OR F_CACHELINE_ALIGN OR F_KMEM_CAN_OVERLAP OR F_HIGHEST_MEM),
     MEM_DEFINE ''SEARCH'' (F_OFC OR F_CACHELINE_ALIGN OR F_NO_FAIL_DUMP OR F_KMEM_CAN_OVERLAP OR F_HIGHEST_MEM),
     zero_attr,
     zero_attr]"

lemma length_mem_attr: "length mem_attr = MEM_MAX"
  by (simp add: mem_attr_def MEM_MAX_def)

text \<open>Every kind between \<open>MEM_UNK\<close> and \<open>MEM_BY_NAME\<close> has a name, and the names are distinct.\<close>

lemma mem_attr_names:
  "MEM_UNK < i \<Longrightarrow> i < MEM_BY_NAME \<Longrightarrow> \<exists>s. aname (mem_attr ! i) = Some s"
proof -
  have "list_all (\<lambda>a. \<exists>s. aname a = Some s) (take 19 (drop 1 mem_attr))"
    by (simp add: mem_attr_def MEM_DEFINE_def MEM_DEFINE_2_def)
  moreover assume "MEM_UNK < i" "i < MEM_BY_NAME"
  moreover have "length mem_attr = 22" by (simp add: mem_attr_def)
  ultimately show ?thesis
    by (auto simp: list_all_length mem_ids dest: spec [of _ "i - 1"])
qed

section \<open>Global data\<close>

text \<open>
  The fields of \<open>gd\<close> the memory managers read or write: whether U-Boot has relocated itself, its stack pointer, the top of the memory it
  uses, and the banks of \<open>gd->bd\<close>, \<open>None\<close> while that pointer is null.
\<close>

definition CONFIG_SYS_SDRAM_BASE :: u32 where "CONFIG_SYS_SDRAM_BASE = 0x60000000"
definition SDRAM_MAX_SIZE :: u32 where "SDRAM_MAX_SIZE = 0x80000000"
definition CONFIG_NR_DRAM_BANKS :: nat where "CONFIG_NR_DRAM_BANKS = 12"
definition CONFIG_SYS_STACK_SIZE :: u32 where "CONFIG_SYS_STACK_SIZE = 0x200000"
definition ARCH_DMA_MINALIGN :: u32 where "ARCH_DMA_MINALIGN = 64"

record bank =
  bstart :: u64
  bsize :: u64

record gdata =
  gd_reloc :: bool
  gd_sp :: u32
  gd_ram_top :: u64
  gd_ext_size :: u32
  gd_bd :: "bank list option"

definition bank_at :: "gdata \<Rightarrow> nat \<Rightarrow> bank outcome" where
  "bank_at G i = (case gd_bd G of Some bs \<Rightarrow> if i < length bs then Done (bs ! i) else Fault | None \<Rightarrow> Fault)"

section \<open>Overlapping ranges\<close>

text \<open>\<open>sysmem_is_overlap\<close> and \<open>bidram_is_overlap\<close>: the sums wrap.\<close>

definition is_overlap :: "u32 \<Rightarrow> u32 \<Rightarrow> u32 \<Rightarrow> u32 \<Rightarrow> bool" where
  "is_overlap base1 size1 base2 size2 \<longleftrightarrow> base1 < base2 + size2 \<and> base2 < base1 + size1"

text \<open>The addresses of a block.\<close>

definition mspan :: "memblock \<Rightarrow> nat set" where
  "mspan b = {unat (mbase b)..<unat (mbase b) + unat (msize b)}"

lemma is_overlap_iff:
  assumes "unat b1 + unat s1 < 2 ^ 32" "unat b2 + unat s2 < 2 ^ 32" "0 < s1" "0 < s2"
  shows "is_overlap b1 s1 b2 s2 \<longleftrightarrow> {unat b1..<unat b1 + unat s1} \<inter> {unat b2..<unat b2 + unat s2} \<noteq> {}"
proof -
  have "is_overlap b1 s1 b2 s2 \<longleftrightarrow> unat b1 < unat b2 + unat s2 \<and> unat b2 < unat b1 + unat s1"
    using assms(1,2) by (simp add: is_overlap_def word_less_nat_alt unat_word_ariths)
  also have "\<dots> \<longleftrightarrow> max (unat b1) (unat b2) \<in> {unat b1..<unat b1 + unat s1} \<inter> {unat b2..<unat b2 + unat s2}"
    using assms(3,4) by (auto simp: word_less_nat_alt)
  also have "\<dots> \<longleftrightarrow> {unat b1..<unat b1 + unat s1} \<inter> {unat b2..<unat b2 + unat s2} \<noteq> {}" by auto
  finally show ?thesis .
qed

end
