(* ===== verification/LmbPool.thy ===== *)
theory LmbPool
  imports Lmb
begin

text \<open>
  The tables of logical memory blocks as their clients use them: a pool from which ranges are taken and to which they are
  given back.  The interface \<open>address_pool\<close> states what a client relies on, and shows that
  a client that holds ranges keeps holding them, apart from each other, whatever else is taken or given back; it is interpreted on
  \<open>__lmb_alloc_base\<close> and \<open>lmb_free\<close>.
\<close>

section \<open>Ranges inside an entry\<close>

definition within :: "lmb_region \<Rightarrow> u32 \<times> u32 \<Rightarrow> bool" where
  "within rgn r \<longleftrightarrow> (\<exists>p\<in>set (blocks rgn). range_of r \<subseteq> span p)"

lemma within_covers: "within rgn r \<Longrightarrow> range_of r \<subseteq> covers rgn"
  by (auto simp: within_def covers_def)

lemma join_list_grows:
  assumes "lend p < 2 ^ 32" "tidy R" "\<forall>q\<in>set R. unat (lbase p) \<le> unat (lbase q)" "x \<in> set (p # R)"
  shows "\<exists>q\<in>set (snd (join_list p R)). span x \<subseteq> span q"
proof (cases R)
  case (Cons q R')
  then have q: "lend q < 2 ^ 32" "unat (lbase p) \<le> unat (lbase q)"
    using assms by (auto simp: tidy_Cons)
  show ?thesis
  proof (cases "lmb_addrs_adjacent (lbase p) (lsize p) (lbase q) (lsize q) = 0")
    case True
    with Cons assms(4) show ?thesis by (auto simp: join_list_def)
  next
    case False
    have "span (p\<lparr>lsize := lsize p + lsize q\<rparr>) = span p \<union> span q"
      using join_size [OF assms(1) q False] q by (auto simp: span_def lend_def)
    with False Cons assms(4) show ?thesis by (auto simp: join_list_def)
  qed
qed (use assms(4) in \<open>simp add: join_list_def\<close>)

text \<open>Adding a range leaves every other range inside an entry.\<close>

lemma add_list_grows:
  assumes "tidy ps" "unat base + unat sz < 2 ^ 32" "add_list base sz ps = (r, qs)" "x \<in> set ps" "0 < lsize x"
  shows "\<exists>q\<in>set qs. span x \<subseteq> span q"
  using assms(3)
proof (cases rule: add_list_cases)
  case new
  have "set ps \<subseteq> set (insert_sorted base sz ps)"
    by (auto simp: insert_sorted_def) (metis UnE set_append takeWhile_dropWhile_id)
  with new assms(4) show ?thesis by auto
next
  case (join A p R)
  then have p: "lend p < 2 ^ 32" "tidy R" "tidy (p # R)" using assms(1) by (auto simp: tidy_simps)
  note grow = join_list_grows [OF absorb_span(2) [OF join(2) assms(2) p(1)] p(2) absorb_le [OF join(2) assms(2) p(3)]]
  show ?thesis
  proof (cases "x = p")
    case True
    moreover have "span p \<subseteq> span (absorb base sz p)" using absorb_span(1) [OF join(2) assms(2) p(1)] by blast
    moreover obtain q where "q \<in> set (snd (join_list (absorb base sz p) R))" "span (absorb base sz p) \<subseteq> span q"
      using grow [of "absorb base sz p"] by auto
    ultimately show ?thesis using join(4) by (intro bexI [of _ q]) auto
  next
    case False
    then show ?thesis using grow [of x] join(1,4) assms(4) by auto
  qed
qed (use assms in \<open>auto\<close>)

lemma add_list_within:
  assumes "tidy ps" "unat base + unat sz < 2 ^ 32" "add_list base sz ps = (r, qs)" "0 \<le> r"
  shows "\<exists>q\<in>set qs. {unat base..<unat base + unat sz} \<subseteq> span q"
  using assms(3)
proof (cases rule: add_list_cases)
  case (empty q)
  then show ?thesis by (simp add: span_block)
next
  case (same p)
  then show ?thesis by (intro bexI [of _ p]) (auto simp: same_block_def span_def lend_def)
next
  case new
  then show ?thesis by (auto simp: insert_sorted_def span_block)
next
  case (join A p R)
  then have p: "lend p < 2 ^ 32" "tidy R" "tidy (p # R)" using assms(1) by (auto simp: tidy_simps)
  have "\<exists>q\<in>set (snd (join_list (absorb base sz p) R)). span (absorb base sz p) \<subseteq> span q"
    using join_list_grows [OF absorb_span(2) [OF join(2) assms(2) p(1)] p(2) absorb_le [OF join(2) assms(2) p(3)]] by simp
  with absorb_span(1) [OF join(2) assms(2) p(1)] join(4) show ?thesis by auto
qed (use assms(4) in simp)

lemma span_empty: "\<not> 0 < lsize x \<Longrightarrow> span x = {}"
  by (simp add: span_def lend_def word_gt_0)

lemma proper_nonempty: "proper r \<Longrightarrow> range_of r \<noteq> {}"
  by (simp add: proper_def range_of_def word_less_nat_alt)

lemma add_region_within:
  assumes "sound rgn" "unat base + unat sz < 2 ^ 32" "lmb_add_region rgn base sz = Done (res, g)"
  shows "0 \<le> res \<Longrightarrow> within g (base, sz)" "proper r \<Longrightarrow> within rgn r \<Longrightarrow> within g r"
proof -
  note s = sound_blocks [OF assms(1)]
  have g: "add_list base sz (blocks rgn) = (res, blocks g)"
    using add_region_refines [OF s(1) tidy_sorted [OF s(2)], of base sz] assms(3) by auto
  show "within g (base, sz)" if "0 \<le> res"
    using add_list_within [OF s(2) assms(2) g that] by (simp add: within_def range_of_def)
  show "within g r" if r: "proper r" "within rgn r"
  proof -
    obtain x where x: "x \<in> set (blocks rgn)" "range_of r \<subseteq> span x" using r(2) by (auto simp: within_def)
    then have "0 < lsize x" using span_empty proper_nonempty [OF r(1)] by blast
    from add_list_grows [OF s(2) assms(2) g x(1) this] x(2) show ?thesis by (auto simp: within_def)
  qed
qed

lemma add_region_cnt:
  assumes "sound rgn" "lmb_add_region rgn base sz = Done (res, g)"
  shows "shaped g" "unat (cnt g) \<le> Suc (unat (cnt rgn))" "res < 0 \<Longrightarrow> blocks g = blocks rgn"
proof -
  note s = sound_blocks [OF assms(1)]
  have g: "shaped g" "add_list base sz (blocks rgn) = (res, blocks g)"
    using add_region_refines [OF s(1) tidy_sorted [OF s(2)], of base sz] assms(2) by auto
  show "shaped g" by fact
  show "unat (cnt g) \<le> Suc (unat (cnt rgn))"
    using add_list_length [OF g(2)] length_blocks [OF g(1)] length_blocks [OF s(1)] by simp
  show "blocks g = blocks rgn" if "res < 0" using add_list_refused [OF g(2) that] by simp
qed

section \<open>Freeing a range inside an entry\<close>

lemma interval_side:
  assumes "range_of s \<subseteq> {lo..<hi}" "proper s" "range_of s \<inter> {b..<e} = {}" "b < e"
  shows "range_of s \<subseteq> {lo..<b} \<or> range_of s \<subseteq> {e..<hi}"
proof (cases "unat (fst s) < b")
  case True
  have "\<not> b < unat (fst s) + unat (snd s)"
  proof
    assume "b < unat (fst s) + unat (snd s)"
    with True assms(4) have "b \<in> range_of s \<inter> {b..<e}" by (simp add: range_of_def)
    with assms(3) show False by blast
  qed
  with assms(1) show ?thesis by (intro disjI1) (auto simp: range_of_def)
next
  case False
  have "unat (fst s) \<in> range_of s" using assms(2) by (simp add: proper_def range_of_def word_less_nat_alt)
  with False assms(3) have "e \<le> unat (fst s)" by fastforce
  with assms(1) show ?thesis by (intro disjI2) (auto simp: range_of_def)
qed

lemma shrink_solid:
  assumes "lend p < 2 ^ 32" "unat base + unat sz < 2 ^ 32" "unat (lbase p) \<le> unat base" "unat base + unat sz \<le> lend p"
    and "q \<in> set (shrink base sz p)"
  shows "0 < lsize q"
proof -
  have e: "unat (lbase p + lsize p) = lend p" "unat (base + sz) = unat base + unat sz"
    using unat_lend [OF assms(1)] unat_lend [of "block base sz"] assms(2) by simp_all
  have eqs: "lbase p = base \<longleftrightarrow> unat (lbase p) = unat base"
    "lbase p + lsize p = base + sz \<longleftrightarrow> lend p = unat base + unat sz"
    using e by (simp_all add: word_unat_eq_iff)
  have "unat sz \<le> unat (lsize p)" using assms(3,4) by (simp add: lend_def)
  then have sub: "unat (lsize p - sz) = unat (lsize p) - unat sz" "unat (base - lbase p) = unat base - unat (lbase p)"
    using assms(3) by (simp_all add: unat_sub word_le_nat_alt)
  show ?thesis
    using assms(3-5) by (auto simp: shrink_def eqs word_less_nat_alt sub lend_def split: if_splits)
qed

lemma shapedI:
  assumes "length (region g) = Suc MAX_LMB_REGIONS" "blocks g \<noteq> []" "length (blocks g) \<le> MAX_LMB_REGIONS"
  shows "shaped g"
proof -
  have "length (blocks g) = min (Suc MAX_LMB_REGIONS) (unat (cnt g))" using assms(1) by (simp add: blocks_def)
  moreover have "0 < length (blocks g)" using assms(2) by simp
  ultimately show ?thesis using assms by (simp add: shaped_def)
qed

lemma sound_solid:
  assumes "sound rgn" "proper r" "within rgn r"
  shows "solid (blocks rgn)"
proof (rule ccontr)
  assume n: "\<not> solid (blocks rgn)"
  with sound_blocks(3) [OF assms(1)] obtain q where q: "blocks rgn = [q]" by (auto simp: length_Suc_conv)
  with n have "span q = {}" by (simp add: solid_def span_empty)
  with q assms(3) proper_nonempty [OF assms(2)] show False by (simp add: within_def)
qed

text \<open>What is left of the entry keeps the list in order, and every range beside the hole inside an entry.\<close>

lemma shrink_keeps:
  assumes t: "tidy (A @ p # B)" and so: "solid (A @ p # B)" and r: "proper r"
    and ins: "unat (lbase p) \<le> unat (fst r)" "unat (fst r) + unat (snd r) \<le> lend p"
  defines "qs \<equiv> A @ shrink (fst r) (snd r) p @ B"
  shows "tidy qs" "solid qs" "length qs \<le> length (A @ p # B)"
    and "proper s \<Longrightarrow> range_of s \<inter> range_of r = {} \<Longrightarrow> x \<in> set (A @ p # B) \<Longrightarrow> range_of s \<subseteq> span x \<Longrightarrow>
      (\<exists>q\<in>set qs. range_of s \<subseteq> span q) \<or> (splits (fst r) (snd r) p \<and> range_of s \<subseteq> {unat (fst r) + unat (snd r)..<lend p})"
proof -
  have p: "lend p < 2 ^ 32" using t by (simp add: tidy_simps)
  have ns: "unat (fst r) + unat (snd r) < 2 ^ 32" "0 < unat (snd r)" using r by (auto simp: proper_def word_less_nat_alt)
  note sh = shrink_span [OF p ns(1) ins]
  have one: "shrink (fst r) (snd r) p = [] \<or> (\<exists>q. shrink (fst r) (snd r) p = [q])" by (auto simp: shrink_def)
  show "tidy qs" using one t sh(2) unfolding qs_def by (auto simp: tidy_simps above_def)
  show "solid qs" using so shrink_solid [OF p ns(1) ins] unfolding qs_def by (auto simp: solid_def)
  show "length qs \<le> length (A @ p # B)" using one unfolding qs_def by auto
  show "(\<exists>q\<in>set qs. range_of s \<subseteq> span q) \<or> (splits (fst r) (snd r) p \<and> range_of s \<subseteq> {unat (fst r) + unat (snd r)..<lend p})"
    if s: "proper s" "range_of s \<inter> range_of r = {}" "x \<in> set (A @ p # B)" "range_of s \<subseteq> span x"
  proof (cases "x = p")
    case True
    have rr: "range_of r = {unat (fst r)..<unat (fst r) + unat (snd r)}" by (simp add: range_of_def)
    have side: "range_of s \<subseteq> {unat (lbase p)..<unat (fst r)} \<or> range_of s \<subseteq> {unat (fst r) + unat (snd r)..<lend p}"
      using interval_side [of s "unat (lbase p)" "lend p" "unat (fst r)" "unat (fst r) + unat (snd r)"] s True ns(2)
      by (simp add: span_def rr)
    have sub: "range_of s \<subseteq> listed (shrink (fst r) (snd r) p)" if "\<not> (splits (fst r) (snd r) p \<and> range_of s \<subseteq> {unat (fst r) + unat (snd r)..<lend p})"
      using that s(2,4) True side ins unfolding sh(1) rr by (auto simp: span_def)
    show ?thesis
    proof (cases "splits (fst r) (snd r) p \<and> range_of s \<subseteq> {unat (fst r) + unat (snd r)..<lend p}")
      case False
      from sub [OF False] one proper_nonempty [OF s(1)] show ?thesis unfolding qs_def by auto
    qed simp
  qed (use s in \<open>auto simp: qs_def\<close>)
qed

text \<open>
  \<open>lmb_free\<close> of a range inside an entry of a table that is not full: it succeeds, the table stays in order
  unless it was its last range, and the ranges inside entries that do not meet the freed one stay so.
\<close>

lemma free_region_keeps:
  assumes so: "sound rgn" and r: "proper r" "within rgn r" and room: "unat (cnt rgn) < MAX_LMB_REGIONS"
    and other: "proper s0" "within rgn s0" "range_of s0 \<inter> range_of r = {}"
  shows "\<exists>res g. lmb_free_region rgn (fst r) (snd r) = Done (res, g) \<and> 0 \<le> res \<and> sound g \<and>
     covers g = covers rgn - range_of r \<and> unat (cnt g) \<le> Suc (unat (cnt rgn)) \<and>
     (\<forall>s. proper s \<and> within rgn s \<and> range_of s \<inter> range_of r = {} \<longrightarrow> within g s)"
proof -
  obtain base sz where br: "r = (base, sz)" by (cases r)
  note s = sound_blocks [OF so]
  have ns: "unat base + unat sz < 2 ^ 32" "0 < sz" "0 < unat sz"
    using r(1) by (auto simp: proper_def br word_less_nat_alt)
  have rr: "range_of r = {unat base..<unat base + unat sz}" by (simp add: range_of_def br)
  let ?in = "\<lambda>p. lbase p \<le> base \<and> base + sz \<le> lbase p + lsize p"
  have bound: "\<forall>p\<in>set (blocks rgn). lend p < 2 ^ 32" using s(2) by (simp add: tidy_def)
  have "\<exists>p\<in>set (blocks rgn). ?in p"
    using r(2) inside_span [OF _ ns(1,2)] bound by (auto simp: within_def rr)
  then obtain A p B where bl: "blocks rgn = A @ p # B" and p: "?in p" and A: "\<forall>a\<in>set A. \<not> ?in a"
    using split_list_first_prop [of "blocks rgn" ?in] by auto
  obtain g where g: "blocks g = A @ shrink base sz p @ B" "length (region g) = Suc MAX_LMB_REGIONS"
    "shrink base sz p \<noteq> [] \<longrightarrow> shaped g"
    "lmb_free_region rgn base sz =
       (if splits base sz p then lmb_add_region g (base + sz) (lbase p + lsize p - (base + sz)) else Done (0, g))"
    using free_region_split [OF s(1) bl A p] by blast
  have lp: "lend p < 2 ^ 32" using bl bound by simp
  have ins: "unat (lbase p) \<le> unat base" "unat base + unat sz \<le> lend p" using p inside_iff [OF lp ns(1)] by simp_all
  have t: "tidy (A @ p # B)" "solid (A @ p # B)" using s(2) sound_solid [OF so r] bl by simp_all
  note k = shrink_keeps [OF t r(1), unfolded br fst_conv snd_conv, OF ins]
  have keep: "(\<exists>q\<in>set (blocks g). range_of s \<subseteq> span q) \<or> (splits base sz p \<and> range_of s \<subseteq> {unat base + unat sz..<lend p})"
    if "proper s" "within rgn s" "range_of s \<inter> range_of r = {}" for s
    using k(4) [of s] that unfolding g(1) within_def bl br by blast
  have len: "length (blocks g) \<le> unat (cnt rgn)" using k(3) length_blocks [OF s(1)] unfolding g(1) bl by simp
  have bne: "blocks g \<noteq> []" using keep [OF other] g(1) shrink_span(3) [OF lp ns(1) ins] by fastforce
  have sg: "sound g"
    using shapedI [OF g(2) bne] len room k(1,2) unfolding g(1) [symmetric] by (intro soundI) auto
  have cg: "unat (cnt g) \<le> unat (cnt rgn)" using len length_blocks [OF sound_blocks(1) [OF sg]] by simp
  have cov: "covers g = covers rgn - {unat base..<(if splits base sz p then lend p else unat base + unat sz)}"
    unfolding covers_listed g(1) bl using ins ns(3)
    by (intro listed_replace [OF t(1)]) (auto simp: shrink_span(1) [OF lp ns(1) ins] span_def)
  show ?thesis
  proof (cases "splits base sz p")
    case False
    then have "\<forall>s. proper s \<and> within rgn s \<and> range_of s \<inter> range_of r = {} \<longrightarrow> within g s"
      using keep by (auto simp: within_def)
    with False g(4) sg cg cov rr show ?thesis by (intro exI [of _ 0] exI [of _ g]) (simp add: br)
  next
    case True
    let ?n = "(base + sz, lbase p + lsize p - (base + sz))"
    have e: "unat (base + sz) = unat base + unat sz" "unat (lbase p + lsize p) = lend p"
      using unat_lend [OF lp] unat_lend [of "block base sz"] ns by simp_all
    then have d: "unat (lbase p + lsize p - (base + sz)) = lend p - (unat base + unat sz)"
      using p by (simp add: unat_sub)
    have ne: "unat base + unat sz \<noteq> lend p" using True e by (auto simp: splits_def word_unat_eq_iff)
    have rn: "range_of ?n = {unat base + unat sz..<lend p}" using e d ins by (simp add: range_of_def)
    have pn: "proper ?n" using e d ins ne lp by (simp add: proper_def word_less_nat_alt)
    have dis: "range_of ?n \<inter> covers g = {}" using cov True by (auto simp: rn)
    have "unat (cnt g) < MAX_LMB_REGIONS" using cg room by simp
    from add_region_law [OF sg pn dis this] obtain res h where
      h: "lmb_add_region g (base + sz) (lbase p + lsize p - (base + sz)) = Done (res, h)" "0 \<le> res" "sound h"
        "covers h = covers g \<union> range_of ?n" "unat (cnt h) \<le> Suc (unat (cnt g))" by auto
    have nn: "unat (base + sz) + unat (lbase p + lsize p - (base + sz)) < 2 ^ 32" using pn by (simp add: proper_def)
    note w = add_region_within [OF sg nn h(1)]
    have "within h s" if q: "proper s" "within rgn s" "range_of s \<inter> range_of r = {}" for s
      using keep [OF q]
    proof
      assume "\<exists>q\<in>set (blocks g). range_of s \<subseteq> span q"
      then show ?thesis using w(2) [OF q(1)] by (simp add: within_def)
    next
      assume "splits base sz p \<and> range_of s \<subseteq> {unat base + unat sz..<lend p}"
      then show ?thesis using w(1) [OF h(2)] rn by (auto simp: within_def)
    qed
    moreover have "{unat base + unat sz..<lend p} \<subseteq> covers rgn"
      using ins unfolding covers_listed bl by (auto simp: span_def)
    then have "covers h = covers rgn - range_of r" using ins True unfolding h(4) cov rn rr by auto
    ultimately show ?thesis using h g(4) True cg by (intro exI [of _ res] exI [of _ h]) (simp add: br)
  qed
qed

section \<open>The pool and its clients\<close>

definition apart :: "(u32 \<times> u32) list \<Rightarrow> bool" where
  "apart rs \<longleftrightarrow> sorted_wrt (\<lambda>r s. range_of r \<inter> range_of s = {}) rs"

lemma apart_snoc: "apart (rs @ [r]) \<longleftrightarrow> apart rs \<and> (\<forall>s\<in>set rs. range_of s \<inter> range_of r = {})"
  by (auto simp: apart_def sorted_wrt_append)

lemma apart_remove:
  "apart (xs @ r # ys) \<Longrightarrow> apart (xs @ ys) \<and> (\<forall>s\<in>set (xs @ ys). range_of s \<inter> range_of r = {})"
  by (auto simp: apart_def sorted_wrt_append)

text \<open>
  \<open>takes p r q\<close>: the pool \<open>p\<close> hands out \<open>r\<close> and is \<open>q\<close> afterwards; \<open>returns p r q\<close>: \<open>r\<close> is given back.
  Something else must be held when a range is given back: an empty table is not a table any more.
\<close>

locale address_pool =
  fixes ok :: "'p \<Rightarrow> bool"
    and held :: "'p \<Rightarrow> u32 \<times> u32 \<Rightarrow> bool"
    and takes :: "'p \<Rightarrow> u32 \<times> u32 \<Rightarrow> 'p \<Rightarrow> bool"
    and returns :: "'p \<Rightarrow> u32 \<times> u32 \<Rightarrow> 'p \<Rightarrow> bool"
  assumes take_law: "ok p \<Longrightarrow> takes p r q \<Longrightarrow> ok q \<and> held q r"
    and take_frame: "ok p \<Longrightarrow> takes p r q \<Longrightarrow> held p s \<Longrightarrow> held q s \<and> range_of s \<inter> range_of r = {}"
    and return_law: "ok p \<Longrightarrow> held p r \<Longrightarrow> held p s \<Longrightarrow> range_of s \<inter> range_of r = {} \<Longrightarrow> returns p r q \<Longrightarrow> ok q \<and> held q s"
begin

definition holds :: "'p \<Rightarrow> (u32 \<times> u32) list \<Rightarrow> bool" where
  "holds p rs \<longleftrightarrow> ok p \<and> (\<forall>r\<in>set rs. held p r) \<and> apart rs"

lemma take_holds:
  assumes "holds p rs" "takes p r q"
  shows "holds q (rs @ [r])"
proof -
  have p: "ok p" "\<forall>s\<in>set rs. held p s" "apart rs" using assms(1) by (simp_all add: holds_def)
  then have "\<forall>s\<in>set rs. held q s \<and> range_of s \<inter> range_of r = {}" using take_frame [OF p(1) assms(2)] by blast
  with p(3) take_law [OF p(1) assms(2)] show ?thesis by (simp add: holds_def apart_snoc ball_Un)
qed

lemma take_keeps:
  assumes "holds p rs" "takes p r q"
  shows "holds q rs"
  using take_holds [OF assms] by (simp add: holds_def apart_snoc ball_Un)

lemma return_holds:
  assumes "holds p (xs @ r # ys)" "xs @ ys \<noteq> []" "returns p r q"
  shows "holds q (xs @ ys)"
proof -
  have a: "apart (xs @ ys)" "\<forall>s\<in>set (xs @ ys). range_of s \<inter> range_of r = {}"
    using assms(1) apart_remove [of xs r ys] by (simp_all add: holds_def)
  have p: "ok p" "held p r" "\<forall>s\<in>set (xs @ ys). held p s" using assms(1) by (auto simp: holds_def)
  have "\<forall>s\<in>set (xs @ ys). ok q \<and> held q s" using return_law [OF p(1,2) _ _ assms(3)] p(3) a(2) by blast
  moreover obtain s where "s \<in> set (xs @ ys)" using assms(2) by (meson last_in_set)
  ultimately show ?thesis using a(1) unfolding holds_def by blast
qed

lemma undo_holds:
  assumes "holds p rs" "rs \<noteq> []" "takes p r q" "returns q r q1"
  shows "holds q1 rs"
  using return_holds [of q rs r "[]" q1] take_holds [OF assms(1,3)] assms(2,4) by simp

end

definition pool_ok :: "lmb \<Rightarrow> bool" where
  "pool_ok l \<longleftrightarrow> sound (reserved l) \<and> sound (memory l) \<and> (\<forall>p\<in>set (blocks (memory l)). lend p + 1024 \<le> 2 ^ 32)"

definition pool_held :: "lmb \<Rightarrow> u32 \<times> u32 \<Rightarrow> bool" where
  "pool_held l r \<longleftrightarrow> proper r \<and> within (reserved l) r"

text \<open>An allocation whose size is a multiple of its alignment: only then is no more reserved than was asked for.\<close>

definition pool_takes :: "lmb \<Rightarrow> u32 \<times> u32 \<Rightarrow> lmb \<Rightarrow> bool" where
  "pool_takes l r l1 \<longleftrightarrow> (\<exists>k max_addr. k \<le> 10 \<and> 2 ^ k dvd unat (snd r) \<and> 0 < snd r \<and>
     (max_addr = LMB_ALLOC_ANYWHERE \<or> snd r \<le> max_addr) \<and> fst r \<noteq> 0 \<and>
     lmb_alloc_base_quiet l (snd r) (2 ^ k) max_addr = Done (fst r, l1))"

definition pool_returns :: "lmb \<Rightarrow> u32 \<times> u32 \<Rightarrow> lmb \<Rightarrow> bool" where
  "pool_returns l r l1 \<longleftrightarrow> unat (cnt (reserved l)) < MAX_LMB_REGIONS \<and> (\<exists>res. lmb_free l (fst r) (snd r) = Done (res, l1))"

lemma align_up_multiple:
  assumes "2 ^ k dvd unat sz" "k < 32"
  shows "lmb_align_up sz (2 ^ k) = sz"
proof -
  have "unat (take_bit k sz) = 0" using assms(1) by (metis unsigned_take_bit_eq take_bit_eq_mod dvd_eq_mod_eq_0)
  then have "sz AND (2 ^ k - 1) = 0" by (simp add: take_bit_eq_mask mask_eq_exp_minus_1 unat_eq_zero)
  then have d: "sz AND NOT (2 ^ k - 1) = sz" using and_not_add [of sz "2 ^ k - 1"] by simp
  have "(sz + (2 ^ k - 1)) = sz OR (2 ^ k - 1)"
    using \<open>sz AND (2 ^ k - 1) = 0\<close> by (rule disjunctive_add_eq_or)
  moreover have "(sz OR m) AND NOT m = sz AND NOT m" for m :: u32 by (rule bit_word_eqI) (auto simp: bit_simps)
  ultimately show ?thesis using d by (simp add: lmb_align_up_def)
qed

lemma pow_le_1024: "k \<le> 10 \<Longrightarrow> (2::nat) ^ k \<le> 1024"
  using power_increasing [of k 10 "2::nat"] by simp

text \<open>The pool after an allocation: the range is granted, or nothing is reserved that was not before.\<close>

lemma pool_alloc_cases:
  assumes ok: "pool_ok l" and k: "k \<le> 10" and sz: "0 < sz" "max_addr = LMB_ALLOC_ANYWHERE \<or> sz \<le> max_addr"
  obtains (granted) a l1 where "lmb_alloc_base_quiet l sz (2 ^ k) max_addr = Done (a, l1)" "a \<noteq> 0"
      "place l sz k max_addr (blocks (memory l)) a" "\<And>c. place l sz k max_addr (blocks (memory l)) c \<Longrightarrow> c \<le> a"
      "unat a + unat sz < 2 ^ 32" "{unat a..<unat a + unat sz} \<inter> covers (reserved l) = {}" "memory l1 = memory l"
      "2 ^ k dvd unat sz \<Longrightarrow> pool_ok l1 \<and> within (reserved l1) (a, sz) \<and>
         covers (reserved l1) = covers (reserved l) \<union> {unat a..<unat a + unat sz} \<and>
         unat (cnt (reserved l1)) \<le> Suc (unat (cnt (reserved l))) \<and> (\<forall>s. pool_held l s \<longrightarrow> pool_held l1 s)"
  | (refused) l1 where "lmb_alloc_base_quiet l sz (2 ^ k) max_addr = Done (0, l1)" "memory l1 = memory l"
      "blocks (reserved l1) = blocks (reserved l)" "pool_ok l1"
      "unat (cnt (reserved l)) = MAX_LMB_REGIONS \<or> (\<forall>c. \<not> place l sz k max_addr (blocks (memory l)) c)"
proof -
  have so: "sound (reserved l)" "shaped (memory l)" "tidy (blocks (memory l))"
    using ok by (auto simp: pool_ok_def sound_def)
  have bound: "\<forall>p\<in>set (blocks (memory l)). lend p + 2 ^ k \<le> 2 ^ 32"
    using ok pow_le_1024 [OF k] by (fastforce simp: pool_ok_def)
  have k32: "k < 32" using k by simp
  from alloc_base_outcome [OF so(1,2) bound k32 sz] show thesis
  proof (elim disjE exE conjE)
    fix a and r :: int and g
    assume a: "place l sz k max_addr (blocks (memory l)) a" "a \<noteq> 0"
      "tidy (blocks (memory l)) \<longrightarrow> (\<forall>c. place l sz k max_addr (blocks (memory l)) c \<longrightarrow> c \<le> a)"
      "{unat a..<unat a + unat sz} \<inter> covers (reserved l) = {}"
      "lmb_add_region (reserved l) a (lmb_align_up sz (2 ^ k)) = Done (r, g)"
      "lmb_alloc_base_quiet l sz (2 ^ k) max_addr = Done (if r < 0 then 0 else a, l\<lparr>reserved := g\<rparr>)"
      "if r < 0 then unat (cnt (reserved l)) = MAX_LMB_REGIONS \<and> covers g = covers (reserved l)
       else covers g = covers (reserved l) \<union> {unat a..<unat a + unat (lmb_align_up sz (2 ^ k))}"
    obtain p where "p \<in> set (blocks (memory l))" "unat a + unat sz \<le> lend p"
      using a(1) by (auto simp: place_def room_top_def split: if_splits)
    then have ns: "unat a + unat sz < 2 ^ 32" using ok by (fastforce simp: pool_ok_def)
    note c = add_region_cnt [OF so(1) a(5)]
    show thesis
    proof (cases "r < 0")
      case True
      have "sound g" using c(1) c(3) [OF True] sound_blocks [OF so(1)] by (intro soundI) simp_all
      with True a c(3) [OF True] ok show thesis by (intro refused [of "l\<lparr>reserved := g\<rparr>"]) (simp_all add: pool_ok_def)
    next
      case False
      have "pool_ok (l\<lparr>reserved := g\<rparr>) \<and> within g (a, sz) \<and> covers g = covers (reserved l) \<union> {unat a..<unat a + unat sz} \<and>
        (\<forall>s. pool_held l s \<longrightarrow> pool_held (l\<lparr>reserved := g\<rparr>) s)" if d: "2 ^ k dvd unat sz"
      proof -
        have g: "lmb_add_region (reserved l) a sz = Done (r, g)" using a(5) align_up_multiple [OF d k32] by simp
        have cl: "clear_of a sz (blocks (reserved l))" using a(1) by (simp add: place_def fits_def)
        from add_region_covers [OF so(1) ns] g sz(1) cl have "sound g" by auto
        moreover have "within g (a, sz)" "\<And>s. proper s \<Longrightarrow> within (reserved l) s \<Longrightarrow> within g s"
          using add_region_within [OF so(1) ns g] False by simp_all
        ultimately show ?thesis using ok a(7) False align_up_multiple [OF d k32] by (simp add: pool_ok_def pool_held_def)
      qed
      with False a c(2) ns so(3) show thesis by (intro granted [of a "l\<lparr>reserved := g\<rparr>"]) simp_all
    qed
  qed (use refused [of l] ok in simp)
qed

lemma pool_takesD:
  assumes "pool_ok l" "pool_takes l r l1"
  shows "pool_ok l1" "pool_held l1 r" "memory l1 = memory l" "range_of r \<inter> covers (reserved l) = {}"
    "covers (reserved l1) = covers (reserved l) \<union> range_of r"
    "unat (cnt (reserved l1)) \<le> Suc (unat (cnt (reserved l)))" "pool_held l s \<Longrightarrow> pool_held l1 s"
    "range_of r \<subseteq> covers (memory l)"
proof -
  obtain k max_addr where t: "k \<le> 10" "2 ^ k dvd unat (snd r)" "0 < snd r" "max_addr = LMB_ALLOC_ANYWHERE \<or> snd r \<le> max_addr"
    "fst r \<noteq> 0" "lmb_alloc_base_quiet l (snd r) (2 ^ k) max_addr = Done (fst r, l1)"
    using assms(2) by (auto simp: pool_takes_def)
  have "pool_ok l1 \<and> pool_held l1 r \<and> memory l1 = memory l \<and> range_of r \<inter> covers (reserved l) = {} \<and>
    covers (reserved l1) = covers (reserved l) \<union> range_of r \<and>
    unat (cnt (reserved l1)) \<le> Suc (unat (cnt (reserved l))) \<and> (\<forall>s. pool_held l s \<longrightarrow> pool_held l1 s) \<and>
    range_of r \<subseteq> covers (memory l)"
    using assms(1) t(1,3,4)
  proof (cases rule: pool_alloc_cases)
    case (granted a l2)
    then have e: "a = fst r" "l2 = l1" using t(6) by simp_all
    have "range_of r \<subseteq> covers (memory l)"
      using granted(3) unfolding e place_def by (force simp: room_top_def covers_def span_def range_of_def split: if_splits)
    then show ?thesis using granted(5-7) granted(8) [OF t(2)] t(3) unfolding e by (simp add: pool_held_def proper_def range_of_def)
  qed (use t in simp_all)
  then show "pool_ok l1" "pool_held l1 r" "memory l1 = memory l" "range_of r \<inter> covers (reserved l) = {}"
    "covers (reserved l1) = covers (reserved l) \<union> range_of r"
    "unat (cnt (reserved l1)) \<le> Suc (unat (cnt (reserved l)))" "pool_held l s \<Longrightarrow> pool_held l1 s"
    "range_of r \<subseteq> covers (memory l)" by blast+
qed

lemma pool_free:
  assumes "pool_ok l" "pool_held l r" "pool_held l s" "range_of s \<inter> range_of r = {}" "unat (cnt (reserved l)) < MAX_LMB_REGIONS"
  shows "\<exists>res l1. lmb_free l (fst r) (snd r) = Done (res, l1) \<and> 0 \<le> res \<and> pool_ok l1 \<and> memory l1 = memory l \<and>
     covers (reserved l1) = covers (reserved l) - range_of r \<and> unat (cnt (reserved l1)) \<le> Suc (unat (cnt (reserved l))) \<and>
     (\<forall>s. pool_held l s \<and> range_of s \<inter> range_of r = {} \<longrightarrow> pool_held l1 s)"
proof -
  obtain res g where "lmb_free_region (reserved l) (fst r) (snd r) = Done (res, g)" "0 \<le> res" "sound g"
     "covers g = covers (reserved l) - range_of r" "unat (cnt g) \<le> Suc (unat (cnt (reserved l)))"
     "\<forall>s. proper s \<and> within (reserved l) s \<and> range_of s \<inter> range_of r = {} \<longrightarrow> within g s"
    using free_region_keeps [of "reserved l" r s] assms by (auto simp: pool_ok_def pool_held_def)
  with assms(1) show ?thesis
    by (intro exI [of _ res] exI [of _ "l\<lparr>reserved := g\<rparr>"]) (simp add: lmb_free_def pool_ok_def pool_held_def)
qed

interpretation lmb_pool: address_pool pool_ok pool_held pool_takes pool_returns
proof
  show "pool_ok q \<and> pool_held q r" if "pool_ok p" "pool_takes p r q" for p r q using pool_takesD [OF that] by simp
  show "pool_held q s \<and> range_of s \<inter> range_of r = {}" if "pool_ok p" "pool_takes p r q" "pool_held p s" for p r q s
    using pool_takesD(4) [OF that(1,2)] pool_takesD(7) [OF that] within_covers [of "reserved p" s] that(3) by (auto simp: pool_held_def)
  show "pool_ok q \<and> pool_held q s" if "pool_ok p" "pool_held p r" "pool_held p s" "range_of s \<inter> range_of r = {}" "pool_returns p r q" for p r q s
    using pool_free [OF that(1-4)] that(3-5) by (cases s) (auto simp: pool_returns_def)
qed

end
