(* ===== verification/SysMem.thy ===== *)
theory SysMem
  imports MemBlk LmbPool
begin

text \<open>
  The manager of the memory the boot code hands out permanently (\<open>lib/sysmem.c\<close>): a table of logical memory blocks, the list of
  allocated blocks with their names, and the list of the kernel's reserved memory.  Blocks are recognised by name; some carry
  a check word behind or in front of them.  \<open>phys_addr_t\<close> and \<open>unsigned long\<close> are 32 bits wide; a null pointer is the address 0.
\<close>

section \<open>State\<close>

definition SYSMEM_MAGIC :: u32 where "SYSMEM_MAGIC = 0x4D454D53"
definition SYSMEM_ALLOC_NO_ALIGN :: u32 where "SYSMEM_ALLOC_NO_ALIGN = 1"
definition SYSMEM_ALLOC_ANYWHERE :: u32 where "SYSMEM_ALLOC_ANYWHERE = 2"

record sysmem =
  slmb :: lmb
  allocated :: "memblock list"
  kmem_resv :: "memblock list"
  allocated_cnt :: u32
  kmem_resv_cnt :: u32
  has_initf :: bool
  has_initr :: bool

text \<open>
  Beside the structure, the words of memory by their address (all check words lie at multiples of four) and the number of
  calls the C heap has served.
\<close>

record smstate = sysmem +
  ram :: "u32 \<Rightarrow> u32"
  heap :: nat

text \<open>
  What the code does not determine: which calls of \<open>malloc\<close> and \<open>strdup\<close> succeed, the value the uninitialised \<open>attr.flags\<close> of
  \<open>sysmem_alloc_align_base\<close> has on entry, and the aliases \<open>bidram_core_reserve\<close> finds in a block fresh from the heap.
\<close>

record smworld =
  heap_ok :: "nat \<Rightarrow> bool"
  stale_flags :: u32
  stale_aliases :: "bytes option list"

definition sysmem_has_init :: "gdata \<Rightarrow> smstate \<Rightarrow> bool" where
  "sysmem_has_init G S = (if gd_reloc G then has_initr S else has_initf S)"

definition sysmem_is_sub_region :: "memblock \<Rightarrow> memblock \<Rightarrow> bool" where
  "sysmem_is_sub_region sub main \<longleftrightarrow> mbase main \<le> mbase sub \<and> mbase sub + msize sub \<le> mbase main + msize main"

definition is_aligned :: "u32 \<Rightarrow> u32 \<Rightarrow> bool" where
  "is_aligned x a \<longleftrightarrow> x AND (a - 1) = 0"

definition ALIGN :: "u32 \<Rightarrow> u32 \<Rightarrow> u32" where
  "ALIGN x a = (x + (a - 1)) AND NOT (a - 1)"

section \<open>Names\<close>

definition same_name :: "bytes \<Rightarrow> bytes option \<Rightarrow> bool" where
  "same_name s o1 = (case o1 of None \<Rightarrow> False | Some n \<Rightarrow> casecmp_str n s = 0)"

definition attr_matches :: "bytes \<Rightarrow> memblk_attr \<Rightarrow> bool" where
  "attr_matches s a \<longleftrightarrow> same_name s (aname a) \<or>
     (aliases a ! 0 \<noteq> None \<and> list_ex (same_name s) (take ALIAS_COUNT_MAX (aliases a)))"

definition sysmem_alias2name :: "bytes \<Rightarrow> nat \<Rightarrow> bytes option \<times> nat" where
  "sysmem_alias2name s mid =
     (case find (\<lambda>i. attr_matches s (mem_attr ! i)) [0..<MEM_MAX] of
        Some i \<Rightarrow> (aname (mem_attr ! i), i)
      | None \<Rightarrow> (Some s, mid))"

section \<open>Allocating\<close>

text \<open>The label \<open>out\<close>: some kinds of blocks never report a failure.\<close>

definition alloc_out :: "u32 \<Rightarrow> u32 \<Rightarrow> u32" where
  "alloc_out fl base =
     (let b = (if base = 0 then base + 4 else base)
      in if has_flag fl (F_IGNORE_INVISIBLE OR F_NO_FAIL_DUMP) then b else 0)"

text \<open>The base of a block given by its number; \<open>None\<close> is the jump to \<open>out\<close>.\<close>

definition id_base :: "gdata \<Rightarrow> u32 \<Rightarrow> u32 \<Rightarrow> u32 \<Rightarrow> u32 option outcome" where
  "id_base G fl base sz =
     (if has_flag fl F_HIGHEST_MEM then Done (Some (gd_sp G - CONFIG_SYS_STACK_SIZE - sz - 0x1000))
      else if base = 0 then Done (Some (base + ARCH_DMA_MINALIGN))
      else bind_outcome (bank_at G 0) (\<lambda>b.
        if ucast base < bstart b then
          Done (if has_flag fl F_IGNORE_INVISIBLE then Some (ucast (bstart b)) else None)
        else Done (Some base)))"

definition cacheline_base :: "u32 \<Rightarrow> u32 \<Rightarrow> u32" where
  "cacheline_base fl base =
     (if has_flag fl F_CACHELINE_ALIGN \<and> \<not> is_aligned base ARCH_DMA_MINALIGN
      then ALIGN base ARCH_DMA_MINALIGN - ARCH_DMA_MINALIGN else base)"

text \<open>The loop over the allocated blocks, which stops at the first with the same name or in the way.\<close>

datatype scan_result = Clear | Again | Refused

fun scan_allocated :: "bytes option \<Rightarrow> u32 \<Rightarrow> u32 \<Rightarrow> memblock list \<Rightarrow> scan_result outcome" where
  "scan_allocated nm base sz [] = Done Clear"
| "scan_allocated nm base sz (b # bs) =
     (case (aname (attr b), nm) of
        (Some n, Some k) \<Rightarrow>
          if cmp_str n k = 0 then Done (if mbase b \<le> base \<and> sz \<le> msize b then Again else Refused)
          else if is_overlap (mbase b) (msize b) base sz then Done Refused
          else scan_allocated nm base sz bs
      | _ \<Rightarrow> Fault)"

definition new_block :: "u32 \<Rightarrow> u32 \<Rightarrow> u32 \<Rightarrow> memblk_attr \<Rightarrow> memblock" where
  "new_block base sz orig a =
     \<lparr>mbase = base, msize = sz, mbase_u64 = 0, msize_u64 = 0, orig_base = orig, attr = a\<rparr>"

definition set_magic :: "u32 \<Rightarrow> u32 \<Rightarrow> u32 \<Rightarrow> (u32 \<Rightarrow> u32) \<Rightarrow> u32 \<Rightarrow> u32" where
  "set_magic fl paddr sz r =
     (if has_flag fl F_OFC then r(paddr + sz := SYSMEM_MAGIC)
      else if has_flag fl F_HOFC then r(paddr - 4 := SYSMEM_MAGIC)
      else r)"

text \<open>From the search in the table of logical memory blocks on; \<open>sz\<close> is rounded and the name is known to be free.\<close>

definition sysmem_grant :: "smworld \<Rightarrow> memblk_attr \<Rightarrow> u32 \<Rightarrow> u32 \<Rightarrow> u32 \<Rightarrow> u32 \<Rightarrow> smstate \<Rightarrow> (u32 \<times> smstate) outcome" where
  "sysmem_grant W a orig base sz align S =
     (let fl = aflags a;
          alloc_size = (if has_flag fl F_OFC then sz + 4 else sz);
          alloc_base = (if base = SYSMEM_ALLOC_ANYWHERE then LMB_ALLOC_ANYWHERE else base + alloc_size)
      in bind_outcome (lmb_alloc_base (slmb S) alloc_size align alloc_base) (\<lambda>(paddr, _, l1).
           if paddr = 0 then Done (alloc_out fl base, S\<lparr>slmb := l1\<rparr>)
           else if paddr = base \<or> base = SYSMEM_ALLOC_ANYWHERE then
             (let S1 = S\<lparr>slmb := l1, heap := heap S + 1\<rparr>
              in if \<not> heap_ok W (heap S) then Done (alloc_out fl base, S1)
                 else Done (paddr, S1\<lparr>
                   allocated_cnt := allocated_cnt S + 1,
                   allocated := allocated S @ [new_block paddr alloc_size (if has_flag fl F_HIGHEST_MEM then base else orig) a],
                   ram := set_magic fl paddr sz (ram S)\<rparr>))
           else bind_outcome (lmb_free l1 paddr alloc_size) (\<lambda>(_, l2).
             Done (alloc_out fl base, S\<lparr>slmb := l2\<rparr>))))"

text \<open>From the check of the size on, when the name, the attributes and the base are settled.\<close>

definition sysmem_place :: "smworld \<Rightarrow> bytes option \<Rightarrow> memblk_attr \<Rightarrow> u32 \<Rightarrow> u32 \<Rightarrow> u32 \<Rightarrow> u32 \<Rightarrow> smstate \<Rightarrow> (u32 \<times> smstate) outcome" where
  "sysmem_place W nm a orig base0 sz0 align S =
     (let fl = aflags a
      in if sz0 = 0 then Done (alloc_out fl base0, S)
         else let base = cacheline_base fl base0
         in if base \<noteq> SYSMEM_ALLOC_ANYWHERE \<and> \<not> is_aligned base 4 then Done (alloc_out fl base, S)
         else let sz = ALIGN sz0 4
         in bind_outcome (scan_allocated nm base sz (allocated S)) (\<lambda>v.
              case v of Again \<Rightarrow> Done (base, S)
              | Refused \<Rightarrow> Done (alloc_out fl base, S)
              | Clear \<Rightarrow> sysmem_grant W a orig base sz align S))"

text \<open>The kernel's reserved memory is only recorded.\<close>

definition sysmem_kmem :: "smworld \<Rightarrow> memblk_attr \<Rightarrow> u32 \<Rightarrow> u32 \<Rightarrow> smstate \<Rightarrow> u32 \<times> smstate" where
  "sysmem_kmem W a base sz S =
     (let S1 = S\<lparr>heap := heap S + 1\<rparr>
      in if \<not> heap_ok W (heap S) then (0, S1)
         else (base, S1\<lparr>kmem_resv_cnt := kmem_resv_cnt S + 1,
                kmem_resv := kmem_resv S @ [new_block base sz base (a\<lparr>aflags := aflags a OR F_KMEM_RESERVED\<rparr>)]\<rparr>))"

definition sysmem_alloc_align_base ::
  "gdata \<Rightarrow> smworld \<Rightarrow> nat \<Rightarrow> bytes option \<Rightarrow> u32 \<Rightarrow> u32 \<Rightarrow> u32 \<Rightarrow> smstate \<Rightarrow> (u32 \<times> smstate) outcome" where
  "sysmem_alloc_align_base G W mid mem_name base sz align S =
     (if \<not> sysmem_has_init G S then Done (alloc_out (stale_flags W) base, S)
      else if base \<noteq> SYSMEM_ALLOC_ANYWHERE \<and> base < CONFIG_SYS_SDRAM_BASE then Done (base, S)
      else if CONFIG_SYS_SDRAM_BASE + SDRAM_MAX_SIZE \<le> base + sz then Done (base, S)
      else if mid = MEM_BY_NAME \<or> mid = MEM_KMEM_RESERVED then
        (case mem_name of None \<Rightarrow> Done (alloc_out (stale_flags W) base, S)
         | Some s \<Rightarrow>
           (let (nm, i) = sysmem_alias2name s mid;
                a = mem_attr ! i;
                S1 = (if aname a = None then S\<lparr>heap := heap S + 1\<rparr> else S);
                a1 = (if aname a = None then a\<lparr>aname := if heap_ok W (heap S) then nm else None\<rparr> else a)
            in if i = MEM_KMEM_RESERVED then Done (sysmem_kmem W a1 base sz S1)
               else sysmem_place W nm a1 base base sz align S1))
      else if MEM_UNK < mid \<and> mid < MEM_MAX then
        (let a = mem_attr ! mid
         in bind_outcome (id_base G (aflags a) base sz) (\<lambda>r.
              case r of None \<Rightarrow> Done (alloc_out (aflags a) base, S)
              | Some b \<Rightarrow> sysmem_place W (aname a) a base b sz align S))
      else Done (alloc_out (stale_flags W) base, S))"

text \<open>The calls of the other parts of the boot code; a failure also prints the layout.\<close>

definition sysmem_alloc :: "gdata \<Rightarrow> smworld \<Rightarrow> nat \<Rightarrow> u32 \<Rightarrow> smstate \<Rightarrow> (u32 \<times> smstate) outcome" where
  "sysmem_alloc G W mid sz = sysmem_alloc_align_base G W mid None SYSMEM_ALLOC_ANYWHERE sz ARCH_DMA_MINALIGN"

definition sysmem_alloc_by_name :: "gdata \<Rightarrow> smworld \<Rightarrow> bytes option \<Rightarrow> u32 \<Rightarrow> smstate \<Rightarrow> (u32 \<times> smstate) outcome" where
  "sysmem_alloc_by_name G W s sz = sysmem_alloc_align_base G W MEM_BY_NAME s SYSMEM_ALLOC_ANYWHERE sz ARCH_DMA_MINALIGN"

definition sysmem_alloc_base :: "gdata \<Rightarrow> smworld \<Rightarrow> nat \<Rightarrow> u32 \<Rightarrow> u32 \<Rightarrow> smstate \<Rightarrow> (u32 \<times> smstate) outcome" where
  "sysmem_alloc_base G W mid base sz = sysmem_alloc_align_base G W mid None base sz SYSMEM_ALLOC_NO_ALIGN"

definition sysmem_alloc_base_by_name :: "gdata \<Rightarrow> smworld \<Rightarrow> bytes option \<Rightarrow> u32 \<Rightarrow> u32 \<Rightarrow> smstate \<Rightarrow> (u32 \<times> smstate) outcome" where
  "sysmem_alloc_base_by_name G W s base sz = sysmem_alloc_align_base G W MEM_BY_NAME s base sz SYSMEM_ALLOC_NO_ALIGN"

definition sysmem_fdt_reserve_alloc_base :: "gdata \<Rightarrow> smworld \<Rightarrow> bytes option \<Rightarrow> u32 \<Rightarrow> u32 \<Rightarrow> smstate \<Rightarrow> (u32 \<times> smstate) outcome" where
  "sysmem_fdt_reserve_alloc_base G W s base sz = sysmem_alloc_align_base G W MEM_KMEM_RESERVED s base sz SYSMEM_ALLOC_NO_ALIGN"

definition sysmem_alloc_temporary_mem :: "gdata \<Rightarrow> u32 \<Rightarrow> smstate \<Rightarrow> (u32 \<times> smstate) outcome" where
  "sysmem_alloc_temporary_mem G sz S =
     (if \<not> sysmem_has_init G S then Done (0, S)
      else let base = (gd_sp G - CONFIG_SYS_STACK_SIZE - 0x2000) - sz
      in bind_outcome (lmb_alloc_base_quiet (slmb S) sz 0x400 (base + sz)) (\<lambda>(paddr, l1).
           if paddr \<noteq> 0 then
             bind_outcome (lmb_free l1 paddr sz) (\<lambda>(r, l2).
               Done (if r < 0 then 0 else paddr, S\<lparr>slmb := l2\<rparr>))
           else Done (paddr, S\<lparr>slmb := l1\<rparr>)))"

section \<open>Freeing\<close>

definition sysmem_free :: "gdata \<Rightarrow> u32 \<Rightarrow> smstate \<Rightarrow> (int \<times> smstate) outcome" where
  "sysmem_free G base S =
     (if \<not> sysmem_has_init G S then Done (- ENOSYS, S)
      else (case List.extract (\<lambda>b. mbase b = base \<or> orig_base b = base) (allocated S) of
          None \<Rightarrow> Done (- EINVAL, S)
        | Some (xs, b, ys) \<Rightarrow>
            bind_outcome (lmb_free (slmb S) (mbase b) (msize b)) (\<lambda>(r, l1).
              Done (if 0 \<le> r
                    then (0, S\<lparr>slmb := l1, allocated_cnt := allocated_cnt S - 1, allocated := xs @ ys\<rparr>)
                    else (r, S\<lparr>slmb := l1\<rparr>)))))"

section \<open>Initialisation\<close>

definition sysmem_add :: "u32 \<Rightarrow> u32 \<Rightarrow> smstate \<Rightarrow> (int \<times> smstate) outcome" where
  "sysmem_add base sz S =
     (if sz = 0 then Done (- EINVAL, S)
      else bind_outcome (lmb_add (slmb S) base sz) (\<lambda>(r, l1).
        Done (if 0 \<le> r then 0 else r, S\<lparr>slmb := l1\<rparr>)))"

text \<open>The loop over the banks; empty ones are passed over.\<close>

fun add_banks :: "bank list \<Rightarrow> smstate \<Rightarrow> (int \<times> smstate) outcome" where
  "add_banks [] S = Done (0, S)"
| "add_banks (b # bs) S =
     (if bsize b = 0 then add_banks bs S
      else bind_outcome (sysmem_add (ucast (bstart b)) (ucast (bsize b)) S) (\<lambda>(r, S1).
        if r \<noteq> 0 then Done (r, S1) else add_banks bs S1))"

text \<open>\<open>board_sysmem_reserve\<close> of the board, which relocates U-Boot.\<close>

definition board_sysmem_reserve :: "smstate \<Rightarrow> (int \<times> smstate) outcome" where
  "board_sysmem_reserve S = Done (0, S)"

definition sysmem_init :: "gdata \<Rightarrow> smworld \<Rightarrow> smstate \<Rightarrow> (int \<times> smstate) outcome" where
  "sysmem_init G W S =
     (let S0 = S\<lparr>slmb := lmb_init (slmb S), allocated := [], kmem_resv := [], allocated_cnt := 0, kmem_resv_cnt := 0\<rparr>;
          S1 = (if gd_reloc G then S0\<lparr>has_initr := True\<rparr> else S0\<lparr>has_initf := True\<rparr>)
      in case gd_bd G of None \<Rightarrow> Fault
         | Some bs \<Rightarrow>
           bind_outcome (add_banks bs S1) (\<lambda>(r, S2).
             if r \<noteq> 0 then Done (r, S2)
             else bind_outcome (board_sysmem_reserve S2) (\<lambda>(r, S3).
               if r \<noteq> 0 then Done (r, S3)
               else bind_outcome (sysmem_alloc_base G W MEM_UBOOT (gd_sp G) (ucast (gd_ram_top G - ucast (gd_sp G))) S3) (\<lambda>(p, S4).
                 if p = 0 then Done (- ENOMEM, S4)
                 else bind_outcome (sysmem_alloc_base G W MEM_STACK (gd_sp G - CONFIG_SYS_STACK_SIZE) CONFIG_SYS_STACK_SIZE S4) (\<lambda>(q, S5).
                   if q = 0 then Done (- ENOMEM, S5) else Done (0, S5))))))"

definition sysmem_initr :: "gdata \<Rightarrow> smworld \<Rightarrow> smstate \<Rightarrow> (int \<times> smstate) outcome" where
  "sysmem_initr = sysmem_init"

section \<open>Checks\<close>

text \<open>The check word of a block: \<open>sysmem_dump\<close> and \<open>sysmem_overflow_check\<close>.\<close>

definition block_overflow :: "(u32 \<Rightarrow> u32) \<Rightarrow> memblock \<Rightarrow> bool" where
  "block_overflow r b =
     (if has_flag (aflags (attr b)) F_OFC then r (mbase b + msize b - 4) \<noteq> SYSMEM_MAGIC
      else if has_flag (aflags (attr b)) F_HOFC then r (mbase b - 4) \<noteq> SYSMEM_MAGIC
      else False)"

section \<open>The invariant\<close>

definition mrange :: "memblock \<Rightarrow> u32 \<times> u32" where
  "mrange b = (mbase b, msize b)"

definition good_name :: "bytes option \<Rightarrow> bool" where
  "good_name n \<longleftrightarrow> (\<exists>s. n = Some s \<and> 0 \<notin> set s)"

text \<open>
  The blocks are held by the table, apart from each other and known by different names.  Once the manager is initialised the table
  is never empty: U-Boot itself is one of the blocks.
\<close>

definition orderly :: "smstate \<Rightarrow> bool" where
  "orderly S \<longleftrightarrow> lmb_pool.holds (slmb S) (map mrange (allocated S)) \<and>
     (\<forall>b\<in>set (allocated S). good_name (aname (attr b))) \<and> distinct (map (\<lambda>b. aname (attr b)) (allocated S)) \<and>
     allocated_cnt S = word_of_nat (length (allocated S)) \<and> (\<forall>b\<in>set (allocated S). mspan b \<subseteq> covers (memory (slmb S))) \<and>
     (\<forall>p\<in>set (blocks (memory (slmb S))). CONFIG_SYS_SDRAM_BASE \<le> lbase p)"

definition sysmem_inv :: "smstate \<Rightarrow> bool" where
  "sysmem_inv S \<longleftrightarrow> orderly S \<and> allocated S \<noteq> []"

text \<open>Two entries of the table are free, so that any operation finds room for what it splits.\<close>

definition has_slots :: "smstate \<Rightarrow> bool" where
  "has_slots S \<longleftrightarrow> unat (cnt (reserved (slmb S))) < 15"

lemma range_of_mrange [simp]: "range_of (mrange b) = mspan b"
  by (simp add: range_of_def mrange_def mspan_def)

lemma ALIGN_bounds:
  assumes "unat sz + 4 \<le> 2 ^ 32"
  shows "unat sz \<le> unat (ALIGN sz 4)" "unat (ALIGN sz 4) < unat sz + 4"
  using align_up_bounds [of sz 4] assms by (simp_all add: ALIGN_def lmb_align_up_def)

section \<open>The scan for a block of the same name or in the way\<close>

lemma scan_allocated_cases:
  assumes "\<forall>b\<in>set bs. good_name (aname (attr b))" "0 \<notin> set k"
  shows "\<exists>v. scan_allocated (Some k) base sz bs = Done v \<and>
     (v = Clear \<longleftrightarrow> (\<forall>b\<in>set bs. aname (attr b) \<noteq> Some k \<and> \<not> is_overlap (mbase b) (msize b) base sz))"
  using assms(1)
proof (induction bs)
  case (Cons b bs)
  then obtain n where n: "aname (attr b) = Some n" "0 \<notin> set n" by (auto simp: good_name_def)
  have "cmp_str n k = 0 \<longleftrightarrow> n = k" using n(2) assms(2) by simp
  with n Cons show ?case by auto
qed simp

section \<open>Allocating keeps the invariant\<close>

text \<open>A limit below the first memory region gives nothing.\<close>

lemma alloc_down_low:
  assumes "shaped (memory l)" "max_addr \<noteq> LMB_ALLOC_ANYWHERE" "\<forall>p\<in>set (blocks (memory l)). max_addr \<le> lbase p"
  shows "n \<le> unat (cnt (memory l)) \<Longrightarrow> alloc_down l sz align max_addr n = Done (0, l)"
proof (induction n)
  case (Suc n)
  have e: "entry (memory l) n = Done (blocks (memory l) ! n)"
    using Suc.prems assms(1) by (simp add: entry_shaped nth_blocks)
  have "blocks (memory l) ! n \<in> set (blocks (memory l))" using Suc.prems length_blocks [OF assms(1)] by simp
  then have "\<not> has_room sz max_addr (blocks (memory l) ! n)" using assms(2,3) by (auto simp: has_room_def not_less)
  with Suc show ?case unfolding alloc_down_Suc [OF e] by simp
qed simp

definition block_limit :: "u32 \<Rightarrow> u32 \<Rightarrow> u32" where
  "block_limit base asz = (if base = SYSMEM_ALLOC_ANYWHERE then LMB_ALLOC_ANYWHERE else base + asz)"

text \<open>The call of \<open>lmb_alloc_base\<close>, whatever the base: nothing, or a range taken from the pool.\<close>

lemma sysmem_lmb_cases:
  assumes ok: "pool_ok l" and low: "\<forall>p\<in>set (blocks (memory l)). CONFIG_SYS_SDRAM_BASE \<le> lbase p"
    and k: "k \<le> 10" "2 ^ k dvd unat asz" and asz: "0 < asz" "unat asz \<le> 0x20000000"
  obtains (granted) a l1 where "lmb_alloc_base l asz (2 ^ k) (block_limit base asz) = Done (a, False, l1)" "a \<noteq> 0"
      "pool_takes l (a, asz) l1" "place l asz k (block_limit base asz) (blocks (memory l)) a"
      "\<And>c. place l asz k (block_limit base asz) (blocks (memory l)) c \<Longrightarrow> c \<le> a"
  | (refused) l1 where "lmb_alloc_base l asz (2 ^ k) (block_limit base asz) = Done (0, True, l1)" "memory l1 = memory l"
      "blocks (reserved l1) = blocks (reserved l)" "pool_ok l1"
      "base = SYSMEM_ALLOC_ANYWHERE \<or> unat base + unat asz < 2 ^ 32 \<Longrightarrow>
        unat (cnt (reserved l)) = MAX_LMB_REGIONS \<or> (\<forall>c. \<not> place l asz k (block_limit base asz) (blocks (memory l)) c)"
proof (cases "block_limit base asz = LMB_ALLOC_ANYWHERE \<or> asz \<le> block_limit base asz")
  case True
  from ok k(1) asz(1) True show thesis
  proof (cases rule: pool_alloc_cases)
    case (granted a l1)
    then show thesis using k asz(1) True
      by (intro that(1) [of a l1]) (auto simp: lmb_alloc_base_def pool_takes_def)
  next
    case (refused l1)
    then show thesis by (intro that(2) [of l1]) (simp_all add: lmb_alloc_base_def)
  qed
next
  case False
  then have b: "base \<noteq> SYSMEM_ALLOC_ANYWHERE" and w: "base + asz < asz" "base + asz \<noteq> LMB_ALLOC_ANYWHERE"
    by (auto simp: block_limit_def not_le split: if_splits)
  have sh: "shaped (memory l)" using ok by (simp add: pool_ok_def sound_def)
  have "unat (base + asz) \<le> unat CONFIG_SYS_SDRAM_BASE"
    using w(1) asz(2) by (simp add: word_less_nat_alt CONFIG_SYS_SDRAM_BASE_def)
  then have "\<forall>p\<in>set (blocks (memory l)). base + asz \<le> lbase p"
    using low by (fastforce simp: word_le_nat_alt)
  with sh w(2) have "alloc_down l asz (2 ^ k) (base + asz) (unat (cnt (memory l))) = Done (0, l)"
    by (intro alloc_down_low) simp_all
  then have "lmb_alloc_base l asz (2 ^ k) (block_limit base asz) = Done (0, True, l)"
    using b by (simp add: lmb_alloc_base_def lmb_alloc_base_quiet_def count_down_start [OF sh] block_limit_def)
  moreover have "\<not> unat base + unat asz < 2 ^ 32" using w(1) by (auto simp: word_less_nat_alt unat_word_ariths)
  ultimately show thesis using that(2) [of l] ok b by simp
qed

definition block_added :: "smstate \<Rightarrow> smstate \<Rightarrow> u32 \<Rightarrow> u32 \<Rightarrow> bool" where
  "block_added S S1 p sz \<longleftrightarrow> p \<noteq> 0 \<and> (\<exists>b. allocated S1 = allocated S @ [b] \<and> mbase b = p \<and> unat sz \<le> unat (msize b) \<and>
     (\<forall>c\<in>set (allocated S). mspan b \<inter> mspan c = {}) \<and> (\<exists>m\<in>set (blocks (memory (slmb S))). mspan b \<subseteq> span m) \<and>
     \<not> block_overflow (ram S1) b) \<and> (\<forall>c. \<not> block_overflow (ram S) c \<longrightarrow> \<not> block_overflow (ram S1) c)"

lemma inv_new_lmb:
  assumes "sysmem_inv S" "lmb_pool.holds l1 (map mrange (allocated S))" "memory l1 = memory (slmb S)"
  shows "sysmem_inv (S\<lparr>slmb := l1\<rparr>)" "sysmem_inv (S\<lparr>slmb := l1, heap := h\<rparr>)"
  using assms by (simp_all add: sysmem_inv_def orderly_def)

lemma orderly_add:
  assumes "orderly S" "pool_takes (slmb S) (mrange b) l1" "good_name (aname (attr b))"
    "\<forall>c\<in>set (allocated S). aname (attr c) \<noteq> aname (attr b)"
  shows "orderly (S\<lparr>slmb := l1, heap := h, allocated_cnt := allocated_cnt S + 1, allocated := allocated S @ [b], ram := r\<rparr>)"
    "\<forall>c\<in>set (allocated S). mspan b \<inter> mspan c = {}"
proof -
  have h: "lmb_pool.holds (slmb S) (map mrange (allocated S))" "pool_ok (slmb S)"
    using assms(1) by (auto simp: orderly_def lmb_pool.holds_def)
  have h1: "lmb_pool.holds l1 (map mrange (allocated S @ [b]))" using lmb_pool.take_holds [OF h(1) assms(2)] by simp
  have "distinct (map (\<lambda>b. aname (attr b)) (allocated S @ [b]))" "\<forall>c\<in>set (allocated S @ [b]). good_name (aname (attr c))"
    using assms by (auto simp: orderly_def)
  with h1 assms(1) pool_takesD(3,8) [OF h(2) assms(2)]
  show "orderly (S\<lparr>slmb := l1, heap := h, allocated_cnt := allocated_cnt S + 1, allocated := allocated S @ [b], ram := r\<rparr>)"
    by (simp add: orderly_def)
  show "\<forall>c\<in>set (allocated S). mspan b \<inter> mspan c = {}" using h1 by (auto simp: lmb_pool.holds_def apart_snoc)
qed

lemma set_magic_ok: "\<not> block_overflow (set_magic (aflags a) p sz r) (new_block p (if has_flag (aflags a) F_OFC then sz + 4 else sz) orig a)"
  by (simp add: block_overflow_def set_magic_def new_block_def)

lemma magic_keeps: "\<not> block_overflow r b \<Longrightarrow> \<not> block_overflow (set_magic fl p sz r) b"
proof -
  have "set_magic fl p sz r x = r x \<or> set_magic fl p sz r x = SYSMEM_MAGIC" for x by (simp add: set_magic_def)
  then show "\<not> block_overflow r b \<Longrightarrow> \<not> block_overflow (set_magic fl p sz r) b"
    unfolding block_overflow_def by (metis (full_types))
qed

lemma sysmem_grant_spec:
  assumes inv: "sysmem_inv S" and slots: "has_slots S" and asz: "asz = (if has_flag (aflags a) F_OFC then sz + 4 else sz)"
    and k: "k \<le> 10" "2 ^ k dvd unat asz" and sz: "0 < sz" "unat sz \<le> 0x1ffffff0"
    and nm: "good_name (aname a)" "\<forall>b\<in>set (allocated S). aname (attr b) \<noteq> aname a"
  shows "\<exists>p S1. sysmem_grant W a orig base sz (2 ^ k) S = Done (p, S1) \<and> sysmem_inv S1 \<and> memory (slmb S1) = memory (slmb S) \<and>
     (allocated S1 = allocated S \<or> block_added S S1 p sz)"
proof -
  have h: "lmb_pool.holds (slmb S) (map mrange (allocated S))" "pool_ok (slmb S)"
    "\<forall>p\<in>set (blocks (memory (slmb S))). CONFIG_SYS_SDRAM_BASE \<le> lbase p"
    using inv by (auto simp: sysmem_inv_def orderly_def lmb_pool.holds_def)
  have u: "unat asz = (if has_flag (aflags a) F_OFC then unat sz + 4 else unat sz)"
    using sz(2) by (simp add: asz unat_word_ariths)
  then have a0: "0 < asz" "unat asz \<le> 0x20000000" "unat sz \<le> unat asz"
    using sz by (auto simp: word_less_nat_alt split: if_splits)
  let ?lim = "block_limit base asz"
  have run: "sysmem_grant W a orig base sz (2 ^ k) S = bind_outcome (lmb_alloc_base (slmb S) asz (2 ^ k) ?lim) (\<lambda>(paddr, _, l1).
     if paddr = 0 then Done (alloc_out (aflags a) base, S\<lparr>slmb := l1\<rparr>)
     else if paddr = base \<or> base = SYSMEM_ALLOC_ANYWHERE then
       (let S1 = S\<lparr>slmb := l1, heap := heap S + 1\<rparr>
        in if \<not> heap_ok W (heap S) then Done (alloc_out (aflags a) base, S1)
           else Done (paddr, S1\<lparr>allocated_cnt := allocated_cnt S + 1,
             allocated := allocated S @ [new_block paddr asz (if has_flag (aflags a) F_HIGHEST_MEM then base else orig) a],
             ram := set_magic (aflags a) paddr sz (ram S)\<rparr>))
     else bind_outcome (lmb_free l1 paddr asz) (\<lambda>(_, l2). Done (alloc_out (aflags a) base, S\<lparr>slmb := l2\<rparr>)))"
    by (simp only: sysmem_grant_def Let_def asz block_limit_def)
  from h(2,3) k a0(1,2) show ?thesis
  proof (cases rule: sysmem_lmb_cases [where base = base])
    case (refused l1)
    have "\<And>r. pool_held (slmb S) r \<Longrightarrow> pool_held l1 r" using refused(3) by (simp add: pool_held_def within_def)
    then have "lmb_pool.holds l1 (map mrange (allocated S))"
      using h(1) refused(4) by (auto simp: lmb_pool.holds_def)
    from inv_new_lmb(1) [OF inv this refused(2)] refused(1,2) show ?thesis by (simp add: run)
  next
    case (granted p l1)
    note t = pool_takesD [OF h(2) granted(3)]
    note keep = lmb_pool.take_keeps [OF h(1) granted(3)]
    show ?thesis
    proof (cases "p = base \<or> base = SYSMEM_ALLOC_ANYWHERE")
      case False
      define r0 where "r0 = mrange (hd (allocated S))"
      have r0: "r0 \<in> set (map mrange (allocated S))" using inv by (simp add: sysmem_inv_def orderly_def r0_def)
      have c: "unat (cnt (reserved l1)) < MAX_LMB_REGIONS"
        using t(6) slots by (simp add: has_slots_def MAX_LMB_REGIONS_def)
      have "\<forall>r\<in>set (map mrange (allocated S)). pool_held l1 r \<and> range_of r \<inter> range_of (p, asz) = {}"
        using lmb_pool.take_holds [OF h(1) granted(3)] by (simp add: lmb_pool.holds_def apart_snoc ball_Un)
      with r0 have "pool_held l1 r0" "range_of r0 \<inter> range_of (p, asz) = {}" by blast+
      then obtain res l2 where l2: "lmb_free l1 p asz = Done (res, l2)" "memory l2 = memory l1"
        using pool_free [OF t(1,2) _ _ c, of r0] by auto
      have "map mrange (allocated S) \<noteq> []" "pool_returns l1 (p, asz) l2" using r0 c l2(1) by (auto simp: pool_returns_def)
      from lmb_pool.undo_holds [OF h(1) this(1) granted(3) this(2)]
      have "sysmem_inv (S\<lparr>slmb := l2\<rparr>)" using inv_new_lmb(1) [OF inv] l2(2) t(3) by simp
      then show ?thesis using False granted(1,2) l2 t(3) by (simp add: run)
    next
      case True
      show ?thesis
      proof (cases "heap_ok W (heap S)")
        case False
        have "sysmem_inv (S\<lparr>slmb := l1, heap := heap S + 1\<rparr>)" by (rule inv_new_lmb(2) [OF inv keep t(3)])
        with True False granted(1,2) t(3) show ?thesis by (simp add: run)
      next
        case ok: True
        define b where "b = new_block p asz (if has_flag (aflags a) F_HIGHEST_MEM then base else orig) a"
        define S1 where "S1 = S\<lparr>slmb := l1, heap := heap S + 1, allocated_cnt := allocated_cnt S + 1,
          allocated := allocated S @ [b], ram := set_magic (aflags a) p sz (ram S)\<rparr>"
        have mb: "mrange b = (p, asz)" "mbase b = p" "msize b = asz" "aname (attr b) = aname a"
          by (simp_all add: b_def mrange_def new_block_def)
        have tk: "pool_takes (slmb S) (mrange b) l1" "good_name (aname (attr b))" "\<forall>c\<in>set (allocated S). aname (attr c) \<noteq> aname (attr b)"
          using granted(3) nm mb by simp_all
        have ord: "orderly S" using inv by (simp add: sysmem_inv_def)
        have "sysmem_inv S1" using orderly_add(1) [OF ord tk] by (simp add: sysmem_inv_def S1_def)
        moreover have "\<forall>c\<in>set (allocated S). mspan b \<inter> mspan c = {}" by (rule orderly_add(2) [OF ord tk])
        moreover have "\<exists>m\<in>set (blocks (memory (slmb S))). mspan b \<subseteq> span m"
          using granted(4) mb(2,3) by (fastforce simp: place_def room_top_def mspan_def span_def split: if_splits)
        moreover have "\<not> block_overflow (ram S1) b" unfolding S1_def b_def asz by (simp add: set_magic_ok)
        moreover have "\<forall>c. \<not> block_overflow (ram S) c \<longrightarrow> \<not> block_overflow (ram S1) c" by (simp add: S1_def magic_keeps)
        ultimately have "sysmem_inv S1 \<and> memory (slmb S1) = memory (slmb S) \<and> block_added S S1 p sz"
          using a0(3) mb granted(2) t(3) by (auto simp: block_added_def S1_def)
        moreover have "sysmem_grant W a orig base sz (2 ^ k) S = Done (p, S1)"
          using True ok granted(1,2) by (simp add: run S1_def b_def Let_def)
        ultimately show ?thesis by blast
      qed
    qed
  qed
qed

definition block_bytes :: "memblk_attr \<Rightarrow> u32 \<Rightarrow> u32" where
  "block_bytes a sz = (if has_flag (aflags a) F_OFC then ALIGN sz 4 + 4 else ALIGN sz 4)"

lemma block_added_less:
  "block_added S S1 p sz1 \<Longrightarrow> unat sz \<le> unat sz1 \<Longrightarrow> block_added S S1 p sz"
  unfolding block_added_def using order_trans by blast

lemma sysmem_place_spec:
  assumes inv: "sysmem_inv S" and slots: "has_slots S" and k: "k \<le> 10" "2 ^ k dvd unat (block_bytes a sz)"
    and sz: "unat sz \<le> 0x1fffffe0" and nm: "good_name (aname a)"
  shows "\<exists>p S1. sysmem_place W (aname a) a orig base sz (2 ^ k) S = Done (p, S1) \<and> sysmem_inv S1 \<and> memory (slmb S1) = memory (slmb S) \<and>
     (allocated S1 = allocated S \<or> block_added S S1 p sz)"
proof -
  let ?b = "cacheline_base (aflags a) base" and ?s = "ALIGN sz 4"
  obtain n where n: "aname a = Some n" "0 \<notin> set n" using nm by (auto simp: good_name_def)
  obtain v where v: "scan_allocated (aname a) ?b ?s (allocated S) = Done v"
    "v = Clear \<longleftrightarrow> (\<forall>b\<in>set (allocated S). aname (attr b) \<noteq> Some n \<and> \<not> is_overlap (mbase b) (msize b) ?b ?s)"
    using scan_allocated_cases [OF _ n(2), of "allocated S" ?b ?s] inv unfolding n(1) sysmem_inv_def orderly_def by blast
  consider (stay) q where "sysmem_place W (aname a) a orig base sz (2 ^ k) S = Done (q, S)"
    | (go) "sz \<noteq> 0" "v = Clear" "sysmem_place W (aname a) a orig base sz (2 ^ k) S = sysmem_grant W a orig ?b ?s (2 ^ k) S"
  proof (cases "sz = 0 \<or> (?b \<noteq> SYSMEM_ALLOC_ANYWHERE \<and> \<not> is_aligned ?b 4) \<or> v \<noteq> Clear")
    case True
    then have "\<exists>q. sysmem_place W (aname a) a orig base sz (2 ^ k) S = Done (q, S)"
      using v(1) by (cases "sz = 0"; cases "?b \<noteq> SYSMEM_ALLOC_ANYWHERE \<and> \<not> is_aligned ?b 4"; cases v)
        (simp_all add: sysmem_place_def Let_def)
    then show thesis using that(1) by blast
  next
    case False
    then show thesis using v(1) by (intro that(2)) (auto simp: sysmem_place_def Let_def)
  qed
  then show ?thesis
  proof cases
    case go
    have al: "unat sz \<le> unat ?s" "unat ?s < unat sz + 4" using ALIGN_bounds [of sz] sz by simp_all
    have "0 < unat sz" using go(1) by (simp add: unat_gt_0)
    then have "0 < ?s" "unat ?s \<le> 0x1ffffff0" using al sz by (simp_all add: word_less_nat_alt)
    from sysmem_grant_spec [OF inv slots _ k(1) _ this nm, of "block_bytes a sz" W orig ?b] go(2) v(2) n(1) k(2)
    obtain p S1 where "sysmem_grant W a orig ?b ?s (2 ^ k) S = Done (p, S1)" "sysmem_inv S1 \<and> memory (slmb S1) = memory (slmb S)"
      "allocated S1 = allocated S \<or> block_added S S1 p ?s"
      by (auto simp: block_bytes_def)
    moreover from this(3) have "allocated S1 = allocated S \<or> block_added S S1 p sz" using block_added_less [OF _ al(1)] by blast
    ultimately show ?thesis using go(3) by (intro exI [of _ p] exI [of _ S1]) simp
  qed (use inv in auto)
qed

lemma mem_attr_good: "\<forall>a\<in>set mem_attr. (aname a = None \<longrightarrow> aliases a ! 0 = None) \<and> (aname a \<noteq> None \<longrightarrow> 0 \<notin> set (the (aname a)))"
  by code_simp

lemma table_name:
  assumes "i < MEM_MAX" "aname (mem_attr ! i) \<noteq> None"
  shows "good_name (aname (mem_attr ! i))"
proof -
  have "mem_attr ! i \<in> set mem_attr" using assms(1) length_mem_attr by simp
  then have "0 \<notin> set (the (aname (mem_attr ! i)))" using mem_attr_good assms(2) by blast
  with assms(2) show ?thesis by (auto simp: good_name_def)
qed

lemma alias2name_cases:
  assumes "sysmem_alias2name s mid = (nm, i)"
  shows "i < MEM_MAX \<and> nm = aname (mem_attr ! i) \<and> nm \<noteq> None \<or> nm = Some s \<and> i = mid"
proof (cases "find (\<lambda>i. attr_matches s (mem_attr ! i)) [0..<MEM_MAX]")
  case (Some j)
  then have j: "j < MEM_MAX" "attr_matches s (mem_attr ! j)" by (auto simp: find_Some_iff)
  then have "aname (mem_attr ! j) \<noteq> None"
    using mem_attr_good length_mem_attr by (auto simp: attr_matches_def same_name_def split: option.splits)
  with Some j(1) assms show ?thesis by (auto simp: sysmem_alias2name_def)
qed (use assms in \<open>simp add: sysmem_alias2name_def\<close>)

lemma inv_other_fields:
  "sysmem_inv (S\<lparr>heap := h\<rparr>) = sysmem_inv S" "has_slots (S\<lparr>heap := h\<rparr>) = has_slots S"
  "sysmem_inv (S\<lparr>heap := h, kmem_resv_cnt := c, kmem_resv := ks\<rparr>) = sysmem_inv S"
  "block_added (S\<lparr>heap := h\<rparr>) S1 p sz = block_added S S1 p sz"
  by (simp_all add: sysmem_inv_def orderly_def has_slots_def block_added_def)

lemma sysmem_kmem_spec:
  "sysmem_inv S \<Longrightarrow> sysmem_kmem W a base sz S = (p, S1) \<Longrightarrow> sysmem_inv S1 \<and> slmb S1 = slmb S \<and> allocated S1 = allocated S"
  by (auto simp: sysmem_kmem_def Let_def inv_other_fields split: if_splits)

text \<open>The three ways a call goes: nothing happens, the block is named, or it is given by its number.\<close>

lemma sysmem_alloc_dispatch:
  assumes bd: "gd_bd G = Some (bk # bks)"
  obtains (stay) q where "sysmem_alloc_align_base G W mid mem_name base sz align S = Done (q, S)"
    | (name) s where "mem_name = Some s" "mid = MEM_BY_NAME \<or> mid = MEM_KMEM_RESERVED"
      "sysmem_alloc_align_base G W mid mem_name base sz align S =
        (let (nm, i) = sysmem_alias2name s mid;
             a = mem_attr ! i;
             S1 = (if aname a = None then S\<lparr>heap := heap S + 1\<rparr> else S);
             a1 = (if aname a = None then a\<lparr>aname := if heap_ok W (heap S) then nm else None\<rparr> else a)
         in if i = MEM_KMEM_RESERVED then Done (sysmem_kmem W a1 base sz S1)
            else sysmem_place W nm a1 base base sz align S1)"
    | (num) b where "mid < MEM_MAX" "aname (mem_attr ! mid) \<noteq> None"
      "sysmem_alloc_align_base G W mid mem_name base sz align S =
         sysmem_place W (aname (mem_attr ! mid)) (mem_attr ! mid) base b sz align S"
proof -
  let ?run = "sysmem_alloc_align_base G W mid mem_name base sz align S"
  show thesis
  proof (cases "sysmem_has_init G S \<and> \<not> (base \<noteq> SYSMEM_ALLOC_ANYWHERE \<and> base < CONFIG_SYS_SDRAM_BASE) \<and>
      \<not> CONFIG_SYS_SDRAM_BASE + SDRAM_MAX_SIZE \<le> base + sz")
    case False
    then have "\<exists>q. ?run = Done (q, S)" by (auto simp: sysmem_alloc_align_base_def)
    then show thesis using that(1) by blast
  next
    case go: True
    show thesis
    proof (cases "mid = MEM_BY_NAME \<or> mid = MEM_KMEM_RESERVED")
      case True
      show thesis
      proof (cases mem_name)
        case None
        then have "?run = Done (alloc_out (stale_flags W) base, S)" using True go by (auto simp: sysmem_alloc_align_base_def)
        then show thesis by (rule that(1))
      next
        case (Some s)
        show thesis by (rule that(2) [OF Some True]) (use Some True go in \<open>auto simp: sysmem_alloc_align_base_def\<close>)
      qed
    next
      case no: False
      show thesis
      proof (cases "MEM_UNK < mid \<and> mid < MEM_MAX")
        case True
        with no have "mid < MEM_BY_NAME" by (simp add: mem_ids)
        with True have n: "mid < MEM_MAX" "aname (mem_attr ! mid) \<noteq> None" using mem_attr_names [of mid] by auto
        have "bank_at G 0 = Done bk" using bd by (simp add: bank_at_def)
        then have "\<exists>r. id_base G (aflags (mem_attr ! mid)) base sz = Done r" by (simp add: id_base_def)
        then obtain r where r: "id_base G (aflags (mem_attr ! mid)) base sz = Done r" by blast
        have run: "?run = (case r of None \<Rightarrow> Done (alloc_out (aflags (mem_attr ! mid)) base, S)
            | Some b \<Rightarrow> sysmem_place W (aname (mem_attr ! mid)) (mem_attr ! mid) base b sz align S)"
          using go no True r by (auto simp: sysmem_alloc_align_base_def Let_def)
        show thesis
        proof (cases r)
          case None
          then show thesis using that(1) run by simp
        next
          case (Some b)
          then show thesis using that(3) [OF n] run by simp
        qed
      next
        case False
        then have "?run = Done (alloc_out (stale_flags W) base, S)" using go no by (auto simp: sysmem_alloc_align_base_def)
        then show thesis by (rule that(1))
      qed
    qed
  qed
qed

lemma sysmem_alloc_align_base_spec:
  assumes inv: "sysmem_inv S" "has_slots S" and k: "k \<le> 10" "\<And>a. 2 ^ k dvd unat (block_bytes a sz)"
    and sz: "unat sz \<le> 0x1fffffe0" and bd: "gd_bd G = Some (bk # bks)"
    and nm: "mem_name \<noteq> None \<Longrightarrow> good_name mem_name" and heap: "heap_ok W (heap S)"
  shows "\<exists>p S1. sysmem_alloc_align_base G W mid mem_name base sz (2 ^ k) S = Done (p, S1) \<and> sysmem_inv S1 \<and> memory (slmb S1) = memory (slmb S) \<and>
     (allocated S1 = allocated S \<or> block_added S S1 p sz)"
proof -
  let ?run = "sysmem_alloc_align_base G W mid mem_name base sz (2 ^ k) S"
  from bd show ?thesis
  proof (cases rule: sysmem_alloc_dispatch [where W = W and mid = mid and mem_name = mem_name and base = base and sz = sz and align = "2 ^ k" and S = S])
    case stay
    then show ?thesis using inv by blast
  next
    case (num b)
    show ?thesis using sysmem_place_spec [OF inv k sz table_name [OF num(1,2)]] unfolding num(3) .
  next
    case (name s)
    obtain m i where m: "sysmem_alias2name s mid = (m, i)" by (cases "sysmem_alias2name s mid")
    define a where "a = (if aname (mem_attr ! i) = None then (mem_attr ! i)\<lparr>aname := m\<rparr> else mem_attr ! i)"
    define S0 where "S0 = (if aname (mem_attr ! i) = None then S\<lparr>heap := heap S + 1\<rparr> else S)"
    have am: "aname a = m" "good_name m"
    proof -
      have g: "good_name (Some s)" using nm name(1) by simp
      have z: "i = mid \<Longrightarrow> aname (mem_attr ! i) = None"
        using name(2) by (auto simp: mem_ids mem_attr_def zero_attr_def)
      show "aname a = m" using alias2name_cases [OF m] z by (auto simp: a_def)
      show "good_name m" using alias2name_cases [OF m] table_name [of i] g by auto
    qed
    have i0: "sysmem_inv S0" "has_slots S0" using inv by (simp_all add: S0_def inv_other_fields)
    have run: "?run = (if i = MEM_KMEM_RESERVED then Done (sysmem_kmem W a base sz S0) else sysmem_place W m a base base sz (2 ^ k) S0)"
      using heap unfolding name(3) m by (simp add: Let_def a_def S0_def)
    have bS: "allocated S0 = allocated S" "slmb S0 = slmb S" "block_added S0 S1 p sz = block_added S S1 p sz" for S1 p
      by (simp_all add: S0_def inv_other_fields)
    show ?thesis
    proof (cases "i = MEM_KMEM_RESERVED")
      case True
      obtain p S1 where e: "sysmem_kmem W a base sz S0 = (p, S1)" by (cases "sysmem_kmem W a base sz S0")
      from sysmem_kmem_spec [OF i0(1) e] bS(1,2) run True e show ?thesis by simp
    next
      case False
      have "good_name (aname a)" using am by simp
      from sysmem_place_spec [OF i0 k sz this, of W base base] show ?thesis
        unfolding am(1) bS using run False by simp
    qed
  qed
qed

end
