(* ===== verification/SysMemUse.thy ===== *)
theory SysMemUse
  imports SysMem
begin

text \<open>
  What the callers of \<open>lib/sysmem.c\<close> can rely on: an allocation never overlaps a block that is already there, a free range is granted
  where it was asked for, a freed block can be had again, and the manager starts in order.
\<close>

section \<open>A free range is granted\<close>

lemma orderly_pool:
  assumes "orderly S"
  shows "pool_ok (slmb S)" "sound (reserved (slmb S))" "tidy (blocks (reserved (slmb S)))"
    "\<forall>p\<in>set (blocks (memory (slmb S))). CONFIG_SYS_SDRAM_BASE \<le> lbase p"
  using assms sound_blocks(2) [of "reserved (slmb S)"] by (auto simp: orderly_def lmb_pool.holds_def pool_ok_def)

lemma inv_solid:
  assumes "sysmem_inv S"
  shows "solid (blocks (reserved (slmb S)))"
proof -
  have h: "orderly S" "\<forall>r\<in>set (map mrange (allocated S)). pool_held (slmb S) r" "allocated S \<noteq> []"
    using assms by (auto simp: sysmem_inv_def orderly_def lmb_pool.holds_def)
  have "pool_held (slmb S) (mrange (hd (allocated S)))" using h(2,3) by simp
  then show ?thesis using sound_solid [OF orderly_pool(2) [OF h(1)], of "mrange (hd (allocated S))"] by (simp add: pool_held_def)
qed

lemma allocated_covered:
  assumes "orderly S" "b \<in> set (allocated S)"
  shows "mspan b \<subseteq> covers (reserved (slmb S))" "0 < msize b" "unat (mbase b) + unat (msize b) < 2 ^ 32"
proof -
  have "pool_held (slmb S) (mrange b)" using assms by (auto simp: orderly_def lmb_pool.holds_def)
  then show "mspan b \<subseteq> covers (reserved (slmb S))" "0 < msize b" "unat (mbase b) + unat (msize b) < 2 ^ 32"
    using within_covers [of _ "mrange b"] by (auto simp: pool_held_def proper_def mrange_def simp flip: range_of_mrange)
qed

text \<open>A range of memory of which nothing is reserved.\<close>

definition vacant :: "smstate \<Rightarrow> u32 \<Rightarrow> u32 \<Rightarrow> bool" where
  "vacant S base asz \<longleftrightarrow> {unat base..<unat base + unat asz} \<inter> covers (reserved (slmb S)) = {} \<and>
     (\<exists>m\<in>set (blocks (memory (slmb S))). {unat base..<unat base + unat asz} \<subseteq> span m)"

lemma vacant_clear_of:
  assumes "sysmem_inv S" "vacant S base asz" "proper (base, asz)"
  shows "clear_of base asz (blocks (reserved (slmb S)))"
  using disjoint_clear [OF inv_solid [OF assms(1)] _ assms(3)] orderly_pool(3) [of S] assms(1,2)
  by (simp add: vacant_def range_of_def sysmem_inv_def)

lemma vacant_place:
  assumes cl: "clear_of base asz (blocks (reserved l))" and m: "m \<in> set (blocks (memory l))" "{unat base..<unat base + unat asz} \<subseteq> span m"
    and pr: "proper (base, asz)" and base: "base \<noteq> 0" "base \<noteq> SYSMEM_ALLOC_ANYWHERE"
  shows "place l asz 0 (block_limit base asz) (blocks (memory l)) base"
    and "place l asz 0 (block_limit base asz) (blocks (memory l)) c \<Longrightarrow> c \<le> base"
proof -
  have e: "unat (base + asz) = unat base + unat asz" "0 < unat asz"
    using pr by (auto simp: proper_def unat_word_ariths word_less_nat_alt)
  then have "base + asz \<noteq> 0" by (metis add_is_0 less_irrefl unat_0)
  then have top: "room_top (block_limit base asz) p = min (lend p) (unat base + unat asz)" for p
    using base(2) e by (simp add: room_top_def block_limit_def LMB_ALLOC_ANYWHERE_def)
  have "unat (lbase m) \<le> unat base \<and> unat base + unat asz \<le> lend m"
    using m(2) e(2) by (auto simp: span_def ivl_subset)
  with m(1) cl show "place l asz 0 (block_limit base asz) (blocks (memory l)) base"
    using base(1) by (auto simp: place_def fits_def top)
  show "c \<le> base" if "place l asz 0 (block_limit base asz) (blocks (memory l)) c"
    using that by (auto simp: place_def top word_le_nat_alt)
qed

lemma sysmem_grant_exact:
  assumes ord: "orderly S" and slots: "has_slots S" and asz: "asz = (if has_flag (aflags a) F_OFC then sz + 4 else sz)"
    and sz: "0 < asz" "unat asz \<le> 0x20000000" and pr: "unat base + unat asz < 2 ^ 32"
    and cl: "clear_of base asz (blocks (reserved (slmb S)))"
    and m: "m \<in> set (blocks (memory (slmb S)))" "{unat base..<unat base + unat asz} \<subseteq> span m"
    and base: "CONFIG_SYS_SDRAM_BASE \<le> base" and heap: "heap_ok W (heap S)" and fl: "\<not> has_flag (aflags a) F_HIGHEST_MEM"
    and nm: "good_name (aname a)" "\<forall>b\<in>set (allocated S). aname (attr b) \<noteq> aname a"
  shows "\<exists>l1. sysmem_grant W a orig base sz SYSMEM_ALLOC_NO_ALIGN S = Done (base, S\<lparr>slmb := l1, heap := heap S + 1,
       allocated_cnt := allocated_cnt S + 1, allocated := allocated S @ [new_block base asz orig a],
       ram := set_magic (aflags a) base sz (ram S)\<rparr>) \<and> pool_takes (slmb S) (base, asz) l1"
proof -
  have b: "base \<noteq> 0" "base \<noteq> SYSMEM_ALLOC_ANYWHERE"
    using base by (auto simp: CONFIG_SYS_SDRAM_BASE_def SYSMEM_ALLOC_ANYWHERE_def)
  have "proper (base, asz)" using pr sz(1) by (simp add: proper_def)
  note pl = vacant_place [OF cl m this b]
  have k: "(0::nat) \<le> 10" "2 ^ 0 dvd unat asz" by simp_all
  from orderly_pool(1,4) [OF ord] k sz show ?thesis
  proof (cases rule: sysmem_lmb_cases [where base = base])
    case (granted p l1)
    then have "p = base" using pl by (meson order_antisym)
    with granted(1) have "lmb_alloc_base (slmb S) asz 1 (base + asz) = Done (base, False, l1)"
      using b(2) by (simp add: block_limit_def)
    then have "sysmem_grant W a orig base sz SYSMEM_ALLOC_NO_ALIGN S = Done (base, S\<lparr>slmb := l1, heap := heap S + 1,
       allocated_cnt := allocated_cnt S + 1, allocated := allocated S @ [new_block base asz orig a],
       ram := set_magic (aflags a) base sz (ram S)\<rparr>)"
      using heap b(1) fl unfolding sysmem_grant_def Let_def asz [symmetric] SYSMEM_ALLOC_NO_ALIGN_def by (simp add: b(2))
    with granted(3) \<open>p = base\<close> show ?thesis by blast
  next
    case (refused l1)
    then show ?thesis using pr slots pl(1) by (simp add: has_slots_def MAX_LMB_REGIONS_def)
  qed
qed

text \<open>The kinds of blocks that are placed where the caller says.\<close>

definition plain_kind :: "nat \<Rightarrow> bool" where
  "plain_kind mid \<longleftrightarrow> MEM_UNK < mid \<and> mid < MEM_BY_NAME \<and>
     \<not> has_flag (aflags (mem_attr ! mid)) F_HIGHEST_MEM \<and> \<not> has_flag (aflags (mem_attr ! mid)) F_CACHELINE_ALIGN"

lemma clear_no_overlap:
  assumes ord: "orderly S" and cl: "clear_of base asz (blocks (reserved (slmb S)))" and b: "b \<in> set (allocated S)"
    and sz: "0 < sz" "unat sz \<le> unat asz" "unat base + unat asz < 2 ^ 32"
  shows "\<not> is_overlap (mbase b) (msize b) base sz"
proof -
  note c = allocated_covered [OF ord b]
  have "mspan b \<inter> {unat base..<unat base + unat sz} = {}"
    using clear_disjoint [OF cl orderly_pool(3) [OF ord] sz(3)] c(1) sz(2) by fastforce
  then show ?thesis using is_overlap_iff [OF c(3) _ c(2) sz(1), of base] sz by (simp add: mspan_def)
qed

text \<open>Up to the search, a call with such a kind only rounds the size.\<close>

lemma sysmem_alloc_base_plain:
  assumes ord: "orderly S" "sysmem_has_init G S" and bd: "gd_bd G = Some (bk # bks)" "bstart bk \<le> ucast base"
    and mid: "plain_kind mid" "\<forall>b\<in>set (allocated S). aname (attr b) \<noteq> aname (mem_attr ! mid)"
    and base: "CONFIG_SYS_SDRAM_BASE \<le> base" "is_aligned base 4" "unat base + unat sz < 0xe0000000" and sz: "0 < sz"
    and clear: "\<And>b. b \<in> set (allocated S) \<Longrightarrow> \<not> is_overlap (mbase b) (msize b) base (ALIGN sz 4)"
  shows "sysmem_alloc_base G W mid base sz S = sysmem_grant W (mem_attr ! mid) base base (ALIGN sz 4) SYSMEM_ALLOC_NO_ALIGN S"
    "good_name (aname (mem_attr ! mid))"
proof -
  let ?a = "mem_attr ! mid" and ?s = "ALIGN sz 4"
  have u: "unat (base + sz) = unat base + unat sz" using base(3) by (simp add: unat_word_ariths)
  have k: "MEM_UNK < mid" "mid < MEM_BY_NAME" "mid < MEM_MAX" "mid \<noteq> MEM_BY_NAME" "mid \<noteq> MEM_KMEM_RESERVED"
    "\<not> has_flag (aflags ?a) F_HIGHEST_MEM" "\<not> has_flag (aflags ?a) F_CACHELINE_ALIGN"
    using mid(1) by (auto simp: plain_kind_def mem_ids)
  obtain n where n: "aname ?a = Some n" "0 \<notin> set n"
    using table_name [OF k(3)] mem_attr_names [OF k(1,2)] by (auto simp: good_name_def)
  then show "good_name (aname ?a)" by (simp add: good_name_def)
  have "base \<noteq> 0" using base(1) by (auto simp: CONFIG_SYS_SDRAM_BASE_def)
  then have ib: "id_base G (aflags ?a) base sz = Done (Some base)" using bd k by (auto simp: id_base_def bank_at_def not_less)
  have nt: "\<not> CONFIG_SYS_SDRAM_BASE + SDRAM_MAX_SIZE \<le> base + sz"
    using u base(3) by (simp add: CONFIG_SYS_SDRAM_BASE_def SDRAM_MAX_SIZE_def word_le_nat_alt)
  have run: "sysmem_alloc_base G W mid base sz S = sysmem_place W (aname ?a) ?a base base sz SYSMEM_ALLOC_NO_ALIGN S"
    using ord(2) base(1) k ib nt by (simp add: sysmem_alloc_base_def sysmem_alloc_align_base_def Let_def leD)
  have "scan_allocated (aname ?a) base ?s (allocated S) = Done Clear"
    using scan_allocated_cases [OF _ n(2), of "allocated S" base ?s] mid(2) ord(1) clear
    unfolding n(1) orderly_def by blast
  then show "sysmem_alloc_base G W mid base sz S = sysmem_grant W ?a base base ?s SYSMEM_ALLOC_NO_ALIGN S"
    unfolding run using k(7) sz base(2) by (simp add: sysmem_place_def cacheline_base_def Let_def word_gt_0)
qed

lemma sysmem_alloc_base_grants:
  assumes ord: "orderly S" "has_slots S" "sysmem_has_init G S" and bd: "gd_bd G = Some (bk # bks)" "bstart bk \<le> ucast base"
    and mid: "plain_kind mid" "\<forall>b\<in>set (allocated S). aname (attr b) \<noteq> aname (mem_attr ! mid)"
    and base: "CONFIG_SYS_SDRAM_BASE \<le> base" "is_aligned base 4" "unat base + unat sz < 0xe0000000"
    and sz: "0 < sz" "unat sz \<le> 0x1fffffe0" and asz: "asz = block_bytes (mem_attr ! mid) sz"
    and cl: "clear_of base asz (blocks (reserved (slmb S)))"
    and m: "m \<in> set (blocks (memory (slmb S)))" "{unat base..<unat base + unat asz} \<subseteq> span m"
    and heap: "heap_ok W (heap S)"
  shows "\<exists>S1. sysmem_alloc_base G W mid base sz S = Done (base, S1) \<and> orderly S1 \<and> pool_takes (slmb S) (base, asz) (slmb S1) \<and>
     allocated S1 = allocated S @ [new_block base asz base (mem_attr ! mid)] \<and> heap S1 = heap S + 1 \<and>
     has_initf S1 = has_initf S \<and> has_initr S1 = has_initr S"
proof -
  let ?a = "mem_attr ! mid" and ?s = "ALIGN sz 4"
  have as: "asz = (if has_flag (aflags ?a) F_OFC then ?s + 4 else ?s)" by (simp add: asz block_bytes_def)
  have al: "unat sz \<le> unat ?s" "unat ?s < unat sz + 4" using ALIGN_bounds [of sz] sz by simp_all
  then have sp: "0 < ?s" "unat ?s \<le> 0x1ffffff0" using sz by (auto simp: word_less_nat_alt)
  have au: "unat ?s \<le> unat asz" "unat asz \<le> unat ?s + 4" using sp(2) by (simp_all add: as unat_word_ariths)
  then have a0: "0 < asz" "unat asz \<le> 0x20000000" using sp by (simp_all add: word_less_nat_alt)
  have fit: "unat base + unat asz < 2 ^ 32" using base(3) al au by simp
  note run = sysmem_alloc_base_plain [OF ord(1,3) bd mid base sz(1) clear_no_overlap [OF ord(1) cl _ sp(1) au(1) fit]]
  have fl: "\<not> has_flag (aflags ?a) F_HIGHEST_MEM" using mid(1) by (simp add: plain_kind_def)
  obtain l1 where l1: "sysmem_grant W ?a base base ?s SYSMEM_ALLOC_NO_ALIGN S = Done (base, S\<lparr>slmb := l1, heap := heap S + 1,
       allocated_cnt := allocated_cnt S + 1, allocated := allocated S @ [new_block base asz base ?a],
       ram := set_magic (aflags ?a) base ?s (ram S)\<rparr>)" "pool_takes (slmb S) (base, asz) l1"
    using sysmem_grant_exact [OF ord(1,2) as a0 fit cl m base(1) heap fl run(2) mid(2), of base] by blast
  have nb: "mrange (new_block base asz base ?a) = (base, asz)" "aname (attr (new_block base asz base ?a)) = aname ?a"
    by (simp_all add: new_block_def mrange_def)
  have "orderly (S\<lparr>slmb := l1, heap := heap S + 1, allocated_cnt := allocated_cnt S + 1,
     allocated := allocated S @ [new_block base asz base ?a], ram := set_magic (aflags ?a) base ?s (ram S)\<rparr>)"
    using ord(1) l1(2) run(2) mid(2) by (intro orderly_add(1)) (simp_all add: nb)
  with l1 run(1) show ?thesis by simp
qed

section \<open>Freeing\<close>

lemma sysmem_free_spec:
  assumes inv: "sysmem_inv S" "sysmem_has_init G S" and c: "unat (cnt (reserved (slmb S))) < MAX_LMB_REGIONS"
    and split: "allocated S = xs @ b # ys" "xs @ ys \<noteq> []"
    and hit: "mbase b = base \<or> orig_base b = base" "\<forall>c\<in>set xs. mbase c \<noteq> base \<and> orig_base c \<noteq> base"
  shows "\<exists>S1. sysmem_free G base S = Done (0, S1) \<and> sysmem_inv S1 \<and> allocated S1 = xs @ ys \<and>
     covers (reserved (slmb S1)) = covers (reserved (slmb S)) - mspan b \<and> memory (slmb S1) = memory (slmb S)"
proof -
  have ex: "List.extract (\<lambda>b. mbase b = base \<or> orig_base b = base) (allocated S) = Some (xs, b, ys)"
    using split(1) hit by (simp add: extract_Some_iff)
  have h: "lmb_pool.holds (slmb S) (map mrange xs @ mrange b # map mrange ys)" using inv(1) split(1) by (simp add: sysmem_inv_def orderly_def)
  then have ok: "pool_ok (slmb S)" "pool_held (slmb S) (mrange b)"
    "\<forall>r\<in>set (map mrange xs @ map mrange ys). pool_held (slmb S) r \<and> range_of r \<inter> range_of (mrange b) = {}"
    using apart_remove [of "map mrange xs" "mrange b" "map mrange ys"] by (auto simp: lmb_pool.holds_def)
  have ne: "map mrange xs @ map mrange ys \<noteq> []" using split(2) by auto
  define r0 where "r0 = hd (map mrange xs @ map mrange ys)"
  have "r0 \<in> set (map mrange xs @ map mrange ys)" unfolding r0_def using ne by (rule hd_in_set)
  then have r0: "pool_held (slmb S) r0" "range_of r0 \<inter> range_of (mrange b) = {}" using ok(3) by blast+
  obtain res l1 where l1: "lmb_free (slmb S) (mbase b) (msize b) = Done (res, l1)" "0 \<le> res" "memory l1 = memory (slmb S)"
    "covers (reserved l1) = covers (reserved (slmb S)) - mspan b"
    using pool_free [OF ok(1,2) r0 c] by (auto simp: mrange_def simp flip: range_of_mrange)
  have "pool_returns (slmb S) (mrange b) l1" using c l1(1) by (auto simp: pool_returns_def mrange_def)
  from lmb_pool.return_holds [OF h ne this] have "lmb_pool.holds l1 (map mrange (xs @ ys))" by simp
  moreover define S1 where "S1 = S\<lparr>slmb := l1, allocated_cnt := allocated_cnt S - 1, allocated := xs @ ys\<rparr>"
  ultimately have "sysmem_inv S1" using inv(1) split l1(3) by (auto simp: sysmem_inv_def orderly_def)
  moreover have "sysmem_free G base S = Done (0, S1)"
    using inv(2) l1(1,2) by (simp add: sysmem_free_def ex S1_def)
  ultimately show ?thesis using l1(3,4) by (auto simp: S1_def)
qed

lemma sysmem_free_keeps:
  assumes "sysmem_inv S" "has_slots S" "2 \<le> length (allocated S)"
  shows "\<exists>r S1. sysmem_free G base S = Done (r, S1) \<and> sysmem_inv S1 \<and> memory (slmb S1) = memory (slmb S)"
proof (cases "sysmem_has_init G S")
  case True
  have c: "unat (cnt (reserved (slmb S))) < MAX_LMB_REGIONS" using assms(2) by (simp add: has_slots_def MAX_LMB_REGIONS_def)
  show ?thesis
  proof (cases "List.extract (\<lambda>b. mbase b = base \<or> orig_base b = base) (allocated S)")
    case None
    with True assms(1) show ?thesis by (simp add: sysmem_free_def)
  next
    case (Some t)
    then obtain xs b ys where e: "allocated S = xs @ b # ys" "mbase b = base \<or> orig_base b = base" "\<forall>c\<in>set xs. mbase c \<noteq> base \<and> orig_base c \<noteq> base"
      by (cases t) (auto simp: extract_Some_iff)
    moreover have "xs @ ys \<noteq> []" using e(1) assms(3) by (cases xs) auto
    ultimately show ?thesis using sysmem_free_spec [OF assms(1) True c] by blast
  qed
qed (use assms(1) in \<open>simp add: sysmem_free_def\<close>)

section \<open>Initialisation\<close>

definition brange :: "bank \<Rightarrow> u32 \<times> u32" where
  "brange b = (ucast (bstart b), ucast (bsize b))"

abbreviation live_banks :: "bank list \<Rightarrow> bank list" where
  "live_banks bs \<equiv> filter (\<lambda>b. bsize b \<noteq> 0) bs"

lemma add_banks_spec:
  assumes "sound (memory (slmb S))" "\<forall>b\<in>set (live_banks bs). proper (brange b) \<and> range_of (brange b) \<inter> covers (memory (slmb S)) = {}"
    and "apart (map brange (live_banks bs))" "unat (cnt (memory (slmb S))) + length (live_banks bs) \<le> MAX_LMB_REGIONS"
  shows "\<exists>l1. add_banks bs S = Done (0, S\<lparr>slmb := l1\<rparr>) \<and> reserved l1 = reserved (slmb S) \<and> sound (memory l1) \<and>
     covers (memory l1) = covers (memory (slmb S)) \<union> (\<Union>b\<in>set (live_banks bs). range_of (brange b)) \<and>
     (\<forall>b\<in>set (live_banks bs). within (memory l1) (brange b)) \<and>
     (\<forall>r. proper r \<and> within (memory (slmb S)) r \<longrightarrow> within (memory l1) r)"
  using assms
proof (induction bs arbitrary: S)
  case Nil
  then show ?case by (intro exI [of _ "slmb S"]) simp
next
  case (Cons b bs)
  show ?case
  proof (cases "bsize b = 0")
    case True
    then show ?thesis using Cons.IH [of S] Cons.prems by simp
  next
    case False
    let ?l = "slmb S"
    have b: "proper (brange b)" "range_of (brange b) \<inter> covers (memory ?l) = {}" "unat (cnt (memory ?l)) < MAX_LMB_REGIONS"
      using Cons.prems False by auto
    from add_region_law [OF Cons.prems(1) b] obtain res g where
      g: "lmb_add_region (memory ?l) (fst (brange b)) (snd (brange b)) = Done (res, g)" "0 \<le> res" "sound g"
        "covers g = covers (memory ?l) \<union> range_of (brange b)" "unat (cnt g) \<le> Suc (unat (cnt (memory ?l)))" by blast
    have ns: "unat (fst (brange b)) + unat (snd (brange b)) < 2 ^ 32" using b(1) by (simp add: proper_def)
    note w = add_region_within [OF Cons.prems(1) ns g(1)]
    define S1 where "S1 = S\<lparr>slmb := ?l\<lparr>memory := g\<rparr>\<rparr>"
    have "snd (brange b) \<noteq> 0" using b(1) by (auto simp: proper_def)
    then have add: "sysmem_add (ucast (bstart b)) (ucast (bsize b)) S = Done (0, S1)"
      using g(1,2) by (simp add: sysmem_add_def lmb_add_def brange_def S1_def)
    have "\<forall>c\<in>set (live_banks bs). proper (brange c) \<and> range_of (brange c) \<inter> covers (memory (slmb S1)) = {}"
      using Cons.prems(2,3) False g(4) by (fastforce simp: S1_def apart_def)
    moreover have "apart (map brange (live_banks bs))" "unat (cnt (memory (slmb S1))) + length (live_banks bs) \<le> MAX_LMB_REGIONS"
      using Cons.prems(3,4) False g(5) by (auto simp: S1_def apart_def)
    ultimately obtain l1 where l1: "add_banks bs S1 = Done (0, S1\<lparr>slmb := l1\<rparr>)" "reserved l1 = reserved (slmb S1)" "sound (memory l1)"
      "covers (memory l1) = covers (memory (slmb S1)) \<union> (\<Union>b\<in>set (live_banks bs). range_of (brange b))"
      "\<forall>b\<in>set (live_banks bs). within (memory l1) (brange b)"
      "\<forall>r. proper r \<and> within (memory (slmb S1)) r \<longrightarrow> within (memory l1) r"
      using Cons.IH [of S1] g(3) by (auto simp: S1_def)
    have "add_banks (b # bs) S = Done (0, S\<lparr>slmb := l1\<rparr>)" using False add l1(1) by (simp add: S1_def)
    moreover have "within (memory l1) (brange b)" using w(1) [OF g(2)] l1(6) b(1) by (simp add: S1_def del: split_paired_All)
    moreover have "\<forall>r. proper r \<and> within (memory ?l) r \<longrightarrow> within (memory l1) r" using w(2) l1(6) by (simp add: S1_def)
    ultimately show ?thesis using l1 False g(4) by (intro exI [of _ l1]) (auto simp: S1_def Un_ac)
  qed
qed

lemma sound_bounds:
  assumes "sound rgn" "covers rgn \<noteq> {}" "covers rgn \<subseteq> {lo..<hi}" "p \<in> set (blocks rgn)"
  shows "lo \<le> unat (lbase p)" "lend p \<le> hi"
proof -
  have "solid (blocks rgn)"
  proof (rule ccontr)
    assume n: "\<not> solid (blocks rgn)"
    with sound_blocks(3) [OF assms(1)] obtain q where "blocks rgn = [q]" by (auto simp: length_Suc_conv)
    with n assms(2) show False by (simp add: solid_def span_empty covers_def)
  qed
  then have "0 < unat (lsize p)" using assms(4) by (simp add: solid_def word_less_nat_alt)
  then have "unat (lbase p) \<in> covers rgn" "lend p - 1 \<in> covers rgn"
    using assms(4) by (auto simp: covers_def span_def lend_def intro!: bexI [of _ p])
  then have "unat (lbase p) \<in> {lo..<hi}" "lend p - 1 \<in> {lo..<hi}" using assms(3) by blast+
  then show "lo \<le> unat (lbase p)" "lend p \<le> hi" by auto
qed

lemma fresh_tables:
  assumes "length (region (reserved l)) = 17" "length (region (memory l)) = 17"
  shows "sound (reserved (lmb_init l))" "sound (memory (lmb_init l))" "covers (reserved (lmb_init l)) = {}" "covers (memory (lmb_init l)) = {}"
    "unat (cnt (reserved (lmb_init l))) = 1" "unat (cnt (memory (lmb_init l))) = 1" "blocks (reserved (lmb_init l)) = [block 0 0]"
proof -
  have b: "blocks (lmb_init_region rgn) = [block 0 0]" "sound (lmb_init_region rgn)" if "length (region rgn) = 17" for rgn
  proof -
    show b: "blocks (lmb_init_region rgn) = [block 0 0]"
      using that by (cases "region rgn") (auto simp: lmb_init_region_def set_entry_def blocks_def)
    show "sound (lmb_init_region rgn)"
      using that by (simp add: sound_def b shaped_def tidy_Cons MAX_LMB_REGIONS_def) (simp add: lmb_init_region_def set_entry_def)
  qed
  show "sound (reserved (lmb_init l))" "sound (memory (lmb_init l))" "covers (reserved (lmb_init l)) = {}" "covers (memory (lmb_init l)) = {}"
    "unat (cnt (reserved (lmb_init l))) = 1" "unat (cnt (memory (lmb_init l))) = 1" "blocks (reserved (lmb_init l)) = [block 0 0]"
    using b assms by (simp_all add: lmb_init_def covers_listed span_def) (simp_all add: lmb_init_region_def)
qed

text \<open>What the code that runs before hands over: banks inside the memory map, apart from each other, one of which has room for U-Boot and its stack.\<close>

definition banks_ok :: "bank list \<Rightarrow> bool" where
  "banks_ok bs \<longleftrightarrow> length bs = CONFIG_NR_DRAM_BANKS \<and> apart (map brange (live_banks bs)) \<and>
     (\<forall>b\<in>set (live_banks bs). unat CONFIG_SYS_SDRAM_BASE \<le> unat (bstart b) \<and> unat (bstart b) + unat (bsize b) \<le> 0xe0000000)"

lemma bank_bounds:
  assumes "banks_ok bs" "b \<in> set (live_banks bs)"
  shows "proper (brange b)" "unat (fst (brange b)) = unat (bstart b)" "unat (snd (brange b)) = unat (bsize b)"
    "range_of (brange b) \<subseteq> {unat CONFIG_SYS_SDRAM_BASE..<0xe0000000}" "range_of (brange b) \<noteq> {}"
proof -
  have b: "unat CONFIG_SYS_SDRAM_BASE \<le> unat (bstart b)" "unat (bstart b) + unat (bsize b) \<le> 0xe0000000" "bsize b \<noteq> 0"
    using assms by (auto simp: banks_ok_def)
  have u: "unat (ucast x :: u32) = unat x" if "unat x < 2 ^ 32" for x :: u64
    using that by (simp add: unsigned_ucast_eq take_bit_nat_eq_self)
  show e: "unat (fst (brange b)) = unat (bstart b)" "unat (snd (brange b)) = unat (bsize b)"
    using b(1,2) by (simp_all add: brange_def u)
  have "0 < unat (bsize b)" using b(3) by (simp add: unat_gt_0)
  then show p: "proper (brange b)" using b(2) e by (simp add: proper_def word_less_nat_alt)
  show "range_of (brange b) \<subseteq> {unat CONFIG_SYS_SDRAM_BASE..<0xe0000000}" using b(1,2) e by (auto simp: range_of_def)
  show "range_of (brange b) \<noteq> {}" by (rule proper_nonempty [OF p])
qed

lemma added_banks_orderly:
  assumes len: "length (region (reserved l)) = 17" "length (region (memory l)) = 17"
    and bs: "banks_ok bs" "b0 \<in> set (live_banks bs)"
    and S: "slmb S = lmb_init l" "allocated S = []" "allocated_cnt S = 0"
  shows "\<exists>l1. add_banks bs S = Done (0, S\<lparr>slmb := l1\<rparr>) \<and> orderly (S\<lparr>slmb := l1\<rparr>) \<and> reserved l1 = reserved (lmb_init l) \<and>
     within (memory l1) (brange b0) \<and> covers (memory l1) = (\<Union>b\<in>set (live_banks bs). range_of (brange b))"
proof -
  note f = fresh_tables [OF len]
  have "length (live_banks bs) \<le> CONFIG_NR_DRAM_BANKS" using bs(1) length_filter_le [of _ bs] by (simp add: banks_ok_def)
  then have c: "unat (cnt (memory (slmb S))) + length (live_banks bs) \<le> MAX_LMB_REGIONS"
    using f(6) S(1) by (simp add: CONFIG_NR_DRAM_BANKS_def MAX_LMB_REGIONS_def)
  have "\<forall>b\<in>set (live_banks bs). proper (brange b) \<and> range_of (brange b) \<inter> covers (memory (slmb S)) = {}"
    using bank_bounds(1) [OF bs(1)] f(4) S(1) by simp
  moreover have "sound (memory (slmb S))" "apart (map brange (live_banks bs))" using f(2) S(1) bs(1) by (simp_all add: banks_ok_def)
  ultimately obtain l1 where l1: "add_banks bs S = Done (0, S\<lparr>slmb := l1\<rparr>)" "reserved l1 = reserved (lmb_init l)" "sound (memory l1)"
     "covers (memory l1) = (\<Union>b\<in>set (live_banks bs). range_of (brange b))" "\<forall>b\<in>set (live_banks bs). within (memory l1) (brange b)"
    using add_banks_spec [OF _ _ _ c] f(4) S(1) by auto
  have cov: "covers (memory l1) \<noteq> {}" "covers (memory l1) \<subseteq> {unat CONFIG_SYS_SDRAM_BASE..<0xe0000000}"
    using l1(4) bs(2) bank_bounds(4,5) [OF bs(1)] by auto
  note bd = sound_bounds [OF l1(3) cov]
  have "pool_ok l1" using l1(2,3) f(1) bd(2) by (fastforce simp: pool_ok_def)
  moreover have "\<forall>p\<in>set (blocks (memory l1)). CONFIG_SYS_SDRAM_BASE \<le> lbase p" using bd(1) by (simp add: word_le_nat_alt)
  ultimately have "orderly (S\<lparr>slmb := l1\<rparr>)" using S by (simp add: orderly_def lmb_pool.holds_def apart_def)
  with l1 bs(2) show ?thesis by blast
qed

definition boot_layout :: "gdata \<Rightarrow> bank \<Rightarrow> bool" where
  "boot_layout G b \<longleftrightarrow> unat (bstart b) + 0x200000 \<le> unat (gd_sp G) \<and> unat (gd_sp G) < unat (gd_ram_top G) \<and>
     unat (gd_ram_top G) \<le> unat (bstart b) + unat (bsize b) \<and> unat (gd_ram_top G) < 0xe0000000 \<and>
     unat (gd_ram_top G) - unat (gd_sp G) \<le> 0x1fffffe0 \<and> 4 dvd unat (gd_sp G) \<and> 4 dvd unat (gd_ram_top G)"

lemma is_aligned_4: "is_aligned x 4 \<longleftrightarrow> 4 dvd unat x"
proof -
  have "x AND 3 = take_bit 2 x" by (simp add: take_bit_eq_mask mask_eq_exp_minus_1)
  then have "unat (x AND 3) = unat x mod 4" by (simp add: take_bit_eq_mod unat_mod_distrib)
  then show ?thesis by (simp add: is_aligned_def unat_eq_zero [symmetric] dvd_eq_mod_eq_0)
qed

lemma ALIGN_4: "4 dvd unat sz \<Longrightarrow> ALIGN sz 4 = sz"
  using align_up_multiple [of 2 sz] by (simp add: ALIGN_def lmb_align_up_def)

lemma uboot_stack_kinds:
  "plain_kind MEM_UBOOT" "plain_kind MEM_STACK" "aname (mem_attr ! MEM_UBOOT) \<noteq> aname (mem_attr ! MEM_STACK)"
  "4 dvd unat sz \<Longrightarrow> block_bytes (mem_attr ! MEM_UBOOT) sz = sz" "4 dvd unat sz \<Longrightarrow> block_bytes (mem_attr ! MEM_STACK) sz = sz"
  by (simp_all add: plain_kind_def mem_ids mem_attr_def MEM_DEFINE_def has_flag_def mem_flags block_bytes_def ALIGN_4 ascii_def)

text \<open>The numbers of the two calls at the end of the initialisation.\<close>

lemma boot_sizes:
  assumes lay: "boot_layout G b" and bs: "banks_ok bs" "b \<in> set (live_banks bs)" "bstart bk \<le> bstart b"
  defines "usz \<equiv> ucast (gd_ram_top G) - gd_sp G" and "stk \<equiv> gd_sp G - CONFIG_SYS_STACK_SIZE"
  shows "ucast (gd_ram_top G - ucast (gd_sp G)) = usz" "unat usz = unat (gd_ram_top G) - unat (gd_sp G)"
    "unat stk = unat (gd_sp G) - 0x200000" "0x200000 \<le> unat (gd_sp G)"
    "CONFIG_SYS_SDRAM_BASE \<le> stk" "CONFIG_SYS_SDRAM_BASE \<le> gd_sp G" "is_aligned stk 4" "is_aligned (gd_sp G) 4"
    "4 dvd unat usz" "bstart bk \<le> ucast stk" "bstart bk \<le> ucast (gd_sp G)"
    "{unat (gd_sp G)..<unat (gd_ram_top G)} \<subseteq> range_of (brange b)" "{unat stk..<unat (gd_sp G)} \<subseteq> range_of (brange b)"
proof -
  have L: "unat (bstart b) + 0x200000 \<le> unat (gd_sp G)" "unat (gd_sp G) < unat (gd_ram_top G)"
    "unat (gd_ram_top G) \<le> unat (bstart b) + unat (bsize b)" "unat (gd_ram_top G) < 0xe0000000"
    "4 dvd unat (gd_sp G)" "4 dvd unat (gd_ram_top G)"
    using lay by (simp_all add: boot_layout_def)
  have top: "unat (ucast (gd_ram_top G) :: u32) = unat (gd_ram_top G)"
    using L(4) by (simp add: unsigned_ucast_eq take_bit_nat_eq_self)
  have wide: "unat (ucast x :: u64) = unat x" for x :: u32
  proof -
    have "unat x < 2 ^ LENGTH(32)" by (rule unsigned_less)
    then show ?thesis by (simp add: unsigned_ucast_eq take_bit_nat_eq_self)
  qed
  show us: "unat usz = unat (gd_ram_top G) - unat (gd_sp G)" using L(2) top by (simp add: usz_def unat_sub word_le_nat_alt)
  have "unat (gd_ram_top G - ucast (gd_sp G)) = unat (gd_ram_top G) - unat (gd_sp G)"
    using L(2) by (simp add: unat_sub word_le_nat_alt wide)
  then have "unat (ucast (gd_ram_top G - ucast (gd_sp G)) :: u32) = unat usz"
    using L(4) us by (simp add: unsigned_ucast_eq take_bit_nat_eq_self)
  then show "ucast (gd_ram_top G - ucast (gd_sp G)) = usz" by (simp add: word_unat_eq_iff)
  show le: "0x200000 \<le> unat (gd_sp G)" using L(1) by linarith
  then show st: "unat stk = unat (gd_sp G) - 0x200000" by (simp add: stk_def CONFIG_SYS_STACK_SIZE_def unat_sub word_le_nat_alt)
  have b: "unat CONFIG_SYS_SDRAM_BASE \<le> unat (bstart b)" using bs(1,2) by (auto simp: banks_ok_def)
  then have "unat CONFIG_SYS_SDRAM_BASE \<le> unat stk" "unat CONFIG_SYS_SDRAM_BASE \<le> unat (gd_sp G)" using L(1) st by linarith+
  then show "CONFIG_SYS_SDRAM_BASE \<le> stk" "CONFIG_SYS_SDRAM_BASE \<le> gd_sp G" by (simp_all only: word_le_nat_alt)
  show "is_aligned (gd_sp G) 4" using L(5) by (simp add: is_aligned_4)
  have "4 dvd (0x200000 :: nat)" by simp
  then have "4 dvd unat stk" unfolding st using L(5) by (intro dvd_diff_nat)
  then show "is_aligned stk 4" by (simp add: is_aligned_4)
  show "4 dvd unat usz" unfolding us using L(5,6) by (intro dvd_diff_nat)
  have "unat (bstart bk) \<le> unat stk" "unat (bstart bk) \<le> unat (gd_sp G)" using bs(3) L(1) st unfolding word_le_nat_alt by linarith+
  then show "bstart bk \<le> ucast stk" "bstart bk \<le> ucast (gd_sp G)" by (simp_all add: word_le_nat_alt wide)
  show "{unat (gd_sp G)..<unat (gd_ram_top G)} \<subseteq> range_of (brange b)" "{unat stk..<unat (gd_sp G)} \<subseteq> range_of (brange b)"
    using bank_bounds(2,3) [OF bs(1,2)] L(1-3) st by (auto simp: range_of_def)
qed

lemma within_sub: "within rgn r \<Longrightarrow> X \<subseteq> range_of r \<Longrightarrow> \<exists>m\<in>set (blocks rgn). X \<subseteq> span m"
  by (auto simp: within_def)

lemma sysmem_init_spec:
  assumes len: "length (region (reserved (slmb S))) = 17" "length (region (memory (slmb S))) = 17"
    and bs: "gd_bd G = Some (bk # bks)" "banks_ok (bk # bks)" "b0 \<in> set (live_banks (bk # bks))" "bstart bk \<le> bstart b0"
    and lay: "boot_layout G b0" and heap: "heap_ok W (heap S)" "heap_ok W (heap S + 1)"
  defines "usz \<equiv> ucast (gd_ram_top G) - gd_sp G" and "stk \<equiv> gd_sp G - CONFIG_SYS_STACK_SIZE"
  shows "\<exists>S1. sysmem_init G W S = Done (0, S1) \<and> sysmem_inv S1 \<and> sysmem_has_init G S1 \<and>
     covers (memory (slmb S1)) = (\<Union>b\<in>set (live_banks (bk # bks)). range_of (brange b)) \<and>
     allocated S1 = [new_block (gd_sp G) usz (gd_sp G) (mem_attr ! MEM_UBOOT),
       new_block stk CONFIG_SYS_STACK_SIZE stk (mem_attr ! MEM_STACK)]"
proof -
  define S0 where "S0 = (if gd_reloc G then S\<lparr>slmb := lmb_init (slmb S), allocated := [], kmem_resv := [], allocated_cnt := 0, kmem_resv_cnt := 0, has_initr := True\<rparr>
     else S\<lparr>slmb := lmb_init (slmb S), allocated := [], kmem_resv := [], allocated_cnt := 0, kmem_resv_cnt := 0, has_initf := True\<rparr>)"
  have s0: "slmb S0 = lmb_init (slmb S)" "allocated S0 = []" "allocated_cnt S0 = 0" "heap S0 = heap S" "sysmem_has_init G S0"
    by (simp_all add: S0_def sysmem_has_init_def)
  obtain l1 where l1: "add_banks (bk # bks) S0 = Done (0, S0\<lparr>slmb := l1\<rparr>)" "orderly (S0\<lparr>slmb := l1\<rparr>)"
    "reserved l1 = reserved (lmb_init (slmb S))" "within (memory l1) (brange b0)"
    "covers (memory l1) = (\<Union>b\<in>set (live_banks (bk # bks)). range_of (brange b))"
    using added_banks_orderly [OF len bs(2,3) s0(1-3)] by blast
  define S2 where "S2 = S0\<lparr>slmb := l1\<rparr>"
  note f = fresh_tables [OF len]
  note z = boot_sizes [OF lay bs(2-4), folded usz_def stk_def]
  have run: "sysmem_init G W S =
      bind_outcome (sysmem_alloc_base G W MEM_UBOOT (gd_sp G) usz S2) (\<lambda>(p, S4).
        if p = 0 then Done (- ENOMEM, S4)
        else bind_outcome (sysmem_alloc_base G W MEM_STACK stk CONFIG_SYS_STACK_SIZE S4) (\<lambda>(q, S5).
          if q = 0 then Done (- ENOMEM, S5) else Done (0, S5)))"
    using l1(1) bs(1) unfolding sysmem_init_def Let_def S0_def [symmetric] board_sysmem_reserve_def stk_def
    by (simp add: S0_def S2_def z(1) del: add_banks.simps)
  have s2: "slmb S2 = l1" "allocated S2 = []" "heap S2 = heap S" "sysmem_has_init G S2" "has_slots S2" "orderly S2"
    using s0 l1 f(5) by (simp_all add: S2_def sysmem_has_init_def has_slots_def)
  have ub: "unat (gd_sp G) + unat usz = unat (gd_ram_top G)" "unat (gd_ram_top G) < 0xe0000000" "0 < usz" "unat usz \<le> 0x1fffffe0"
    using z(2) lay by (auto simp: boot_layout_def word_less_nat_alt)
  have us: "block_bytes (mem_attr ! MEM_UBOOT) usz = usz" by (rule uboot_stack_kinds(4) [OF z(9)])
  obtain m where m: "m \<in> set (blocks (memory l1))" "{unat (gd_sp G)..<unat (gd_sp G) + unat usz} \<subseteq> span m"
    using within_sub [OF l1(4) z(12)] ub(1) by auto
  have cl: "clear_of (gd_sp G) usz (blocks (reserved l1))" using l1(3) f(7) by (simp add: clear_of_def lmb_addrs_overlap_def)
  obtain S3 where S3: "sysmem_alloc_base G W MEM_UBOOT (gd_sp G) usz S2 = Done (gd_sp G, S3)" "orderly S3"
    "pool_takes l1 (gd_sp G, usz) (slmb S3)" "allocated S3 = [new_block (gd_sp G) usz (gd_sp G) (mem_attr ! MEM_UBOOT)]"
    "heap S3 = heap S + 1" "has_initf S3 = has_initf S2" "has_initr S3 = has_initr S2"
    using sysmem_alloc_base_grants [OF s2(6,5,4) bs(1) z(11) uboot_stack_kinds(1) _ z(6,8) _ ub(3,4) us [symmetric], of m W] ub(1,2) cl m heap(1) s2(1-3)
    by auto
  have ok: "pool_ok l1" using orderly_pool(1) [OF s2(6)] s2(1) by simp
  note t = pool_takesD [OF ok S3(3)]
  have s3: "sysmem_has_init G S3" "has_slots S3" "sysmem_inv S3"
    using s2(4) S3 t(6) l1(3) f(5) by (simp_all add: sysmem_has_init_def has_slots_def sysmem_inv_def)
  have sk: "block_bytes (mem_attr ! MEM_STACK) CONFIG_SYS_STACK_SIZE = CONFIG_SYS_STACK_SIZE" "unat CONFIG_SYS_STACK_SIZE = 0x200000"
    "0 < CONFIG_SYS_STACK_SIZE" "unat CONFIG_SYS_STACK_SIZE \<le> 0x1fffffe0"
    using uboot_stack_kinds(5) [of CONFIG_SYS_STACK_SIZE] by (simp_all add: CONFIG_SYS_STACK_SIZE_def)
  have sp: "unat stk + unat CONFIG_SYS_STACK_SIZE = unat (gd_sp G)" using z(3,4) sk(2) by simp
  have "vacant S3 stk CONFIG_SYS_STACK_SIZE"
    using t(5) l1(3) f(3) within_sub [OF l1(4) z(13)] sp t(3) ub(1) by (auto simp: vacant_def range_of_def)
  moreover have "proper (stk, CONFIG_SYS_STACK_SIZE)" using sp ub(1,2) sk(3) by (simp add: proper_def)
  ultimately have cl2: "clear_of stk CONFIG_SYS_STACK_SIZE (blocks (reserved (slmb S3)))" by (rule vacant_clear_of [OF s3(3)])
  obtain m2 where m2: "m2 \<in> set (blocks (memory (slmb S3)))" "{unat stk..<unat stk + unat CONFIG_SYS_STACK_SIZE} \<subseteq> span m2"
    using within_sub [OF l1(4) z(13)] sp t(3) by auto
  have nm: "\<forall>b\<in>set (allocated S3). aname (attr b) \<noteq> aname (mem_attr ! MEM_STACK)"
    using uboot_stack_kinds(3) by (simp add: S3(4) new_block_def)
  have bnd: "unat stk + unat CONFIG_SYS_STACK_SIZE < 0xe0000000" using sp ub(1,2) by simp
  obtain S4 where S4: "sysmem_alloc_base G W MEM_STACK stk CONFIG_SYS_STACK_SIZE S3 = Done (stk, S4)" "orderly S4"
    "pool_takes (slmb S3) (stk, CONFIG_SYS_STACK_SIZE) (slmb S4)"
    "allocated S4 = allocated S3 @ [new_block stk CONFIG_SYS_STACK_SIZE stk (mem_attr ! MEM_STACK)]"
    "has_initf S4 = has_initf S3" "has_initr S4 = has_initr S3"
    using sysmem_alloc_base_grants [OF S3(2) s3(2,1) bs(1) z(10) uboot_stack_kinds(2) nm z(5,7) bnd sk(3,4) sk(1) [symmetric] cl2 m2, of W]
      heap(2) S3(5) by auto
  have "stk \<noteq> 0" "gd_sp G \<noteq> 0" using z(5,6) by (auto simp: CONFIG_SYS_SDRAM_BASE_def)
  then have "sysmem_init G W S = Done (0, S4)" using S3(1) S4(1) by (simp add: run)
  moreover have "sysmem_inv S4" "sysmem_has_init G S4" using S4 s3(1) by (simp_all add: sysmem_inv_def sysmem_has_init_def)
  moreover have "covers (memory (slmb S4)) = (\<Union>b\<in>set (live_banks (bk # bks)). range_of (brange b))"
    using pool_takesD(3) [OF t(1) S4(3)] t(3) l1(5) by simp
  ultimately show ?thesis using S4(4) S3(4) by auto
qed

section \<open>Sequences of operations\<close>

text \<open>
  A step of the boot code: a block is asked for at a place, by number or by name, or one is given back while others remain.  The table has
  room, names contain no NUL, sizes stay below 512 MiB, and \<open>strdup\<close> succeeds; \<open>malloc\<close> may fail.
\<close>

inductive sm_step :: "gdata \<Rightarrow> smstate \<Rightarrow> smstate \<Rightarrow> bool" for G where
  alloc: "has_slots S \<Longrightarrow> unat sz \<le> 0x1fffffe0 \<Longrightarrow> mem_name = None \<or> good_name mem_name \<Longrightarrow> heap_ok W (heap S) \<Longrightarrow>
    sysmem_alloc_align_base G W mid mem_name base sz SYSMEM_ALLOC_NO_ALIGN S = Done (p, S1) \<Longrightarrow> sm_step G S S1"
| free: "has_slots S \<Longrightarrow> 2 \<le> length (allocated S) \<Longrightarrow> sysmem_free G base S = Done (r, S1) \<Longrightarrow> sm_step G S S1"

lemma alloc_no_align:
  assumes "sysmem_inv S" "has_slots S" "unat sz \<le> 0x1fffffe0" "gd_bd G = Some (bk # bks)" "mem_name = None \<or> good_name mem_name"
    "heap_ok W (heap S)"
  shows "\<exists>p S1. sysmem_alloc_align_base G W mid mem_name base sz SYSMEM_ALLOC_NO_ALIGN S = Done (p, S1) \<and> sysmem_inv S1 \<and> memory (slmb S1) = memory (slmb S) \<and>
     (allocated S1 = allocated S \<or> block_added S S1 p sz)"
  using sysmem_alloc_align_base_spec [OF assms(1,2) _ _ assms(3,4), of 0 mem_name W mid base] assms(5,6)
  by (auto simp: SYSMEM_ALLOC_NO_ALIGN_def)

lemma sm_step_inv:
  assumes "sm_step G S S1" "gd_bd G = Some (bk # bks)" "sysmem_inv S"
  shows "sysmem_inv S1 \<and> memory (slmb S1) = memory (slmb S)"
  using assms(1)
proof cases
  case (alloc sz mem_name W mid base p)
  then show ?thesis using alloc_no_align [OF assms(3) alloc(1,2) assms(2) alloc(3,4), of mid base] by auto
next
  case (free base r)
  then show ?thesis using sysmem_free_keeps [OF assms(3) free(1,2), of G base] by auto
qed

lemma sm_steps_inv:
  assumes "(sm_step G)\<^sup>*\<^sup>* S S1" "gd_bd G = Some (bk # bks)" "sysmem_inv S"
  shows "sysmem_inv S1 \<and> memory (slmb S1) = memory (slmb S)"
  using assms
proof (induction rule: rtranclp_induct)
  case (step S1 S2)
  then show ?case using sm_step_inv [OF step.hyps(2) assms(2)] by simp
qed simp

section \<open>Properties\<close>

text \<open>A RK3128 board with 1 GiB of memory, the last 48 MiB of which U-Boot uses, before its relocation.\<close>

definition board_gd :: gdata where
  "board_gd = \<lparr>gd_reloc = False, gd_sp = 0x9d000000, gd_ram_top = 0xa0000000, gd_ext_size = 0,
     gd_bd = Some (\<lparr>bstart = 0x60000000, bsize = 0x40000000\<rparr> # replicate 11 \<lparr>bstart = 0, bsize = 0\<rparr>)\<rparr>"

definition heap_fine :: smworld where
  "heap_fine = \<lparr>heap_ok = (\<lambda>_. True), stale_flags = 0, stale_aliases = [None, None]\<rparr>"

definition cold :: smstate where
  "cold = \<lparr>slmb = board, allocated = [], kmem_resv = [], allocated_cnt = 0, kmem_resv_cnt = 0, has_initf = False, has_initr = False,
     ram = (\<lambda>_. 0), heap = 0\<rparr>"



text \<open>C21: a block of a kind that goes where the caller says is granted exactly there, whenever the bytes it needs are memory of which
  nothing is reserved and no block has its name; \<open>sysmem_free\<close> of that address then removes exactly this block, and reserves what was
  reserved before.\<close>

theorem sysmem_alloc_free_roundtrip:
  assumes inv: "sysmem_inv S" "has_slots S" "sysmem_has_init G S" and bd: "gd_bd G = Some (bk # bks)" "bstart bk \<le> ucast base"
    and mid: "plain_kind mid" "\<forall>b\<in>set (allocated S). aname (attr b) \<noteq> aname (mem_attr ! mid) \<and> orig_base b \<noteq> base"
    and base: "CONFIG_SYS_SDRAM_BASE \<le> base" "is_aligned base 4" "unat base + unat sz < 0xe0000000"
    and sz: "0 < sz" "unat sz \<le> 0x1fffffe0" and vac: "vacant S base (block_bytes (mem_attr ! mid) sz)" and heap: "heap_ok W (heap S)"
  shows "\<exists>S1 S2. sysmem_alloc_base G W mid base sz S = Done (base, S1) \<and>
     allocated S1 = allocated S @ [new_block base (block_bytes (mem_attr ! mid) sz) base (mem_attr ! mid)] \<and>
     sysmem_free G base S1 = Done (0, S2) \<and> allocated S2 = allocated S \<and>
     covers (reserved (slmb S2)) = covers (reserved (slmb S)) \<and> memory (slmb S2) = memory (slmb S) \<and> sysmem_inv S2"
proof -
  let ?a = "mem_attr ! mid"
  define asz where "asz = block_bytes ?a sz"
  have ord: "orderly S" using inv(1) by (simp add: sysmem_inv_def)
  have al: "unat sz \<le> unat (ALIGN sz 4)" "unat (ALIGN sz 4) < unat sz + 4" using ALIGN_bounds [of sz] sz by simp_all
  then have as: "unat sz \<le> unat asz" "unat asz \<le> unat sz + 8" using sz(2) by (simp_all add: asz_def block_bytes_def unat_word_ariths)
  then have pr: "proper (base, asz)" using sz(1) base(3) by (auto simp: proper_def word_less_nat_alt)
  have cl: "clear_of base asz (blocks (reserved (slmb S)))" using vacant_clear_of [OF inv(1) vac] pr by (simp add: asz_def)
  obtain m where m: "m \<in> set (blocks (memory (slmb S)))" "{unat base..<unat base + unat asz} \<subseteq> span m"
    using vac by (auto simp: vacant_def asz_def)
  have nm: "\<forall>b\<in>set (allocated S). aname (attr b) \<noteq> aname ?a" using mid(2) by blast
  let ?b = "new_block base asz base ?a"
  obtain S1 where S1: "sysmem_alloc_base G W mid base sz S = Done (base, S1)" "orderly S1" "pool_takes (slmb S) (base, asz) (slmb S1)"
    "allocated S1 = allocated S @ [?b]" "has_initf S1 = has_initf S" "has_initr S1 = has_initr S"
    using sysmem_alloc_base_grants [OF ord inv(2,3) bd mid(1) nm base sz asz_def cl m heap] by blast
  note t = pool_takesD [OF orderly_pool(1) [OF ord] S1(3)]
  have inv1: "sysmem_inv S1" "sysmem_has_init G S1" "unat (cnt (reserved (slmb S1))) < MAX_LMB_REGIONS"
    using S1 inv(2,3) t(6) by (simp_all add: sysmem_inv_def sysmem_has_init_def has_slots_def MAX_LMB_REGIONS_def)
  have "mbase c \<noteq> base \<and> orig_base c \<noteq> base" if "c \<in> set (allocated S)" for c
  proof -
    have "mbase c \<noteq> base"
    proof
      assume "mbase c = base"
      then have "unat base \<in> mspan c" "unat base \<in> range_of (base, asz)"
        using allocated_covered(2) [OF ord that] pr by (simp_all add: mspan_def range_of_def proper_def word_less_nat_alt)
      with allocated_covered(1) [OF ord that] t(4) show False by blast
    qed
    with mid(2) that show ?thesis by blast
  qed
  then obtain S2 where "sysmem_free G base S1 = Done (0, S2)" "sysmem_inv S2" "allocated S2 = allocated S"
    "covers (reserved (slmb S2)) = covers (reserved (slmb S1)) - mspan ?b" "memory (slmb S2) = memory (slmb S1)"
    using sysmem_free_spec [OF inv1, of "allocated S" ?b "[]" base] S1(4) inv(1) by (auto simp: sysmem_inv_def new_block_def)
  moreover have "mspan ?b = range_of (base, asz)" by (simp add: mspan_def range_of_def new_block_def)
  ultimately show ?thesis using S1(1,4) t(3,4,5) unfolding asz_def [symmetric] by auto
qed

text \<open>The state of that board after the initialisation.\<close>

definition warm :: smstate where
  "warm = \<lparr>slmb = \<lparr>memory = table_of 1 [block 0x60000000 0x40000000], reserved = table_of 1 [block 0x9ce00000 0x3200000]\<rparr>,
     allocated = [new_block 0x9d000000 0x3000000 0x9d000000 (mem_attr ! MEM_UBOOT), new_block 0x9ce00000 0x200000 0x9ce00000 (mem_attr ! MEM_STACK)],
     kmem_resv = [], allocated_cnt = 2, kmem_resv_cnt = 0, has_initf = True, has_initr = False, ram = (\<lambda>_. 0), heap = 2\<rparr>"

lemma warm_inv: "sysmem_inv warm"
proof -
  have names: "good_name (aname (mem_attr ! MEM_UBOOT))" "good_name (aname (mem_attr ! MEM_STACK))"
    using table_name [of MEM_UBOOT] table_name [of MEM_STACK] mem_attr_names [of MEM_UBOOT] mem_attr_names [of MEM_STACK] by (simp_all add: mem_ids)
  have "pool_ok (slmb warm)" by (simp add: pool_ok_def warm_def board_simps)
  moreover have "pool_held (slmb warm) (mrange b)" if "b \<in> set (allocated warm)" for b
    using that by (auto simp: warm_def pool_held_def proper_def within_def mrange_def new_block_def range_of_def span_def board_simps)
  moreover have "apart (map mrange (allocated warm))" by (simp add: warm_def apart_def mrange_def new_block_def range_of_def)
  ultimately have "lmb_pool.holds (slmb warm) (map mrange (allocated warm))" by (auto simp: lmb_pool.holds_def)
  then show ?thesis using names uboot_stack_kinds(3)
    by (simp add: sysmem_inv_def orderly_def) (simp add: mspan_def covers_def span_def warm_def new_block_def board_simps CONFIG_SYS_SDRAM_BASE_def)
qed

theorem sysmem_alloc_free_roundtrip_witness:
  "\<exists>S1 S2. sysmem_alloc_base board_gd heap_fine MEM_RAMDISK 0x6a200000 0x123456 warm = Done (0x6a200000, S1) \<and>
     allocated S1 = allocated warm @ [new_block 0x6a200000 (block_bytes (mem_attr ! MEM_RAMDISK) 0x123456) 0x6a200000 (mem_attr ! MEM_RAMDISK)] \<and>
     sysmem_free board_gd 0x6a200000 S1 = Done (0, S2) \<and> allocated S2 = allocated warm \<and>
     covers (reserved (slmb S2)) = covers (reserved (slmb warm)) \<and> memory (slmb S2) = memory (slmb warm) \<and> sysmem_inv S2"
proof (rule sysmem_alloc_free_roundtrip)
  show "sysmem_inv warm" by (rule warm_inv)
  show "gd_bd board_gd = Some (\<lparr>bstart = 0x60000000, bsize = 0x40000000\<rparr> # replicate 11 \<lparr>bstart = 0, bsize = 0\<rparr>)" by (simp add: board_gd_def)
  show "plain_kind MEM_RAMDISK" by (simp add: plain_kind_def mem_ids mem_attr_def MEM_DEFINE_2_def has_flag_def mem_flags)
  show "\<forall>b\<in>set (allocated warm). aname (attr b) \<noteq> aname (mem_attr ! MEM_RAMDISK) \<and> orig_base b \<noteq> 0x6a200000"
    by (simp add: warm_def new_block_def mem_ids mem_attr_def MEM_DEFINE_def MEM_DEFINE_2_def ascii_def)
  have "block_bytes (mem_attr ! MEM_RAMDISK) 0x123456 = 0x12345c"
    by (simp add: block_bytes_def mem_ids mem_attr_def MEM_DEFINE_2_def has_flag_def mem_flags ALIGN_def)
  then show "vacant warm 0x6a200000 (block_bytes (mem_attr ! MEM_RAMDISK) 0x123456)"
    by (simp add: vacant_def warm_def covers_def span_def board_simps)
qed (simp_all add: has_slots_def sysmem_has_init_def warm_def board_gd_def table_of_def is_aligned_def CONFIG_SYS_SDRAM_BASE_def heap_fine_def)

section \<open>Corner cases of the code\<close>

text \<open>A second request for the same name is granted at every address from the start of the block on, even behind its end.\<close>

lemma double_alloc_behind:
  "aname (attr b) = Some n \<Longrightarrow> 0 \<notin> set n \<Longrightarrow> mbase b \<le> base \<Longrightarrow> sz \<le> msize b \<Longrightarrow> scan_allocated (Some n) base sz (b # bs) = Done Again"
  by simp

text \<open>U-Boot itself is not recorded when memory ends at the end of the range the code manages, as with 2 GiB.\<close>

lemma top_of_memory_unmanaged:
  "sysmem_has_init G S \<Longrightarrow> CONFIG_SYS_SDRAM_BASE \<le> base \<Longrightarrow> base + sz = 0xe0000000 \<Longrightarrow>
     sysmem_alloc_base G W mid base sz S = Done (base, S)"
  by (simp add: sysmem_alloc_base_def sysmem_alloc_align_base_def CONFIG_SYS_SDRAM_BASE_def SDRAM_MAX_SIZE_def)

text \<open>\<open>sysmem_alloc\<close> of a kind that is not placed under the stack fails on every board whose memory does not start at 0.\<close>

lemma alloc_anywhere_fails:
  assumes "sysmem_has_init G S" "gd_bd G = Some (bk # bks)" "2 < bstart bk" "MEM_UNK < mid" "mid < MEM_BY_NAME" "sz < 0xdffffff0"
    "\<not> has_flag (aflags (mem_attr ! mid)) F_HIGHEST_MEM" "\<not> has_flag (aflags (mem_attr ! mid)) (F_IGNORE_INVISIBLE OR F_NO_FAIL_DUMP)"
    "\<not> has_flag (aflags (mem_attr ! mid)) F_IGNORE_INVISIBLE"
  shows "sysmem_alloc G W mid sz S = Done (0, S)"
proof -
  have "id_base G (aflags (mem_attr ! mid)) SYSMEM_ALLOC_ANYWHERE sz = Done None"
    using assms(2,3,7,9) by (simp add: id_base_def bank_at_def SYSMEM_ALLOC_ANYWHERE_def)
  moreover have "\<not> CONFIG_SYS_SDRAM_BASE + SDRAM_MAX_SIZE \<le> SYSMEM_ALLOC_ANYWHERE + sz"
    using assms(6) by (simp add: CONFIG_SYS_SDRAM_BASE_def SDRAM_MAX_SIZE_def SYSMEM_ALLOC_ANYWHERE_def word_le_nat_alt word_less_nat_alt unat_word_ariths)
  moreover have "mid < MEM_MAX" "mid \<noteq> MEM_BY_NAME" "mid \<noteq> MEM_KMEM_RESERVED" using assms(5) by (simp_all add: mem_ids)
  ultimately show ?thesis using assms(1,4,8) by (simp add: sysmem_alloc_def sysmem_alloc_align_base_def alloc_out_def Let_def)
qed

text \<open>Reserved memory of the kernel whose name is an alias is taken for a block of the boot code.\<close>

lemma kernel_memory_alias: "sysmem_alias2name (ascii ''ramoops'') MEM_KMEM_RESERVED = (Some (ascii ''SHM''), MEM_SHM)"
  by code_simp

text \<open>Before the initialisation the outcome depends on what the stack held.\<close>

lemma alloc_before_init:
  "\<not> sysmem_has_init G S \<Longrightarrow> sysmem_alloc_base G W mid base sz S = Done (alloc_out (stale_flags W) base, S)"
  by (simp add: sysmem_alloc_base_def sysmem_alloc_align_base_def)

text \<open>The search for temporary memory leaves what the rounding of its size added reserved.\<close>

lemma temporary_memory_leaks:
  "map_outcome (\<lambda>(p, S). (p, blocks (reserved (slmb S)))) (sysmem_alloc_temporary_mem board_gd 0x100 warm) =
     Done (0x9cdfdc00, [block 0x9cdfdd00 0x300, block 0x9ce00000 0x3200000])"
  by (simp add: sysmem_alloc_temporary_mem_def sysmem_has_init_def warm_def board_gd_def CONFIG_SYS_STACK_SIZE_def
      table_eval lmb_alloc_base_quiet_def take_area.simps lmb_overlaps_region_def lmb_addrs_overlap_def lmb_align_down_def
      lmb_align_up_def LMB_ALLOC_ANYWHERE_def lmb_free_def) (simp add: numeral_eq_Suc)

end
