(* ===== verification/BiDram.thy ===== *)
theory BiDram
  imports SysMemUse
begin

text \<open>
  The manager of the memory banks (\<open>lib/bidram.c\<close>): the banks the loader found, less the regions the boot code must not see (trusted
  firmware, OP-TEE, holes between banks), make up \<open>gd->bd->bi_dram\<close>, from which \<open>lib/sysmem.c\<close> takes its memory.  The functions that read the loader's
  parameters are arguments: the list \<open>board_bidram_parse_fn\<close> yields, and the three regions \<open>board_bidram_reserve\<close> asks for.
\<close>

section \<open>State\<close>

definition MAX_BAD_MEMBLK :: nat where "MAX_BAD_MEMBLK = 8"

text \<open>\<open>struct bidram\<close>, and beside it the global data and the state of the other manager, which every reservation is passed on to.\<close>

record bidram =
  blmb :: lmb
  resv :: "memblock list"
  has_init :: bool
  fixup :: bool
  base_u64 :: "u64 list"
  size_u64 :: "u64 list"

record bstate = bidram +
  gd :: gdata
  sm :: smstate

section \<open>The table of banks\<close>

definition put_bank :: "bank list \<Rightarrow> nat \<Rightarrow> bank \<Rightarrow> bank list outcome" where
  "put_bank bs i b = (if i < length bs then Done (bs[i := b]) else Fault)"

text \<open>The loop over the reserved regions, which writes the gap behind each: the next index and the banks.\<close>

fun gen_gaps :: "u64 \<Rightarrow> lmb_property list \<Rightarrow> nat \<Rightarrow> bank list \<Rightarrow> (nat \<times> bank list) outcome" where
  "gen_gaps hi [] idx bs = Done (idx, bs)"
| "gen_gaps hi (p # ps) idx bs =
     (let e = ucast (lbase p + lsize p)
      in if hi \<le> e then Done (idx, bs)
         else bind_outcome (put_bank bs idx \<lparr>bstart = e, bsize = (case ps of q # _ \<Rightarrow> ucast (lbase q) - e | [] \<Rightarrow> hi - e)\<rparr>) (\<lambda>bs1.
           gen_gaps hi ps (idx + 1) bs1))"

definition gen_banks :: "lmb \<Rightarrow> u64 \<Rightarrow> bank list \<Rightarrow> (nat \<times> bank list) outcome" where
  "gen_banks l hi bs =
     bind_outcome (entry (memory l) 0) (\<lambda>m. bind_outcome (entry (reserved l) 0) (\<lambda>r.
       if cnt (reserved l) = 1 \<and> lbase r = 0 \<and> lsize r = 0 then
         bind_outcome (put_bank bs 0 \<lparr>bstart = ucast (lbase m), bsize = ucast (lsize m)\<rparr>) (\<lambda>bs1. Done (1, bs1))
       else if length (region (reserved l)) < unat (cnt (reserved l)) then Fault
       else bind_outcome (if lbase r \<noteq> lbase m
              then bind_outcome (put_bank bs 0 \<lparr>bstart = ucast (lbase m), bsize = ucast (lbase r) - ucast (lbase m)\<rparr>) (\<lambda>bs1. Done (1, bs1))
              else Done (0, bs))
            (\<lambda>(idx, bs1). gen_gaps hi (take (unat (cnt (reserved l))) (region (reserved l))) idx bs1)))"

text \<open>The label \<open>done\<close>: the last bank grows by the extension, and the banks above 4 GiB follow.\<close>

definition extend_top :: "u32 \<Rightarrow> u64 \<Rightarrow> nat \<Rightarrow> bank list \<Rightarrow> bank list outcome" where
  "extend_top ext hi idx bs =
     (if ext = 0 then Done bs
      else if idx = 0 \<or> length bs < idx then Fault
      else let b = bs ! (idx - 1)
           in Done (if bstart b + bsize b = hi then bs[idx - 1 := b\<lparr>bsize := bsize b + ucast ext\<rparr>] else bs))"

fun append_high :: "(u64 \<times> u64) list \<Rightarrow> nat \<Rightarrow> bank list \<Rightarrow> bank list outcome" where
  "append_high [] idx bs = Done bs"
| "append_high ((b, s) # rest) idx bs =
     (if s = 0 then append_high rest idx bs
      else bind_outcome (put_bank bs idx \<lparr>bstart = b, bsize = s\<rparr>) (append_high rest (idx + 1)))"

definition bidram_gen_gd_bi_dram :: "bstate \<Rightarrow> bstate outcome" where
  "bidram_gen_gd_bi_dram B =
     (case gd_bd (gd B) of None \<Rightarrow> Done B
      | Some bs \<Rightarrow>
        bind_outcome (gen_banks (blmb B) (gd_ram_top (gd B)) bs) (\<lambda>(idx, bs1).
          bind_outcome (if fixup B
             then bind_outcome (extend_top (gd_ext_size (gd B)) (gd_ram_top (gd B)) idx bs1) (append_high (zip (base_u64 B) (size_u64 B)) idx)
             else Done bs1) (\<lambda>bs2.
            Done (B\<lparr>gd := (gd B)\<lparr>gd_bd := Some bs2\<rparr>\<rparr>))))"

definition bidram_fixup :: "bstate \<Rightarrow> (int \<times> bstate) outcome" where
  "bidram_fixup B = bind_outcome (bidram_gen_gd_bi_dram (B\<lparr>fixup := True\<rparr>)) (\<lambda>B1. Done (0, B1))"

definition bidram_append_size :: "bstate \<Rightarrow> u64" where
  "bidram_append_size B = sum_list (size_u64 B) + ucast (gd_ext_size (gd B))"

section \<open>Reserving\<close>

definition bidram_add :: "u32 \<Rightarrow> u32 \<Rightarrow> bstate \<Rightarrow> (int \<times> bstate) outcome" where
  "bidram_add base sz B =
     (if \<not> has_init B then Done (- ENOSYS, B)
      else if sz = 0 then Done (- EINVAL, B)
      else bind_outcome (lmb_add (blmb B) base sz) (\<lambda>(r, l1). Done (if 0 \<le> r then 0 else r, B\<lparr>blmb := l1\<rparr>)))"

definition bidram_reserved_is_overlap :: "bstate \<Rightarrow> u32 \<Rightarrow> u32 \<Rightarrow> memblock option" where
  "bidram_reserved_is_overlap B base sz =
     (if \<not> has_init B then None else find (\<lambda>b. is_overlap (mbase b) (msize b) base sz) (resv B))"

text \<open>The name and the attributes of a request; \<open>None\<close> is a refusal.  For a block given by name the aliases stay what the heap held.\<close>

definition resv_attr :: "bytes option list \<Rightarrow> nat \<Rightarrow> bytes option \<Rightarrow> (bytes \<times> memblk_attr) option" where
  "resv_attr stale mid mem_name =
     (if mid = MEM_BY_NAME then map_option (\<lambda>s. (s, \<lparr>aname = Some s, aliases = stale, aflags = 0\<rparr>)) mem_name
      else if MEM_UNK < mid \<and> mid < MEM_MAX then map_option (\<lambda>s. (s, mem_attr ! mid)) (aname (mem_attr ! mid))
      else None)"

fun name_taken :: "bytes \<Rightarrow> memblock list \<Rightarrow> bool outcome" where
  "name_taken s [] = Done False"
| "name_taken s (b # bs) =
     (case aname (attr b) of None \<Rightarrow> Fault | Some n \<Rightarrow> if cmp_str n s = 0 then Done True else name_taken s bs)"

definition bidram_core_reserve :: "smworld \<Rightarrow> nat \<Rightarrow> bytes option \<Rightarrow> u32 \<Rightarrow> u32 \<Rightarrow> bstate \<Rightarrow> (int \<times> bstate) outcome" where
  "bidram_core_reserve W mid mem_name base sz B =
     (if \<not> has_init B then Done (- ENOSYS, B)
      else case resv_attr (stale_aliases W) mid mem_name of None \<Rightarrow> Done (- EINVAL, B)
      | Some (nm, a) \<Rightarrow>
        if sz = 0 then Done (0, B)
        else bind_outcome (name_taken nm (resv B)) (\<lambda>taken.
          if taken then Done (- EEXIST, B)
          else bind_outcome (lmb_reserve (blmb B) base sz) (\<lambda>(r, l1).
            let B1 = B\<lparr>blmb := l1\<rparr>
            in if r < 0 then Done (- EINVAL, B1)
               else let B2 = B1\<lparr>sm := (sm B)\<lparr>heap := heap (sm B) + 1\<rparr>\<rparr>
               in if \<not> heap_ok W (heap (sm B)) then Done (- ENOMEM, B2)
               else bind_outcome (if sysmem_has_init (gd B) (sm B)
                      then (if mid = MEM_BY_NAME then sysmem_alloc_base_by_name (gd B) W (Some nm) base sz (sm B2)
                            else sysmem_alloc_base (gd B) W mid base sz (sm B2))
                      else Done (1, sm B2)) (\<lambda>(paddr, S1).
                 if paddr = 0 then Done (- ENOMEM, B2\<lparr>sm := S1\<rparr>)
                 else Done (0, B2\<lparr>sm := S1, resv := resv B @ [new_block base sz 0 a]\<rparr>)))))"

definition bidram_reserve :: "smworld \<Rightarrow> nat \<Rightarrow> u32 \<Rightarrow> u32 \<Rightarrow> bstate \<Rightarrow> (int \<times> bstate) outcome" where
  "bidram_reserve W mid base sz B =
     bind_outcome (bidram_core_reserve W mid None base sz B) (\<lambda>(r, B1).
       if r = 0 then bind_outcome (bidram_gen_gd_bi_dram B1) (\<lambda>B2. Done (r, B2)) else Done (r, B1))"

definition bidram_reserve_by_name :: "smworld \<Rightarrow> bytes option \<Rightarrow> u32 \<Rightarrow> u32 \<Rightarrow> bstate \<Rightarrow> (int \<times> bstate) outcome" where
  "bidram_reserve_by_name W s base sz B =
     bind_outcome (bidram_core_reserve W MEM_BY_NAME s base sz B) (\<lambda>(r, B1).
       if r = 0 then bind_outcome (bidram_gen_gd_bi_dram B1) (\<lambda>B2. Done (r, B2)) else Done (r, B1))"

section \<open>Initialisation\<close>

text \<open>\<open>snprintf\<close> of \<open>BAD_RAM.%d\<close> for a number below 100.\<close>

definition bad_name :: "nat \<Rightarrow> bytes" where
  "bad_name i = ascii ''BAD_RAM.'' @ (if i < 10 then [0x30 + word_of_nat i] else [0x30 + word_of_nat (i div 10), 0x30 + word_of_nat (i mod 10)])"

text \<open>
  The loop over the banks of the loader from index \<open>i\<close> on: the end of memory, the holes found so far, and the banks above 4 GiB.
  The array of the holes has eight entries, and an entry is written before their number is checked.
\<close>

record bank_scan =
  ram_end :: u32
  holes :: "(bytes option \<times> u32 \<times> u32) list"
  high :: nat

definition high_bank :: "memblock \<Rightarrow> bank_scan \<times> bstate \<Rightarrow> bank_scan \<times> bstate" where
  "high_bank b = (\<lambda>(z, B).
     if msize_u64 b \<noteq> 0 \<and> high z < MEM_RESV_COUNT
     then (z\<lparr>high := high z + 1\<rparr>, B\<lparr>base_u64 := (base_u64 B)[high z := mbase_u64 b], size_u64 := (size_u64 B)[high z := msize_u64 b]\<rparr>)
     else (z, B))"

definition note_hole :: "smworld \<Rightarrow> nat \<Rightarrow> memblock \<Rightarrow> memblock \<Rightarrow> bank_scan \<times> bstate \<Rightarrow> (bank_scan \<times> bstate) outcome" where
  "note_hole W i prev b = (\<lambda>(z, B).
     let end_addr = mbase prev + msize prev
     in if mbase b = end_addr then Done (z, B)
        else if length (holes z) < MAX_BAD_MEMBLK then
          Done (z\<lparr>holes := holes z @ [(if heap_ok W (heap (sm B)) then Some (bad_name (i - 1)) else None, end_addr, mbase b - end_addr)]\<rparr>,
            B\<lparr>sm := (sm B)\<lparr>heap := heap (sm B) + 1\<rparr>\<rparr>)
        else Fault)"

fun scan_banks :: "smworld \<Rightarrow> nat \<Rightarrow> memblock option \<Rightarrow> memblock list \<Rightarrow> bank_scan \<times> bstate \<Rightarrow> (bank_scan \<times> bstate) outcome" where
  "scan_banks W i prev [] s = Done s"
| "scan_banks W i prev (b # bs) s =
     (if msize b = 0 then scan_banks W (i + 1) (Some b) bs (high_bank b s)
      else let s1 = ((fst s)\<lparr>ram_end := mbase b + msize b\<rparr>, snd s)
           in bind_outcome (case prev of None \<Rightarrow> Done s1 | Some p \<Rightarrow> note_hole W i p b s1) (scan_banks W (i + 1) (Some b) bs))"

fun reserve_holes :: "smworld \<Rightarrow> (bytes option \<times> u32 \<times> u32) list \<Rightarrow> bstate \<Rightarrow> (int \<times> bstate) outcome" where
  "reserve_holes W [] B = Done (0, B)"
| "reserve_holes W ((nm, base, sz) # hs) B =
     bind_outcome (bidram_reserve_by_name W nm base sz B) (\<lambda>(r, B1). if r \<noteq> 0 then Done (r, B1) else reserve_holes W hs B1)"

text \<open>\<open>board_bidram_reserve\<close> with what the loader's parameters say of trusted firmware, shared memory and OP-TEE.\<close>

definition board_bidram_reserve :: "smworld \<Rightarrow> (nat \<Rightarrow> u32 \<times> u32) \<Rightarrow> bstate \<Rightarrow> (int \<times> bstate) outcome" where
  "board_bidram_reserve W param B =
     bind_outcome (bidram_reserve W MEM_ATF (fst (param MEM_ATF)) (snd (param MEM_ATF)) B) (\<lambda>(r, B1).
       if r \<noteq> 0 then Done (r, B1)
       else bind_outcome (bidram_reserve W MEM_SHM (fst (param MEM_SHM)) (snd (param MEM_SHM)) B1) (\<lambda>(r, B2).
         if r \<noteq> 0 then Done (r, B2)
         else bind_outcome (bidram_reserve W MEM_OPTEE (fst (param MEM_OPTEE)) (snd (param MEM_OPTEE)) B2) (\<lambda>(r, B3).
           Done (if r \<noteq> 0 then r else 0, B3))))"

definition bidram_get_ram_size :: "smworld \<Rightarrow> memblock list option option \<Rightarrow> (nat \<Rightarrow> u32 \<times> u32) \<Rightarrow> bstate \<Rightarrow> (u32 \<times> bstate) outcome" where
  "bidram_get_ram_size W parse param B =
     (case parse of None \<Rightarrow> Done (0, B) | Some None \<Rightarrow> Done (0, B)
      | Some (Some banks) \<Rightarrow>
        if CONFIG_NR_DRAM_BANKS < length banks then Done (0, B)
        else let B0 = B\<lparr>blmb := lmb_init (blmb B), resv := [], has_init := True\<rparr>
        in bind_outcome (scan_banks W 0 None banks (\<lparr>ram_end = CONFIG_SYS_SDRAM_BASE, holes = [], high = 0\<rparr>, B0)) (\<lambda>(z, B1).
          let total = ram_end z - CONFIG_SYS_SDRAM_BASE
          in bind_outcome (bidram_add CONFIG_SYS_SDRAM_BASE total B1) (\<lambda>(r, B2).
            if r \<noteq> 0 then Done (0, B2)
            else bind_outcome (reserve_holes W (holes z) B2) (\<lambda>(r, B3).
              if r \<noteq> 0 then Done (0, B3)
              else bind_outcome (board_bidram_reserve W param B3) (\<lambda>(r, B4).
                if r \<noteq> 0 then Done (0, B4) else Done (total, B4))))))"

definition bidram_initr :: "smworld \<Rightarrow> memblock list option option \<Rightarrow> (nat \<Rightarrow> u32 \<times> u32) \<Rightarrow> bstate \<Rightarrow> (int \<times> bstate) outcome" where
  "bidram_initr W parse param B = bind_outcome (bidram_get_ram_size W parse param B) (\<lambda>(n, B1). Done (if n = 0 then 1 else 0, B1))"

section \<open>The check before the kernel starts\<close>

text \<open>\<open>sysmem_overflow_check\<close> of the other manager: its warnings, in order, and whether it prints the layout.\<close>

datatype sm_warning = Invisible memblock memblock | Overlap memblock memblock | Overflow memblock

definition alias_excuses :: "bytes \<Rightarrow> memblock \<Rightarrow> bool" where
  "alias_excuses n r \<longleftrightarrow>
     list_ex (\<lambda>x. case x of None \<Rightarrow> False | Some al \<Rightarrow> ncasecmp_str n al (length al) = 0) (take ALIAS_COUNT_MAX (aliases (attr r)))"

definition invisible_warning :: "bstate \<Rightarrow> memblock \<Rightarrow> sm_warning list outcome" where
  "invisible_warning B k =
     (case bidram_reserved_is_overlap B (mbase k) (msize k) of None \<Rightarrow> Done []
      | Some r \<Rightarrow>
        if aliases (attr r) ! 0 \<noteq> None \<and> sysmem_is_sub_region k r then
          (case aname (attr k) of None \<Rightarrow> Fault | Some n \<Rightarrow> Done (if alias_excuses n r then [] else [Invisible k r]))
        else Done [Invisible k r])"

fun invisible_warnings :: "bstate \<Rightarrow> memblock list \<Rightarrow> sm_warning list outcome" where
  "invisible_warnings B [] = Done []"
| "invisible_warnings B (k # ks) =
     bind_outcome (invisible_warning B k) (\<lambda>w. bind_outcome (invisible_warnings B ks) (\<lambda>ws. Done (w @ ws)))"

fun check_blocks :: "(u32 \<Rightarrow> u32) \<Rightarrow> memblock list \<Rightarrow> memblock list \<Rightarrow> sm_warning list" where
  "check_blocks r ks [] = []"
| "check_blocks r ks (b # bs) =
     (let ws = map (\<lambda>k. Overlap k b)
            (filter (\<lambda>k. is_overlap (mbase b) (msize b) (mbase k) (msize k) \<and> \<not> has_flag (aflags (attr b)) F_KMEM_CAN_OVERLAP) ks)
      in if block_overflow r b then ws @ [Overflow b] else ws @ check_blocks r ks bs)"

definition sysmem_overflow_check :: "bstate \<Rightarrow> (sm_warning list \<times> bool) outcome" where
  "sysmem_overflow_check B =
     (if \<not> sysmem_has_init (gd B) (sm B) then Done ([], False)
      else bind_outcome (invisible_warnings B (kmem_resv (sm B))) (\<lambda>ws1.
        let ws2 = check_blocks (ram (sm B)) (kmem_resv (sm B)) (allocated (sm B))
        in Done (ws1 @ ws2, ws2 \<noteq> [])))"

section \<open>The banks are the memory less what is reserved\<close>

definition bspan :: "bank \<Rightarrow> nat set" where
  "bspan b = {unat (bstart b)..<unat (bstart b) + unat (bsize b)}"

definition banks_in_order :: "bank list \<Rightarrow> bool" where
  "banks_in_order bs \<longleftrightarrow> sorted_wrt (\<lambda>b c. unat (bstart b) + unat (bsize b) \<le> unat (bstart c)) bs"

text \<open>The bank behind one region.\<close>

definition gap_of :: "u64 \<Rightarrow> lmb_property \<Rightarrow> lmb_property list \<Rightarrow> bank" where
  "gap_of hi p ps = \<lparr>bstart = ucast (lbase p + lsize p),
     bsize = (case ps of q # _ \<Rightarrow> ucast (lbase q) - ucast (lbase p + lsize p) | [] \<Rightarrow> hi - ucast (lbase p + lsize p))\<rparr>"

text \<open>The list of all gaps up to the top of memory.\<close>

fun gaps :: "u64 \<Rightarrow> lmb_property list \<Rightarrow> bank list" where
  "gaps hi [] = []"
| "gaps hi (p # ps) = (if hi \<le> ucast (lbase p + lsize p) then [] else gap_of hi p ps # gaps hi ps)"

lemma gap_bounds:
  assumes "tidy (p # ps)" "\<forall>q\<in>set ps. unat (lbase q) \<le> unat hi" "\<not> hi \<le> ucast (lbase p + lsize p)"
  shows "unat (bstart (gap_of hi p ps)) = lend p"
    "unat (bstart (gap_of hi p ps)) + unat (bsize (gap_of hi p ps)) = (case ps of q # _ \<Rightarrow> unat (lbase q) | [] \<Rightarrow> unat hi)"
proof -
  have e: "unat (lbase p + lsize p) = lend p" using assms(1) by (simp add: tidy_Cons unat_lend)
  then show "unat (bstart (gap_of hi p ps)) = lend p" by (simp add: gap_of_def)
  have "lend p \<le> unat hi" using assms(3) e by (simp add: word_le_nat_alt)
  moreover have "lend p \<le> unat (lbase q)" if "ps = q # r" for q r using assms(1) that by (simp add: tidy_Cons above_def)
  ultimately show "unat (bstart (gap_of hi p ps)) + unat (bsize (gap_of hi p ps)) = (case ps of q # _ \<Rightarrow> unat (lbase q) | [] \<Rightarrow> unat hi)"
    using e by (auto simp: gap_of_def unat_sub word_le_nat_alt split: list.split)
qed

lemma gaps_spec:
  assumes "tidy (p # ps)" "\<forall>q\<in>set ps. unat (lbase q) \<le> unat hi"
  shows "(\<Union>b\<in>set (gaps hi (p # ps)). bspan b) = {lend p..<unat hi} - listed ps \<and> banks_in_order (gaps hi (p # ps)) \<and>
    (\<forall>b\<in>set (gaps hi (p # ps)). lend p \<le> unat (bstart b) \<and> unat (bstart b) + unat (bsize b) \<le> unat hi) \<and>
    length (gaps hi (p # ps)) \<le> length (p # ps)"
  using assms
proof (induction ps arbitrary: p)
  case Nil
  have e: "unat (lbase p + lsize p) = lend p" using Nil by (simp add: tidy_Cons unat_lend)
  show ?case
  proof (cases "hi \<le> ucast (lbase p + lsize p)")
    case True
    then show ?thesis using e by (simp add: word_le_nat_alt banks_in_order_def)
  next
    case False
    then show ?thesis using gap_bounds [OF Nil.prems False] by (simp add: bspan_def banks_in_order_def)
  qed
next
  case (Cons q ps)
  have e: "unat (lbase p + lsize p) = lend p" using Cons.prems by (simp add: tidy_Cons unat_lend)
  have t: "tidy (q # ps)" "lend p \<le> unat (lbase q)" "unat (lbase q) \<le> unat hi" "unat (lbase q) \<le> lend q"
    "\<forall>r\<in>set ps. lend q \<le> unat (lbase r)"
    using Cons.prems by (auto simp: tidy_Cons above_def lend_def)
  have ih: "(\<Union>b\<in>set (gaps hi (q # ps)). bspan b) = {lend q..<unat hi} - listed ps" "banks_in_order (gaps hi (q # ps))"
    "\<forall>b\<in>set (gaps hi (q # ps)). lend q \<le> unat (bstart b) \<and> unat (bstart b) + unat (bsize b) \<le> unat hi"
    "length (gaps hi (q # ps)) \<le> length (q # ps)"
    using Cons.IH [OF t(1)] Cons.prems(2) by auto
  show ?case
  proof (cases "hi \<le> ucast (lbase p + lsize p)")
    case True
    then show ?thesis using e by (simp add: word_le_nat_alt banks_in_order_def)
  next
    case False
    note g = gap_bounds [OF Cons.prems False, simplified]
    have sp: "bspan (gap_of hi p (q # ps)) = {lend p..<unat (lbase q)}" using g by (simp add: bspan_def)
    have "listed ps \<inter> {lend p..<unat (lbase q)} = {}" using t(4,5) by (fastforce simp: listed_def span_def)
    then have "{lend p..<unat (lbase q)} \<union> ({lend q..<unat hi} - listed ps) = {lend p..<unat hi} - (span q \<union> listed ps)"
      using t(2-4) by (auto simp: span_def)
    then have U: "(\<Union>b\<in>set (gap_of hi p (q # ps) # gaps hi (q # ps)). bspan b) = {lend p..<unat hi} - listed (q # ps)"
      unfolding list.set(2) [of "gap_of hi p (q # ps)"] UN_insert sp ih(1) listed_simps(2) .
    have lo: "\<forall>b\<in>set (gaps hi (q # ps)). unat (lbase q) \<le> unat (bstart b)" using ih(3) t(4) order_trans by blast
    have O: "banks_in_order (gap_of hi p (q # ps) # gaps hi (q # ps))"
      using ih(2) lo g(2) by (simp add: banks_in_order_def del: gaps.simps)
    have "\<forall>b\<in>set (gaps hi (q # ps)). lend p \<le> unat (bstart b)" using lo t(2) order_trans by blast
    then have R: "\<forall>b\<in>set (gap_of hi p (q # ps) # gaps hi (q # ps)). lend p \<le> unat (bstart b) \<and> unat (bstart b) + unat (bsize b) \<le> unat hi"
      using ih(3) g t(3) by (simp del: gaps.simps)
    have "gaps hi (p # q # ps) = gap_of hi p (q # ps) # gaps hi (q # ps)" using False by (simp del: gaps.simps add: gaps.simps(2) [of hi p])
    with U O R ih(4) show ?thesis by (simp del: gaps.simps)
  qed
qed

lemma gen_gaps_gaps:
  "idx + length (gaps hi ps) \<le> length bs \<Longrightarrow>
     gen_gaps hi ps idx bs = Done (idx + length (gaps hi ps), take idx bs @ gaps hi ps @ drop (idx + length (gaps hi ps)) bs)"
proof (induction ps arbitrary: idx bs)
  case (Cons p ps)
  show ?case
  proof (cases "hi \<le> ucast (lbase p + lsize p)")
    case False
    then have l: "idx < length bs" "Suc idx + length (gaps hi ps) \<le> length bs" using Cons.prems by auto
    have "take (Suc idx) (bs[idx := gap_of hi p ps]) = take idx bs @ [gap_of hi p ps]" using l(1) by (simp add: take_Suc_conv_app_nth)
    with False l Cons.IH [of "Suc idx" "bs[idx := gap_of hi p ps]"] show ?thesis
      by (simp add: put_bank_def gap_of_def [symmetric] Let_def)
  qed simp
qed simp

lemma gen_banks_spec:
  assumes so: "sound (reserved l)" "solid (blocks (reserved l))" and sh: "shaped (memory l)"
    and inside: "\<forall>q\<in>set (blocks (reserved l)). unat (lbase (region (memory l) ! 0)) \<le> unat (lbase q) \<and> unat (lbase q) \<le> unat hi"
    and room: "unat (cnt (reserved l)) < length bs"
  defines "lo \<equiv> unat (lbase (region (memory l) ! 0))"
  shows "\<exists>new. gen_banks l hi bs = Done (length new, new @ drop (length new) bs) \<and>
     (\<Union>b\<in>set new. bspan b) = {lo..<unat hi} - covers (reserved l) \<and> banks_in_order new \<and>
     (\<forall>b\<in>set new. lo \<le> unat (bstart b) \<and> unat (bstart b) + unat (bsize b) \<le> unat hi) \<and> length new \<le> length bs"
proof -
  let ?m = "region (memory l) ! 0" and ?r = "region (reserved l) ! 0"
  have e: "entry (memory l) 0 = Done ?m" "entry (reserved l) 0 = Done ?r"
    using sh sound_blocks(1) [OF so(1)] by (simp_all add: entry_shaped)
  have len: "length (blocks (reserved l)) = unat (cnt (reserved l))" "1 \<le> unat (cnt (reserved l))"
    "unat (cnt (reserved l)) \<le> length (region (reserved l))"
    using sound_blocks(1) [OF so(1)] length_blocks [of "reserved l"] by (auto simp: shaped_def)
  then obtain r ps where bl: "blocks (reserved l) = r # ps" by (cases "blocks (reserved l)") auto
  then have r: "?r = r" using nth_blocks [of 0 "reserved l"] len(2) by simp
  have tk: "take (unat (cnt (reserved l))) (region (reserved l)) = r # ps" using bl by (simp add: blocks_def)
  have nz: "lsize r \<noteq> 0" using so(2) bl by (simp add: solid_def word_gt_0)
  have t: "tidy (r # ps)" "\<forall>q\<in>set ps. unat (lbase q) \<le> unat hi" "lo \<le> unat (lbase r)" "unat (lbase r) \<le> unat hi"
    using sound_blocks(2) [OF so(1)] inside bl by (auto simp: lo_def)
  have g: "(\<Union>b\<in>set (gaps hi (r # ps)). bspan b) = {lend r..<unat hi} - listed ps" "banks_in_order (gaps hi (r # ps))"
    "\<forall>b\<in>set (gaps hi (r # ps)). lend r \<le> unat (bstart b) \<and> unat (bstart b) + unat (bsize b) \<le> unat hi"
    "length (gaps hi (r # ps)) \<le> unat (cnt (reserved l))"
    using gaps_spec [OF t(1,2)] len(1) bl by auto
  have above: "unat (lbase r) \<le> lend r" "listed ps \<inter> {..<lend r} = {}"
    using t(1) by (auto simp: lend_def tidy_Cons above_def listed_def span_def)
  have cov: "covers (reserved l) = span r \<union> listed ps" by (simp add: covers_listed bl)
  define f where "f = (if lbase r \<noteq> lbase ?m then [\<lparr>bstart = ucast (lbase ?m), bsize = ucast (lbase r) - ucast (lbase ?m)\<rparr>] else [])"
  have fs: "(\<Union>b\<in>set f. bspan b) = {lo..<unat (lbase r)}"
    "\<forall>b\<in>set f. lo \<le> unat (bstart b) \<and> unat (bstart b) + unat (bsize b) = unat (lbase r)"
    using t(3) by (auto simp: f_def bspan_def lo_def unat_sub word_le_nat_alt)
  have "gen_banks l hi bs = bind_outcome (if f \<noteq> [] then bind_outcome (put_bank bs 0 (hd f)) (\<lambda>bs1. Done (1, bs1)) else Done (0, bs))
      (\<lambda>(idx, bs1). gen_gaps hi (r # ps) idx bs1)"
    using nz len(3) by (simp add: gen_banks_def e r tk f_def not_less del: gen_gaps.simps)
  also have "\<dots> = gen_gaps hi (r # ps) (length f) (f @ drop (length f) bs)"
    using room by (cases bs) (auto simp: f_def put_bank_def simp del: gen_gaps.simps)
  also have "\<dots> = Done (length (f @ gaps hi (r # ps)), (f @ gaps hi (r # ps)) @ drop (length (f @ gaps hi (r # ps))) bs)"
  proof -
    have lf: "length f \<le> 1" by (simp add: f_def)
    then have "length f + length (gaps hi (r # ps)) \<le> length (f @ drop (length f) bs)" using g(4) room by (simp del: gaps.simps)
    from gen_gaps_gaps [OF this] lf room show ?thesis by (simp del: gaps.simps gen_gaps.simps add: add.commute)
  qed
  finally have run: "gen_banks l hi bs = Done (length (f @ gaps hi (r # ps)), (f @ gaps hi (r # ps)) @ drop (length (f @ gaps hi (r # ps))) bs)" .
  have "(\<Union>b\<in>set (f @ gaps hi (r # ps)). bspan b) = {lo..<unat hi} - covers (reserved l)"
    using above t(3,4) unfolding set_append UN_Un fs(1) g(1) cov by (auto simp: span_def)
  moreover have "banks_in_order (f @ gaps hi (r # ps))"
    using g(2,3) fs(2) above(1) by (fastforce simp: banks_in_order_def sorted_wrt_append f_def simp del: gaps.simps)
  moreover have "\<forall>b\<in>set (f @ gaps hi (r # ps)). lo \<le> unat (bstart b) \<and> unat (bstart b) + unat (bsize b) \<le> unat hi"
    using fs(2) g(3) above(1) t(3,4) by (fastforce simp del: gaps.simps)
  moreover have "length (f @ gaps hi (r # ps)) \<le> length bs" using g(4) room by (simp add: f_def del: gaps.simps)
  ultimately show ?thesis using run by blast
qed

text \<open>The region every reservation leaves behind: what a state of the manager must be for its banks to be the free memory.\<close>

definition bidram_ok :: "bstate \<Rightarrow> bool" where
  "bidram_ok B \<longleftrightarrow> sound (reserved (blmb B)) \<and> solid (blocks (reserved (blmb B))) \<and> shaped (memory (blmb B)) \<and>
     (\<forall>q\<in>set (blocks (reserved (blmb B))). unat (lbase (region (memory (blmb B)) ! 0)) \<le> unat (lbase q) \<and> unat (lbase q) \<le> unat (gd_ram_top (gd B))) \<and>
     unat (cnt (reserved (blmb B))) < CONFIG_NR_DRAM_BANKS"

definition ram_start :: "bstate \<Rightarrow> nat" where
  "ram_start B = unat (lbase (region (memory (blmb B)) ! 0))"

lemma gen_spec:
  assumes "bidram_ok B" "gd_bd (gd B) = Some bs" "length bs = CONFIG_NR_DRAM_BANKS" "\<not> fixup B"
  shows "\<exists>new. bidram_gen_gd_bi_dram B = Done (B\<lparr>gd := (gd B)\<lparr>gd_bd := Some (new @ drop (length new) bs)\<rparr>\<rparr>) \<and>
     (\<Union>b\<in>set new. bspan b) = {ram_start B..<unat (gd_ram_top (gd B))} - covers (reserved (blmb B)) \<and> banks_in_order new \<and>
     (\<forall>b\<in>set new. ram_start B \<le> unat (bstart b) \<and> unat (bstart b) + unat (bsize b) \<le> unat (gd_ram_top (gd B))) \<and> length new \<le> length bs"
  using gen_banks_spec [of "blmb B" "gd_ram_top (gd B)" bs] assms
  by (auto simp: bidram_ok_def bidram_gen_gd_bi_dram_def ram_start_def)

lemma brange_bspan:
  assumes "unat (bstart b) + unat (bsize b) < 2 ^ 32"
  shows "range_of (brange b) = bspan b"
proof -
  have "unat (ucast x :: u32) = unat x" if "unat x < 2 ^ 32" for x :: u64
    using that by (simp add: unsigned_ucast_eq take_bit_nat_eq_self)
  with assms show ?thesis by (simp add: range_of_def brange_def bspan_def)
qed

lemma gen_banks_ok:
  assumes ord: "banks_in_order new" and bnd: "\<forall>b\<in>set new. unat CONFIG_SYS_SDRAM_BASE \<le> unat (bstart b) \<and> unat (bstart b) + unat (bsize b) \<le> 0xe0000000"
    and rest: "\<forall>b\<in>set rest. bsize b = 0" and len: "length (new @ rest) = CONFIG_NR_DRAM_BANKS"
  shows "banks_ok (new @ rest)" "(\<Union>b\<in>set (live_banks (new @ rest)). range_of (brange b)) = (\<Union>b\<in>set new. bspan b)"
    "b \<in> set (live_banks (new @ rest)) \<Longrightarrow> bstart (hd (new @ rest)) \<le> bstart b"
proof -
  have lv: "live_banks (new @ rest) = live_banks new" using rest by (simp add: filter_empty_conv)
  have eq: "range_of (brange b) = bspan b" if "b \<in> set new" for b using bnd that by (intro brange_bspan) fastforce
  have "sorted_wrt (\<lambda>b c. bspan b \<inter> bspan c = {}) new"
    using ord unfolding banks_in_order_def by (rule sorted_wrt_mono_rel [rotated]) (auto simp: bspan_def)
  then have "sorted_wrt (\<lambda>b c. bspan b \<inter> bspan c = {}) (live_banks new)" by (rule sorted_wrt_filter)
  then have "sorted_wrt (\<lambda>b c. range_of (brange b) \<inter> range_of (brange c) = {}) (live_banks new)"
    by (rule sorted_wrt_mono_rel [rotated]) (simp add: eq)
  then show "banks_ok (new @ rest)" using bnd len unfolding banks_ok_def lv by (simp add: apart_def sorted_wrt_map)
  show "(\<Union>b\<in>set (live_banks (new @ rest)). range_of (brange b)) = (\<Union>b\<in>set new. bspan b)"
    unfolding lv using eq by (auto simp: bspan_def)
  show "bstart (hd (new @ rest)) \<le> bstart b" if b: "b \<in> set (live_banks (new @ rest))" for b
  proof (cases new)
    case (Cons c cs)
    then have "b = c \<or> b \<in> set cs" using b unfolding lv by (auto split: if_splits)
    then show ?thesis using ord Cons by (auto simp: banks_in_order_def word_le_nat_alt)
  qed (use b rest in auto)
qed

section \<open>Reserving a region\<close>

lemma name_taken_spec:
  "\<forall>b\<in>set bs. good_name (aname (attr b)) \<Longrightarrow> 0 \<notin> set s \<Longrightarrow> name_taken s bs = Done (\<exists>b\<in>set bs. aname (attr b) = Some s)"
proof (induction bs)
  case (Cons b bs)
  then obtain n where n: "aname (attr b) = Some n" "0 \<notin> set n" by (auto simp: good_name_def)
  have "cmp_str n s = 0 \<longleftrightarrow> n = s" using n(2) Cons.prems(2) by simp
  with n Cons show ?case by auto
qed simp

text \<open>The first reservation finds the empty table of the initialisation, the later ones a table in order.\<close>

definition resv_start :: "bstate \<Rightarrow> bool" where
  "resv_start B \<longleftrightarrow> sound (reserved (blmb B)) \<and> shaped (memory (blmb B)) \<and>
     covers (reserved (blmb B)) \<subseteq> {ram_start B..unat (gd_ram_top (gd B))} \<and>
     (\<forall>b\<in>set (resv B). good_name (aname (attr b)))"

lemma sound_covers_solid: "sound rgn \<Longrightarrow> covers rgn \<noteq> {} \<Longrightarrow> solid (blocks rgn)"
proof (rule ccontr)
  assume a: "sound rgn" "covers rgn \<noteq> {}" "\<not> solid (blocks rgn)"
  with sound_blocks(3) [OF a(1)] obtain q where "blocks rgn = [q]" by (auto simp: length_Suc_conv)
  with a(2,3) show False by (simp add: solid_def span_empty covers_def)
qed

lemma covers_base: "solid (blocks rgn) \<Longrightarrow> q \<in> set (blocks rgn) \<Longrightarrow> unat (lbase q) \<in> covers rgn"
  by (auto simp: covers_def span_def lend_def solid_def word_less_nat_alt intro!: bexI [of _ q])

lemma core_reserve_spec:
  assumes st: "resv_start B" "has_init B" "\<not> sysmem_has_init (gd B) (sm B)"
    and nm: "resv_attr (stale_aliases W) mid mem_name = Some (s, a)" "0 \<notin> set s" "\<forall>b\<in>set (resv B). aname (attr b) \<noteq> Some s"
    and r: "proper (base, sz)" "range_of (base, sz) \<inter> covers (reserved (blmb B)) = {}"
    and inside: "ram_start B \<le> unat base" "unat base + unat sz \<le> unat (gd_ram_top (gd B))"
    and room: "unat (cnt (reserved (blmb B))) < CONFIG_NR_DRAM_BANKS - 1" and heap: "heap_ok W (heap (sm B))"
  shows "\<exists>l1. bidram_core_reserve W mid mem_name base sz B =
       Done (0, B\<lparr>blmb := l1, sm := (sm B)\<lparr>heap := heap (sm B) + 1\<rparr>, resv := resv B @ [new_block base sz 0 a]\<rparr>) \<and>
     sound (reserved l1) \<and> memory l1 = memory (blmb B) \<and> covers (reserved l1) = covers (reserved (blmb B)) \<union> range_of (base, sz) \<and>
     bidram_ok (B\<lparr>blmb := l1, sm := (sm B)\<lparr>heap := heap (sm B) + 1\<rparr>, resv := resv B @ [new_block base sz 0 a]\<rparr>)"
proof -
  have so: "sound (reserved (blmb B))" "shaped (memory (blmb B))" using st(1) by (simp_all add: resv_start_def)
  have "unat (cnt (reserved (blmb B))) < MAX_LMB_REGIONS" using room by (simp add: CONFIG_NR_DRAM_BANKS_def MAX_LMB_REGIONS_def)
  from add_region_law [OF so(1) r this] obtain res g where
    g: "lmb_add_region (reserved (blmb B)) base sz = Done (res, g)" "0 \<le> res" "sound g"
      "covers g = covers (reserved (blmb B)) \<union> range_of (base, sz)" "unat (cnt g) \<le> Suc (unat (cnt (reserved (blmb B))))" by auto
  define l1 where "l1 = (blmb B)\<lparr>reserved := g\<rparr>"
  have "name_taken s (resv B) = Done False"
    using name_taken_spec [of "resv B" s] st(1) nm(2,3) by (auto simp: resv_start_def)
  moreover have "sz \<noteq> 0" using r(1) by (auto simp: proper_def)
  ultimately have run: "bidram_core_reserve W mid mem_name base sz B =
       Done (0, B\<lparr>blmb := l1, sm := (sm B)\<lparr>heap := heap (sm B) + 1\<rparr>, resv := resv B @ [new_block base sz 0 a]\<rparr>)"
    using st(2,3) nm(1) g(1,2) heap by (simp add: bidram_core_reserve_def lmb_reserve_def l1_def Let_def)
  have "covers g \<noteq> {}" using g(4) proper_nonempty [OF r(1)] by simp
  then have sl: "solid (blocks g)" by (rule sound_covers_solid [OF g(3)])
  have "covers g \<subseteq> {ram_start B..unat (gd_ram_top (gd B))}" unfolding g(4) using inside st(1) by (auto simp: range_of_def resv_start_def)
  then have "\<forall>q\<in>set (blocks g). ram_start B \<le> unat (lbase q) \<and> unat (lbase q) \<le> unat (gd_ram_top (gd B))"
    using covers_base [OF sl] by fastforce
  with g sl so(2) room run show ?thesis
    by (intro exI [of _ l1]) (simp add: l1_def bidram_ok_def ram_start_def CONFIG_NR_DRAM_BANKS_def)
qed

section \<open>Properties\<close>

text \<open>The board with its banks not yet written, and OP-TEE in the middle of its memory.\<close>

definition no_banks :: "bank list" where
  "no_banks = replicate 12 \<lparr>bstart = 0, bsize = 0\<rparr>"

lemma no_banks_Cons: "no_banks = \<lparr>bstart = 0, bsize = 0\<rparr> # \<lparr>bstart = 0, bsize = 0\<rparr> # replicate 10 \<lparr>bstart = 0, bsize = 0\<rparr>"
  by (simp add: no_banks_def numeral_eq_Suc)

definition early :: "lmb_property \<Rightarrow> bstate" where
  "early r = \<lparr>blmb = \<lparr>memory = table_of 1 [block 0x60000000 0x40000000], reserved = table_of 1 [r]\<rparr>, resv = [], has_init = True, fixup = False,
     base_u64 = replicate 10 0, size_u64 = replicate 10 0, gd = board_gd\<lparr>gd_bd := Some no_banks\<rparr>, sm = cold\<rparr>"

text \<open>C20: \<open>bidram_reserve\<close> of a region of memory nothing of which is reserved yet succeeds, and the banks it then writes are, in ascending
  order and without overlap, exactly the memory below the top less everything that is reserved.\<close>

theorem bidram_reserve_hides_region:
  assumes "resv_start B" "has_init B" "\<not> sysmem_has_init (gd B) (sm B)" "\<not> fixup B"
    and bd: "gd_bd (gd B) = Some bs" "length bs = CONFIG_NR_DRAM_BANKS"
    and mid: "MEM_UNK < mid" "mid < MEM_BY_NAME" "\<forall>b\<in>set (resv B). aname (attr b) \<noteq> aname (mem_attr ! mid)"
    and r: "proper (base, sz)" "{unat base..<unat base + unat sz} \<inter> covers (reserved (blmb B)) = {}"
    and inside: "ram_start B \<le> unat base" "unat base + unat sz \<le> unat (gd_ram_top (gd B))"
    and room: "unat (cnt (reserved (blmb B))) < CONFIG_NR_DRAM_BANKS - 1" and heap: "heap_ok W (heap (sm B))"
  shows "\<exists>B1 new. bidram_reserve W mid base sz B = Done (0, B1) \<and> resv B1 = resv B @ [new_block base sz 0 (mem_attr ! mid)] \<and>
     gd_bd (gd B1) = Some (new @ drop (length new) bs) \<and> banks_in_order new \<and> bidram_ok B1 \<and>
     (\<Union>b\<in>set new. bspan b) = {ram_start B..<unat (gd_ram_top (gd B))} - (covers (reserved (blmb B)) \<union> {unat base..<unat base + unat sz})"
proof -
  have k: "mid < MEM_MAX" "mid \<noteq> MEM_BY_NAME" using mid(2) by (simp_all add: mem_ids)
  obtain s where s: "aname (mem_attr ! mid) = Some s" "0 \<notin> set s"
    using table_name [OF k(1)] mem_attr_names [OF mid(1,2)] by (auto simp: good_name_def)
  have at: "resv_attr (stale_aliases W) mid None = Some (s, mem_attr ! mid)" using k mid(1) s(1) by (simp add: resv_attr_def)
  have nt: "\<forall>b\<in>set (resv B). aname (attr b) \<noteq> Some s" using mid(3) s(1) by simp
  have rr: "range_of (base, sz) = {unat base..<unat base + unat sz}" by (simp add: range_of_def)
  have dis: "range_of (base, sz) \<inter> covers (reserved (blmb B)) = {}" using r(2) rr by simp
  obtain l1 where l1: "bidram_core_reserve W mid None base sz B =
       Done (0, B\<lparr>blmb := l1, sm := (sm B)\<lparr>heap := heap (sm B) + 1\<rparr>, resv := resv B @ [new_block base sz 0 (mem_attr ! mid)]\<rparr>)"
     "memory l1 = memory (blmb B)" "covers (reserved l1) = covers (reserved (blmb B)) \<union> range_of (base, sz)"
     "bidram_ok (B\<lparr>blmb := l1, sm := (sm B)\<lparr>heap := heap (sm B) + 1\<rparr>, resv := resv B @ [new_block base sz 0 (mem_attr ! mid)]\<rparr>)"
    using core_reserve_spec [OF assms(1-3) at s(2) nt r(1) dis inside room heap] by blast
  define B2 where "B2 = B\<lparr>blmb := l1, sm := (sm B)\<lparr>heap := heap (sm B) + 1\<rparr>, resv := resv B @ [new_block base sz 0 (mem_attr ! mid)]\<rparr>"
  have b2: "bidram_ok B2" "gd_bd (gd B2) = Some bs" "\<not> fixup B2" "ram_start B2 = ram_start B" "gd B2 = gd B" "reserved (blmb B2) = reserved l1"
    using l1(2,4) bd(1) assms(4) by (simp_all add: B2_def ram_start_def)
  obtain new where new: "bidram_gen_gd_bi_dram B2 = Done (B2\<lparr>gd := (gd B2)\<lparr>gd_bd := Some (new @ drop (length new) bs)\<rparr>\<rparr>)"
     "(\<Union>b\<in>set new. bspan b) = {ram_start B2..<unat (gd_ram_top (gd B2))} - covers (reserved (blmb B2))" "banks_in_order new"
    using gen_spec [OF b2(1,2) bd(2) b2(3)] by blast
  have run: "bidram_reserve W mid base sz B = Done (0, B2\<lparr>gd := (gd B2)\<lparr>gd_bd := Some (new @ drop (length new) bs)\<rparr>\<rparr>)"
    using new(1) unfolding bidram_reserve_def l1(1) B2_def [symmetric] by simp
  have "bidram_ok (B2\<lparr>gd := (gd B2)\<lparr>gd_bd := Some (new @ drop (length new) bs)\<rparr>\<rparr>)" using b2(1) by (simp add: bidram_ok_def)
  with run new(2,3) b2(4-6) l1(3) rr show ?thesis
    by (intro exI [of _ "B2\<lparr>gd := (gd B2)\<lparr>gd_bd := Some (new @ drop (length new) bs)\<rparr>\<rparr>"] exI [of _ new]) (simp add: B2_def)
qed

theorem bidram_reserve_hides_region_witness:
  "\<exists>B1 new. bidram_reserve heap_fine MEM_OPTEE 0x68400000 0x200000 (early (block 0 0)) = Done (0, B1) \<and>
     resv B1 = [new_block 0x68400000 0x200000 0 (mem_attr ! MEM_OPTEE)] \<and>
     gd_bd (gd B1) = Some (new @ drop (length new) no_banks) \<and> banks_in_order new \<and>
     (\<Union>b\<in>set new. bspan b) = {0x60000000..<0xa0000000} - {0x68400000..<0x68600000}"
proof -
  let ?B = "early (block 0 0)"
  have e: "ram_start ?B = 0x60000000" "covers (reserved (blmb ?B)) = {}" "unat (gd_ram_top (gd ?B)) = 0xa0000000" "resv ?B = []"
    by (simp_all add: early_def ram_start_def table_of_def covers_def blocks_def span_def lend_def board_gd_def)
  have "sound (reserved (blmb ?B))" "shaped (memory (blmb ?B))" by (simp_all add: early_def board_simps)
  then have rs: "resv_start ?B" by (simp add: resv_start_def e)
  have st: "has_init ?B" "\<not> sysmem_has_init (gd ?B) (sm ?B)" "\<not> fixup ?B"
    by (simp_all add: early_def sysmem_has_init_def cold_def board_gd_def)
  have bd: "gd_bd (gd ?B) = Some no_banks" "length no_banks = CONFIG_NR_DRAM_BANKS"
    by (simp_all add: early_def no_banks_def CONFIG_NR_DRAM_BANKS_def)
  have room: "unat (cnt (reserved (blmb ?B))) < CONFIG_NR_DRAM_BANKS - 1" "heap_ok heap_fine (heap (sm ?B))"
    by (simp_all add: early_def table_of_def CONFIG_NR_DRAM_BANKS_def heap_fine_def)
  have "\<exists>B1 new. bidram_reserve heap_fine MEM_OPTEE 0x68400000 0x200000 ?B = Done (0, B1) \<and>
     resv B1 = resv ?B @ [new_block 0x68400000 0x200000 0 (mem_attr ! MEM_OPTEE)] \<and>
     gd_bd (gd B1) = Some (new @ drop (length new) no_banks) \<and> banks_in_order new \<and> bidram_ok B1 \<and>
     (\<Union>b\<in>set new. bspan b) = {ram_start ?B..<unat (gd_ram_top (gd ?B))} -
       (covers (reserved (blmb ?B)) \<union> {unat (0x68400000 :: u32)..<unat (0x68400000 :: u32) + unat (0x200000 :: u32)})"
    by (rule bidram_reserve_hides_region [OF rs st bd _ _ _ _ _ _ _ room]) (simp_all add: e mem_ids proper_def)
  then show ?thesis unfolding e by auto
qed



section \<open>The check\<close>

lemma check_blocks_nonempty:
  "check_blocks r ks bs \<noteq> [] \<longleftrightarrow> (\<exists>b\<in>set bs. block_overflow r b \<or>
     \<not> has_flag (aflags (attr b)) F_KMEM_CAN_OVERLAP \<and> (\<exists>k\<in>set ks. is_overlap (mbase b) (msize b) (mbase k) (msize k)))"
  by (induction bs) (auto simp: Let_def filter_empty_conv)

lemma invisible_warnings_Done:
  "\<forall>k\<in>set ks. good_name (aname (attr k)) \<Longrightarrow> \<exists>ws. invisible_warnings B ks = Done ws"
proof (induction ks)
  case (Cons k ks)
  then obtain n ws where "aname (attr k) = Some n" "invisible_warnings B ks = Done ws" by (auto simp: good_name_def)
  moreover from this(1) have "\<exists>w. invisible_warning B k = Done w" by (auto simp: invisible_warning_def split: option.split)
  ultimately show ?case by auto
qed simp



section \<open>Corner cases of the code\<close>

text \<open>A ninth hole between the banks is written behind the array that has room for eight.\<close>

definition spread_banks :: "memblock list" where
  "spread_banks = map (\<lambda>i. new_block (0x60000000 + i * 0x200000) 0x100000 0 zero_attr) [0, 1, 2, 3, 4, 5, 6, 7, 8, 9]"

lemma ninth_hole: "scan_banks heap_fine 0 None spread_banks (\<lparr>ram_end = 0x60000000, holes = [], high = 0\<rparr>, B) = Fault"
  by (simp add: spread_banks_def new_block_def note_hole_def MAX_BAD_MEMBLK_def heap_fine_def)

text \<open>More reserved regions below the top than there are entries left are more than the table of banks can take.\<close>

lemma too_many_regions:
  "\<lbrakk>\<forall>p\<in>set ps. ucast (lbase p + lsize p) < hi; length bs < idx + length ps; idx \<le> length bs\<rbrakk> \<Longrightarrow> gen_gaps hi ps idx bs = Fault"
proof (induction ps arbitrary: idx bs)
  case (Cons p ps)
  then show ?case by (cases "idx < length bs") (simp_all add: put_bank_def Let_def not_le [symmetric])
qed simp

text \<open>With all of memory reserved there is no last bank to extend.\<close>

lemma nothing_to_extend: "ext \<noteq> 0 \<Longrightarrow> extend_top ext hi 0 bs = Fault"
  by (simp add: extend_top_def)

text \<open>The banks of an earlier, longer table stay behind the new ones.\<close>

lemma stale_banks_stay:
  "bidram_gen_gd_bi_dram (early (block 0 0)) = Done B1 \<Longrightarrow> gd_bd (gd B1) = Some (\<lparr>bstart = 0x60000000, bsize = 0x40000000\<rparr> # drop 1 no_banks)"
  by (auto simp: bidram_gen_gd_bi_dram_def gen_banks_def early_def table_of_def entry_def put_bank_def no_banks_Cons)

end
