(* ===== verification/VsNumber.thy ===== *)
theory VsNumber
  imports CStrings
begin

text \<open>
  The numbers of \<open>lib/vsprintf.c\<close>: the decimal conversion by binary coded digits (\<open>put_dec_trunc\<close>, \<open>put_dec_full\<close>, \<open>put_dec\<close>), the layout of a
  number in its field (\<open>number\<close>) and \<open>simple_itoa\<close>.  The conversions write digits in reverse order into a buffer; here they yield the bytes.
  \<open>number\<close> yields the characters it adds to the output, in order: adding them is all it does there.
\<close>

section \<open>Decimal digits\<close>

text \<open>Written as in the source, on 32-bit words; each \<open>q\<close> is a tenth.\<close>

definition put_dec_trunc :: "u32 \<Rightarrow> bytes" where
  "put_dec_trunc q =
     (let d1 = drop_bit 4 q AND 0xf; d2 = drop_bit 8 q AND 0xf; d3 = drop_bit 12 q;
          d0 = 6 * (d3 + d2 + d1) + (q AND 0xf);
          q0 = drop_bit 11 (d0 * 0xcd);
          c0 = d0 - 10 * q0;
          e1 = q0 + 9 * d3 + 5 * d2 + d1
      in ucast (c0 + 0x30) #
         (if e1 \<noteq> 0 then
            (let q1 = drop_bit 11 (e1 * 0xcd); c1 = e1 - 10 * q1; e2 = q1 + 2 * d2
             in ucast (c1 + 0x30) #
                (if e2 \<noteq> 0 \<or> d3 \<noteq> 0 then
                   (let q2 = drop_bit 7 (e2 * 0xd); c2 = e2 - 10 * q2; e3 = q2 + 4 * d3
                    in ucast (c2 + 0x30) #
                       (if e3 \<noteq> 0 then
                          (let q3 = drop_bit 11 (e3 * 0xcd); c3 = e3 - 10 * q3
                           in ucast (c3 + 0x30) # (if q3 \<noteq> 0 then [ucast (q3 + 0x30)] else []))
                        else []))
                 else []))
          else []))"

definition put_dec_full :: "u32 \<Rightarrow> bytes" where
  "put_dec_full q =
     (let d1 = drop_bit 4 q AND 0xf; d2 = drop_bit 8 q AND 0xf; d3 = drop_bit 12 q;
          d0 = 6 * (d3 + d2 + d1) + (q AND 0xf);
          q0 = drop_bit 11 (d0 * 0xcd);
          c0 = d0 - 10 * q0;
          e1 = q0 + 9 * d3 + 5 * d2 + d1;
          q1 = drop_bit 11 (e1 * 0xcd);
          c1 = e1 - 10 * q1;
          e2 = q1 + 2 * d2;
          q2 = drop_bit 7 (e2 * 0xd);
          c2 = e2 - 10 * q2;
          e3 = q2 + 4 * d3;
          q3 = drop_bit 11 (e3 * 0xcd);
          c3 = e3 - 10 * q3
      in [ucast (c0 + 0x30), ucast (c1 + 0x30), ucast (c2 + 0x30), ucast (c3 + 0x30), ucast (q3 + 0x30)])"

lemma div_100000_less: "\<not> num < 100000 \<Longrightarrow> num div 100000 < num" for num :: u64
  by (simp add: word_less_nat_alt unat_div)

function put_dec :: "u64 \<Rightarrow> bytes" where
  "put_dec num =
     (if num < 100000 then put_dec_trunc (ucast num)
      else put_dec_full (ucast (num mod 100000)) @ put_dec (num div 100000))"
  by pat_completeness auto
termination
  by (relation "measure unat") (simp_all add: div_100000_less unat_mono)

declare put_dec.simps [simp del]

text \<open>\<open>simple_itoa\<close>: from the last digit on, into an array of 22 bytes.\<close>

definition itoa_digit :: "u32 \<Rightarrow> u8" where
  "itoa_digit i = 0x30 + ucast (i mod 10)"

lemma tenth_less: "i div 10 \<noteq> 0 \<Longrightarrow> unat (i div 10) < unat i" for i :: u32
  by (cases "i = 0") (simp_all add: unat_div unat_gt_0)

function itoa_loop :: "u32 \<Rightarrow> bytes \<Rightarrow> bytes" where
  "itoa_loop i acc = (if i div 10 = 0 then itoa_digit i # acc else itoa_loop (i div 10) (itoa_digit i # acc))"
  by pat_completeness auto
termination
  by (relation "measure (\<lambda>(i, _). unat i)") (auto simp: tenth_less)

declare itoa_loop.simps [simp del]

definition simple_itoa :: "u32 \<Rightarrow> bytes" where
  "simple_itoa i = itoa_loop i []"

section \<open>Numbers in a field\<close>

definition ZEROPAD :: u32 where "ZEROPAD = 1"
definition SIGN :: u32 where "SIGN = 2"
definition PLUS :: u32 where "PLUS = 4"
definition SPACE :: u32 where "SPACE = 8"
definition LEFT :: u32 where "LEFT = 16"
definition SMALL :: u32 where "SMALL = 32"
definition SPECIAL :: u32 where "SPECIAL = 64"

lemmas print_flags = ZEROPAD_def SIGN_def PLUS_def SPACE_def LEFT_def SMALL_def SPECIAL_def

definition flag_on :: "u32 \<Rightarrow> u32 \<Rightarrow> bool" where
  "flag_on fl f \<longleftrightarrow> fl AND f \<noteq> 0"

definition digits16 :: bytes where
  "digits16 = ascii ''0123456789ABCDEF''"

lemma drop_bit_less: "num \<noteq> 0 \<Longrightarrow> 0 < k \<Longrightarrow> unat (drop_bit k num) < unat num" for num :: u64
proof -
  assume "num \<noteq> 0" "0 < k"
  then have "unat num div 2 ^ k < unat num" using one_less_power [of "2 :: nat" k] by (intro div_less_dividend) (simp_all add: unat_gt_0)
  then show ?thesis by (simp only: unat_drop_bit_eq) (simp add: drop_bit_eq_div)
qed

text \<open>Base 8 and 16, by masking and shifting.\<close>

function put_pow2 :: "nat \<Rightarrow> u8 \<Rightarrow> u64 \<Rightarrow> bytes" where
  "put_pow2 base locase num =
     (let shift = (if base = 16 then 4 else 3); mask = word_of_nat (base - 1);
          c = (digits16 ! unat ((ucast num :: u8) AND mask)) OR locase
      in if drop_bit shift num = 0 then [c] else c # put_pow2 base locase (drop_bit shift num))"
  by pat_completeness auto
termination
  by (relation "measure (\<lambda>(_, _, num). unat num)") (auto intro!: drop_bit_less)

declare put_pow2.simps [simp del]

text \<open>The loop \<open>while (--size >= 0)\<close>: the characters it adds and what it leaves in \<open>size\<close>.\<close>

definition pad_with :: "int \<Rightarrow> u8 \<Rightarrow> bytes \<times> int" where
  "pad_with n c = (replicate (nat n) c, min n 0 - 1)"

definition number_sign :: "u64 \<Rightarrow> u32 \<Rightarrow> u8" where
  "number_sign num ty =
     (if \<not> flag_on ty SIGN then 0 else if num <s 0 then 0x2d else if flag_on ty PLUS then 0x2b else if flag_on ty SPACE then 0x20 else 0)"

definition number_digits :: "u64 \<Rightarrow> nat \<Rightarrow> u8 \<Rightarrow> bytes" where
  "number_digits num base locase =
     (if num = 0 then [0x30] else if base \<noteq> 10 then put_pow2 base locase num else put_dec num)"

definition number :: "u64 \<Rightarrow> nat \<Rightarrow> int \<Rightarrow> int \<Rightarrow> u32 \<Rightarrow> bytes" where
  "number num0 base size0 precision0 type0 =
     (let need_pfx = (flag_on type0 SPECIAL \<and> base \<noteq> 10);
          locase = ucast (type0 AND SMALL);
          ty = (if flag_on type0 LEFT then type0 AND NOT ZEROPAD else type0);
          sign = number_sign num0 ty;
          num = (if flag_on ty SIGN \<and> num0 <s 0 then - num0 else num0);
          size1 = (if sign \<noteq> 0 then size0 - 1 else size0);
          size2 = (if need_pfx then if base = 16 then size1 - 2 else size1 - 1 else size1);
          tmp = number_digits num base locase;
          precision = max precision0 (int (length tmp));
          size3 = size2 - precision;
          (blanks, size4) = (if flag_on ty (ZEROPAD + LEFT) then ([], size3) else pad_with size3 0x20);
          (zeros, size5) = (if flag_on ty LEFT then ([], size4) else pad_with size4 (if flag_on ty ZEROPAD then 0x30 else 0x20));
          (tail, _) = pad_with size5 0x20
      in blanks @ (if sign \<noteq> 0 then [sign] else []) @ (if need_pfx then if base = 16 then [0x30, 0x58 OR locase] else [0x30] else []) @
         zeros @ replicate (nat precision - length tmp) 0x30 @ rev tmp @ tail)"

section \<open>The decimal conversion is right\<close>

text \<open>The digits of a number in a base from the last to the first.\<close>

function base_rev :: "nat \<Rightarrow> nat \<Rightarrow> nat list" where
  "base_rev b n = (if b < 2 \<or> n < b then [n] else n mod b # base_rev b (n div b))"
  by pat_completeness auto
termination
  by (relation "measure snd") (auto intro!: div_less_dividend)

declare base_rev.simps [simp del]

abbreviation dec_rev :: "nat \<Rightarrow> nat list" where
  "dec_rev n \<equiv> base_rev 10 n"

lemma dec_rev_simps: "dec_rev n = (if n < 10 then [n] else n mod 10 # dec_rev (n div 10))"
  by (subst base_rev.simps) simp

abbreviation digit_byte :: "nat \<Rightarrow> u8" where
  "digit_byte d \<equiv> 0x30 + word_of_nat d"

lemma tenth_bounds: "10 * (x div 10) \<le> x" "x \<le> 10 * (x div 10) + 9" for x :: nat
  using mult_div_mod_eq [of 10 x] by (simp_all add: less_Suc_eq_le [symmetric])

lemma mul_205: "x \<le> 1000 \<Longrightarrow> x * 205 div 2048 = x div 10" for x :: nat
  using tenth_bounds [of x] by (intro div_nat_eqI) (simp_all add: algebra_simps)

lemma mul_13: "x \<le> 68 \<Longrightarrow> x * 13 div 128 = x div 10" for x :: nat
  using tenth_bounds [of x] by (cases "x div 10 \<le> 5"; intro div_nat_eqI) (simp_all add: algebra_simps)

text \<open>The steps of the conversion on words whose values stay small.\<close>

lemma tenth_205:
  fixes x :: u32
  assumes "unat x \<le> 1000"
  shows "unat (drop_bit 11 (x * 0xcd)) = unat x div 10" "unat (x - 10 * drop_bit 11 (x * 0xcd)) = unat x mod 10"
proof -
  have "unat (x * 0xcd) = unat x * 205" using assms by (simp add: unat_word_ariths)
  then show t: "unat (drop_bit 11 (x * 0xcd)) = unat x div 10" using mul_205 [OF assms] by (simp only: unat_drop_bit_eq) (simp add: drop_bit_eq_div)
  have "unat (10 * drop_bit 11 (x * 0xcd)) = 10 * (unat x div 10)" using t assms by (simp add: unat_word_ariths)
  then show "unat (x - 10 * drop_bit 11 (x * 0xcd)) = unat x mod 10"
    by (simp add: unat_sub_if' minus_div_mult_eq_mod [symmetric] mult.commute)
qed

lemma tenth_13:
  fixes x :: u32
  assumes "unat x \<le> 68"
  shows "unat (drop_bit 7 (x * 0xd)) = unat x div 10" "unat (x - 10 * drop_bit 7 (x * 0xd)) = unat x mod 10"
proof -
  have "unat (x * 0xd) = unat x * 13" using assms by (simp add: unat_word_ariths)
  then show t: "unat (drop_bit 7 (x * 0xd)) = unat x div 10" using mul_13 [OF assms] by (simp only: unat_drop_bit_eq) (simp add: drop_bit_eq_div)
  have "unat (10 * drop_bit 7 (x * 0xd)) = 10 * (unat x div 10)" using t assms by (simp add: unat_word_ariths)
  then show "unat (x - 10 * drop_bit 7 (x * 0xd)) = unat x mod 10"
    by (simp add: unat_sub_if' minus_div_mult_eq_mod [symmetric] mult.commute)
qed

lemma digit_char: "ucast (c + 0x30) = digit_byte (unat c)" for c :: u32
  using ucast_word_of_nat [of "unat c + 0x30"] by (simp add: ac_simps)

text \<open>The four-bit groups of a number below 100000, and the sums the code builds from them, in terms of the number.\<close>

lemma nibbles: "n = 4096 * (n div 4096) + 256 * (n div 256 mod 16) + 16 * (n div 16 mod 16) + n mod 16" for n :: nat
  using mult_div_mod_eq [of 16 n] mult_div_mod_eq [of 16 "n div 16"] mult_div_mod_eq [of 16 "n div 256"]
    div_mult2_eq [of n 16 16, simplified] div_mult2_eq [of n 256 16, simplified] by linarith

lemma bcd_groups:
  fixes q :: u32
  defines "d1 \<equiv> drop_bit 4 q AND 0xf" and "d2 \<equiv> drop_bit 8 q AND 0xf" and "d3 \<equiv> drop_bit 12 q"
  assumes "unat q < 100000"
  shows "unat d1 \<le> 15" "unat d2 \<le> 15" "unat d3 \<le> 24" "unat (q AND 0xf) \<le> 15"
    "unat q = 4096 * unat d3 + 256 * unat d2 + 16 * unat d1 + unat (q AND 0xf)"
proof -
  have m: "unat (x AND 0xf) = unat x mod 16" for x :: u32
  proof -
    have "x AND 0xf = take_bit 4 x" by (simp add: take_bit_eq_mask mask_eq_exp_minus_1)
    then show ?thesis by (simp only: unsigned_take_bit_eq) (simp add: take_bit_eq_mod)
  qed
  show "unat d1 \<le> 15" "unat d2 \<le> 15" "unat (q AND 0xf) \<le> 15" by (simp_all add: m d1_def d2_def less_Suc_eq_le [symmetric])
  have d: "unat (drop_bit k q) = unat q div 2 ^ k" for k by (simp only: unat_drop_bit_eq) (simp add: drop_bit_eq_div)
  show "unat d3 \<le> 24" using assms(4) by (simp only: d3_def d) simp
  show "unat q = 4096 * unat d3 + 256 * unat d2 + 16 * unat d1 + unat (q AND 0xf)"
    unfolding m d1_def d2_def d3_def d using nibbles [of "unat q"] by simp
qed

lemma ten_split:
  fixes n :: nat
  assumes "n = a + 10 * k"
  shows "n mod 10 = a mod 10" "n div 10 = a div 10 + k"
  unfolding assms by simp_all

lemma bcd_sums:
  fixes q :: u32
  defines "n \<equiv> unat q"
    defines "d1 \<equiv> drop_bit 4 q AND 0xf" defines "d2 \<equiv> drop_bit 8 q AND 0xf" defines "d3 \<equiv> drop_bit 12 q"
    defines "d0 \<equiv> 6 * (d3 + d2 + d1) + (q AND 0xf)" defines "q0 \<equiv> drop_bit 11 (d0 * 0xcd)" defines "c0 \<equiv> d0 - 10 * q0"
    defines "e1 \<equiv> q0 + 9 * d3 + 5 * d2 + d1" defines "q1 \<equiv> drop_bit 11 (e1 * 0xcd)" defines "c1 \<equiv> e1 - 10 * q1"
    defines "e2 \<equiv> q1 + 2 * d2" defines "q2 \<equiv> drop_bit 7 (e2 * 0xd)" defines "c2 \<equiv> e2 - 10 * q2"
    defines "e3 \<equiv> q2 + 4 * d3" defines "q3 \<equiv> drop_bit 11 (e3 * 0xcd)" defines "c3 \<equiv> e3 - 10 * q3"
  assumes q: "unat q < 100000"
  shows "unat c0 = n mod 10" "unat c1 = n div 10 mod 10" "unat c2 = n div 100 mod 10" "unat c3 = n div 1000 mod 10" "unat q3 = n div 10000"
    "e1 = 0 \<longleftrightarrow> n < 10" "e2 = 0 \<and> d3 = 0 \<longleftrightarrow> n < 100" "e3 = 0 \<longleftrightarrow> n < 1000" "q3 = 0 \<longleftrightarrow> n < 10000"
proof -
  note g = bcd_groups [OF q, folded d1_def d2_def d3_def]
  have d0: "unat d0 = 6 * (unat d3 + unat d2 + unat d1) + unat (q AND 0xf)"
    unfolding d0_def using g(1-4) by (simp add: unat_word_ariths)
  then have b0: "unat d0 \<le> 1000" using g(1-4) by simp
  note t0 = tenth_205 [OF b0, folded q0_def, folded c0_def]
  have n0: "n = unat d0 + 10 * (409 * unat d3 + 25 * unat d2 + unat d1)" using g(5) d0 by (simp add: n_def)
  note s0 = ten_split [OF n0]
  show "unat c0 = n mod 10" using t0(2) s0(1) by simp
  have n1: "n div 10 = unat q0 + 409 * unat d3 + 25 * unat d2 + unat d1" using s0(2) t0(1) by simp
  have e1: "unat e1 = unat q0 + 9 * unat d3 + 5 * unat d2 + unat d1"
    unfolding e1_def using g(1-4) d0 t0(1) by (simp add: unat_word_ariths)
  then have b1: "unat e1 \<le> 400" using g(1-4) d0 t0(1) by simp
  then have "unat e1 \<le> 1000" by simp
  note t1 = tenth_205 [OF this, folded q1_def, folded c1_def]
  have n1': "n div 10 = unat e1 + 10 * (40 * unat d3 + 2 * unat d2)" using n1 e1 by simp
  note s1 = ten_split [OF n1']
  show "unat c1 = n div 10 mod 10" using t1(2) s1(1) by simp
  have n2: "n div 100 = unat q1 + 40 * unat d3 + 2 * unat d2" using s1(2) t1(1) div_mult2_eq [of n 10 10] by simp
  have e2: "unat e2 = unat q1 + 2 * unat d2" unfolding e2_def using g(1-4) b1 t1(1) by (simp add: unat_word_ariths)
  have "unat q1 \<le> 33"
  proof -
    have "unat e1 \<le> 339" using e1 g(1-4) d0 t0(1) by simp
    then show ?thesis using t1(1) by simp
  qed
  then have b2: "unat e2 \<le> 68" using g(1-4) e2 by simp
  note t2 = tenth_13 [OF b2, folded q2_def, folded c2_def]
  have n2': "n div 100 = unat e2 + 10 * (4 * unat d3)" using n2 e2 by simp
  note s2 = ten_split [OF n2']
  show "unat c2 = n div 100 mod 10" using t2(2) s2(1) by simp
  have n3: "n div 1000 = unat q2 + 4 * unat d3" using s2(2) t2(1) div_mult2_eq [of n 100 10] by simp
  have e3: "unat e3 = unat q2 + 4 * unat d3" unfolding e3_def using g(1-4) b2 t2(1) by (simp add: unat_word_ariths)
  then have "unat e3 \<le> 1000" using g(1-4) b2 t2(1) by simp
  note t3 = tenth_205 [OF this, folded q3_def, folded c3_def]
  show "unat c3 = n div 1000 mod 10" using n3 e3 t3(2) by simp
  show q3: "unat q3 = n div 10000" using n3 e3 t3(1) div_mult2_eq [of n 1000 10] by simp
  show "e1 = 0 \<longleftrightarrow> n < 10" using n1' e1 by (auto simp: unat_eq_0 [symmetric] div_eq_0_iff [symmetric])
  show "e2 = 0 \<and> d3 = 0 \<longleftrightarrow> n < 100" using n2' by (auto simp: unat_eq_0 [symmetric] div_eq_0_iff [symmetric])
  show "e3 = 0 \<longleftrightarrow> n < 1000" using n3 e3 by (auto simp: unat_eq_0 [symmetric] div_eq_0_iff [symmetric])
  show "q3 = 0 \<longleftrightarrow> n < 10000" using q3 by (auto simp: unat_eq_0 [symmetric])
qed

lemma put_dec_full_digits:
  assumes "unat q < 100000"
  shows "put_dec_full q = map digit_byte [unat q mod 10, unat q div 10 mod 10, unat q div 100 mod 10, unat q div 1000 mod 10, unat q div 10000]"
  by (simp only: put_dec_full_def Let_def digit_char bcd_sums [OF assms] list.map)

lemma dec_rev_small:
  assumes "n < 100000"
  shows "dec_rev n = n mod 10 # (if \<not> n < 10 then n div 10 mod 10 # (if \<not> n < 100 then n div 100 mod 10 #
     (if \<not> n < 1000 then n div 1000 mod 10 # (if \<not> n < 10000 then [n div 10000] else []) else []) else []) else [])"
proof -
  have d: "n div 10 div 10 = n div 100" "n div 100 div 10 = n div 1000" "n div 1000 div 10 = n div 10000"
    by (simp_all add: div_mult2_eq [symmetric])
  have l: "n div 10 < 10 \<longleftrightarrow> n < 100" "n div 100 < 10 \<longleftrightarrow> n < 1000" "n div 1000 < 10 \<longleftrightarrow> n < 10000" "n div 10000 < 10"
    using assms by (simp_all add: div_less_iff_less_mult)
  show ?thesis
    by (simp add: dec_rev_simps [of n] dec_rev_simps [of "n div 10"] dec_rev_simps [of "n div 100"] dec_rev_simps [of "n div 1000"]
        dec_rev_simps [of "n div 10000"] d l)
qed

lemma put_dec_trunc_digits:
  assumes "unat q < 100000"
  shows "put_dec_trunc q = map digit_byte (dec_rev (unat q))"
proof -
  note s = bcd_sums [OF assms]
  have o: "a = 0 \<and> b = 0 \<longleftrightarrow> P \<Longrightarrow> a \<noteq> 0 \<or> b \<noteq> 0 \<longleftrightarrow> \<not> P" for a b :: u32 and P by blast
  show ?thesis
    by (simp only: put_dec_trunc_def Let_def digit_char s(1-6,8,9) o [OF s(7)] dec_rev_small [OF assms] if_distrib [of "map digit_byte"] list.map
        not_not cong: if_cong)
qed

text \<open>Five digits of a number, then those of what is left.\<close>

lemma dec_rev_five:
  assumes "100000 \<le> n"
  shows "dec_rev n = [n mod 10, n div 10 mod 10, n div 100 mod 10, n div 1000 mod 10, n div 10000 mod 10] @ dec_rev (n div 100000)"
proof -
  have d: "n div 10 div 10 = n div 100" "n div 100 div 10 = n div 1000" "n div 1000 div 10 = n div 10000" "n div 10000 div 10 = n div 100000"
    by (simp_all add: div_mult2_eq [symmetric])
  have l: "\<not> n < 10" "\<not> n div 10 < 10" "\<not> n div 100 < 10" "\<not> n div 1000 < 10" "\<not> n div 10000 < 10"
    using assms by (simp_all add: div_less_iff_less_mult)
  show ?thesis
    by (simp add: dec_rev_simps [of n] dec_rev_simps [of "n div 10"] dec_rev_simps [of "n div 100"] dec_rev_simps [of "n div 1000"]
        dec_rev_simps [of "n div 10000"] d l)
qed

lemma unat_ucast_small: "unat x < 2 ^ 32 \<Longrightarrow> unat (ucast x :: u32) = unat x" for x :: u64
  by (simp only: unsigned_ucast_eq) (simp add: take_bit_nat_eq_self unsigned_take_bit_eq)

lemma mod_div_swap: "0 < b \<Longrightarrow> a mod (b * c) div b = a div b mod c" for a b c :: nat
  by (simp add: mod_mult2_eq)

lemma put_dec_digits: "put_dec num = map digit_byte (dec_rev (unat num))"
proof (induction num rule: put_dec.induct)
  case (1 num)
  show ?case
  proof (cases "num < 100000")
    case True
    then have "unat (ucast num :: u32) = unat num" by (simp add: unat_ucast_small word_less_nat_alt)
    with True show ?thesis by (simp add: put_dec.simps [of num] put_dec_trunc_digits word_less_nat_alt)
  next
    case False
    let ?r = "ucast (num mod 100000) :: u32"
    have m: "unat (num mod 100000) = unat num mod 100000" by (simp add: unat_mod)
    have r: "unat ?r = unat num mod 100000" using m by (simp add: unat_ucast_small)
    have "a mod 100000 mod 10 = a mod 10" "a mod 100000 div 10 mod 10 = a div 10 mod 10" "a mod 100000 div 100 mod 10 = a div 100 mod 10"
      "a mod 100000 div 1000 mod 10 = a div 1000 mod 10" "a mod 100000 div 10000 = a div 10000 mod 10" for a :: nat
      using mod_div_swap [of 10 a 10000] mod_div_swap [of 100 a 1000] mod_div_swap [of 1000 a 100] mod_div_swap [of 10000 a 10]
      by (simp_all add: mod_mod_cancel)
    moreover have "unat (num div 100000) = unat num div 100000" by (simp add: unat_div)
    ultimately show ?thesis
      using False 1 [OF False] r by (simp add: put_dec.simps [of num] put_dec_full_digits dec_rev_five word_less_nat_alt)
  qed
qed

section \<open>The other conversions\<close>

lemma itoa_loop_digits: "itoa_loop i acc = rev (map digit_byte (dec_rev (unat i))) @ acc"
proof (induction i acc rule: itoa_loop.induct)
  case (1 i acc)
  have c: "itoa_digit i = digit_byte (unat i mod 10)"
  proof -
    have e: "unat i mod 10 = unat (i mod 10)" by (simp add: unat_mod)
    show ?thesis using ucast_word_of_nat [of "unat (i mod 10)"] by (simp add: itoa_digit_def e)
  qed
  have q: "unat (i div 10) = unat i div 10" by (simp add: unat_div)
  have z: "i div 10 = 0 \<longleftrightarrow> unat i < 10" by (simp only: unat_eq_0 [symmetric] q) (simp add: div_eq_0_iff)
  show ?case using 1 c z q by (auto simp: itoa_loop.simps [of i acc] dec_rev_simps [of "unat i"])
qed

lemma simple_itoa_digits: "simple_itoa i = rev (map digit_byte (dec_rev (unat i)))"
  by (simp add: simple_itoa_def itoa_loop_digits)

definition hex_char :: "nat \<Rightarrow> u8" where
  "hex_char d = digits16 ! d OR 0x20"

lemma low_nibble: "unat ((ucast num :: u8) AND 0xf) = unat num mod 16" for num :: u64
proof -
  have "(ucast num :: u8) AND 0xf = take_bit 4 (ucast num)" by (simp add: take_bit_eq_mask mask_eq_exp_minus_1)
  then show ?thesis by (simp only: unsigned_take_bit_eq unsigned_ucast_eq) (simp add: take_bit_eq_mod mod_mod_cancel)
qed

lemma put_pow2_hex: "put_pow2 16 0x20 num = map hex_char (base_rev 16 (unat num))"
proof (induction "16 :: nat" "0x20 :: u8" num rule: put_pow2.induct)
  case (1 num)
  have d: "unat (drop_bit 4 num) = unat num div 16" by (simp only: unat_drop_bit_eq) (simp add: drop_bit_eq_div)
  then have z: "drop_bit 4 num = 0 \<longleftrightarrow> unat num < 16" by (simp only: unat_eq_0 [symmetric] d) (simp add: div_eq_0_iff)
  show ?case
    using 1 z by (subst put_pow2.simps, subst base_rev.simps) (auto simp: Let_def low_nibble hex_char_def d)
qed

section \<open>Reading back\<close>

lemma digits_number_base:
  assumes "2 \<le> b" "\<And>d. d < b \<Longrightarrow> digit_value (ch d) = d"
  shows "digits_number b (map ch (rev (base_rev b n))) = n"
  using assms
proof (induction b n rule: base_rev.induct)
  case (1 b n)
  show ?case
  proof (cases "n < b")
    case True
    then have "digit_value (ch n) = n" by (rule "1.prems"(2))
    with True show ?thesis by (subst base_rev.simps) (simp add: digits_number_def)
  next
    case False
    have "digit_value (ch (n mod b)) = n mod b" using "1.prems"(1) by (intro "1.prems"(2)) simp
    moreover have "digits_number b (map ch (rev (base_rev b (n div b)))) = n div b" using False 1 by simp
    ultimately show ?thesis using False "1.prems"(1) by (subst base_rev.simps) (simp add: digits_number_def mult.commute)
  qed
qed

lemma base_rev_bound: "2 \<le> b \<Longrightarrow> d \<in> set (base_rev b n) \<Longrightarrow> d < b"
  by (induction b n rule: base_rev.induct) (subst (asm) base_rev.simps, auto split: if_splits)

lemma base_rev_nonempty [simp]: "base_rev b n \<noteq> []"
  by (subst base_rev.simps) simp

lemma hex_char_value: "d < 16 \<Longrightarrow> is_digit_of 16 (hex_char d) \<and> digit_value (hex_char d) = d"
proof -
  have "list_all (\<lambda>d. is_digit_of 16 (hex_char d) \<and> digit_value (hex_char d) = d) [0..<16]" by code_simp
  then show "d < 16 \<Longrightarrow> ?thesis" by (simp add: list_all_iff)
qed

lemma dec_char_value: "d < 10 \<Longrightarrow> is_digit_of 10 (digit_byte d) \<and> digit_value (digit_byte d) = d"
proof -
  have "list_all (\<lambda>d. is_digit_of 10 (digit_byte d) \<and> digit_value (digit_byte d) = d) [0..<10]" by code_simp
  then show "d < 10 \<Longrightarrow> ?thesis" by (simp add: list_all_iff)
qed

lemma nul_no_digit: "\<not> is_digit_of b 0"
proof -
  have "\<not> is_xdigit 0" by code_simp
  then show ?thesis by (simp add: is_digit_of_def)
qed

text \<open>A printed number is what \<open>simple_strtoul\<close> reads, and it reads all of it.\<close>

lemma strtoul_hex: "simple_strtoul (ascii ''0x'' @ rev (map hex_char (base_rev 16 n)) @ [0]) 0 16 =
   Done (word_of_nat n, 2 + length (base_rev 16 n))"
  using simple_strtoul_digits [where pre = "ascii ''0x''" and ds = "rev (map hex_char (base_rev 16 n))" and base = 16 and cp = 0 and c = 0
      and m = "ascii ''0x'' @ rev (map hex_char (base_rev 16 n)) @ [0]" and r = "[]"]
    hex_char_value base_rev_bound [of 16] digits_number_base [of 16 hex_char n] nul_no_digit by (auto simp: rev_map)

lemma strtoul_dec: "simple_strtoul (rev (map digit_byte (dec_rev n)) @ [0]) 0 10 = Done (word_of_nat n, length (dec_rev n))"
  using simple_strtoul_digits [where pre = "[]" and ds = "rev (map digit_byte (dec_rev n))" and base = 10 and cp = 0 and c = 0
      and m = "rev (map digit_byte (dec_rev n)) @ [0]" and r = "[]"]
    dec_char_value base_rev_bound [of 10] digits_number_base [of 10 digit_byte n] nul_no_digit by (auto simp: rev_map)

end
