(* ===== verification/Uuid.thy ===== *)
theory Uuid
  imports VsNumber
begin

text \<open>
  \<open>lib/uuid.c\<close>: the text form of the unique identifiers of partitions, in the order of bytes of RFC 4122 and in that of the GPT.  A string is the list of
  its bytes without the NUL; the random numbers are an argument.  The processor is little-endian.
\<close>

section \<open>Model\<close>

definition UUID_STR_LEN :: nat where "UUID_STR_LEN = 36"

datatype uuid_format = UUID_STR_FORMAT_STD | UUID_STR_FORMAT_GUID

text \<open>The loop ends behind the first character that is out of place.\<close>

fun valid_loop :: "bytes \<Rightarrow> nat \<Rightarrow> bool \<Rightarrow> nat \<times> bool" where
  "valid_loop [] i valid = (i, valid)"
| "valid_loop (c # s) i valid =
     (if valid then valid_loop s (i + 1) (if i \<in> {8, 13, 18, 23} then c = 0x2d else is_xdigit c) else (i, valid))"

definition uuid_str_valid :: "bytes option \<Rightarrow> bool" where
  "uuid_str_valid uuid = (case uuid of None \<Rightarrow> False
     | Some s \<Rightarrow> (let (i, valid) = valid_loop s 0 True in i = UUID_STR_LEN \<and> valid))"

definition put16le :: "u16 \<Rightarrow> bytes" where
  "put16le v = [ucast v, ucast (drop_bit 8 v)]"

text \<open>The last six bytes of a big-endian 64-bit number.\<close>

definition put48be :: "u64 \<Rightarrow> bytes" where
  "put48be v = [ucast (drop_bit 40 v), ucast (drop_bit 32 v), ucast (drop_bit 24 v), ucast (drop_bit 16 v), ucast (drop_bit 8 v), ucast v]"

text \<open>The result and the sixteen bytes written, none of them on an error.\<close>

definition uuid_str_to_bin :: "bytes \<Rightarrow> uuid_format \<Rightarrow> (int \<times> bytes) outcome" where
  "uuid_str_to_bin s fmt =
     (if \<not> uuid_str_valid (Some s) then Done (- EINVAL, [])
      else let m = s @ [0]; std = (fmt = UUID_STR_FORMAT_STD)
      in bind_outcome (simple_strtoul m 0 16) (\<lambda>(a, _).
         bind_outcome (simple_strtoul m 9 16) (\<lambda>(b, _).
         bind_outcome (simple_strtoul m 14 16) (\<lambda>(c, _).
         bind_outcome (simple_strtoul m 19 16) (\<lambda>(d, _).
         bind_outcome (simple_strtoull m 24 16) (\<lambda>(e, _).
           Done (0, (if std then put32be a else put32le a) @ (if std then put16be (ucast b) else put16le (ucast b)) @
             (if std then put16be (ucast c) else put16le (ucast c)) @ put16be (ucast d) @ put48be e)))))))"

text \<open>\<open>sprintf\<close> with \<open>%02x\<close>.\<close>

definition byte_02x :: "u8 \<Rightarrow> bytes" where
  "byte_02x b = number (ucast b) 16 2 (- 1) (ZEROPAD OR SMALL)"

definition char_order :: "uuid_format \<Rightarrow> nat list" where
  "char_order fmt = (if fmt = UUID_STR_FORMAT_STD then [0, 1, 2, 3, 4, 5, 6, 7, 8, 9, 10, 11, 12, 13, 14, 15]
     else [3, 2, 1, 0, 5, 4, 7, 6, 8, 9, 10, 11, 12, 13, 14, 15])"

definition uuid_bin_to_str :: "bytes \<Rightarrow> uuid_format \<Rightarrow> bytes outcome" where
  "uuid_bin_to_str uuid_bin fmt =
     (if length uuid_bin < 16 then Fault
      else Done (concat (map (\<lambda>i. byte_02x (uuid_bin ! (char_order fmt ! i)) @ (if i \<in> {3, 5, 7, 9} then [0x2d] else [])) [0..<16])))"

text \<open>The random words lie in memory as they are; then the version is set in a big-endian half-word and the variant in a byte.\<close>

definition gen_rand_uuid :: "u32 \<Rightarrow> u32 \<Rightarrow> u32 \<Rightarrow> u32 \<Rightarrow> bytes" where
  "gen_rand_uuid r0 r1 r2 r3 =
     (let p = put32le r0 @ put32le r1 @ put32le r2 @ put32le r3;
          t = (push_bit 8 (ucast (p ! 6)) OR ucast (p ! 7) :: u16);
          t1 = (t AND NOT 0xf000) OR push_bit 12 0x4;
          v = (p ! 8 AND NOT 0xc0) OR push_bit 7 1
      in p[6 := ucast (drop_bit 8 t1), 7 := ucast t1, 8 := v])"

definition gen_rand_uuid_str :: "u32 \<Rightarrow> u32 \<Rightarrow> u32 \<Rightarrow> u32 \<Rightarrow> uuid_format \<Rightarrow> bytes outcome" where
  "gen_rand_uuid_str r0 r1 r2 r3 fmt = uuid_bin_to_str (gen_rand_uuid r0 r1 r2 r3) fmt"

section \<open>Text of bytes\<close>

definition hex_text :: "bytes \<Rightarrow> bytes" where
  "hex_text bs = concat (map (\<lambda>b. [hex_char (unat b div 16), hex_char (unat b mod 16)]) bs)"

definition be_value :: "bytes \<Rightarrow> nat" where
  "be_value bs = foldl (\<lambda>r b. r * 256 + unat b) 0 bs"

lemma byte_nibbles [simp]: "unat b div 16 < 16" for b :: u8
proof -
  have "unat b < 256" using unsigned_less [of b] by simp
  then show ?thesis by simp
qed

lemma hex_text_value: "digits_number 16 (hex_text bs) = be_value bs"
proof (induction bs rule: rev_induct)
  case (snoc b bs)
  have "16 * (16 * k + unat b div 16) + unat b mod 16 = k * 256 + unat b" for k by (simp add: algebra_simps)
  with snoc hex_char_value [of "unat b div 16"] hex_char_value [of "unat b mod 16"] show ?case
    by (simp add: hex_text_def be_value_def digits_number_def mult.commute)
qed (simp add: hex_text_def be_value_def digits_number_def)

lemma hex_text_digits: "d \<in> set (hex_text bs) \<Longrightarrow> is_digit_of 16 d"
  using hex_char_value by (auto simp: hex_text_def)

lemma length_hex_text [simp]: "length (hex_text bs) = 2 * length bs"
  by (induction bs) (simp_all add: hex_text_def)

lemma byte_02x_text: "byte_02x b = hex_text [b]"
proof -
  have u: "unat (ucast b :: u64) = unat b" by (simp only: unsigned_ucast_eq) (simp add: take_bit_nat_eq_self less_trans [OF unsigned_less])
  have f: "flag_on (ZEROPAD OR SMALL) SPECIAL = False" "flag_on (ZEROPAD OR SMALL) LEFT = False" "flag_on (ZEROPAD OR SMALL) SIGN = False"
    "flag_on (ZEROPAD OR SMALL) (ZEROPAD + LEFT) = True" "flag_on (ZEROPAD OR SMALL) ZEROPAD = True"
    "ucast SMALL = (0x20 :: u8)" by (simp_all add: flag_on_def print_flags)
  have z: "hex_char 0 = 0x30" by code_simp
  have "number_digits (ucast b) 16 0x20 = map hex_char (base_rev 16 (unat b))"
  proof (cases "b = 0")
    case True
    then show ?thesis using z by (subst base_rev.simps) (simp add: number_digits_def)
  next
    case False
    then have "ucast b \<noteq> (0 :: u64)" using u by (metis unat_eq_0)
    then show ?thesis by (simp add: number_digits_def put_pow2_hex u)
  qed
  moreover have "base_rev 16 (unat b) = (if unat b < 16 then [unat b] else [unat b mod 16, unat b div 16])"
    using byte_nibbles [of b] by (subst base_rev.simps) (simp, subst base_rev.simps, simp)
  ultimately show ?thesis
    using z by (simp add: byte_02x_def number_def number_sign_def f Let_def pad_with_def hex_text_def)
qed

section \<open>Round trip\<close>

lemma xdigit_not_x: "is_xdigit c \<Longrightarrow> to_lower c \<noteq> 0x78"
proof
  assume "is_xdigit c" "to_lower c = 0x78"
  moreover from this(2) have "c = 0x58 \<or> c = 0x78" by (auto simp: to_lower_def eq_diff_eq [symmetric] split: if_splits)
  moreover have "\<not> is_xdigit 0x58" "\<not> is_xdigit 0x78" by code_simp+
  ultimately show False by blast
qed

text \<open>\<open>simple_strtoul\<close> on a field of hexadecimal digits that ends at another character.\<close>

lemma strto_field:
  assumes "drop cp m = hex_text (b # bs) @ c # r" "\<not> is_digit_of 16 c"
  shows "simple_strto m cp 16 = Done (word_of_nat (be_value (b # bs)), cp + 2 * length (b # bs))"
proof -
  let ?ds = "hex_text (b # bs)"
  obtain x y t where ds: "?ds = x # y # t" by (simp add: hex_text_def)
  have dg: "\<forall>d\<in>set ?ds. is_digit_of 16 d" using hex_text_digits by blast
  then have "is_xdigit y" by (simp add: ds is_digit_of_def)
  then have nx: "to_lower y \<noteq> chr CHR ''x''" using xdigit_not_x by simp
  have d0: "drop cp m = x # (y # t @ c # r)" using assms(1) ds by simp
  note n0 = drop_Cons_nth [OF d0]
  then have "drop (Suc cp) m = y # (t @ c # r)" by simp
  note n1 = drop_Cons_nth [OF this]
  have "fixup_radix m cp 16 = Done (cp, 16)" using n0 n1 nx by (auto simp: fixup_radix_def rd_def)
  from simple_strto_digits [OF this assms(1) dg assms(2)] show ?thesis
    by (simp add: hex_text_value)
qed

text \<open>A byte of a number whose bytes are given.\<close>

lemma byte_of_nat:
  assumes "n < 2 ^ LENGTH('a)"
  shows "ucast (drop_bit k (word_of_nat n :: 'a::len word)) = (word_of_nat (n div 2 ^ k) :: u8)"
proof -
  have "unat (drop_bit k (word_of_nat n :: 'a word)) = n div 2 ^ k"
    using assms by (simp only: unat_drop_bit_eq) (simp add: drop_bit_eq_div unsigned_of_nat take_bit_nat_eq_self)
  then show ?thesis by (metis of_nat_unat)
qed

lemma byte_of_nat_0: "n < 2 ^ LENGTH('a) \<Longrightarrow> ucast (word_of_nat n :: 'a::len word) = (word_of_nat n :: u8)"
  using byte_of_nat [where 'a = 'a and k = 0] by simp

lemma last_byte: "word_of_nat (k * 256 + unat b) = b" "(k * 256 + unat b) div 256 = k" for b :: u8
proof -
  have "(word_of_nat k * 256 :: u8) = word_of_nat k * 0" by (rule arg_cong [of _ _ "(*) (word_of_nat k)"]) simp
  then show "word_of_nat (k * 256 + unat b) = b" by simp
  have "unat b < 256" using unsigned_less [of b] by simp
  then show "(k * 256 + unat b) div 256 = k" by simp
qed

lemma be_value_bound: "be_value bs < 256 ^ length bs"
proof (induction bs rule: rev_induct)
  case (snoc b bs)
  have "unat b < 256" using unsigned_less [of b] by simp
  with snoc show ?case by (simp add: be_value_def)
qed (simp add: be_value_def)

lemma put_be_value:
  "put32be (word_of_nat (be_value [b0, b1, b2, b3])) = [b0, b1, b2, b3]"
  "put32le (word_of_nat (be_value [b0, b1, b2, b3])) = [b3, b2, b1, b0]"
  "put16be (ucast (word_of_nat (be_value [b0, b1]) :: u32)) = [b0, b1]"
  "put16le (ucast (word_of_nat (be_value [b0, b1]) :: u32)) = [b1, b0]"
  "put48be (word_of_nat (be_value [b0, b1, b2, b3, b4, b5])) = [b0, b1, b2, b3, b4, b5]"
proof -
  have d: "n div 2 ^ 8 = n div 256" "n div 2 ^ 16 = n div 256 div 256" "n div 2 ^ 24 = n div 256 div 256 div 256"
    "n div 2 ^ 32 = n div 256 div 256 div 256 div 256" "n div 2 ^ 40 = n div 256 div 256 div 256 div 256 div 256" for n :: nat
    by (simp_all add: div_mult2_eq [symmetric])
  have v: "be_value [b0, b1] = (0 * 256 + unat b0) * 256 + unat b1"
    "be_value [b0, b1, b2, b3] = (((0 * 256 + unat b0) * 256 + unat b1) * 256 + unat b2) * 256 + unat b3"
    "be_value [b0, b1, b2, b3, b4, b5] = (((((0 * 256 + unat b0) * 256 + unat b1) * 256 + unat b2) * 256 + unat b3) * 256 + unat b4) * 256 + unat b5"
    by (simp_all add: be_value_def)
  have n: "be_value [b0, b1, b2, b3] < 2 ^ LENGTH(32)" "be_value [b0, b1] < 2 ^ LENGTH(16)" "be_value [b0, b1, b2, b3, b4, b5] < 2 ^ LENGTH(64)"
    using be_value_bound [of "[b0, b1, b2, b3]"] be_value_bound [of "[b0, b1]"] be_value_bound [of "[b0, b1, b2, b3, b4, b5]"] by simp_all
  have w: "ucast (word_of_nat (be_value [b0, b1]) :: u32) = (word_of_nat (be_value [b0, b1]) :: u16)"
    by (simp only: unsigned_of_nat) (simp add: word_of_nat_eq_iff)
  note b4 = byte_of_nat [OF n(1)] byte_of_nat_0 [OF n(1)] and b2 = byte_of_nat [OF n(2)] byte_of_nat_0 [OF n(2)]
    and b6 = byte_of_nat [OF n(3)] byte_of_nat_0 [OF n(3)]
  show "put32be (word_of_nat (be_value [b0, b1, b2, b3])) = [b0, b1, b2, b3]" "put32le (word_of_nat (be_value [b0, b1, b2, b3])) = [b3, b2, b1, b0]"
    unfolding put32be_def put32le_def b4 by (simp_all only: d v last_byte)
  show "put16be (ucast (word_of_nat (be_value [b0, b1]) :: u32)) = [b0, b1]" "put16le (ucast (word_of_nat (be_value [b0, b1]) :: u32)) = [b1, b0]"
    unfolding put16be_def put16le_def w b2 by (simp_all only: d v last_byte)
  show "put48be (word_of_nat (be_value [b0, b1, b2, b3, b4, b5])) = [b0, b1, b2, b3, b4, b5]"
    unfolding put48be_def b6 by (simp_all only: d v last_byte)
qed

definition uuid_text :: "bytes \<Rightarrow> bytes" where
  "uuid_text bs = hex_text (take 4 bs) @ [0x2d] @ hex_text (take 2 (drop 4 bs)) @ [0x2d] @ hex_text (take 2 (drop 6 bs)) @ [0x2d] @
     hex_text (take 2 (drop 8 bs)) @ [0x2d] @ hex_text (drop 10 bs)"

lemma length_uuid_text: "length bs = 16 \<Longrightarrow> length (uuid_text bs) = 36"
  by (simp add: uuid_text_def)

lemma hyphen_no_digit: "\<not> is_digit_of 16 0x2d"
  by code_simp

lemma nibble_xdigit [simp]: "is_xdigit (hex_char (unat b div 16))" "is_xdigit (hex_char (unat b mod 16))" for b :: u8
  using hex_char_value [of "unat b div 16"] hex_char_value [of "unat b mod 16"] by (auto simp: is_digit_of_def)

lemma uuid_str_to_bin_text:
  fixes b0 b1 b2 b3 b4 b5 b6 b7 b8 b9 b10 b11 b12 b13 b14 b15 :: u8
  defines "bs \<equiv> [b0, b1, b2, b3, b4, b5, b6, b7, b8, b9, b10, b11, b12, b13, b14, b15]"
  shows "uuid_str_to_bin (uuid_text bs) fmt =
     Done (0, if fmt = UUID_STR_FORMAT_STD then bs else [b3, b2, b1, b0, b5, b4, b7, b6, b8, b9, b10, b11, b12, b13, b14, b15])"
proof -
  let ?m = "uuid_text bs @ [0]"
  have v: "uuid_str_valid (Some (uuid_text bs))"
    by (simp add: uuid_str_valid_def uuid_text_def bs_def hex_text_def UUID_STR_LEN_def)
  have f: "drop 0 ?m = hex_text (b0 # [b1, b2, b3]) @ 0x2d # drop 9 ?m" "drop 9 ?m = hex_text (b4 # [b5]) @ 0x2d # drop 14 ?m"
    "drop 14 ?m = hex_text (b6 # [b7]) @ 0x2d # drop 19 ?m" "drop 19 ?m = hex_text (b8 # [b9]) @ 0x2d # drop 24 ?m"
    "drop 24 ?m = hex_text (b10 # [b11, b12, b13, b14, b15]) @ 0 # []"
    by (simp_all add: uuid_text_def bs_def)
  note r = strto_field [OF f(1) hyphen_no_digit] strto_field [OF f(2) hyphen_no_digit] strto_field [OF f(3) hyphen_no_digit]
    strto_field [OF f(4) hyphen_no_digit] strto_field [OF f(5) nul_no_digit]
  show ?thesis
    using v by (simp add: uuid_str_to_bin_def simple_strtoul_def simple_strtoull_def r put_be_value) (simp add: bs_def)
qed

lemma uuid_bin_to_str_text:
  fixes b0 b1 b2 b3 b4 b5 b6 b7 b8 b9 b10 b11 b12 b13 b14 b15 :: u8
  defines "bs \<equiv> [b0, b1, b2, b3, b4, b5, b6, b7, b8, b9, b10, b11, b12, b13, b14, b15]"
  shows "uuid_bin_to_str bs fmt =
     Done (uuid_text (if fmt = UUID_STR_FORMAT_STD then bs else [b3, b2, b1, b0, b5, b4, b7, b6, b8, b9, b10, b11, b12, b13, b14, b15]))"
proof -
  have u: "[0..<16] = [0, 1, 2, 3, 4, 5, 6, 7, 8, 9, 10, 11, 12, 13, 14, 15 :: nat]" by code_simp
  show ?thesis
    by (cases fmt) (simp_all add: uuid_bin_to_str_def u bs_def char_order_def byte_02x_text uuid_text_def hex_text_def)
qed

text \<open>C40: a unique identifier printed by \<open>uuid_bin_to_str\<close> in either order of bytes is a valid text of 36 characters from which \<open>uuid_str_to_bin\<close>
  restores the sixteen bytes.\<close>

theorem uuid_text_roundtrip:
  assumes "length uuid_bin = 16"
  shows "\<exists>s. uuid_bin_to_str uuid_bin fmt = Done s \<and> length s = 36 \<and> uuid_str_valid (Some s) \<and> uuid_str_to_bin s fmt = Done (0, uuid_bin)"
proof -
  obtain b0 b1 b2 b3 b4 b5 b6 b7 b8 b9 b10 b11 b12 b13 b14 b15
    where bs: "uuid_bin = [b0, b1, b2, b3, b4, b5, b6, b7, b8, b9, b10, b11, b12, b13, b14, b15]"
    using assms by (auto simp: numeral_eq_Suc length_Suc_conv)
  obtain s where s: "uuid_bin_to_str uuid_bin fmt = Done s" "uuid_str_to_bin s fmt = Done (0, uuid_bin)" "length s = 36"
    by (cases fmt) (simp_all add: bs uuid_bin_to_str_text uuid_str_to_bin_text length_uuid_text)
  moreover from s(2) have "uuid_str_valid (Some s)" using bs by (auto simp: uuid_str_to_bin_def split: if_splits)
  ultimately show ?thesis by blast
qed

theorem uuid_text_roundtrip_witness:
  "\<exists>s. uuid_bin_to_str (replicate 16 0xab) UUID_STR_FORMAT_GUID = Done s \<and> length s = 36 \<and> uuid_str_to_bin s UUID_STR_FORMAT_GUID = Done (0, replicate 16 0xab)"
proof -
  have "length (replicate 16 0xab :: bytes) = 16" by simp
  from uuid_text_roundtrip [OF this, of UUID_STR_FORMAT_GUID] show ?thesis by blast
qed

text \<open>The generated identifiers carry version 4 and the variant of RFC 4122.\<close>

lemma gen_rand_uuid_version:
  "length (gen_rand_uuid r0 r1 r2 r3) = 16" "drop_bit 4 (gen_rand_uuid r0 r1 r2 r3 ! 6) = 4" "drop_bit 6 (gen_rand_uuid r0 r1 r2 r3 ! 8) = 2"
proof -
  show "length (gen_rand_uuid r0 r1 r2 r3) = 16" by (simp add: gen_rand_uuid_def Let_def)
  have e: "n < LENGTH(8) \<Longrightarrow> n \<in> {0, 1, 2, 3, 4, 5, 6, 7}" for n :: nat by auto
  have g: "length p = 16 \<Longrightarrow> p[6 := a, 7 := b, 8 := c] ! 6 = a" "length p = 16 \<Longrightarrow> p[6 := a, 7 := b, 8 := c] ! 8 = c" for p :: bytes and a b c by simp_all
  have t: "drop_bit 4 (ucast (drop_bit 8 ((t AND NOT 0xf000) OR push_bit 12 4)) :: u8) = 4" for t :: u16
    by (rule bit_word_eqI, drule e) (auto simp: bit_simps)
  show "drop_bit 4 (gen_rand_uuid r0 r1 r2 r3 ! 6) = 4" unfolding gen_rand_uuid_def Let_def by (subst g(1), simp, rule t)
  have v: "drop_bit 6 ((v AND NOT 0xc0) OR push_bit 7 1 :: u8) = 2" for v
    by (rule bit_word_eqI, drule e) (auto simp: bit_simps)
  show "drop_bit 6 (gen_rand_uuid r0 r1 r2 r3 ! 8) = 2" unfolding gen_rand_uuid_def Let_def by (subst g(2), simp, rule v)
qed

end
