(* ===== verification/Charset.thy ===== *)
theory Charset
  imports CStrings
begin

text \<open>
  UTF-16 strings, \<open>lib/charset.c\<close>: length, copy and the conversion to UTF-8.  A string is the list of code units from the pointer to the end of
  the object; the conversion yields the bytes it writes.
\<close>

section \<open>Strings of code units\<close>

fun utf16_strlen :: "u16 list \<Rightarrow> nat outcome" where
  "utf16_strlen [] = Fault"
| "utf16_strlen (c # s) = (if c = 0 then Done 0 else bind_outcome (utf16_strlen s) (\<lambda>n. Done (n + 1)))"

fun utf16_strnlen :: "u16 list \<Rightarrow> nat \<Rightarrow> nat outcome" where
  "utf16_strnlen s 0 = Done 0"
| "utf16_strnlen [] (Suc n) = Fault"
| "utf16_strnlen (c # s) (Suc n) = (if c = 0 then Done 0 else bind_outcome (utf16_strnlen s n) (\<lambda>k. Done (k + 1)))"

text \<open>Copying from index \<open>s\<close> to index \<open>d\<close> of one memory of code units.\<close>

function utf16_strcpy :: "u16 list \<Rightarrow> nat \<Rightarrow> nat \<Rightarrow> u16 list outcome" where
  "utf16_strcpy m d s =
     (if s < length m \<and> d < length m then
        (if m ! s = 0 then Done (m[d := 0]) else utf16_strcpy (m[d := m ! s]) (d + 1) (s + 1))
      else Fault)"
  by pat_completeness auto
termination
  by (relation "measure (\<lambda>(m, d, s). length m - s)") auto

declare utf16_strcpy.simps [simp del]

definition utf16_strdup :: "nat option \<Rightarrow> u16 list \<Rightarrow> nat option \<Rightarrow> (nat option \<times> u16 list) outcome" where
  "utf16_strdup fresh m s = (case s of None \<Rightarrow> Done (None, m)
     | Some p \<Rightarrow> bind_outcome (utf16_strlen (drop p m)) (\<lambda>_.
         case fresh of None \<Rightarrow> Done (None, m)
         | Some new \<Rightarrow> bind_outcome (utf16_strcpy m new p) (\<lambda>m1. Done (Some new, m1))))"

section \<open>Conversion\<close>

definition enc2 :: "u32 \<Rightarrow> bytes" where
  "enc2 code = [ucast (drop_bit 6 code OR 0xC0), ucast ((code AND 0x3F) OR 0x80)]"

definition enc3 :: "u32 \<Rightarrow> bytes" where
  "enc3 code = [ucast (drop_bit 12 code OR 0xE0), ucast ((drop_bit 6 code AND 0x3F) OR 0x80), ucast ((code AND 0x3F) OR 0x80)]"

definition enc4 :: "u32 \<Rightarrow> bytes" where
  "enc4 code = [ucast (drop_bit 18 code OR 0xF0), ucast ((drop_bit 12 code AND 0x3F) OR 0x80),
     ucast ((drop_bit 6 code AND 0x3F) OR 0x80), ucast ((code AND 0x3F) OR 0x80)]"

abbreviation emit :: "bytes \<Rightarrow> bytes outcome \<Rightarrow> bytes outcome" where
  "emit cs r \<equiv> bind_outcome r (\<lambda>rest. Done (cs @ rest))"

text \<open>The loop: turns left, the code units ahead, and a pending high surrogate.  An unpaired one uses up a turn without a code unit.\<close>

fun utf16_to_utf8_loop :: "nat \<Rightarrow> u16 list \<Rightarrow> u32 \<Rightarrow> bytes outcome" where
  "utf16_to_utf8_loop 0 src code_high = Done []"
| "utf16_to_utf8_loop (Suc n) [] code_high = Fault"
| "utf16_to_utf8_loop (Suc n) (c # src) code_high =
     (let code = ucast c
      in if code_high \<noteq> 0 then
           if 0xDC00 \<le> code \<and> code \<le> 0xDFFF
           then emit (enc4 (push_bit 10 (code_high - 0xD800) + (code - 0xDC00) + 0x10000)) (utf16_to_utf8_loop n src 0)
           else emit [0x3f] (utf16_to_utf8_loop n (c # src) 0)
         else if code \<le> 0x7F then emit [ucast code] (utf16_to_utf8_loop n src 0)
         else if code \<le> 0x7FF then emit (enc2 code) (utf16_to_utf8_loop n src 0)
         else if 0xD800 \<le> code \<and> code \<le> 0xDBFF then utf16_to_utf8_loop n src code
         else if 0xDC00 \<le> code \<and> code \<le> 0xDFFF then emit [0x3f] (utf16_to_utf8_loop n src 0)
         else if code < 0x10000 then emit (enc3 code) (utf16_to_utf8_loop n src 0)
         else emit (enc4 code) (utf16_to_utf8_loop n src 0))"

definition utf16_to_utf8 :: "u16 list \<Rightarrow> nat \<Rightarrow> bytes outcome" where
  "utf16_to_utf8 src sz = utf16_to_utf8_loop sz src 0"

section \<open>The conversion is right\<close>

text \<open>The two encodings of a code point.\<close>

definition code_point :: "nat \<Rightarrow> bool" where
  "code_point p \<longleftrightarrow> p < 0xD800 \<or> 0xE000 \<le> p \<and> p < 0x110000"

definition units_of :: "nat \<Rightarrow> u16 list" where
  "units_of p = (if p < 0x10000 then [word_of_nat p]
     else [word_of_nat (0xD800 + (p - 0x10000) div 1024), word_of_nat (0xDC00 + (p - 0x10000) mod 1024)])"

definition utf8_of :: "nat \<Rightarrow> bytes" where
  "utf8_of p =
     (if p < 0x80 then [word_of_nat p]
      else if p < 0x800 then [word_of_nat (0xC0 + p div 64), word_of_nat (0x80 + p mod 64)]
      else if p < 0x10000 then [word_of_nat (0xE0 + p div 4096), word_of_nat (0x80 + p div 64 mod 64), word_of_nat (0x80 + p mod 64)]
      else [word_of_nat (0xF0 + p div 262144), word_of_nat (0x80 + p div 4096 mod 64), word_of_nat (0x80 + p div 64 mod 64),
        word_of_nat (0x80 + p mod 64)])"

lemma lead_bytes:
  fixes x :: u32
  shows "unat x < 64 \<Longrightarrow> ucast (x OR 0x80) = (word_of_nat (0x80 + unat x) :: u8)"
    "unat x < 32 \<Longrightarrow> ucast (x OR 0xC0) = (word_of_nat (0xC0 + unat x) :: u8)"
    "unat x < 16 \<Longrightarrow> ucast (x OR 0xE0) = (word_of_nat (0xE0 + unat x) :: u8)"
    "unat x < 8 \<Longrightarrow> ucast (x OR 0xF0) = (word_of_nat (0xF0 + unat x) :: u8)"
proof -
  have "list_all (\<lambda>n. ucast ((word_of_nat n :: u32) OR 0x80) = (word_of_nat (0x80 + n) :: u8)) [0..<64]"
    "list_all (\<lambda>n. ucast ((word_of_nat n :: u32) OR 0xC0) = (word_of_nat (0xC0 + n) :: u8)) [0..<32]"
    "list_all (\<lambda>n. ucast ((word_of_nat n :: u32) OR 0xE0) = (word_of_nat (0xE0 + n) :: u8)) [0..<16]"
    "list_all (\<lambda>n. ucast ((word_of_nat n :: u32) OR 0xF0) = (word_of_nat (0xF0 + n) :: u8)) [0..<8]" by code_simp+
  note l = this [unfolded list_all_iff set_upt, THEN bspec, of "unat x"]
  then show "unat x < 64 \<Longrightarrow> ucast (x OR 0x80) = (word_of_nat (0x80 + unat x) :: u8)"
    "unat x < 32 \<Longrightarrow> ucast (x OR 0xC0) = (word_of_nat (0xC0 + unat x) :: u8)"
    "unat x < 16 \<Longrightarrow> ucast (x OR 0xE0) = (word_of_nat (0xE0 + unat x) :: u8)"
    "unat x < 8 \<Longrightarrow> ucast (x OR 0xF0) = (word_of_nat (0xF0 + unat x) :: u8)" by simp_all
qed

lemma low6: "unat (x AND 0x3F) = unat x mod 64" for x :: u32
proof -
  have "x AND 0x3F = take_bit 6 x" by (simp add: take_bit_eq_mask mask_eq_exp_minus_1)
  then show ?thesis by (simp only: unsigned_take_bit_eq) (simp add: take_bit_eq_mod)
qed

lemma unat_shift: "unat (drop_bit k x) = unat x div 2 ^ k" for x :: u32
  by (simp only: unat_drop_bit_eq) (simp add: drop_bit_eq_div)

lemma enc_bytes:
  "unat code < 0x800 \<Longrightarrow> enc2 code = [word_of_nat (0xC0 + unat code div 64), word_of_nat (0x80 + unat code mod 64)]"
  "unat code < 0x10000 \<Longrightarrow> enc3 code = [word_of_nat (0xE0 + unat code div 4096), word_of_nat (0x80 + unat code div 64 mod 64), word_of_nat (0x80 + unat code mod 64)]"
  "unat code < 0x200000 \<Longrightarrow> enc4 code = [word_of_nat (0xF0 + unat code div 262144), word_of_nat (0x80 + unat code div 4096 mod 64),
     word_of_nat (0x80 + unat code div 64 mod 64), word_of_nat (0x80 + unat code mod 64)]"
  by (simp_all add: enc2_def enc3_def enc4_def lead_bytes low6 unat_shift div_less_iff_less_mult del: of_nat_add)

lemma unat_unit: "p < 0x10000 \<Longrightarrow> unat (ucast (word_of_nat p :: u16) :: u32) = p"
  by (simp only: unsigned_ucast_eq) (simp add: unsigned_of_nat take_bit_nat_eq_self)

lemma bmp_step:
  assumes "code_point p" "p < 0x10000"
  shows "utf16_to_utf8_loop (Suc n) (word_of_nat p # src) 0 = emit (utf8_of p) (utf16_to_utf8_loop n src 0)"
proof -
  define c where "c = (word_of_nat p :: u16)"
  define code where "code = (ucast c :: u32)"
  have u: "unat code = p" using unat_unit [OF assms(2)] by (simp add: code_def c_def)
  have b: "ucast code = (word_of_nat p :: u8)" if "p < 0x80" using ucast_word_of_nat [of "unat code"] unfolding u [symmetric] by simp
  have "utf16_to_utf8_loop (Suc n) (c # src) 0 = emit (utf8_of p) (utf16_to_utf8_loop n src 0)"
    using assms u b unfolding utf16_to_utf8_loop.simps Let_def code_def [symmetric]
    by (auto simp: utf8_of_def code_point_def enc_bytes word_le_nat_alt word_less_nat_alt simp del: of_nat_add)
  then show ?thesis by (simp add: c_def)
qed

lemma pair_step:
  assumes "0x10000 \<le> p" "p < 0x110000"
  shows "utf16_to_utf8_loop (Suc (Suc n)) (units_of p @ src) 0 = emit (utf8_of p) (utf16_to_utf8_loop n src 0)"
proof -
  let ?x = "p - 0x10000"
  define hi where "hi = (word_of_nat (0xD800 + ?x div 1024) :: u16)"
  define lo where "lo = (word_of_nat (0xDC00 + ?x mod 1024) :: u16)"
  define h where "h = (ucast hi :: u32)"
  define l where "l = (ucast lo :: u32)"
  have x: "?x div 1024 < 1024" using assms by (simp add: div_less_iff_less_mult)
  have h: "unat h = 0xD800 + ?x div 1024" using unat_unit [of "0xD800 + ?x div 1024"] x by (simp add: h_def hi_def)
  have l: "unat l = 0xDC00 + ?x mod 1024" using unat_unit [of "0xDC00 + ?x mod 1024"] by (simp add: l_def lo_def)
  have "unat (push_bit 10 (h - 0xD800)) = 1024 * (?x div 1024)"
    using h x by (simp add: push_bit_eq_mult unat_word_ariths unat_sub_if')
  moreover have "unat (l - 0xDC00) = ?x mod 1024" using l by (simp add: unat_sub_if')
  moreover have "1024 * (?x div 1024) + ?x mod 1024 = ?x" by (rule mult_div_mod_eq)
  moreover have "unat (a + b + 0x10000) = p" if "unat a + unat b = ?x" for a b :: u32
    using that assms by (simp add: unat_word_ariths)
  ultimately have c: "unat (push_bit 10 (h - 0xD800) + (l - 0xDC00) + 0x10000) = p" by presburger
  have "enc4 (push_bit 10 (h - 0xD800) + (l - 0xDC00) + 0x10000) = utf8_of p"
    using enc_bytes(3) [of "push_bit 10 (h - 0xD800) + (l - 0xDC00) + 0x10000"] assms unfolding c by (simp add: utf8_of_def)
  moreover have "h \<noteq> 0" "\<not> h \<le> 0x7F" "\<not> h \<le> 0x7FF" "0xD800 \<le> h" "h \<le> 0xDBFF" "0xDC00 \<le> l" "l \<le> 0xDFFF"
    using h l x by (auto simp: word_le_nat_alt)
  ultimately show ?thesis
    using assms unfolding units_of_def hi_def [symmetric] lo_def [symmetric]
    by (simp add: Let_def h_def [symmetric] l_def [symmetric])
qed

lemma utf16_to_utf8_points:
  "\<forall>p\<in>set ps. code_point p \<Longrightarrow> utf16_to_utf8_loop (length (concat (map units_of ps))) (concat (map units_of ps) @ src) 0 = Done (concat (map utf8_of ps))"
proof (induction ps)
  case (Cons p ps)
  then show ?case
  proof (cases "p < 0x10000")
    case True
    then have "units_of p = [word_of_nat p]" by (simp add: units_of_def)
    then show ?thesis using True Cons bmp_step [of p "length (concat (map units_of ps))" "concat (map units_of ps) @ src"]
      by (simp del: utf16_to_utf8_loop.simps)
  next
    case False
    then have "0x10000 \<le> p" "p < 0x110000" "length (units_of p) = 2" using Cons.prems by (auto simp: code_point_def units_of_def)
    then show ?thesis using Cons pair_step [of p "length (concat (map units_of ps))" "concat (map units_of ps) @ src"]
      by (simp del: utf16_to_utf8_loop.simps)
  qed
qed simp

text \<open>Well-formed UTF-16 becomes the UTF-8 of the same code points.\<close>

theorem utf16_to_utf8_correct:
  "\<forall>p\<in>set ps. code_point p \<Longrightarrow> utf16_to_utf8 (concat (map units_of ps) @ src) (length (concat (map units_of ps))) = Done (concat (map utf8_of ps))"
  unfolding utf16_to_utf8_def by (rule utf16_to_utf8_points)

text \<open>An unpaired high surrogate takes the place of the last code unit.\<close>

lemma unpaired_loses_last: "utf16_to_utf8 [0xD800, 0x41, 0x42, 0] 3 = Done (ascii ''?A'')"
  by code_simp

end
