(* ===== verification/VsPrintf.thy ===== *)
theory VsPrintf
  imports Uuid Charset
begin

text \<open>
  Formatted output, \<open>lib/vsprintf.c\<close>: the parser of format strings, the conversions for characters, strings, addresses and numbers, and the output into a
  buffer of limited size.  The arguments are a list of typed values; taking one of another type, or one too many, is a \<open>Fault\<close>.  A conversion yields
  the characters it adds, in order; \<open>vsnprintf_internal\<close> adds them to the buffer.  Pointers behind the buffer are positions, so that
  \<open>str - buf\<close> does not wrap.  The build has the network commands and the UUID library.
\<close>

section \<open>Arguments\<close>

text \<open>Integers of the width of \<open>int\<close>, \<open>long\<close> and \<open>size_t\<close>, 64-bit integers, pointers to bytes and code units (to the end of the object), other
  pointers with the bytes behind them, and pointers to a variable for \<open>%n\<close>.\<close>

datatype vararg = VInt u32 | VQuad u64 | VStr "bytes option" | VStr16 "u16 list option" | VPtr u32 bytes | VNum

fun va_int :: "vararg list \<Rightarrow> (u32 \<times> vararg list) outcome" where
  "va_int (VInt n # args) = Done (n, args)"
| "va_int _ = Fault"

section \<open>Strings\<close>

text \<open>The loop \<open>while (len < field_width--)\<close>: the blanks it adds and what it leaves in the width.\<close>

definition pad_field :: "int \<Rightarrow> int \<Rightarrow> bytes \<times> int" where
  "pad_field len width = (replicate (nat (width - len)) 0x20, min width len - 1)"

definition in_field :: "bytes \<Rightarrow> int \<Rightarrow> u32 \<Rightarrow> bytes" where
  "in_field cs width flags =
     (let len = int (length cs);
          (front, width1) = (if flag_on flags LEFT then ([], width) else pad_field len width);
          (back, _) = pad_field len width1
      in front @ cs @ back)"

definition string_conv :: "bytes option \<Rightarrow> int \<Rightarrow> int \<Rightarrow> u32 \<Rightarrow> bytes outcome" where
  "string_conv s width precision flags =
     (let m = (case s of None \<Rightarrow> ascii ''<NULL>'' @ [0] | Some m \<Rightarrow> m)
      in bind_outcome (strnlen m 0 (word_of_int precision)) (\<lambda>len. Done (in_field (take len m) width flags)))"

definition string16 :: "u16 list option \<Rightarrow> int \<Rightarrow> int \<Rightarrow> u32 \<Rightarrow> bytes outcome" where
  "string16 s width precision flags =
     (let m = (case s of None \<Rightarrow> map ucast (ascii ''<NULL>'' @ [0]) | Some m \<Rightarrow> m)
      in bind_outcome (utf16_strnlen m (unat (word_of_int precision :: u32))) (\<lambda>len.
           bind_outcome (utf16_to_utf8 m len) (\<lambda>cs. Done (in_field cs width flags))))"

definition hex_byte_pack :: "u8 \<Rightarrow> bytes" where
  "hex_byte_pack b = [ascii ''0123456789abcdef'' ! unat (drop_bit 4 (b AND 0xf0)), ascii ''0123456789abcdef'' ! unat (b AND 0x0f)]"

text \<open>The addresses are built in a local array, which ends with a NUL.\<close>

definition mac_address_string :: "bytes \<Rightarrow> int \<Rightarrow> int \<Rightarrow> u32 \<Rightarrow> bytes outcome" where
  "mac_address_string addr width precision flags =
     (if length addr < 6 then Fault
      else string_conv (Some (concat (map (\<lambda>i. hex_byte_pack (addr ! i) @ (if \<not> flag_on flags SPECIAL \<and> i \<noteq> 5 then [0x3a] else [])) [0..<6]) @ [0]))
        width precision (flags AND NOT SPECIAL))"

definition ip6_addr_string :: "bytes \<Rightarrow> int \<Rightarrow> int \<Rightarrow> u32 \<Rightarrow> bytes outcome" where
  "ip6_addr_string addr width precision flags =
     (if length addr < 16 then Fault
      else string_conv (Some (concat (map (\<lambda>i. hex_byte_pack (addr ! (2 * i)) @ hex_byte_pack (addr ! (2 * i + 1)) @
          (if \<not> flag_on flags SPECIAL \<and> i \<noteq> 7 then [0x3a] else [])) [0..<8]) @ [0]))
        width precision (flags AND NOT SPECIAL))"

definition ip4_addr_string :: "bytes \<Rightarrow> int \<Rightarrow> int \<Rightarrow> u32 \<Rightarrow> bytes outcome" where
  "ip4_addr_string addr width precision flags =
     (if length addr < 4 then Fault
      else string_conv (Some (concat (map (\<lambda>i. rev (put_dec_trunc (ucast (addr ! i))) @ (if i \<noteq> 3 then [0x2e] else [])) [0..<4]) @ [0]))
        width precision (flags AND NOT SPECIAL))"

definition char_at :: "bytes \<Rightarrow> nat \<Rightarrow> u8" where
  "char_at fmt i = (if i < length fmt then fmt ! i else 0)"

definition uuid_string :: "bytes \<Rightarrow> int \<Rightarrow> int \<Rightarrow> u32 \<Rightarrow> bytes \<Rightarrow> bytes outcome" where
  "uuid_string addr width precision flags fmt =
     bind_outcome (uuid_bin_to_str addr
       (if char_at fmt 1 \<in> {chr CHR ''L'', chr CHR ''l''} then UUID_STR_FORMAT_GUID else UUID_STR_FORMAT_STD)) (\<lambda>s.
       string_conv (Some (s @ [0])) width precision flags)"

text \<open>\<open>fmt\<close> is what follows the \<open>p\<close>; behind its end stands the NUL.\<close>

definition pointer_conv :: "bytes \<Rightarrow> u32 \<Rightarrow> bytes \<Rightarrow> int \<Rightarrow> int \<Rightarrow> u32 \<Rightarrow> bytes outcome" where
  "pointer_conv fmt ptr mem width precision flags =
     (let c = char_at fmt 0; c1 = char_at fmt 1;
          plain = (\<lambda>num width flags.
            let flags1 = flags OR SMALL;
                (width2, flags2) = (if width = - 1 then (8, flags1 OR ZEROPAD) else (width, flags1))
            in Done (number num 16 width2 precision flags2))
      in if c = chr CHR ''a'' then
           (case get32le mem of None \<Rightarrow> Fault | Some num \<Rightarrow> plain (ucast num) 10 (flags OR (SPECIAL OR ZEROPAD)))
         else if c = chr CHR ''m'' then mac_address_string mem width precision (flags OR SPECIAL)
         else if c = chr CHR ''M'' then mac_address_string mem width precision flags
         else if c = chr CHR ''i'' \<or> c = chr CHR ''I'' then
           (let flags1 = (if c = chr CHR ''i'' then flags OR SPECIAL else flags)
            in if c1 = chr CHR ''6'' then ip6_addr_string mem width precision flags1
               else if c1 = chr CHR ''4'' then ip4_addr_string mem width precision flags1
               else plain (ucast ptr) width (flags1 AND NOT SPECIAL))
         else if c = chr CHR ''U'' then uuid_string mem width precision flags fmt
         else plain (ucast ptr) width flags)"

section \<open>Format strings\<close>

definition dec_digit :: "u8 \<Rightarrow> bool" where
  "dec_digit c \<longleftrightarrow> 0x30 \<le> c \<and> c \<le> 0x39"

fun skip_atoi :: "bytes \<Rightarrow> int \<Rightarrow> int \<times> bytes" where
  "skip_atoi [] i = (i, [])"
| "skip_atoi (c # fmt) i = (if dec_digit c then skip_atoi fmt (i * 10 + uint c - 0x30) else (i, c # fmt))"

fun parse_flags :: "bytes \<Rightarrow> u32 \<Rightarrow> u32 \<times> bytes" where
  "parse_flags [] flags = (flags, [])"
| "parse_flags (c # fmt) flags =
     (if c = chr CHR ''-'' then parse_flags fmt (flags OR LEFT)
      else if c = chr CHR ''+'' then parse_flags fmt (flags OR PLUS)
      else if c = chr CHR '' '' then parse_flags fmt (flags OR SPACE)
      else if c = chr CHR ''#'' then parse_flags fmt (flags OR SPECIAL)
      else if c = chr CHR ''0'' then parse_flags fmt (flags OR ZEROPAD)
      else (flags, c # fmt))"

type_synonym spot = "bytes \<times> vararg list"

definition parse_width :: "spot \<Rightarrow> u32 \<Rightarrow> (int \<times> u32 \<times> spot) outcome" where
  "parse_width s flags = (case s of (fmt, args) \<Rightarrow>
     if dec_digit (char_at fmt 0) then (let (w, fmt1) = skip_atoi fmt 0 in Done (w, flags, fmt1, args))
     else if char_at fmt 0 = chr CHR ''*'' then
       bind_outcome (va_int args) (\<lambda>(n, args1).
         Done (if sint n < 0 then (- sint n, flags OR LEFT, tl fmt, args1) else (sint n, flags, tl fmt, args1)))
     else Done (- 1, flags, fmt, args))"

definition parse_precision :: "spot \<Rightarrow> (int \<times> spot) outcome" where
  "parse_precision s = (case s of (fmt, args) \<Rightarrow>
     if char_at fmt 0 \<noteq> chr CHR ''.'' then Done (- 1, fmt, args)
     else (let fmt1 = tl fmt
       in if dec_digit (char_at fmt1 0) then (let (p, fmt2) = skip_atoi fmt1 0 in Done (max p 0, fmt2, args))
          else if char_at fmt1 0 = chr CHR ''*'' then bind_outcome (va_int args) (\<lambda>(n, args1). Done (max (sint n) 0, tl fmt1, args1))
          else Done (0, fmt1, args)))"

text \<open>The qualifier, 0 when there is none; \<open>ll\<close> counts as \<open>L\<close>.\<close>

definition parse_qualifier :: "bytes \<Rightarrow> u8 \<times> bytes" where
  "parse_qualifier fmt =
     (let q = char_at fmt 0
      in if q \<in> {chr CHR ''h'', chr CHR ''l'', chr CHR ''L'', chr CHR ''Z'', chr CHR ''z'', chr CHR ''t''} then
           if q = chr CHR ''l'' \<and> char_at fmt 1 = chr CHR ''l'' then (chr CHR ''L'', drop 2 fmt) else (q, tl fmt)
         else (0, fmt))"

text \<open>The number of an integer conversion at the width of its qualifier.\<close>

definition take_num :: "u8 \<Rightarrow> u32 \<Rightarrow> vararg list \<Rightarrow> (u64 \<times> vararg list) outcome" where
  "take_num q flags args =
     (if q = chr CHR ''L'' then (case args of VQuad n # args1 \<Rightarrow> Done (n, args1) | _ \<Rightarrow> Fault)
      else bind_outcome (va_int args) (\<lambda>(n, args1). Done
        (if q = chr CHR ''l'' then if flag_on flags SIGN then scast n else ucast n
         else if q = chr CHR ''Z'' \<or> q = chr CHR ''z'' then ucast n
         else if q = chr CHR ''t'' then scast n
         else if q = chr CHR ''h'' then if flag_on flags SIGN then scast (ucast n :: u16) else ucast (ucast n :: u16)
         else if flag_on flags SIGN then scast n else ucast n, args1)))"

text \<open>The loop \<open>while (--field_width > 0)\<close>.\<close>

definition pad_char :: "int \<Rightarrow> bytes \<times> int" where
  "pad_char width = (replicate (nat (width - 1)) 0x20, min width 1 - 1)"

definition char_conv :: "u8 \<Rightarrow> int \<Rightarrow> u32 \<Rightarrow> bytes" where
  "char_conv c width flags =
     (let (front, width1) = (if flag_on flags LEFT then ([], width) else pad_char width); (back, _) = pad_char width1
      in front @ [c] @ back)"

definition is_alnum :: "u8 \<Rightarrow> bool" where
  "is_alnum c = ismask c (CT_U OR CT_L OR CT_D)"

text \<open>Base and flags of an integer conversion.\<close>

definition int_conv :: "u8 \<Rightarrow> (nat \<times> u32) option" where
  "int_conv c =
     (if c = chr CHR ''o'' then Some (8, 0) else if c = chr CHR ''x'' then Some (16, SMALL) else if c = chr CHR ''X'' then Some (16, 0)
      else if c = chr CHR ''d'' \<or> c = chr CHR ''i'' then Some (10, SIGN) else if c = chr CHR ''u'' then Some (10, 0) else None)"

text \<open>What follows a percent sign, with \<open>pos\<close> characters in front: the characters it adds, the numbers it stores, and where it leaves format and arguments.\<close>

definition directive :: "bytes \<Rightarrow> vararg list \<Rightarrow> nat \<Rightarrow> (bytes \<times> int list \<times> spot) outcome" where
  "directive cs args pos =
     (let (flags, fmt0) = parse_flags cs 0
      in bind_outcome (parse_width (fmt0, args) flags) (\<lambda>(width, flags1, s1).
         bind_outcome (parse_precision s1) (\<lambda>(precision, fmt2, args2).
           let (q, fmt3) = parse_qualifier fmt2; c = char_at fmt3 0; rest = tl fmt3
           in if c = chr CHR ''c'' then bind_outcome (va_int args2) (\<lambda>(n, args3). Done (char_conv (ucast n) width flags1, [], rest, args3))
              else if c = chr CHR ''s'' then
                (case (q = chr CHR ''l'', args2) of
                   (True, VStr16 p # args3) \<Rightarrow> bind_outcome (string16 p width precision flags1) (\<lambda>t. Done (t, [], rest, args3))
                 | (False, VStr p # args3) \<Rightarrow> bind_outcome (string_conv p width precision flags1) (\<lambda>t. Done (t, [], rest, args3))
                 | _ \<Rightarrow> Fault)
              else if c = chr CHR ''p'' then
                (case args2 of VPtr a m # args3 \<Rightarrow>
                   bind_outcome (pointer_conv rest a m width precision flags1) (\<lambda>t. Done (t, [], dropWhile is_alnum rest, args3))
                 | _ \<Rightarrow> Fault)
              else if c = chr CHR ''n'' then (case args2 of VNum # args3 \<Rightarrow> Done ([], [int pos], rest, args3) | _ \<Rightarrow> Fault)
              else if c = chr CHR ''%'' then Done ([0x25], [], rest, args2)
              else case int_conv c of
                Some (base, fl) \<Rightarrow> bind_outcome (take_num q (flags1 OR fl) args2) (\<lambda>(num, args3).
                  Done (number num base width precision (flags1 OR fl), [], rest, args3))
              | None \<Rightarrow> Done (if c \<noteq> 0 then [0x25, c] else [0x25], [], rest, args2))))"

lemma skip_atoi_length: "length (snd (skip_atoi fmt i)) \<le> length fmt"
  by (induction fmt i rule: skip_atoi.induct) auto

lemma parse_flags_length: "length (snd (parse_flags fmt fl)) \<le> length fmt"
  by (induction fmt fl rule: parse_flags.induct) auto

lemma parse_width_length: "parse_width (fmt, args) fl = Done (w, fl1, fmt1, args1) \<Longrightarrow> length fmt1 \<le> length fmt"
  using skip_atoi_length [of fmt 0] by (auto simp: parse_width_def bind_outcome_Done_iff split: if_splits prod.splits)

lemma parse_precision_length: "parse_precision (fmt, args) = Done (p, fmt1, args1) \<Longrightarrow> length fmt1 \<le> length fmt"
  using skip_atoi_length [of "tl fmt" 0]
  by (auto simp: parse_precision_def Let_def bind_outcome_Done_iff split: if_splits prod.splits)

lemma parse_qualifier_length: "length (snd (parse_qualifier fmt)) \<le> length fmt"
  by (simp add: parse_qualifier_def Let_def)

lemma dropWhile_tl_length: "length (dropWhile P (tl xs)) \<le> length xs"
  using length_dropWhile_le [of P "tl xs"] by simp

lemma directive_length: "directive cs args pos = Done (t, ns, fmt1, args1) \<Longrightarrow> length fmt1 \<le> length cs"
proof -
  assume d: "directive cs args pos = Done (t, ns, fmt1, args1)"
  obtain flags fmt0 where f: "parse_flags cs 0 = (flags, fmt0)" by force
  obtain w fl1 fa aa p fb ab where w: "parse_width (fmt0, args) flags = Done (w, fl1, fa, aa)" "parse_precision (fa, aa) = Done (p, fb, ab)"
    using d f by (auto simp: directive_def Let_def bind_outcome_Done_iff)
  obtain q fc where q: "parse_qualifier fb = (q, fc)" by force
  have "length fmt0 \<le> length cs" using parse_flags_length [of cs 0] f by simp
  moreover have "length fa \<le> length fmt0" "length fb \<le> length fa" using parse_width_length w(1) parse_precision_length w(2) by blast+
  moreover have "length fc \<le> length fb" using parse_qualifier_length [of fb] q by simp
  moreover have "fmt1 = tl fc \<or> fmt1 = dropWhile is_alnum (tl fc)"
    using d f w q by (auto simp: directive_def Let_def bind_outcome_Done_iff split: if_splits option.splits vararg.splits list.splits prod.splits bool.splits)
  ultimately show ?thesis using dropWhile_tl_length [of is_alnum fc] by auto
qed

section \<open>Output\<close>

text \<open>The position \<open>str - buf\<close>, the buffer to the end of its object, and what \<open>%n\<close> stored.\<close>

record vout =
  vpos :: nat
  vmem :: bytes
  vstored :: "int list"

definition addch :: "nat \<Rightarrow> u8 \<Rightarrow> vout \<Rightarrow> vout outcome" where
  "addch lim c s =
     (if vpos s < lim then bind_outcome (wr (vmem s) (vpos s) c) (\<lambda>m. Done (s\<lparr>vmem := m, vpos := vpos s + 1\<rparr>))
      else Done (s\<lparr>vpos := vpos s + 1\<rparr>))"

fun addchs :: "nat \<Rightarrow> bytes \<Rightarrow> vout \<Rightarrow> vout outcome" where
  "addchs lim [] s = Done s"
| "addchs lim (c # cs) s = bind_outcome (addch lim c s) (addchs lim cs)"

lemma bind_outcome_cong [fundef_cong]:
  "m = m' \<Longrightarrow> (\<And>x. m' = Done x \<Longrightarrow> f x = f' x) \<Longrightarrow> bind_outcome m f = bind_outcome m' f'"
  by (cases m') simp_all

function vprint :: "nat \<Rightarrow> bytes \<Rightarrow> vararg list \<Rightarrow> vout \<Rightarrow> vout outcome" where
  "vprint lim [] args s = Done s"
| "vprint lim (c # cs) args s =
     (if c \<noteq> chr CHR ''%'' then bind_outcome (addch lim c s) (vprint lim cs args)
      else bind_outcome (directive cs args (vpos s)) (\<lambda>(t, ns, fmt, args1).
        bind_outcome (addchs lim t s) (\<lambda>s1. vprint lim fmt args1 (s1\<lparr>vstored := vstored s1 @ ns\<rparr>))))"
  by pat_completeness auto
termination
  by (relation "measure (\<lambda>(_, fmt, _, _). length fmt)") (auto dest: directive_length)

text \<open>The end of a buffer whose size would wrap the address space.\<close>

definition print_limit :: "u32 \<Rightarrow> u32 \<Rightarrow> u32" where
  "print_limit buf sz = (if buf + sz < buf then 0xffffffff - buf else sz)"

text \<open>The result, the buffer at address \<open>buf\<close> and the numbers stored.\<close>

definition vsnprintf_internal :: "u32 \<Rightarrow> u32 \<Rightarrow> bytes \<Rightarrow> vararg list \<Rightarrow> bytes \<Rightarrow> (int \<times> bytes \<times> int list) outcome" where
  "vsnprintf_internal buf sz fmt args mem =
     (let lim = unat (print_limit buf sz)
      in bind_outcome (vprint lim fmt args \<lparr>vpos = 0, vmem = mem, vstored = []\<rparr>) (\<lambda>s.
           if 0 < lim then
             bind_outcome (addch lim 0 s) (\<lambda>s1.
               bind_outcome (if lim < vpos s1 then wr (vmem s1) (lim - 1) 0 else Done (vmem s1)) (\<lambda>m.
                 Done (int (vpos s1 - 1), m, vstored s1)))
           else Done (int (vpos s), vmem s, vstored s)))"

definition vsnprintf :: "u32 \<Rightarrow> u32 \<Rightarrow> bytes \<Rightarrow> vararg list \<Rightarrow> bytes \<Rightarrow> (int \<times> bytes \<times> int list) outcome" where
  "vsnprintf buf sz fmt args mem = vsnprintf_internal buf sz fmt args mem"

definition vscnprintf :: "u32 \<Rightarrow> u32 \<Rightarrow> bytes \<Rightarrow> vararg list \<Rightarrow> bytes \<Rightarrow> (int \<times> bytes \<times> int list) outcome" where
  "vscnprintf buf sz fmt args mem =
     bind_outcome (vsnprintf buf sz fmt args mem) (\<lambda>(i, r). Done (if i < uint sz then (i, r) else if sz \<noteq> 0 then (uint sz - 1, r) else (0, r)))"

definition snprintf :: "u32 \<Rightarrow> u32 \<Rightarrow> bytes \<Rightarrow> vararg list \<Rightarrow> bytes \<Rightarrow> (int \<times> bytes \<times> int list) outcome" where
  "snprintf buf sz fmt args mem = vsnprintf buf sz fmt args mem"

definition scnprintf :: "u32 \<Rightarrow> u32 \<Rightarrow> bytes \<Rightarrow> vararg list \<Rightarrow> bytes \<Rightarrow> (int \<times> bytes \<times> int list) outcome" where
  "scnprintf buf sz fmt args mem = vscnprintf buf sz fmt args mem"

definition INT_MAX :: u32 where "INT_MAX = 0x7fffffff"

definition vsprintf :: "u32 \<Rightarrow> bytes \<Rightarrow> vararg list \<Rightarrow> bytes \<Rightarrow> (int \<times> bytes \<times> int list) outcome" where
  "vsprintf buf fmt args mem = vsnprintf_internal buf INT_MAX fmt args mem"

definition sprintf :: "u32 \<Rightarrow> bytes \<Rightarrow> vararg list \<Rightarrow> bytes \<Rightarrow> (int \<times> bytes \<times> int list) outcome" where
  "sprintf buf fmt args mem = vsprintf buf fmt args mem"

text \<open>\<open>str2off\<close> and \<open>str2long\<close>: whether all of a string is a number, and the number.\<close>

definition str2off :: "bytes \<Rightarrow> (bool \<times> u64) outcome" where
  "str2off p = bind_outcome (simple_strtoull (p @ [0]) 0 16) (\<lambda>(num, q). bind_outcome (rd (p @ [0]) q) (\<lambda>c. Done (p \<noteq> [] \<and> c = 0, num)))"

definition str2long :: "bytes \<Rightarrow> (bool \<times> u32) outcome" where
  "str2long p = bind_outcome (simple_strtoul (p @ [0]) 0 16) (\<lambda>(num, q). bind_outcome (rd (p @ [0]) q) (\<lambda>c. Done (p \<noteq> [] \<and> c = 0, num)))"

section \<open>The text of a format\<close>

text \<open>What a format stands for, without a buffer.\<close>

function vtext :: "bytes \<Rightarrow> vararg list \<Rightarrow> nat \<Rightarrow> (bytes \<times> int list) outcome" where
  "vtext [] args pos = Done ([], [])"
| "vtext (c # cs) args pos =
     (if c \<noteq> chr CHR ''%'' then bind_outcome (vtext cs args (pos + 1)) (\<lambda>(t, ns). Done (c # t, ns))
      else bind_outcome (directive cs args pos) (\<lambda>(t1, ns1, fmt, args1).
        bind_outcome (vtext fmt args1 (pos + length t1)) (\<lambda>(t, ns). Done (t1 @ t, ns1 @ ns))))"
  by pat_completeness auto
termination
  by (relation "measure (\<lambda>(fmt, _, _). length fmt)") (auto dest: directive_length)

text \<open>Adding characters to a buffer that is at least as long as its limit.\<close>

definition filled :: "nat \<Rightarrow> nat \<Rightarrow> bytes \<Rightarrow> bytes \<Rightarrow> bytes" where
  "filled lim pos cs m = (let k = min (length cs) (lim - pos) in take pos m @ take k cs @ drop (pos + k) m)"

lemma addchs_put:
  assumes "lim \<le> length (vmem s)"
  shows "addchs lim cs s = Done (s\<lparr>vpos := vpos s + length cs, vmem := filled lim (vpos s) cs (vmem s)\<rparr>)"
  using assms
proof (induction cs arbitrary: s)
  case Nil
  then show ?case by (simp add: filled_def)
next
  case (Cons c cs)
  show ?case
  proof (cases "vpos s < lim")
    case True
    let ?s = "s\<lparr>vmem := (vmem s)[vpos s := c], vpos := vpos s + 1\<rparr>"
    have "addch lim c s = Done ?s" using True Cons.prems by (simp add: addch_def wr_def)
    moreover have "filled lim (vpos s + 1) cs ((vmem s)[vpos s := c]) = filled lim (vpos s) (c # cs) (vmem s)"
    proof -
      have "lim - vpos s = Suc (lim - (vpos s + 1))" using True by simp
      then show ?thesis using True Cons.prems by (simp add: filled_def Let_def take_Suc_conv_app_nth take_update_swap drop_update_cancel list_update_append)
    qed
    ultimately show ?thesis using Cons.IH [of ?s] Cons.prems by simp
  next
    case False
    then show ?thesis using Cons.IH [of "s\<lparr>vpos := vpos s + 1\<rparr>"] Cons.prems by (simp add: addch_def filled_def)
  qed
qed

lemma addchs_append: "addchs lim (a @ b) s = bind_outcome (addchs lim a s) (addchs lim b)"
proof (induction a arbitrary: s)
  case (Cons c a)
  then show ?case by (cases "addch lim c s") simp_all
qed simp

lemma addch_Done: "addch lim c s = Done s1 \<Longrightarrow> vpos s1 = vpos s + 1 \<and> vstored s1 = vstored s"
  by (auto simp: addch_def bind_outcome_Done_iff split: if_splits)

lemma addchs_Done: "addchs lim cs s = Done s1 \<Longrightarrow> vpos s1 = vpos s + length cs \<and> vstored s1 = vstored s"
  by (induction cs arbitrary: s) (auto simp: bind_outcome_Done_iff dest!: addch_Done)

lemma addchs_stored: "addchs lim cs (s\<lparr>vstored := ns\<rparr>) = bind_outcome (addchs lim cs s) (\<lambda>s1. Done (s1\<lparr>vstored := ns\<rparr>))"
proof (induction cs arbitrary: s)
  case (Cons c cs)
  have "addch lim c (s\<lparr>vstored := ns\<rparr>) = bind_outcome (addch lim c s) (\<lambda>s1. Done (s1\<lparr>vstored := ns\<rparr>))"
    by (cases "wr (vmem s) (vpos s) c") (simp_all add: addch_def)
  then show ?case using Cons by (cases "addch lim c s") simp_all
qed simp

text \<open>Printing a format adds the characters of its text.\<close>

lemma vprint_text:
  "vtext fmt args (vpos s) = Done (t, ns) \<Longrightarrow>
   vprint lim fmt args s = bind_outcome (addchs lim t s) (\<lambda>s1. Done (s1\<lparr>vstored := vstored s @ ns\<rparr>))"
proof (induction lim fmt args s arbitrary: t ns rule: vprint.induct)
  case (1 lim args s)
  then show ?case by simp
next
  case (2 lim c cs args s)
  show ?case
  proof (cases "c = chr CHR ''%''")
    case False
    then obtain t1 where t: "vtext cs args (vpos s + 1) = Done (t1, ns)" "t = c # t1"
      using "2.prems" by (auto simp: bind_outcome_Done_iff)
    show ?thesis
    proof (cases "addch lim c s")
      case (Done s1)
      then have "vpos s1 = vpos s + 1" "vstored s1 = vstored s" using addch_Done by blast+
      then show ?thesis using "2.IH"(1) [OF False, of s1 t1 ns] Done False t by simp
    qed (use False t in simp_all)
  next
    case True
    obtain t1 ns1 fmt args1 t2 ns2 where d: "directive cs args (vpos s) = Done (t1, ns1, fmt, args1)"
      "vtext fmt args1 (vpos s + length t1) = Done (t2, ns2)" "t = t1 @ t2" "ns = ns1 @ ns2"
      using "2.prems" True by (auto simp: bind_outcome_Done_iff)
    show ?thesis
    proof (cases "addchs lim t1 s")
      case (Done s1)
      let ?s = "s1\<lparr>vstored := vstored s1 @ ns1\<rparr>"
      have k: "vpos s1 = vpos s + length t1" "vstored s1 = vstored s" using addchs_Done [OF Done] by blast+
      then have "vprint lim fmt args1 ?s = bind_outcome (addchs lim t2 ?s) (\<lambda>s2. Done (s2\<lparr>vstored := vstored ?s @ ns2\<rparr>))"
        using "2.IH"(2) [OF _ d(1) refl refl refl Done, of t2 ns2] d(2) True by simp
      then show ?thesis using True d k Done by (cases "addchs lim t2 s1") (simp_all add: addchs_append addchs_stored)
    qed (use True d in \<open>simp_all add: addchs_append\<close>)
  qed
qed

section \<open>Bounded and unbounded output\<close>

lemma addchs_fault:
  "vpos s \<le> length (vmem s) \<Longrightarrow> length (vmem s) < vpos s + length cs \<Longrightarrow> vpos s + length cs \<le> lim \<Longrightarrow> addchs lim cs s = Fault"
proof (induction cs arbitrary: s)
  case (Cons c cs)
  show ?case
  proof (cases "vpos s < length (vmem s)")
    case True
    then have "addch lim c s = Done (s\<lparr>vmem := (vmem s)[vpos s := c], vpos := vpos s + 1\<rparr>)" using Cons.prems by (simp add: addch_def wr_def)
    then show ?thesis using Cons.IH [of "s\<lparr>vmem := (vmem s)[vpos s := c], vpos := vpos s + 1\<rparr>"] Cons.prems True by simp
  next
    case False
    then show ?thesis using Cons.prems by (simp add: addch_def wr_def)
  qed
qed simp

lemma addchs_fits:
  "vpos s + length cs \<le> length (vmem s) \<Longrightarrow> vpos s + length cs \<le> lim \<Longrightarrow>
   addchs lim cs s = Done (s\<lparr>vpos := vpos s + length cs, vmem := take (vpos s) (vmem s) @ cs @ drop (vpos s + length cs) (vmem s)\<rparr>)"
proof (induction cs arbitrary: s)
  case (Cons c cs)
  let ?s = "s\<lparr>vmem := (vmem s)[vpos s := c], vpos := vpos s + 1\<rparr>"
  have "addch lim c s = Done ?s" using Cons.prems by (simp add: addch_def wr_def)
  moreover have "take (vpos s + 1) ((vmem s)[vpos s := c]) = take (vpos s) (vmem s) @ [c]"
    using Cons.prems by (simp add: take_Suc_conv_app_nth take_update_swap list_update_append)
  ultimately show ?case using Cons.IH [of ?s] Cons.prems by (simp add: drop_update_cancel)
qed simp

lemma print_limit_plain: "unat buf + unat sz < 2 ^ 32 \<Longrightarrow> print_limit buf sz = sz"
  by (simp add: print_limit_def word_less_nat_alt unat_word_ariths)

text \<open>\<open>sprintf\<close> knows no size: a text that leaves no room for the NUL is written behind the buffer.\<close>

lemma sprintf_unbounded:
  assumes "vtext fmt args 0 = Done (t, ns)" "length t < unat (print_limit buf INT_MAX)"
  shows "sprintf buf fmt args mem = (if length t < length mem then Done (int (length t), t @ 0 # drop (length t + 1) mem, ns) else Fault)"
proof -
  let ?s = "\<lparr>vpos = 0, vmem = mem, vstored = []\<rparr>" and ?lim = "unat (print_limit buf INT_MAX)"
  note v = vprint_text [of fmt args ?s t ns ?lim]
  consider "length t < length mem" | "length t = length mem" | "length mem < length t" by linarith
  then show ?thesis
  proof cases
    case 1
    then have "addchs ?lim t ?s = Done \<lparr>vpos = length t, vmem = t @ drop (length t) mem, vstored = []\<rparr>" using addchs_fits [of ?s t ?lim] assms(2) by simp
    then show ?thesis
      using 1 v assms by (simp add: sprintf_def vsprintf_def vsnprintf_internal_def addch_def wr_def list_update_append upd_conv_take_nth_drop)
  next
    case 2
    then have "addchs ?lim t ?s = Done \<lparr>vpos = length t, vmem = t, vstored = []\<rparr>" using addchs_fits [of ?s t ?lim] assms(2) by simp
    then show ?thesis using 2 v assms by (simp add: sprintf_def vsprintf_def vsnprintf_internal_def addch_def wr_def)
  next
    case 3
    then have "addchs ?lim t ?s = Fault" using addchs_fault [of ?s t ?lim] assms(2) by simp
    then show ?thesis using 3 v assms by (simp add: sprintf_def vsprintf_def vsnprintf_internal_def)
  qed
qed

section \<open>Texts of the formats the boot code uses\<close>

lemma format_chars:
  "ascii ''0x%lx'' = [0x30, 0x78, 0x25, 0x6c, 0x78]" "ascii ''%d'' = [0x25, 0x64]" "ascii ''%u'' = [0x25, 0x75]" "ascii ''%s'' = [0x25, 0x73]"
  "ascii ''%02x'' = [0x25, 0x30, 0x32, 0x78]"
  by (simp_all add: ascii_def)

text \<open>A number without width and precision is its digits.\<close>

lemma number_plain:
  "\<not> flag_on ty SPECIAL \<Longrightarrow> \<not> flag_on ty SIGN \<Longrightarrow> \<not> flag_on ty LEFT \<Longrightarrow>
   number num base (- 1) (- 1) ty = rev (number_digits num base (ucast (ty AND SMALL)))"
  by (simp add: number_def number_sign_def Let_def pad_with_def)

lemma number_digits_hex: "number_digits num 16 0x20 = map hex_char (base_rev 16 (unat num))"
proof (cases "num = 0")
  case True
  have "hex_char 0 = 0x30" by code_simp
  with True show ?thesis by (subst base_rev.simps) (simp add: number_digits_def)
qed (simp add: number_digits_def put_pow2_hex)

lemma number_digits_dec: "number_digits num 10 loc = map digit_byte (dec_rev (unat num))"
proof (cases "num = 0")
  case True
  then show ?thesis by (subst base_rev.simps) (simp add: number_digits_def)
qed (simp add: number_digits_def put_dec_digits)

lemma vtext_hex: "vtext (ascii ''0x%lx'') [VInt v] 0 = Done (ascii ''0x'' @ rev (map hex_char (base_rev 16 (unat v))), [])"
proof -
  have "directive [0x6c, 0x78] [VInt v] n = Done (number (ucast v) 16 (- 1) (- 1) SMALL, [], [], [])" for n
    by (simp add: directive_def parse_width_def parse_precision_def parse_qualifier_def char_at_def dec_digit_def take_num_def int_conv_def
        flag_on_def print_flags Let_def)
  moreover have "number (ucast v) 16 (- 1) (- 1) SMALL = rev (map hex_char (base_rev 16 (unat (ucast v :: u64))))"
    by (subst number_plain) (simp_all add: flag_on_def print_flags number_digits_hex)
  ultimately show ?thesis by (simp add: format_chars) (simp add: ascii_def)
qed

text \<open>The decimal numeral of an integer.\<close>

definition dec_text :: "int \<Rightarrow> bytes" where
  "dec_text i = (if i < 0 then [0x2d] else []) @ rev (map digit_byte (dec_rev (nat \<bar>i\<bar>)))"

lemmas directive_simps = directive_def parse_width_def parse_precision_def parse_qualifier_def char_at_def dec_digit_def take_num_def int_conv_def
  flag_on_def print_flags Let_def

lemma directive_numbers:
  "directive [0x64] [VInt v] n = Done (number (scast v) 10 (- 1) (- 1) SIGN, [], [], [])"
  "directive [0x75] [VInt v] n = Done (number (ucast v) 10 (- 1) (- 1) 0, [], [], [])"
  "directive [0x6c, 0x6c, 0x75] [VQuad w] n = Done (number w 10 (- 1) (- 1) 0, [], [], [])"
  by (simp_all add: directive_simps)

lemma number_signed: "number (scast v) 10 (- 1) (- 1) SIGN = dec_text (sint v)" for v :: u32
proof -
  have b: "- (2 ^ 31) \<le> sint v" "sint v < 2 ^ 31" using sint_greater_eq [of v] sint_less [of v] by simp_all
  then have s: "sint (scast v :: u64) = sint v" by (simp add: signed_scast_eq signed_take_bit_int_eq_self)
  have w: "(scast v :: u64) = word_of_int (sint v)" by simp
  have u: "unat (word_of_int k :: u64) = nat k" if "0 \<le> k" "k \<le> 2 ^ 31" for k
    using that by (simp add: unsigned_of_int take_bit_int_eq_self)
  have f: "flag_on SIGN SPECIAL = False" "flag_on SIGN LEFT = False" "flag_on SIGN SIGN = True" "flag_on SIGN (ZEROPAD + LEFT) = False"
    "flag_on SIGN PLUS = False" "flag_on SIGN SPACE = False" by (simp_all add: flag_on_def print_flags)
  show ?thesis
  proof (cases "sint v < 0")
    case True
    then have "unat (- scast v :: u64) = nat (- sint v)" using u [of "- sint v"] b unfolding w by (simp only: of_int_minus)
    then show ?thesis using True s by (simp add: number_def number_sign_def f Let_def pad_with_def number_digits_dec word_sless_alt dec_text_def)
  next
    case False
    then have "unat (scast v :: u64) = nat (sint v)" using u [of "sint v"] b unfolding w by simp
    then show ?thesis using False s by (simp add: number_def number_sign_def f Let_def pad_with_def number_digits_dec word_sless_alt dec_text_def)
  qed
qed

lemma vtext_single:
  assumes "\<And>n. directive cs args n = Done (t, [], [], [])"
  shows "vtext (0x25 # cs) args 0 = Done (t, [])"
  using assms by simp

text \<open>\<open>%02x\<close> is what \<open>Uuid\<close> prints a byte with.\<close>

lemma vtext_byte: "vtext (ascii ''%02x'') [VInt (ucast b)] 0 = Done (byte_02x b, [])"
proof -
  have "ucast (ucast b :: u32) = (ucast b :: u64)" by (rule bit_word_eqI) (auto simp: bit_simps dest: bit_imp_le_length)
  then have "directive [0x30, 0x32, 0x78] [VInt (ucast b)] n = Done (byte_02x b, [], [], [])" for n
    by (simp add: directive_simps byte_02x_def)
  then show ?thesis unfolding format_chars by (rule vtext_single)
qed

text \<open>C39: the numbers of formatted output are exact at their full width: \<open>%d\<close> and \<open>%u\<close> print a 32-bit and \<open>%llu\<close> a 64-bit integer as its decimal
  numeral, \<open>0x%lx\<close> as its hexadecimal one, whatever the value; the conversion by binary coded digits never goes wrong.\<close>

theorem printed_numbers_exact:
  "vtext (ascii ''%d'') [VInt v] 0 = Done (dec_text (sint v), []) \<and>
   vtext (ascii ''%u'') [VInt v] 0 = Done (dec_text (uint v), []) \<and>
   vtext (ascii ''%llu'') [VQuad w] 0 = Done (dec_text (uint w), []) \<and>
   vtext (ascii ''0x%lx'') [VInt v] 0 = Done (ascii ''0x'' @ rev (map hex_char (base_rev 16 (unat v))), [])"
proof -
  have c: "ascii ''%llu'' = [0x25, 0x6c, 0x6c, 0x75]" by (simp add: ascii_def)
  have p: "number x 10 (- 1) (- 1) 0 = dec_text (uint x)" for x :: u64
    by (subst number_plain) (simp_all add: flag_on_def number_digits_dec dec_text_def unat_eq_nat_uint [symmetric])
  have u: "uint (ucast v :: u64) = uint v" by (simp add: unsigned_ucast_eq take_bit_int_eq_self less_trans [OF unsigned_less])
  have "vtext (ascii ''%d'') [VInt v] 0 = Done (dec_text (sint v), [])"
    unfolding format_chars by (rule vtext_single) (simp only: directive_numbers number_signed)
  moreover have "vtext (ascii ''%u'') [VInt v] 0 = Done (dec_text (uint v), [])"
    unfolding format_chars by (rule vtext_single) (simp only: directive_numbers p u)
  moreover have "vtext (ascii ''%llu'') [VQuad w] 0 = Done (dec_text (uint w), [])"
    unfolding c by (rule vtext_single) (simp only: directive_numbers p)
  ultimately show ?thesis using vtext_hex [of v] by blast
qed



end
