(* ===== verification/EnvNumbers.thy ===== *)
theory EnvNumbers
  imports NvEdit VsPrintf
begin

text \<open>
  Numbers in variables of the environment, \<open>cmd/nvedit.c\<close>: \<open>env_set_ulong\<close>, \<open>env_set_hex\<close>, \<open>env_get_ulong\<close> and \<open>env_get_hex\<close>.  The buffer on the stack that
  \<open>env_set_hex\<close> prints to is an argument: its address and what it held.
\<close>

section \<open>Model\<close>

definition env_set_ulong :: "hworld \<Rightarrow> bytes \<Rightarrow> u32 \<Rightarrow> uenv \<Rightarrow> int run" where
  "env_set_ulong w varname v st = env_set w (Some varname) (Some (simple_itoa v)) st"

definition env_set_hex :: "hworld \<Rightarrow> u32 \<times> bytes \<Rightarrow> bytes \<Rightarrow> u32 \<Rightarrow> uenv \<Rightarrow> int run" where
  "env_set_hex w str varname v st =
     bind_run (Some (sprintf (fst str) (ascii ''0x%lx'') [VInt v] (snd str))) (\<lambda>(_, m, _).
       env_set w (Some varname) (Some (takeWhile (\<lambda>c. c \<noteq> 0) m)) st)"

definition env_get_hex :: "hworld \<Rightarrow> bytes \<Rightarrow> u32 \<Rightarrow> uenv \<Rightarrow> u32 outcome option" where
  "env_get_hex w varname default_val st =
     bind_run (env_get w varname st) (\<lambda>s.
       case s of None \<Rightarrow> Some (Done default_val)
       | Some v \<Rightarrow> bind_run (Some (simple_strtoul (v @ [0]) 0 16)) (\<lambda>(n, endp). Some (Done (if endp = 0 then default_val else n))))"

definition env_get_ulong :: "hworld \<Rightarrow> bytes \<Rightarrow> nat \<Rightarrow> u32 \<Rightarrow> uenv \<Rightarrow> u32 outcome option" where
  "env_get_ulong w name base default_val st =
     bind_run (env_get w name st) (\<lambda>s.
       case s of None \<Rightarrow> Some (Done default_val)
       | Some v \<Rightarrow> bind_run (Some (simple_strtoul (v @ [0]) 0 base)) (\<lambda>(n, _). Some (Done n)))"

section \<open>Round trips\<close>

definition hex_value :: "u32 \<Rightarrow> bytes" where
  "hex_value v = ascii ''0x'' @ rev (map hex_char (base_rev 16 (unat v)))"

lemma base_rev_length: "2 \<le> b \<Longrightarrow> n < b ^ Suc k \<Longrightarrow> length (base_rev b n) \<le> Suc k"
proof (induction k arbitrary: n)
  case (Suc k)
  then have "n div b < b ^ Suc k" by (simp add: div_less_iff_less_mult mult.commute)
  then show ?case using Suc by (subst base_rev.simps) simp
qed (subst base_rev.simps, simp)

lemma digit_nonzero: "d < 16 \<Longrightarrow> hex_char d \<noteq> 0" "d < 10 \<Longrightarrow> digit_byte d \<noteq> 0"
  using hex_char_value [of d] dec_char_value [of d] nul_no_digit by metis+

lemma hex_value_facts: "length (hex_value v) \<le> 10" "0 \<notin> set (hex_value v)" "hex_value v \<noteq> []"
proof -
  have "unat v < 16 ^ Suc 7" using unsigned_less [of v] by simp
  then have "length (base_rev 16 (unat v)) \<le> 8" using base_rev_length [of 16 "unat v" 7] by simp
  then show "length (hex_value v) \<le> 10" by (simp add: hex_value_def)
  have "\<forall>d\<in>set (base_rev 16 (unat v)). hex_char d \<noteq> 0" using base_rev_bound [of 16] digit_nonzero(1) by simp
  then show "0 \<notin> set (hex_value v)" by (auto simp: hex_value_def ascii_def)
  show "hex_value v \<noteq> []" by (simp add: hex_value_def ascii_def)
qed

lemma sprintf_hex:
  assumes "length (snd str) = 19" "unat (fst str) + 19 < 2 ^ 32"
  shows "\<exists>m. sprintf (fst str) (ascii ''0x%lx'') [VInt v] (snd str) = Done (int (length (hex_value v)), m, []) \<and> takeWhile (\<lambda>c. c \<noteq> 0) m = hex_value v"
proof -
  have "18 < unat (print_limit (fst str) INT_MAX)"
    using assms(2) by (auto simp: print_limit_def INT_MAX_def unat_sub_if')
  then have "sprintf (fst str) (ascii ''0x%lx'') [VInt v] (snd str) =
      Done (int (length (hex_value v)), hex_value v @ 0 # drop (length (hex_value v) + 1) (snd str), [])"
    using sprintf_unbounded [OF vtext_hex [of v, folded hex_value_def], of "fst str" "snd str"] hex_value_facts(1) [of v] assms(1) by simp
  moreover have "takeWhile (\<lambda>c. c \<noteq> 0) (hex_value v @ 0 # r) = hex_value v" for r
    using hex_value_facts(2) [of v] by (subst takeWhile_append2) auto
  ultimately show ?thesis by blast
qed

lemma env_get_set:
  assumes "env_ok w n st" "env_vars st k = Some v"
  shows "env_get w k st = Some (Done (Some v))"
  using env_lookup [OF assms(1), of k] assms by (simp add: env_get_def env_ok_def)

lemma env_set_value:
  assumes "env_ok w (Suc n) st" "var_name k" "v \<noteq> []"
  shows "\<exists>st1. env_set w (Some k) (Some v) st = Some (Done (0, st1)) \<and> env_get w k st1 = Some (Done (Some v)) \<and>
     env_ok w n st1 \<and> env_vars st1 = (env_vars st)(k \<mapsto> v)"
proof -
  obtain n' where n': "env_vars st k = None \<Longrightarrow> Suc n = Suc n'" "env_vars st k \<noteq> None \<Longrightarrow> Suc n = n'" "n \<le> n'"
    by (cases "env_vars st k") auto
  from env_set_law [OF assms(1) n'(1,2) assms(2,3)] obtain st1 where st1: "env_set w (Some k) (Some v) st = Some (Done (0, st1))"
    "env_ok w n' st1" "env_vars st1 = (env_vars st)(k \<mapsto> v)" by blast
  moreover have "env_ok w n st1" using st1(2) n'(3) by (auto simp: env_ok_def hash_room_def)
  ultimately show ?thesis using env_get_set [OF st1(2)] by auto
qed

lemma env_hex_set:
  assumes "env_ok w (Suc n) st" "var_name k" "length (snd str) = 19" "unat (fst str) + 19 < 2 ^ 32"
  shows "\<exists>st1. env_set_hex w str k v st = Some (Done (0, st1)) \<and> env_get_hex w k d st1 = Some (Done v) \<and> env_get_ulong w k 16 d st1 = Some (Done v) \<and>
     (\<forall>j. j \<noteq> k \<longrightarrow> env_vars st1 j = env_vars st j)"
proof -
  obtain m where m: "sprintf (fst str) (ascii ''0x%lx'') [VInt v] (snd str) = Done (int (length (hex_value v)), m, [])" "takeWhile (\<lambda>c. c \<noteq> 0) m = hex_value v"
    using sprintf_hex [OF assms(3,4)] by blast
  obtain st1 where s: "env_set w (Some k) (Some (hex_value v)) st = Some (Done (0, st1))" "env_get w k st1 = Some (Done (Some (hex_value v)))"
    "env_vars st1 = (env_vars st)(k \<mapsto> hex_value v)" using env_set_value [OF assms(1,2) hex_value_facts(3)] by blast
  have "simple_strtoul (hex_value v @ [0]) 0 16 = Done (v, 2 + length (base_rev 16 (unat v)))"
    using strtoul_hex [of "unat v"] by (simp add: hex_value_def)
  then show ?thesis using s m by (intro exI [of _ st1]) (simp add: env_set_hex_def env_get_hex_def env_get_ulong_def)
qed

text \<open>C37: a number stored in a variable is read back: \<open>env_set_hex\<close> and then \<open>env_get_hex\<close> or \<open>env_get_ulong\<close> in base 16, \<open>env_set_ulong\<close> and then
  \<open>env_get_ulong\<close> in base 10, for every 32-bit number and whatever the buffer on the stack held.  No other variable changes.\<close>

theorem env_numbers_roundtrip:
  assumes "env_ok w (Suc n) st" "var_name k" "length (snd str) = 19" "unat (fst str) + 19 < 2 ^ 32"
  shows "(\<exists>st1. env_set_hex w str k v st = Some (Done (0, st1)) \<and> env_get_hex w k d st1 = Some (Done v) \<and> env_get_ulong w k 16 d st1 = Some (Done v) \<and>
       (\<forall>j. j \<noteq> k \<longrightarrow> env_vars st1 j = env_vars st j)) \<and>
     (\<exists>st1. env_set_ulong w k v st = Some (Done (0, st1)) \<and> env_get_ulong w k 10 d st1 = Some (Done v) \<and>
       (\<forall>j. j \<noteq> k \<longrightarrow> env_vars st1 j = env_vars st j))"
proof
  show "\<exists>st1. env_set_hex w str k v st = Some (Done (0, st1)) \<and> env_get_hex w k d st1 = Some (Done v) \<and> env_get_ulong w k 16 d st1 = Some (Done v) \<and>
       (\<forall>j. j \<noteq> k \<longrightarrow> env_vars st1 j = env_vars st j)"
    by (rule env_hex_set [OF assms])
  let ?v = "rev (map digit_byte (dec_rev (unat v)))"
  have "?v \<noteq> []" by simp
  then obtain st2 where t: "env_set w (Some k) (Some ?v) st = Some (Done (0, st2))" "env_get w k st2 = Some (Done (Some ?v))"
    "env_vars st2 = (env_vars st)(k \<mapsto> ?v)" using env_set_value [OF assms(1,2)] by blast
  then show "\<exists>st1. env_set_ulong w k v st = Some (Done (0, st1)) \<and> env_get_ulong w k 10 d st1 = Some (Done v) \<and>
       (\<forall>j. j \<noteq> k \<longrightarrow> env_vars st1 j = env_vars st j)"
    using strtoul_dec [of "unat v"] by (intro exI [of _ st2]) (simp add: env_set_ulong_def simple_itoa_digits env_get_ulong_def)
qed

theorem env_numbers_roundtrip_witness:
  "\<exists>st st1. env_set_hex open_world (0x9cdf0000, replicate 19 0xff) (ascii ''kernel_addr'') 0x62000000 st = Some (Done (0, st1)) \<and>
     env_get_hex open_world (ascii ''kernel_addr'') 0 st1 = Some (Done 0x62000000)"
proof -
  obtain st where "env_ok open_world 4 st" by (rule one_variable)
  then have st: "env_ok open_world (Suc 3) st" by simp
  have k: "var_name (ascii ''kernel_addr'')" by code_simp
  from env_numbers_roundtrip [OF st k, where str = "(0x9cdf0000, replicate 19 0xff)" and v = "0x62000000" and d = 0] show ?thesis by auto
qed

end
