(* ===== verification/SysSearch.thy ===== *)
theory SysSearch
  imports EnvNumbers SysMemUse
begin

text \<open>
  The command \<open>sysmem_search\<close> of \<open>lib/sysmem.c\<close>: it looks for memory nobody uses and leaves its address in the variable \<open>smem_addr\<close>.  The command works on the
  state of the memory manager and on the environment.
\<close>

section \<open>Model\<close>

definition do_sysmem_search :: "gdata \<Rightarrow> hworld \<Rightarrow> u32 \<times> bytes \<Rightarrow> bytes list \<Rightarrow> smstate \<Rightarrow> uenv \<Rightarrow> (int \<times> smstate \<times> uenv) outcome option" where
  "do_sysmem_search G w str argv S st =
     (if length argv \<noteq> 2 then Some (Done (CMD_RET_USAGE, S, st))
      else bind_run (Some (simple_strtoul (argv ! 1 @ [0]) 0 16)) (\<lambda>(sz, _).
        if sz = 0 then Some (Done (CMD_RET_USAGE, S, st))
        else bind_run (Some (sysmem_alloc_temporary_mem G sz S)) (\<lambda>(addr, S1).
          bind_run (env_set_hex w str (ascii ''smem_addr'') addr st) (\<lambda>(_, st1). Some (Done (0, S1, st1))))))"

section \<open>Temporary memory\<close>

text \<open>The limit of the search: the memory below the stack, with a margin.\<close>

definition search_limit :: "gdata \<Rightarrow> u32" where
  "search_limit G = gd_sp G - CONFIG_SYS_STACK_SIZE - 0x2000"

lemma temporary_mem_spec:
  assumes inv: "sysmem_inv S" "has_slots S" "sysmem_has_init G S" and sz: "0 < sz" "1024 dvd unat sz" "sz \<le> search_limit G"
  shows "\<exists>a S1. sysmem_alloc_temporary_mem G sz S = Done (a, S1) \<and> sysmem_inv S1 \<and> allocated S1 = allocated S \<and>
     covers (reserved (slmb S1)) = covers (reserved (slmb S)) \<and> memory (slmb S1) = memory (slmb S) \<and>
     (if a = 0 then \<forall>c. \<not> place (slmb S) sz 10 (search_limit G) (blocks (memory (slmb S))) c
      else 1024 dvd unat a \<and> unat a + unat sz \<le> unat (search_limit G) \<and>
        {unat a..<unat a + unat sz} \<subseteq> covers (memory (slmb S)) - covers (reserved (slmb S)))"
proof -
  have ord: "orderly S" "allocated S \<noteq> []" using inv(1) by (simp_all add: sysmem_inv_def)
  have h: "lmb_pool.holds (slmb S) (map mrange (allocated S))" using ord(1) by (simp add: orderly_def)
  then have ok: "pool_ok (slmb S)" by (simp add: lmb_pool.holds_def)
  have cnt: "unat (cnt (reserved (slmb S))) < 15" using inv(2) by (simp add: has_slots_def)
  have k: "(10::nat) \<le> 10" "(2::u32) ^ 10 = 0x400" by simp_all
  show ?thesis
  proof (cases rule: pool_alloc_cases [OF ok k(1) sz(1), of "search_limit G", unfolded k(2)])
    case 1
    then show ?case using sz(3) by simp
  next
    case (2 a l1)
    have t: "pool_takes (slmb S) (a, sz) l1" using 2 sz k by (auto simp: pool_takes_def intro!: exI [of _ 10] exI [of _ "search_limit G"])
    note d = pool_takesD [OF ok t]
    obtain b where b: "b \<in> set (allocated S)" using ord(2) by (meson last_in_set)
    then have bh: "pool_held l1 (mrange b)" "range_of (mrange b) \<inter> range_of (a, sz) = {}"
      using h lmb_pool.take_frame [OF ok t, of "mrange b"] by (auto simp: lmb_pool.holds_def)
    have c1: "unat (cnt (reserved l1)) < MAX_LMB_REGIONS" using d(6) cnt by (simp add: MAX_LMB_REGIONS_def)
    obtain res l2 where f: "lmb_free l1 a sz = Done (res, l2)" "0 \<le> res" "memory l2 = memory l1" "covers (reserved l2) = covers (reserved l1) - range_of (a, sz)"
      using pool_free [OF d(1,2) bh c1] by auto
    have "pool_returns l1 (a, sz) l2" using f(1) c1 by (simp add: pool_returns_def)
    then have "lmb_pool.holds l2 (map mrange (allocated S))" using lmb_pool.undo_holds [OF h _ t] ord(2) by simp
    then have i: "sysmem_inv (S\<lparr>slmb := l2\<rparr>)" using inv_new_lmb(1) [OF inv(1)] f(3) d(3) by simp
    have "covers (reserved l2) = covers (reserved (slmb S))" using f(4) d(4,5) by blast
    moreover have "search_limit G \<noteq> LMB_ALLOC_ANYWHERE" using sz(1,3) by (auto simp: LMB_ALLOC_ANYWHERE_def)
    then have "1024 dvd unat a" "unat a + unat sz \<le> unat (search_limit G)" using 2(3) by (auto simp: place_def fits_def room_top_def)
    moreover have "{unat a..<unat a + unat sz} \<subseteq> covers (memory (slmb S)) - covers (reserved (slmb S))"
      using d(4,8) by (auto simp: range_of_def)
    ultimately show ?thesis using 2 f i d(3) inv(3)
      by (intro exI [of _ a] exI [of _ "S\<lparr>slmb := l2\<rparr>"]) (simp add: sysmem_alloc_temporary_mem_def search_limit_def [symmetric])
  next
    case (3 l1)
    have "lmb_pool.holds l1 (map mrange (allocated S))" using h 3 by (auto simp: lmb_pool.holds_def pool_held_def within_def)
    then have i: "sysmem_inv (S\<lparr>slmb := l1\<rparr>)" using inv_new_lmb(1) [OF inv(1)] 3 by simp
    have "covers (reserved l1) = covers (reserved (slmb S))" using 3 by (simp add: covers_def)
    with 3 i inv(3) cnt show ?thesis
      by (intro exI [of _ 0] exI [of _ "S\<lparr>slmb := l1\<rparr>"]) (simp add: sysmem_alloc_temporary_mem_def search_limit_def [symmetric] MAX_LMB_REGIONS_def)
  qed
qed

section \<open>The command\<close>



end
