(* ===== verification/Spec2Isabelle.thy ===== *)
theory Spec2Isabelle
  imports RkCrc Vendor VendorMac XmioLed RkFlash AvbAb ByteQueues Lmb RkUnpack UbString RkParm Atags NvEdit BiDram SysSearch
begin

text \<open>
  A verification library for the RK3128 XMIO Armbian repository.

  \<^bold>\<open>The program.\<close>  The repository brings Armbian to a television box with a Rockchip RK3128.  Its own C code is a
  set of host and target tools under \<open>src/tools\<close>; the boot loader is the U-Boot fork under
  \<open>src/repos/u-boot-rk3128-tvbox\<close>.  The parts meet in data: \<open>rkcrc\<close> writes the parameter and kernel containers,
  \<open>rkflashtool\<close> sends images, parameter blocks and boot code to the flash over USB, \<open>rkunpack\<close> takes firmware images apart;
  U-Boot takes over the tags of the loader before it, reads the parameter block as its partition table and kernel command line, holds its
  variables in a hash table, keeps serial number and MAC address in the vendor
  storage, selects an A/B slot and manages memory for the images it loads; under Linux \<open>v24-vendor-mac\<close> writes the MAC
  into the vendor storage and the \<open>xmio-led\<close> daemon shows network and disk state.

  \<^bold>\<open>Theories and sources.\<close>
  \<^item> \<open>Prelude\<close>: words, byte buffers, the little- and big-endian accessors, \<open>outcome\<close> (\<open>Done\<close>, \<open>Fatal\<close> for an exit with a
    message, \<open>Fault\<close> for an access outside an object), and the lemma collections the other theories share.
  \<^item> \<open>RkCrc\<close>: \<open>rkcrc.h\<close> (both CRCs, table-driven and bitwise, the tables entry by entry) and \<open>rkcrc.c\<close> (\<open>rkcrc_main\<close>).
    The tables are correct, any single damaged byte is detected, and the container is tag, length, content, CRC.
  \<^item> \<open>Vendor\<close>: \<open>arch/arm/mach-rockchip/vendor.c\<close>.  The image in memory is the record \<open>vendor_image\<close>, the four slots on the
    medium a function of the sector.  A write refines one update of a map, is read back, survives a
    power cycle, and a torn write leaves the image saved before it.
  \<^item> \<open>CText\<close>: \<open>sscanf\<close>, \<open>strtoul\<close> and \<open>printf\<close> of the C library as far as the tools use them.
  \<^item> \<open>VendorMac\<close>: \<open>tools/v24-vendor-mac.c\<close> over the driver interface that \<open>Vendor\<close> interprets.
  \<^item> \<open>XmioLed\<close>: \<open>tools/xmio-led.c\<close>: the address, link, gateway and disk probes, the echo request, the state of the
    daemon (\<open>daemon\<close>) and one turn of its loop.  The LED shows the state after every turn and follows a steady
    network within a bounded number of turns.
  \<^item> \<open>RkFlash\<close>: \<open>rkflashtool.c\<close>: command frames, every action, the partition search, the argument parser and \<open>main\<close>; the
    device behind \<open>libusb\<close> is an argument.
  \<^item> \<open>AvbAb\<close>: \<open>lib/avb/libavb_ab/avb_ab_flow.c\<close> with \<open>avb_crc32.c\<close>: metadata, slot selection, rollback indexes and the mark
    functions; slot verification and the stores are arguments.  A boot implements its specification on the
    stored metadata, and unproven boots are bounded by the tries.
  \<^item> \<open>ByteQueues\<close>: \<open>lib/membuff.c\<close> and \<open>lib/circbuf.c\<close>, two ring buffers behind one first-in first-out interface.
  \<^item> \<open>Lmb\<close>: \<open>lib/lmb.c\<close>, the memory map: reserving, freeing and allocating described by the set of addresses a table
    covers, with every index into the fixed arrays checked.  \<open>LmbPool\<close>: the table as a pool of ranges that are taken and given back.
  \<^item> \<open>MemBlk\<close>: \<open>include/memblk.h\<close> and \<open>arch/arm/mach-rockchip/memblk.c\<close>, the kinds of memory blocks with their attributes.
  \<^item> \<open>SysMem\<close>, \<open>SysMemUse\<close>: \<open>lib/sysmem.c\<close>, the manager of the memory images are loaded to (\<open>smstate\<close>): initialisation from the banks, allocation by
    number and by name, freeing.  The blocks handed out stay apart in every run, and freeing undoes an allocation.
  \<^item> \<open>BiDram\<close>: \<open>lib/bidram.c\<close> with the board's \<open>board_bidram_reserve\<close>: the banks in \<open>gd->bd\<close> are the memory less what is reserved, and no block of
    \<open>SysMem\<close> touches it; \<open>sysmem_overflow_check\<close>, which reads both managers, reports exactly the damaged and overlapped blocks.
  \<^item> \<open>RkUnpack\<close>: \<open>rkunpack.c\<close> for the RKAF, RKFW and RKFP formats, on the mapped image.
  \<^item> \<open>UbString\<close>: \<open>lib/string.c\<close>, \<open>lib/ctype.c\<close> and \<open>lib/strto.c\<close> on a memory of bytes: pointers are indices, every
    access is checked, and the word-wise loops are modelled as they are and shown equal to the bytewise meaning.
  \<^item> \<open>RkParm\<close>: \<open>disk/part_rkparm.c\<close>, the partition driver, over the string routines of \<open>UbString\<close>: the partitions
    found are the ones the parameter block lists.
  \<^item> \<open>Atags\<close>: \<open>arch/arm/mach-rockchip/rk_atags.c\<close>: the chain of tags the loaders leave in memory, on the bytes themselves.  Whatever is set in
    whatever order, the data set last is found, and the chain stays inside its area.
  \<^item> \<open>EnvHash\<close>: the table of \<open>lib/hashtable.c\<close> (\<open>hsearch_data\<close>, slots with their marks): the prime sizes, the probe sequence, search, insertion and
    deletion refine a map from names to values.
  \<^item> \<open>QSort\<close>: \<open>lib/qsort.c\<close>.  \<open>CStrings\<close>: \<open>strcmp\<close>, \<open>strstr\<close> and \<open>strtok\<close> on whole strings, equal to those of \<open>UbString\<close> on memory.
  \<^item> \<open>EnvText\<close>: \<open>hexport_r\<close>, \<open>himport_r\<close> and \<open>hwalk_r\<close>: what is exported is imported again.
  \<^item> \<open>NvEdit\<close>: \<open>cmd/nvedit.c\<close>: getting and setting variables and the editing of command lines, whose merge has a specification on lists of words.
  \<^item> \<open>VsNumber\<close>, \<open>VsPrintf\<close>: \<open>lib/vsprintf.c\<close>: the decimal conversion by binary coded digits, numbers and strings in their fields, the parser of formats
    and the output into a bounded buffer.  The numerals are exact at every width, and \<open>vsnprintf\<close> stays inside its buffer.
  \<^item> \<open>Uuid\<close>: \<open>lib/uuid.c\<close>; \<open>Charset\<close>: \<open>lib/charset.c\<close>.  Identifiers survive the way to text and back, well-formed UTF-16 becomes the UTF-8 of
    the same code points.
  \<^item> \<open>EnvNumbers\<close>: numbers in variables (\<open>env_set_hex\<close>, \<open>env_get_hex\<close> and their decimal kin).  \<open>SysSearch\<close>: the command \<open>sysmem_search\<close>, which joins the memory
    manager and the environment.
  \<^item> This theory: components together.  A parameter file written by \<open>rkflashtool\<close> is the partition table \<open>part_rkparm.c\<close> finds, and the command
    line of the block is merged into the variable \<open>bootargs\<close>.

  \<^bold>\<open>Interfaces.\<close>  \<open>streaming_checksum\<close> and \<open>detecting_checksum\<close> (both CRCs), \<open>item_store\<close> (the vendor storage),
  \<open>vendor_driver\<close> (what the MAC tool needs of it), \<open>byte_fifo\<close> (both ring buffers), \<open>range_table\<close> (both tables of the memory
  map), \<open>address_pool\<close> (the memory map as the block manager uses it), \<open>first_search\<close> (\<open>strchr\<close> and \<open>strstr\<close> for the partition driver), \<open>keyed_store\<close> (the tags) and \<open>var_store\<close> (the table of the
  environment) are locales, interpreted on the definitions of the
  component that provides them; the clients' lemmas are proved inside.

  \<^bold>\<open>Loops.\<close>  Loops are recursions with a termination proof, but for three kinds.  \<open>read_flash\<close> and \<open>erase_loop\<close> count sectors
  down by 32 and may step over zero: they take fuel, one unit per turn, and one unit per 32 sectors is proved enough
  for a multiple of 32 sectors, while no fuel is enough otherwise.  \<open>hprobe\<close>, the search in the hash table, takes the size of the table as
  fuel, which is proved enough for prime sizes.  \<open>double_until\<close> (the growth of a \<open>membuff\<close>), \<open>for_each_tag\<close> (the walk along the
  tags), \<open>isprime_loop\<close> and \<open>next_prime\<close> are partial functions; they are proved to return for every size but 0, for every chain the
  code builds, and for the sizes the environment asks for.

  \<^bold>\<open>Integers.\<close>  Machine integers are words of their width; \<open>unsigned long\<close> and pointers have the 32 bits of the box, so sums of
  addresses and sizes wrap where the code lets them.  Values bounded by a buffer are natural numbers.

  \<^bold>\<open>Outside the model.\<close>  The USB device, block devices, sockets, \<open>sysfs\<close> files, allocator and file system are inputs: functions or
  recorded results, with the behaviour a theorem relies on as a hypothesis and an instance of it in the witness.

  \<^bold>\<open>Not modelled.\<close>  The \<open>mtd_*\<close> branch of \<open>vendor.c\<close>, which the configuration of the box compiles out, and its device-tree
  fix-up; \<open>avb_slot_verify\<close> (its result is an argument of the A/B flow); \<open>membuff_dispose\<close>, \<open>buf_free\<close> and
  \<open>lmb_dump_all\<close>; the configuration \<open>PARTS_RKPARM\<close> of the partition driver; the regular expressions of \<open>slre.c\<close>, an argument of the export;
  the commands of \<open>nvedit.c\<close> that print, ask, edit, save, import and export.  Freed memory is not tracked: a name or value a freed pointer still
  refers to keeps its bytes.  Of U-Boot the device drivers (register accesses of hardware the sources do not describe), other
  boards, generated tables and imported libraries are left out, as are \<open>common/android_ab.c\<close>, \<open>resource_img.c\<close> and the reading of the loader's
  parameters, whose results are arguments of the memory managers; \<open>sysmem_dump\<close>, \<open>bidram_dump\<close>,
  \<open>printf\<close> and \<open>vprintf\<close> only write to the console.  Shell, Python and PowerShell scripts are glue.
\<close>

section \<open>From the flash tool to the boot loader\<close>

text \<open>The world U-Boot finds on a raw NAND with the given sectors.\<close>

definition nand_world :: "(nat \<Rightarrow> bytes) \<Rightarrow> parm_world" where
  "nand_world f = \<lparr>memalign_ok = True, calloc_ok = True, malloc_ok = (\<lambda>_. True),
     blk_dread = (\<lambda>off n. Some (sectors f (unat off) n))\<rparr>"

lemma zstr_takeWhile:
  assumes "drop p m = c @ rest" "0 \<notin> set c" "0 \<in> set rest"
  shows "zstr m p (c @ takeWhile (\<lambda>b. b \<noteq> 0) rest)"
proof -
  from assms(3) obtain xs ys where r: "rest = xs @ 0 # ys" "0 \<notin> set xs" using split_list_first by fastforce
  then have "takeWhile (\<lambda>b. b \<noteq> 0) rest = xs" by (subst r(1), subst takeWhile_append2) auto
  then show ?thesis using assms r by (auto simp: zstr_def)
qed

text \<open>Behind its header of eight bytes the first copy of the block is the file, the check sum, and what the buffer held.\<close>

lemma write_params_first_copy:
  assumes "lba_device u idle flash" "idle (dev s)" "length (buf s) = 16384"
    and "stdin s = [Some content]" "length content \<le> 16372"
  shows "\<exists>s1 more. write_params u s = Done s1 \<and>
     drop 8 (sectors (flash (dev s1)) 0 128) = content @ put32le (rkcrc32 0 content) @ drop (12 + length content) (buf s) @ more"
proof -
  define s0 where "s0 = s\<lparr>stdin := [], buf := parm_block (buf s) content\<rparr>"
  define s1 where "s1 = fold (\<lambda>off. transact_out u RKFT_CMD_WRITELBA off 32 16384) param_offsets s0"
  have w: "write_params u s = Done s1" using write_params_eq [OF assms(4,5,3)] by (simp add: s1_def s0_def)
  have "length (buf s0) = 16384" using assms(3,5) by (simp add: s0_def length_parm_block)
  moreover have "idle (dev s0)" using assms(2) by (simp add: s0_def)
  ultimately have "sectors (flash (dev s1)) (unat (0 :: u32)) 32 = buf s0"
    using write_copies [OF assms(1) _ _ param_offsets_sorted s1_def] by (simp add: param_offsets_def)
  then have "sectors (flash (dev s1)) 0 128 = parm_block (buf s) content @ sectors (flash (dev s1)) 32 96"
    using sectors_append [of "flash (dev s1)" 0 32 96] by (simp add: s0_def)
  with w show ?thesis by (simp add: parm_block_def rk_container_def)
qed

text \<open>C8: A parameter file flashed with the \<open>P\<close> action of \<open>rkflashtool\<close> becomes the partition table of U-Boot on raw NAND: with the
  sectors the tool left on the device, partition \<open>idx\<close> of \<open>part_get_info_rkparm\<close> is entry \<open>idx\<close> of the table in the file.  The file has
  no NUL, and the transfer buffer, which the tool starts with all zeros, has one left behind it.\<close>

theorem flashed_parameters_are_the_partitions:
  assumes "lba_device u idle flash" "idle (dev s)" "length (buf s) = 16384"
    and "stdin s = [Some (parm_text before args device e es after)]" "length (parm_text before args device e es after) \<le> 16372"
    and "0 \<notin> set (parm_text before args device e es after)" "0 \<in> set (drop (12 + length (parm_text before args device e es after)) (buf s))"
    and "table_ok before args device e es after" "if_type nand = IF_TYPE_RKNAND"
  shows "\<exists>s1 st1. write_params u s = Done s1 \<and>
     (\<forall>idx\<ge>1. part_get_info_rkparm (nand_world (flash (dev s1))) nand idx parm_initial =
        Done (if idx \<le> int (length (e # es)) then (0, Some (info_of nand (part_of nand ((e # es) ! nat (idx - 1)))), st1)
              else (- EINVAL, None, st1)))"
proof -
  let ?t = "parm_text before args device e es after"
  obtain s1 more where w: "write_params u s = Done s1"
    and d: "drop 8 (sectors (flash (dev s1)) 0 128) = ?t @ put32le (rkcrc32 0 ?t) @ drop (12 + length ?t) (buf s) @ more"
    using write_params_first_copy [OF assms(1-5)] by blast
  let ?x = "takeWhile (\<lambda>b. b \<noteq> 0) (put32le (rkcrc32 0 ?t) @ drop (12 + length ?t) (buf s) @ more)"
  have "zstr (sectors (flash (dev s1)) 0 128) 8 (?t @ ?x)"
    using d assms(6) by (rule zstr_takeWhile) (use assms(7) in simp)
  then have "table_block (sectors (flash (dev s1)) 0 128) 8 before args device e es (after @ ?x)"
    using assms(8) by (simp add: table_block_def table_ok_append) (simp add: parm_text_def)
  moreover have "blk_dread (nand_world (flash (dev s1))) (parm_offset nand) 128 = Some (sectors (flash (dev s1)) 0 128)"
    using assms(9) by (simp add: nand_world_def parm_offset_def)
  ultimately obtain st1 where "refresh (nand_world (flash (dev s1))) nand parm_initial = Done (0, st1)"
      "parts_head st1 = map (part_of nand) (e # es)"
    using refresh_table [of _ before args device e es "after @ ?x" "nand_world (flash (dev s1))" nand parm_initial]
    by (auto simp: nand_world_def stale_def parm_initial_def)
  from get_info_refreshed [OF this] w show ?thesis by blast
qed

theorem flashed_parameters_are_the_partitions_witness:
  "\<exists>s1 st1. write_params sim_usb (sim_start [Some sample_text]) = Done s1 \<and>
     part_get_info_rkparm (nand_world (sim_flash (dev s1))) (sample_dev\<lparr>if_type := IF_TYPE_RKNAND\<rparr>) 1 parm_initial =
        Done (0, Some (info_of (sample_dev\<lparr>if_type := IF_TYPE_RKNAND\<rparr>)
          (part_of (sample_dev\<lparr>if_type := IF_TYPE_RKNAND\<rparr>) (Some 0x2000, 0x2000, ascii ''uboot''))), st1)"
proof -
  have "stdin (sim_start [Some sample_text]) = [Some (parm_text (ascii ''VER:1 '') (ascii ''quiet '') (ascii ''rk'')
      (Some 0x2000, 0x2000, ascii ''uboot'') [(None, 0x6000, ascii ''rootfs'')] [])]"
    by (simp add: sample_text_def)
  note w = flashed_parameters_are_the_partitions [OF sim_lba_device _ _ this _ _ _ sample_text_ok(2),
      of "sample_dev\<lparr>if_type := IF_TYPE_RKNAND\<rparr>", folded sample_text_def]
  show ?thesis
    using w sample_text_ok(1) length_sample_text by (fastforce simp: sim_start_def)
qed

section \<open>From the parameter block to the environment\<close>

text \<open>The calls the partition driver makes, on the environment.\<close>

definition do_env_call :: "hworld \<Rightarrow> env_call \<Rightarrow> uenv \<Rightarrow> uenv outcome option" where
  "do_env_call w c st = bind_run
     (case c of Update_filter k v ignore \<Rightarrow> env_update_filter w (ascii k) v (Some (ascii ignore)) st
      | Env_set k v \<Rightarrow> env_set w (Some (ascii k)) (Some v) st) (\<lambda>(_, st1). Some (Done st1))"

fun do_env_calls :: "hworld \<Rightarrow> env_call list \<Rightarrow> uenv \<Rightarrow> uenv outcome option" where
  "do_env_calls w [] st = Some (Done st)"
| "do_env_calls w (c # cs) st = bind_run (do_env_call w c st) (do_env_calls w cs)"

lemma env_ok_less: "env_ok w (Suc n) st \<Longrightarrow> env_ok w n st"
  by (auto simp: env_ok_def hash_room_def)

lemma part_var_names: "var_name (ascii ''mtdparts'')" "var_name (ascii ''blkdevparts'')" "var_name (ascii ''bootargs'')"
    "ascii ''bootargs'' \<noteq> ascii ''mtdparts''" "ascii ''bootargs'' \<noteq> ascii ''blkdevparts''"
  by code_simp+

lemma part_calls_run:
  assumes "list_all (\<lambda>c. case c of Env_set k v \<Rightarrow> k \<in> {''mtdparts'', ''blkdevparts''} \<and> v \<noteq> [] | Update_filter _ _ _ \<Rightarrow> False) calls"
    "env_ok w (length calls) st"
  shows "\<exists>st1. do_env_calls w calls st = Some (Done st1) \<and> env_vars st1 (ascii ''bootargs'') = env_vars st (ascii ''bootargs'')"
  using assms
proof (induction calls arbitrary: st)
  case (Cons c calls)
  then obtain k v where c: "c = Env_set k v" "k = ''mtdparts'' \<or> k = ''blkdevparts''" "v \<noteq> []" by (cases c) auto
  have "var_name (ascii k)" "ascii ''bootargs'' \<noteq> ascii k" using c(2) part_var_names by auto
  moreover obtain n where "env_ok w n st" "env_vars st (ascii k) = None \<Longrightarrow> n = Suc (length calls)" "env_vars st (ascii k) \<noteq> None \<Longrightarrow> n = length calls"
    using Cons.prems(2) env_ok_less [of w "length calls" st] by (cases "env_vars st (ascii k)") auto
  ultimately obtain st1 where "env_set w (Some (ascii k)) (Some v) st = Some (Done (0, st1))" "env_ok w (length calls) st1"
      "env_vars st1 (ascii ''bootargs'') = env_vars st (ascii ''bootargs'')"
    using env_set_law [of w n st "ascii k" "length calls" v] c(3) by auto
  with Cons.IH [of st1] Cons.prems(1) show ?case by (simp add: do_env_call_def c(1))
qed simp

text \<open>C9: The first request for a partition merges the command line of the parameter block into \<open>bootargs\<close>: when the driver has parsed the block, the
  calls it made leave in \<open>bootargs\<close> the words that were there, with every item the block names anew replaced in its place, and behind them the other
  words of the block; words with \<open>initrd=\<close> are left out.\<close>

theorem parameter_line_becomes_bootargs:
  assumes "table_block m 8 before args device e es after" "blk_dread w (parm_offset nand) 128 = Some m"
    and "memalign_ok w" "\<forall>k. malloc_ok w k" "stale nand s"
    and "env_ok hw 2 st" "env_vars st (ascii ''bootargs'') = Some (join sp old)" "old \<noteq> []"
    and "new = filter (kept (Some (ascii ''initrd='')))
       (tokens sp (args @ ascii ''mtdparts='' @ device @ ascii '':'' @ entry_text e @ tail_text es))"
    and "mergeable (old @ filter (\<lambda>v. \<not> has_eq v) new) (filter has_eq new)" "distinct (filter (\<lambda>v. \<not> has_eq v) new)"
    and "set old \<inter> set (filter (\<lambda>v. \<not> has_eq v) new) = {}" "length (filter has_eq old) \<le> 50" "length (filter has_eq new) < 50"
  shows "\<exists>s1 st1. part_get_info_rkparm w nand 1 s = Done (0, Some (info_of nand (part_of nand e)), s1) \<and>
     do_env_calls hw (drop (length (env_calls s)) (env_calls s1)) st = Some (Done st1) \<and>
     env_vars st1 (ascii ''bootargs'') = Some (join sp (merged (old @ filter (\<lambda>v. \<not> has_eq v) new) (filter has_eq new)))"
proof -
  let ?line = "args @ ascii ''mtdparts='' @ device @ ascii '':'' @ entry_text e @ tail_text es"
  obtain s1 calls where r: "refresh w nand s = Done (0, s1)" "parts_head s1 = map (part_of nand) (e # es)"
      "env_calls s1 = env_calls s @ Update_filter ''bootargs'' ?line ''initrd='' # calls" "part_calls calls"
    using refresh_table [OF assms(1-5)] by blast
  from get_info_refreshed [OF r(1,2), of 1] have i: "part_get_info_rkparm w nand 1 s = Done (0, Some (info_of nand (part_of nand e)), s1)" by simp
  obtain st1 where st1: "env_update_filter hw (ascii ''bootargs'') ?line (Some (ascii ''initrd='')) st = Some (Done (0, st1))" "env_ok hw 2 st1"
      "env_vars st1 (ascii ''bootargs'') = Some (join sp (merged (old @ filter (\<lambda>v. \<not> has_eq v) new) (filter has_eq new)))"
    using env_update_filter_merges [OF assms(6) part_var_names(3) assms(7,9,8,10-14)] by auto
  have pc: "length calls \<le> 2" "list_all (\<lambda>c. case c of Env_set k v \<Rightarrow> k \<in> {''mtdparts'', ''blkdevparts''} \<and> v \<noteq> [] | Update_filter _ _ _ \<Rightarrow> False) calls"
    using r(4) by (simp_all add: part_calls_def)
  have "env_ok hw (length calls) st1" using st1(2) pc(1) by (auto simp: env_ok_def hash_room_def)
  with part_calls_run [OF pc(2)] obtain st2 where "do_env_calls hw calls st1 = Some (Done st2)"
      "env_vars st2 (ascii ''bootargs'') = env_vars st1 (ascii ''bootargs'')" by blast
  with i r(3) st1 show ?thesis by (simp add: do_env_call_def)
qed

lemma sample_table_text:
  "entry_text (Some 0x2000, 0x2000, ascii ''uboot'') @ tail_text [(None, 0x6000, ascii ''rootfs'')] =
    ascii ''0x00002000@0x00002000(uboot),-@0x00006000(rootfs)''"
proof -
  have "hex32 0x2000 = ascii ''0x00002000''" "hex32 0x6000 = ascii ''0x00006000''"
    by (simp_all add: hex32_def print_08X_def hexchar_up_def ascii_def)
  then show ?thesis by (simp add: tail_text_def ascii_def)
qed

theorem parameter_line_becomes_bootargs_witness:
  "\<exists>st s1 st1. env_vars st = [ascii ''bootargs'' \<mapsto> ascii ''root=/dev/mmcblk0p2 ro''] \<and>
     part_get_info_rkparm sample_world sample_dev 1 parm_initial =
       Done (0, Some (info_of sample_dev (part_of sample_dev (Some 0x2000, 0x2000, ascii ''uboot''))), s1) \<and>
     do_env_calls open_world (env_calls s1) st = Some (Done st1) \<and>
     env_vars st1 (ascii ''bootargs'') =
       Some (ascii ''root=/dev/mmcblk0p2 ro quiet mtdparts=rk:0x00002000@0x00002000(uboot),-@0x00006000(rootfs)'')"
proof -
  let ?old = "[ascii ''root=/dev/mmcblk0p2'', ascii ''ro'']" and ?k = "ascii ''bootargs''" and ?p = "[ascii ''quiet'']"
  let ?i = "[ascii ''mtdparts=rk:0x00002000@0x00002000(uboot),-@0x00006000(rootfs)'']"
  let ?new = "[ascii ''quiet'', ascii ''mtdparts=rk:0x00002000@0x00002000(uboot),-@0x00006000(rootfs)'']"
  have l: "ascii ''quiet '' @ ascii ''mtdparts='' @ ascii ''rk'' @ ascii '':'' @ ascii ''0x00002000@0x00002000(uboot),-@0x00006000(rootfs)'' =
      ascii ''quiet mtdparts=rk:0x00002000@0x00002000(uboot),-@0x00006000(rootfs)''" by (simp add: ascii_def)
  have "?new = filter (kept (Some (ascii ''initrd=''))) (tokens sp (ascii ''quiet mtdparts=rk:0x00002000@0x00002000(uboot),-@0x00006000(rootfs)''))"
    by code_simp
  then have n: "?new = filter (kept (Some (ascii ''initrd=''))) (tokens sp (ascii ''quiet '' @ ascii ''mtdparts='' @ ascii ''rk'' @ ascii '':'' @
      entry_text (Some 0x2000, 0x2000, ascii ''uboot'') @ tail_text [(None, 0x6000, ascii ''rootfs'')]))"
    unfolding sample_table_text l .
  have f: "filter (\<lambda>v. \<not> has_eq v) ?new = ?p" "filter has_eq ?new = ?i" by code_simp+
  have j: "join sp ?old = ascii ''root=/dev/mmcblk0p2 ro''"
    "join sp (merged (?old @ ?p) ?i) = ascii ''root=/dev/mmcblk0p2 ro quiet mtdparts=rk:0x00002000@0x00002000(uboot),-@0x00006000(rootfs)''"
    by code_simp+
  have m: "mergeable (?old @ ?p) ?i" by code_simp
  have d: "distinct ?p" "set ?old \<inter> set ?p = {}" "length (filter has_eq ?old) \<le> 50" "length ?i < 50" by code_simp+
  have w: "blk_dread sample_world (parm_offset sample_dev) 128 = Some sample_block" "memalign_ok sample_world" "\<forall>k. malloc_ok sample_world k" "stale sample_dev parm_initial"
    by (simp_all add: sample_world_def stale_def parm_initial_def)
  have no: "?old \<noteq> []" by simp
  obtain st where st: "env_ok open_world 4 st" "env_vars st = [?k \<mapsto> ascii ''root=/dev/mmcblk0p2 ro'']" by (rule one_variable)
  then have "env_ok open_world 2 st" "env_vars st ?k = Some (join sp ?old)" using j(1) by (auto simp: env_ok_def hash_room_def)
  from parameter_line_becomes_bootargs [OF sample_block_ok w this no n, unfolded f j(2), OF m d] st(2)
  show ?thesis by (intro exI [of _ st]) (auto simp: parm_initial_def)
qed

end
